(* ===== verification/Prelude.thy ===== *)
theory Prelude
  imports Main "HOL-Library.List_Lexorder" "HOL-Library.Char_ord"
begin

text \<open>
  Shared vocabulary of the development. Go strings are byte strings, so \<open>string\<close> (a list of
  \<open>char\<close>) is used as it is, ordered bytewise as Go orders strings. A Go map with string keys is a
  strictly sorted association list: one list per map, so that equality of models is equality of
  maps, and the order is the one in which encoding/json writes the keys. Go's functions that return
  an error are functions into a sum whose left summand is the error.
\<close>

named_theorems res_simps \<open>how binds and checks on results compute\<close>

section \<open>Errors\<close>

text \<open>
  The errors of package core: the sentinel values a caller can test with errors.Is, \<open>EMsg\<close> for an
  error that wraps none of them, \<open>EJson\<close> for one of encoding/json, and \<open>EPanic\<close> for a run-time panic.
\<close>

datatype err =
    EJson
  | EMsg string
  | EPanic
  | ErrAlreadyAccepted
  | ErrTrailerHashMismatch
  | ErrApplyRecordNotFound
  | ErrCorruptApplyRecord
  | ErrFloatRejected
  | ErrDoubleRunMismatch
  | ErrProposalNotFound
  | ErrCorruptLedgerEntry
  | ErrCorruptLedgerHead
  | ErrParentMismatch
  | ErrDuplicateProposal
  | ErrBrokenLedgerHead
  | ErrStoreObjectNotFound
  | ErrStoreObjectExists
  | ErrStoreHeadMoved
  | ErrInvalidProposal string
  | ErrResourceUnreadable
  | ErrUnknownResourceType
  | ErrStaleObservation
  | ErrNormalizationNoiseOnly
  | ErrUnsupportedKind
  | ErrNotAccepted
  | ErrAlreadyApplied
  | ErrDependencyCycle "string list"
  | ErrDanglingDependency string string
  | ErrDependencyNotApplied string
  | ErrMalformedComputedMarker string
  | ErrDependencyOutputMissing string

section \<open>Results\<close>

type_synonym ('e, 'a) res = "'e + 'a"

definition rbind :: "('e, 'a) res \<Rightarrow> ('a \<Rightarrow> ('e, 'b) res) \<Rightarrow> ('e, 'b) res" where
  "rbind r f = (case r of Inl e \<Rightarrow> Inl e | Inr a \<Rightarrow> f a)"

lemma rbind_simps [simp, res_simps]:
  "rbind (Inl e) f = Inl e" "rbind (Inr a) f = f a"
  by (simp_all add: rbind_def)

lemma rbind_Inr_iff [res_simps]: "rbind r f = Inr b \<longleftrightarrow> (\<exists>a. r = Inr a \<and> f a = Inr b)"
  by (cases r) auto

lemma rbind_Inl_iff [res_simps]:
  "rbind r f = Inl e \<longleftrightarrow> r = Inl e \<or> (\<exists>a. r = Inr a \<and> f a = Inl e)"
  by (cases r) auto

definition of_opt :: "'e \<Rightarrow> 'a option \<Rightarrow> ('e, 'a) res" where
  "of_opt e x = (case x of None \<Rightarrow> Inl e | Some a \<Rightarrow> Inr a)"

lemma of_opt_simps [simp]: "of_opt e None = Inl e" "of_opt e (Some a) = Inr a"
  by (simp_all add: of_opt_def)

lemma of_opt_Inr_iff [res_simps]: "of_opt e x = Inr a \<longleftrightarrow> x = Some a"
  by (cases x) auto

lemma of_opt_Inl_iff [res_simps]: "of_opt e x = Inl e' \<longleftrightarrow> x = None \<and> e' = e"
  by (cases x) auto

fun fold_res :: "('a \<Rightarrow> 's \<Rightarrow> ('e, 's) res) \<Rightarrow> 'a list \<Rightarrow> 's \<Rightarrow> ('e, 's) res" where
  "fold_res f [] s = Inr s"
| "fold_res f (x # xs) s = (case f x s of Inl e \<Rightarrow> Inl e | Inr s' \<Rightarrow> fold_res f xs s')"

lemma fold_res_append:
  "fold_res f (xs @ ys) s = rbind (fold_res f xs s) (fold_res f ys)"
  by (induction xs arbitrary: s) (auto split: sum.splits)

lemma fold_res_invar:
  assumes "\<And>x s s'. x \<in> set xs \<Longrightarrow> P s \<Longrightarrow> f x s = Inr s' \<Longrightarrow> P s'"
    and "P s" and "fold_res f xs s = Inr s'"
  shows "P s'"
  using assms
proof (induction xs arbitrary: s)
  case Nil
  then show ?case by simp
next
  case (Cons x xs)
  from Cons.prems(3) obtain t where t: "f x s = Inr t" "fold_res f xs t = Inr s'"
    by (auto split: sum.splits)
  have "P t" using Cons.prems(1) [of x s t] Cons.prems(2) t(1) by simp
  moreover have "\<And>y u u'. y \<in> set xs \<Longrightarrow> P u \<Longrightarrow> f y u = Inr u' \<Longrightarrow> P u'"
    using Cons.prems(1) by (meson list.set_intros(2))
  ultimately show ?case using Cons.IH t(2) by blast
qed

lemma fold_concat_map:
  "(\<And>k s. k \<in> set ks \<Longrightarrow> f k s = fold g (h k) s) \<Longrightarrow> fold f ks s = fold g (concat (map h ks)) s"
  by (induction ks arbitrary: s) auto

fun map_res :: "('a \<Rightarrow> ('e, 'b) res) \<Rightarrow> 'a list \<Rightarrow> ('e, 'b list) res" where
  "map_res f [] = Inr []"
| "map_res f (x # xs) = rbind (f x) (\<lambda>y. rbind (map_res f xs) (\<lambda>ys. Inr (y # ys)))"

lemma map_res_cong [fundef_cong]:
  "xs = ys \<Longrightarrow> (\<And>x. x \<in> set ys \<Longrightarrow> f x = g x) \<Longrightarrow> map_res f xs = map_res g ys"
  by (induction xs arbitrary: ys) auto

lemma map_res_Inr_iff:
  "map_res f xs = Inr ys \<longleftrightarrow> list_all2 (\<lambda>x y. f x = Inr y) xs ys"
  by (induction xs arbitrary: ys) (auto simp: res_simps list_all2_Cons1)

lemma map_res_Inl: "map_res f xs = Inl e \<Longrightarrow> \<exists>x \<in> set xs. f x = Inl e"
  by (induction xs) (auto simp: res_simps)

text \<open>The first value a list gives, or the first error before it.\<close>

fun first_res :: "('a \<Rightarrow> ('e, 'b option) res) \<Rightarrow> 'a list \<Rightarrow> ('e, 'b option) res" where
  "first_res f [] = Inr None"
| "first_res f (x # xs) = rbind (f x) (\<lambda>y. case y of None \<Rightarrow> first_res f xs | Some b \<Rightarrow> Inr (Some b))"

lemma first_res_none: "(\<And>x. x \<in> set xs \<Longrightarrow> f x = Inr None) \<Longrightarrow> first_res f xs = Inr None"
  by (induction xs) auto

lemma first_res_same:
  "(\<And>x. x \<in> set xs \<Longrightarrow> f x = Inr None \<or> f x = Inr (Some b)) \<Longrightarrow> \<exists>x \<in> set xs. f x = Inr (Some b) \<Longrightarrow>
   first_res f xs = Inr (Some b)"
proof (induction xs)
  case (Cons x xs)
  have "f x = Inr None \<or> f x = Inr (Some b)" using Cons.prems(1) by simp
  then show ?case using Cons by (elim disjE) auto
qed simp

lemma fold_res_id: "(\<And>x. x \<in> set xs \<Longrightarrow> f x s = Inr s) \<Longrightarrow> fold_res f xs s = Inr s"
  by (induction xs) auto

text \<open>Two folds over one list that keep a relation between their states.\<close>

lemma fold_res_rel:
  assumes "\<And>x s t s' t'. x \<in> set xs \<Longrightarrow> R s t \<Longrightarrow> f x s = Inr s' \<Longrightarrow> g x t = Inr t' \<Longrightarrow> R s' t'"
    and "R s t" "fold_res f xs s = Inr s'" "fold_res g xs t = Inr t'"
  shows "R s' t'"
  using assms
proof (induction xs arbitrary: s t)
  case Nil
  then show ?case by simp
next
  case (Cons x xs)
  then obtain u v where "f x s = Inr u" "fold_res f xs u = Inr s'" "g x t = Inr v" "fold_res g xs v = Inr t'"
    by (auto split: sum.splits)
  with Cons show ?case by (meson list.set_intros)
qed

lemma list_all2_right: "list_all2 P xs ys \<Longrightarrow> y \<in> set ys \<Longrightarrow> \<exists>x \<in> set xs. P x y"
  by (induction rule: list_all2_induct) auto

lemma list_all2_left: "list_all2 P xs ys \<Longrightarrow> x \<in> set xs \<Longrightarrow> \<exists>y \<in> set ys. P x y"
  by (induction rule: list_all2_induct) auto

text \<open>
  Calls that leave this program, to a provider, act on a world: what they answer and the world after.
\<close>

type_synonym ('w, 'e, 'a) op = "'w \<Rightarrow> ('e, 'a) res \<times> 'w"

definition obind :: "('w, 'e, 'a) op \<Rightarrow> ('a \<Rightarrow> ('w, 'e, 'b) op) \<Rightarrow> ('w, 'e, 'b) op" where
  "obind m f w = (case m w of (Inl e, w') \<Rightarrow> (Inl e, w') | (Inr a, w') \<Rightarrow> f a w')"

definition oret :: "('e, 'a) res \<Rightarrow> ('w, 'e, 'a) op" where
  "oret r w = (r, w)"

lemma obind_Inr_iff [res_simps]:
  "obind m f w = (Inr b, w') \<longleftrightarrow> (\<exists>a w1. m w = (Inr a, w1) \<and> f a w1 = (Inr b, w'))"
  by (auto simp: obind_def split: prod.splits sum.splits)

lemma obind_simps [simp]:
  "m w = (Inr a, w1) \<Longrightarrow> obind m f w = f a w1" "m w = (Inl e, w1) \<Longrightarrow> obind m f w = (Inl e, w1)"
  by (simp_all add: obind_def)

lemma oret_iff [simp]: "oret r w = (r', w') \<longleftrightarrow> r = r' \<and> w = w'"
  by (simp add: oret_def)

section \<open>Strings\<close>

fun split_on :: "char \<Rightarrow> string \<Rightarrow> string list" where
  "split_on c [] = [[]]"
| "split_on c (x # xs) =
     (if x = c then [] # split_on c xs
      else (x # hd (split_on c xs)) # tl (split_on c xs))"

fun join_with :: "char \<Rightarrow> string list \<Rightarrow> string" where
  "join_with c [] = []"
| "join_with c [w] = w"
| "join_with c (w # v # ws) = w @ c # join_with c (v # ws)"

fun splitn :: "char \<Rightarrow> nat \<Rightarrow> string \<Rightarrow> string list" where
  "splitn c 0 s = []"
| "splitn c (Suc 0) s = [s]"
| "splitn c (Suc (Suc n)) s =
     (case dropWhile (\<lambda>x. x \<noteq> c) s of
        [] \<Rightarrow> [s]
      | _ # rest \<Rightarrow> takeWhile (\<lambda>x. x \<noteq> c) s # splitn c (Suc n) rest)"

lemma split_on_not_Nil [simp]: "split_on c s \<noteq> []"
  by (cases s) auto

lemma join_split [simp]: "join_with c (split_on c s) = s"
proof (induction s)
  case Nil
  then show ?case by simp
next
  case (Cons x xs)
  obtain w ws where w: "split_on c xs = w # ws"
    by (cases "split_on c xs") auto
  with Cons show ?case by (cases ws) auto
qed

lemma split_on_no_sep: "c \<notin> set s \<Longrightarrow> split_on c s = [s]"
  by (induction s) auto

lemma split_on_sep: "c \<notin> set s \<Longrightarrow> split_on c (s @ c # t) = s # split_on c t"
  by (induction s) auto

lemma split_on_parts: "w \<in> set (split_on c s) \<Longrightarrow> c \<notin> set w"
proof (induction s arbitrary: w)
  case Nil
  then show ?case by simp
next
  case (Cons x xs)
  obtain v vs where v: "split_on c xs = v # vs"
    by (cases "split_on c xs") auto
  with Cons show ?case by (auto split: if_splits)
qed

lemma split_join:
  "ws \<noteq> [] \<Longrightarrow> \<forall>w \<in> set ws. c \<notin> set w \<Longrightarrow> split_on c (join_with c ws) = ws"
  by (induction c ws rule: join_with.induct) (auto simp: split_on_no_sep split_on_sep)

lemma join_with_snoc: "ws \<noteq> [] \<Longrightarrow> join_with c (ws @ [w]) = join_with c ws @ c # w"
proof (induction ws)
  case (Cons v ws)
  then show ?case by (cases ws) auto
qed simp

lemma split_on_inj: "split_on c s = split_on c t \<Longrightarrow> s = t"
  by (metis join_split)

lemma takeWhile_sep: "c \<notin> set s \<Longrightarrow> takeWhile (\<lambda>x. x \<noteq> c) (s @ c # t) = s"
  by (induction s) auto

lemma dropWhile_sep: "c \<notin> set s \<Longrightarrow> dropWhile (\<lambda>x. x \<noteq> c) (s @ c # t) = c # t"
  by (induction s) auto

lemma splitn_sep:
  "c \<notin> set s \<Longrightarrow> splitn c (Suc (Suc n)) (s @ c # t) = s # splitn c (Suc n) t"
  by (simp add: takeWhile_sep dropWhile_sep)

lemma splitn_not_Nil [simp]: "splitn c (Suc n) s \<noteq> []"
  by (cases n) (auto split: list.splits)

lemma join_splitn: "n > 0 \<Longrightarrow> join_with c (splitn c n s) = s"
proof (induction c n s rule: splitn.induct)
  case (3 c n s)
  show ?case
  proof (cases "dropWhile (\<lambda>x. x \<noteq> c) s")
    case Nil
    then show ?thesis by (simp del: dropWhile_eq_Nil_conv)
  next
    case (Cons d rest)
    have d: "d = c" using hd_dropWhile [of "\<lambda>x. x \<noteq> c" s] Cons by simp
    have s: "s = takeWhile (\<lambda>x. x \<noteq> c) s @ c # rest"
      using takeWhile_dropWhile_id [of "\<lambda>x. x \<noteq> c" s] Cons d by simp
    have ih: "join_with c (splitn c (Suc n) rest) = rest" using "3.IH" Cons by simp
    obtain w ws where w: "splitn c (Suc n) rest = w # ws"
      by (cases "splitn c (Suc n) rest") auto
    show ?thesis using Cons ih s w by simp
  qed
qed auto

section \<open>Maps as sorted association lists\<close>

type_synonym ('k, 'v) amap = "('k \<times> 'v) list"

definition amap_wf :: "('k::linorder, 'v) amap \<Rightarrow> bool" where
  "amap_wf m \<longleftrightarrow> sorted_wrt (<) (map fst m)"

fun aput :: "'k::linorder \<Rightarrow> 'v \<Rightarrow> ('k, 'v) amap \<Rightarrow> ('k, 'v) amap" where
  "aput k v [] = [(k, v)]"
| "aput k v (b # m) =
     (if k < fst b then (k, v) # b # m
      else if k = fst b then (k, v) # m
      else b # aput k v m)"

definition adel :: "'k \<Rightarrow> ('k, 'v) amap \<Rightarrow> ('k, 'v) amap" where
  "adel k m = filter (\<lambda>b. fst b \<noteq> k) m"

lemma amap_wf_Nil [simp]: "amap_wf []"
  by (simp add: amap_wf_def)

lemma amap_wf_Cons [simp]:
  "amap_wf (b # m) \<longleftrightarrow> (\<forall>x \<in> fst ` set m. fst b < x) \<and> amap_wf m"
  by (auto simp: amap_wf_def)

lemma map_of_aput [simp]: "map_of (aput k v m) = (map_of m)(k \<mapsto> v)"
  by (induction m) (auto simp: fun_eq_iff)

lemma map_of_adel [simp]: "map_of (adel k m) = (map_of m)(k := None)"
  by (induction m) (auto simp: adel_def fun_eq_iff)

lemma fst_aput [simp]: "fst ` set (aput k v m) = insert k (fst ` set m)"
  by (induction m) auto

lemma amap_wf_aput [simp, intro]: "amap_wf m \<Longrightarrow> amap_wf (aput k v m)"
  by (induction m) auto

lemma amap_wf_adel [simp, intro]: "amap_wf m \<Longrightarrow> amap_wf (adel k m)"
  by (induction m) (auto simp: adel_def)

lemma amap_wf_map [simp]: "amap_wf (map (\<lambda>(k, v). (k, f k v)) m) \<longleftrightarrow> amap_wf m"
  by (induction m) (auto simp: image_image case_prod_beta)

lemma set_aput_val: "(x, y) \<in> set (aput k v m) \<Longrightarrow> (x, y) = (k, v) \<or> (x, y) \<in> set m"
  by (induction m) (auto split: if_splits)

lemma amap_wf_map_of: "amap_wf m \<Longrightarrow> (k, v) \<in> set m \<Longrightarrow> map_of m k = Some v"
  by (induction m) fastforce+

lemma amap_ext:
  assumes "amap_wf m" "amap_wf n" "map_of m = map_of n"
  shows "m = n"
proof -
  have dist: "distinct (map fst l)" if "amap_wf l" for l :: "('a, 'b) amap"
    using that strict_sorted_iff unfolding amap_wf_def by blast
  have keys: "map fst m = map fst n"
  proof (rule strict_sorted_equal)
    show "sorted_wrt (<) (map fst m)" using assms by (simp add: amap_wf_def)
    show "sorted_wrt (<) (map fst n)" using assms by (simp add: amap_wf_def)
    show "set (map fst m) = set (map fst n)"
      using arg_cong [OF assms(3), of dom] by (simp add: dom_map_of_conv_image_fst)
  qed
  have "m = map (\<lambda>k. (k, the (map_of l k))) (map fst m)" if "amap_wf m" "l = m" for l m :: "('a, 'b) amap"
    using that by (auto simp: amap_wf_map_of intro!: nth_equalityI [symmetric] map_idI [symmetric])
  then show ?thesis using assms keys by metis
qed

lemma aput_aput [simp]: "amap_wf m \<Longrightarrow> aput k v (aput k w m) = aput k v m"
  by (rule amap_ext) auto

lemma aput_commute:
  "amap_wf m \<Longrightarrow> k \<noteq> l \<Longrightarrow> aput k v (aput l w m) = aput l w (aput k v m)"
  by (rule amap_ext) (auto simp: fun_upd_twist)

lemma aput_same: "amap_wf m \<Longrightarrow> map_of m k = Some v \<Longrightarrow> aput k v m = m"
  by (rule amap_ext) (auto simp: fun_upd_idem)

end
