(* ===== verification/Json.thy ===== *)
theory Json
  imports Prelude
begin

text \<open>
  The values encoding/json gives a program, and what the code uses of that package. A value of type
  \<open>gval\<close> is a Go \<open>interface{}\<close> as the decoder, and the code after it, builds it: nil, bool,
  json.Number (the literal's text), float64, int64, string, \<open>[]interface{}\<close> and
  \<open>map[string]interface{}\<close>. A json.RawMessage is \<open>raw\<close>: no bytes at all, or a document, given as
  the tree the decoder reads from it. A number leaf of a document is \<open>GNumber\<close> when the document was
  read as text, and \<open>GFloat\<close> or \<open>GInt\<close> when json.Marshal wrote it from a decoded value, so reading
  back what was written is the identity, which is encoding/json's own round trip.
  Strings are the decoder's: valid UTF-8. The sign of a float64 zero is not kept.
\<close>

section \<open>float64\<close>

text \<open>A finite float64 is \<open>m * 2 ^ e\<close> with \<open>m\<close> odd, or zero.\<close>

datatype f64 = F64 (f64_mant: int) (f64_exp: int)

text \<open>The number of bits of a positive integer.\<close>

function bitlen :: "int \<Rightarrow> int" where
  "bitlen n = (if n \<le> 0 then 0 else 1 + bitlen (n div 2))"
  by pat_completeness auto
termination by (relation "measure nat") auto

declare bitlen.simps [simp del]

function strip2 :: "int \<Rightarrow> int \<Rightarrow> f64" where
  "strip2 m e = (if m > 0 \<and> even m then strip2 (m div 2) (e + 1) else F64 m e)"
  by pat_completeness auto
termination by (relation "measure (\<lambda>(m, e). nat m)") auto

declare strip2.simps [simp del]

definition round_half_even :: "int \<Rightarrow> int \<Rightarrow> int" where
  "round_half_even n d =
     (let q = n div d; r = n mod d
      in if 2 * r < d \<or> (2 * r = d \<and> even q) then q else q + 1)"

definition scale_by :: "int \<Rightarrow> int \<Rightarrow> int \<Rightarrow> int \<Rightarrow> int \<times> int" where
  "scale_by b n d e = (if e \<ge> 0 then (n * b ^ nat e, d) else (n, d * b ^ nat (- e)))"

text \<open>The float64 nearest to \<open>n / d\<close>, ties to even; \<open>None\<close> when it overflows.\<close>

definition f64_of_ratio :: "bool \<Rightarrow> int \<Rightarrow> int \<Rightarrow> f64 option" where
  "f64_of_ratio neg n d =
     (if n = 0 then Some (F64 0 0)
      else
        let e0 = bitlen n - bitlen d - 53;
            (n0, d0) = scale_by 2 n d (- e0);
            e1 = (if n0 div d0 \<ge> 9007199254740992 then e0 + 1 else e0);
            e = max e1 (- 1074);
            (n1, d1) = scale_by 2 n d (- e);
            m = round_half_even n1 d1
        in if m = 0 then Some (F64 0 0)
           else if e > 971 \<or> (e = 971 \<and> m = 9007199254740992) then None
           else let f = strip2 m e
                in Some (if neg then F64 (- f64_mant f) (f64_exp f) else f))"

definition digit_val :: "char \<Rightarrow> int" where
  "digit_val c = of_char c - 48"

fun digits_val :: "string \<Rightarrow> int \<Rightarrow> int" where
  "digits_val [] acc = acc"
| "digits_val (c # cs) acc = digits_val cs (acc * 10 + digit_val c)"

definition exp_val :: "string \<Rightarrow> int" where
  "exp_val s = (case s of
      [] \<Rightarrow> 0
    | c # cs \<Rightarrow> if c = CHR ''-'' then - digits_val cs 0
               else if c = CHR ''+'' then digits_val cs 0
               else digits_val s 0)"

text \<open>Digits of the mantissa, number of them after the point, decimal exponent.\<close>

fun lit_scan :: "string \<Rightarrow> int \<Rightarrow> int \<Rightarrow> bool \<Rightarrow> int \<times> int \<times> int" where
  "lit_scan [] acc fr seen = (acc, fr, 0)"
| "lit_scan (c # cs) acc fr seen =
     (if c = CHR ''.'' then lit_scan cs acc fr True
      else if c = CHR ''e'' \<or> c = CHR ''E'' then (acc, fr, exp_val cs)
      else lit_scan cs (acc * 10 + digit_val c) (if seen then fr + 1 else fr) seen)"

text \<open>strconv.ParseFloat on a JSON number literal.\<close>

definition f64_of_lit :: "string \<Rightarrow> f64 option" where
  "f64_of_lit s =
     (let neg = (case s of c # _ \<Rightarrow> c = CHR ''-'' | [] \<Rightarrow> False);
          (m, fr, ex) = lit_scan (if neg then tl s else s) 0 0 False;
          (n, d) = scale_by 10 m 1 (ex - fr)
      in f64_of_ratio neg n d)"

section \<open>Numbers as text\<close>

definition digit_char :: "int \<Rightarrow> char" where
  "digit_char n = char_of (48 + n)"

function nat_text :: "int \<Rightarrow> string" where
  "nat_text n = (if n < 10 then [digit_char n] else nat_text (n div 10) @ [digit_char (n mod 10)])"
  by pat_completeness auto
termination by (relation "measure nat") auto

declare nat_text.simps [simp del]

definition int_text :: "int \<Rightarrow> string" where
  "int_text i = (if i < 0 then CHR ''-'' # nat_text (- i) else nat_text i)"

fun low_exp10 :: "nat \<Rightarrow> int \<Rightarrow> int \<Rightarrow> int \<Rightarrow> int" where
  "low_exp10 0 n d k = k"
| "low_exp10 (Suc fuel) n d k = (if n * 10 \<ge> d then k else low_exp10 fuel (n * 10) d (k + 1))"

definition dec_exp :: "int \<Rightarrow> int \<Rightarrow> int" where
  "dec_exp n d = (if n \<ge> d then int (length (nat_text (n div d))) - 1 else - low_exp10 400 n d 1)"

text \<open>The fewest decimal digits that read back as the same float64, 17 at most.\<close>

fun shortest_from :: "nat \<Rightarrow> f64 \<Rightarrow> int \<Rightarrow> int \<Rightarrow> int \<Rightarrow> int \<Rightarrow> int \<times> int" where
  "shortest_from fuel f n d x k =
     (let (n1, d1) = scale_by 10 n d (k - 1 - x);
          D = round_half_even n1 d1;
          (n2, d2) = scale_by 10 D 1 (x + 1 - k)
      in case fuel of
           0 \<Rightarrow> (D, x + 1 - k)
         | Suc fuel' \<Rightarrow> if f64_of_ratio (f64_mant f < 0) n2 d2 = Some f then (D, x + 1 - k)
                      else shortest_from fuel' f n d x (k + 1))"

declare shortest_from.simps [simp del]

definition strip_zeros :: "string \<Rightarrow> string" where
  "strip_zeros s = rev (dropWhile (\<lambda>c. c = CHR ''0'') (rev s))"

definition f64_text :: "f64 \<Rightarrow> string" where
  "f64_text f =
     (if f64_mant f = 0 then ''0''
      else
        let (n, d) = scale_by 2 \<bar>f64_mant f\<bar> 1 (f64_exp f);
            (D, q) = shortest_from 16 f n d (dec_exp n d) 1;
            full = nat_text D;
            ds = strip_zeros full;
            x = int (length full) - 1 + q;
            dp = x + 1;
            body =
              (if x < - 6 \<or> x \<ge> 21 then
                 hd ds # (if tl ds = [] then [] else CHR ''.'' # tl ds) @ CHR ''e'' #
                 (if x < 0 then CHR ''-'' # nat_text (- x) else CHR ''+'' # nat_text x)
               else if dp \<le> 0 then ''0.'' @ replicate (nat (- dp)) (CHR ''0'') @ ds
               else if int (length ds) \<le> dp then ds @ replicate (nat dp - length ds) (CHR ''0'')
               else take (nat dp) ds @ CHR ''.'' # drop (nat dp) ds)
        in if f64_mant f < 0 then CHR ''-'' # body else body)"

section \<open>Values\<close>

datatype gval =
    GNil
  | GBool bool
  | GNumber string
  | GFloat f64
  | GInt int
  | GStr string
  | GArr "gval list"
  | GObj "(string \<times> gval) list"

type_synonym fields = "(string, gval) amap"
type_synonym raw = "gval option"

lemma gval_size_arr [termination_simp]: "v \<in> set xs \<Longrightarrow> size v < Suc (size_list size xs)"
  by (induction xs) auto

lemma gval_size_obj [termination_simp]:
  "(k, v) \<in> set fs \<Longrightarrow> size v < Suc (size_list (size_prod (\<lambda>_. 0) size) fs)"
  by (induction fs) auto

lemma gval_size_obj_snd [termination_simp]:
  "b \<in> set fs \<Longrightarrow> size (snd b) < Suc (size_list (size_prod (\<lambda>_. 0) size) fs)"
  by (induction fs) auto

fun wf_gval :: "gval \<Rightarrow> bool" where
  "wf_gval (GArr xs) \<longleftrightarrow> list_all wf_gval xs"
| "wf_gval (GObj fs) \<longleftrightarrow> amap_wf fs \<and> list_all (\<lambda>b. wf_gval (snd b)) fs"
| "wf_gval v \<longleftrightarrow> True"

abbreviation wf_fields :: "fields \<Rightarrow> bool" where
  "wf_fields fs \<equiv> wf_gval (GObj fs)"

lemma gval_induct [case_names Nil Bool Number Float Int Str Arr Obj, induct type: gval]:
  assumes "P GNil" "\<And>b. P (GBool b)" "\<And>s. P (GNumber s)" "\<And>f. P (GFloat f)"
    "\<And>i. P (GInt i)" "\<And>s. P (GStr s)"
    "\<And>xs. (\<And>v. v \<in> set xs \<Longrightarrow> P v) \<Longrightarrow> P (GArr xs)"
    "\<And>fs. (\<And>k v. (k, v) \<in> set fs \<Longrightarrow> P v) \<Longrightarrow> P (GObj fs)"
  shows "P v"
  using assms by (induction v rule: gval.induct) (auto simp: snds.simps)

section \<open>Decoding\<close>

text \<open>json.Unmarshal into \<open>interface{}\<close>: numbers become float64, or the decode fails.\<close>

fun plain :: "gval \<Rightarrow> gval option" where
  "plain (GNumber s) = map_option GFloat (f64_of_lit s)"
| "plain (GArr xs) = map_option GArr (those (map plain xs))"
| "plain (GObj fs) =
     map_option (\<lambda>vs. GObj (zip (map fst fs) vs)) (those (map (\<lambda>b. plain (snd b)) fs))"
| "plain v = Some v"

lemma those_map_Some_iff:
  "those (map f xs) = Some ys \<longleftrightarrow> list_all2 (\<lambda>x y. f x = Some y) xs ys"
  by (induction xs arbitrary: ys) (auto simp: list_all2_Cons1 split: option.splits)

lemma those_None_iff: "those (map f xs) = None \<longleftrightarrow> (\<exists>x \<in> set xs. f x = None)"
  by (induction xs) (auto split: option.splits)

lemma those_map_id: "(\<And>x. x \<in> set xs \<Longrightarrow> f x = Some x) \<Longrightarrow> those (map f xs) = Some xs"
  by (induction xs) auto

fun no_number :: "gval \<Rightarrow> bool" where
  "no_number (GNumber s) \<longleftrightarrow> False"
| "no_number (GArr xs) \<longleftrightarrow> list_all no_number xs"
| "no_number (GObj fs) \<longleftrightarrow> list_all (\<lambda>b. no_number (snd b)) fs"
| "no_number v \<longleftrightarrow> True"

lemma no_number_plain: "no_number v \<Longrightarrow> plain v = Some v"
proof (induction v rule: gval_induct)
  case (Arr xs)
  then show ?case by (auto simp: list_all_iff intro!: exI those_map_id)
next
  case (Obj fs)
  have "those (map (\<lambda>b. plain (snd b)) fs) = Some (map snd fs)"
    using Obj by (induction fs) (fastforce simp: list_all_iff)+
  then show ?case by (simp add: zip_map_fst_snd)
qed auto

lemma plain_no_number: "plain v = Some w \<Longrightarrow> no_number w"
proof (induction v arbitrary: w rule: gval_induct)
  case (Arr xs)
  then obtain ys where ys: "list_all2 (\<lambda>x y. plain x = Some y) xs ys" "w = GArr ys"
    by (auto simp: those_map_Some_iff)
  then show ?case using Arr.IH
    by (auto simp: list_all_iff in_set_conv_nth list_all2_conv_all_nth simp del: plain.simps) (metis nth_mem)
next
  case (Obj fs)
  then obtain ys where ys: "list_all2 (\<lambda>b y. plain (snd b) = Some y) fs ys" "w = GObj (zip (map fst fs) ys)"
    by (auto simp: those_map_Some_iff)
  have "no_number y" if "y \<in> set ys" for y
    using that ys(1) Obj.IH
    by (auto simp: in_set_conv_nth list_all2_conv_all_nth) (metis nth_mem prod.collapse)
  then show ?case using ys(2) by (auto simp: list_all_iff dest: set_zip_rightD)
qed auto

text \<open>A decoded value, written and read again, is itself.\<close>

lemma plain_plain: "plain v = Some w \<Longrightarrow> plain w = Some w"
  by (simp add: no_number_plain plain_no_number)

lemma plain_wf: "wf_gval v \<Longrightarrow> plain v = Some w \<Longrightarrow> wf_gval w"
proof (induction v arbitrary: w rule: gval_induct)
  case (Arr xs)
  then obtain ys where ys: "list_all2 (\<lambda>x y. plain x = Some y) xs ys" "w = GArr ys"
    by (auto simp: those_map_Some_iff)
  then show ?case using Arr.IH Arr.prems(1)
    by (auto simp: list_all_iff in_set_conv_nth list_all2_conv_all_nth) (metis nth_mem)
next
  case (Obj fs)
  then obtain ys where ys: "list_all2 (\<lambda>b y. plain (snd b) = Some y) fs ys" "w = GObj (zip (map fst fs) ys)"
    by (auto simp: those_map_Some_iff)
  have "wf_gval y" if "y \<in> set ys" for y
    using that ys(1) Obj
    by (auto simp: in_set_conv_nth list_all2_conv_all_nth list_all_iff) (metis nth_mem prod.collapse)
  moreover have "map fst (zip (map fst fs) ys) = map fst fs"
    using ys(1) by (simp add: list_all2_lengthD)
  ultimately show ?case using ys(2) Obj.prems
    by (auto simp: list_all_iff amap_wf_def dest: set_zip_rightD)
qed auto

definition unmarshal_any :: "raw \<Rightarrow> gval option" where
  "unmarshal_any r = Option.bind r plain"

text \<open>
  json.Unmarshal into a \<open>map[string]interface{}\<close> variable: \<open>null\<close> leaves the map nil, anything but
  an object is an error. The result is \<open>None\<close> for an error, \<open>Some None\<close> for a nil map.
\<close>

definition unmarshal_map :: "raw \<Rightarrow> fields option option" where
  "unmarshal_map r = (case r of
      Some GNil \<Rightarrow> Some None
    | Some (GObj fs) \<Rightarrow> (case plain (GObj fs) of Some (GObj fs') \<Rightarrow> Some (Some fs') | _ \<Rightarrow> None)
    | _ \<Rightarrow> None)"

lemma unmarshal_map_simps [simp]:
  "unmarshal_map None = None"
  "unmarshal_map (Some GNil) = Some None"
  "unmarshal_map (Some (GStr s)) = None"
  "unmarshal_map (Some (GArr xs)) = None"
  by (simp_all add: unmarshal_map_def)

lemma plain_GObj: "plain (GObj fs) = Some w \<Longrightarrow> \<exists>gs. w = GObj gs \<and> map fst gs = map fst fs"
  by (auto simp: those_map_Some_iff list_all2_lengthD)

lemma unmarshal_map_obj:
  "unmarshal_map (Some (GObj fs)) = Some (Some gs) \<longleftrightarrow> plain (GObj fs) = Some (GObj gs)"
  by (auto simp: unmarshal_map_def split: option.splits gval.splits)

lemma unmarshal_map_no_number:
  "no_number (GObj fs) \<Longrightarrow> unmarshal_map (Some (GObj fs)) = Some (Some fs)"
  by (simp only: unmarshal_map_obj no_number_plain)

definition marshal_map :: "fields option \<Rightarrow> gval" where
  "marshal_map m = (case m of None \<Rightarrow> GNil | Some fs \<Rightarrow> GObj fs)"

section \<open>Encoding\<close>

definition hex_digit :: "nat \<Rightarrow> char" where
  "hex_digit n = (if n < 10 then char_of (48 + n) else char_of (87 + n))"

definition bslash :: char where
  "bslash = CHR 0x5C"

definition esc1 :: "bool \<Rightarrow> char \<Rightarrow> string" where
  "esc1 html c =
     (let n = of_char c :: nat in
      if n = 0x22 \<or> n = 0x5C then [bslash, c]
      else if n = 8 then [bslash, CHR ''b'']
      else if n = 12 then [bslash, CHR ''f'']
      else if n = 10 then [bslash, CHR ''n'']
      else if n = 13 then [bslash, CHR ''r'']
      else if n = 9 then [bslash, CHR ''t'']
      else if n < 0x20 \<or> (html \<and> (n = 0x3C \<or> n = 0x3E \<or> n = 0x26))
      then bslash # ''u00'' @ [hex_digit (n div 16), hex_digit (n mod 16)]
      else [c])"

text \<open>The bytes of U+2028 and U+2029, which the encoder always escapes.\<close>

definition line_sep :: string where "line_sep = [CHR 0xE2, CHR 0x80, CHR 0xA8]"
definition par_sep :: string where "par_sep = [CHR 0xE2, CHR 0x80, CHR 0xA9]"

fun esc :: "bool \<Rightarrow> string \<Rightarrow> string" where
  "esc html [] = []"
| "esc html (c # cs) =
     (if take 3 (c # cs) = line_sep then bslash # ''u2028'' @ esc html (drop 2 cs)
      else if take 3 (c # cs) = par_sep then bslash # ''u2029'' @ esc html (drop 2 cs)
      else esc1 html c @ esc html cs)"

definition quote_str :: "bool \<Rightarrow> string \<Rightarrow> string" where
  "quote_str html s = CHR 0x22 # esc html s @ [CHR 0x22]"

fun encode :: "bool \<Rightarrow> gval \<Rightarrow> string" where
  "encode h GNil = ''null''"
| "encode h (GBool b) = (if b then ''true'' else ''false'')"
| "encode h (GNumber s) = s"
| "encode h (GFloat f) = f64_text f"
| "encode h (GInt i) = int_text i"
| "encode h (GStr s) = quote_str h s"
| "encode h (GArr xs) = CHR ''['' # join_with (CHR '','') (map (encode h) xs) @ [CHR '']'']"
| "encode h (GObj fs) =
     CHR ''{'' # join_with (CHR '','') (map (\<lambda>b. quote_str h (fst b) @ CHR '':'' # encode h (snd b)) fs)
       @ [CHR ''}'']"

text \<open>json.Marshal escapes for HTML.\<close>

abbreviation marshal_text :: "gval \<Rightarrow> string" where
  "marshal_text \<equiv> encode True"

definition get_str :: "fields \<Rightarrow> string \<Rightarrow> string" where
  "get_str fs k = (case map_of fs k of Some (GStr s) \<Rightarrow> s | _ \<Rightarrow> [])"

definition get_obj :: "fields \<Rightarrow> string \<Rightarrow> fields option" where
  "get_obj fs k = (case map_of fs k of Some (GObj o') \<Rightarrow> Some o' | _ \<Rightarrow> None)"

end
