(* ===== verification/DotPath.thy ===== *)
theory DotPath
  imports Json "HOL-Library.Sublist"
begin

text \<open>
  core/state.go's operations on a decoded resource state: reading, setting and deleting the value at
  a dot path, and the attribute diff of two states; core/redacted.go's recognition of redacted
  values. A Go map that is ranged over is a list of its entries in the order of that run, and what
  does not depend on that order is proved for every order.
\<close>

section \<open>Redacted markers\<close>

definition RedactedMarkerKey :: string where
  "RedactedMarkerKey = ''$redacted''"

definition isRedactedMarker :: "fields \<Rightarrow> bool" where
  "isRedactedMarker v =
     (if length v \<noteq> 1 then False
      else case map_of v RedactedMarkerKey of
             Some (GObj inner) \<Rightarrow> True
           | _ \<Rightarrow> False)"

definition IsRedactedValue :: "raw \<Rightarrow> bool" where
  "IsRedactedValue r = (case unmarshal_map r of
      Some (Some m) \<Rightarrow> isRedactedMarker m
    | _ \<Rightarrow> False)"

fun countRedactedValue :: "gval \<Rightarrow> nat" where
  "countRedactedValue (GObj fs) =
     (if isRedactedMarker fs then 1 else sum_list (map (\<lambda>b. countRedactedValue (snd b)) fs))"
| "countRedactedValue (GArr xs) = sum_list (map countRedactedValue xs)"
| "countRedactedValue v = 0"

definition CountRedacted :: "raw \<Rightarrow> nat" where
  "CountRedacted r = (case unmarshal_any r of None \<Rightarrow> 0 | Some v \<Rightarrow> countRedactedValue v)"

section \<open>Paths\<close>

abbreviation path_of :: "string \<Rightarrow> string list" where
  "path_of s \<equiv> split_on (CHR ''.'') s"

fun set_at :: "string list \<Rightarrow> gval \<Rightarrow> fields \<Rightarrow> fields" where
  "set_at [] v m = m"
| "set_at [p] v m = aput p v m"
| "set_at (p # q # ps) v m =
     aput p (GObj (set_at (q # ps) v (case map_of m p of Some (GObj nx) \<Rightarrow> nx | _ \<Rightarrow> []))) m"

fun delete_at :: "string list \<Rightarrow> fields \<Rightarrow> fields" where
  "delete_at [] m = m"
| "delete_at [p] m = adel p m"
| "delete_at (p # q # ps) m =
     (case map_of m p of
        Some (GObj nx) \<Rightarrow> aput p (GObj (delete_at (q # ps) nx)) m
      | _ \<Rightarrow> m)"

fun get_at :: "string list \<Rightarrow> gval \<Rightarrow> gval option" where
  "get_at [] cur = Some cur"
| "get_at (p # ps) (GObj m) = (case map_of m p of None \<Rightarrow> None | Some v \<Rightarrow> get_at ps v)"
| "get_at (p # ps) _ = None"

definition dotSet :: "fields \<Rightarrow> string \<Rightarrow> gval \<Rightarrow> fields" where
  "dotSet m path val = set_at (path_of path) val m"

definition dotDelete :: "fields \<Rightarrow> string \<Rightarrow> fields" where
  "dotDelete m path = delete_at (path_of path) m"

definition dotGetGeneric :: "fields \<Rightarrow> string \<Rightarrow> gval option" where
  "dotGetGeneric m path = get_at (path_of path) (GObj m)"

text \<open>Outer \<open>None\<close>: the state does not decode. Inner \<open>None\<close>: no value at the path.\<close>

definition DotGet :: "raw \<Rightarrow> string \<Rightarrow> gval option option" where
  "DotGet state path = (case unmarshal_map state of
      None \<Rightarrow> None
    | Some None \<Rightarrow> Some None
    | Some (Some m) \<Rightarrow> Some (dotGetGeneric m path))"

definition disjoint_paths :: "string list \<Rightarrow> string list \<Rightarrow> bool" where
  "disjoint_paths ps qs \<longleftrightarrow> \<not> prefix ps qs \<and> \<not> prefix qs ps"

lemma disjoint_paths_Cons [simp]:
  "disjoint_paths (p # ps) (q # qs) \<longleftrightarrow> p \<noteq> q \<or> disjoint_paths ps qs"
  by (auto simp: disjoint_paths_def)

lemma disjoint_paths_Nil [simp]: "\<not> disjoint_paths [] qs" "\<not> disjoint_paths ps []"
  by (auto simp: disjoint_paths_def)

lemma disjoint_paths_sym: "disjoint_paths ps qs \<Longrightarrow> disjoint_paths qs ps"
  by (auto simp: disjoint_paths_def)

lemma get_at_obj_Cons:
  "get_at (p # ps) (GObj m) = Option.bind (map_of m p) (get_at ps)"
  by (cases "map_of m p") auto

lemma get_at_empty [simp]: "ps \<noteq> [] \<Longrightarrow> get_at ps (GObj []) = None"
  by (cases ps) auto

lemma get_at_not_obj: "ps \<noteq> [] \<Longrightarrow> (\<And>m. v \<noteq> GObj m) \<Longrightarrow> get_at ps v = None"
  by (cases ps; cases v) auto

lemma get_set_same: "ps \<noteq> [] \<Longrightarrow> get_at ps (GObj (set_at ps v m)) = Some v"
  by (induction ps v m rule: set_at.induct) auto

lemma get_set_disjoint:
  "disjoint_paths ps qs \<Longrightarrow> get_at qs (GObj (set_at ps v m)) = get_at qs (GObj m)"
proof (induction ps v m arbitrary: qs rule: set_at.induct)
  case (2 p v m)
  then show ?case by (cases qs) auto
next
  case (3 p q ps v m)
  then obtain r rs where qs: "qs = r # rs" by (cases qs) auto
  show ?case
  proof (cases "r = p")
    case True
    with 3 qs have d: "disjoint_paths (q # ps) rs" by simp
    then have "rs \<noteq> []" by auto
    with True qs "3.IH" [OF d] show ?thesis
      by (auto simp: get_at_not_obj split: option.splits gval.splits)
  next
    case False
    with qs show ?thesis by simp
  qed
qed simp

lemma get_delete_same: "ps \<noteq> [] \<Longrightarrow> get_at ps (GObj (delete_at ps m)) = None"
  by (induction ps m rule: delete_at.induct) (auto simp: get_at_not_obj split: option.splits gval.splits)

lemma get_delete_disjoint:
  "disjoint_paths ps qs \<Longrightarrow> get_at qs (GObj (delete_at ps m)) = get_at qs (GObj m)"
proof (induction ps m arbitrary: qs rule: delete_at.induct)
  case (2 p m)
  then show ?case by (cases qs) auto
next
  case (3 p q ps m)
  then obtain r rs where qs: "qs = r # rs" by (cases qs) auto
  show ?case
  proof (cases "map_of m p")
    case None
    then show ?thesis by simp
  next
    case (Some v)
    then show ?thesis using 3 qs by (cases v) auto
  qed
qed simp

lemma wf_map_of: "wf_fields m \<Longrightarrow> map_of m k = Some v \<Longrightarrow> wf_gval v"
  by (fastforce simp: list_all_iff dest: map_of_SomeD)

lemma wf_aput: "wf_fields m \<Longrightarrow> wf_gval v \<Longrightarrow> wf_fields (aput k v m)"
  by (auto simp: list_all_iff dest!: set_aput_val)

lemma wf_set_at: "wf_fields m \<Longrightarrow> wf_gval v \<Longrightarrow> wf_fields (set_at ps v m)"
proof (induction ps v m rule: set_at.induct)
  case (3 p q ps v m)
  have "wf_fields (case map_of m p of Some (GObj nx) \<Rightarrow> nx | _ \<Rightarrow> [])"
    using wf_map_of [OF "3.prems"(1), of p] by (auto split: option.splits gval.splits)
  with 3 show ?case by (simp only: set_at.simps wf_aput)
qed (auto simp: wf_aput simp del: wf_gval.simps)

lemma wf_delete_at: "wf_fields m \<Longrightarrow> wf_fields (delete_at ps m)"
proof (induction ps m rule: delete_at.induct)
  case (3 p q ps m)
  then show ?case using wf_map_of [OF "3.prems", of p]
    by (auto simp: wf_aput simp del: wf_gval.simps split: option.splits gval.splits)
qed (auto simp: list_all_iff adel_def amap_wf_adel [unfolded adel_def])

text \<open>Two paths that are not one below the other can be set in either order.\<close>

lemma set_at_commute:
  "wf_fields m \<Longrightarrow> disjoint_paths ps qs \<Longrightarrow>
   set_at ps v (set_at qs w m) = set_at qs w (set_at ps v m)"
proof (induction ps arbitrary: qs m)
  case Nil
  then show ?case by simp
next
  case (Cons p ps)
  then obtain r rs where qs: "qs = r # rs" by (cases qs) auto
  have wf: "amap_wf m" using Cons.prems(1) by simp
  show ?case
  proof (cases "p = r")
    case False
    then show ?thesis using wf qs by (cases ps; cases rs) (auto simp: aput_commute)
  next
    case True
    with Cons.prems qs have d: "disjoint_paths ps rs" by simp
    then obtain a as b bs where ab: "ps = a # as" "rs = b # bs"
      by (cases ps; cases rs) auto
    have "wf_fields (case map_of m p of Some (GObj nx) \<Rightarrow> nx | _ \<Rightarrow> [])"
      using wf_map_of [OF Cons.prems(1), of p] by (auto split: option.splits gval.splits)
    from Cons.IH [OF this d] show ?thesis using True qs ab wf by simp
  qed
qed

section \<open>The attribute diff\<close>

definition keys2 :: "fields \<Rightarrow> fields \<Rightarrow> string list" where
  "keys2 b a = map fst (foldr (\<lambda>k. aput k ()) (map fst b @ map fst a) [])"

lemma set_keys2 [simp]: "set (keys2 b a) = fst ` set b \<union> fst ` set a"
proof -
  have "fst ` set (foldr (\<lambda>k. aput k ()) ks []) = set ks" for ks :: "string list"
    by (induction ks) auto
  then show ?thesis unfolding keys2_def by (simp only: set_map set_append image_Un)
qed

lemma distinct_keys2 [simp]: "distinct (keys2 b a)"
proof -
  have "amap_wf (foldr (\<lambda>k. aput k ()) ks [])" for ks :: "string list"
    by (induction ks) auto
  then show ?thesis
    unfolding keys2_def amap_wf_def using strict_sorted_iff by blast
qed

definition sub_path :: "string \<Rightarrow> string \<Rightarrow> string" where
  "sub_path pre k = (if pre = [] then k else pre @ CHR ''.'' # k)"

type_synonym diff = "(string, gval) amap \<times> (string, gval) amap"

definition diff_leaf :: "string \<Rightarrow> gval option \<Rightarrow> gval option \<Rightarrow> diff \<Rightarrow> diff" where
  "diff_leaf path bv av out =
     (if bv = av then out
      else (case bv of None \<Rightarrow> fst out | Some x \<Rightarrow> aput path x (fst out),
            case av of None \<Rightarrow> snd out | Some y \<Rightarrow> aput path y (snd out)))"

lemma fields_size_map_of: "map_of m k = Some v \<Longrightarrow> size v < size (GObj m)"
  by (induction m) (auto split: if_splits)

function diffObjects :: "string \<Rightarrow> fields \<Rightarrow> fields \<Rightarrow> diff \<Rightarrow> diff" where
  "diffObjects pre b a out =
     fold (\<lambda>k out.
        case (map_of b k, map_of a k) of
          (Some (GObj bObj), Some (GObj aObj)) \<Rightarrow>
            if \<not> isRedactedMarker bObj \<and> \<not> isRedactedMarker aObj
            then diffObjects (sub_path pre k) bObj aObj out
            else diff_leaf (sub_path pre k) (map_of b k) (map_of a k) out
        | _ \<Rightarrow> diff_leaf (sub_path pre k) (map_of b k) (map_of a k) out)
      (keys2 b a) out"
  by pat_completeness auto
termination
  by (relation "measure (\<lambda>(pre, b, a, out). size (GObj b))")
    (auto dest!: fields_size_map_of [OF sym])

declare diffObjects.simps [simp del]

text \<open>A nil map ranges over nothing. \<open>None\<close>: one of the states does not decode.\<close>

definition fields_of :: "fields option \<Rightarrow> fields" where
  "fields_of m = (case m of None \<Rightarrow> [] | Some fs \<Rightarrow> fs)"

definition DiffAttributes :: "raw \<Rightarrow> raw \<Rightarrow> diff option" where
  "DiffAttributes beforeState afterState =
     (case unmarshal_map beforeState of
        None \<Rightarrow> None
      | Some b \<Rightarrow> (case unmarshal_map afterState of
          None \<Rightarrow> None
        | Some a \<Rightarrow> Some (diffObjects [] (fields_of b) (fields_of a) ([], []))))"

end
