(* ===== verification/AttrPatch.thy ===== *)
theory AttrPatch
  imports DotPath "HOL-Library.Multiset"
begin

text \<open>
  The attribute patch of a modification: core/apply.go's ApplyAfter, and its agreement with
  core/state.go's DiffAttributes. A modification's Before and After maps are given as the list of
  their entries in the order in which the run ranges over them.
\<close>

section \<open>ApplyAfter\<close>

type_synonym patch = "(string \<times> raw) list"

definition set_entry :: "string \<times> raw \<Rightarrow> fields option \<Rightarrow> (err, fields option) res" where
  "set_entry e cur = (case unmarshal_any (snd e) of
      None \<Rightarrow> Inl EJson
    | Some v \<Rightarrow> (case cur of
        None \<Rightarrow> Inl EPanic
      | Some m \<Rightarrow> Inr (Some (dotSet m (fst e) v))))"

definition delete_entry :: "patch \<Rightarrow> string \<times> raw \<Rightarrow> fields option \<Rightarrow> fields option" where
  "delete_entry after e cur =
     (if fst e \<in> fst ` set after then cur
      else map_option (\<lambda>m. dotDelete m (fst e)) cur)"

text \<open>Assigning into a nil map panics; deleting from one does nothing.\<close>

definition ApplyAfter :: "raw \<Rightarrow> patch \<Rightarrow> patch \<Rightarrow> (err, raw) res" where
  "ApplyAfter state before after =
     rbind (of_opt EJson (unmarshal_map state)) (\<lambda>current.
     rbind (fold_res set_entry after current) (\<lambda>current.
     Inr (Some (marshal_map (fold (delete_entry after) before current)))))"

section \<open>Operations on paths\<close>

type_synonym path_op = "string list \<times> gval option"

fun app_op :: "path_op \<Rightarrow> fields \<Rightarrow> fields" where
  "app_op (ps, Some v) m = set_at ps v m"
| "app_op (ps, None) m = delete_at ps m"

definition wf_op :: "path_op \<Rightarrow> bool" where
  "wf_op x \<longleftrightarrow> (case snd x of None \<Rightarrow> True | Some v \<Rightarrow> wf_gval v)"

lemma wf_app_op: "wf_fields m \<Longrightarrow> wf_op x \<Longrightarrow> wf_fields (app_op x m)"
  by (cases x; cases "snd x") (auto simp: wf_op_def wf_set_at wf_delete_at simp del: wf_gval.simps)

lemma delete_at_empty [simp]: "delete_at ps [] = []"
  by (induction ps "[] :: fields" rule: delete_at.induct) (auto simp: adel_def)

lemma adel_aput_same: "amap_wf m \<Longrightarrow> adel k (aput k v m) = adel k m"
  by (rule amap_ext) auto

lemma adel_aput_other: "amap_wf m \<Longrightarrow> k \<noteq> l \<Longrightarrow> adel k (aput l v m) = aput l v (adel k m)"
  by (rule amap_ext) (auto simp: fun_upd_twist)

lemma adel_commute: "adel k (adel l m) = adel l (adel k m)"
  by (simp add: adel_def conj_commute)

definition sub_obj :: "fields \<Rightarrow> string \<Rightarrow> fields" where
  "sub_obj m p = (case map_of m p of Some (GObj nx) \<Rightarrow> nx | _ \<Rightarrow> [])"

lemma wf_sub_obj: "wf_fields m \<Longrightarrow> wf_fields (sub_obj m p)"
  using wf_map_of [of m p] by (auto simp: sub_obj_def split: option.splits gval.splits)

lemma set_at_Cons: "ps \<noteq> [] \<Longrightarrow> set_at (p # ps) v m = aput p (GObj (set_at ps v (sub_obj m p))) m"
  by (cases ps) (auto simp: sub_obj_def)

lemma delete_at_Cons:
  "ps \<noteq> [] \<Longrightarrow> delete_at (p # ps) m =
     (case map_of m p of Some (GObj nx) \<Rightarrow> aput p (GObj (delete_at ps nx)) m | _ \<Rightarrow> m)"
  by (cases ps) auto

lemma set_delete_commute:
  "wf_fields m \<Longrightarrow> disjoint_paths ps qs \<Longrightarrow>
   delete_at qs (set_at ps v m) = set_at ps v (delete_at qs m)"
proof (induction ps arbitrary: qs m)
  case Nil
  then show ?case by simp
next
  case (Cons p ps)
  then obtain r rs where qs: "qs = r # rs" by (cases qs) auto
  have wf: "amap_wf m" using Cons.prems(1) by simp
  show ?case
  proof (cases "p = r")
    case False
    then show ?thesis using wf qs
      by (cases ps; cases rs)
        (auto simp: adel_aput_other aput_commute split: option.splits gval.splits)
  next
    case True
    with Cons.prems qs have d: "disjoint_paths ps rs" by simp
    then have ne: "ps \<noteq> []" "rs \<noteq> []" by auto
    note ih = Cons.IH [OF wf_sub_obj [OF Cons.prems(1)] d]
    show ?thesis using True qs ne wf ih [of p] Cons.IH [of "[]", OF _ d]
      by (auto simp: set_at_Cons delete_at_Cons sub_obj_def split: option.splits gval.splits)
  qed
qed

lemma delete_delete_commute:
  "wf_fields m \<Longrightarrow> disjoint_paths ps qs \<Longrightarrow>
   delete_at qs (delete_at ps m) = delete_at ps (delete_at qs m)"
proof (induction ps arbitrary: qs m)
  case Nil
  then show ?case by simp
next
  case (Cons p ps)
  then obtain r rs where qs: "qs = r # rs" by (cases qs) auto
  have wf: "amap_wf m" using Cons.prems(1) by simp
  show ?case
  proof (cases "p = r")
    case False
    then show ?thesis using wf qs
      by (cases ps; cases rs)
        (auto simp: adel_commute adel_aput_other aput_commute split: option.splits gval.splits)
  next
    case True
    with Cons.prems qs have d: "disjoint_paths ps rs" by simp
    then have ne: "ps \<noteq> []" "rs \<noteq> []" by auto
    note ih = Cons.IH [OF wf_sub_obj [OF Cons.prems(1)] d]
    show ?thesis using True qs ne wf ih [of p]
      by (auto simp: delete_at_Cons sub_obj_def split: option.splits gval.splits)
  qed
qed

lemma app_op_commute:
  assumes "wf_fields m" "disjoint_paths (fst x) (fst y)"
  shows "app_op x (app_op y m) = app_op y (app_op x m)"
proof -
  obtain ps u qs w where xy: "x = (ps, u)" "y = (qs, w)" by (cases x; cases y)
  show ?thesis
    using assms xy set_at_commute [of m ps qs] set_delete_commute [of m ps qs]
      set_delete_commute [of m qs ps] delete_delete_commute [of m ps qs] disjoint_paths_sym [of ps qs]
    by (cases u; cases w) (simp_all del: wf_gval.simps)
qed

lemma app_op_front:
  "wf_fields m \<Longrightarrow> wf_op x \<Longrightarrow> \<forall>y \<in> set ys. wf_op y \<and> disjoint_paths (fst x) (fst y) \<Longrightarrow>
   fold app_op ys (app_op x m) = app_op x (fold app_op ys m)"
proof (induction ys arbitrary: m)
  case (Cons y ys)
  have "app_op y (app_op x m) = app_op x (app_op y m)"
    using app_op_commute [of m y x] Cons.prems by (auto dest: disjoint_paths_sym simp del: wf_gval.simps)
  then show ?case using Cons.IH [of "app_op y m"] Cons.prems wf_app_op [of m y]
    by (simp del: wf_gval.simps)
qed simp

definition separate :: "path_op list \<Rightarrow> bool" where
  "separate xs \<longleftrightarrow> (\<forall>x \<in> set xs. wf_op x \<and> (\<forall>y \<in> set xs. x = y \<or> disjoint_paths (fst x) (fst y)))"

text \<open>Operations on paths none of which lies below another can be done in any order.\<close>

lemma fold_app_op_perm:
  "wf_fields m \<Longrightarrow> separate xs \<Longrightarrow> distinct xs \<Longrightarrow> mset xs = mset ys \<Longrightarrow>
   fold app_op xs m = fold app_op ys m"
proof (induction xs arbitrary: ys m)
  case Nil
  then show ?case by simp
next
  case (Cons x xs)
  have "x \<in> set ys" using Cons.prems(4) by (metis list.set_intros(1) mset_eq_setD)
  then obtain us vs where ys: "ys = us @ x # vs" by (metis split_list)
  have m: "mset xs = mset (us @ vs)" using Cons.prems(4) ys by simp
  have x: "wf_op x" using Cons.prems(2) by (simp add: separate_def)
  have s: "separate xs" using Cons.prems(2) by (simp add: separate_def)
  have us: "\<forall>y \<in> set us. wf_op y \<and> disjoint_paths (fst x) (fst y)"
  proof
    fix y
    assume y: "y \<in> set us"
    then have "y \<in> set xs" using m by (metis Un_iff mset_eq_setD set_append)
    moreover have "x \<notin> set xs" using Cons.prems(3) by simp
    ultimately show "wf_op y \<and> disjoint_paths (fst x) (fst y)"
      using Cons.prems(2) by (force simp: separate_def)
  qed
  have "fold app_op (x # xs) m = fold app_op (us @ vs) (app_op x m)"
    using Cons.IH [OF wf_app_op [OF Cons.prems(1) x] s _ m] Cons.prems(3) by simp
  also have "\<dots> = fold app_op ys m"
    using app_op_front [OF Cons.prems(1) x us] ys by simp
  finally show ?case .
qed

section \<open>The diff as a list of path changes\<close>

type_synonym change = "string list \<times> gval option \<times> gval option"

definition leaf_changes :: "string \<Rightarrow> gval option \<Rightarrow> gval option \<Rightarrow> change list" where
  "leaf_changes k bv av = (if bv = av then [] else [([k], bv, av)])"

definition push_key :: "string \<Rightarrow> string list \<times> 'b \<Rightarrow> string list \<times> 'b" where
  "push_key k c = (k # fst c, snd c)"

lemma push_key_simps [simp]: "fst (push_key k c) = k # fst c" "snd (push_key k c) = snd c"
  by (simp_all add: push_key_def)

function changes :: "fields \<Rightarrow> fields \<Rightarrow> change list" where
  "changes b a =
     concat (map (\<lambda>k.
        case (map_of b k, map_of a k) of
          (Some (GObj bObj), Some (GObj aObj)) \<Rightarrow>
            if \<not> isRedactedMarker bObj \<and> \<not> isRedactedMarker aObj
            then map (push_key k) (changes bObj aObj)
            else leaf_changes k (map_of b k) (map_of a k)
        | _ \<Rightarrow> leaf_changes k (map_of b k) (map_of a k)) (keys2 b a))"
  by pat_completeness auto
termination
  by (relation "measure (\<lambda>(b, a). size (GObj b))") (auto dest!: fields_size_map_of [OF sym])

declare changes.simps [simp del]

text \<open>What one key contributes.\<close>

definition key_changes :: "fields \<Rightarrow> fields \<Rightarrow> string \<Rightarrow> change list" where
  "key_changes b a k =
     (case (map_of b k, map_of a k) of
        (Some (GObj bObj), Some (GObj aObj)) \<Rightarrow>
          if \<not> isRedactedMarker bObj \<and> \<not> isRedactedMarker aObj
          then map (push_key k) (changes bObj aObj)
          else leaf_changes k (map_of b k) (map_of a k)
      | _ \<Rightarrow> leaf_changes k (map_of b k) (map_of a k))"

lemma changes_keys: "changes b a = concat (map (key_changes b a) (keys2 b a))"
  unfolding changes.simps [of b a] key_changes_def ..

lemma key_changes_cases:
  obtains (rec) bObj aObj where "map_of b k = Some (GObj bObj)" "map_of a k = Some (GObj aObj)"
      "key_changes b a k = map (push_key k) (changes bObj aObj)"
  | (leaf) "key_changes b a k = leaf_changes k (map_of b k) (map_of a k)"
proof (cases "\<exists>bObj aObj. map_of b k = Some (GObj bObj) \<and> map_of a k = Some (GObj aObj) \<and>
    \<not> isRedactedMarker bObj \<and> \<not> isRedactedMarker aObj")
  case True
  then show ?thesis using rec by (auto simp: key_changes_def)
next
  case False
  then have "key_changes b a k = leaf_changes k (map_of b k) (map_of a k)"
    unfolding key_changes_def by (auto split: option.split gval.split)
  then show ?thesis by (rule leaf)
qed

lemma changes_induct [case_names step]:
  assumes "\<And>b a. (\<And>k bObj aObj. map_of b k = Some (GObj bObj) \<Longrightarrow> map_of a k = Some (GObj aObj) \<Longrightarrow>
      P bObj aObj) \<Longrightarrow> P b a"
  shows "P b a"
proof (induction "size (GObj b)" arbitrary: b a rule: less_induct)
  case less
  show ?case
    by (rule assms) (use less fields_size_map_of in \<open>force\<close>)
qed

lemma key_changes_head: "c \<in> set (key_changes b a k) \<Longrightarrow> \<exists>ps. fst c = k # ps"
  by (cases rule: key_changes_cases [where b = b and a = a and k = k])
    (auto simp: leaf_changes_def split: if_splits)

lemma changes_nonempty: "c \<in> set (changes b a) \<Longrightarrow> fst c \<noteq> []"
  by (auto simp: changes_keys dest: key_changes_head)

lemma changes_neq: "(ps, x, y) \<in> set (changes b a) \<Longrightarrow> x \<noteq> y"
proof (induction b a arbitrary: ps rule: changes_induct)
  case (step b a)
  from step.prems obtain k where "(ps, x, y) \<in> set (key_changes b a k)"
    by (auto simp: changes_keys)
  then show ?case
    by (cases rule: key_changes_cases [where b = b and a = a and k = k])
      (auto simp: leaf_changes_def push_key_def split: if_splits dest: step.IH)
qed

lemma changes_separate:
  "c \<in> set (changes b a) \<Longrightarrow> d \<in> set (changes b a) \<Longrightarrow> c = d \<or> disjoint_paths (fst c) (fst d)"
proof (induction b a arbitrary: c d rule: changes_induct)
  case (step b a)
  from step.prems obtain k l
    where c: "c \<in> set (key_changes b a k)" and d: "d \<in> set (key_changes b a l)"
    by (auto simp: changes_keys)
  obtain ps qs where pq: "fst c = k # ps" "fst d = l # qs"
    using c d key_changes_head by blast
  show ?case
  proof (cases "k = l")
    case True
    show ?thesis
    proof (cases rule: key_changes_cases [where b = b and a = a and k = k])
      case (rec bObj aObj)
      then show ?thesis using step.IH c d True by fastforce
    next
      case leaf
      then show ?thesis using c d True by (auto simp: leaf_changes_def split: if_splits)
    qed
  qed (simp add: pq)
qed

lemma changes_distinct: "distinct (changes b a)"
proof (induction b a rule: changes_induct)
  case (step b a)
  have each: "distinct (key_changes b a k)" for k
  proof (cases rule: key_changes_cases [where b = b and a = a and k = k])
    case (rec bObj aObj)
    have "inj_on (push_key k) A" for A :: "change set"
      by (rule inj_onI) (auto simp: push_key_def prod_eq_iff)
    then show ?thesis using rec step.IH by (simp add: distinct_map)
  qed (simp add: leaf_changes_def)
  have "distinct (concat (map (key_changes b a) ks))" if "distinct ks" for ks
    using that each by (induction ks) (fastforce dest: key_changes_head)+
  then show ?case by (simp add: changes_keys)
qed

section \<open>Applying the changes\<close>

definition change_op :: "change \<Rightarrow> path_op" where
  "change_op c = (fst c, snd (snd c))"

lemma fold_push_key:
  "amap_wf m \<Longrightarrow> map_of m k = Some (GObj sub) \<Longrightarrow> \<forall>c \<in> set xs. fst c \<noteq> [] \<Longrightarrow>
   fold app_op (map (push_key k) xs) m = aput k (GObj (fold app_op xs sub)) m"
proof (induction xs arbitrary: m sub)
  case (Cons x xs)
  have "app_op (push_key k x) m = aput k (GObj (app_op x sub)) m"
    using Cons.prems by (cases x; cases "snd x")
      (auto simp: push_key_def set_at_Cons delete_at_Cons sub_obj_def)
  then show ?case using Cons.IH [of "aput k (GObj (app_op x sub)) m"] Cons.prems by simp
qed (simp add: aput_same)

lemma change_op_push: "map change_op (map (push_key k) xs) = map (push_key k) (map change_op xs)"
  by (simp add: change_op_def push_key_def)

lemma apply_changes:
  "wf_fields b \<Longrightarrow> wf_fields a \<Longrightarrow> fold app_op (map change_op (changes b a)) b = a"
proof (induction b a rule: changes_induct)
  case (step b a)
  have key: "amap_wf (fold app_op (map change_op (key_changes b a k)) m) \<and>
      map_of (fold app_op (map change_op (key_changes b a k)) m) = (map_of m)(k := map_of a k)"
    if m: "amap_wf m" "map_of m k = map_of b k" for k m
  proof (cases rule: key_changes_cases [where b = b and a = a and k = k])
    case (rec bObj aObj)
    have wf: "wf_fields bObj" "wf_fields aObj"
      using step.prems rec(1, 2) wf_map_of by blast+
    have "fold app_op (map change_op (key_changes b a k)) m
        = aput k (GObj (fold app_op (map change_op (changes bObj aObj)) bObj)) m"
      unfolding rec(3) change_op_push
      by (rule fold_push_key) (use m rec(1) changes_nonempty in \<open>auto simp: change_op_def\<close>)
    also have "fold app_op (map change_op (changes bObj aObj)) bObj = aObj"
      by (rule step.IH [OF rec(1, 2) wf])
    finally show ?thesis using m rec(2) by simp
  next
    case leaf
    then show ?thesis using m
      by (cases "map_of a k") (auto simp: leaf_changes_def change_op_def fun_upd_idem)
  qed
  have "amap_wf (fold app_op (map change_op (concat (map (key_changes b a) ks))) m) \<and>
      map_of (fold app_op (map change_op (concat (map (key_changes b a) ks))) m)
        = (\<lambda>x. if x \<in> set ks then map_of a x else map_of m x)"
    if "distinct ks" "amap_wf m" "\<forall>k \<in> set ks. map_of m k = map_of b k" for ks m
    using that
  proof (induction ks arbitrary: m)
    case (Cons k ks)
    let ?m = "fold app_op (map change_op (key_changes b a k)) m"
    have k: "amap_wf ?m" "map_of ?m = (map_of m)(k := map_of a k)" using key [of m k] Cons.prems by auto
    have "\<forall>l \<in> set ks. map_of ?m l = map_of b l" using k(2) Cons.prems by auto
    then show ?case using Cons.IH [of ?m] Cons.prems(1) k by (auto simp: fun_eq_iff)
  qed simp
  from this [of "keys2 b a" b]
  have "amap_wf (fold app_op (map change_op (changes b a)) b)"
    and "map_of (fold app_op (map change_op (changes b a)) b)
        = (\<lambda>x. if x \<in> set (keys2 b a) then map_of a x else map_of b x)"
    using step.prems(1) by (simp_all add: changes_keys)
  moreover have "(\<lambda>x. if x \<in> set (keys2 b a) then map_of a x else map_of b x) = map_of a"
    by (auto simp: fun_eq_iff) (metis map_of_eq_None_iff)
  ultimately show ?case using step.prems(2) by (intro amap_ext) auto
qed

section \<open>DiffAttributes and ApplyAfter\<close>

text \<open>No key contains a dot, so the path of a value says where the value is.\<close>

fun dotless :: "gval \<Rightarrow> bool" where
  "dotless (GObj fs) \<longleftrightarrow> list_all (\<lambda>b. CHR ''.'' \<notin> set (fst b) \<and> dotless (snd b)) fs"
| "dotless v \<longleftrightarrow> True"

definition keys_ok :: "fields \<Rightarrow> bool" where
  "keys_ok fs \<longleftrightarrow> dotless (GObj fs) \<and> [] \<notin> fst ` set fs"

lemma dotless_map_of: "dotless (GObj fs) \<Longrightarrow> map_of fs k = Some v \<Longrightarrow> CHR ''.'' \<notin> set k \<and> dotless v"
  by (fastforce simp: list_all_iff dest: map_of_SomeD)

lemma changes_parts:
  "dotless (GObj b) \<Longrightarrow> dotless (GObj a) \<Longrightarrow> c \<in> set (changes b a) \<Longrightarrow>
   \<forall>p \<in> set (fst c). CHR ''.'' \<notin> set p"
proof (induction b a arbitrary: c rule: changes_induct)
  case (step b a)
  from step.prems(3) obtain k where k: "k \<in> set (keys2 b a)" and c: "c \<in> set (key_changes b a k)"
    by (auto simp: changes_keys)
  from k have "map_of b k \<noteq> None \<or> map_of a k \<noteq> None"
    by (simp add: map_of_eq_None_iff)
  then have dot: "CHR ''.'' \<notin> set k" using dotless_map_of step.prems(1, 2) by blast
  show ?case
  proof (cases rule: key_changes_cases [where b = b and a = a and k = k])
    case (rec bObj aObj)
    have d: "dotless (GObj bObj)" "dotless (GObj aObj)"
      using dotless_map_of [OF step.prems(1) rec(1)] dotless_map_of [OF step.prems(2) rec(2)] by blast+
    from c rec(3) obtain e where e: "e \<in> set (changes bObj aObj)" "c = push_key k e" by auto
    show ?thesis using step.IH [OF rec(1, 2) d e(1)] e(2) dot by simp
  next
    case leaf
    then have "c \<in> set (leaf_changes k (map_of b k) (map_of a k))" using c by simp
    then have "fst c = [k]" by (auto simp: leaf_changes_def split: if_splits)
    then show ?thesis using dot by simp
  qed
qed

definition dot_join :: "string list \<Rightarrow> string" where
  "dot_join ps = join_with (CHR ''.'') ps"

lemma dot_join_snoc: "dot_join ps \<noteq> [] \<Longrightarrow> dot_join (ps @ [k]) = sub_path (dot_join ps) k"
  using join_with_snoc [of ps "CHR ''.''" k] by (cases "ps = []") (auto simp: dot_join_def sub_path_def)

definition put_change :: "string list \<Rightarrow> change \<Rightarrow> diff \<Rightarrow> diff" where
  "put_change pp c = diff_leaf (dot_join (pp @ fst c)) (fst (snd c)) (snd (snd c))"

lemma put_leaf_changes:
  "fold (put_change pp) (leaf_changes k bv av) out = diff_leaf (dot_join (pp @ [k])) bv av out"
  by (simp add: leaf_changes_def put_change_def diff_leaf_def)

lemma put_push_key: "put_change pp (push_key k c) = put_change (pp @ [k]) c"
  by (simp add: put_change_def)

lemma fold_push_put:
  "fold (put_change pp) (map (push_key k) cs) out = fold (put_change (pp @ [k])) cs out"
  by (induction cs arbitrary: out) (auto simp: put_push_key)

lemma diffObjects_changes:
  "(pp = [] \<and> [] \<notin> set (keys2 b a)) \<or> dot_join pp \<noteq> [] \<Longrightarrow>
   diffObjects (dot_join pp) b a out = fold (put_change pp) (changes b a) out"
proof (induction b a arbitrary: pp out rule: changes_induct)
  case (step b a)
  have key: "(case (map_of b k, map_of a k) of
          (Some (GObj bObj), Some (GObj aObj)) \<Rightarrow>
            if \<not> isRedactedMarker bObj \<and> \<not> isRedactedMarker aObj
            then diffObjects (sub_path (dot_join pp) k) bObj aObj out
            else diff_leaf (sub_path (dot_join pp) k) (map_of b k) (map_of a k) out
        | _ \<Rightarrow> diff_leaf (sub_path (dot_join pp) k) (map_of b k) (map_of a k) out)
      = fold (put_change pp) (key_changes b a k) out" (is "?f k out = _")
    if k: "k \<in> set (keys2 b a)" for k out
  proof -
    have path: "sub_path (dot_join pp) k = dot_join (pp @ [k])" "dot_join (pp @ [k]) \<noteq> []"
      using step.prems k dot_join_snoc [of pp k]
      by (auto simp: dot_join_def sub_path_def simp del: set_keys2)
    show ?thesis
    proof (cases "\<exists>bObj aObj. map_of b k = Some (GObj bObj) \<and> map_of a k = Some (GObj aObj) \<and>
        \<not> isRedactedMarker bObj \<and> \<not> isRedactedMarker aObj")
      case True
      then obtain bObj aObj where "map_of b k = Some (GObj bObj)" "map_of a k = Some (GObj aObj)"
        "\<not> isRedactedMarker bObj" "\<not> isRedactedMarker aObj" by blast
      then show ?thesis using step.IH [of k bObj aObj "pp @ [k]"] path
        by (simp add: key_changes_def fold_push_put)
    next
      case False
      then show ?thesis
        unfolding key_changes_def by (auto simp: path put_leaf_changes split: option.split gval.split)
    qed
  qed
  show ?case
    unfolding diffObjects.simps [of "dot_join pp" b a] changes_keys
    by (rule fold_concat_map) (rule key)
qed

text \<open>The two maps the diff returns hold the changes' sides.\<close>

lemma fold_put_change:
  "distinct (map (\<lambda>c. dot_join (fst c)) cs) \<Longrightarrow> \<forall>c \<in> set cs. fst (snd c) \<noteq> snd (snd c) \<Longrightarrow>
   amap_wf (fst out) \<Longrightarrow> amap_wf (snd out) \<Longrightarrow>
   \<forall>c \<in> set cs. dot_join (fst c) \<notin> fst ` set (fst out) \<union> fst ` set (snd out) \<Longrightarrow>
   mset (fst (fold (put_change []) cs out)) = mset (fst out) +
     mset (map (\<lambda>c. (dot_join (fst c), the (fst (snd c)))) (filter (\<lambda>c. fst (snd c) \<noteq> None) cs)) \<and>
   mset (snd (fold (put_change []) cs out)) = mset (snd out) +
     mset (map (\<lambda>c. (dot_join (fst c), the (snd (snd c)))) (filter (\<lambda>c. snd (snd c) \<noteq> None) cs))"
proof (induction cs arbitrary: out)
  case (Cons c cs)
  have new: "k \<notin> fst ` set m \<Longrightarrow> mset (aput k v m) = add_mset (k, v) (mset m)" for k v and m :: "(string, gval) amap"
    by (induction m) auto
  obtain ps x y where c: "c = (ps, x, y)" by (cases c)
  let ?out = "put_change [] c out"
  have out: "?out = (case x of None \<Rightarrow> fst out | Some v \<Rightarrow> aput (dot_join ps) v (fst out),
      case y of None \<Rightarrow> snd out | Some v \<Rightarrow> aput (dot_join ps) v (snd out))"
    using Cons.prems(2) c by (simp add: put_change_def diff_leaf_def)
  have "amap_wf (fst ?out)" "amap_wf (snd ?out)"
    using Cons.prems(3, 4) by (auto simp: out split: option.splits)
  moreover have "\<forall>d \<in> set cs. dot_join (fst d) \<notin> fst ` set (fst ?out) \<union> fst ` set (snd ?out)"
  proof
    fix d
    assume d: "d \<in> set cs"
    then have "dot_join (fst d) \<noteq> dot_join ps" using Cons.prems(1) c by force
    then show "dot_join (fst d) \<notin> fst ` set (fst ?out) \<union> fst ` set (snd ?out)"
      using Cons.prems(5) d by (auto simp: out split: option.splits)
  qed
  ultimately have ih: "mset (fst (fold (put_change []) cs ?out)) = mset (fst ?out) +
     mset (map (\<lambda>c. (dot_join (fst c), the (fst (snd c)))) (filter (\<lambda>c. fst (snd c) \<noteq> None) cs))"
    "mset (snd (fold (put_change []) cs ?out)) = mset (snd ?out) +
     mset (map (\<lambda>c. (dot_join (fst c), the (snd (snd c)))) (filter (\<lambda>c. snd (snd c) \<noteq> None) cs))"
    using Cons.IH [of ?out] Cons.prems(1, 2) by auto
  have fresh: "dot_join ps \<notin> fst ` set (fst out)" "dot_join ps \<notin> fst ` set (snd out)"
    using Cons.prems(5) c by auto
  have "mset (fst ?out) = mset (fst out) + (case x of None \<Rightarrow> {#} | Some v \<Rightarrow> {#(dot_join ps, v)#})"
    "mset (snd ?out) = mset (snd out) + (case y of None \<Rightarrow> {#} | Some v \<Rightarrow> {#(dot_join ps, v)#})"
    using new [OF fresh(1)] new [OF fresh(2)] by (simp_all add: out split: option.split)
  then show ?case using ih by (simp add: c split: option.split)
qed simp

section \<open>The round trip\<close>

definition raws :: "(string, gval) amap \<Rightarrow> patch" where
  "raws m = map (\<lambda>e. (fst e, Some (snd e))) m"

definition entry_set :: "string \<times> raw \<Rightarrow> path_op" where
  "entry_set e = (path_of (fst e), snd e)"

definition entry_del :: "string \<times> raw \<Rightarrow> path_op" where
  "entry_del e = (path_of (fst e), None)"

lemma fold_set_entries:
  "\<forall>e \<in> set es. \<exists>v. snd e = Some v \<and> no_number v \<Longrightarrow>
   fold_res set_entry es (Some m) = Inr (Some (fold app_op (map entry_set es) m))"
proof (induction es arbitrary: m)
  case (Cons e es)
  then obtain p v where "e = (p, Some v)" "no_number v" by (cases e) auto
  then show ?case using Cons
    by (simp add: set_entry_def unmarshal_any_def no_number_plain entry_set_def dotSet_def)
qed simp

lemma fold_delete_entries:
  "fold (delete_entry after) before (Some m)
    = Some (fold app_op (map entry_del (filter (\<lambda>e. fst e \<notin> fst ` set after) before)) m)"
  by (induction before arbitrary: m) (auto simp: delete_entry_def dotDelete_def entry_del_def)

lemma changes_paths_distinct:
  assumes "dotless (GObj b)" "dotless (GObj a)"
  shows "distinct (map (\<lambda>c. dot_join (fst c)) (changes b a))"
    and "c \<in> set (changes b a) \<Longrightarrow> path_of (dot_join (fst c)) = fst c"
proof -
  show path: "path_of (dot_join (fst c)) = fst c" if "c \<in> set (changes b a)" for c
    using that changes_parts [OF assms that] changes_nonempty [OF that]
    by (simp add: dot_join_def split_join)
  have "c = d" if "c \<in> set (changes b a)" "d \<in> set (changes b a)" "dot_join (fst c) = dot_join (fst d)" for c d
  proof -
    have "fst c = fst d" using path [OF that(1)] path [OF that(2)] that(3) by metis
    then show ?thesis using changes_separate [OF that(1, 2)]
      by (metis disjoint_paths_def prefix_order.order_refl)
  qed
  then show "distinct (map (\<lambda>c. dot_join (fst c)) (changes b a))"
    by (simp add: distinct_map changes_distinct inj_on_def)
qed

lemma changes_vals:
  "c \<in> set (changes b a) \<Longrightarrow> wf_fields a \<Longrightarrow> no_number (GObj a) \<Longrightarrow> snd (snd c) = Some v \<Longrightarrow>
   wf_gval v \<and> no_number v"
proof (induction b a arbitrary: c rule: changes_induct)
  case (step b a)
  have val: "wf_gval w \<and> no_number w" if "map_of a k = Some w" for k w
    using that step.prems(2, 3) by (auto simp: list_all_iff dest!: map_of_SomeD)
  from step.prems(1) obtain k where c: "c \<in> set (key_changes b a k)" by (auto simp: changes_keys)
  show ?case
  proof (cases rule: key_changes_cases [where b = b and a = a and k = k])
    case (rec bObj aObj)
    from c rec(3) obtain e where e: "e \<in> set (changes bObj aObj)" "c = push_key k e" by auto
    have "wf_fields aObj" "no_number (GObj aObj)" "snd (snd e) = Some v"
      using val [OF rec(2)] e(2) step.prems(4) by (simp_all add: push_key_def)
    then show ?thesis by (rule step.IH [OF rec(1, 2) e(1)])
  next
    case leaf
    then have "c \<in> set (leaf_changes k (map_of b k) (map_of a k))" using c by simp
    then have "map_of a k = Some v" using step.prems(4) by (auto simp: leaf_changes_def split: if_splits)
    then show ?thesis by (rule val)
  qed
qed

definition change_before :: "change \<Rightarrow> string \<times> raw" where
  "change_before c = (dot_join (fst c), fst (snd c))"

definition change_after :: "change \<Rightarrow> string \<times> raw" where
  "change_after c = (dot_join (fst c), snd (snd c))"

lemma DiffAttributes_changes:
  assumes "no_number (GObj b)" "no_number (GObj a)" "keys_ok b" "keys_ok a"
    and "DiffAttributes (Some (GObj b)) (Some (GObj a)) = Some (before, after)"
  shows "mset (raws before) = mset (map change_before (filter (\<lambda>c. fst (snd c) \<noteq> None) (changes b a)))"
    and "mset (raws after) = mset (map change_after (filter (\<lambda>c. snd (snd c) \<noteq> None) (changes b a)))"
proof -
  have out: "(before, after) = fold (put_change []) (changes b a) ([], [])"
    using assms diffObjects_changes [of "[]" b a "([], [])"]
    by (simp add: DiffAttributes_def unmarshal_map_no_number fields_of_def dot_join_def keys_ok_def
        del: no_number.simps)
  note dist = changes_paths_distinct [of b a]
  have neq: "\<forall>c \<in> set (changes b a). fst (snd c) \<noteq> snd (snd c)" using changes_neq by force
  note sides = fold_put_change [of "changes b a" "([], [])", OF _ neq]
  have raws: "mset (raws m) = image_mset (\<lambda>e. (fst e, Some (snd e))) (mset m)" for m :: "(string, gval) amap"
    by (simp add: raws_def)
  have m: "mset before = mset (map (\<lambda>c. (dot_join (fst c), the (fst (snd c)))) (filter (\<lambda>c. fst (snd c) \<noteq> None) (changes b a)))"
    "mset after = mset (map (\<lambda>c. (dot_join (fst c), the (snd (snd c)))) (filter (\<lambda>c. snd (snd c) \<noteq> None) (changes b a)))"
    using sides dist(1) assms(3, 4) out [symmetric] by (simp_all add: keys_ok_def del: dotless.simps)
  show "mset (raws before) = mset (map change_before (filter (\<lambda>c. fst (snd c) \<noteq> None) (changes b a)))"
    unfolding raws m(1) mset_map image_mset.compositionality
    by (rule image_mset_cong) (auto simp: change_before_def)
  show "mset (raws after) = mset (map change_after (filter (\<lambda>c. snd (snd c) \<noteq> None) (changes b a)))"
    unfolding raws m(2) mset_map image_mset.compositionality
    by (rule image_mset_cong) (auto simp: change_after_def)
qed

text \<open>The entries of the two maps, in any order, are the changes' operations.\<close>

lemma patch_ops:
  assumes dot: "dotless (GObj b)" "dotless (GObj a)"
    and before: "mset before' = mset (map change_before (filter (\<lambda>c. fst (snd c) \<noteq> None) (changes b a)))"
    and after: "mset after' = mset (map change_after (filter (\<lambda>c. snd (snd c) \<noteq> None) (changes b a)))"
  shows "mset (map entry_set after' @ map entry_del (filter (\<lambda>e. fst e \<notin> fst ` set after') before'))
    = mset (map change_op (changes b a))"
proof -
  let ?cs = "changes b a"
  note path = changes_paths_distinct [OF dot]
  have keys: "fst ` set after' = (\<lambda>c. dot_join (fst c)) ` {c \<in> set ?cs. snd (snd c) \<noteq> None}"
    using mset_eq_setD [OF after] by (simp add: image_image change_after_def)
  have gone: "dot_join (fst c) \<notin> fst ` set after' \<longleftrightarrow> snd (snd c) = None" if "c \<in> set ?cs" for c
    using that path(1) by (auto simp: keys distinct_map inj_on_def)
  have s: "mset (map entry_set after') = mset (map change_op (filter (\<lambda>c. snd (snd c) \<noteq> None) ?cs))"
    unfolding mset_map after image_mset.compositionality
    by (rule image_mset_cong) (auto simp: entry_set_def change_after_def change_op_def path(2))
  have f: "mset (filter (\<lambda>e. fst e \<notin> fst ` set after') before')
      = image_mset change_before (mset (filter (\<lambda>c. snd (snd c) = None) ?cs))"
  proof -
    have "mset (filter (\<lambda>e. fst e \<notin> fst ` set after') before')
        = filter_mset (\<lambda>e. fst e \<notin> fst ` set after') (image_mset change_before (mset (filter (\<lambda>c. fst (snd c) \<noteq> None) ?cs)))"
      using before by simp
    also have "\<dots> = image_mset change_before (mset (filter (\<lambda>c. dot_join (fst c) \<notin> fst ` set after' \<and> fst (snd c) \<noteq> None) ?cs))"
      by (simp add: filter_mset_image_mset change_before_def filter_filter_mset conj_commute flip: mset_filter)
    also have "filter (\<lambda>c. dot_join (fst c) \<notin> fst ` set after' \<and> fst (snd c) \<noteq> None) ?cs
        = filter (\<lambda>c. snd (snd c) = None) ?cs"
      using gone changes_neq by (intro filter_cong) force+
    finally show ?thesis .
  qed
  have d: "mset (map entry_del (filter (\<lambda>e. fst e \<notin> fst ` set after') before'))
      = mset (map change_op (filter (\<lambda>c. snd (snd c) = None) ?cs))"
    unfolding mset_map f image_mset.compositionality
    by (rule image_mset_cong) (auto simp: entry_del_def change_before_def change_op_def path(2))
  have "mset ?cs = mset (filter (\<lambda>c. snd (snd c) \<noteq> None) ?cs) + mset (filter (\<lambda>c. snd (snd c) = None) ?cs)"
    using multiset_partition [of "mset ?cs" "\<lambda>c. snd (snd c) \<noteq> None"] by simp
  then have "mset (map change_op ?cs) = mset (map change_op (filter (\<lambda>c. snd (snd c) \<noteq> None) ?cs))
      + mset (map change_op (filter (\<lambda>c. snd (snd c) = None) ?cs))"
    by (simp only: mset_map image_mset_union)
  then show ?thesis unfolding mset_append s d by (rule sym)
qed

lemma apply_patch_of_diff:
  assumes "wf_fields b" "wf_fields a" "no_number (GObj b)" "no_number (GObj a)"
    and "keys_ok b" "keys_ok a"
    and "DiffAttributes (Some (GObj b)) (Some (GObj a)) = Some (before, after)"
    and "mset before' = mset (raws before)" and "mset after' = mset (raws after)"
  shows "ApplyAfter (Some (GObj b)) before' after' = Inr (Some (GObj a))"
proof -
  note ab = DiffAttributes_changes [OF assms(3-7)]
  have dot: "dotless (GObj b)" "dotless (GObj a)" using assms(5, 6) by (simp_all add: keys_ok_def)
  let ?ops = "map entry_set after' @ map entry_del (filter (\<lambda>e. fst e \<notin> fst ` set after') before')"
  have ops: "mset (map change_op (changes b a)) = mset ?ops"
    using patch_ops [OF dot, of before' after'] ab assms(8, 9) by simp
  have sep: "separate (map change_op (changes b a))"
    unfolding separate_def
    using changes_separate changes_vals [OF _ assms(2, 4)]
    by (fastforce simp: change_op_def wf_op_def split: option.splits)
  have dist: "distinct (map change_op (changes b a))"
    using changes_distinct changes_separate [of _ b a]
    by (fastforce simp: distinct_map inj_on_def change_op_def disjoint_paths_def)
  have "\<forall>e \<in> set after'. \<exists>v. snd e = Some v \<and> no_number v"
    using changes_vals [OF _ assms(2, 4)] mset_eq_setD [OF assms(9)] mset_eq_setD [OF ab(2)]
    by (fastforce simp: change_after_def)
  then have "ApplyAfter (Some (GObj b)) before' after' = Inr (Some (GObj (fold app_op ?ops b)))"
    using assms(3)
    by (simp add: ApplyAfter_def unmarshal_map_no_number fold_set_entries fold_delete_entries
        marshal_map_def del: no_number.simps)
  also have "fold app_op ?ops b = a"
    using fold_app_op_perm [OF assms(1) sep dist ops] apply_changes [OF assms(1, 2)] by simp
  finally show ?thesis .
qed



text \<open>
  A key that contains a dot breaks the round trip: the diff of two states that differ in one tag
  named \<open>k8s.io\<close> addresses the tag as two nested attributes, so applying it leaves the old value in
  place and adds an object the second state does not have.
\<close>

theorem ApplyAfter_dotted_key:
  "let b = GObj [(''tags'', GObj [(''k8s.io'', GStr ''old'')])];
       a = GObj [(''tags'', GObj [(''k8s.io'', GStr ''new'')])]
   in DiffAttributes (Some b) (Some a)
        = Some ([(''tags.k8s.io'', GStr ''old'')], [(''tags.k8s.io'', GStr ''new'')]) \<and>
      ApplyAfter (Some b) [(''tags.k8s.io'', Some (GStr ''old''))] [(''tags.k8s.io'', Some (GStr ''new''))]
        = Inr (Some (GObj [(''tags'', GObj [(''k8s'', GObj [(''io'', GStr ''new'')]), (''k8s.io'', GStr ''old'')])]))"
  by code_simp

end
