(* ===== verification/Proposal.thy ===== *)
theory Proposal
  imports AttrPatch "HOL-Library.Product_Lexorder"
begin

text \<open>
  core/proposal.go: the proposal and its parts, resource addresses, and the JSON document a proposal
  marshals to. A string enumeration (ProposalKind, Status) is a string with named constants, as in
  the source. A Go map field is the list of its entries in the order a run ranges over them; the
  document sorts them, as encoding/json does. A pointer is an option, and a nil slice is the empty
  list: no code of this package distinguishes it from an empty one.
\<close>

section \<open>Addresses\<close>

datatype Address = Address (addr_Stack: string) (addr_Type: string) (addr_Name: string)

definition addr_key :: "Address \<Rightarrow> string \<times> string \<times> string" where
  "addr_key a = (addr_Stack a, addr_Type a, addr_Name a)"

lemma addr_key_inj [simp]: "addr_key a = addr_key b \<longleftrightarrow> a = b"
  by (cases a; cases b) (simp add: addr_key_def)

text \<open>Addresses are ordered by stack, type and name, the order of every sorted listing.\<close>

instantiation Address :: linorder
begin

definition less_eq_Address :: "Address \<Rightarrow> Address \<Rightarrow> bool" where
  "less_eq_Address a b \<longleftrightarrow> addr_key a \<le> addr_key b"

definition less_Address :: "Address \<Rightarrow> Address \<Rightarrow> bool" where
  "less_Address a b \<longleftrightarrow> addr_key a < addr_key b"

instance
  by standard (auto simp: less_eq_Address_def less_Address_def dest: order.antisym)

end

definition addr_String :: "Address \<Rightarrow> string" where
  "addr_String a = addr_Stack a @ ''.'' @ addr_Type a @ ''.'' @ addr_Name a"

definition ParseAddress :: "string \<Rightarrow> Address option" where
  "ParseAddress s =
     (let parts = splitn (CHR ''.'') 3 s
      in if length parts \<noteq> 3 \<or> parts ! 0 = [] \<or> parts ! 1 = [] \<or> parts ! 2 = []
         then None
         else Some (Address (parts ! 0) (parts ! 1) (parts ! 2)))"

text \<open>The addresses that survive printing: only the name may contain dots.\<close>

definition addr_ok :: "Address \<Rightarrow> bool" where
  "addr_ok a \<longleftrightarrow> addr_Stack a \<noteq> [] \<and> addr_Type a \<noteq> [] \<and> addr_Name a \<noteq> [] \<and>
     CHR ''.'' \<notin> set (addr_Stack a) \<and> CHR ''.'' \<notin> set (addr_Type a)"

section \<open>Proposals\<close>

definition SchemaVersion :: int where "SchemaVersion = 2"

definition KindChange :: string where "KindChange = ''change''"
definition KindAdoption :: string where "KindAdoption = ''adoption''"
definition KindDriftAdopt :: string where "KindDriftAdopt = ''drift_adopt''"
definition KindDriftRevert :: string where "KindDriftRevert = ''drift_revert''"
definition KindRevert :: string where "KindRevert = ''revert''"

lemmas kind_defs = KindChange_def KindAdoption_def KindDriftAdopt_def KindDriftRevert_def KindRevert_def

definition StatusDraft :: string where "StatusDraft = ''draft''"
definition StatusAccepted :: string where "StatusAccepted = ''accepted''"

record AmbiguityNote =
  an_Text :: string
  an_Affects :: "string list"

record Question =
  qn_Text :: string
  qn_Affects :: "string list"
  qn_Blocking :: bool

record IntentSource =
  src_Kind :: string
  src_Ref :: string
  src_ContentHash :: string
  src_Base :: string
  src_DeclaredArgs :: "(string \<times> string) list"
  src_WithheldArgs :: "string list"
  src_Declaration :: string
  src_DeclaredSource :: string
  src_DeclaredRev :: string
  src_DeclaredPath :: string
  src_EventID :: string
  src_EventName :: string
  src_EventTime :: string
  src_ActorARN :: string
  src_SourceIP :: string
  src_SessionContext :: raw
  src_Reason :: string
  src_Backend :: string

record Intent =
  int_Summary :: string
  int_Sources :: "IntentSource list"
  int_Assumptions :: "AmbiguityNote list"
  int_Defaults :: "AmbiguityNote list"
  int_Questions :: "Question list"

record ProviderRef =
  pr_Source :: string
  pr_Version :: string

record Modification =
  mod_Target :: Address
  mod_Before :: patch
  mod_After :: patch
  mod_DependsOn :: "string list"
  mod_Provider :: "ProviderRef option"
  mod_Sources :: "IntentSource list"

record DestroyEntry =
  des_Address :: Address
  des_State :: raw
  des_DependsOn :: "string list"
  des_Provider :: "ProviderRef option"
  des_Sources :: "IntentSource list"

record Delta =
  d_Creates :: "raw list"
  d_Modifies :: "Modification list"
  d_Destroys :: "DestroyEntry list"

record ResolutionInput =
  in_Kind :: string
  in_Resource :: string
  in_From :: string
  in_ObservedHash :: string
  in_Lookup :: raw
  in_ProviderChecksum :: string
  in_PinnedHead :: string
  in_LedgerDir :: string
  in_Status :: string
  in_CheckedLedgerDirs :: "string list"

record Resolution =
  rs_ResolvedAt :: string
  rs_Inputs :: "ResolutionInput list"

record BlastRadius =
  br_Creates :: int
  br_Modifies :: int
  br_Destroys :: int

record InvariantCheck =
  ic_Policy :: string
  ic_Verdict :: string

record Acceptance =
  ac_Method :: string
  ac_Platform :: string
  ac_MergeSHA :: string
  ac_PRNumber :: int
  ac_ProposalFile :: string
  ac_Approvers :: "string list"
  ac_ReviewComment :: string
  ac_AcceptedAt :: string

record Proposal =
  p_SchemaVersion :: int
  p_ID :: string
  p_Stack :: string
  p_Parent :: string
  p_Kind :: string
  p_Intent :: Intent
  p_Delta :: Delta
  p_Resolution :: Resolution
  p_CostDelta :: raw
  p_BlastRadius :: BlastRadius
  p_InvariantsChecked :: "InvariantCheck list"
  p_Acceptance :: "Acceptance option"
  p_Status :: string

section \<open>The document of a proposal\<close>

text \<open>One member of a JSON object under its tag; \<open>None\<close> when omitempty leaves it out.\<close>

type_synonym jmember = "string \<times> gval option"

definition jobj :: "jmember list \<Rightarrow> gval" where
  "jobj ms = GObj (foldr (\<lambda>m fs. case snd m of None \<Rightarrow> fs | Some v \<Rightarrow> aput (fst m) v fs) ms [])"

definition jstr :: "string \<Rightarrow> string \<Rightarrow> jmember" where
  "jstr k s = (k, Some (GStr s))"

definition jstr_oe :: "string \<Rightarrow> string \<Rightarrow> jmember" where
  "jstr_oe k s = (k, if s = [] then None else Some (GStr s))"

definition jint_oe :: "string \<Rightarrow> int \<Rightarrow> jmember" where
  "jint_oe k i = (k, if i = 0 then None else Some (GInt i))"

definition jlist_oe :: "string \<Rightarrow> ('a \<Rightarrow> gval) \<Rightarrow> 'a list \<Rightarrow> jmember" where
  "jlist_oe k f xs = (k, if xs = [] then None else Some (GArr (map f xs)))"

definition jopt_oe :: "string \<Rightarrow> ('a \<Rightarrow> gval) \<Rightarrow> 'a option \<Rightarrow> jmember" where
  "jopt_oe k f x = (k, map_option f x)"

definition raw_val :: "raw \<Rightarrow> gval" where
  "raw_val r = (case r of None \<Rightarrow> GNil | Some v \<Rightarrow> v)"

definition jmap_oe :: "string \<Rightarrow> ('a \<Rightarrow> gval) \<Rightarrow> (string \<times> 'a) list \<Rightarrow> jmember" where
  "jmap_oe k f m = (k, if m = [] then None else Some (jobj (map (\<lambda>e. (fst e, Some (f (snd e)))) m)))"

definition json_Address :: "Address \<Rightarrow> gval" where
  "json_Address a =
     jobj [jstr ''stack'' (addr_Stack a), jstr ''type'' (addr_Type a), jstr ''name'' (addr_Name a)]"

definition json_AmbiguityNote :: "AmbiguityNote \<Rightarrow> gval" where
  "json_AmbiguityNote n = jobj [jstr ''text'' (an_Text n), jlist_oe ''affects'' GStr (an_Affects n)]"

definition json_Question :: "Question \<Rightarrow> gval" where
  "json_Question q = jobj [jstr ''text'' (qn_Text q), jlist_oe ''affects'' GStr (qn_Affects q),
     (''blocking'', if qn_Blocking q then Some (GBool True) else None)]"

definition json_IntentSource :: "IntentSource \<Rightarrow> gval" where
  "json_IntentSource s = jobj [
     jstr ''kind'' (src_Kind s), jstr_oe ''ref'' (src_Ref s),
     jstr_oe ''content_hash'' (src_ContentHash s), jstr_oe ''base'' (src_Base s),
     jmap_oe ''declared_args'' GStr (src_DeclaredArgs s),
     jlist_oe ''withheld_args'' GStr (src_WithheldArgs s),
     jstr_oe ''declaration'' (src_Declaration s), jstr_oe ''declared_source'' (src_DeclaredSource s),
     jstr_oe ''declared_rev'' (src_DeclaredRev s), jstr_oe ''declared_path'' (src_DeclaredPath s),
     jstr_oe ''event_id'' (src_EventID s), jstr_oe ''event_name'' (src_EventName s),
     jstr_oe ''event_time'' (src_EventTime s), jstr_oe ''actor_arn'' (src_ActorARN s),
     jstr_oe ''source_ip'' (src_SourceIP s), (''session_context'', src_SessionContext s),
     jstr_oe ''reason'' (src_Reason s), jstr_oe ''backend'' (src_Backend s)]"

definition json_Intent :: "Intent \<Rightarrow> gval" where
  "json_Intent i = jobj [
     jstr ''summary'' (int_Summary i), jlist_oe ''sources'' json_IntentSource (int_Sources i),
     jlist_oe ''assumptions'' json_AmbiguityNote (int_Assumptions i),
     jlist_oe ''defaults'' json_AmbiguityNote (int_Defaults i),
     jlist_oe ''questions'' json_Question (int_Questions i)]"

definition json_ProviderRef :: "ProviderRef \<Rightarrow> gval" where
  "json_ProviderRef r = jobj [jstr ''source'' (pr_Source r), jstr ''version'' (pr_Version r)]"

definition json_Modification :: "Modification \<Rightarrow> gval" where
  "json_Modification m = jobj [
     (''target'', Some (json_Address (mod_Target m))),
     jmap_oe ''before'' raw_val (mod_Before m), jmap_oe ''after'' raw_val (mod_After m),
     jlist_oe ''depends_on'' GStr (mod_DependsOn m), jopt_oe ''provider'' json_ProviderRef (mod_Provider m),
     jlist_oe ''sources'' json_IntentSource (mod_Sources m)]"

definition json_DestroyEntry :: "DestroyEntry \<Rightarrow> gval" where
  "json_DestroyEntry d = jobj [
     (''address'', Some (json_Address (des_Address d))), (''state'', Some (raw_val (des_State d))),
     jlist_oe ''depends_on'' GStr (des_DependsOn d), jopt_oe ''provider'' json_ProviderRef (des_Provider d),
     jlist_oe ''sources'' json_IntentSource (des_Sources d)]"

definition json_Delta :: "Delta \<Rightarrow> gval" where
  "json_Delta d = jobj [
     jlist_oe ''creates'' raw_val (d_Creates d), jlist_oe ''modifies'' json_Modification (d_Modifies d),
     jlist_oe ''destroys'' json_DestroyEntry (d_Destroys d)]"

definition json_ResolutionInput :: "ResolutionInput \<Rightarrow> gval" where
  "json_ResolutionInput i = jobj [
     jstr ''kind'' (in_Kind i), jstr ''resource'' (in_Resource i), jstr_oe ''from'' (in_From i),
     jstr ''observed_hash'' (in_ObservedHash i), (''lookup'', in_Lookup i),
     jstr_oe ''provider_checksum'' (in_ProviderChecksum i), jstr_oe ''pinned_head'' (in_PinnedHead i),
     jstr_oe ''ledger_dir'' (in_LedgerDir i), jstr_oe ''status'' (in_Status i),
     jlist_oe ''checked_ledger_dirs'' GStr (in_CheckedLedgerDirs i)]"

definition json_Resolution :: "Resolution \<Rightarrow> gval" where
  "json_Resolution r = jobj [jstr ''resolved_at'' (rs_ResolvedAt r),
     jlist_oe ''inputs'' json_ResolutionInput (rs_Inputs r)]"

definition json_BlastRadius :: "BlastRadius \<Rightarrow> gval" where
  "json_BlastRadius b = jobj [(''creates'', Some (GInt (br_Creates b))),
     (''modifies'', Some (GInt (br_Modifies b))), (''destroys'', Some (GInt (br_Destroys b)))]"

definition json_InvariantCheck :: "InvariantCheck \<Rightarrow> gval" where
  "json_InvariantCheck c = jobj [jstr ''policy'' (ic_Policy c), jstr ''verdict'' (ic_Verdict c)]"

definition json_Acceptance :: "Acceptance \<Rightarrow> gval" where
  "json_Acceptance a = jobj [
     jstr ''method'' (ac_Method a), jstr_oe ''platform'' (ac_Platform a), jstr_oe ''merge_sha'' (ac_MergeSHA a),
     jint_oe ''pr_number'' (ac_PRNumber a), jstr_oe ''proposal_file'' (ac_ProposalFile a),
     jlist_oe ''approvers'' GStr (ac_Approvers a), jstr_oe ''review_comment'' (ac_ReviewComment a),
     jstr_oe ''accepted_at'' (ac_AcceptedAt a)]"

definition json_Proposal :: "Proposal \<Rightarrow> gval" where
  "json_Proposal p = jobj [
     (''schema_version'', Some (GInt (p_SchemaVersion p))), jstr_oe ''id'' (p_ID p),
     jstr ''stack'' (p_Stack p), jstr ''parent'' (p_Parent p), jstr ''kind'' (p_Kind p),
     (''intent'', Some (json_Intent (p_Intent p))), (''delta'', Some (json_Delta (p_Delta p))),
     (''resolution'', Some (json_Resolution (p_Resolution p))),
     (''cost_delta'', Some (jobj [(''monthly_usd'', p_CostDelta p)])),
     (''blast_radius'', Some (json_BlastRadius (p_BlastRadius p))),
     jlist_oe ''invariants_checked'' json_InvariantCheck (p_InvariantsChecked p),
     jopt_oe ''acceptance'' json_Acceptance (p_Acceptance p), jstr ''status'' (p_Status p)]"

text \<open>What a proposal is after it was written to a file and read again: a nil state is null.\<close>

definition reread :: "Proposal \<Rightarrow> Proposal" where
  "reread p = p\<lparr>p_Delta := (p_Delta p)\<lparr>d_Creates := map (\<lambda>r. Some (raw_val r)) (d_Creates (p_Delta p)),
     d_Destroys := map (\<lambda>d. d\<lparr>des_State := Some (raw_val (des_State d))\<rparr>) (d_Destroys (p_Delta p))\<rparr>\<rparr>"

lemma raw_val_Some [simp]: "raw_val (Some v) = v"
  by (simp add: raw_val_def)

lemma jlist_oe_map [simp]: "jlist_oe k f (map g xs) = jlist_oe k (\<lambda>x. f (g x)) xs"
  by (simp add: jlist_oe_def comp_def)

lemma json_DestroyEntry_state [simp]:
  "json_DestroyEntry (d\<lparr>des_State := Some (raw_val (des_State d))\<rparr>) = json_DestroyEntry d"
  by (simp add: json_DestroyEntry_def)

lemma json_Delta_reread [simp]: "json_Delta (p_Delta (reread p)) = json_Delta (p_Delta p)"
  by (simp add: reread_def json_Delta_def)

lemma json_Proposal_reread [simp]: "json_Proposal (reread p) = json_Proposal p"
proof -
  have "p_SchemaVersion (reread p) = p_SchemaVersion p \<and> p_ID (reread p) = p_ID p \<and>
    p_Stack (reread p) = p_Stack p \<and> p_Parent (reread p) = p_Parent p \<and> p_Kind (reread p) = p_Kind p \<and>
    p_Intent (reread p) = p_Intent p \<and> p_Resolution (reread p) = p_Resolution p \<and>
    p_CostDelta (reread p) = p_CostDelta p \<and> p_BlastRadius (reread p) = p_BlastRadius p \<and>
    p_InvariantsChecked (reread p) = p_InvariantsChecked p \<and>
    p_Acceptance (reread p) = p_Acceptance p \<and> p_Status (reread p) = p_Status p"
    by (simp add: reread_def)
  then show ?thesis by (simp add: json_Proposal_def)
qed

lemma reread_idem [simp]: "reread (reread p) = reread p"
  by (simp add: reread_def comp_def)

lemma reread_sel [simp]:
  "p_ID (reread p) = p_ID p" "p_Parent (reread p) = p_Parent p" "p_Kind (reread p) = p_Kind p"
  "p_Stack (reread p) = p_Stack p" "p_Acceptance (reread p) = p_Acceptance p"
  "p_Status (reread p) = p_Status p" "p_Resolution (reread p) = p_Resolution p"
  "p_Intent (reread p) = p_Intent p"
  by (simp_all add: reread_def)

lemma amap_wf_jobj: "\<exists>fs. jobj ms = GObj fs \<and> amap_wf fs"
proof -
  have "amap_wf (foldr (\<lambda>m fs. case snd m of None \<Rightarrow> fs | Some v \<Rightarrow> aput (fst m) v fs) ms [])"
    by (induction ms) (auto split: option.split)
  then show ?thesis by (simp add: jobj_def)
qed

section \<open>Addresses as text\<close>

lemma splitn3_addr:
  "CHR ''.'' \<notin> set s \<Longrightarrow> CHR ''.'' \<notin> set t \<Longrightarrow> splitn (CHR ''.'') 3 (s @ CHR ''.'' # t @ CHR ''.'' # n) = [s, t, n]"
  by (simp add: numeral_3_eq_3 takeWhile_sep dropWhile_sep)

lemma ParseAddress_String: "addr_ok a \<Longrightarrow> ParseAddress (addr_String a) = Some a"
proof -
  assume a: "addr_ok a"
  then have "splitn (CHR ''.'') 3 (addr_String a) = [addr_Stack a, addr_Type a, addr_Name a]"
    by (simp add: addr_String_def addr_ok_def splitn3_addr)
  with a show "ParseAddress (addr_String a) = Some a"
    by (simp add: ParseAddress_def addr_ok_def)
qed

text \<open>
  C36. Parsing inverts printing exactly on the addresses whose three parts are not empty and whose
  stack and type have no dot, and printing inverts parsing: an address is parsed from a text iff
  the text is its print and the address is one of these. A resource name may contain dots.
\<close>

theorem ParseAddress_iff: "ParseAddress s = Some a \<longleftrightarrow> addr_ok a \<and> s = addr_String a"
proof
  assume "addr_ok a \<and> s = addr_String a"
  then show "ParseAddress s = Some a" by (simp add: ParseAddress_String)
next
  assume p: "ParseAddress s = Some a"
  obtain x y z where parts: "splitn (CHR ''.'') 3 s = [x, y, z]" "x \<noteq> []" "y \<noteq> []" "z \<noteq> []" "a = Address x y z"
  proof -
    have "length (splitn (CHR ''.'') 3 s) = 3" using p by (auto simp: ParseAddress_def Let_def split: if_splits)
    then obtain x y z where "splitn (CHR ''.'') 3 s = [x, y, z]"
      by (auto simp: numeral_3_eq_3 length_Suc_conv)
    then show ?thesis using p that by (auto simp: ParseAddress_def Let_def split: if_splits)
  qed
  have "s = join_with (CHR ''.'') [x, y, z]"
    using join_splitn [of 3 "CHR ''.''" s] parts(1) by simp
  moreover have "CHR ''.'' \<notin> set x \<and> CHR ''.'' \<notin> set y"
    using parts(1) by (auto simp: numeral_3_eq_3 split: list.splits dest: set_takeWhileD)
  ultimately show "addr_ok a \<and> s = addr_String a"
    using parts by (simp add: addr_ok_def addr_String_def)
qed

section \<open>A sample\<close>

text \<open>Proposals the concrete instances of the theorems are stated about.\<close>

definition sample_source :: IntentSource where
  "sample_source = \<lparr>src_Kind = ''dialogue'', src_Ref = ''r'', src_ContentHash = [], src_Base = [],
     src_DeclaredArgs = [], src_WithheldArgs = [], src_Declaration = [], src_DeclaredSource = [],
     src_DeclaredRev = [], src_DeclaredPath = [], src_EventID = [], src_EventName = [], src_EventTime = [],
     src_ActorARN = [], src_SourceIP = [], src_SessionContext = None, src_Reason = [], src_Backend = []\<rparr>"

definition sample_input :: "string \<Rightarrow> string \<Rightarrow> string \<Rightarrow> raw \<Rightarrow> ResolutionInput" where
  "sample_input kind res hash lookup = \<lparr>in_Kind = kind, in_Resource = res, in_From = [],
     in_ObservedHash = hash, in_Lookup = lookup, in_ProviderChecksum = [], in_PinnedHead = [],
     in_LedgerDir = [], in_Status = [], in_CheckedLedgerDirs = []\<rparr>"

definition sample_proposal :: "string \<Rightarrow> string \<Rightarrow> string \<Rightarrow> Delta \<Rightarrow> ResolutionInput list \<Rightarrow> BlastRadius \<Rightarrow> Proposal" where
  "sample_proposal i parent kind d ins br = \<lparr>p_SchemaVersion = 2, p_ID = i, p_Stack = ''s'', p_Parent = parent,
     p_Kind = kind,
     p_Intent = \<lparr>int_Summary = ''x'', int_Sources = [], int_Assumptions = [], int_Defaults = [], int_Questions = []\<rparr>,
     p_Delta = d, p_Resolution = \<lparr>rs_ResolvedAt = ''t'', rs_Inputs = ins\<rparr>, p_CostDelta = None,
     p_BlastRadius = br, p_InvariantsChecked = [], p_Acceptance = None, p_Status = ''draft''\<rparr>"

lemmas sample_defs = sample_source_def sample_input_def sample_proposal_def

end
