(* ===== verification/Canonical.thy ===== *)
theory Canonical
  imports Proposal
begin

text \<open>
  core/canonical.go, core/doublerun.go and core/hash.go: the canonical JSON bytes of a proposal's
  hashed content and its content hash. SHA-256 is a parameter \<open>sha\<close>, the lower-case hex digest of
  a byte string; what rests on it says which two inputs must not collide.
\<close>

section \<open>Numbers\<close>

text \<open>Decoding a document with UseNumber: every number is its text.\<close>

fun use_number :: "gval \<Rightarrow> gval" where
  "use_number (GFloat f) = GNumber (f64_text f)"
| "use_number (GInt i) = GNumber (int_text i)"
| "use_number (GArr xs) = GArr (map use_number xs)"
| "use_number (GObj fs) = GObj (map (\<lambda>b. (fst b, use_number (snd b))) fs)"
| "use_number v = v"

definition is_digit :: "char \<Rightarrow> bool" where
  "is_digit c \<longleftrightarrow> CHR ''0'' \<le> c \<and> c \<le> CHR ''9''"

text \<open>strconv.ParseInt with base 10 and 64 bits.\<close>

definition ParseInt64 :: "string \<Rightarrow> int option" where
  "ParseInt64 s =
     (let neg = (s \<noteq> [] \<and> hd s = CHR ''-'');
          ds = (if s \<noteq> [] \<and> (hd s = CHR ''-'' \<or> hd s = CHR ''+'') then tl s else s);
          v = (if neg then - digits_val ds 0 else digits_val ds 0)
      in if ds \<noteq> [] \<and> list_all is_digit ds \<and> - (2 ^ 63) \<le> v \<and> v < 2 ^ 63 then Some v else None)"

definition canonicalizeNumber :: "string \<Rightarrow> (err, gval) res" where
  "canonicalizeNumber s =
     (if \<exists>c \<in> set s. c = CHR ''.'' \<or> c = CHR ''e'' \<or> c = CHR ''E'' then Inl ErrFloatRejected
      else case ParseInt64 s of
             None \<Rightarrow> Inl ErrFloatRejected
           | Some i \<Rightarrow> Inr (GInt i))"

fun canonicalizeNumbers :: "gval \<Rightarrow> (err, gval) res" where
  "canonicalizeNumbers (GObj val) =
     rbind (map_res (\<lambda>b. rbind (canonicalizeNumbers (snd b)) (\<lambda>cv. Inr (fst b, cv))) val)
       (\<lambda>out. Inr (GObj out))"
| "canonicalizeNumbers (GArr val) = rbind (map_res canonicalizeNumbers val) (\<lambda>out. Inr (GArr out))"
| "canonicalizeNumbers (GNumber n) = canonicalizeNumber n"
| "canonicalizeNumbers (GFloat f) = Inl ErrFloatRejected"
| "canonicalizeNumbers v = Inr v"

definition CanonicalJSON :: "gval \<Rightarrow> (err, string) res" where
  "CanonicalJSON v = rbind (canonicalizeNumbers v) (\<lambda>canon. Inr (encode False canon))"

definition CanonicalJSONBytes :: "gval \<Rightarrow> (err, string) res" where
  "CanonicalJSONBytes doc = CanonicalJSON (use_number doc)"

section \<open>The hashed content of a proposal\<close>

definition deltaSortKey :: "gval \<Rightarrow> string \<times> string \<times> string" where
  "deltaSortKey el = (case el of
      GObj obj \<Rightarrow>
        let obj = (case get_obj obj ''target'' of
              Some target \<Rightarrow> target
            | None \<Rightarrow> (case get_obj obj ''address'' of Some address \<Rightarrow> address | None \<Rightarrow> obj))
        in (get_str obj ''stack'', get_str obj ''type'', get_str obj ''name'')
    | _ \<Rightarrow> ([], [], []))"

definition sortDeltaElements :: "gval list \<Rightarrow> gval list" where
  "sortDeltaElements arr = sort_key deltaSortKey arr"

definition excludedHashFields :: "string list" where
  "excludedHashFields = [''id'', ''acceptance'', ''status'']"

definition sortField :: "string \<Rightarrow> fields \<Rightarrow> fields" where
  "sortField field delta = (case map_of delta field of
      Some (GArr arr) \<Rightarrow> aput field (GArr (sortDeltaElements arr)) delta
    | _ \<Rightarrow> delta)"

definition hashedFields :: "fields \<Rightarrow> fields" where
  "hashedFields generic =
     (let generic = fold adel excludedHashFields generic
      in case map_of generic ''delta'' of
           Some (GObj delta) \<Rightarrow>
             aput ''delta'' (GObj (fold sortField [''creates'', ''modifies'', ''destroys''] delta)) generic
         | _ \<Rightarrow> generic)"

definition hashedContent :: "Proposal \<Rightarrow> (err, gval) res" where
  "hashedContent p = (case use_number (json_Proposal p) of
      GObj generic \<Rightarrow> canonicalizeNumbers (GObj (hashedFields generic))
    | _ \<Rightarrow> Inl EJson)"

definition canonicalProposalBytes :: "Proposal \<Rightarrow> (err, string) res" where
  "canonicalProposalBytes p = rbind (hashedContent p) (\<lambda>canon. Inr (encode False canon))"

section \<open>Hashing\<close>

text \<open>The function is called twice; its two results are the arguments.\<close>

definition DoubleRun :: "('e, string) res \<Rightarrow> ('e, string) res \<Rightarrow> 'e \<Rightarrow> ('e, string) res" where
  "DoubleRun fn1 fn2 mismatch =
     rbind fn1 (\<lambda>a. rbind fn2 (\<lambda>b. if a = b then Inr a else Inl mismatch))"

definition hashDomainPrefix :: string where
  "hashDomainPrefix = ''ubx:proposal:v1'' @ [CHR 0x0A]"

definition Hash :: "(string \<Rightarrow> string) \<Rightarrow> Proposal \<Rightarrow> (err, string) res" where
  "Hash sha p =
     rbind (DoubleRun (canonicalProposalBytes p) (canonicalProposalBytes p) ErrDoubleRunMismatch)
       (\<lambda>canon. Inr (sha (hashDomainPrefix @ canon)))"

definition is_hex :: "char \<Rightarrow> bool" where
  "is_hex c \<longleftrightarrow> is_digit c \<or> (CHR ''a'' \<le> c \<and> c \<le> CHR ''f'')"

definition IsHash :: "string \<Rightarrow> bool" where
  "IsHash s \<longleftrightarrow> length s = 64 \<and> list_all is_hex s"

lemma Hash_eq: "Hash sha p = rbind (canonicalProposalBytes p) (\<lambda>canon. Inr (sha (hashDomainPrefix @ canon)))"
  by (cases "canonicalProposalBytes p") (auto simp: Hash_def DoubleRun_def)

lemma Hash_Inr: "Hash sha p = Inr h \<longleftrightarrow>
    (\<exists>t. hashedContent p = Inr t \<and> h = sha (hashDomainPrefix @ encode False t))"
  by (auto simp: Hash_eq canonicalProposalBytes_def res_simps)

section \<open>Canonical trees\<close>

text \<open>What canonicalization yields: sorted objects, and int64 as the only numbers.\<close>

fun canonical :: "gval \<Rightarrow> bool" where
  "canonical (GNumber s) \<longleftrightarrow> False"
| "canonical (GFloat f) \<longleftrightarrow> False"
| "canonical (GInt i) \<longleftrightarrow> - (2 ^ 63) \<le> i \<and> i < 2 ^ 63"
| "canonical (GArr xs) \<longleftrightarrow> list_all canonical xs"
| "canonical (GObj fs) \<longleftrightarrow> amap_wf fs \<and> list_all (\<lambda>b. canonical (snd b)) fs"
| "canonical v \<longleftrightarrow> True"

fun decoded :: "gval \<Rightarrow> bool" where
  "decoded (GFloat f) \<longleftrightarrow> False"
| "decoded (GInt i) \<longleftrightarrow> False"
| "decoded (GArr xs) \<longleftrightarrow> list_all decoded xs"
| "decoded (GObj fs) \<longleftrightarrow> list_all (\<lambda>b. decoded (snd b)) fs"
| "decoded v \<longleftrightarrow> True"

lemma decoded_use_number: "decoded (use_number v)"
  by (induction v rule: gval_induct) (auto simp: list_all_iff)

lemma wf_use_number [simp]: "wf_gval (use_number v) = wf_gval v"
proof (induction v rule: gval_induct)
  case (Obj fs)
  have "wf_gval (use_number (snd b)) = wf_gval (snd b)" if "b \<in> set fs" for b
    using Obj [of "fst b" "snd b"] that by simp
  then show ?case by (simp add: list_all_iff amap_wf_def comp_def)
qed (auto simp: list_all_iff)

lemma ParseInt64_bounds: "ParseInt64 s = Some i \<Longrightarrow> - (2 ^ 63) \<le> i \<and> i < 2 ^ 63"
  unfolding ParseInt64_def Let_def by (simp only: option.simps split: if_split_asm)

lemma canonicalizeNumbers_canonical:
  "wf_gval v \<Longrightarrow> decoded v \<Longrightarrow> canonicalizeNumbers v = Inr w \<Longrightarrow> canonical w"
proof (induction v arbitrary: w rule: gval_induct)
  case (Number s)
  then obtain i where i: "ParseInt64 s = Some i" "w = GInt i"
    by (auto simp: canonicalizeNumber_def split: if_splits option.splits)
  from ParseInt64_bounds [OF i(1)] i(2) show ?case by simp
next
  case (Arr xs)
  then show ?case
    by (force simp: res_simps map_res_Inr_iff list_all_iff list_all2_conv_all_nth in_set_conv_nth)
next
  case (Obj fs)
  from Obj.prems(3) obtain out where w: "w = GObj out"
    and out0: "list_all2 (\<lambda>x y. rbind (canonicalizeNumbers (snd x)) (\<lambda>cv. Inr (fst x, cv)) = Inr y) fs out"
    by (auto simp: rbind_Inr_iff map_res_Inr_iff)
  have out: "list_all2 (\<lambda>x y. fst y = fst x \<and> canonicalizeNumbers (snd x) = Inr (snd y)) fs out"
    by (rule list_all2_mono [OF out0]) (auto simp: rbind_Inr_iff)
  have keys: "map fst out = map fst fs"
    using out by (induction rule: list_all2_induct) auto
  have "canonical (snd y)" if y: "y \<in> set out" for y
  proof -
    obtain x where "x \<in> set fs" "canonicalizeNumbers (snd x) = Inr (snd y)"
      using list_all2_right [OF out y] by blast
    then show ?thesis using Obj.IH [of "fst x" "snd x"] Obj.prems(1, 2) by (auto simp: list_all_iff)
  qed
  then show ?case using w keys Obj.prems(1) by (simp add: list_all_iff amap_wf_def)
qed auto

section \<open>The encoding determines the tree\<close>

text \<open>The decoder's reading of a string after its opening quote: the string and what follows it.\<close>

definition hex_val :: "char \<Rightarrow> nat" where
  "hex_val c = (let n = of_char c in if n < 58 then n - 48 else n - 87)"

definition unesc1 :: "char \<Rightarrow> char" where
  "unesc1 e =
     (if e = CHR ''b'' then char_of (8::nat) else if e = CHR ''f'' then char_of (12::nat)
      else if e = CHR ''n'' then char_of (10::nat) else if e = CHR ''r'' then char_of (13::nat)
      else if e = CHR ''t'' then char_of (9::nat) else e)"

definition unesc_u :: "string \<Rightarrow> string" where
  "unesc_u ds =
     (if ds = ''2028'' then line_sep else if ds = ''2029'' then par_sep
      else [char_of (hex_val (ds ! 2) * 16 + hex_val (ds ! 3))])"

fun scan_str :: "string \<Rightarrow> (string \<times> string) option" where
  "scan_str [] = None"
| "scan_str [c] = (if c = CHR 0x22 then Some ([], []) else None)"
| "scan_str (c # e # cs) =
     (if c = CHR 0x22 then Some ([], e # cs)
      else if c \<noteq> bslash then map_option (\<lambda>(s, r). (c # s, r)) (scan_str (e # cs))
      else if e = CHR ''u''
      then map_option (\<lambda>(s, r). (unesc_u (take 4 cs) @ s, r)) (scan_str (drop 4 cs))
      else map_option (\<lambda>(s, r). (unesc1 e # s, r)) (scan_str cs))"

lemma bslash_neq [simp]: "bslash \<noteq> CHR 0x22"
  by (simp add: bslash_def)

lemma scan_str_end: "scan_str (CHR 0x22 # r) = Some ([], r)"
  by (cases r) auto

lemma scan_str_plain:
  "c \<noteq> CHR 0x22 \<Longrightarrow> c \<noteq> bslash \<Longrightarrow> scan_str (c # cs) = map_option (\<lambda>(s, r). (c # s, r)) (scan_str cs)"
  by (cases cs) auto

lemma scan_str_esc:
  "e \<noteq> CHR ''u'' \<Longrightarrow> scan_str (bslash # e # cs) = map_option (\<lambda>(s, r). (unesc1 e # s, r)) (scan_str cs)"
  by (simp add: bslash_def)

lemma scan_str_u:
  "scan_str (bslash # CHR ''u'' # a # b # x # y # cs)
     = map_option (\<lambda>(s, r). (unesc_u [a, b, x, y] @ s, r)) (scan_str cs)"
  by (simp add: bslash_def)

lemmas scan_simps = scan_str_end scan_str_plain scan_str_esc scan_str_u

lemma hex_val_digit: "n < 16 \<Longrightarrow> hex_val (hex_digit n) = n"
  by (simp add: hex_val_def hex_digit_def)

lemma hex_round: "n < 256 \<Longrightarrow> hex_val (hex_digit (n div 16)) * 16 + hex_val (hex_digit (n mod 16)) = n"
  by (simp add: hex_val_digit)

lemma esc1_cases:
  obtains (plain) "esc1 html c = [c]" "c \<noteq> CHR 0x22" "c \<noteq> bslash"
  | (short) e where "esc1 html c = [bslash, e]" "e \<noteq> CHR ''u''" "unesc1 e = c"
  | (hex) x y where "esc1 html c = bslash # ''u00'' @ [x, y]" "unesc_u [CHR ''0'', CHR ''0'', x, y] = [c]"
proof -
  let ?n = "of_char c :: nat"
  have "?n = ?n mod 256" by (metis char_of_char of_char_of)
  then have "?n < 256" by (metis mod_less_divisor zero_less_numeral)
  then have hx: "unesc_u [CHR ''0'', CHR ''0'', hex_digit (?n div 16), hex_digit (?n mod 16)] = [c]"
    by (simp add: unesc_u_def hex_round)
  have c: "c = char_of m \<longleftrightarrow> ?n = m mod 256" for m :: nat
    by (metis char_of_char of_char_of char_of_mod_256)
  have q: "c = CHR 0x22 \<longleftrightarrow> ?n = 0x22" "c = CHR 0x5C \<longleftrightarrow> ?n = 0x5C"
  proof -
    have "of_char (CHR 0x22) = (0x22 :: nat)" "of_char (CHR 0x5C) = (0x5C :: nat)" by simp_all
    then show "c = CHR 0x22 \<longleftrightarrow> ?n = 0x22" "c = CHR 0x5C \<longleftrightarrow> ?n = 0x5C"
      by (metis char_of_char)+
  qed
  consider "?n = 0x22 \<or> ?n = 0x5C" | "?n \<in> {8, 12, 10, 13, 9}"
    | "?n \<notin> {0x22, 0x5C, 8, 12, 10, 13, 9}" "?n < 0x20 \<or> (html \<and> (?n = 0x3C \<or> ?n = 0x3E \<or> ?n = 0x26))"
    | "?n \<notin> {0x22, 0x5C, 8, 12, 10, 13, 9}" "\<not> (?n < 0x20 \<or> (html \<and> (?n = 0x3C \<or> ?n = 0x3E \<or> ?n = 0x26)))"
    by blast
  then show ?thesis
  proof cases
    case 1
    show ?thesis
      by (rule short [of c]) (use 1 q in \<open>auto simp: esc1_def unesc1_def\<close>)
  next
    case 2
    then have "c \<in> {char_of (8::nat), char_of (12::nat), char_of (10::nat), char_of (13::nat), char_of (9::nat)}"
      by (simp add: c)
    then show ?thesis
      using short by (elim insertE emptyE) (simp_all add: esc1_def unesc1_def)
  next
    case 3
    then show ?thesis by (intro hex [OF _ hx]) (auto simp: esc1_def Let_def)
  next
    case 4
    then show ?thesis by (intro plain) (auto simp: esc1_def Let_def q bslash_def)
  qed
qed

lemma scan_esc: "scan_str (esc html s @ CHR 0x22 # r) = Some (s, r)"
proof (induction html s rule: esc.induct)
  case (1 html)
  then show ?case by (simp add: scan_str_end)
next
  case (2 html c cs)
  consider (ls) "take 3 (c # cs) = line_sep" | (ps) "take 3 (c # cs) \<noteq> line_sep" "take 3 (c # cs) = par_sep"
    | (other) "take 3 (c # cs) \<noteq> line_sep" "take 3 (c # cs) \<noteq> par_sep" by blast
  then show ?case
  proof cases
    case ls
    have "c # take 2 cs = line_sep" using ls by simp
    then have cs: "c # cs = line_sep @ drop 2 cs" by (metis append_Cons append_take_drop_id)
    have e: "esc html (c # cs) = bslash # ''u2028'' @ esc html (drop 2 cs)" using ls by (simp add: line_sep_def par_sep_def)
    show ?thesis unfolding e using 2(1) [OF ls] cs by (simp add: scan_simps unesc_u_def)
  next
    case ps
    have "c # take 2 cs = par_sep" using ps by simp
    then have cs: "c # cs = par_sep @ drop 2 cs" by (metis append_Cons append_take_drop_id)
    have e: "esc html (c # cs) = bslash # ''u2029'' @ esc html (drop 2 cs)" using ps by (simp add: line_sep_def par_sep_def)
    show ?thesis unfolding e using 2(2) [OF ps] cs by (simp add: scan_simps unesc_u_def)
  next
    case other
    note ih = 2(3) [OF other]
    have "scan_str (esc1 html c @ esc html cs @ CHR 0x22 # r) = Some (c # cs, r)"
      by (cases rule: esc1_cases [of html c]) (simp_all add: scan_simps ih)
    then show ?thesis using other by simp
  qed
qed

lemma quote_cancel:
  "quote_str html s @ r = quote_str html t @ r' \<Longrightarrow> s = t \<and> r = r'"
proof -
  assume "quote_str html s @ r = quote_str html t @ r'"
  then have "esc html s @ CHR 0x22 # r = esc html t @ CHR 0x22 # r'" by (simp add: quote_str_def)
  from arg_cong [OF this, of scan_str] have "Some (s, r) = Some (t, r')" unfolding scan_esc .
  then show "s = t \<and> r = r'" by simp
qed

text \<open>What may follow a value in a document.\<close>

definition delim :: "string \<Rightarrow> bool" where
  "delim r \<longleftrightarrow> (case r of [] \<Rightarrow> True | c # _ \<Rightarrow> \<not> is_digit c)"

lemma digit_char_digit: "0 \<le> n \<Longrightarrow> n < 10 \<Longrightarrow> is_digit (digit_char n) \<and> digit_val (digit_char n) = n"
proof -
  assume "0 \<le> n" "n < 10"
  then have "n \<in> {0, 1, 2, 3, 4, 5, 6, 7, 8, 9}"
    unfolding insert_iff empty_iff by presburger
  then show ?thesis
    by (elim insertE emptyE) (simp_all add: is_digit_def digit_char_def digit_val_def less_eq_char_def char_of_def)
qed

lemma digits_val_append: "digits_val (xs @ ys) a = digits_val ys (digits_val xs a)"
  by (induction xs arbitrary: a) auto

lemma nat_text_digits:
  "0 \<le> n \<Longrightarrow> nat_text n \<noteq> [] \<and> list_all is_digit (nat_text n) \<and> digits_val (nat_text n) 0 = n"
proof (induction n rule: nat_text.induct)
  case (1 n)
  show ?case
  proof (cases "n < 10")
    case True
    then show ?thesis using 1 digit_char_digit [of n] by (simp add: nat_text.simps [of n])
  next
    case False
    then have "0 \<le> n div 10" by simp
    from "1.IH" [OF False this] digit_char_digit [of "n mod 10"] False show ?thesis
      by (simp add: nat_text.simps [of n] digits_val_append)
  qed
qed

lemma digits_cancel:
  "list_all is_digit xs \<Longrightarrow> list_all is_digit ys \<Longrightarrow> delim r \<Longrightarrow> delim t \<Longrightarrow> xs @ r = ys @ t \<Longrightarrow> xs = ys \<and> r = t"
proof (induction xs arbitrary: ys)
  case Nil
  then show ?case by (cases ys) (auto simp: delim_def)
next
  case (Cons x xs)
  then show ?case by (cases ys) (auto simp: delim_def)
qed

lemma nat_text_cancel:
  "0 \<le> i \<Longrightarrow> 0 \<le> j \<Longrightarrow> delim r \<Longrightarrow> delim t \<Longrightarrow> nat_text i @ r = nat_text j @ t \<Longrightarrow> i = j \<and> r = t"
  using nat_text_digits [of i] nat_text_digits [of j] digits_cancel [of "nat_text i" "nat_text j" r t] by metis

lemma not_digit_chars:
  "\<not> is_digit (CHR ''-'')" "\<not> is_digit (CHR '','')" "\<not> is_digit (CHR '']'')" "\<not> is_digit (CHR ''}'')"
  "\<not> is_digit (CHR ''n'')" "\<not> is_digit (CHR ''t'')" "\<not> is_digit (CHR ''f'')" "\<not> is_digit (CHR 0x22)"
  "\<not> is_digit (CHR ''['')" "\<not> is_digit (CHR ''{'')"
  by (simp_all add: is_digit_def less_eq_char_def)

lemma int_text_hd:
  "\<exists>c cs. int_text i = c # cs \<and> (if i < 0 then c = CHR ''-'' else is_digit c)"
proof (cases "i < 0")
  case False
  then show ?thesis using nat_text_digits [of i] by (cases "nat_text i") (auto simp: int_text_def)
qed (simp add: int_text_def)

lemma int_text_cancel:
  assumes "delim r" "delim t" "int_text i @ r = int_text j @ t"
  shows "i = j \<and> r = t"
proof (cases "i < 0")
  case True
  then have "j < 0" using assms(3) int_text_hd [of i] int_text_hd [of j]
    by (auto simp: not_digit_chars split: if_splits)
  then show ?thesis using True assms nat_text_cancel [of "- i" "- j" r t] by (simp add: int_text_def)
next
  case False
  then have "\<not> j < 0" using assms(3) int_text_hd [of i] int_text_hd [of j]
    by (auto simp: not_digit_chars split: if_splits)
  then show ?thesis using False assms nat_text_cancel [of i j r t] by (simp add: int_text_def)
qed

text \<open>A list of encoded elements and its closing bracket determine the elements.\<close>

definition enc_tail :: "char \<Rightarrow> string list \<Rightarrow> string \<Rightarrow> string" where
  "enc_tail c ws r = (if ws = [] then c # r else CHR '','' # join_with (CHR '','') ws @ c # r)"

lemma enc_tail_step: "join_with (CHR '','') (w # ws) @ c # r = w @ enc_tail c ws r"
  by (cases ws) (auto simp: enc_tail_def)

lemma enc_tail_delim: "c \<in> {CHR '']'', CHR ''}''} \<Longrightarrow> delim (enc_tail c ws r)"
  by (auto simp: enc_tail_def delim_def not_digit_chars)

lemma enc_list_cancel:
  assumes "c \<in> {CHR '']'', CHR ''}''}"
    and "\<And>x y r t. x \<in> set xs \<Longrightarrow> y \<in> set ys \<Longrightarrow> delim r \<Longrightarrow> delim t \<Longrightarrow> f x @ r = f y @ t \<Longrightarrow> x = y \<and> r = t"
    and "\<And>x. x \<in> set xs \<union> set ys \<Longrightarrow> f x \<noteq> [] \<and> hd (f x) \<noteq> c"
    and "join_with (CHR '','') (map f xs) @ c # r = join_with (CHR '','') (map f ys) @ c # t"
  shows "xs = ys \<and> r = t"
  using assms(2-4)
proof (induction xs arbitrary: ys)
  case Nil
  show ?case
  proof (cases ys)
    case (Cons y ys')
    then have "f y \<noteq> [] \<and> hd (f y) \<noteq> c" using Nil.prems(2) by simp
    then show ?thesis using Nil.prems(3) Cons by (cases "f y") (auto simp: enc_tail_step)
  qed (use Nil.prems(3) in simp)
next
  case (Cons x xs)
  have x: "f x \<noteq> [] \<and> hd (f x) \<noteq> c" using Cons.prems(2) by simp
  show ?case
  proof (cases ys)
    case Nil
    then show ?thesis using Cons.prems(3) x by (cases "f x") (auto simp: enc_tail_step)
  next
    case ys: (Cons y ys')
    have "f x @ enc_tail c (map f xs) r = f y @ enc_tail c (map f ys') t"
      using Cons.prems(3) ys by (simp only: list.map enc_tail_step)
    then have eq: "x = y" "enc_tail c (map f xs) r = enc_tail c (map f ys') t"
      using Cons.prems(1) [of x y] ys enc_tail_delim [OF assms(1)] by auto
    have comma: "c \<noteq> CHR '',''" using assms(1) by auto
    have "xs = ys' \<and> r = t"
    proof (cases "xs = [] \<or> ys' = []")
      case True
      then show ?thesis using eq(2) comma by (auto simp: enc_tail_def split: if_splits)
    next
      case False
      then have "join_with (CHR '','') (map f xs) @ c # r = join_with (CHR '','') (map f ys') @ c # t"
        using eq(2) by (simp add: enc_tail_def)
      moreover have "x = y \<and> r = t"
        if "x \<in> set xs" "y \<in> set ys'" "delim r" "delim t" "f x @ r = f y @ t" for x y r t
        by (rule Cons.prems(1)) (use that ys in auto)
      ultimately show ?thesis
        by (intro Cons.IH) (use Cons.prems(2) ys in auto)
    qed
    then show ?thesis using eq(1) ys by simp
  qed
qed

text \<open>The first character of a value's encoding tells its constructor.\<close>

definition head_of :: "gval \<Rightarrow> char \<Rightarrow> bool" where
  "head_of v c = (case v of
      GNil \<Rightarrow> c = CHR ''n''
    | GBool b \<Rightarrow> c = (if b then CHR ''t'' else CHR ''f'')
    | GInt i \<Rightarrow> c = CHR ''-'' \<or> is_digit c
    | GStr s \<Rightarrow> c = CHR 0x22
    | GArr xs \<Rightarrow> c = CHR ''[''
    | GObj fs \<Rightarrow> c = CHR ''{''
    | _ \<Rightarrow> False)"

lemma encode_head: "canonical v \<Longrightarrow> \<exists>c cs. encode html v = c # cs \<and> head_of v c"
proof (cases v)
  case (GInt i)
  then show ?thesis using int_text_hd [of i] by (auto simp: head_of_def split: if_splits)
qed (auto simp: head_of_def quote_str_def)

lemma head_of_bracket: "head_of v c \<Longrightarrow> c \<noteq> CHR '']'' \<and> c \<noteq> CHR ''}''"
  by (auto simp: head_of_def not_digit_chars split: gval.splits if_splits)

lemma encode_not_bracket:
  "canonical v \<Longrightarrow> encode html v \<noteq> [] \<and> hd (encode html v) \<noteq> CHR '']'' \<and> hd (encode html v) \<noteq> CHR ''}''"
  using encode_head [of v html] head_of_bracket by force

definition same_kind :: "gval \<Rightarrow> gval \<Rightarrow> bool" where
  "same_kind v w \<longleftrightarrow> (case (v, w) of
      (GNil, GNil) \<Rightarrow> True | (GBool a, GBool b) \<Rightarrow> a = b | (GInt i, GInt j) \<Rightarrow> True
    | (GStr s, GStr t) \<Rightarrow> True | (GArr xs, GArr ys) \<Rightarrow> True | (GObj fs, GObj gs) \<Rightarrow> True
    | _ \<Rightarrow> False)"

lemma head_same_kind: "head_of v c \<Longrightarrow> head_of w c \<Longrightarrow> same_kind v w"
  by (cases v; cases w) (auto simp: head_of_def same_kind_def not_digit_chars split: if_splits)

lemma encode_same_kind:
  assumes "canonical v" "canonical w" "encode html v @ r = encode html w @ t"
  shows "same_kind v w"
proof -
  obtain c cs d ds where "encode html v = c # cs" "head_of v c" "encode html w = d # ds" "head_of w d"
    using encode_head [OF assms(1)] encode_head [OF assms(2)] by blast
  then show ?thesis using assms(3) head_same_kind by simp
qed

lemma encode_cancel:
  "canonical v \<Longrightarrow> canonical w \<Longrightarrow> delim r \<Longrightarrow> delim t \<Longrightarrow> encode html v @ r = encode html w @ t \<Longrightarrow>
   v = w \<and> r = t"
proof (induction v arbitrary: w r t rule: gval_induct)
  case Nil
  from encode_same_kind [OF Nil(1, 2, 5)] show ?case
    using Nil by (cases w) (auto simp: same_kind_def)
next
  case (Bool b)
  from encode_same_kind [OF Bool(1, 2, 5)] show ?case
    using Bool by (cases w) (auto simp: same_kind_def)
next
  case (Int i)
  from encode_same_kind [OF Int(1, 2, 5)] obtain j where "w = GInt j"
    by (cases w) (auto simp: same_kind_def)
  then show ?case using Int int_text_cancel [of r t i j] by simp
next
  case (Str s)
  from encode_same_kind [OF Str(1, 2, 5)] obtain s' where "w = GStr s'"
    by (cases w) (auto simp: same_kind_def)
  then show ?case using Str quote_cancel [of html s r s' t] by simp
next
  case (Arr xs)
  from encode_same_kind [OF Arr.prems(1, 2, 5)] obtain ys where w: "w = GArr ys"
    by (cases w) (auto simp: same_kind_def)
  have "xs = ys \<and> r = t"
  proof (rule enc_list_cancel [where c = "CHR '']''" and f = "encode html"])
    show "x = y \<and> r = t" if "x \<in> set xs" "y \<in> set ys" "delim r" "delim t"
      "encode html x @ r = encode html y @ t" for x y r t
      using Arr.IH [of x y r t] that Arr.prems(1, 2) w by (simp add: list_all_iff)
    show "encode html x \<noteq> [] \<and> hd (encode html x) \<noteq> CHR '']''" if "x \<in> set xs \<union> set ys" for x
      using encode_not_bracket [of x html] that Arr.prems(1, 2) w by (auto simp: list_all_iff)
  qed (use Arr.prems(5) w in simp_all)
  then show ?case using w by simp
next
  case (Obj fs)
  from encode_same_kind [OF Obj.prems(1, 2, 5)] obtain gs where w: "w = GObj gs"
    by (cases w) (auto simp: same_kind_def)
  let ?f = "\<lambda>b. quote_str html (fst b) @ CHR '':'' # encode html (snd b)"
  have "fs = gs \<and> r = t"
  proof (rule enc_list_cancel [where c = "CHR ''}''" and f = ?f])
    show "x = y \<and> r = t" if "x \<in> set fs" "y \<in> set gs" "delim r" "delim t" "?f x @ r = ?f y @ t" for x y r t
    proof -
      have "fst x = fst y" "encode html (snd x) @ r = encode html (snd y) @ t"
        using quote_cancel [of html "fst x" "CHR '':'' # encode html (snd x) @ r" "fst y"
            "CHR '':'' # encode html (snd y) @ t"] that(5) by simp_all
      moreover have "(fst x, snd x) \<in> set fs" "canonical (snd x)" "canonical (snd y)"
        using that(1, 2) Obj.prems(1, 2) w by (simp_all add: list_all_iff)
      ultimately show ?thesis
        using Obj.IH [of "fst x" "snd x" "snd y" r t] that(3, 4) by (auto simp: prod_eq_iff)
    qed
    show "?f x \<noteq> [] \<and> hd (?f x) \<noteq> CHR ''}''" for x by (simp add: quote_str_def)
  qed (use Obj.prems(5) w in simp_all)
  then show ?case using w by simp
qed auto

lemma encode_inj: "canonical v \<Longrightarrow> canonical w \<Longrightarrow> encode html v = encode html w \<Longrightarrow> v = w"
  using encode_cancel [of v w "[]" "[]" html] by (simp add: delim_def)

section \<open>What the hash binds\<close>

definition doc_fields :: "Proposal \<Rightarrow> fields" where
  "doc_fields p = (case use_number (json_Proposal p) of GObj fs \<Rightarrow> fs | _ \<Rightarrow> [])"

lemma json_Proposal_obj: obtains fs where "json_Proposal p = GObj fs" "amap_wf fs"
  using amap_wf_jobj unfolding json_Proposal_def by blast

lemma use_number_json: "use_number (json_Proposal p) = GObj (doc_fields p)"
  by (rule json_Proposal_obj [of p]) (simp add: doc_fields_def)

lemma hashedContent_doc: "hashedContent p = canonicalizeNumbers (GObj (hashedFields (doc_fields p)))"
  by (simp add: hashedContent_def use_number_json)

lemma map_of_map_snd: "map_of (map (\<lambda>b. (fst b, f (snd b))) m) k = map_option f (map_of m k)"
  by (induction m) auto

lemma map_of_jobj:
  "jobj ms = GObj fs \<Longrightarrow> map_of fs k = (case filter (\<lambda>m. fst m = k \<and> snd m \<noteq> None) ms of [] \<Rightarrow> None | m # _ \<Rightarrow> snd m)"
proof -
  have "map_of (foldr (\<lambda>m fs. case snd m of None \<Rightarrow> fs | Some v \<Rightarrow> aput (fst m) v fs) ms []) k
      = (case filter (\<lambda>m. fst m = k \<and> snd m \<noteq> None) ms of [] \<Rightarrow> None | m # _ \<Rightarrow> snd m)"
    by (induction ms) (auto split: option.split)
  then show "jobj ms = GObj fs \<Longrightarrow> ?thesis" by (simp add: jobj_def)
qed

lemma doc_fields_wf: "amap_wf (doc_fields p)"
proof -
  obtain fs where fs: "json_Proposal p = GObj fs" "amap_wf fs"
    by (rule json_Proposal_obj)
  have "map fst (map (\<lambda>b. (fst b, use_number (snd b))) fs) = map fst fs" by simp
  then show ?thesis using fs by (simp add: doc_fields_def amap_wf_def comp_def)
qed

lemma doc_fields_map_of:
  "json_Proposal p = GObj fs \<Longrightarrow> map_of (doc_fields p) k = map_option use_number (map_of fs k)"
  by (simp add: doc_fields_def map_of_map_snd)

lemma doc_fields_strs:
  "map_of (doc_fields p) ''stack'' = Some (GStr (p_Stack p))"
  "map_of (doc_fields p) ''parent'' = Some (GStr (p_Parent p))"
  "map_of (doc_fields p) ''kind'' = Some (GStr (p_Kind p))"
proof -
  obtain fs where fs: "json_Proposal p = GObj fs"
    by (rule json_Proposal_obj)
  note m = fs [unfolded json_Proposal_def, THEN map_of_jobj]
  show "map_of (doc_fields p) ''stack'' = Some (GStr (p_Stack p))"
    "map_of (doc_fields p) ''parent'' = Some (GStr (p_Parent p))"
    "map_of (doc_fields p) ''kind'' = Some (GStr (p_Kind p))"
    unfolding doc_fields_map_of [OF fs] m
    by (simp_all add: jstr_def jstr_oe_def jlist_oe_def jopt_oe_def)
qed

lemma jobj_other_members:
  assumes "jobj ms = GObj fs" "jobj ns = GObj gs"
    and "list_all2 (\<lambda>x y. x = y \<or> fst x \<noteq> k \<and> fst y \<noteq> k) ms ns"
  shows "map_of fs k = map_of gs k"
proof -
  from assms(3) have "filter (\<lambda>m. fst m = k \<and> snd m \<noteq> None) ms = filter (\<lambda>m. fst m = k \<and> snd m \<noteq> None) ns"
    by (induction rule: list_all2_induct) auto
  then show ?thesis by (simp only: map_of_jobj [OF assms(1)] map_of_jobj [OF assms(2)])
qed

lemma doc_fields_excluded:
  assumes "k \<notin> set excludedHashFields"
  shows "map_of (doc_fields (p\<lparr>p_ID := i, p_Acceptance := a, p_Status := s\<rparr>)) k = map_of (doc_fields p) k"
proof -
  let ?q = "p\<lparr>p_ID := i, p_Acceptance := a, p_Status := s\<rparr>"
  obtain fs where fs: "json_Proposal p = GObj fs" by (rule json_Proposal_obj)
  obtain gs where gs: "json_Proposal ?q = GObj gs" by (rule json_Proposal_obj)
  have "map_of gs k = map_of fs k"
    by (rule jobj_other_members [OF gs [unfolded json_Proposal_def] fs [unfolded json_Proposal_def]])
      (use assms in \<open>auto simp: excludedHashFields_def jstr_def jstr_oe_def jopt_oe_def\<close>)
  then show ?thesis by (simp add: doc_fields_map_of [OF fs] doc_fields_map_of [OF gs])
qed

lemma map_of_fold_adel: "map_of (fold adel ks m) k = (if k \<in> set ks then None else map_of m k)"
  by (induction ks arbitrary: m) auto

lemma amap_wf_fold_adel: "amap_wf m \<Longrightarrow> amap_wf (fold adel ks m)"
  by (induction ks arbitrary: m) auto

lemma hashedContent_excludes:
  "hashedContent (p\<lparr>p_ID := i, p_Acceptance := a, p_Status := s\<rparr>) = hashedContent p"
proof -
  let ?q = "p\<lparr>p_ID := i, p_Acceptance := a, p_Status := s\<rparr>"
  have "fold adel excludedHashFields (doc_fields ?q) = fold adel excludedHashFields (doc_fields p)"
    by (rule amap_ext)
      (simp_all only: amap_wf_fold_adel doc_fields_wf map_of_fold_adel fun_eq_iff split: if_split,
       auto intro: doc_fields_excluded)
  then show ?thesis by (simp add: hashedContent_doc hashedFields_def)
qed

text \<open>
  The identifier, the acceptance and the status are not part of what is hashed: recording an
  acceptance on a proposal, or changing its status, keeps its hash.
\<close>

theorem Hash_excludes:
  "Hash sha (p\<lparr>p_ID := i, p_Acceptance := a, p_Status := s\<rparr>) = Hash sha p"
  by (simp add: Hash_eq canonicalProposalBytes_def hashedContent_excludes)

lemma canonicalizeNumbers_map_of:
  assumes "canonicalizeNumbers (GObj fs) = Inr (GObj out)" "map_of fs k = Some (GStr s)"
  shows "map_of out k = Some (GStr s)"
proof -
  have "list_all2 (\<lambda>x y. rbind (canonicalizeNumbers (snd x)) (\<lambda>cv. Inr (fst x, cv)) = Inr y) fs out"
    using assms(1) by (auto simp: rbind_Inr_iff map_res_Inr_iff)
  then have "list_all2 (\<lambda>x y. fst y = fst x \<and> canonicalizeNumbers (snd x) = Inr (snd y)) fs out"
    by (rule list_all2_mono) (auto simp: rbind_Inr_iff)
  then show ?thesis using assms(2)
    by (induction rule: list_all2_induct) (auto split: if_splits)
qed

lemma map_of_hashedFields:
  assumes "k \<notin> set excludedHashFields" "k \<noteq> ''delta''"
  shows "map_of (hashedFields fs) k = map_of fs k"
  using assms by (auto simp: hashedFields_def Let_def map_of_fold_adel split: option.split gval.split)

lemma hashedContent_obj:
  assumes "hashedContent p = Inr t"
  obtains out where "t = GObj out" "canonicalizeNumbers (GObj (hashedFields (doc_fields p))) = Inr (GObj out)"
  using assms by (auto simp: hashedContent_doc rbind_Inr_iff)

lemma hashedContent_strs:
  assumes "hashedContent p = Inr (GObj out)"
  shows "map_of out ''stack'' = Some (GStr (p_Stack p))" "map_of out ''parent'' = Some (GStr (p_Parent p))"
    "map_of out ''kind'' = Some (GStr (p_Kind p))"
proof -
  have c: "canonicalizeNumbers (GObj (hashedFields (doc_fields p))) = Inr (GObj out)"
    using assms by (rule hashedContent_obj) simp
  show "map_of out ''stack'' = Some (GStr (p_Stack p))" "map_of out ''parent'' = Some (GStr (p_Parent p))"
    "map_of out ''kind'' = Some (GStr (p_Kind p))"
    by (rule canonicalizeNumbers_map_of [OF c],
        simp add: map_of_hashedFields excludedHashFields_def doc_fields_strs)+
qed

lemma wf_sort: "list_all P arr \<Longrightarrow> list_all P (sortDeltaElements arr)"
  by (simp add: sortDeltaElements_def list_all_iff)

lemma decoded_aput: "list_all (\<lambda>b. decoded (snd b)) m \<Longrightarrow> decoded v \<Longrightarrow> list_all (\<lambda>b. decoded (snd b)) (aput k v m)"
  by (auto simp: list_all_iff dest!: set_aput_val)

lemma sortField_keeps:
  "wf_fields d \<Longrightarrow> wf_fields (sortField f d)"
  "list_all (\<lambda>b. decoded (snd b)) d \<Longrightarrow> list_all (\<lambda>b. decoded (snd b)) (sortField f d)"
proof -
  show "wf_fields (sortField f d)" if "wf_fields d"
    using that wf_map_of [OF that, of f] wf_sort [of wf_gval]
    by (auto simp: sortField_def wf_aput simp del: wf_gval.simps(2) split: option.split gval.split)
  show "list_all (\<lambda>b. decoded (snd b)) (sortField f d)" if d: "list_all (\<lambda>b. decoded (snd b)) d"
  proof (cases "\<exists>arr. map_of d f = Some (GArr arr)")
    case True
    then obtain arr where arr: "map_of d f = Some (GArr arr)" ..
    have "decoded (GArr arr)" using d map_of_SomeD [OF arr] by (auto simp: list_all_iff)
    then have "decoded (GArr (sortDeltaElements arr))" using wf_sort by simp
    from decoded_aput [OF d this] arr show ?thesis by (simp add: sortField_def)
  next
    case False
    then have "sortField f d = d" by (auto simp: sortField_def split: option.split gval.split)
    then show ?thesis using d by simp
  qed
qed

lemma hashedFields_keeps:
  assumes "wf_fields fs" "list_all (\<lambda>b. decoded (snd b)) fs"
  shows "wf_fields (hashedFields fs) \<and> list_all (\<lambda>b. decoded (snd b)) (hashedFields fs)"
proof -
  let ?g = "fold adel excludedHashFields fs"
  have sub: "set (fold adel ks m) \<subseteq> set m" for ks and m :: fields
    by (induction ks arbitrary: m) (fastforce simp: adel_def)+
  have g: "wf_fields ?g" "list_all (\<lambda>b. decoded (snd b)) ?g"
    using assms sub [of excludedHashFields fs]
    by (auto simp: list_all_iff amap_wf_fold_adel subset_iff)
  show ?thesis
  proof (cases "\<exists>delta. map_of ?g ''delta'' = Some (GObj delta)")
    case True
    then obtain delta where delta: "map_of ?g ''delta'' = Some (GObj delta)" ..
    have w: "wf_fields delta" using wf_map_of [OF g(1) delta] .
    have "decoded (GObj delta)" using g(2) map_of_SomeD [OF delta] by (fastforce simp: list_all_iff)
    then have d: "list_all (\<lambda>b. decoded (snd b)) delta" by simp
    have s: "wf_fields (fold sortField ks m) \<and> list_all (\<lambda>b. decoded (snd b)) (fold sortField ks m)"
      if "wf_fields m" "list_all (\<lambda>b. decoded (snd b)) m" for ks m
      using that
    proof (induction ks arbitrary: m)
      case (Cons k ks)
      then show ?case using sortField_keeps [of m k] by (simp del: wf_gval.simps(2))
    qed simp
    from s [OF w d] have "wf_gval (GObj (fold sortField [''creates'', ''modifies'', ''destroys''] delta))"
      "decoded (GObj (fold sortField [''creates'', ''modifies'', ''destroys''] delta))"
      unfolding decoded.simps by blast+
    then show ?thesis
      using wf_aput [OF g(1)] decoded_aput [OF g(2)] delta
      unfolding hashedFields_def Let_def by (simp del: wf_gval.simps(2) decoded.simps fold_simps)
  next
    case False
    then have "hashedFields fs = ?g"
      unfolding hashedFields_def Let_def by (auto split: option.split gval.split)
    then show ?thesis using g by simp
  qed
qed

lemma hashedContent_canonical:
  assumes "wf_gval (json_Proposal p)" "hashedContent p = Inr t"
  shows "canonical t"
proof -
  have "wf_fields (doc_fields p)" using assms(1) by (metis use_number_json wf_use_number)
  moreover have "list_all (\<lambda>b. decoded (snd b)) (doc_fields p)"
    using decoded_use_number [of "json_Proposal p"] by (simp add: use_number_json)
  ultimately show ?thesis
    using hashedFields_keeps [of "doc_fields p"] assms(2)
      canonicalizeNumbers_canonical [of "GObj (hashedFields (doc_fields p))" t]
    unfolding hashedContent_doc by auto
qed

lemma Hash_content:
  assumes "wf_gval (json_Proposal p)" "wf_gval (json_Proposal q)"
    and "Hash sha p = Inr h" "Hash sha q = Inr h"
    and "\<And>c d. canonicalProposalBytes p = Inr c \<Longrightarrow> canonicalProposalBytes q = Inr d \<Longrightarrow>
           sha (hashDomainPrefix @ c) = sha (hashDomainPrefix @ d) \<Longrightarrow> c = d"
  shows "hashedContent p = hashedContent q"
proof -
  obtain t u where t: "hashedContent p = Inr t" "h = sha (hashDomainPrefix @ encode False t)"
    and u: "hashedContent q = Inr u" "h = sha (hashDomainPrefix @ encode False u)"
    using assms(3, 4) by (auto simp: Hash_Inr)
  have "encode False t = encode False u"
    using assms(5) t u by (simp add: canonicalProposalBytes_def)
  then show ?thesis
    using t u encode_inj hashedContent_canonical [OF assms(1) t(1)] hashedContent_canonical [OF assms(2) u(1)]
    by simp
qed

text \<open>
  C15. The hash is tamper evident: two proposals with the same hash have the same hashed content,
  field by field, and so the same stack, parent and kind, unless their two canonical encodings are
  a collision of SHA-256. This rests on the canonical encoding being injective.
\<close>

theorem Hash_binds:
  assumes "wf_gval (json_Proposal p)" "wf_gval (json_Proposal q)"
    and "Hash sha p = Inr h" "Hash sha q = Inr h"
    and "\<And>c d. canonicalProposalBytes p = Inr c \<Longrightarrow> canonicalProposalBytes q = Inr d \<Longrightarrow>
           sha (hashDomainPrefix @ c) = sha (hashDomainPrefix @ d) \<Longrightarrow> c = d"
  shows "hashedContent p = hashedContent q \<and> p_Stack p = p_Stack q \<and> p_Parent p = p_Parent q \<and>
    p_Kind p = p_Kind q"
proof -
  have eq: "hashedContent p = hashedContent q" by (rule Hash_content [OF assms])
  obtain t where t: "hashedContent p = Inr t" using assms(3) by (auto simp: Hash_Inr)
  obtain out where out: "t = GObj out" using t by (rule hashedContent_obj)
  from hashedContent_strs [of p out] hashedContent_strs [of q out] t eq out
  show ?thesis by auto
qed

lemma Hash_binds_witness:
  "let d = \<lparr>d_Creates = [Some (GObj [(''name'', GStr ''n'')])], d_Modifies = [], d_Destroys = []\<rparr>;
       br = \<lparr>br_Creates = 1, br_Modifies = 0, br_Destroys = 0\<rparr>;
       p = sample_proposal ''a'' [] ''change'' d [] br;
       q = sample_proposal ''b'' [] ''change'' d [] br
   in hashedContent p = hashedContent q \<and> p_Stack p = p_Stack q \<and> p_Parent p = p_Parent q \<and>
      p_Kind p = p_Kind q"
  unfolding Let_def
  by (rule Hash_binds [where sha = "\<lambda>s. s" and h = "projr (Hash (\<lambda>s. s) (sample_proposal ''b'' [] ''change''
      \<lparr>d_Creates = [Some (GObj [(''name'', GStr ''n'')])], d_Modifies = [], d_Destroys = []\<rparr> []
      \<lparr>br_Creates = 1, br_Modifies = 0, br_Destroys = 0\<rparr>))"],
      code_simp, code_simp, code_simp, code_simp, simp)

section \<open>The order of the delta does not matter\<close>

lemma sortDeltaElements_perm:
  "mset xs = mset ys \<Longrightarrow> inj_on deltaSortKey (set xs) \<Longrightarrow> sortDeltaElements xs = sortDeltaElements ys"
  unfolding sortDeltaElements_def by (rule sort_key_inj_key_eq) auto

lemma map_of_sortFields:
  "distinct ks \<Longrightarrow> map_of (fold sortField ks m) k =
     (if k \<in> set ks then (case map_of m k of Some (GArr arr) \<Rightarrow> Some (GArr (sortDeltaElements arr)) | v \<Rightarrow> v)
      else map_of m k)"
proof (induction ks arbitrary: m)
  case (Cons f ks)
  have "map_of (sortField f m) = (case map_of m f of Some (GArr arr) \<Rightarrow> (map_of m)(f \<mapsto> GArr (sortDeltaElements arr)) | _ \<Rightarrow> map_of m)"
    by (auto simp: sortField_def split: option.split gval.split)
  then show ?case using Cons by (auto split: option.split gval.split)
qed simp

lemma json_Delta_obj: obtains fs where "json_Delta d = GObj fs" "amap_wf fs"
  using amap_wf_jobj unfolding json_Delta_def by blast

definition delta_fields :: "Delta \<Rightarrow> fields" where
  "delta_fields d = (case use_number (json_Delta d) of GObj fs \<Rightarrow> fs | _ \<Rightarrow> [])"

lemma use_number_delta: "use_number (json_Delta d) = GObj (delta_fields d)"
  by (rule json_Delta_obj [of d]) (simp add: delta_fields_def)

definition arr_field :: "('a \<Rightarrow> gval) \<Rightarrow> 'a list \<Rightarrow> gval option" where
  "arr_field f xs = (if xs = [] then None else Some (GArr (map (\<lambda>x. use_number (f x)) xs)))"

lemma delta_fields_map_of:
  "map_of (delta_fields d) k =
     (if k = ''creates'' then arr_field raw_val (d_Creates d)
      else if k = ''modifies'' then arr_field json_Modification (d_Modifies d)
      else if k = ''destroys'' then arr_field json_DestroyEntry (d_Destroys d) else None)"
proof -
  obtain fs where fs: "json_Delta d = GObj fs" by (rule json_Delta_obj)
  show ?thesis
    by (simp add: delta_fields_def fs map_of_map_snd map_of_jobj [OF fs [unfolded json_Delta_def]]
        jlist_oe_def arr_field_def comp_def)
qed

lemma delta_fields_wf: "amap_wf (delta_fields d)"
proof -
  obtain fs where fs: "json_Delta d = GObj fs" "amap_wf fs" by (rule json_Delta_obj)
  then show ?thesis by (simp add: delta_fields_def amap_wf_def comp_def)
qed

lemma amap_wf_sortFields: "amap_wf m \<Longrightarrow> amap_wf (fold sortField ks m)"
proof (induction ks arbitrary: m)
  case (Cons k ks)
  have "amap_wf (sortField k m)" using Cons.prems by (auto simp: sortField_def split: option.split gval.split)
  then show ?case using Cons.IH by simp
qed simp

lemma doc_fields_delta: "map_of (doc_fields p) ''delta'' = Some (GObj (delta_fields (p_Delta p)))"
proof -
  obtain fs where fs: "json_Proposal p = GObj fs" by (rule json_Proposal_obj)
  show ?thesis
    unfolding doc_fields_map_of [OF fs] map_of_jobj [OF fs [unfolded json_Proposal_def]]
    by (simp add: jstr_def jstr_oe_def jlist_oe_def jopt_oe_def use_number_delta)
qed

lemma doc_fields_same_but_delta:
  assumes "k \<noteq> ''delta''"
  shows "map_of (doc_fields (p\<lparr>p_Delta := d\<rparr>)) k = map_of (doc_fields p) k"
proof -
  obtain fs where fs: "json_Proposal p = GObj fs" by (rule json_Proposal_obj)
  obtain gs where gs: "json_Proposal (p\<lparr>p_Delta := d\<rparr>) = GObj gs" by (rule json_Proposal_obj)
  have "map_of gs k = map_of fs k"
    by (rule jobj_other_members [OF gs [unfolded json_Proposal_def] fs [unfolded json_Proposal_def]])
      (use assms in auto)
  then show ?thesis by (simp add: doc_fields_map_of [OF fs] doc_fields_map_of [OF gs])
qed

lemma hashedFields_doc:
  "hashedFields (doc_fields p) = aput ''delta''
     (GObj (fold sortField [''creates'', ''modifies'', ''destroys''] (delta_fields (p_Delta p))))
     (fold adel excludedHashFields (doc_fields p))"
proof -
  have "map_of (fold adel excludedHashFields (doc_fields p)) ''delta'' = Some (GObj (delta_fields (p_Delta p)))"
    by (simp only: map_of_fold_adel doc_fields_delta) (simp add: excludedHashFields_def)
  then show ?thesis unfolding hashedFields_def Let_def by (simp only: option.case gval.case)
qed

lemma sort_arr_field:
  assumes "mset xs = mset ys" "inj_on (\<lambda>x. deltaSortKey (use_number (f x))) (set xs)"
  shows "(case arr_field f xs of Some (GArr arr) \<Rightarrow> Some (GArr (sortDeltaElements arr)) | v \<Rightarrow> v)
    = (case arr_field f ys of Some (GArr arr) \<Rightarrow> Some (GArr (sortDeltaElements arr)) | v \<Rightarrow> v)"
proof -
  have "xs = [] \<longleftrightarrow> ys = []" using assms(1) by auto
  moreover have "inj_on deltaSortKey (set (map (\<lambda>x. use_number (f x)) xs))"
    using assms(2) by (auto simp: inj_on_def)
  then have "sortDeltaElements (map (\<lambda>x. use_number (f x)) xs) = sortDeltaElements (map (\<lambda>x. use_number (f x)) ys)"
    by (rule sortDeltaElements_perm [rotated]) (simp add: assms(1))
  ultimately show ?thesis by (simp add: arr_field_def)
qed

lemma deltaSortKey_nested:
  assumes "jobj ms = GObj fs"
    and "filter (\<lambda>m. fst m = k \<and> snd m \<noteq> None) ms = [(k, Some (json_Address a))]"
    and "k = ''target'' \<or> k = ''address'' \<and> filter (\<lambda>m. fst m = ''target'' \<and> snd m \<noteq> None) ms = []"
  shows "deltaSortKey (use_number (jobj ms)) = addr_key a"
proof -
  have k: "map_of fs k = Some (json_Address a)" "k \<noteq> ''target'' \<Longrightarrow> map_of fs ''target'' = None"
    using map_of_jobj [OF assms(1)] assms(2, 3) by auto
  obtain gs where gs: "json_Address a = GObj gs" using amap_wf_jobj unfolding json_Address_def by blast
  have "get_str (map (\<lambda>b. (fst b, use_number (snd b))) gs) ''stack'' = addr_Stack a"
    "get_str (map (\<lambda>b. (fst b, use_number (snd b))) gs) ''type'' = addr_Type a"
    "get_str (map (\<lambda>b. (fst b, use_number (snd b))) gs) ''name'' = addr_Name a"
    unfolding get_str_def map_of_map_snd map_of_jobj [OF gs [unfolded json_Address_def]]
    by (simp_all add: jstr_def)
  moreover have "get_obj (map (\<lambda>b. (fst b, use_number (snd b))) fs) k = Some (map (\<lambda>b. (fst b, use_number (snd b))) gs)"
    unfolding get_obj_def map_of_map_snd k(1) gs by simp
  moreover have "k \<noteq> ''target'' \<Longrightarrow> get_obj (map (\<lambda>b. (fst b, use_number (snd b))) fs) ''target'' = None"
    unfolding get_obj_def map_of_map_snd using k(2) by simp
  ultimately show ?thesis using assms(3)
    by (cases "k = ''target''") (auto simp: assms(1) deltaSortKey_def addr_key_def)
qed

lemma deltaSortKey_Modification: "deltaSortKey (use_number (json_Modification m)) = addr_key (mod_Target m)"
proof -
  obtain fs where fs: "json_Modification m = GObj fs"
    using amap_wf_jobj unfolding json_Modification_def by blast
  show ?thesis unfolding json_Modification_def
    by (rule deltaSortKey_nested [OF fs [unfolded json_Modification_def], where k = "''target''"])
      (simp_all add: jmap_oe_def jlist_oe_def jopt_oe_def)
qed

lemma deltaSortKey_DestroyEntry: "deltaSortKey (use_number (json_DestroyEntry d)) = addr_key (des_Address d)"
proof -
  obtain fs where fs: "json_DestroyEntry d = GObj fs"
    using amap_wf_jobj unfolding json_DestroyEntry_def by blast
  show ?thesis unfolding json_DestroyEntry_def
    by (rule deltaSortKey_nested [OF fs [unfolded json_DestroyEntry_def], where k = "''address''"])
      (simp_all add: jmap_oe_def jlist_oe_def jopt_oe_def)
qed

text \<open>
  The hash does not depend on the order in which a delta lists its creates, modifies and
  destroys, as long as no two entries of one list name the same resource.
\<close>

theorem Hash_delta_order:
  assumes "mset (d_Creates d) = mset (d_Creates (p_Delta p))"
    and "mset (d_Modifies d) = mset (d_Modifies (p_Delta p))"
    and "mset (d_Destroys d) = mset (d_Destroys (p_Delta p))"
    and "inj_on (\<lambda>r. deltaSortKey (use_number (raw_val r))) (set (d_Creates d))"
    and "inj_on mod_Target (set (d_Modifies d))" and "inj_on des_Address (set (d_Destroys d))"
  shows "Hash sha (p\<lparr>p_Delta := d\<rparr>) = Hash sha p"
proof -
  let ?q = "p\<lparr>p_Delta := d\<rparr>"
  let ?ks = "[''creates'', ''modifies'', ''destroys'']"
  have inj: "inj_on (\<lambda>m. deltaSortKey (use_number (json_Modification m))) (set (d_Modifies d))"
    "inj_on (\<lambda>e. deltaSortKey (use_number (json_DestroyEntry e))) (set (d_Destroys d))"
    using assms(5, 6) by (simp_all add: deltaSortKey_Modification deltaSortKey_DestroyEntry inj_on_def)
  have delta: "fold sortField ?ks (delta_fields d) = fold sortField ?ks (delta_fields (p_Delta p))"
  proof (rule amap_ext)
    show "map_of (fold sortField ?ks (delta_fields d)) = map_of (fold sortField ?ks (delta_fields (p_Delta p)))"
    proof
      fix k
      have dist: "distinct ?ks" by simp
      show "map_of (fold sortField ?ks (delta_fields d)) k = map_of (fold sortField ?ks (delta_fields (p_Delta p))) k"
        unfolding map_of_sortFields [OF dist] delta_fields_map_of
        using sort_arr_field [OF assms(1, 4)] sort_arr_field [OF assms(2) inj(1)] sort_arr_field [OF assms(3) inj(2)]
        by simp
    qed
  qed (intro amap_wf_sortFields delta_fields_wf)+
  have "hashedFields (doc_fields ?q) = hashedFields (doc_fields p)"
  proof (rule amap_ext)
    show "map_of (hashedFields (doc_fields ?q)) = map_of (hashedFields (doc_fields p))"
      unfolding hashedFields_doc map_of_aput
      using delta by (intro ext) (simp add: map_of_fold_adel doc_fields_same_but_delta)
  qed (simp_all only: hashedFields_doc amap_wf_aput amap_wf_fold_adel doc_fields_wf)
  then show ?thesis by (simp add: Hash_eq canonicalProposalBytes_def hashedContent_doc)
qed

lemma Hash_delta_order_witness:
  "let c = (\<lambda>n. Some (GObj [(''name'', GStr n), (''stack'', GStr ''s''), (''type'', GStr ''t'')]));
       br = \<lparr>br_Creates = 2, br_Modifies = 0, br_Destroys = 0\<rparr>
   in Hash (\<lambda>s. s) (sample_proposal [] [] ''change'' \<lparr>d_Creates = [c ''b'', c ''a''], d_Modifies = [], d_Destroys = []\<rparr> [] br)
    = Hash (\<lambda>s. s) (sample_proposal [] [] ''change'' \<lparr>d_Creates = [c ''a'', c ''b''], d_Modifies = [], d_Destroys = []\<rparr> [] br)"
  using Hash_delta_order
    [of "\<lparr>d_Creates = [Some (GObj [(''name'', GStr ''b''), (''stack'', GStr ''s''), (''type'', GStr ''t'')]),
           Some (GObj [(''name'', GStr ''a''), (''stack'', GStr ''s''), (''type'', GStr ''t'')])],
         d_Modifies = [], d_Destroys = []\<rparr>"
        "sample_proposal [] [] ''change''
          \<lparr>d_Creates = [Some (GObj [(''name'', GStr ''a''), (''stack'', GStr ''s''), (''type'', GStr ''t'')]),
             Some (GObj [(''name'', GStr ''b''), (''stack'', GStr ''s''), (''type'', GStr ''t'')])],
           d_Modifies = [], d_Destroys = []\<rparr> [] \<lparr>br_Creates = 2, br_Modifies = 0, br_Destroys = 0\<rparr>"
        "\<lambda>s. s"]
  by (simp add: sample_proposal_def deltaSortKey_def get_str_def get_obj_def)

end
