(* ===== verification/ApplyData.thy ===== *)
theory ApplyData
  imports Canonical
begin

text \<open>
  core/apply.go, the data half: the apply record of one ship attempt, what one resource went
  through in it, the hash that seals it, and the lookup key derived from a provider result.
\<close>

section \<open>Records\<close>

datatype ResourceState =
    ResourcePending
  | ResourceInFlight
  | ResourceApplied
  | ResourceFailed
  | ResourceUnknownPostTimeout
  | ResourceStillUnknown

definition state_text :: "ResourceState \<Rightarrow> string" where
  "state_text s = (case s of
      ResourcePending \<Rightarrow> ''pending''
    | ResourceInFlight \<Rightarrow> ''in_flight''
    | ResourceApplied \<Rightarrow> ''applied''
    | ResourceFailed \<Rightarrow> ''failed''
    | ResourceUnknownPostTimeout \<Rightarrow> ''unknown_post_timeout''
    | ResourceStillUnknown \<Rightarrow> ''still_unknown'')"

record Transition =
  tr_State :: ResourceState
  tr_At :: string
  tr_Detail :: string

record ReconciliationAttempt =
  ra_At :: string
  ra_Outcome :: string
  ra_Detail :: string

datatype ErrorClassification = ErrorRetryable | ErrorTerminal

definition class_text :: "ErrorClassification \<Rightarrow> string" where
  "class_text c = (case c of ErrorRetryable \<Rightarrow> ''retryable'' | ErrorTerminal \<Rightarrow> ''terminal'')"

record ErrorRecord =
  er_At :: string
  er_Message :: string
  er_Classification :: ErrorClassification

record ResourceApply =
  rap_Address :: Address
  rap_Transitions :: "Transition list"
  rap_ProviderResult :: raw
  rap_Lookup :: raw
  rap_Reconciliation :: "ReconciliationAttempt list"
  rap_Errors :: "ErrorRecord list"

record ApplySummary =
  as_Outcome :: string
  as_StartedAt :: string
  as_FinishedAt :: string
  as_ResourcesApplied :: int
  as_ResourcesFailed :: int
  as_ResourcesStillUnknown :: int

record ApplyRecord =
  ar_SchemaVersion :: int
  ar_ID :: string
  ar_Proposal :: string
  ar_Parent :: string
  ar_Attempt :: int
  ar_Resources :: "ResourceApply list"
  ar_Summary :: "ApplySummary option"

definition ApplyRecordSchemaVersion :: int where "ApplyRecordSchemaVersion = 1"

definition LastState :: "ResourceApply \<Rightarrow> ResourceState option" where
  "LastState ra = (if rap_Transitions ra = [] then None else Some (tr_State (last (rap_Transitions ra))))"

definition Sealed :: "ApplyRecord \<Rightarrow> bool" where
  "Sealed r \<longleftrightarrow> ar_ID r \<noteq> [] \<and> ar_Summary r \<noteq> None"

section \<open>Lookup keys\<close>

text \<open>A decoded value worth a place in a lookup: neither null nor the empty string.\<close>

definition lookup_value :: "gval \<Rightarrow> gval option" where
  "lookup_value raw = (case plain raw of
      None \<Rightarrow> None
    | Some v \<Rightarrow> if v = GNil \<or> v = GStr [] then None else Some v)"

definition put_lookup :: "fields \<Rightarrow> string \<Rightarrow> fields \<Rightarrow> fields" where
  "put_lookup m name out = (case map_of m name of
      None \<Rightarrow> out
    | Some raw \<Rightarrow> (case lookup_value raw of None \<Rightarrow> out | Some v \<Rightarrow> aput name v out))"

text \<open>
  Unmarshalling into a map of raw messages keeps the members undecoded, so a member out of float64's
  range only loses its own place.
\<close>

definition DeriveLookupFromResult :: "raw \<Rightarrow> string list \<Rightarrow> raw" where
  "DeriveLookupFromResult result requiredAttrNames = (case result of
      None \<Rightarrow> None
    | Some (GObj m) \<Rightarrow>
        let out = put_lookup m ''id'' [];
            out = fold (put_lookup m) requiredAttrNames out
        in if out = [] then None else Some (GObj out)
    | Some _ \<Rightarrow> None)"

section \<open>The seal\<close>

definition json_Transition :: "Transition \<Rightarrow> gval" where
  "json_Transition t = jobj [jstr ''state'' (state_text (tr_State t)), jstr ''at'' (tr_At t),
     jstr_oe ''detail'' (tr_Detail t)]"

definition json_ReconciliationAttempt :: "ReconciliationAttempt \<Rightarrow> gval" where
  "json_ReconciliationAttempt r = jobj [jstr ''at'' (ra_At r), jstr ''outcome'' (ra_Outcome r),
     jstr_oe ''detail'' (ra_Detail r)]"

definition json_ErrorRecord :: "ErrorRecord \<Rightarrow> gval" where
  "json_ErrorRecord e = jobj [jstr ''at'' (er_At e), jstr ''message'' (er_Message e),
     jstr ''classification'' (class_text (er_Classification e))]"

definition json_ResourceApply :: "ResourceApply \<Rightarrow> gval" where
  "json_ResourceApply r = jobj [(''address'', Some (json_Address (rap_Address r))),
     jlist_oe ''transitions'' json_Transition (rap_Transitions r),
     (''provider_result'', rap_ProviderResult r), (''lookup'', rap_Lookup r),
     jlist_oe ''reconciliation'' json_ReconciliationAttempt (rap_Reconciliation r),
     jlist_oe ''errors'' json_ErrorRecord (rap_Errors r)]"

definition json_ApplySummary :: "ApplySummary \<Rightarrow> gval" where
  "json_ApplySummary s = jobj [jstr ''outcome'' (as_Outcome s), jstr ''started_at'' (as_StartedAt s),
     jstr ''finished_at'' (as_FinishedAt s),
     (''resources_applied'', Some (GInt (as_ResourcesApplied s))),
     (''resources_failed'', Some (GInt (as_ResourcesFailed s))),
     (''resources_still_unknown'', Some (GInt (as_ResourcesStillUnknown s)))]"

definition json_ApplyRecord :: "ApplyRecord \<Rightarrow> gval" where
  "json_ApplyRecord r = jobj [(''schema_version'', Some (GInt (ar_SchemaVersion r))),
     jstr_oe ''id'' (ar_ID r), jstr ''proposal'' (ar_Proposal r), jstr ''parent'' (ar_Parent r),
     (''attempt'', Some (GInt (ar_Attempt r))),
     jlist_oe ''resources'' json_ResourceApply (ar_Resources r),
     jopt_oe ''summary'' json_ApplySummary (ar_Summary r)]"

definition resourceSortKey :: "gval \<Rightarrow> string \<times> string \<times> string" where
  "resourceSortKey el = (case el of
      GObj obj \<Rightarrow> (case get_obj obj ''address'' of
          None \<Rightarrow> ([], [], [])
        | Some addr \<Rightarrow> (get_str addr ''stack'', get_str addr ''type'', get_str addr ''name''))
    | _ \<Rightarrow> ([], [], []))"

definition sortResourceElements :: "gval list \<Rightarrow> gval list" where
  "sortResourceElements arr = sort_key resourceSortKey arr"

definition sealedFields :: "fields \<Rightarrow> fields" where
  "sealedFields generic =
     (let generic = adel ''id'' generic
      in case map_of generic ''resources'' of
           Some (GArr resources) \<Rightarrow> aput ''resources'' (GArr (sortResourceElements resources)) generic
         | _ \<Rightarrow> generic)"

definition canonicalApplyRecordBytes :: "ApplyRecord \<Rightarrow> (err, string) res" where
  "canonicalApplyRecordBytes r = (case use_number (json_ApplyRecord r) of
      GObj generic \<Rightarrow> rbind (canonicalizeNumbers (GObj (sealedFields generic))) (\<lambda>canon. Inr (encode False canon))
    | _ \<Rightarrow> Inl EJson)"

definition applyHashDomainPrefix :: string where
  "applyHashDomainPrefix = ''ubx:apply:v1'' @ [CHR 0x0A]"

definition ApplyHash :: "(string \<Rightarrow> string) \<Rightarrow> ApplyRecord \<Rightarrow> (err, string) res" where
  "ApplyHash sha r =
     rbind (DoubleRun (canonicalApplyRecordBytes r) (canonicalApplyRecordBytes r) ErrDoubleRunMismatch)
       (\<lambda>canon. Inr (sha (applyHashDomainPrefix @ canon)))"

lemma ApplyHash_eq:
  "ApplyHash sha r = rbind (canonicalApplyRecordBytes r) (\<lambda>canon. Inr (sha (applyHashDomainPrefix @ canon)))"
  by (cases "canonicalApplyRecordBytes r") (auto simp: ApplyHash_def DoubleRun_def)

text \<open>The two kinds of records are hashed in different domains.\<close>

lemma hash_domains_differ: "hashDomainPrefix @ c \<noteq> applyHashDomainPrefix @ d"
  by (simp add: hashDomainPrefix_def applyHashDomainPrefix_def)

text \<open>The record's own identifier is not part of what it hashes to.\<close>

lemma ApplyHash_id: "ApplyHash sha (r\<lparr>ar_ID := i\<rparr>) = ApplyHash sha r"
proof -
  obtain fs where fs: "json_ApplyRecord r = GObj fs" "amap_wf fs"
    using amap_wf_jobj unfolding json_ApplyRecord_def by blast
  obtain gs where gs: "json_ApplyRecord (r\<lparr>ar_ID := i\<rparr>) = GObj gs" "amap_wf gs"
    using amap_wf_jobj unfolding json_ApplyRecord_def by blast
  have same: "map_of gs k = map_of fs k" if "k \<noteq> ''id''" for k
    by (rule jobj_other_members [OF gs(1) [unfolded json_ApplyRecord_def] fs(1) [unfolded json_ApplyRecord_def]])
      (use that in \<open>auto simp: jstr_oe_def\<close>)
  let ?u = "map (\<lambda>b. (fst b, use_number (snd b)))"
  have wf: "amap_wf (?u m)" if "amap_wf m" for m using that by (simp add: amap_wf_def comp_def)
  have "adel ''id'' (?u gs) = adel ''id'' (?u fs)"
    by (rule amap_ext) (use wf fs gs same in \<open>auto simp: map_of_map_snd fun_eq_iff\<close>)
  then have "sealedFields (?u gs) = sealedFields (?u fs)" by (simp add: sealedFields_def)
  then show ?thesis by (simp add: ApplyHash_eq canonicalApplyRecordBytes_def fs(1) gs(1))
qed

end
