(* ===== verification/Store.thy ===== *)
theory Store
  imports ApplyData
begin

text \<open>
  core/ledgerstore.go: the interface between the ledger and where its records are kept, as a record
  of operations and a locale of the laws the ledger relies on; and core/gitledgerstore.go: the store
  in a directory, as the contents of its files, with the proof that it obeys the laws.
  Reads and writes of files succeed here: what an interrupted operation leaves behind is a state of
  its own in theory Ledger, and a full disk is not modelled.
\<close>

section \<open>The interface\<close>

text \<open>The bytes of a stored object: what they decode to, or bytes that do not decode.\<close>

datatype blob = PropBlob Proposal | ApplyBlob ApplyRecord | Garbage

definition parse_proposal :: "blob \<Rightarrow> Proposal option" where
  "parse_proposal b = (case b of PropBlob p \<Rightarrow> Some (reread p) | _ \<Rightarrow> None)"

definition parse_apply :: "blob \<Rightarrow> ApplyRecord option" where
  "parse_apply b = (case b of ApplyBlob r \<Rightarrow> Some r | _ \<Rightarrow> None)"

lemma parse_simps [simp]:
  "parse_proposal (PropBlob p) = Some (reread p)" "parse_proposal Garbage = None"
  "parse_apply (ApplyBlob r) = Some r" "parse_apply Garbage = None"
  by (simp_all add: parse_proposal_def parse_apply_def)

record 's store_ops =
  so_ReadProposal :: "'s \<Rightarrow> string \<Rightarrow> (err, blob) res"
  so_WriteProposalIfAbsent :: "'s \<Rightarrow> string \<Rightarrow> blob \<Rightarrow> (err, 's) res"
  so_Head :: "'s \<Rightarrow> (err, string) res"
  so_AdvanceHead :: "'s \<Rightarrow> string \<Rightarrow> string \<Rightarrow> (err, 's) res"
  so_ReadApply :: "'s \<Rightarrow> string \<Rightarrow> int \<Rightarrow> (err, blob) res"
  so_WriteApply :: "'s \<Rightarrow> string \<Rightarrow> int \<Rightarrow> blob \<Rightarrow> (err, 's) res"
  so_ListApplyAttempts :: "'s \<Rightarrow> string \<Rightarrow> (err, int list) res"

text \<open>
  The laws of the proposal half. \<open>ok\<close> is the store's own invariant, and \<open>used s n\<close> says that the
  head of \<open>s\<close> is or has been \<open>n\<close>, as far as the store keeps track of it.
\<close>

locale proposal_store =
  fixes ops :: "'s store_ops"
    and ok :: "'s \<Rightarrow> bool"
    and used :: "'s \<Rightarrow> string \<Rightarrow> bool"
  assumes read_total: "ok s \<Longrightarrow> (\<exists>b. so_ReadProposal ops s i = Inr b) \<or>
      so_ReadProposal ops s i = Inl ErrStoreObjectNotFound"
    and head_total: "ok s \<Longrightarrow> \<exists>h. so_Head ops s = Inr h"
    and write_new: "ok s \<Longrightarrow> so_ReadProposal ops s i = Inl ErrStoreObjectNotFound \<Longrightarrow>
      \<exists>s'. so_WriteProposalIfAbsent ops s i b = Inr s'"
    and write_taken: "ok s \<Longrightarrow> so_ReadProposal ops s i = Inr c \<Longrightarrow>
      so_WriteProposalIfAbsent ops s i b = Inl ErrStoreObjectExists"
    and write_ok: "ok s \<Longrightarrow> so_WriteProposalIfAbsent ops s i b = Inr s' \<Longrightarrow> ok s'"
    and write_read: "ok s \<Longrightarrow> so_WriteProposalIfAbsent ops s i b = Inr s' \<Longrightarrow>
      so_ReadProposal ops s' j = (if j = i then Inr b else so_ReadProposal ops s j)"
    and write_head: "ok s \<Longrightarrow> so_WriteProposalIfAbsent ops s i b = Inr s' \<Longrightarrow> so_Head ops s' = so_Head ops s"
    and write_used: "ok s \<Longrightarrow> so_WriteProposalIfAbsent ops s i b = Inr s' \<Longrightarrow> used s' n = used s n"
    and used_read: "ok s \<Longrightarrow> used s n \<Longrightarrow> so_ReadProposal ops s n \<noteq> Inl ErrStoreObjectNotFound"
    and advance_run: "ok s \<Longrightarrow> so_Head ops s = Inr e \<Longrightarrow> IsHash n \<Longrightarrow> \<not> used s n \<Longrightarrow>
      so_ReadProposal ops s n = Inr b \<Longrightarrow>
      \<exists>s'. so_AdvanceHead ops s e n = Inr s' \<and> ok s' \<and> so_Head ops s' = Inr n \<and>
        (\<forall>j. so_ReadProposal ops s' j = so_ReadProposal ops s j) \<and> (\<forall>m. used s' m \<longrightarrow> used s m \<or> m = n)"

text \<open>The laws of the apply half.\<close>

locale apply_store =
  fixes ops :: "'s store_ops"
    and ok :: "'s \<Rightarrow> bool"
  assumes apply_write: "ok s \<Longrightarrow> \<exists>s'. so_WriteApply ops s i n b = Inr s' \<and> ok s' \<and>
      (\<forall>j k. so_ReadApply ops s' j k = (if (j, k) = (i, n) then Inr b else so_ReadApply ops s j k)) \<and>
      so_ReadProposal ops s' = so_ReadProposal ops s \<and> so_Head ops s' = so_Head ops s"
    and apply_list: "ok s \<Longrightarrow> IsHash i \<Longrightarrow> \<exists>ns. so_ListApplyAttempts ops s i = Inr ns \<and> distinct ns \<and>
      (\<forall>n. n \<in> set ns \<longleftrightarrow> 0 \<le> n \<and> so_ReadApply ops s i n \<noteq> Inl ErrStoreObjectNotFound)"
    and apply_read: "ok s \<Longrightarrow> (\<exists>b. so_ReadApply ops s i n = Inr b) \<or>
      so_ReadApply ops s i n = Inl ErrStoreObjectNotFound"

text \<open>A ledger store is both.\<close>

locale ledger_store = proposal_store ops ok used + apply_store ops ok
  for ops :: "'s store_ops" and ok used +
  assumes apply_used: "ok s \<Longrightarrow> so_WriteApply ops s i n b = Inr s' \<Longrightarrow> used s' m \<Longrightarrow> used s m"

section \<open>The directory store\<close>

text \<open>
  ledger/proposals, .ubx/ledger.lock, ledger/applies and .ubx/salt: the files by the names the path
  functions give them. An apply file is named by its proposal and attempt.
\<close>

record git_store =
  gs_Proposals :: "(string, blob) amap"
  gs_HeadFile :: "string option"
  gs_Applies :: "((string \<times> int), blob) amap"
  gs_Salt :: "string option"

definition is_space :: "char \<Rightarrow> bool" where
  "is_space c \<longleftrightarrow> c = CHR '' '' \<or> c = CHR 0x0A \<or> c = CHR 0x0D \<or> c = CHR 0x09 \<or> c = CHR 0x0B \<or> c = CHR 0x0C"

definition TrimSpace :: "string \<Rightarrow> string" where
  "TrimSpace s = rev (dropWhile is_space (rev (dropWhile is_space s)))"

definition git_ReadProposal :: "git_store \<Rightarrow> string \<Rightarrow> (err, blob) res" where
  "git_ReadProposal g i = of_opt ErrStoreObjectNotFound (map_of (gs_Proposals g) i)"

definition git_WriteProposalIfAbsent :: "git_store \<Rightarrow> string \<Rightarrow> blob \<Rightarrow> (err, git_store) res" where
  "git_WriteProposalIfAbsent g i b =
     (if map_of (gs_Proposals g) i \<noteq> None then Inl ErrStoreObjectExists
      else Inr (g\<lparr>gs_Proposals := aput i b (gs_Proposals g)\<rparr>))"

definition git_Head :: "git_store \<Rightarrow> (err, string) res" where
  "git_Head g = (case gs_HeadFile g of
      None \<Rightarrow> Inr []
    | Some b \<Rightarrow>
        let head = TrimSpace b
        in if head = [] then Inr []
           else if \<not> IsHash head then Inl ErrCorruptLedgerHead
           else Inr head)"

definition git_AdvanceHead :: "git_store \<Rightarrow> string \<Rightarrow> string \<Rightarrow> (err, git_store) res" where
  "git_AdvanceHead g expectedPrev newHead =
     rbind (git_Head g) (\<lambda>current.
       if current \<noteq> expectedPrev then Inl ErrStoreHeadMoved
       else Inr (g\<lparr>gs_HeadFile := Some (newHead @ [CHR 0x0A])\<rparr>))"

definition git_ReadApply :: "git_store \<Rightarrow> string \<Rightarrow> int \<Rightarrow> (err, blob) res" where
  "git_ReadApply g i n = of_opt ErrStoreObjectNotFound (map_of (gs_Applies g) (i, n))"

definition git_WriteApply :: "git_store \<Rightarrow> string \<Rightarrow> int \<Rightarrow> blob \<Rightarrow> (err, git_store) res" where
  "git_WriteApply g i n b = Inr (g\<lparr>gs_Applies := aput (i, n) b (gs_Applies g)\<rparr>)"

text \<open>Only names with a hash and a plain decimal number match the file pattern.\<close>

definition git_ListApplyAttempts :: "git_store \<Rightarrow> string \<Rightarrow> (err, int list) res" where
  "git_ListApplyAttempts g i =
     Inr (map (\<lambda>e. snd (fst e)) (filter (\<lambda>e. IsHash (fst (fst e)) \<and> 0 \<le> snd (fst e) \<and> fst (fst e) = i) (gs_Applies g)))"

definition git_ReadSalt :: "git_store \<Rightarrow> (err, string option) res" where
  "git_ReadSalt g = Inr (gs_Salt g)"

definition git_WriteSaltIfAbsent :: "git_store \<Rightarrow> string \<Rightarrow> (err, git_store) res" where
  "git_WriteSaltIfAbsent g salt =
     (if gs_Salt g \<noteq> None then Inl ErrStoreObjectExists else Inr (g\<lparr>gs_Salt := Some salt\<rparr>))"

definition git_ops :: "git_store store_ops" where
  "git_ops = \<lparr>so_ReadProposal = git_ReadProposal, so_WriteProposalIfAbsent = git_WriteProposalIfAbsent,
     so_Head = git_Head, so_AdvanceHead = git_AdvanceHead, so_ReadApply = git_ReadApply,
     so_WriteApply = git_WriteApply, so_ListApplyAttempts = git_ListApplyAttempts\<rparr>"

definition git_empty :: git_store where
  "git_empty = \<lparr>gs_Proposals = [], gs_HeadFile = None, gs_Applies = [], gs_Salt = None\<rparr>"

section \<open>The directory store obeys the laws\<close>

definition git_ok :: "git_store \<Rightarrow> bool" where
  "git_ok g \<longleftrightarrow> (\<exists>h. git_Head g = Inr h) \<and> amap_wf (gs_Applies g)"

lemma hex_not_space: "is_hex c \<Longrightarrow> \<not> is_space c"
  by (auto simp: is_hex_def is_digit_def is_space_def less_eq_char_def)

lemma IsHash_trim: "IsHash h \<Longrightarrow> TrimSpace (h @ [CHR 0x0A]) = h"
proof -
  assume h: "IsHash h"
  have ns: "\<forall>c \<in> set h. \<not> is_space c" using h hex_not_space by (auto simp: IsHash_def list_all_iff)
  have "h \<noteq> []" using h by (auto simp: IsHash_def)
  then obtain c cs where c: "h = c # cs" by (cases h) auto
  then have "dropWhile is_space (h @ [CHR 0x0A]) = h @ [CHR 0x0A]" using ns by simp
  moreover have "dropWhile is_space (rev (h @ [CHR 0x0A])) = rev h"
    using ns \<open>h \<noteq> []\<close> by (cases "rev h") (auto simp: is_space_def dest: set_rev [THEN equalityD1, THEN subsetD])
  ultimately show ?thesis by (simp add: TrimSpace_def)
qed

lemma git_Head_advance: "IsHash n \<Longrightarrow> git_Head (g\<lparr>gs_HeadFile := Some (n @ [CHR 0x0A])\<rparr>) = Inr n"
  by (auto simp: git_Head_def IsHash_trim Let_def)

lemma git_Head_cong [simp]:
  "git_Head (g\<lparr>gs_Proposals := x\<rparr>) = git_Head g" "git_Head (g\<lparr>gs_Applies := y\<rparr>) = git_Head g"
  by (simp_all add: git_Head_def)

lemma git_ops_simps [simp]:
  "so_ReadProposal git_ops = git_ReadProposal" "so_WriteProposalIfAbsent git_ops = git_WriteProposalIfAbsent"
  "so_Head git_ops = git_Head" "so_AdvanceHead git_ops = git_AdvanceHead"
  "so_ReadApply git_ops = git_ReadApply" "so_WriteApply git_ops = git_WriteApply"
  "so_ListApplyAttempts git_ops = git_ListApplyAttempts"
  by (simp_all add: git_ops_def)

lemmas git_op_defs = git_ReadProposal_def git_WriteProposalIfAbsent_def git_AdvanceHead_def
  git_ReadApply_def git_WriteApply_def git_ListApplyAttempts_def

lemma git_proposal_laws: "proposal_store git_ops git_ok (\<lambda>_ _. False)"
proof
  fix s :: git_store and e n :: string and b
  assume "git_ok s" "so_Head git_ops s = Inr e" "IsHash n"
  then show "\<exists>s'. so_AdvanceHead git_ops s e n = Inr s' \<and> git_ok s' \<and> so_Head git_ops s' = Inr n \<and>
      (\<forall>j. so_ReadProposal git_ops s' j = so_ReadProposal git_ops s j) \<and> (\<forall>m. False \<longrightarrow> False \<or> m = n)"
    by (simp add: git_AdvanceHead_def git_ok_def git_Head_advance git_ReadProposal_def)
qed (auto simp: git_op_defs git_ok_def of_opt_Inr_iff of_opt_Inl_iff split: if_splits)

lemma git_list_attempts:
  assumes "amap_wf (gs_Applies g)" "IsHash i"
  shows "\<exists>ns. git_ListApplyAttempts g i = Inr ns \<and> distinct ns \<and>
    (\<forall>n. n \<in> set ns \<longleftrightarrow> 0 \<le> n \<and> git_ReadApply g i n \<noteq> Inl ErrStoreObjectNotFound)"
proof -
  let ?es = "filter (\<lambda>e. IsHash (fst (fst e)) \<and> 0 \<le> snd (fst e) \<and> fst (fst e) = i) (gs_Applies g)"
  have "distinct (map fst (gs_Applies g))"
    using assms(1) strict_sorted_iff unfolding amap_wf_def by blast
  then have "inj_on fst (set (gs_Applies g))" and "distinct (gs_Applies g)" by (auto simp: distinct_map)
  then have "distinct (map (\<lambda>e. snd (fst e)) ?es)"
    by (auto simp: distinct_map inj_on_def prod_eq_iff)
  moreover have "n \<in> snd ` fst ` set ?es \<longleftrightarrow> 0 \<le> n \<and> map_of (gs_Applies g) (i, n) \<noteq> None" for n
    using assms(2) by (force simp: map_of_eq_None_iff image_iff)
  ultimately show ?thesis
    by (auto simp: git_ListApplyAttempts_def git_ReadApply_def of_opt_Inl_iff image_image)
qed

lemma git_apply_laws: "apply_store git_ops git_ok"
proof
  fix s :: git_store and i n b
  assume "git_ok s"
  then show "\<exists>s'. so_WriteApply git_ops s i n b = Inr s' \<and> git_ok s' \<and>
      (\<forall>j k. so_ReadApply git_ops s' j k = (if (j, k) = (i, n) then Inr b else so_ReadApply git_ops s j k)) \<and>
      so_ReadProposal git_ops s' = so_ReadProposal git_ops s \<and> so_Head git_ops s' = so_Head git_ops s"
    by (auto simp: git_op_defs git_ok_def fun_eq_iff)
next
  fix s :: git_store and i :: string
  assume "git_ok s" "IsHash i"
  then show "\<exists>ns. so_ListApplyAttempts git_ops s i = Inr ns \<and> distinct ns \<and>
      (\<forall>n. (n \<in> set ns) = (0 \<le> n \<and> so_ReadApply git_ops s i n \<noteq> Inl ErrStoreObjectNotFound))"
    using git_list_attempts [of s i] by (simp add: git_ok_def)
next
  fix s :: git_store and i :: string and n :: int
  assume "git_ok s"
  show "(\<exists>b. so_ReadApply git_ops s i n = Inr b) \<or> so_ReadApply git_ops s i n = Inl ErrStoreObjectNotFound"
    by (cases "map_of (gs_Applies s) (i, n)") (auto simp: git_ReadApply_def)
qed

interpretation gitp: proposal_store git_ops git_ok "\<lambda>_ _. False"
  by (rule git_proposal_laws)

interpretation gita: apply_store git_ops git_ok
  by (rule git_apply_laws)

interpretation git: ledger_store git_ops git_ok "\<lambda>_ _. False"
  by unfold_locales

end
