(* ===== verification/Validate.thy ===== *)
theory Validate
  imports Canonical
begin

text \<open>
  core/validate.go and core/sourcefields.go: the structural rules a proposal must satisfy before it
  is hashed and accepted. The left value of a check names the rule that failed, in place of the
  message text; Validate wraps it in ErrInvalidProposal.
\<close>

section \<open>Evidence\<close>

definition observedHash :: "ResolutionInput list \<Rightarrow> string \<Rightarrow> string option" where
  "observedHash ins = foldl (\<lambda>m i. if in_Resource i \<noteq> [] then m(in_Resource i \<mapsto> in_ObservedHash i) else m)
     Map.empty ins"

fun check_all :: "('a \<Rightarrow> (string, unit) res) \<Rightarrow> 'a list \<Rightarrow> (string, unit) res" where
  "check_all f [] = Inr ()"
| "check_all f (x # xs) = rbind (f x) (\<lambda>_. check_all f xs)"

lemma check_all_Inr [simp]: "check_all f xs = Inr u \<longleftrightarrow> (\<forall>x \<in> set xs. f x = Inr ())"
  by (induction xs) (auto simp: rbind_Inr_iff)

definition validateModifiesHaveResolutionInputs :: "Proposal \<Rightarrow> (string, unit) res" where
  "validateModifiesHaveResolutionInputs p =
     (let hashes = observedHash (rs_Inputs (p_Resolution p))
      in check_all (\<lambda>m.
           case hashes (addr_String (mod_Target m)) of
             None \<Rightarrow> Inl ''modify without resolution input''
           | Some hash \<Rightarrow> if hash = [] then Inl ''modify with empty observed_hash'' else Inr ())
         (d_Modifies (p_Delta p)))"

definition destroyEvidence :: "ResolutionInput list \<Rightarrow> string \<Rightarrow> (string \<times> raw) option" where
  "destroyEvidence ins = foldl (\<lambda>m i.
     if in_Kind i \<noteq> ''destroy_target'' \<or> in_Resource i = [] then m
     else m(in_Resource i \<mapsto> (in_ObservedHash i, in_Lookup i))) Map.empty ins"

definition validateDestroysHaveResolutionInputs :: "Proposal \<Rightarrow> (string, unit) res" where
  "validateDestroysHaveResolutionInputs p =
     (let evidence = destroyEvidence (rs_Inputs (p_Resolution p))
      in check_all (\<lambda>d.
           case evidence (addr_String (des_Address d)) of
             None \<Rightarrow> Inl ''destroy without destroy_target input''
           | Some (hash, lookup) \<Rightarrow>
               if hash = [] then Inl ''destroy with empty observed_hash''
               else if lookup = None then Inl ''destroy with empty lookup''
               else Inr ())
         (d_Destroys (p_Delta p)))"

section \<open>Kinds\<close>

definition requireZeroBlastRadius :: "Proposal \<Rightarrow> (string, unit) res" where
  "requireZeroBlastRadius p =
     (if p_BlastRadius p \<noteq> \<lparr>br_Creates = 0, br_Modifies = 0, br_Destroys = 0\<rparr>
      then Inl ''blast_radius must be zero'' else Inr ())"

definition validateDriftRevert :: "Proposal \<Rightarrow> (string, unit) res" where
  "validateDriftRevert p =
     (let d = p_Delta p; br = p_BlastRadius p
      in if length (d_Creates d) \<noteq> 0 then Inl ''drift_revert with creates''
         else if length (d_Destroys d) \<noteq> 0 then Inl ''drift_revert with destroys''
         else if length (d_Modifies d) = 0 then Inl ''drift_revert without modifies''
         else if br_Creates br \<noteq> 0 \<or> br_Destroys br \<noteq> 0 then Inl ''drift_revert blast_radius''
         else if br_Modifies br \<noteq> int (length (d_Modifies d)) then Inl ''drift_revert blast_radius.modifies''
         else Inr ())"

definition validateChange :: "Proposal \<Rightarrow> (string, unit) res" where
  "validateChange p =
     (let d = p_Delta p; br = p_BlastRadius p
      in if br_Creates br \<noteq> int (length (d_Creates d)) then Inl ''change blast_radius.creates''
         else if br_Modifies br \<noteq> int (length (d_Modifies d)) then Inl ''change blast_radius.modifies''
         else if br_Destroys br \<noteq> int (length (d_Destroys d)) then Inl ''change blast_radius.destroys''
         else Inr ())"

definition validateKind :: "Proposal \<Rightarrow> (string, unit) res" where
  "validateKind p =
     (if p_Kind p = KindAdoption then
        rbind (requireZeroBlastRadius p) (\<lambda>_.
          if length (d_Modifies (p_Delta p)) \<noteq> 0 then Inl ''adoption with modifies''
          else if length (d_Destroys (p_Delta p)) \<noteq> 0 then Inl ''adoption with destroys''
          else Inr ())
      else if p_Kind p = KindDriftAdopt then
        rbind (requireZeroBlastRadius p) (\<lambda>_.
          if length (d_Destroys (p_Delta p)) \<noteq> 0 then Inl ''drift_adopt with destroys'' else Inr ())
      else if p_Kind p = KindDriftRevert then validateDriftRevert p
      else if p_Kind p = KindChange then validateChange p
      else Inr ())"

section \<open>Source fields\<close>

definition sourceFieldsByKind :: "string \<Rightarrow> string list" where
  "sourceFieldsByKind k =
     (if k = ''promotion'' then [''base'']
      else if k = ''blueprint'' then [''declaration'', ''declared_source'', ''declared_rev'', ''declared_path'',
        ''declared_args'', ''withheld_args'']
      else if k = ''cloudtrail'' \<or> k = ''gcp_audit'' then [''event_id'', ''event_name'', ''event_time'',
        ''actor_arn'', ''source_ip'', ''session_context'']
      else if k = ''cloudtrail_unattributed'' \<or> k = ''audit_unattributed'' then [''reason'', ''backend'']
      else [])"

text \<open>The calls of \<open>add\<close>, in order: the name of a field and whether the source has it.\<close>

definition sourceFieldTable :: "IntentSource \<Rightarrow> (string \<times> bool) list" where
  "sourceFieldTable s = [
     (''base'', src_Base s \<noteq> []),
     (''declaration'', src_Declaration s \<noteq> []),
     (''declared_source'', src_DeclaredSource s \<noteq> []),
     (''declared_rev'', src_DeclaredRev s \<noteq> []),
     (''declared_path'', src_DeclaredPath s \<noteq> []),
     (''declared_args'', src_DeclaredArgs s \<noteq> []),
     (''withheld_args'', src_WithheldArgs s \<noteq> []),
     (''event_id'', src_EventID s \<noteq> []),
     (''event_name'', src_EventName s \<noteq> []),
     (''event_time'', src_EventTime s \<noteq> []),
     (''actor_arn'', src_ActorARN s \<noteq> []),
     (''source_ip'', src_SourceIP s \<noteq> []),
     (''session_context'', src_SessionContext s \<noteq> None),
     (''reason'', src_Reason s \<noteq> []),
     (''backend'', src_Backend s \<noteq> [])]"

definition setSourceFields :: "IntentSource \<Rightarrow> string list" where
  "setSourceFields s = sort (map fst (filter snd (sourceFieldTable s)))"

definition strayFields :: "IntentSource \<Rightarrow> string list" where
  "strayFields s = filter (\<lambda>f. f \<notin> set (sourceFieldsByKind (src_Kind s))) (setSourceFields s)"

definition checkSources :: "IntentSource list \<Rightarrow> (string, unit) res" where
  "checkSources sources = check_all (\<lambda>s. if length (strayFields s) > 0 then Inl ''stray source field'' else Inr ()) sources"

definition validateSourceFields :: "Proposal \<Rightarrow> (string, unit) res" where
  "validateSourceFields p =
     rbind (checkSources (int_Sources (p_Intent p))) (\<lambda>_.
     rbind (check_all (\<lambda>m. checkSources (mod_Sources m)) (d_Modifies (p_Delta p))) (\<lambda>_.
     rbind (check_all (\<lambda>d. checkSources (des_Sources d)) (d_Destroys (p_Delta p))) (\<lambda>_. Inr ())))"

definition wrapInvalid :: "(string, unit) res \<Rightarrow> (err, unit) res" where
  "wrapInvalid r = (case r of Inl e \<Rightarrow> Inl (ErrInvalidProposal e) | Inr u \<Rightarrow> Inr u)"

definition Validate :: "Proposal \<Rightarrow> (err, unit) res" where
  "Validate p =
     rbind (wrapInvalid (validateModifiesHaveResolutionInputs p)) (\<lambda>_.
     rbind (wrapInvalid (validateDestroysHaveResolutionInputs p)) (\<lambda>_.
     rbind (wrapInvalid (validateKind p)) (\<lambda>_.
     rbind (wrapInvalid (validateSourceFields p)) (\<lambda>_. Inr ()))))"

section \<open>What a valid proposal is\<close>

text \<open>The last entry of a list that satisfies a condition, if there is one.\<close>

definition last_such :: "('a \<Rightarrow> bool) \<Rightarrow> 'a list \<Rightarrow> 'a option" where
  "last_such P xs = (if filter P xs = [] then None else Some (last (filter P xs)))"

lemma last_such_snoc: "last_such P (xs @ [x]) = (if P x then Some x else last_such P xs)"
  by (simp add: last_such_def)

lemma last_such_Some: "last_such P xs = Some x \<Longrightarrow> x \<in> set xs \<and> P x"
  using last_in_set [of "filter P xs"] by (auto simp: last_such_def split: if_splits)

lemma observedHash_last:
  "a \<noteq> [] \<Longrightarrow> observedHash ins a = map_option in_ObservedHash (last_such (\<lambda>i. in_Resource i = a) ins)"
  by (induction ins rule: rev_induct) (auto simp: observedHash_def last_such_snoc, simp add: last_such_def)

lemma destroyEvidence_last:
  "a \<noteq> [] \<Longrightarrow> destroyEvidence ins a = map_option (\<lambda>i. (in_ObservedHash i, in_Lookup i))
     (last_such (\<lambda>i. in_Kind i = ''destroy_target'' \<and> in_Resource i = a) ins)"
  by (induction ins rule: rev_induct) (auto simp: destroyEvidence_def last_such_snoc, simp add: last_such_def)

lemma addr_String_nonempty [simp]: "addr_String a \<noteq> []"
  by (simp add: addr_String_def)

text \<open>The kind-specific fields a source has a value for.\<close>

definition sourceField :: "IntentSource \<Rightarrow> string \<Rightarrow> bool" where
  "sourceField s f \<longleftrightarrow>
     f = ''base'' \<and> src_Base s \<noteq> [] \<or> f = ''declaration'' \<and> src_Declaration s \<noteq> [] \<or>
     f = ''declared_source'' \<and> src_DeclaredSource s \<noteq> [] \<or> f = ''declared_rev'' \<and> src_DeclaredRev s \<noteq> [] \<or>
     f = ''declared_path'' \<and> src_DeclaredPath s \<noteq> [] \<or> f = ''declared_args'' \<and> src_DeclaredArgs s \<noteq> [] \<or>
     f = ''withheld_args'' \<and> src_WithheldArgs s \<noteq> [] \<or> f = ''event_id'' \<and> src_EventID s \<noteq> [] \<or>
     f = ''event_name'' \<and> src_EventName s \<noteq> [] \<or> f = ''event_time'' \<and> src_EventTime s \<noteq> [] \<or>
     f = ''actor_arn'' \<and> src_ActorARN s \<noteq> [] \<or> f = ''source_ip'' \<and> src_SourceIP s \<noteq> [] \<or>
     f = ''session_context'' \<and> src_SessionContext s \<noteq> None \<or> f = ''reason'' \<and> src_Reason s \<noteq> [] \<or>
     f = ''backend'' \<and> src_Backend s \<noteq> []"

lemma set_setSourceFields: "f \<in> set (setSourceFields s) \<longleftrightarrow> sourceField s f"
proof -
  have "f \<in> set (setSourceFields s) \<longleftrightarrow> (f, True) \<in> set (sourceFieldTable s)"
    by (force simp: setSourceFields_def)
  also have "\<dots> \<longleftrightarrow> sourceField s f"
    by (simp only: sourceFieldTable_def sourceField_def list.set insert_iff empty_iff prod.inject simp_thms)
  finally show ?thesis .
qed

definition sources_ok :: "IntentSource list \<Rightarrow> bool" where
  "sources_ok ss \<longleftrightarrow> (\<forall>s \<in> set ss. \<forall>f. sourceField s f \<longrightarrow> f \<in> set (sourceFieldsByKind (src_Kind s)))"

lemma checkSources_ok: "checkSources ss = Inr u \<longleftrightarrow> sources_ok ss"
  by (auto simp: checkSources_def strayFields_def sources_ok_def filter_empty_conv set_setSourceFields split: if_splits)

definition kind_ok :: "Proposal \<Rightarrow> bool" where
  "kind_ok p \<longleftrightarrow>
     (let d = p_Delta p; br = p_BlastRadius p;
          zero = (br_Creates br = 0 \<and> br_Modifies br = 0 \<and> br_Destroys br = 0);
          exact = (br_Creates br = int (length (d_Creates d)) \<and> br_Modifies br = int (length (d_Modifies d)) \<and>
                   br_Destroys br = int (length (d_Destroys d)))
      in (p_Kind p = KindAdoption \<longrightarrow> zero \<and> d_Modifies d = [] \<and> d_Destroys d = []) \<and>
         (p_Kind p = KindDriftAdopt \<longrightarrow> zero \<and> d_Destroys d = []) \<and>
         (p_Kind p = KindDriftRevert \<longrightarrow> exact \<and> d_Creates d = [] \<and> d_Modifies d \<noteq> [] \<and> d_Destroys d = []) \<and>
         (p_Kind p = KindChange \<longrightarrow> exact))"

lemma validateKind_ok: "validateKind p = Inr u \<longleftrightarrow> kind_ok p"
proof -
  have ne: "KindAdoption \<noteq> KindDriftAdopt" "KindAdoption \<noteq> KindDriftRevert" "KindAdoption \<noteq> KindChange"
    "KindDriftAdopt \<noteq> KindDriftRevert" "KindDriftAdopt \<noteq> KindChange" "KindDriftRevert \<noteq> KindChange"
    by (simp_all add: kind_defs)
  have zero: "requireZeroBlastRadius p = Inr () \<longleftrightarrow> br_Creates (p_BlastRadius p) = 0 \<and>
      br_Modifies (p_BlastRadius p) = 0 \<and> br_Destroys (p_BlastRadius p) = 0"
    by (cases "p_BlastRadius p") (simp add: requireZeroBlastRadius_def)
  have revert: "validateDriftRevert p = Inr () \<longleftrightarrow> d_Creates (p_Delta p) = [] \<and> d_Destroys (p_Delta p) = [] \<and>
      d_Modifies (p_Delta p) \<noteq> [] \<and> br_Creates (p_BlastRadius p) = 0 \<and> br_Destroys (p_BlastRadius p) = 0 \<and>
      br_Modifies (p_BlastRadius p) = int (length (d_Modifies (p_Delta p)))"
    by (simp add: validateDriftRevert_def Let_def) blast
  have change: "validateChange p = Inr () \<longleftrightarrow> br_Creates (p_BlastRadius p) = int (length (d_Creates (p_Delta p))) \<and>
      br_Modifies (p_BlastRadius p) = int (length (d_Modifies (p_Delta p))) \<and>
      br_Destroys (p_BlastRadius p) = int (length (d_Destroys (p_Delta p)))"
    by (simp add: validateChange_def Let_def)
  consider "p_Kind p = KindAdoption" | "p_Kind p = KindDriftAdopt" | "p_Kind p = KindDriftRevert"
    | "p_Kind p = KindChange"
    | "p_Kind p \<notin> {KindAdoption, KindDriftAdopt, KindDriftRevert, KindChange}" by blast
  then show ?thesis
    by cases (simp_all add: validateKind_def kind_ok_def Let_def rbind_Inr_iff ne ne [symmetric] zero revert change,
      auto)
qed

definition modifies_proved :: "Proposal \<Rightarrow> bool" where
  "modifies_proved p \<longleftrightarrow> (\<forall>m \<in> set (d_Modifies (p_Delta p)).
     \<exists>i. last_such (\<lambda>i. in_Resource i = addr_String (mod_Target m)) (rs_Inputs (p_Resolution p)) = Some i \<and>
         in_ObservedHash i \<noteq> [])"

definition destroys_proved :: "Proposal \<Rightarrow> bool" where
  "destroys_proved p \<longleftrightarrow> (\<forall>d \<in> set (d_Destroys (p_Delta p)).
     \<exists>i. last_such (\<lambda>i. in_Kind i = ''destroy_target'' \<and> in_Resource i = addr_String (des_Address d))
           (rs_Inputs (p_Resolution p)) = Some i \<and>
         in_ObservedHash i \<noteq> [] \<and> in_Lookup i \<noteq> None)"

lemma modifies_ok: "validateModifiesHaveResolutionInputs p = Inr u \<longleftrightarrow> modifies_proved p"
  by (auto simp: validateModifiesHaveResolutionInputs_def modifies_proved_def Let_def observedHash_last
      split: option.splits)

lemma destroys_ok: "validateDestroysHaveResolutionInputs p = Inr u \<longleftrightarrow> destroys_proved p"
  by (fastforce simp: validateDestroysHaveResolutionInputs_def destroys_proved_def Let_def destroyEvidence_last
      split: option.splits if_splits)

lemma wrapInvalid_Inr [simp]: "wrapInvalid r = Inr u \<longleftrightarrow> r = Inr u"
  by (cases r) (auto simp: wrapInvalid_def)

lemma Validate_accepts:
  "Validate p = Inr () \<longleftrightarrow> modifies_proved p \<and> destroys_proved p \<and> kind_ok p \<and>
      sources_ok (int_Sources (p_Intent p)) \<and> (\<forall>m \<in> set (d_Modifies (p_Delta p)). sources_ok (mod_Sources m)) \<and>
      (\<forall>d \<in> set (d_Destroys (p_Delta p)). sources_ok (des_Sources d))"
  by (simp add: Validate_def rbind_Inr_iff modifies_ok destroys_ok validateKind_ok validateSourceFields_def checkSources_ok)

text \<open>
  C37. Validate accepts a proposal exactly when the last resolution input about each modified resource
  has an observed hash, the last destroy_target input about each destroyed resource has an observed
  hash and a lookup, the blast radius and the delta arrays obey the rule of the proposal's kind, and
  no intent source outside a create carries a field its kind does not use. Every other outcome is
  ErrInvalidProposal.
\<close>

theorem Validate_iff:
  "(Validate p = Inr () \<longleftrightarrow> modifies_proved p \<and> destroys_proved p \<and> kind_ok p \<and>
      sources_ok (int_Sources (p_Intent p)) \<and> (\<forall>m \<in> set (d_Modifies (p_Delta p)). sources_ok (mod_Sources m)) \<and>
      (\<forall>d \<in> set (d_Destroys (p_Delta p)). sources_ok (des_Sources d))) \<and>
   (Validate p = Inr () \<or> (\<exists>why. Validate p = Inl (ErrInvalidProposal why)))"
proof
  show "Validate p = Inr () \<longleftrightarrow> modifies_proved p \<and> destroys_proved p \<and> kind_ok p \<and>
      sources_ok (int_Sources (p_Intent p)) \<and> (\<forall>m \<in> set (d_Modifies (p_Delta p)). sources_ok (mod_Sources m)) \<and>
      (\<forall>d \<in> set (d_Destroys (p_Delta p)). sources_ok (des_Sources d))"
    by (rule Validate_accepts)
  have w: "wrapInvalid r = Inr () \<or> (\<exists>why. wrapInvalid r = Inl (ErrInvalidProposal why))" for r
    by (cases r) (auto simp: wrapInvalid_def)
  have seq: "rbind (wrapInvalid r) k = Inr () \<or> (\<exists>why. rbind (wrapInvalid r) k = Inl (ErrInvalidProposal why))"
    if "k () = Inr () \<or> (\<exists>why. k () = Inl (ErrInvalidProposal why))" for r k
    using w [of r] that by (auto simp del: wrapInvalid_Inr)
  show "Validate p = Inr () \<or> (\<exists>why. Validate p = Inl (ErrInvalidProposal why))"
    unfolding Validate_def by (intro seq) simp
qed

definition sample_teardown :: "raw \<Rightarrow> Proposal" where
  "sample_teardown lookup = sample_proposal [] [] ''change''
     \<lparr>d_Creates = [], d_Modifies = [],
      d_Destroys = [\<lparr>des_Address = Address ''s'' ''t'' ''n'', des_State = None, des_DependsOn = [], des_Provider = None,
        des_Sources = []\<rparr>]\<rparr>
     [sample_input ''destroy_target'' ''s.t.n'' ''h'' lookup] \<lparr>br_Creates = 0, br_Modifies = 0, br_Destroys = 1\<rparr>"

lemma Validate_iff_witness:
  "Validate (sample_teardown (Some (GObj []))) = Inr () \<and>
   (\<exists>why. Validate (sample_teardown None) = Inl (ErrInvalidProposal why))"
proof
  note defs = sample_teardown_def sample_proposal_def sample_input_def
  show "Validate (sample_teardown (Some (GObj []))) = Inr ()"
    by (rule Validate_iff [THEN conjunct1, THEN iffD2])
      (simp add: defs modifies_proved_def destroys_proved_def kind_ok_def sources_ok_def last_such_def
        addr_String_def kind_defs)
  have "\<not> destroys_proved (sample_teardown None)"
    by (simp add: defs destroys_proved_def last_such_def addr_String_def)
  then show "\<exists>why. Validate (sample_teardown None) = Inl (ErrInvalidProposal why)"
    using Validate_iff [of "sample_teardown None"] by blast
qed

end
