(* ===== verification/Ledger.thy ===== *)
theory Ledger
  imports Store Validate
begin

text \<open>
  core/ledger.go and core/accept.go over any store, and the walk of the chain in core/state.go.
  The holder of the store's lock is the only writer during Append, so Append is one transition from
  store to store; what a crash inside it leaves is given by the steps at the end. The walk from a
  head is a partial function: \<open>None\<close> when it never ends.
\<close>

section \<open>Operations\<close>

definition Read :: "'s store_ops \<Rightarrow> 's \<Rightarrow> string \<Rightarrow> (err, Proposal) res" where
  "Read ops s i = (case so_ReadProposal ops s i of
      Inl e \<Rightarrow> if e = ErrStoreObjectNotFound then Inl ErrProposalNotFound else Inl e
    | Inr b \<Rightarrow> of_opt ErrCorruptLedgerEntry (parse_proposal b))"

definition advance_from :: "'s store_ops \<Rightarrow> 's \<Rightarrow> string \<Rightarrow> string \<Rightarrow> (err, unit) res \<times> 's" where
  "advance_from ops s head i = (case so_AdvanceHead ops s head i of
      Inl e \<Rightarrow> (Inl e, s)
    | Inr s' \<Rightarrow> (Inr (), s'))"

definition Append :: "'s store_ops \<Rightarrow> 's \<Rightarrow> Proposal \<Rightarrow> (err, unit) res \<times> 's" where
  "Append ops s p =
     (if p_ID p = [] then (Inl (EMsg ''append: proposal has no ID''), s)
      else case so_ReadProposal ops s (p_ID p) of
        Inl e \<Rightarrow>
          if e \<noteq> ErrStoreObjectNotFound then (Inl e, s)
          else (case so_Head ops s of
            Inl e \<Rightarrow> (Inl e, s)
          | Inr head \<Rightarrow>
              if p_Parent p \<noteq> head then (Inl ErrParentMismatch, s)
              else case so_WriteProposalIfAbsent ops s (p_ID p) (PropBlob p) of
                  Inl e \<Rightarrow> (Inl e, s)
                | Inr s' \<Rightarrow> advance_from ops s' head (p_ID p))
      | Inr existing \<Rightarrow>
          (case so_Head ops s of
            Inl e \<Rightarrow> (Inl e, s)
          | Inr head \<Rightarrow>
              if head \<noteq> p_Parent p then (Inl ErrDuplicateProposal, s)
              else case parse_proposal existing of
                  None \<Rightarrow> (Inl ErrCorruptLedgerEntry, s)
                | Some existingProp \<Rightarrow> advance_from ops s head (p_ID p)))"

partial_function (option) chain_loop :: "'s store_ops \<Rightarrow> 's \<Rightarrow> string \<Rightarrow> Proposal list \<Rightarrow> (err, Proposal list) res option" where
  "chain_loop ops s i acc =
     (if i = [] then Some (Inr acc)
      else case Read ops s i of
        Inl e \<Rightarrow>
          if acc = [] \<and> e = ErrProposalNotFound then Some (Inl ErrBrokenLedgerHead) else Some (Inl e)
      | Inr p \<Rightarrow> chain_loop ops s (p_Parent p) (p # acc))"

text \<open>The accumulator holds what was read, newest proposal last, so it is the chain at the end.\<close>

definition ChainFrom :: "'s store_ops \<Rightarrow> 's \<Rightarrow> string \<Rightarrow> (err, Proposal list) res option" where
  "ChainFrom ops s headID = chain_loop ops s headID []"

definition Chain :: "'s store_ops \<Rightarrow> 's \<Rightarrow> (err, Proposal list) res option" where
  "Chain ops s = (case so_Head ops s of Inl e \<Rightarrow> Some (Inl e) | Inr head \<Rightarrow> ChainFrom ops s head)"

section \<open>Acceptance\<close>

record ReviewAcceptance =
  rv_Platform :: string
  rv_PRNumber :: int
  rv_ProposalFile :: string
  rv_Approver :: string
  rv_Comment :: string

record MergeAcceptance =
  mg_Platform :: string
  mg_MergeSHA :: string
  mg_PRNumber :: int
  mg_ProposalFile :: string
  mg_Approvers :: "string list"

definition validateAndHash :: "(string \<Rightarrow> string) \<Rightarrow> Proposal \<Rightarrow> (err, string) res" where
  "validateAndHash sha p =
     (if p_ID p \<noteq> [] \<or> p_Acceptance p \<noteq> None then Inl ErrAlreadyAccepted
      else rbind (Validate p) (\<lambda>_. Hash sha p))"

definition finalized :: "Proposal \<Rightarrow> string \<Rightarrow> Acceptance \<Rightarrow> Proposal" where
  "finalized p hash acceptance = p\<lparr>p_ID := hash, p_Status := StatusAccepted, p_Acceptance := Some acceptance\<rparr>"

definition finalizeAndAppend ::
    "'s store_ops \<Rightarrow> 's \<Rightarrow> Proposal \<Rightarrow> string \<Rightarrow> Acceptance \<Rightarrow> (err, Proposal) res \<times> 's" where
  "finalizeAndAppend ops s p hash acceptance =
     (let p' = finalized p hash acceptance
      in case Append ops s p' of (Inl e, s') \<Rightarrow> (Inl e, s') | (Inr _, s') \<Rightarrow> (Inr p', s'))"

text \<open>The user running the command and the clock are arguments.\<close>

definition Accept ::
    "(string \<Rightarrow> string) \<Rightarrow> string \<Rightarrow> string \<Rightarrow> 's store_ops \<Rightarrow> 's \<Rightarrow> Proposal \<Rightarrow> (err, Proposal) res \<times> 's" where
  "Accept sha user now ops s p = (case validateAndHash sha p of
      Inl e \<Rightarrow> (Inl e, s)
    | Inr hash \<Rightarrow> finalizeAndAppend ops s p hash
        \<lparr>ac_Method = ''local'', ac_Platform = [], ac_MergeSHA = [], ac_PRNumber = 0, ac_ProposalFile = [],
         ac_Approvers = [user], ac_ReviewComment = [], ac_AcceptedAt = now\<rparr>)"

definition AcceptFromReview ::
    "(string \<Rightarrow> string) \<Rightarrow> string \<Rightarrow> 's store_ops \<Rightarrow> 's \<Rightarrow> Proposal \<Rightarrow> string \<Rightarrow> ReviewAcceptance \<Rightarrow>
     (err, Proposal) res \<times> 's" where
  "AcceptFromReview sha now ops s p claimedHash review = (case validateAndHash sha p of
      Inl e \<Rightarrow> (Inl e, s)
    | Inr hash \<Rightarrow>
        if hash \<noteq> claimedHash then (Inl ErrTrailerHashMismatch, s)
        else finalizeAndAppend ops s p hash
          \<lparr>ac_Method = ''pr_review'', ac_Platform = rv_Platform review, ac_MergeSHA = [],
           ac_PRNumber = rv_PRNumber review, ac_ProposalFile = rv_ProposalFile review,
           ac_Approvers = [rv_Approver review], ac_ReviewComment = rv_Comment review, ac_AcceptedAt = now\<rparr>)"

definition AcceptFromMerge ::
    "(string \<Rightarrow> string) \<Rightarrow> string \<Rightarrow> 's store_ops \<Rightarrow> 's \<Rightarrow> Proposal \<Rightarrow> string \<Rightarrow> MergeAcceptance \<Rightarrow>
     (err, Proposal) res \<times> 's" where
  "AcceptFromMerge sha now ops s p claimedHash merge = (case validateAndHash sha p of
      Inl e \<Rightarrow> (Inl e, s)
    | Inr hash \<Rightarrow>
        if hash \<noteq> claimedHash then (Inl ErrTrailerHashMismatch, s)
        else finalizeAndAppend ops s p hash
          \<lparr>ac_Method = ''pr_merge'', ac_Platform = mg_Platform merge, ac_MergeSHA = mg_MergeSHA merge,
           ac_PRNumber = mg_PRNumber merge, ac_ProposalFile = mg_ProposalFile merge,
           ac_Approvers = mg_Approvers merge, ac_ReviewComment = [], ac_AcceptedAt = now\<rparr>)"

section \<open>The chain below a head\<close>

text \<open>The proposals from an identifier down to genesis, newest first.\<close>

fun linked :: "'s store_ops \<Rightarrow> 's \<Rightarrow> string \<Rightarrow> Proposal list \<Rightarrow> bool" where
  "linked ops s i [] \<longleftrightarrow> i = []"
| "linked ops s i (p # ps) \<longleftrightarrow> i \<noteq> [] \<and> Read ops s i = Inr p \<and> linked ops s (p_Parent p) ps"

lemma linked_chain_loop: "linked ops s i ps \<Longrightarrow> chain_loop ops s i acc = Some (Inr (rev ps @ acc))"
proof (induction ps arbitrary: i acc)
  case Nil
  then show ?case by (simp add: chain_loop.simps)
next
  case (Cons p ps)
  then show ?case by (simp add: chain_loop.simps [of ops s i])
qed

lemma linked_ChainFrom: "linked ops s i ps \<Longrightarrow> ChainFrom ops s i = Some (Inr (rev ps))"
  by (simp add: ChainFrom_def linked_chain_loop)

lemma linked_cong:
  "linked ops s i ps \<Longrightarrow> (\<And>j q. Read ops s j = Inr q \<Longrightarrow> Read ops s' j = Inr q) \<Longrightarrow> linked ops s' i ps"
  by (induction ps arbitrary: i) auto

lemma linked_unique: "linked ops s i ps \<Longrightarrow> linked ops s i qs \<Longrightarrow> ps = qs"
proof (induction ps arbitrary: i qs)
  case Nil
  then show ?case by (cases qs) auto
next
  case (Cons p ps)
  then show ?case by (cases qs) auto
qed

text \<open>A walk that returns a chain has followed the parent links to genesis.\<close>

lemma chain_loop_linked:
  "chain_loop ops s i acc = Some r \<Longrightarrow> \<forall>ps. r = Inr ps \<longrightarrow> (\<exists>qs. linked ops s i qs \<and> ps = rev qs @ acc)"
proof (induction rule: chain_loop.raw_induct [rotated, consumes 1, case_names 1])
  case (1 loop ops s i acc r)
  show ?case
  proof (intro allI impI)
    fix ps
    assume r: "r = Inr ps"
    show "\<exists>qs. linked ops s i qs \<and> ps = rev qs @ acc"
    proof (cases "i = []")
      case True
      then show ?thesis using 1 r by (intro exI [of _ "[]"]) simp
    next
      case False
      then obtain p where p: "Read ops s i = Inr p" "loop ops s (p_Parent p) (p # acc) = Some (Inr ps)"
        using 1(2) r by (auto split: sum.splits if_splits)
      from 1(1) [OF p(2)] obtain qs where "linked ops s (p_Parent p) qs" "ps = rev qs @ p # acc" by auto
      then show ?thesis using False p(1) by (intro exI [of _ "p # qs"]) simp
    qed
  qed
qed

lemma ChainFrom_linked: "ChainFrom ops s i = Some (Inr ps) \<longleftrightarrow> linked ops s i (rev ps)"
  using chain_loop_linked [of ops s i "[]" "Inr ps"] linked_ChainFrom [of ops s i "rev ps"]
  by (auto simp: ChainFrom_def)

section \<open>Append under the laws of a store\<close>

lemma Read_Inr: "Read ops s i = Inr p \<longleftrightarrow> (\<exists>b. so_ReadProposal ops s i = Inr b \<and> parse_proposal b = Some p)"
  by (auto simp: Read_def of_opt_Inr_iff split: sum.splits if_splits)

context proposal_store
begin

text \<open>Every branch of Append: which one is taken, and the store it leaves.\<close>

lemma Append_branches:
  assumes ok: "ok s" and i: "p_ID p \<noteq> []" "IsHash (p_ID p)"
    and fresh: "\<And>b. so_ReadProposal ops s (p_ID p) = Inr b \<Longrightarrow> parse_proposal b \<noteq> None \<Longrightarrow>
      so_Head ops s = Inr (p_Parent p) \<Longrightarrow> \<not> used s (p_ID p)"
  obtains
    (new) s1 s2 where "so_ReadProposal ops s (p_ID p) = Inl ErrStoreObjectNotFound" "so_Head ops s = Inr (p_Parent p)"
      "so_WriteProposalIfAbsent ops s (p_ID p) (PropBlob p) = Inr s1" "ok s1"
      "so_AdvanceHead ops s1 (p_Parent p) (p_ID p) = Inr s2"
      "ok s2" "so_Head ops s2 = Inr (p_ID p)" "Append ops s p = (Inr (), s2)"
      "\<And>j. so_ReadProposal ops s2 j = (if j = p_ID p then Inr (PropBlob p) else so_ReadProposal ops s j)"
      "\<And>m. used s2 m \<Longrightarrow> used s m \<or> m = p_ID p"
  | (resumed) q s2 where "Read ops s (p_ID p) = Inr q" "so_Head ops s = Inr (p_Parent p)"
      "ok s2" "so_Head ops s2 = Inr (p_ID p)" "Append ops s p = (Inr (), s2)"
      "\<And>j. so_ReadProposal ops s2 j = so_ReadProposal ops s j"
      "\<And>m. used s2 m \<Longrightarrow> used s m \<or> m = p_ID p"
  | (corrupt) b where "so_ReadProposal ops s (p_ID p) = Inr b" "parse_proposal b = None"
      "so_Head ops s = Inr (p_Parent p)" "Append ops s p = (Inl ErrCorruptLedgerEntry, s)"
  | (duplicate) b h where "so_ReadProposal ops s (p_ID p) = Inr b" "so_Head ops s = Inr h" "h \<noteq> p_Parent p"
      "Append ops s p = (Inl ErrDuplicateProposal, s)"
  | (mismatch) h where "so_ReadProposal ops s (p_ID p) = Inl ErrStoreObjectNotFound" "so_Head ops s = Inr h"
      "h \<noteq> p_Parent p" "Append ops s p = (Inl ErrParentMismatch, s)"
proof -
  obtain h where h: "so_Head ops s = Inr h" using head_total [OF ok] by blast
  consider (absent) "so_ReadProposal ops s (p_ID p) = Inl ErrStoreObjectNotFound"
    | (present) b where "so_ReadProposal ops s (p_ID p) = Inr b"
    using read_total [OF ok, of "p_ID p"] by blast
  then show ?thesis
  proof cases
    case absent
    show ?thesis
    proof (cases "h = p_Parent p")
      case True
      obtain s1 where s1: "so_WriteProposalIfAbsent ops s (p_ID p) (PropBlob p) = Inr s1"
        using write_new [OF ok absent] by blast
      have ok1: "ok s1" by (rule write_ok [OF ok s1])
      have h1: "so_Head ops s1 = Inr (p_Parent p)" using write_head [OF ok s1] h True by simp
      have u1: "\<not> used s1 (p_ID p)" using write_used [OF ok s1] used_read [OF ok] absent by blast
      have r1: "so_ReadProposal ops s1 (p_ID p) = Inr (PropBlob p)" using write_read [OF ok s1] by simp
      obtain s2 where s2: "so_AdvanceHead ops s1 (p_Parent p) (p_ID p) = Inr s2" "ok s2"
        "so_Head ops s2 = Inr (p_ID p)" "\<forall>j. so_ReadProposal ops s2 j = so_ReadProposal ops s1 j"
        "\<forall>m. used s2 m \<longrightarrow> used s1 m \<or> m = p_ID p"
        using advance_run [OF ok1 h1 i(2) u1 r1] by blast
      show ?thesis
        by (rule new [OF absent _ s1 ok1 s2(1-3)])
          (use absent h True i s1 s2 write_read [OF ok s1] write_used [OF ok s1] in \<open>auto simp: Append_def advance_from_def\<close>)
    next
      case False
      then show ?thesis using absent h i by (intro mismatch) (auto simp: Append_def)
    qed
  next
    case present
    show ?thesis
    proof (cases "h = p_Parent p")
      case True
      show ?thesis
      proof (cases "parse_proposal b")
        case None
        then show ?thesis using present h True i by (intro corrupt) (auto simp: Append_def)
      next
        case (Some q)
        have "\<not> used s (p_ID p)" using fresh present Some h True by simp
        then obtain s2 where s2: "so_AdvanceHead ops s (p_Parent p) (p_ID p) = Inr s2" "ok s2"
          "so_Head ops s2 = Inr (p_ID p)" "\<forall>j. so_ReadProposal ops s2 j = so_ReadProposal ops s j"
          "\<forall>m. used s2 m \<longrightarrow> used s m \<or> m = p_ID p"
          using advance_run [OF ok h [unfolded True] i(2) _ present] by blast
        show ?thesis
          by (rule resumed [of q s2])
            (use present h True i Some s2 in \<open>auto simp: Append_def advance_from_def Read_Inr\<close>)
      qed
    next
      case False
      then show ?thesis using present h i by (intro duplicate) (auto simp: Append_def)
    qed
  qed
qed

text \<open>A successful Append puts its proposal on top of the chain it was built on.\<close>

lemma Append_chain:
  assumes "ok s" "p_ID p \<noteq> []" "IsHash (p_ID p)" "so_Head ops s = Inr h" "linked ops s h ps"
    and "Append ops s p = (Inr (), s')"
    and stored: "\<And>q. Read ops s (p_ID p) = Inr q \<Longrightarrow> p_Parent q = p_Parent p \<and> \<not> used s (p_ID p)"
  shows "\<exists>q. so_Head ops s' = Inr (p_ID p) \<and> h = p_Parent p \<and> linked ops s' (p_ID p) (q # ps) \<and>
     (q = reread p \<or> Read ops s (p_ID p) = Inr q) \<and> ok s' \<and>
     (\<forall>j. j \<noteq> p_ID p \<longrightarrow> Read ops s' j = Read ops s j) \<and> Read ops s' (p_ID p) = Inr q \<and>
     (\<forall>m. used s' m \<longrightarrow> used s m \<or> m = p_ID p)"
proof (rule Append_branches [OF assms(1-3)])
  show "\<not> used s (p_ID p)" if "so_ReadProposal ops s (p_ID p) = Inr b" "parse_proposal b \<noteq> None" for b
    using that stored by (auto simp: Read_Inr)
next
  fix s1 s2
  assume new: "so_ReadProposal ops s (p_ID p) = Inl ErrStoreObjectNotFound" "so_Head ops s = Inr (p_Parent p)"
    "ok s2" "so_Head ops s2 = Inr (p_ID p)" "Append ops s p = (Inr (), s2)"
    "\<And>j. so_ReadProposal ops s2 j = (if j = p_ID p then Inr (PropBlob p) else so_ReadProposal ops s j)"
    "\<And>m. used s2 m \<Longrightarrow> used s m \<or> m = p_ID p"
  have s2: "s2 = s'" using new(5) assms(6) by simp
  have other: "Read ops s2 j = Read ops s j" if "j \<noteq> p_ID p" for j
    using new(6) that by (simp add: Read_def)
  have at: "Read ops s2 (p_ID p) = Inr (reread p)" using new(6) by (simp add: Read_def)
  have "linked ops s2 h ps"
  proof (rule linked_cong [OF assms(5)])
    fix j q
    assume "Read ops s j = Inr q"
    moreover then have "j \<noteq> p_ID p" using new(1) by (auto simp: Read_def)
    ultimately show "Read ops s2 j = Inr q" by (simp add: other)
  qed
  then show ?thesis using new assms(2, 4) other at s2 by (intro exI [of _ "reread p"]) simp
next
  fix q s2
  assume r: "Read ops s (p_ID p) = Inr q" "so_Head ops s = Inr (p_Parent p)" "ok s2"
    "so_Head ops s2 = Inr (p_ID p)" "Append ops s p = (Inr (), s2)"
    "\<And>j. so_ReadProposal ops s2 j = so_ReadProposal ops s j"
    "\<And>m. used s2 m \<Longrightarrow> used s m \<or> m = p_ID p"
  have s2: "s2 = s'" using r(5) assms(6) by simp
  have same: "Read ops s2 j = Read ops s j" for j using r(6) by (simp add: Read_def)
  have "linked ops s2 h ps" by (rule linked_cong [OF assms(5)]) (simp add: same)
  then show ?thesis using r stored [OF r(1)] assms(2, 4) same s2 by (intro exI [of _ q]) simp
qed (use assms(6) in auto)

lemma Append_error_keeps:
  assumes "ok s" "IsHash (p_ID p)" "Append ops s p = (Inl e, s')"
    and "\<And>b. so_ReadProposal ops s (p_ID p) = Inr b \<Longrightarrow> parse_proposal b \<noteq> None \<Longrightarrow>
      so_Head ops s = Inr (p_Parent p) \<Longrightarrow> \<not> used s (p_ID p)"
  shows "s' = s"
proof (cases "p_ID p = []")
  case True
  then show ?thesis using assms(3) by (simp add: Append_def)
next
  case False
  show ?thesis
    by (rule Append_branches [OF assms(1) False assms(2)]) (use assms(3, 4) in auto)
qed

end

section \<open>What can happen to a ledger\<close>

text \<open>
  One step: an acceptance runs to its end, whatever its outcome; an acceptance is interrupted after
  it wrote the proposal, or while it wrote it; an apply record is written. An object that is already
  there under the hash of the accepted proposal has the same hashed content: the two are not a
  collision of SHA-256.
\<close>

inductive ledger_step :: "(string \<Rightarrow> string) \<Rightarrow> 's store_ops \<Rightarrow> 's \<Rightarrow> 's \<Rightarrow> bool"
  for sha :: "string \<Rightarrow> string" and ops :: "'s store_ops" where
  accepts: "validateAndHash sha p = Inr h \<Longrightarrow>
    (\<And>q. Read ops s h = Inr q \<Longrightarrow> hashedContent q = hashedContent p) \<Longrightarrow>
    finalizeAndAppend ops s p h a = (r, s') \<Longrightarrow> ledger_step sha ops s s'"
| crashes_before_advance: "validateAndHash sha p = Inr h \<Longrightarrow> so_Head ops s = Inr (p_Parent p) \<Longrightarrow>
    so_WriteProposalIfAbsent ops s h (PropBlob (finalized p h a)) = Inr s' \<Longrightarrow> ledger_step sha ops s s'"
| crashes_in_write: "validateAndHash sha p = Inr h \<Longrightarrow> so_Head ops s = Inr (p_Parent p) \<Longrightarrow>
    so_WriteProposalIfAbsent ops s h Garbage = Inr s' \<Longrightarrow> ledger_step sha ops s s'"
| applies: "so_WriteApply ops s i n (ApplyBlob rec) = Inr s' \<Longrightarrow> ledger_step sha ops s s'"

definition ledger_inv ::
    "(string \<Rightarrow> string) \<Rightarrow> 's store_ops \<Rightarrow> ('s \<Rightarrow> bool) \<Rightarrow> ('s \<Rightarrow> string \<Rightarrow> bool) \<Rightarrow> 's \<Rightarrow> bool" where
  "ledger_inv sha ops ok used s \<longleftrightarrow> ok s \<and>
     (\<forall>i q. Read ops s i = Inr q \<longrightarrow> p_ID q = i \<and> Hash sha q = Inr i) \<and>
     (\<exists>h ps. so_Head ops s = Inr h \<and> linked ops s h ps \<and> (\<forall>n. used s n \<longrightarrow> n \<in> p_ID ` set ps))"

lemma hashedContent_finalized: "hashedContent (finalized p h a) = hashedContent p"
proof -
  have "finalized p h a = p\<lparr>p_ID := h, p_Acceptance := Some a, p_Status := StatusAccepted\<rparr>"
    by (simp add: finalized_def)
  then show ?thesis by (simp only: hashedContent_excludes)
qed

lemma hashedContent_reread: "hashedContent (reread p) = hashedContent p"
  by (simp add: hashedContent_def)

lemma Hash_finalized: "Hash sha (reread (finalized p h a)) = Hash sha p"
  by (simp add: Hash_eq canonicalProposalBytes_def hashedContent_finalized hashedContent_reread)

lemma finalized_sel [simp]: "p_ID (finalized p h a) = h" "p_Parent (finalized p h a) = p_Parent p"
  by (simp_all add: finalized_def)

lemma hashedContent_parent:
  assumes "hashedContent q = hashedContent p" "hashedContent p = Inr t"
  shows "p_Parent q = p_Parent p"
proof -
  obtain out where "t = GObj out" using assms(2) by (rule hashedContent_obj)
  then show ?thesis using hashedContent_strs(2) [of p out] hashedContent_strs(2) [of q out] assms by simp
qed

lemma validateAndHash_Hash:
  assumes "validateAndHash sha p = Inr h"
  shows "Hash sha p = Inr h" "\<exists>t. hashedContent p = Inr t"
  using assms by (auto simp: validateAndHash_def rbind_Inr_iff Hash_Inr split: if_splits)

lemma linked_suffix: "linked ops s i ps \<Longrightarrow> q \<in> set ps \<Longrightarrow> \<exists>qs. length qs < length ps \<and> linked ops s (p_Parent q) qs"
proof (induction ps arbitrary: i)
  case (Cons p ps)
  show ?case
  proof (cases "q = p")
    case True
    then show ?thesis using Cons.prems(1) by (intro exI [of _ ps]) simp
  next
    case False
    then obtain qs where "length qs < length ps" "linked ops s (p_Parent q) qs"
      using Cons.IH [of "p_Parent p"] Cons.prems by auto
    then show ?thesis by (intro exI [of _ qs]) simp
  qed
qed simp

text \<open>A proposal on the chain is not built on the head of that chain.\<close>

lemma linked_no_cycle: "linked ops s h ps \<Longrightarrow> q \<in> set ps \<Longrightarrow> p_Parent q \<noteq> h"
proof
  assume l: "linked ops s h ps" and q: "q \<in> set ps" and h: "p_Parent q = h"
  obtain qs where "length qs < length ps" "linked ops s h qs" using linked_suffix [OF l q] h by blast
  then show False using linked_unique [OF l] by blast
qed

lemma finalizeAndAppend_cases:
  assumes "finalizeAndAppend ops s p h a = (r, s')"
  obtains e where "r = Inl e" "Append ops s (finalized p h a) = (Inl e, s')"
  | "r = Inr (finalized p h a)" "Append ops s (finalized p h a) = (Inr (), s')"
  using assms by (auto simp: finalizeAndAppend_def Let_def split: prod.splits sum.splits)

context ledger_store
begin

lemma write_keeps_inv:
  assumes inv: "ledger_inv sha ops ok used s" and w: "so_WriteProposalIfAbsent ops s i b = Inr s'"
    and b: "\<And>q. parse_proposal b = Some q \<Longrightarrow> p_ID q = i \<and> Hash sha q = Inr i"
    and l: "so_Head ops s = Inr h" "linked ops s h ps"
  shows "ledger_inv sha ops ok used s' \<and> so_Head ops s' = Inr h \<and> linked ops s' h ps"
proof -
  have ok: "ok s" using inv by (simp add: ledger_inv_def)
  have absent: "so_ReadProposal ops s i = Inl ErrStoreObjectNotFound"
    using w write_taken [OF ok, of i _ b] read_total [OF ok, of i] by force
  have read: "Read ops s' j = (if j = i then of_opt ErrCorruptLedgerEntry (parse_proposal b) else Read ops s j)" for j
    using write_read [OF ok w, of j] by (simp add: Read_def)
  have l': "linked ops s' h ps"
  proof (rule linked_cong [OF l(2)])
    fix j q
    assume r: "Read ops s j = Inr q"
    then have "j \<noteq> i" using absent by (auto simp: Read_def)
    then show "Read ops s' j = Inr q" using r by (simp add: read)
  qed
  have h': "so_Head ops s' = Inr h" using write_head [OF ok w] l(1) by simp
  have "\<forall>n. used s' n \<longrightarrow> n \<in> p_ID ` set ps"
  proof -
    obtain h2 ps2 where "so_Head ops s = Inr h2" "linked ops s h2 ps2" "\<forall>n. used s n \<longrightarrow> n \<in> p_ID ` set ps2"
      using inv by (auto simp: ledger_inv_def)
    then show ?thesis using l linked_unique write_used [OF ok w] by (metis sum.inject(2))
  qed
  moreover have "p_ID q = j \<and> Hash sha q = Inr j" if "Read ops s' j = Inr q" for j q
    using that inv b by (auto simp: read ledger_inv_def of_opt_Inr_iff split: if_splits)
  ultimately show ?thesis using write_ok [OF ok w] l' h' by (auto simp: ledger_inv_def)
qed

lemma apply_keeps_inv:
  assumes inv: "ledger_inv sha ops ok used s" and w: "so_WriteApply ops s i n b = Inr s'"
    and l: "so_Head ops s = Inr h" "linked ops s h ps"
  shows "ledger_inv sha ops ok used s' \<and> so_Head ops s' = Inr h \<and> linked ops s' h ps"
proof -
  have ok: "ok s" using inv by (simp add: ledger_inv_def)
  obtain s2 where s2: "so_WriteApply ops s i n b = Inr s2" "ok s2"
    "so_ReadProposal ops s2 = so_ReadProposal ops s" "so_Head ops s2 = so_Head ops s"
    using apply_write [OF ok, of i n b] by blast
  have eq: "s2 = s'" using s2(1) w by simp
  have read: "Read ops s' j = Read ops s j" for j using s2(3) eq by (simp add: Read_def)
  have l': "linked ops s' h ps" by (rule linked_cong [OF l(2)]) (simp add: read)
  obtain h2 ps2 where h2: "so_Head ops s = Inr h2" "linked ops s h2 ps2" "\<forall>n. used s n \<longrightarrow> n \<in> p_ID ` set ps2"
    using inv by (auto simp: ledger_inv_def)
  then have "\<forall>n. used s' n \<longrightarrow> n \<in> p_ID ` set ps"
    using apply_used [OF ok w] l linked_unique by (metis sum.inject(2))
  then show ?thesis using s2 eq l l' inv by (auto simp: ledger_inv_def read)
qed

lemma accept_keeps_inv:
  assumes inv: "ledger_inv sha ops ok used s" and sha: "\<And>x. IsHash (sha x)"
    and v: "validateAndHash sha p = Inr h" and r: "finalizeAndAppend ops s p h a = (r, s')"
    and clash: "\<And>q. Read ops s h = Inr q \<Longrightarrow> hashedContent q = hashedContent p"
    and l: "so_Head ops s = Inr e" "linked ops s e ps"
  shows "ledger_inv sha ops ok used s' \<and>
    (s' = s \<or> (\<exists>q. so_Head ops s' = Inr h \<and> linked ops s' h (q # ps)))"
proof -
  let ?p = "finalized p h a"
  have ok: "ok s" using inv by (simp add: ledger_inv_def)
  have hp: "Hash sha p = Inr h" and "\<exists>t. hashedContent p = Inr t" using validateAndHash_Hash [OF v] by auto
  then obtain t where t: "hashedContent p = Inr t" by blast
  have ih: "IsHash h" using hp sha by (auto simp: Hash_Inr)
  then have ne: "h \<noteq> []" by (auto simp: IsHash_def)
  have used: "\<forall>n. used s n \<longrightarrow> n \<in> p_ID ` set ps"
  proof -
    obtain h2 ps2 where "so_Head ops s = Inr h2" "linked ops s h2 ps2" "\<forall>n. used s n \<longrightarrow> n \<in> p_ID ` set ps2"
      using inv by (auto simp: ledger_inv_def)
    then show ?thesis using l linked_unique by (metis sum.inject(2))
  qed
  have stored: "p_Parent q = p_Parent p" if "Read ops s h = Inr q" for q
    using hashedContent_parent [OF clash [OF that] t] .
  have unused: "\<not> used s h" if q: "Read ops s h = Inr q" and e: "e = p_Parent p" for q
  proof
    assume "used s h"
    then obtain q' where q': "q' \<in> set ps" "p_ID q' = h" using used by auto
    have "Read ops s (p_ID q') = Inr q'"
    proof -
      have "\<exists>i. Read ops s i = Inr q'" using l(2) q'(1) by (induction ps arbitrary: e) auto
      then show ?thesis using inv by (auto simp: ledger_inv_def)
    qed
    then have "p_Parent q' = e" using q q' e stored by simp
    then show False using linked_no_cycle [OF l(2) q'(1)] by simp
  qed
  show ?thesis
  proof (rule finalizeAndAppend_cases [OF r])
    fix err
    assume "Append ops s ?p = (Inl err, s')"
    then have "s' = s"
      by (rule Append_error_keeps [OF ok, rotated])
        (use ih unused l(1) in \<open>auto simp: Read_Inr\<close>)
    then show ?thesis using inv by simp
  next
    assume app: "Append ops s ?p = (Inr (), s')"
    have head: "e = p_Parent p"
      using app ne l(1) by (auto simp: Append_def split: sum.splits if_splits)
    have "\<exists>q. so_Head ops s' = Inr (p_ID ?p) \<and> e = p_Parent ?p \<and> linked ops s' (p_ID ?p) (q # ps) \<and>
       (q = reread ?p \<or> Read ops s (p_ID ?p) = Inr q) \<and> ok s' \<and>
       (\<forall>j. j \<noteq> p_ID ?p \<longrightarrow> Read ops s' j = Read ops s j) \<and> Read ops s' (p_ID ?p) = Inr q \<and>
       (\<forall>m. used s' m \<longrightarrow> used s m \<or> m = p_ID ?p)"
      by (rule Append_chain [OF ok _ _ l app]) (use ne ih stored unused head in auto)
    then obtain q where q: "so_Head ops s' = Inr h" "linked ops s' h (q # ps)" "q = reread ?p \<or> Read ops s h = Inr q"
      "ok s'" "\<forall>j. j \<noteq> h \<longrightarrow> Read ops s' j = Read ops s j" "Read ops s' h = Inr q"
      "\<forall>m. used s' m \<longrightarrow> used s m \<or> m = h" by auto
    have qid: "p_ID q = h \<and> Hash sha q = Inr h"
      using q(3) inv hp by (auto simp: Hash_finalized ledger_inv_def)
    have "p_ID q' = j \<and> Hash sha q' = Inr j" if "Read ops s' j = Inr q'" for j q'
      using that qid q(5, 6) inv by (cases "j = h") (auto simp: ledger_inv_def)
    moreover have "\<forall>n. used s' n \<longrightarrow> n \<in> p_ID ` set (q # ps)"
      using q(7) used qid by auto
    ultimately have "ledger_inv sha ops ok used s'"
      unfolding ledger_inv_def using q(1, 2, 4) by blast
    then show ?thesis using q(1, 2) by blast
  qed
qed

end

context ledger_store
begin

lemma step_keeps_inv:
  assumes "ledger_step sha ops s s'" and inv: "ledger_inv sha ops ok used s" and sha: "\<And>x. IsHash (sha x)"
    and l: "so_Head ops s = Inr e" "linked ops s e ps"
  shows "ledger_inv sha ops ok used s' \<and>
    (\<exists>e' qs. so_Head ops s' = Inr e' \<and> linked ops s' e' (qs @ ps))"
  using assms(1)
proof cases
  case (accepts p h a r)
  have "ledger_inv sha ops ok used s' \<and>
    (s' = s \<or> (\<exists>q. so_Head ops s' = Inr h \<and> linked ops s' h (q # ps)))"
    by (rule accept_keeps_inv [OF inv sha accepts(1, 3) _ l]) (rule accepts(2))
  then show ?thesis using l by (metis append_Cons append_Nil)
next
  case (crashes_before_advance p h a)
  have "ledger_inv sha ops ok used s' \<and> so_Head ops s' = Inr e \<and> linked ops s' e ps"
    by (rule write_keeps_inv [OF inv crashes_before_advance(3) _ l])
      (use validateAndHash_Hash [OF crashes_before_advance(1)] in \<open>auto simp: Hash_finalized\<close>)
  then show ?thesis by (metis append_Nil)
next
  case (crashes_in_write p h)
  have "ledger_inv sha ops ok used s' \<and> so_Head ops s' = Inr e \<and> linked ops s' e ps"
    by (rule write_keeps_inv [OF inv crashes_in_write(3) _ l]) simp
  then show ?thesis by (metis append_Nil)
next
  case (applies i n rec)
  have "ledger_inv sha ops ok used s' \<and> so_Head ops s' = Inr e \<and> linked ops s' e ps"
    by (rule apply_keeps_inv [OF inv applies l])
  then show ?thesis by (metis append_Nil)
qed

lemma steps_extend:
  assumes "(ledger_step sha ops)\<^sup>*\<^sup>* s s'" "ledger_inv sha ops ok used s" "\<And>x. IsHash (sha x)"
    and "so_Head ops s = Inr e" "linked ops s e ps"
  shows "ledger_inv sha ops ok used s' \<and> (\<exists>e' qs. so_Head ops s' = Inr e' \<and> linked ops s' e' (qs @ ps))"
  using assms(1)
proof (induction rule: rtranclp_induct)
  case base
  then show ?case using assms(2, 4, 5) by (metis append_Nil)
next
  case (step u v)
  then obtain e' qs where "so_Head ops u = Inr e'" "linked ops u e' (qs @ ps)" by blast
  with step_keeps_inv [OF step(2) _ assms(3), of e' "qs @ ps"] step.IH show ?case
    by (metis append.assoc)
qed

end

text \<open>Successive proposals of a chain, oldest first: each names its predecessor, and none repeats.\<close>

fun links :: "string \<Rightarrow> Proposal list \<Rightarrow> bool" where
  "links prev [] \<longleftrightarrow> True"
| "links prev (p # ps) \<longleftrightarrow> p_Parent p = prev \<and> links (p_ID p) ps"

lemma links_snoc: "links prev (ps @ [p]) \<longleftrightarrow> links prev ps \<and> p_Parent p = (if ps = [] then prev else p_ID (last ps))"
  by (induction prev ps rule: links.induct) auto

lemma linked_links:
  "linked ops s h ps \<Longrightarrow> (\<forall>i q. Read ops s i = Inr q \<longrightarrow> p_ID q = i) \<Longrightarrow>
   links [] (rev ps) \<and> h = (if ps = [] then [] else p_ID (hd ps)) \<and> (\<forall>q \<in> set ps. Read ops s (p_ID q) = Inr q)"
proof (induction ps arbitrary: h)
  case (Cons p ps)
  then have "links [] (rev ps)" "p_Parent p = (if ps = [] then [] else p_ID (hd ps))"
    "\<forall>q \<in> set ps. Read ops s (p_ID q) = Inr q" "p_ID p = h" by auto
  then show ?case using Cons.prems by (auto simp: links_snoc last_rev)
qed simp

lemma linked_distinct:
  "linked ops s h ps \<Longrightarrow> (\<forall>i q. Read ops s i = Inr q \<longrightarrow> p_ID q = i) \<Longrightarrow> distinct (map p_ID ps)"
proof (induction ps arbitrary: h)
  case (Cons p ps)
  have "p_ID p \<notin> p_ID ` set ps"
  proof
    assume "p_ID p \<in> p_ID ` set ps"
    then obtain q where q: "q \<in> set ps" "p_ID q = p_ID p" by auto
    have r: "\<forall>q \<in> set (p # ps). Read ops s (p_ID q) = Inr q"
      using linked_links [OF Cons.prems] by blast
    have "Inr q = Read ops s (p_ID q)" using q(1) r by simp
    also have "\<dots> = Inr p" using q(2) r by simp
    finally have "q = p" by simp
    then show False using linked_no_cycle [of ops s "p_Parent p" ps q] Cons.prems(1) q(1) by simp
  qed
  then show ?case using Cons by auto
qed simp

section \<open>The ledger in a directory\<close>

lemma git_empty_inv: "ledger_inv sha git_ops git_ok (\<lambda>_ _. False) git_empty"
  "so_Head git_ops git_empty = Inr []" "linked git_ops git_empty [] []"
proof -
  show h: "so_Head git_ops git_empty = Inr []" by (simp add: git_empty_def git_Head_def)
  show l: "linked git_ops git_empty [] []" by simp
  have "git_ok git_empty" "Read git_ops git_empty i \<noteq> Inr q" for i q
    by (simp_all add: git_ok_def git_empty_def git_Head_def Read_def git_ReadProposal_def)
  with h l show "ledger_inv sha git_ops git_ok (\<lambda>_ _. False) git_empty"
    unfolding ledger_inv_def by blast
qed

text \<open>
  A crash inside the write of the head file: \<open>os.WriteFile\<close> truncates the file and then writes it, so any
  part of the new head from its beginning may be what is left. The proposal was written just before, or by an
  acceptance that an earlier crash interrupted.
\<close>

inductive git_step :: "(string \<Rightarrow> string) \<Rightarrow> git_store \<Rightarrow> git_store \<Rightarrow> bool" for sha :: "string \<Rightarrow> string" where
  runs: "ledger_step sha git_ops g g' \<Longrightarrow> git_step sha g g'"
| tears_head: "validateAndHash sha p = Inr h \<Longrightarrow> git_Head g = Inr (p_Parent p) \<Longrightarrow>
    git_WriteProposalIfAbsent g h (PropBlob (finalized p h a)) = Inr g1 \<or>
      g1 = g \<and> (\<exists>q. Read git_ops g h = Inr q \<and> hashedContent q = hashedContent p) \<Longrightarrow>
    git_step sha g (g1\<lparr>gs_HeadFile := Some (take k (h @ [CHR 0x0A]))\<rparr>)"

lemma TrimSpace_hex: "\<forall>c \<in> set s. is_hex c \<Longrightarrow> TrimSpace s = s"
proof -
  assume "\<forall>c \<in> set s. is_hex c"
  then have "\<forall>c \<in> set s. \<not> is_space c" "\<forall>c \<in> set (rev s). \<not> is_space c" using hex_not_space by auto
  then have "dropWhile is_space s = s" "dropWhile is_space (rev s) = rev s"
    by (metis (no_types, lifting) dropWhile_eq_self_iff list.set_sel(1))+
  then show ?thesis by (simp add: TrimSpace_def)
qed

lemma torn_head:
  assumes "IsHash h"
  shows "git_Head (g\<lparr>gs_HeadFile := Some (take k (h @ [CHR 0x0A]))\<rparr>) =
    (if k = 0 then Inr [] else if k < 64 then Inl ErrCorruptLedgerHead else Inr h)"
proof -
  have h: "length h = 64" "\<forall>c \<in> set h. is_hex c" using assms by (auto simp: IsHash_def list_all_iff)
  consider "k \<le> 64" | "64 < k" by linarith
  then show ?thesis
  proof cases
    case 1
    then have t: "take k (h @ [CHR 0x0A]) = take k h" using h(1) by simp
    have "TrimSpace (take k h) = take k h" using h(2) by (intro TrimSpace_hex) (meson in_set_takeD)
    moreover have "IsHash (take k h) \<longleftrightarrow> k = 64" using 1 assms h(1) by (auto simp: IsHash_def)
    ultimately show ?thesis using 1 h(1) assms unfolding t by (auto simp: git_Head_def Let_def)
  next
    case 2
    then show ?thesis using h(1) git_Head_advance [OF assms] by simp
  qed
qed

text \<open>Every stored proposal is filed under its hash, and none is ever replaced.\<close>

definition filed :: "(string \<Rightarrow> string) \<Rightarrow> git_store \<Rightarrow> bool" where
  "filed sha g \<longleftrightarrow> amap_wf (gs_Applies g) \<and> (\<forall>i q. Read git_ops g i = Inr q \<longrightarrow> p_ID q = i \<and> Hash sha q = Inr i)"

definition sound :: "(string \<Rightarrow> string) \<Rightarrow> git_store \<Rightarrow> bool" where
  "sound sha g \<longleftrightarrow> filed sha g \<and>
     (git_Head g = Inl ErrCorruptLedgerHead \<or> ledger_inv sha git_ops git_ok (\<lambda>_ _. False) g)"

lemma ledger_inv_git:
  "ledger_inv sha git_ops git_ok (\<lambda>_ _. False) g \<longleftrightarrow> filed sha g \<and> (\<exists>e ps. git_Head g = Inr e \<and> linked git_ops g e ps)"
  by (auto simp: ledger_inv_def filed_def git_ok_def)

lemma git_Append_files:
  "Append git_ops g p = (r, g') \<Longrightarrow> gs_Applies g' = gs_Applies g \<and>
     (gs_Proposals g' = gs_Proposals g \<or>
      map_of (gs_Proposals g) (p_ID p) = None \<and> gs_Proposals g' = aput (p_ID p) (PropBlob p) (gs_Proposals g))"
  by (auto simp: Append_def git_op_defs advance_from_def of_opt_Inr_iff of_opt_Inl_iff
      split: sum.splits option.splits if_splits)

lemma git_Append_no_head: "git_Head g = Inl e \<Longrightarrow> snd (Append git_ops g p) = g"
  by (auto simp: Append_def split: sum.splits err.splits if_splits)

lemma Read_mono:
  "gs_Proposals g' = gs_Proposals g \<or>
     map_of (gs_Proposals g) i = None \<and> gs_Proposals g' = aput i b (gs_Proposals g) \<Longrightarrow>
   Read git_ops g j = Inr q \<Longrightarrow> Read git_ops g' j = Inr q"
  by (auto simp: Read_def git_ReadProposal_def split: if_splits)

lemma git_write_reads:
  "git_WriteProposalIfAbsent g i b = Inr g' \<Longrightarrow> Read git_ops g j = Inr q \<Longrightarrow> Read git_ops g' j = Inr q"
  by (auto simp: git_WriteProposalIfAbsent_def Read_def git_ReadProposal_def split: if_splits)

lemma ledger_step_reads:
  assumes "ledger_step sha git_ops g g'" "Read git_ops g j = Inr q"
  shows "Read git_ops g' j = Inr q"
  using assms(1)
proof cases
  case (accepts p h a r)
  then obtain r' where "Append git_ops g (finalized p h a) = (r', g')" by (auto elim: finalizeAndAppend_cases)
  from git_Append_files [OF this] show ?thesis using Read_mono [OF _ assms(2)] by blast
next
  case (crashes_before_advance p h a)
  then show ?thesis using git_write_reads assms(2) by simp
next
  case (crashes_in_write p h)
  then show ?thesis using git_write_reads assms(2) by simp
next
  case (applies i n rec)
  then show ?thesis using Read_mono [OF _ assms(2), of g'] by (auto simp: git_WriteApply_def)
qed

lemma git_step_reads: "git_step sha g g' \<Longrightarrow> Read git_ops g j = Inr q \<Longrightarrow> Read git_ops g' j = Inr q"
proof (induction rule: git_step.induct)
  case (runs g g')
  then show ?case by (rule ledger_step_reads)
next
  case (tears_head p h g a g1 k)
  then have "Read git_ops g1 j = Inr q" using git_write_reads by blast
  then show ?case by (simp add: Read_def git_ReadProposal_def)
qed

lemma git_steps_reads: "(git_step sha)\<^sup>*\<^sup>* g g' \<Longrightarrow> Read git_ops g j = Inr q \<Longrightarrow> Read git_ops g' j = Inr q"
  by (induction rule: rtranclp_induct) (auto intro: git_step_reads)

text \<open>With an unreadable head nothing is accepted any more.\<close>

lemma git_stuck:
  assumes "ledger_step sha git_ops g g'" "git_Head g = Inl e" "filed sha g"
  shows "git_Head g' = Inl e \<and> filed sha g'"
  using assms(1)
proof cases
  case (accepts p h a r)
  then obtain r' where "Append git_ops g (finalized p h a) = (r', g')" by (auto elim: finalizeAndAppend_cases)
  then have "g' = g" using git_Append_no_head [OF assms(2)] by (metis snd_conv)
  then show ?thesis using assms by simp
next
  case (applies i n rec)
  then have g': "g' = g\<lparr>gs_Applies := aput (i, n) (ApplyBlob rec) (gs_Applies g)\<rparr>" by (simp add: git_WriteApply_def)
  have "Read git_ops g' j = Read git_ops g j" for j by (simp add: g' Read_def git_ReadProposal_def)
  then show ?thesis using assms(2,3) by (simp add: g' filed_def)
qed (use assms(2) in simp_all)

lemma git_step_sound:
  assumes "git_step sha g g'" "sound sha g" "\<And>x. IsHash (sha x)"
  shows "sound sha g'"
  using assms(1)
proof cases
  case runs
  show ?thesis
  proof (cases "git_Head g = Inl ErrCorruptLedgerHead")
    case True
    then show ?thesis using git_stuck [OF runs True] assms(2) by (simp add: sound_def)
  next
    case False
    then obtain e ps where l: "ledger_inv sha git_ops git_ok (\<lambda>_ _. False) g" "git_Head g = Inr e" "linked git_ops g e ps"
      using assms(2) by (auto simp: sound_def ledger_inv_git)
    have "ledger_inv sha git_ops git_ok (\<lambda>_ _. False) g'"
      using git.step_keeps_inv [OF runs l(1) assms(3)] l(2,3) by auto
    then show ?thesis by (auto simp: sound_def ledger_inv_git)
  qed
next
  case (tears_head p h a g1 k)
  have hp: "Hash sha p = Inr h" and t: "\<exists>t. hashedContent p = Inr t" using validateAndHash_Hash [OF tears_head(2)] by auto
  have h: "IsHash h" using hp assms(3) by (auto simp: Hash_Inr)
  obtain ps where l: "linked git_ops g (p_Parent p) ps" and f: "filed sha g"
    using assms(2) tears_head(3) by (auto simp: sound_def ledger_inv_git)
  have reads: "Read git_ops g' j = Read git_ops g1 j" for j by (simp add: tears_head(1) Read_def git_ReadProposal_def)
  have at_h: "\<exists>q. Read git_ops g1 h = Inr q \<and> p_ID q = h \<and> Hash sha q = Inr h \<and> p_Parent q = p_Parent p"
    using tears_head(4)
  proof (elim disjE conjE exE)
    assume w: "git_WriteProposalIfAbsent g h (PropBlob (finalized p h a)) = Inr g1"
    then have "Read git_ops g1 h = Inr (reread (finalized p h a))"
      by (auto simp: git_WriteProposalIfAbsent_def Read_def git_ReadProposal_def split: if_splits)
    then show ?thesis using hp by (simp add: Hash_finalized)
  next
    fix q assume q: "g1 = g" "Read git_ops g h = Inr q" "hashedContent q = hashedContent p"
    then show ?thesis using f t hashedContent_parent [of q p] by (auto simp: filed_def)
  qed
  have old: "j = h \<or> Read git_ops g1 j = Read git_ops g j" for j
    using tears_head(4) by (auto simp: git_WriteProposalIfAbsent_def Read_def git_ReadProposal_def split: if_splits)
  have wf: "gs_Applies g1 = gs_Applies g"
    using tears_head(4) by (auto simp: git_WriteProposalIfAbsent_def split: if_splits)
  have "filed sha g'" unfolding filed_def
  proof (intro conjI allI impI)
    show "amap_wf (gs_Applies g')" using f wf by (simp add: filed_def tears_head(1))
    fix i q assume "Read git_ops g' i = Inr q"
    then have q: "Read git_ops g1 i = Inr q" by (simp add: reads)
    show "p_ID q = i" using q at_h old [of i] f by (auto simp: filed_def)
    show "Hash sha q = Inr i" using q at_h old [of i] f by (auto simp: filed_def)
  qed
  have mono: "Read git_ops g' j = Inr q" if "Read git_ops g j = Inr q" for j q
    using git_step_reads [OF assms(1) that] .
  have l': "linked git_ops g' (p_Parent p) ps" by (rule linked_cong [OF l mono])
  have "\<exists>qs. linked git_ops g' h qs"
    using at_h l' h by (intro exI [of _ "projr (Read git_ops g1 h) # ps"]) (auto simp: reads IsHash_def)
  moreover have "git_Head g' = (if k = 0 then Inr [] else if k < 64 then Inl ErrCorruptLedgerHead else Inr h)"
    unfolding tears_head(1) by (rule torn_head [OF h])
  moreover have "linked git_ops g' [] []" by simp
  ultimately have "git_Head g' = Inl ErrCorruptLedgerHead \<or> (\<exists>e ps. git_Head g' = Inr e \<and> linked git_ops g' e ps)"
    by (metis (full_types))
  then show ?thesis using \<open>filed sha g'\<close> by (auto simp: sound_def ledger_inv_git)
qed

lemma git_steps_sound:
  "(git_step sha)\<^sup>*\<^sup>* g g' \<Longrightarrow> sound sha g \<Longrightarrow> (\<And>x. IsHash (sha x)) \<Longrightarrow> sound sha g'"
  by (induction rule: rtranclp_induct) (auto intro: git_step_sound)

lemma git_empty_sound: "sound sha git_empty"
  using git_empty_inv(1) by (auto simp: sound_def ledger_inv_git)


lemma git_Chain_sound:
  assumes "sound sha g" "git_Head g = Inr e"
  shows "\<exists>ps. Chain git_ops g = Some (Inr (rev ps)) \<and> linked git_ops g e ps \<and>
    links [] (rev ps) \<and> distinct (map p_ID (rev ps)) \<and> (\<forall>p \<in> set ps. Read git_ops g (p_ID p) = Inr p \<and> Hash sha p = Inr (p_ID p))"
proof -
  obtain ps where l: "linked git_ops g e ps" and f: "filed sha g"
    using assms by (auto simp: sound_def ledger_inv_git)
  have ids: "\<forall>i q. Read git_ops g i = Inr q \<longrightarrow> p_ID q = i" "\<forall>i q. Read git_ops g i = Inr q \<longrightarrow> Hash sha q = Inr i"
    using f by (auto simp: filed_def)
  have "distinct (map p_ID (rev ps))" using linked_distinct [OF l ids(1)] by (metis distinct_rev rev_map)
  moreover have "Chain git_ops g = Some (Inr (rev ps))"
    using assms(2) linked_ChainFrom [OF l] by (simp add: Chain_def)
  ultimately show ?thesis using linked_links [OF l ids(1)] ids(2) l by blast
qed

text \<open>
  C1. The ledger is append-only. Between two moments of a directory that began empty, acceptances, acceptances
  that a crash interrupted at any point, a half-written head file included, and writes of apply records may come in
  any order. At the earlier moment the head cannot be read, which refuses every acceptance, or the chain from it is
  a list of distinct proposals, each filed under its content hash and naming the one before it. Whatever happened
  since, all of them can still be read back unchanged, and walking from that head gives the same list. And if no
  crash since cut the write of the head file itself short, the later chain is this list followed by what was accepted.
\<close>

theorem git_ledger_append_only:
  assumes "\<And>x. IsHash (sha x)" "(git_step sha)\<^sup>*\<^sup>* git_empty s" "(git_step sha)\<^sup>*\<^sup>* s s'"
  shows "git_Head s = Inl ErrCorruptLedgerHead \<or>
    (\<exists>e ps. git_Head s = Inr e \<and> Chain git_ops s = Some (Inr ps) \<and> links [] ps \<and> distinct (map p_ID ps) \<and>
      (\<forall>p \<in> set ps. Hash sha p = Inr (p_ID p) \<and> Read git_ops s' (p_ID p) = Inr p) \<and>
      ChainFrom git_ops s' e = Some (Inr ps) \<and>
      ((ledger_step sha git_ops)\<^sup>*\<^sup>* s s' \<longrightarrow>
        (\<exists>more. Chain git_ops s' = Some (Inr (ps @ more)) \<and> links [] (ps @ more) \<and> distinct (map p_ID (ps @ more)) \<and>
          (\<forall>p \<in> set more. Hash sha p = Inr (p_ID p) \<and> Read git_ops s' (p_ID p) = Inr p))))"
proof (cases "git_Head s = Inl ErrCorruptLedgerHead")
  case False
  have sound: "sound sha s" by (rule git_steps_sound [OF assms(2) git_empty_sound assms(1)])
  with False obtain e where e: "git_Head s = Inr e" by (auto simp: sound_def ledger_inv_git)
  obtain ps where ps: "Chain git_ops s = Some (Inr (rev ps))" "linked git_ops s e ps" "links [] (rev ps)"
    "distinct (map p_ID (rev ps))" "\<forall>p \<in> set ps. Read git_ops s (p_ID p) = Inr p \<and> Hash sha p = Inr (p_ID p)"
    using git_Chain_sound [OF sound e] by blast
  have kept: "\<forall>p \<in> set ps. Read git_ops s' (p_ID p) = Inr p" using ps(5) git_steps_reads [OF assms(3)] by blast
  have "linked git_ops s' e ps" by (rule linked_cong [OF ps(2) git_steps_reads [OF assms(3)]])
  then have from_e: "ChainFrom git_ops s' e = Some (Inr (rev ps))" by (rule linked_ChainFrom)
  have "\<exists>more. Chain git_ops s' = Some (Inr (rev ps @ more)) \<and> links [] (rev ps @ more) \<and>
      distinct (map p_ID (rev ps @ more)) \<and> (\<forall>p \<in> set more. Hash sha p = Inr (p_ID p) \<and> Read git_ops s' (p_ID p) = Inr p)"
    if steps: "(ledger_step sha git_ops)\<^sup>*\<^sup>* s s'"
  proof -
    have "ledger_inv sha git_ops git_ok (\<lambda>_ _. False) s" using sound e by (simp add: sound_def)
    then obtain e' qs where s': "git_Head s' = Inr e'" "linked git_ops s' e' (qs @ ps)"
      using git.steps_extend [OF steps _ assms(1), of e ps] e ps(2) by auto
    obtain rs where rs: "Chain git_ops s' = Some (Inr (rev rs))" "linked git_ops s' e' rs" "links [] (rev rs)"
      "distinct (map p_ID (rev rs))" "\<forall>p \<in> set rs. Read git_ops s' (p_ID p) = Inr p \<and> Hash sha p = Inr (p_ID p)"
      using git_Chain_sound [OF git_steps_sound [OF assms(3) sound assms(1)] s'(1)] by blast
    have "rs = qs @ ps" by (rule linked_unique [OF rs(2) s'(2)])
    then show ?thesis using rs by (intro exI [of _ "rev qs"]) auto
  qed
  then show ?thesis using e ps kept from_e by (intro disjI2 exI [of _ e] exI [of _ "rev ps"]) simp
qed simp

definition sample_sha :: "string \<Rightarrow> string" where
  "sample_sha s = replicate 64 (CHR ''a'')"

lemma IsHash_sample_sha: "IsHash (sample_sha s)"
  by (simp add: IsHash_def sample_sha_def list_all_iff is_hex_def less_eq_char_def)

definition sample_adoption :: Proposal where
  "sample_adoption = sample_proposal [] [] ''adoption'' \<lparr>d_Creates = [Some (GObj [(''name'', GStr ''n'')])],
     d_Modifies = [], d_Destroys = []\<rparr> [] \<lparr>br_Creates = 0, br_Modifies = 0, br_Destroys = 0\<rparr>"

definition sample_merge :: MergeAcceptance where
  "sample_merge = \<lparr>mg_Platform = ''github'', mg_MergeSHA = ''m'', mg_PRNumber = 7, mg_ProposalFile = ''f'',
     mg_Approvers = [''a'']\<rparr>"

definition sample_review :: ReviewAcceptance where
  "sample_review = \<lparr>rv_Platform = ''github'', rv_PRNumber = 7, rv_ProposalFile = ''f'', rv_Approver = ''a'',
     rv_Comment = []\<rparr>"

definition sample_accept :: "(err, Proposal) res \<times> git_store" where
  "sample_accept = AcceptFromMerge sample_sha ''now'' git_ops git_empty sample_adoption (sample_sha []) sample_merge"

lemma sample_step: "ledger_step sample_sha git_ops git_empty (snd sample_accept)"
proof (rule ledger_step.accepts)
  show "validateAndHash sample_sha sample_adoption = Inr (sample_sha [])" by code_simp
  then show "finalizeAndAppend git_ops git_empty sample_adoption (sample_sha [])
      \<lparr>ac_Method = ''pr_merge'', ac_Platform = ''github'', ac_MergeSHA = ''m'', ac_PRNumber = 7, ac_ProposalFile = ''f'',
       ac_Approvers = [''a''], ac_ReviewComment = [], ac_AcceptedAt = ''now''\<rparr> = (fst sample_accept, snd sample_accept)"
    by (simp add: sample_accept_def AcceptFromMerge_def sample_merge_def)
  show "hashedContent q = hashedContent sample_adoption" if "Read git_ops git_empty (sample_sha []) = Inr q" for q
    using that by (simp add: Read_def git_ReadProposal_def git_empty_def)
qed

lemma git_ledger_append_only_witness:
  "\<exists>ps. Chain git_ops (snd sample_accept) = Some (Inr ps) \<and> links [] ps \<and> distinct (map p_ID ps) \<and>
    git_Head (snd sample_accept) = Inr (sample_sha []) \<and>
    ChainFrom git_ops (snd sample_accept) (sample_sha []) = Some (Inr ps)"
proof -
  have head: "git_Head (snd sample_accept) = Inr (sample_sha [])" by code_simp
  have step: "(git_step sample_sha)\<^sup>*\<^sup>* git_empty (snd sample_accept)"
    by (rule r_into_rtranclp, rule git_step.runs, rule sample_step)
  show ?thesis
    using git_ledger_append_only [OF IsHash_sample_sha step rtranclp.rtrancl_refl] head by auto
qed

lemma git_Append_new:
  assumes "git_Head g = Inr h" "map_of (gs_Proposals g) (p_ID p) = None" "p_ID p \<noteq> []"
  shows "Append git_ops g p =
    (if p_Parent p \<noteq> h then (Inl ErrParentMismatch, g)
     else (Inr (), g\<lparr>gs_Proposals := aput (p_ID p) (PropBlob p) (gs_Proposals g),
                     gs_HeadFile := Some (p_ID p @ [CHR 0x0A])\<rparr>))"
  using assms
  by (simp add: Append_def git_ReadProposal_def git_WriteProposalIfAbsent_def advance_from_def git_AdvanceHead_def)

lemma git_Append_existing:
  assumes "git_Head g = Inr h" "map_of (gs_Proposals g) (p_ID p) = Some b" "p_ID p \<noteq> []"
  shows "Append git_ops g p =
    (if h \<noteq> p_Parent p then (Inl ErrDuplicateProposal, g)
     else if parse_proposal b = None then (Inl ErrCorruptLedgerEntry, g)
     else (Inr (), g\<lparr>gs_HeadFile := Some (p_ID p @ [CHR 0x0A])\<rparr>))"
  using assms
  by (simp add: Append_def git_ReadProposal_def advance_from_def git_AdvanceHead_def split: option.split)

text \<open>
  An append that a crash cut off between writing the proposal and advancing the head can be
  retried: the retry reaches exactly the state the uninterrupted append would have, and until then
  the chain is the old one. When the crash cut the write itself short, the retry reports a corrupt
  entry and changes nothing, so half a proposal never enters the chain.
\<close>

theorem git_Append_resumes:
  assumes "Append git_ops g p = (Inr (), g')" and "Chain git_ops g = Some (Inr ps)"
    and "git_WriteProposalIfAbsent g (p_ID p) (PropBlob p) = Inr crashed"
    and "git_WriteProposalIfAbsent g (p_ID p) Garbage = Inr torn"
  shows "Append git_ops crashed p = (Inr (), g') \<and> Chain git_ops crashed = Some (Inr ps) \<and>
    Append git_ops torn p = (Inl ErrCorruptLedgerEntry, torn) \<and> Chain git_ops torn = Some (Inr ps)"
proof -
  have i: "p_ID p \<noteq> []" using assms(1) by (auto simp: Append_def)
  have absent: "map_of (gs_Proposals g) (p_ID p) = None"
    using assms(3) by (auto simp: git_WriteProposalIfAbsent_def split: if_splits)
  obtain h where h: "git_Head g = Inr h"
    using assms(1) i absent by (auto simp: Append_def git_ReadProposal_def split: sum.splits)
  have par: "p_Parent p = h" and g': "g' = g\<lparr>gs_Proposals := aput (p_ID p) (PropBlob p) (gs_Proposals g),
      gs_HeadFile := Some (p_ID p @ [CHR 0x0A])\<rparr>"
    using assms(1) git_Append_new [OF h absent i] by (auto split: if_splits)
  have c: "crashed = g\<lparr>gs_Proposals := aput (p_ID p) (PropBlob p) (gs_Proposals g)\<rparr>"
    and t: "torn = g\<lparr>gs_Proposals := aput (p_ID p) Garbage (gs_Proposals g)\<rparr>"
    using assms(3, 4) by (auto simp: git_WriteProposalIfAbsent_def split: if_splits)
  have chain: "Chain git_ops (g\<lparr>gs_Proposals := aput (p_ID p) b (gs_Proposals g)\<rparr>) = Some (Inr ps)" for b
  proof -
    let ?g = "g\<lparr>gs_Proposals := aput (p_ID p) b (gs_Proposals g)\<rparr>"
    have "linked git_ops g h (rev ps)"
      using assms(2) h by (simp add: Chain_def ChainFrom_linked)
    then have "linked git_ops ?g h (rev ps)"
      by (rule linked_cong) (use absent in \<open>auto simp: Read_def git_ReadProposal_def split: if_splits\<close>)
    then show ?thesis using h by (simp add: Chain_def linked_ChainFrom)
  qed
  have "Append git_ops crashed p = (Inr (), g')"
    using git_Append_existing [of crashed h p "PropBlob p"] h i par by (simp add: c g')
  moreover have "Append git_ops torn p = (Inl ErrCorruptLedgerEntry, torn)"
    using git_Append_existing [of torn h p Garbage] h i par by (simp add: t)
  ultimately show ?thesis using chain c t by simp
qed

lemma git_Append_resumes_witness:
  "let p = sample_adoption\<lparr>p_ID := ''i''\<rparr>;
       crashed = git_empty\<lparr>gs_Proposals := [(''i'', PropBlob p)]\<rparr>;
       torn = git_empty\<lparr>gs_Proposals := [(''i'', Garbage)]\<rparr>
   in Append git_ops crashed p = (Inr (), snd (Append git_ops git_empty p)) \<and> Chain git_ops crashed = Some (Inr []) \<and>
      Append git_ops torn p = (Inl ErrCorruptLedgerEntry, torn) \<and> Chain git_ops torn = Some (Inr [])"
  unfolding Let_def
  by (rule git_Append_resumes [of git_empty];
    simp add: Append_def git_empty_def git_Head_def git_ReadProposal_def git_WriteProposalIfAbsent_def advance_from_def
      git_AdvanceHead_def sample_adoption_def sample_proposal_def Chain_def ChainFrom_def chain_loop.simps)



end
