(* ===== verification/Apply.thy ===== *)
theory Apply
  imports Ledger
begin

text \<open>
  core/apply.go, the ledger half: reading the attempts of a proposal, beginning, saving and sealing
  an attempt, and what a proposal's attempts say about one resource.
\<close>

section \<open>Attempts\<close>

definition ApplyAttempts :: "'s store_ops \<Rightarrow> 's \<Rightarrow> string \<Rightarrow> (err, ApplyRecord list) res" where
  "ApplyAttempts ops s proposalID =
     rbind (so_ListApplyAttempts ops s proposalID) (\<lambda>attempts.
       map_res (\<lambda>n. rbind (so_ReadApply ops s proposalID n) (\<lambda>b. of_opt ErrCorruptApplyRecord (parse_apply b)))
         (sort attempts))"

definition ReadApply :: "'s store_ops \<Rightarrow> 's \<Rightarrow> string \<Rightarrow> int \<Rightarrow> (err, ApplyRecord) res" where
  "ReadApply ops s proposalID attempt = (case so_ReadApply ops s proposalID attempt of
      Inl e \<Rightarrow> if e = ErrStoreObjectNotFound then Inl ErrApplyRecordNotFound else Inl e
    | Inr b \<Rightarrow> of_opt ErrCorruptApplyRecord (parse_apply b))"

definition writeApplyFile :: "'s store_ops \<Rightarrow> 's \<Rightarrow> ApplyRecord \<Rightarrow> (err, 's) res" where
  "writeApplyFile ops s r = so_WriteApply ops s (ar_Proposal r) (ar_Attempt r) (ApplyBlob r)"

definition nextAttempt :: "ApplyRecord list \<Rightarrow> int" where
  "nextAttempt attempts = foldl (\<lambda>n a. if ar_Attempt a \<ge> n then ar_Attempt a + 1 else n) 1 attempts"

definition lastSealed :: "ApplyRecord list \<Rightarrow> string" where
  "lastSealed attempts = foldl (\<lambda>parent a. if Sealed a then ar_ID a else parent) [] attempts"

definition BeginApply :: "'s store_ops \<Rightarrow> 's \<Rightarrow> string \<Rightarrow> (err, ApplyRecord \<times> 's) res" where
  "BeginApply ops s proposalID =
     rbind (ApplyAttempts ops s proposalID) (\<lambda>attempts.
       let r = \<lparr>ar_SchemaVersion = ApplyRecordSchemaVersion, ar_ID = [], ar_Proposal = proposalID,
                ar_Parent = lastSealed attempts, ar_Attempt = nextAttempt attempts,
                ar_Resources = [], ar_Summary = None\<rparr>
       in rbind (writeApplyFile ops s r) (\<lambda>s'. Inr (r, s')))"

definition SaveApplyProgress :: "'s store_ops \<Rightarrow> 's \<Rightarrow> ApplyRecord \<Rightarrow> (err, 's) res" where
  "SaveApplyProgress ops s r =
     (if Sealed r then Inl (EMsg ''save apply progress: record is already sealed'')
      else writeApplyFile ops s r)"

definition SealApply ::
    "(string \<Rightarrow> string) \<Rightarrow> 's store_ops \<Rightarrow> 's \<Rightarrow> ApplyRecord \<Rightarrow> ApplySummary \<Rightarrow> (err, ApplyRecord \<times> 's) res" where
  "SealApply sha ops s r summary =
     (if Sealed r then Inl (EMsg ''seal apply: record is already sealed'')
      else
        let r = r\<lparr>ar_Summary := Some summary\<rparr>
        in rbind (ApplyHash sha r) (\<lambda>hash.
             let r = r\<lparr>ar_ID := hash\<rparr>
             in rbind (writeApplyFile ops s r) (\<lambda>s'. Inr (r, s'))))"

section \<open>What the attempts say about a resource\<close>

text \<open>The entries for one address, in the order of the attempts.\<close>

definition entriesFor :: "ApplyRecord list \<Rightarrow> Address \<Rightarrow> ResourceApply list" where
  "entriesFor attempts addr =
     filter (\<lambda>ra. addr_String (rap_Address ra) = addr_String addr) (concat (map ar_Resources attempts))"

text \<open>The loops keep the last value that is present.\<close>

definition latest :: "('a \<Rightarrow> 'b option) \<Rightarrow> 'a list \<Rightarrow> 'b option" where
  "latest f xs = foldl (\<lambda>acc x. case f x of None \<Rightarrow> acc | Some v \<Rightarrow> Some v) None xs"

definition appliedTime :: "ResourceApply \<Rightarrow> string option" where
  "appliedTime ra = latest (\<lambda>t. if tr_State t = ResourceApplied then Some (tr_At t) else None) (rap_Transitions ra)"

definition shippedCreateFold ::
    "'s store_ops \<Rightarrow> 's \<Rightarrow> string \<Rightarrow> Address \<Rightarrow> (err, (raw \<times> raw \<times> string) option) res" where
  "shippedCreateFold ops s proposalID addr =
     rbind (ApplyAttempts ops s proposalID) (\<lambda>attempts.
       let ras = entriesFor attempts addr;
           result = latest rap_ProviderResult ras;
           lookup = latest rap_Lookup ras;
           appliedAt = (case latest appliedTime ras of None \<Rightarrow> [] | Some t \<Rightarrow> t)
       in if latest LastState ras \<noteq> Some ResourceApplied then Inr None
          else Inr (Some (result,
                 if lookup = None then DeriveLookupFromResult result [] else lookup,
                 appliedAt)))"

definition reconOutcome :: "ResourceApply \<Rightarrow> string option" where
  "reconOutcome ra =
     (if rap_Reconciliation ra = [] then None else Some (ra_Outcome (last (rap_Reconciliation ra))))"

definition shippedDestroyFold ::
    "'s store_ops \<Rightarrow> 's \<Rightarrow> string \<Rightarrow> Address \<Rightarrow> (err, string option) res" where
  "shippedDestroyFold ops s proposalID addr =
     rbind (ApplyAttempts ops s proposalID) (\<lambda>attempts.
       let ras = entriesFor attempts addr
       in if latest LastState ras \<noteq> Some ResourceApplied then Inr None
          else Inr (Some (case latest reconOutcome ras of None \<Rightarrow> [] | Some out \<Rightarrow> out)))"

definition shippedModifyFold ::
    "'s store_ops \<Rightarrow> 's \<Rightarrow> string \<Rightarrow> Address \<Rightarrow> (err, raw option) res" where
  "shippedModifyFold ops s proposalID addr =
     rbind (ApplyAttempts ops s proposalID) (\<lambda>attempts.
       let ras = entriesFor attempts addr
       in if latest LastState ras \<noteq> Some ResourceApplied then Inr None
          else Inr (Some (latest rap_Lookup ras)))"

lemma latest_snoc: "latest f (xs @ [x]) = (case f x of None \<Rightarrow> latest f xs | Some v \<Rightarrow> Some v)"
  by (simp add: latest_def split: option.split)

lemma latest_Nil [simp]: "latest f [] = None"
  by (simp add: latest_def)

lemma latest_Some: "latest f xs = Some v \<Longrightarrow> \<exists>x \<in> set xs. f x = Some v"
  by (induction xs rule: rev_induct) (auto simp: latest_snoc split: option.splits)

section \<open>The apply log of a proposal\<close>

text \<open>
  Attempts are numbered from one, each names the last sealed one before it, and a sealed record's
  identifier is its hash.
\<close>

fun log_ok :: "(string \<Rightarrow> string) \<Rightarrow> string \<Rightarrow> int \<Rightarrow> string \<Rightarrow> ApplyRecord list \<Rightarrow> bool" where
  "log_ok sha pid n parent [] \<longleftrightarrow> True"
| "log_ok sha pid n parent (r # rs) \<longleftrightarrow> ar_Attempt r = n \<and> ar_Parent r = parent \<and> ar_Proposal r = pid \<and>
     (Sealed r \<longrightarrow> ApplyHash sha r = Inr (ar_ID r)) \<and>
     log_ok sha pid (n + 1) (if Sealed r then ar_ID r else parent) rs"

lemma log_ok_append:
  "log_ok sha pid n parent (rs @ qs) \<longleftrightarrow> log_ok sha pid n parent rs \<and>
     log_ok sha pid (n + int (length rs)) (foldl (\<lambda>p a. if Sealed a then ar_ID a else p) parent rs) qs"
  by (induction sha pid n parent rs rule: log_ok.induct) (auto simp: algebra_simps)

lemma log_ok_next:
  "log_ok sha pid n parent rs \<Longrightarrow> 1 \<le> n \<Longrightarrow>
   foldl (\<lambda>n a. if ar_Attempt a \<ge> n then ar_Attempt a + 1 else n) n rs = n + int (length rs)"
  by (induction sha pid n parent rs rule: log_ok.induct) auto

lemma log_ok_attempts: "log_ok sha pid n parent rs \<Longrightarrow> i < length rs \<Longrightarrow> ar_Attempt (rs ! i) = n + int i"
proof (induction sha pid n parent rs arbitrary: i rule: log_ok.induct)
  case (2 sha pid n parent r rs)
  then show ?case by (cases i) auto
qed simp

text \<open>
  The steps on one proposal's log: an attempt begins, its resources are saved, it is sealed. The
  record being worked on is the last one, and a process that dies leaves it unsealed.
\<close>

inductive apply_step ::
    "(string \<Rightarrow> string) \<Rightarrow> 's store_ops \<Rightarrow> string \<Rightarrow> 's \<times> ApplyRecord option \<Rightarrow> 's \<times> ApplyRecord option \<Rightarrow> bool"
  for sha :: "string \<Rightarrow> string" and ops :: "'s store_ops" and pid :: string where
  begins: "BeginApply ops s pid = Inr (r, s') \<Longrightarrow> apply_step sha ops pid (s, cur) (s', Some r)"
| saves: "SaveApplyProgress ops s (r\<lparr>ar_Resources := rs\<rparr>) = Inr s' \<Longrightarrow>
    apply_step sha ops pid (s, Some r) (s', Some (r\<lparr>ar_Resources := rs\<rparr>))"
| seals: "SealApply sha ops s r summary = Inr (r', s') \<Longrightarrow> apply_step sha ops pid (s, Some r) (s', Some r')"
| dies: "apply_step sha ops pid (s, cur) (s, None)"

text \<open>The log a store holds, and the record in hand as its last entry.\<close>

definition holds_log ::
    "(string \<Rightarrow> string) \<Rightarrow> 's store_ops \<Rightarrow> string \<Rightarrow> 's \<times> ApplyRecord option \<Rightarrow> ApplyRecord list \<Rightarrow> bool" where
  "holds_log sha ops pid x rs \<longleftrightarrow>
     (\<forall>n. so_ReadApply ops (fst x) pid n =
       (if 1 \<le> n \<and> n \<le> int (length rs) then Inr (ApplyBlob (rs ! nat (n - 1))) else Inl ErrStoreObjectNotFound)) \<and>
     log_ok sha pid 1 [] rs \<and>
     (\<forall>r. snd x = Some r \<longrightarrow> rs \<noteq> [] \<and> last rs = r)"

context apply_store
begin

text \<open>What a store holds for a proposal, by attempt number.\<close>

lemma attempts_from_reads:
  assumes ok: "ok s" and i: "IsHash i"
    and reads: "\<And>n. so_ReadApply ops s i n =
      (if 1 \<le> n \<and> n \<le> int (length rs) then Inr (ApplyBlob (rs ! nat (n - 1))) else Inl ErrStoreObjectNotFound)"
  shows "ApplyAttempts ops s i = Inr rs"
proof -
  obtain ns where ns: "so_ListApplyAttempts ops s i = Inr ns" "distinct ns"
    "\<And>n. n \<in> set ns \<longleftrightarrow> 0 \<le> n \<and> so_ReadApply ops s i n \<noteq> Inl ErrStoreObjectNotFound"
    using apply_list [OF ok i] by blast
  have set: "set ns = set [1..int (length rs)]" by (auto simp: ns(3) reads split: if_splits)
  have "sort ns = [1..int (length rs)]"
    by (rule sorted_distinct_set_unique) (use ns(2) set in auto)
  moreover have "map_res (\<lambda>n. rbind (so_ReadApply ops s i n) (\<lambda>b. of_opt ErrCorruptApplyRecord (parse_apply b)))
      [1..int (length rs)] = Inr rs"
    unfolding map_res_Inr_iff
    by (rule list_all2_all_nthI) (auto simp: reads)
  ultimately show ?thesis by (simp add: ApplyAttempts_def ns(1))
qed

lemma holds_log_attempts: "ok s \<Longrightarrow> IsHash pid \<Longrightarrow> holds_log sha ops pid (s, cur) rs \<Longrightarrow> ApplyAttempts ops s pid = Inr rs"
  by (rule attempts_from_reads) (simp_all add: holds_log_def)

text \<open>Writing a record under its own number: the next one, or again the last one.\<close>

lemma write_next:
  assumes "ok s" "holds_log sha ops pid (s, cur) rs" "writeApplyFile ops s r = Inr s'"
    and r: "ar_Proposal r = pid" "log_ok sha pid 1 [] (rs @ [r])"
  shows "ok s' \<and> holds_log sha ops pid (s', Some r) (rs @ [r])"
proof -
  have n: "ar_Attempt r = 1 + int (length rs)"
    using r(2) log_ok_attempts [OF r(2), of "length rs"] by simp
  obtain s2 where s2: "so_WriteApply ops s pid (ar_Attempt r) (ApplyBlob r) = Inr s2" "ok s2"
    "\<forall>j k. so_ReadApply ops s2 j k = (if (j, k) = (pid, ar_Attempt r) then Inr (ApplyBlob r) else so_ReadApply ops s j k)"
    using apply_write [OF assms(1), of pid "ar_Attempt r" "ApplyBlob r"] by blast
  have "s2 = s'" using s2(1) assms(3) r(1) by (simp add: writeApplyFile_def)
  then show ?thesis
    using s2 assms(2) r(2) n by (auto simp: holds_log_def nth_append)
qed

lemma write_last:
  assumes "ok s" "holds_log sha ops pid (s, cur) (rs @ [q])" "writeApplyFile ops s r = Inr s'"
    and r: "ar_Proposal r = pid" "log_ok sha pid 1 [] (rs @ [r])"
  shows "ok s' \<and> holds_log sha ops pid (s', Some r) (rs @ [r])"
proof -
  have n: "ar_Attempt r = 1 + int (length rs)"
    using r(2) log_ok_attempts [OF r(2), of "length rs"] by simp
  obtain s2 where s2: "so_WriteApply ops s pid (ar_Attempt r) (ApplyBlob r) = Inr s2" "ok s2"
    "\<forall>j k. so_ReadApply ops s2 j k = (if (j, k) = (pid, ar_Attempt r) then Inr (ApplyBlob r) else so_ReadApply ops s j k)"
    using apply_write [OF assms(1), of pid "ar_Attempt r" "ApplyBlob r"] by blast
  have "s2 = s'" using s2(1) assms(3) r(1) by (simp add: writeApplyFile_def)
  then show ?thesis
    using s2 assms(2) r(2) n by (auto simp: holds_log_def nth_append)
qed

text \<open>Every step keeps the log's shape, and every sealed record as it was.\<close>

lemma apply_step_log:
  assumes step: "apply_step sha ops pid x y" and ok: "ok (fst x)" and i: "IsHash pid"
    and sha: "\<And>z. IsHash (sha z)" and log: "holds_log sha ops pid x rs"
  shows "\<exists>rs'. ok (fst y) \<and> holds_log sha ops pid y rs' \<and> length rs \<le> length rs' \<and>
    (\<forall>k < length rs. Sealed (rs ! k) \<longrightarrow> rs' ! k = rs ! k)"
  using step
proof cases
  case (begins s r s' cur)
  have att: "ApplyAttempts ops s pid = Inr rs"
    using holds_log_attempts [OF _ i] ok log begins(1) by simp
  have l: "log_ok sha pid 1 [] rs" using log by (simp add: holds_log_def)
  have nxt: "nextAttempt rs = 1 + int (length rs)" using log_ok_next [OF l] by (simp add: nextAttempt_def)
  have r: "ar_Proposal r = pid" "ar_Attempt r = 1 + int (length rs)" "ar_Parent r = lastSealed rs" "\<not> Sealed r"
    and w: "writeApplyFile ops s r = Inr s'"
    using begins(3) att nxt by (auto simp: BeginApply_def rbind_Inr_iff Let_def Sealed_def)
  have "log_ok sha pid 1 [] (rs @ [r])" using l r by (simp add: log_ok_append lastSealed_def)
  from write_next [OF _ _ w r(1) this, of cur] ok log begins(1)
  have "ok s' \<and> holds_log sha ops pid (s', Some r) (rs @ [r])" by simp
  then show ?thesis using begins(2) by (intro exI [of _ "rs @ [r]"]) (simp add: nth_append)
next
  case (saves s rs2 r s')
  let ?r = "r\<lparr>ar_Resources := rs2\<rparr>"
  from log saves(1) obtain rs0 where rs: "rs = rs0 @ [r]"
    by (metis append_butlast_last_id holds_log_def snd_conv)
  have ns: "\<not> Sealed ?r" and w: "writeApplyFile ops s ?r = Inr s'"
    using saves(3) by (auto simp: SaveApplyProgress_def split: if_splits)
  have l: "log_ok sha pid 1 [] (rs0 @ [r])" using log rs by (simp add: holds_log_def)
  have "ar_Proposal ?r = pid" "log_ok sha pid 1 [] (rs0 @ [?r])" using l ns by (simp_all add: log_ok_append)
  from write_last [OF _ _ w this, of "Some r" r] ok log saves(1) rs
  have "ok s' \<and> holds_log sha ops pid (s', Some ?r) (rs0 @ [?r])" by simp
  moreover have "\<not> Sealed r" using ns by (simp add: Sealed_def)
  ultimately show ?thesis using saves(2) rs
    by (intro exI [of _ "rs0 @ [?r]"]) (auto simp: nth_append less_Suc_eq)
next
  case (seals s r summary r' s')
  from log seals(1) obtain rs0 where rs: "rs = rs0 @ [r]"
    by (metis append_butlast_last_id holds_log_def snd_conv)
  obtain hash where ns: "\<not> Sealed r" and hash: "ApplyHash sha (r\<lparr>ar_Summary := Some summary\<rparr>) = Inr hash"
    and r': "r' = r\<lparr>ar_Summary := Some summary, ar_ID := hash\<rparr>" and w: "writeApplyFile ops s r' = Inr s'"
    using seals(3) by (auto simp: SealApply_def Let_def rbind_Inr_iff split: if_splits)
  have hr: "ApplyHash sha r' = Inr hash" unfolding r' ApplyHash_id by (rule hash)
  have l: "log_ok sha pid 1 [] (rs0 @ [r])" using log rs by (simp add: holds_log_def)
  have "ar_Proposal r' = pid" "log_ok sha pid 1 [] (rs0 @ [r'])" using l hr by (simp_all add: log_ok_append r')
  from write_last [OF _ _ w this, of "Some r" r] ok log seals(1) rs
  have "ok s' \<and> holds_log sha ops pid (s', Some r') (rs0 @ [r'])" by simp
  then show ?thesis using seals(2) rs ns
    by (intro exI [of _ "rs0 @ [r']"]) (auto simp: nth_append less_Suc_eq)
next
  case (dies s cur)
  then show ?thesis using ok log by (intro exI [of _ rs]) (simp add: holds_log_def)
qed

lemma apply_steps_log:
  assumes "(apply_step sha ops pid)\<^sup>*\<^sup>* x y" "ok (fst x)" "IsHash pid"
    "\<And>z. IsHash (sha z)" "holds_log sha ops pid x rs"
  shows "\<exists>rs'. ok (fst y) \<and> holds_log sha ops pid y rs' \<and> length rs \<le> length rs' \<and>
    (\<forall>k < length rs. Sealed (rs ! k) \<longrightarrow> rs' ! k = rs ! k)"
  using assms(1)
proof (induction rule: rtranclp_induct)
  case base
  then show ?case using assms by (intro exI [of _ rs]) simp
next
  case (step u v)
  then obtain rs1 where 1: "ok (fst u)" "holds_log sha ops pid u rs1" "length rs \<le> length rs1"
    "\<forall>k < length rs. Sealed (rs ! k) \<longrightarrow> rs1 ! k = rs ! k" by blast
  from apply_step_log [OF step(2) 1(1) assms(3, 4) 1(2)]
  obtain rs2 where "ok (fst v)" "holds_log sha ops pid v rs2" "length rs1 \<le> length rs2"
    "\<forall>k < length rs1. Sealed (rs1 ! k) \<longrightarrow> rs2 ! k = rs1 ! k" by blast
  then show ?case using 1 by (intro exI [of _ rs2]) auto
qed

end

text \<open>
  C26. The apply log is append-only too, as long as a proposal is shipped by one process after the
  other (an attempt is sealed or its process has died before the next begins; ApplyRace has the
  overlapping ones). Whatever attempts begin, progress, are sealed or die after a proposal was first
  shipped, its attempts read back are numbered from one without a gap, each names the last sealed
  attempt before it, the identifier of a sealed attempt is its hash, and a sealed attempt is never
  changed again.
\<close>

theorem git_apply_log:
  assumes "git_ok g" "IsHash pid" "\<And>z. IsHash (sha z)" "\<And>n. map_of (gs_Applies g) (pid, n) = None"
    and "(apply_step sha git_ops pid)\<^sup>*\<^sup>* (g, None) (g1, cur1)" "(apply_step sha git_ops pid)\<^sup>*\<^sup>* (g1, cur1) (g2, cur2)"
  shows "\<exists>rs1 rs2. ApplyAttempts git_ops g1 pid = Inr rs1 \<and> ApplyAttempts git_ops g2 pid = Inr rs2 \<and>
    log_ok sha pid 1 [] rs2 \<and> length rs1 \<le> length rs2 \<and>
    (\<forall>k < length rs1. Sealed (rs1 ! k) \<longrightarrow> rs2 ! k = rs1 ! k)"
proof -
  have "holds_log sha git_ops pid (g, None) []"
    using assms(4) by (simp add: holds_log_def git_ReadApply_def)
  from gita.apply_steps_log [OF assms(5) _ assms(2, 3) this] assms(1)
  obtain rs1 where 1: "git_ok g1" "holds_log sha git_ops pid (g1, cur1) rs1" by auto
  from gita.apply_steps_log [OF assms(6) _ assms(2, 3) 1(2)] 1(1)
  obtain rs2 where 2: "git_ok g2" "holds_log sha git_ops pid (g2, cur2) rs2" "length rs1 \<le> length rs2"
    "\<forall>k < length rs1. Sealed (rs1 ! k) \<longrightarrow> rs2 ! k = rs1 ! k" by auto
  show ?thesis
    using gita.holds_log_attempts [OF 1(1) assms(2) 1(2)] gita.holds_log_attempts [OF 2(1) assms(2) 2(2)] 2
    by (intro exI [of _ rs1] exI [of _ rs2]) (simp add: holds_log_def)
qed

definition sample_attempt :: ApplyRecord where
  "sample_attempt = \<lparr>ar_SchemaVersion = 1, ar_ID = [], ar_Proposal = sample_sha [], ar_Parent = [], ar_Attempt = 1,
     ar_Resources = [], ar_Summary = None\<rparr>"

definition sample_summary :: ApplySummary where
  "sample_summary = \<lparr>as_Outcome = ''applied'', as_StartedAt = ''t'', as_FinishedAt = ''t'', as_ResourcesApplied = 1,
     as_ResourcesFailed = 0, as_ResourcesStillUnknown = 0\<rparr>"

definition sample_sealed :: ApplyRecord where
  "sample_sealed = sample_attempt\<lparr>ar_Summary := Some sample_summary, ar_ID := sample_sha []\<rparr>"

definition holding :: "ApplyRecord \<Rightarrow> git_store" where
  "holding r = git_empty\<lparr>gs_Applies := [((sample_sha [], 1), ApplyBlob r)]\<rparr>"

lemma sample_apply_steps:
  "apply_step sample_sha git_ops (sample_sha []) (git_empty, None) (holding sample_attempt, Some sample_attempt)"
  "apply_step sample_sha git_ops (sample_sha []) (holding sample_attempt, Some sample_attempt)
     (holding sample_sealed, Some sample_sealed)"
proof -
  have "BeginApply git_ops git_empty (sample_sha []) = Inr (sample_attempt, holding sample_attempt)"
    by (simp add: BeginApply_def ApplyAttempts_def git_ListApplyAttempts_def git_empty_def writeApplyFile_def
        git_WriteApply_def sample_attempt_def holding_def lastSealed_def nextAttempt_def ApplyRecordSchemaVersion_def
        Let_def)
  then show "apply_step sample_sha git_ops (sample_sha []) (git_empty, None) (holding sample_attempt, Some sample_attempt)"
    by (rule apply_step.begins)
  have "ApplyHash sample_sha (sample_attempt\<lparr>ar_Summary := Some sample_summary\<rparr>) = Inr (sample_sha [])" by code_simp
  then have "SealApply sample_sha git_ops (holding sample_attempt) sample_attempt sample_summary
      = Inr (sample_sealed, holding sample_sealed)"
    by (simp add: SealApply_def Sealed_def sample_sealed_def writeApplyFile_def git_WriteApply_def holding_def Let_def)
      (simp add: sample_attempt_def)
  then show "apply_step sample_sha git_ops (sample_sha []) (holding sample_attempt, Some sample_attempt)
     (holding sample_sealed, Some sample_sealed)"
    by (rule apply_step.seals)
qed

lemma git_apply_log_witness:
  "\<exists>rs1 rs2. ApplyAttempts git_ops (holding sample_attempt) (sample_sha []) = Inr rs1 \<and>
    ApplyAttempts git_ops (holding sample_sealed) (sample_sha []) = Inr rs2 \<and>
    log_ok sample_sha (sample_sha []) 1 [] rs2 \<and> length rs1 \<le> length rs2 \<and>
    (\<forall>k < length rs1. Sealed (rs1 ! k) \<longrightarrow> rs2 ! k = rs1 ! k)"
  by (rule git_apply_log [OF _ IsHash_sample_sha IsHash_sample_sha _
        r_into_rtranclp [of "apply_step sample_sha git_ops (sample_sha [])", OF sample_apply_steps(1)]
        r_into_rtranclp [of "apply_step sample_sha git_ops (sample_sha [])", OF sample_apply_steps(2)]])
    (simp_all add: git_ok_def git_empty_def git_Head_def)

end
