(* ===== verification/Fold.thy ===== *)
theory Fold
  imports Apply
begin

text \<open>
  core/state.go: what the ledger says about one resource. The state is folded over the chain from
  genesis: adoptions seed it, shipped creates seed it from what the provider returned, shipped
  modifies and drift records move it, and a shipped destroy removes it.
\<close>

section \<open>Create nodes\<close>

definition createNodeAddress :: "raw \<Rightarrow> Address option" where
  "createNodeAddress r = (case unmarshal_map r of
      None \<Rightarrow> None
    | Some node \<Rightarrow>
        let s = get_str (fields_of node) ''stack''; ty = get_str (fields_of node) ''type'';
            nm = get_str (fields_of node) ''name''
        in if s = [] \<or> ty = [] \<or> nm = [] then None else Some (Address s ty nm))"

definition isChangeCreateNode :: "raw \<Rightarrow> bool" where
  "isChangeCreateNode r = (case unmarshal_map r of
      None \<Rightarrow> False
    | Some node \<Rightarrow> map_of (fields_of node) ''config'' \<noteq> None)"

text \<open>A string member of a struct: absent and null leave it empty, another type is an error.\<close>

definition str_member :: "fields \<Rightarrow> string \<Rightarrow> string option" where
  "str_member fs k = (case map_of fs k of
      None \<Rightarrow> Some [] | Some GNil \<Rightarrow> Some [] | Some (GStr s) \<Rightarrow> Some s | _ \<Rightarrow> None)"

definition as_str :: "gval \<Rightarrow> string option" where
  "as_str v = (case v of GStr s \<Rightarrow> Some s | GNil \<Rightarrow> Some [] | _ \<Rightarrow> None)"

definition strs_member :: "fields \<Rightarrow> string \<Rightarrow> string list option" where
  "strs_member fs k = (case map_of fs k of
      None \<Rightarrow> Some [] | Some GNil \<Rightarrow> Some [] | Some (GArr xs) \<Rightarrow> those (map as_str xs) | _ \<Rightarrow> None)"

definition strmap_member :: "fields \<Rightarrow> string \<Rightarrow> (string \<times> string) list option" where
  "strmap_member fs k = (case map_of fs k of
      None \<Rightarrow> Some [] | Some GNil \<Rightarrow> Some []
    | Some (GObj m) \<Rightarrow> those (map (\<lambda>b. map_option (Pair (fst b)) (as_str (snd b))) m)
    | _ \<Rightarrow> None)"

definition decode_ProviderRef :: "gval \<Rightarrow> ProviderRef option option" where
  "decode_ProviderRef v = (case v of
      GNil \<Rightarrow> Some None
    | GObj fs \<Rightarrow> Option.bind (str_member fs ''source'') (\<lambda>source.
                Option.bind (str_member fs ''version'') (\<lambda>version.
                Some (Some \<lparr>pr_Source = source, pr_Version = version\<rparr>)))
    | _ \<Rightarrow> None)"

definition createNodeProvider :: "raw \<Rightarrow> ProviderRef option" where
  "createNodeProvider r = (case r of
      Some (GObj node) \<Rightarrow> (case map_of node ''provider'' of
          None \<Rightarrow> None
        | Some v \<Rightarrow> (case decode_ProviderRef v of None \<Rightarrow> None | Some ref \<Rightarrow> ref))
    | _ \<Rightarrow> None)"

definition decode_IntentSource :: "gval \<Rightarrow> IntentSource option" where
  "decode_IntentSource v = (case (case v of GNil \<Rightarrow> Some [] | GObj fs \<Rightarrow> Some fs | _ \<Rightarrow> None) of
      None \<Rightarrow> None
    | Some fs \<Rightarrow>
        (let s = str_member fs
         in if (\<exists>k \<in> set [''kind'', ''ref'', ''content_hash'', ''base'', ''declaration'', ''declared_source'',
                 ''declared_rev'', ''declared_path'', ''event_id'', ''event_name'', ''event_time'', ''actor_arn'',
                 ''source_ip'', ''reason'', ''backend'']. s k = None)
            then None
            else Option.bind (strmap_member fs ''declared_args'') (\<lambda>args.
                 Option.bind (strs_member fs ''withheld_args'') (\<lambda>withheld.
                 Some \<lparr>src_Kind = the (s ''kind''), src_Ref = the (s ''ref''),
                   src_ContentHash = the (s ''content_hash''), src_Base = the (s ''base''),
                   src_DeclaredArgs = args, src_WithheldArgs = withheld,
                   src_Declaration = the (s ''declaration''), src_DeclaredSource = the (s ''declared_source''),
                   src_DeclaredRev = the (s ''declared_rev''), src_DeclaredPath = the (s ''declared_path''),
                   src_EventID = the (s ''event_id''), src_EventName = the (s ''event_name''),
                   src_EventTime = the (s ''event_time''), src_ActorARN = the (s ''actor_arn''),
                   src_SourceIP = the (s ''source_ip''), src_SessionContext = map_of fs ''session_context'',
                   src_Reason = the (s ''reason''), src_Backend = the (s ''backend'')\<rparr>))))"

definition createNodeSources :: "raw \<Rightarrow> IntentSource list" where
  "createNodeSources r = (case r of
      Some (GObj node) \<Rightarrow> (case map_of node ''sources'' of
          Some (GArr xs) \<Rightarrow> (case those (map decode_IntentSource xs) of None \<Rightarrow> [] | Some ss \<Rightarrow> ss)
        | _ \<Rightarrow> [])
    | _ \<Rightarrow> [])"

definition restatesDeclaration :: "Modification \<Rightarrow> bool" where
  "restatesDeclaration md \<longleftrightarrow> mod_Provider md \<noteq> None"

section \<open>The fold\<close>

record foldState =
  fo_current :: "fields option"
  fo_sources :: "IntentSource list"
  fo_last :: "Proposal option"
  fo_found :: bool

definition fold_init :: foldState where
  "fold_init = \<lparr>fo_current = None, fo_sources = [], fo_last = None, fo_found = False\<rparr>"

definition foldCreate ::
    "'s store_ops \<Rightarrow> 's \<Rightarrow> Address \<Rightarrow> Proposal \<Rightarrow> raw \<Rightarrow> foldState \<Rightarrow> (err, foldState) res" where
  "foldCreate ops s addr p r st = (case unmarshal_map r of
      None \<Rightarrow> Inr st
    | Some node0 \<Rightarrow>
        let node = fields_of node0
        in if get_str node ''stack'' \<noteq> addr_Stack addr \<or> get_str node ''type'' \<noteq> addr_Type addr \<or>
              get_str node ''name'' \<noteq> addr_Name addr then Inr st
           else case get_obj node ''state'' of
               Some state \<Rightarrow> Inr \<lparr>fo_current = Some state, fo_sources = createNodeSources r, fo_last = Some p, fo_found = True\<rparr>
             | None \<Rightarrow>
                 if map_of node ''config'' = None then Inr st
                 else rbind (shippedCreateFold ops s (p_ID p) addr) (\<lambda>shipped.
                   case shipped of
                     None \<Rightarrow> Inr st
                   | Some (result, lookup, at) \<Rightarrow>
                       rbind (of_opt EJson (unmarshal_map result)) (\<lambda>seed.
                       Inr \<lparr>fo_current = seed, fo_sources = createNodeSources r, fo_last = Some p, fo_found = True\<rparr>)))"

definition foldModify ::
    "'s store_ops \<Rightarrow> 's \<Rightarrow> Address \<Rightarrow> Proposal \<Rightarrow> Modification \<Rightarrow> foldState \<Rightarrow> (err, foldState) res" where
  "foldModify ops s addr p md st =
     (if mod_Target md \<noteq> addr \<or> fo_current st = None then Inr st
      else rbind (if p_Kind p = KindChange
                  then rbind (shippedModifyFold ops s (p_ID p) addr) (\<lambda>shipped. Inr (shipped \<noteq> None))
                  else Inr True) (\<lambda>go.
        if \<not> go then Inr st
        else rbind (fold_res set_entry (mod_After md) (fo_current st)) (\<lambda>current.
          Inr \<lparr>fo_current = current,
               fo_sources = (if restatesDeclaration md then mod_Sources md else fo_sources st),
               fo_last = Some p, fo_found = True\<rparr>)))"

definition foldDestroy ::
    "'s store_ops \<Rightarrow> 's \<Rightarrow> Address \<Rightarrow> Proposal \<Rightarrow> DestroyEntry \<Rightarrow> foldState \<Rightarrow> (err, foldState) res" where
  "foldDestroy ops s addr p d st =
     (if des_Address d \<noteq> addr then Inr st
      else rbind (shippedDestroyFold ops s (p_ID p) addr) (\<lambda>shipped.
        if shipped \<noteq> None then Inr fold_init else Inr st))"

definition foldProposal :: "'s store_ops \<Rightarrow> 's \<Rightarrow> Address \<Rightarrow> Proposal \<Rightarrow> foldState \<Rightarrow> (err, foldState) res" where
  "foldProposal ops s addr p st =
     rbind (fold_res (foldCreate ops s addr p) (d_Creates (p_Delta p)) st) (\<lambda>st.
     rbind (fold_res (foldModify ops s addr p) (d_Modifies (p_Delta p)) st) (\<lambda>st.
     fold_res (foldDestroy ops s addr p) (d_Destroys (p_Delta p)) st))"

record foldResult =
  fr_State :: raw
  fr_Sources :: "IntentSource list"
  fr_LastContributor :: "Proposal option"
  fr_Found :: bool

definition foldStateOverChain :: "'s store_ops \<Rightarrow> 's \<Rightarrow> Proposal list \<Rightarrow> Address \<Rightarrow> (err, foldResult) res" where
  "foldStateOverChain ops s chain addr =
     rbind (fold_res (foldProposal ops s addr) chain fold_init) (\<lambda>st.
       if \<not> fo_found st
       then Inr \<lparr>fr_State = None, fr_Sources = [], fr_LastContributor = None, fr_Found = False\<rparr>
       else Inr \<lparr>fr_State = Some (marshal_map (fo_current st)), fr_Sources = fo_sources st,
                 fr_LastContributor = fo_last st, fr_Found = True\<rparr>)"

text \<open>The chain is walked first; a walk that does not end gives \<open>None\<close>.\<close>

definition with_chain :: "(err, Proposal list) res option \<Rightarrow> (Proposal list \<Rightarrow> (err, 'a) res) \<Rightarrow> (err, 'a) res option" where
  "with_chain c f = map_option (\<lambda>r. rbind r f) c"

definition FoldState :: "'s store_ops \<Rightarrow> 's \<Rightarrow> Address \<Rightarrow> (err, raw \<times> bool) res option" where
  "FoldState ops s addr = with_chain (Chain ops s) (\<lambda>chain.
     rbind (foldStateOverChain ops s chain addr) (\<lambda>r. Inr (fr_State r, fr_Found r)))"

definition FoldStateAt :: "'s store_ops \<Rightarrow> 's \<Rightarrow> string \<Rightarrow> Address \<Rightarrow> (err, raw \<times> bool) res option" where
  "FoldStateAt ops s headID addr = with_chain (ChainFrom ops s headID) (\<lambda>chain.
     rbind (foldStateOverChain ops s chain addr) (\<lambda>r. Inr (fr_State r, fr_Found r)))"

definition FoldSources :: "'s store_ops \<Rightarrow> 's \<Rightarrow> Address \<Rightarrow> (err, IntentSource list \<times> bool) res option" where
  "FoldSources ops s addr = with_chain (Chain ops s) (\<lambda>chain.
     rbind (foldStateOverChain ops s chain addr) (\<lambda>r. Inr (fr_Sources r, fr_Found r)))"

definition FoldSourcesAt :: "'s store_ops \<Rightarrow> 's \<Rightarrow> string \<Rightarrow> Address \<Rightarrow> (err, IntentSource list \<times> bool) res option" where
  "FoldSourcesAt ops s headID addr = with_chain (ChainFrom ops s headID) (\<lambda>chain.
     rbind (foldStateOverChain ops s chain addr) (\<lambda>r. Inr (fr_Sources r, fr_Found r)))"

definition LastContributor :: "'s store_ops \<Rightarrow> 's \<Rightarrow> Address \<Rightarrow> (err, Proposal option) res option" where
  "LastContributor ops s addr = with_chain (Chain ops s) (\<lambda>chain.
     rbind (foldStateOverChain ops s chain addr) (\<lambda>r. Inr (fr_LastContributor r)))"

section \<open>Observations\<close>

definition ObservedHash :: "(string \<Rightarrow> string) \<Rightarrow> raw \<Rightarrow> (err, string) res" where
  "ObservedHash sha state = rbind (of_opt EJson (unmarshal_any state)) (\<lambda>generic. Inr (sha (marshal_text generic)))"

text \<open>The first create of a proposal that is a shipped create of the address, with what it shipped.\<close>

fun shippedCreateOf ::
    "'s store_ops \<Rightarrow> 's \<Rightarrow> string \<Rightarrow> Address \<Rightarrow> raw list \<Rightarrow> (err, (raw \<times> raw \<times> string) option) res" where
  "shippedCreateOf ops s pid addr [] = Inr None"
| "shippedCreateOf ops s pid addr (r # rs) =
     (if createNodeAddress r \<noteq> Some addr \<or> \<not> isChangeCreateNode r then shippedCreateOf ops s pid addr rs
      else rbind (shippedCreateFold ops s pid addr) (\<lambda>shipped.
        case shipped of None \<Rightarrow> shippedCreateOf ops s pid addr rs | Some x \<Rightarrow> Inr (Some x)))"

text \<open>Newest proposal first: its first input about the address, or else its shipped create.\<close>

fun lastObserved ::
    "(string \<Rightarrow> string) \<Rightarrow> 's store_ops \<Rightarrow> 's \<Rightarrow> Address \<Rightarrow> Proposal list \<Rightarrow> (err, string option) res" where
  "lastObserved sha ops s addr [] = Inr None"
| "lastObserved sha ops s addr (p # ps) =
     (case find (\<lambda>i. in_Resource i = addr_String addr) (rs_Inputs (p_Resolution p)) of
        Some i \<Rightarrow> Inr (Some (in_ObservedHash i))
      | None \<Rightarrow>
          if p_Kind p \<noteq> KindChange then lastObserved sha ops s addr ps
          else rbind (shippedCreateOf ops s (p_ID p) addr (d_Creates (p_Delta p))) (\<lambda>shipped.
            case shipped of
              None \<Rightarrow> lastObserved sha ops s addr ps
            | Some (result, lookup, at) \<Rightarrow> rbind (ObservedHash sha result) (\<lambda>h. Inr (Some h))))"

definition LastObservedHash ::
    "(string \<Rightarrow> string) \<Rightarrow> 's store_ops \<Rightarrow> 's \<Rightarrow> Address \<Rightarrow> (err, string option) res option" where
  "LastObservedHash sha ops s addr = with_chain (Chain ops s) (\<lambda>chain. lastObserved sha ops s addr (rev chain))"

text \<open>Does the proposal record the address: an input about it, or the first create of it, shipped.\<close>

definition recordsAddress :: "'s store_ops \<Rightarrow> 's \<Rightarrow> Address \<Rightarrow> Proposal \<Rightarrow> (err, bool) res" where
  "recordsAddress ops s addr p =
     (if \<exists>i \<in> set (rs_Inputs (p_Resolution p)). in_Resource i = addr_String addr then Inr True
      else if p_Kind p \<noteq> KindChange then Inr False
      else case find (\<lambda>r. createNodeAddress r = Some addr \<and> isChangeCreateNode r) (d_Creates (p_Delta p)) of
          None \<Rightarrow> Inr False
        | Some r \<Rightarrow> rbind (shippedCreateFold ops s (p_ID p) addr) (\<lambda>shipped. Inr (shipped \<noteq> None)))"

fun filter_res :: "('a \<Rightarrow> ('e, bool) res) \<Rightarrow> 'a list \<Rightarrow> ('e, 'a list) res" where
  "filter_res f [] = Inr []"
| "filter_res f (x # xs) = rbind (f x) (\<lambda>b. rbind (filter_res f xs) (\<lambda>ys. Inr (if b then x # ys else ys)))"

definition ProposalsForAddress :: "'s store_ops \<Rightarrow> 's \<Rightarrow> Address \<Rightarrow> (err, Proposal list) res option" where
  "ProposalsForAddress ops s addr = with_chain (Chain ops s) (filter_res (recordsAddress ops s addr))"

section \<open>Divergence\<close>

datatype DivergenceKind = DivergenceRestore | DivergenceDriftRevert

record Divergence =
  dv_ProposalID :: string
  dv_Kind :: DivergenceKind
  dv_TargetHead :: string
  dv_ResolvedAt :: string

definition DivergenceOf :: "Proposal option \<Rightarrow> Divergence option" where
  "DivergenceOf p = (case p of
      None \<Rightarrow> None
    | Some p \<Rightarrow>
        if p_Kind p = KindDriftRevert
        then Some \<lparr>dv_ProposalID = p_ID p, dv_Kind = DivergenceDriftRevert, dv_TargetHead = [],
                   dv_ResolvedAt = rs_ResolvedAt (p_Resolution p)\<rparr>
        else map_option (\<lambda>s. \<lparr>dv_ProposalID = p_ID p, dv_Kind = DivergenceRestore, dv_TargetHead = src_Ref s,
                   dv_ResolvedAt = rs_ResolvedAt (p_Resolution p)\<rparr>)
               (find (\<lambda>s. src_Kind s = ''restore'') (int_Sources (p_Intent p))))"

definition LastDivergence :: "'s store_ops \<Rightarrow> 's \<Rightarrow> Address \<Rightarrow> (err, Divergence option) res option" where
  "LastDivergence ops s addr = map_option (\<lambda>r. rbind r (\<lambda>p. Inr (DivergenceOf p))) (LastContributor ops s addr)"

section \<open>What a proposal can change\<close>

text \<open>The address a create node is about, whatever else the node holds.\<close>

definition createsAddress :: "Address \<Rightarrow> raw \<Rightarrow> bool" where
  "createsAddress addr r \<longleftrightarrow> (\<exists>node. unmarshal_map r = Some node \<and> get_str (fields_of node) ''stack'' = addr_Stack addr \<and>
     get_str (fields_of node) ''type'' = addr_Type addr \<and> get_str (fields_of node) ''name'' = addr_Name addr)"

definition embedsState :: "raw \<Rightarrow> bool" where
  "embedsState r \<longleftrightarrow> (\<exists>node. unmarshal_map r = Some node \<and> get_obj (fields_of node) ''state'' \<noteq> None)"

text \<open>The attempts of a proposal were read, and the last thing they say of the resource is not "applied".\<close>

definition unshipped :: "'s store_ops \<Rightarrow> 's \<Rightarrow> Address \<Rightarrow> Proposal \<Rightarrow> bool" where
  "unshipped ops s addr p \<longleftrightarrow> (\<exists>rs. ApplyAttempts ops s (p_ID p) = Inr rs \<and>
     latest LastState (entriesFor rs addr) \<noteq> Some ResourceApplied)"

lemma unshipped_folds:
  assumes "unshipped ops s addr p"
  shows "shippedCreateFold ops s (p_ID p) addr = Inr None" "shippedModifyFold ops s (p_ID p) addr = Inr None"
    "shippedDestroyFold ops s (p_ID p) addr = Inr None"
  using assms
  by (auto simp: unshipped_def shippedCreateFold_def shippedModifyFold_def shippedDestroyFold_def Let_def)

lemma foldCreate_unshipped:
  assumes "unshipped ops s addr p \<or> \<not> createsAddress addr r" "\<not> (createsAddress addr r \<and> embedsState r)"
  shows "foldCreate ops s addr p r st = Inr st"
proof (cases "createsAddress addr r")
  case False
  then show ?thesis by (auto simp: foldCreate_def Let_def createsAddress_def split: option.split)
next
  case True
  then have "unshipped ops s addr p" and e: "\<not> embedsState r" using assms by simp_all
  from unshipped_folds(1) [OF this(1)] e True show ?thesis
    by (auto simp: foldCreate_def Let_def createsAddress_def embedsState_def)
qed

lemma foldProposal_untouched:
  assumes "p_Kind p = KindChange \<and> unshipped ops s addr p \<or>
      (\<forall>r \<in> set (d_Creates (p_Delta p)). \<not> createsAddress addr r) \<and>
      (\<forall>m \<in> set (d_Modifies (p_Delta p)). mod_Target m \<noteq> addr) \<and>
      (\<forall>d \<in> set (d_Destroys (p_Delta p)). des_Address d \<noteq> addr)"
    and "\<forall>r \<in> set (d_Creates (p_Delta p)). \<not> (createsAddress addr r \<and> embedsState r)"
  shows "foldProposal ops s addr p st = Inr st"
proof -
  have "fold_res (foldCreate ops s addr p) (d_Creates (p_Delta p)) st = Inr st"
    by (rule fold_res_id, rule foldCreate_unshipped) (use assms in blast)+
  moreover have "fold_res (foldModify ops s addr p) (d_Modifies (p_Delta p)) st = Inr st"
    by (rule fold_res_id) (use assms(1) unshipped_folds(2) [of ops s addr p] in \<open>auto simp: foldModify_def\<close>)
  moreover have "fold_res (foldDestroy ops s addr p) (d_Destroys (p_Delta p)) st = Inr st"
    by (rule fold_res_id) (use assms(1) unshipped_folds(3) [of ops s addr p] in \<open>auto simp: foldDestroy_def\<close>)
  ultimately show ?thesis by (simp add: foldProposal_def)
qed

lemma foldStateOverChain_snoc:
  "fold_res (foldProposal ops s addr) (chain @ [p]) st =
     rbind (fold_res (foldProposal ops s addr) chain st) (foldProposal ops s addr p)"
  by (simp add: fold_res_append) (cases "fold_res (foldProposal ops s addr) chain st", auto split: sum.split)

text \<open>
  Accepting is not applying. A change proposal whose attempts do not end with the resource
  applied, and a proposal of any kind that does not name the resource, leave everything the ledger
  says about the resource as it was: its state, whether it exists, its sources and who last
  touched it. (A create that carries a state is an adoption's, which seeds the state at once.)
\<close>

theorem foldStateOverChain_untouched:
  assumes "p_Kind p = KindChange \<and> unshipped ops s addr p \<or>
      (\<forall>r \<in> set (d_Creates (p_Delta p)). \<not> createsAddress addr r) \<and>
      (\<forall>m \<in> set (d_Modifies (p_Delta p)). mod_Target m \<noteq> addr) \<and>
      (\<forall>d \<in> set (d_Destroys (p_Delta p)). des_Address d \<noteq> addr)"
    and "\<forall>r \<in> set (d_Creates (p_Delta p)). \<not> (createsAddress addr r \<and> embedsState r)"
  shows "foldStateOverChain ops s (chain @ [p]) addr = foldStateOverChain ops s chain addr"
  using foldProposal_untouched [OF assms]
  by (cases "fold_res (foldProposal ops s addr) chain fold_init")
    (simp_all add: foldStateOverChain_def foldStateOverChain_snoc)

lemma foldDestroy_last:
  "d \<in> set ds \<Longrightarrow> des_Address d = addr \<Longrightarrow> shippedDestroyFold ops s (p_ID p) addr = Inr (Some out) \<Longrightarrow>
   fold_res (foldDestroy ops s addr p) ds st = Inr fold_init"
proof (induction ds arbitrary: st)
  case (Cons e ds)
  have one: "foldDestroy ops s addr p x st = Inr (if des_Address x = addr then fold_init else st)" for x st
    using Cons.prems(3) by (simp add: foldDestroy_def)
  have init: "fold_res (foldDestroy ops s addr p) ds fold_init = Inr fold_init"
    by (rule fold_res_id) (simp only: one if_cancel)
  have step: "fold_res (foldDestroy ops s addr p) (e # ds) st
      = fold_res (foldDestroy ops s addr p) ds (if des_Address e = addr then fold_init else st)"
    using one [of e st] by simp
  show ?case
  proof (cases "d = e")
    case True
    then show ?thesis using Cons.prems(2) init unfolding step by simp
  next
    case False
    then have "d \<in> set ds" using Cons.prems(1) by simp
    then show ?thesis unfolding step by (rule Cons.IH [OF _ Cons.prems(2, 3)])
  qed
qed simp

text \<open>
  Once a destroy has shipped, the resource is gone from what the ledger says, whatever the
  chain said before and whatever else the same proposal did to it.
\<close>

theorem fold_shipped_destroy:
  assumes "d \<in> set (d_Destroys (p_Delta p))" "des_Address d = addr"
    and "shippedDestroyFold ops s (p_ID p) addr = Inr (Some outcome)"
    and "foldStateOverChain ops s (chain @ [p]) addr = Inr r"
  shows "r = \<lparr>fr_State = None, fr_Sources = [], fr_LastContributor = None, fr_Found = False\<rparr>"
  using assms(4) foldDestroy_last [OF assms(1-3)]
  by (auto simp: foldStateOverChain_def foldStateOverChain_snoc rbind_Inr_iff foldProposal_def fold_init_def split: if_splits)

definition sample_node :: "string \<Rightarrow> gval \<Rightarrow> gval" where
  "sample_node k v = GObj (aput k v [(''name'', GStr ''n''), (''stack'', GStr ''s''), (''type'', GStr ''t'')])"

definition sample_ra :: "ResourceState \<Rightarrow> raw \<Rightarrow> ResourceApply" where
  "sample_ra st res = \<lparr>rap_Address = Address ''s'' ''t'' ''n'',
     rap_Transitions = [\<lparr>tr_State = st, tr_At = ''now'', tr_Detail = []\<rparr>],
     rap_ProviderResult = res, rap_Lookup = None, rap_Reconciliation = [], rap_Errors = []\<rparr>"

text \<open>A directory whose one apply record, of the sample hash, says this of the resource.\<close>

definition sample_applied :: "ResourceState \<Rightarrow> raw \<Rightarrow> git_store" where
  "sample_applied st res = holding (sample_attempt\<lparr>ar_Resources := [sample_ra st res]\<rparr>)"

definition sample_change :: "raw list \<Rightarrow> DestroyEntry list \<Rightarrow> Proposal" where
  "sample_change cs ds = sample_proposal (sample_sha []) [] ''change''
     \<lparr>d_Creates = cs, d_Modifies = [], d_Destroys = ds\<rparr> [] \<lparr>br_Creates = 1, br_Modifies = 0, br_Destroys = 0\<rparr>"

definition sample_destroy :: DestroyEntry where
  "sample_destroy = \<lparr>des_Address = Address ''s'' ''t'' ''n'', des_State = None, des_DependsOn = [], des_Provider = None,
     des_Sources = []\<rparr>"

lemma foldStateOverChain_untouched_witness:
  "foldStateOverChain git_ops (sample_applied ResourceFailed None)
     ([sample_adoption] @ [sample_change [Some (sample_node ''config'' (GObj []))] []]) (Address ''s'' ''t'' ''n'')
   = foldStateOverChain git_ops (sample_applied ResourceFailed None) [sample_adoption] (Address ''s'' ''t'' ''n'')"
proof (rule foldStateOverChain_untouched, rule disjI1)
  have "ApplyAttempts git_ops (sample_applied ResourceFailed None) (sample_sha [])
      = Inr [sample_attempt\<lparr>ar_Resources := [sample_ra ResourceFailed None]\<rparr>] \<and>
      latest LastState (entriesFor [sample_attempt\<lparr>ar_Resources := [sample_ra ResourceFailed None]\<rparr>] (Address ''s'' ''t'' ''n''))
        \<noteq> Some ResourceApplied" by code_simp
  then show "p_Kind (sample_change [Some (sample_node ''config'' (GObj []))] []) = KindChange \<and>
      unshipped git_ops (sample_applied ResourceFailed None) (Address ''s'' ''t'' ''n'')
        (sample_change [Some (sample_node ''config'' (GObj []))] [])"
    by (auto simp: unshipped_def sample_change_def sample_proposal_def kind_defs)
  show "\<forall>r \<in> set (d_Creates (p_Delta (sample_change [Some (sample_node ''config'' (GObj []))] []))).
      \<not> (createsAddress (Address ''s'' ''t'' ''n'') r \<and> embedsState r)"
    by (simp add: sample_change_def sample_proposal_def sample_node_def embedsState_def fields_of_def get_obj_def
        unmarshal_map_def)
qed

lemma fold_shipped_destroy_witness:
  "foldStateOverChain git_ops (sample_applied ResourceApplied None)
     ([sample_proposal ''a'' [] ''adoption'' \<lparr>d_Creates = [Some (sample_node ''state'' (GObj []))], d_Modifies = [], d_Destroys = []\<rparr>
         [] \<lparr>br_Creates = 0, br_Modifies = 0, br_Destroys = 0\<rparr>] @ [sample_change [] [sample_destroy]]) (Address ''s'' ''t'' ''n'')
   = Inr \<lparr>fr_State = None, fr_Sources = [], fr_LastContributor = None, fr_Found = False\<rparr>"
proof -
  let ?c = "[sample_proposal ''a'' [] ''adoption'' \<lparr>d_Creates = [Some (sample_node ''state'' (GObj []))], d_Modifies = [], d_Destroys = []\<rparr>
         [] \<lparr>br_Creates = 0, br_Modifies = 0, br_Destroys = 0\<rparr>] @ [sample_change [] [sample_destroy]]"
  have "\<exists>r. foldStateOverChain git_ops (sample_applied ResourceApplied None) ?c (Address ''s'' ''t'' ''n'') = Inr r"
    by (intro exI, code_simp)
  then obtain r where r: "foldStateOverChain git_ops (sample_applied ResourceApplied None) ?c (Address ''s'' ''t'' ''n'') = Inr r" ..
  have "sample_destroy \<in> set (d_Destroys (p_Delta (sample_change [] [sample_destroy])))"
    "des_Address sample_destroy = Address ''s'' ''t'' ''n''"
    by (simp_all add: sample_change_def sample_proposal_def sample_destroy_def)
  moreover have "shippedDestroyFold git_ops (sample_applied ResourceApplied None)
      (p_ID (sample_change [] [sample_destroy])) (Address ''s'' ''t'' ''n'') = Inr (Some [])" by code_simp
  ultimately show ?thesis using fold_shipped_destroy [OF _ _ _ r] r by simp
qed

section \<open>Drift records\<close>

lemma delete_entry_none:
  "fst ` set before \<subseteq> fst ` set after \<Longrightarrow> fold (delete_entry after) before cur = cur"
  by (induction before) (auto simp: delete_entry_def)

lemma set_entries_of_diff:
  assumes "wf_fields b" "wf_fields a" "no_number (GObj b)" "no_number (GObj a)" "keys_ok b" "keys_ok a"
    and "DiffAttributes (Some (GObj b)) (Some (GObj a)) = Some (before, after)"
    and "mset after' = mset (raws after)" and "fst ` set before \<subseteq> fst ` set after"
  shows "fold_res set_entry after' (Some b) = Inr (Some a)"
proof -
  have "fst ` set (raws before) \<subseteq> fst ` set after'"
    using assms(9) mset_eq_setD [OF assms(8)] by (auto simp: raws_def image_image)
  moreover have "ApplyAfter (Some (GObj b)) (raws before) after' = Inr (Some (GObj a))"
    by (rule apply_patch_of_diff [OF assms(1-7) refl assms(8)])
  ultimately obtain cur where "fold_res set_entry after' (Some b) = Inr cur" "marshal_map cur = GObj a"
    by (auto simp: ApplyAfter_def unmarshal_map_no_number [OF assms(3)] rbind_Inr_iff delete_entry_none)
  then show ?thesis by (cases cur) (auto simp: marshal_map_def)
qed

lemma foldStateOverChain_state:
  "foldStateOverChain ops s chain addr = Inr r \<Longrightarrow> fr_State r = Some (GObj b) \<Longrightarrow>
   \<exists>st. fold_res (foldProposal ops s addr) chain fold_init = Inr st \<and> fo_current st = Some b \<and> fo_found st"
proof -
  assume "foldStateOverChain ops s chain addr = Inr r" "fr_State r = Some (GObj b)"
  then obtain st where st: "fold_res (foldProposal ops s addr) chain fold_init = Inr st" "fo_found st"
    "marshal_map (fo_current st) = GObj b"
    by (auto simp: foldStateOverChain_def rbind_Inr_iff split: if_splits)
  then show ?thesis by (cases "fo_current st") (auto simp: marshal_map_def)
qed

lemma fold_adopted_diff:
  assumes "wf_fields b" "wf_fields a" "no_number (GObj b)" "no_number (GObj a)" "keys_ok b" "keys_ok a"
    and "foldStateOverChain ops s chain addr = Inr r" "fr_State r = Some (GObj b)"
    and "p_Kind p = KindDriftAdopt" "d_Creates (p_Delta p) = []" "d_Destroys (p_Delta p) = []"
    and "d_Modifies (p_Delta p) = [m]" "mod_Target m = addr"
    and "DiffAttributes (Some (GObj b)) (Some (GObj a)) = Some (before, after)"
    and "mset (mod_After m) = mset (raws after)" and "fst ` set before \<subseteq> fst ` set after"
  shows "\<exists>r'. foldStateOverChain ops s (chain @ [p]) addr = Inr r' \<and> fr_Found r' \<and>
    fr_State r' = Some (GObj a) \<and> fr_LastContributor r' = Some p"
proof -
  obtain st where st: "fold_res (foldProposal ops s addr) chain fold_init = Inr st" "fo_current st = Some b" "fo_found st"
    using foldStateOverChain_state [OF assms(7, 8)] by blast
  have "fold_res set_entry (mod_After m) (Some b) = Inr (Some a)"
    by (rule set_entries_of_diff [OF assms(1-6, 14-16)])
  then show ?thesis using assms(9-13) st
    by (simp add: foldStateOverChain_def foldStateOverChain_snoc foldProposal_def foldModify_def kind_defs marshal_map_def)
qed

text \<open>
  Adopting drift catches the ledger up: after a drift_adopt whose entry for the resource is the
  diff from the recorded state to the observed one, the recorded state is the observed one. This
  holds when the drift only adds and changes attributes, in every order of the entries.
\<close>

theorem fold_drift_adopt:
  assumes "wf_fields b" "wf_fields a" "no_number (GObj b)" "no_number (GObj a)" "keys_ok b" "keys_ok a"
    and "foldStateOverChain ops s chain addr = Inr r" "fr_State r = Some (GObj b)"
    and "p_Kind p = KindDriftAdopt" "d_Creates (p_Delta p) = []" "d_Destroys (p_Delta p) = []"
    and "d_Modifies (p_Delta p) = [m]" "mod_Target m = addr"
    and "DiffAttributes (Some (GObj b)) (Some (GObj a)) = Some (before, after)"
    and "mset (mod_After m) = mset (raws after)" and "fst ` set before \<subseteq> fst ` set after"
  shows "\<exists>r'. foldStateOverChain ops s (chain @ [p]) addr = Inr r' \<and> fr_Found r' \<and>
    fr_State r' = Some (GObj a) \<and> fr_LastContributor r' = Some p"
  using assms by (rule fold_adopted_diff)

definition sample_state :: "fields \<Rightarrow> Proposal" where
  "sample_state fs = sample_proposal ''a'' [] ''adoption''
     \<lparr>d_Creates = [Some (sample_node ''state'' (GObj fs))], d_Modifies = [], d_Destroys = []\<rparr>
     [] \<lparr>br_Creates = 0, br_Modifies = 0, br_Destroys = 0\<rparr>"

definition sample_drift :: "patch \<Rightarrow> patch \<Rightarrow> Proposal" where
  "sample_drift before after = sample_proposal ''b'' ''a'' ''drift_adopt''
     \<lparr>d_Creates = [], d_Modifies = [\<lparr>mod_Target = Address ''s'' ''t'' ''n'', mod_Before = before, mod_After = after,
        mod_DependsOn = [], mod_Provider = None, mod_Sources = []\<rparr>], d_Destroys = []\<rparr>
     [] \<lparr>br_Creates = 0, br_Modifies = 0, br_Destroys = 0\<rparr>"

lemma fold_drift_adopt_witness:
  "\<exists>r'. foldStateOverChain git_ops git_empty ([sample_state [(''acl'', GStr ''x'')]] @
       [sample_drift [(''acl'', Some (GStr ''x''))] [(''tag'', Some (GStr ''z'')), (''acl'', Some (GStr ''y''))]])
       (Address ''s'' ''t'' ''n'') = Inr r' \<and> fr_Found r' \<and>
     fr_State r' = Some (GObj [(''acl'', GStr ''y''), (''tag'', GStr ''z'')]) \<and>
     fr_LastContributor r' = Some (sample_drift [(''acl'', Some (GStr ''x''))]
        [(''tag'', Some (GStr ''z'')), (''acl'', Some (GStr ''y''))])"
proof (rule fold_drift_adopt [where m = "\<lparr>mod_Target = Address ''s'' ''t'' ''n'', mod_Before = [(''acl'', Some (GStr ''x''))],
      mod_After = [(''tag'', Some (GStr ''z'')), (''acl'', Some (GStr ''y''))], mod_DependsOn = [], mod_Provider = None,
      mod_Sources = []\<rparr>"])
  show "foldStateOverChain git_ops git_empty [sample_state [(''acl'', GStr ''x'')]] (Address ''s'' ''t'' ''n'')
      = Inr \<lparr>fr_State = Some (GObj [(''acl'', GStr ''x'')]), fr_Sources = [],
          fr_LastContributor = Some (sample_state [(''acl'', GStr ''x'')]), fr_Found = True\<rparr>"
    by code_simp
  show "DiffAttributes (Some (GObj [(''acl'', GStr ''x'')])) (Some (GObj [(''acl'', GStr ''y''), (''tag'', GStr ''z'')]))
      = Some ([(''acl'', GStr ''x'')], [(''acl'', GStr ''y''), (''tag'', GStr ''z'')])" by code_simp
qed (simp_all add: sample_drift_def sample_proposal_def keys_ok_def raws_def kind_defs)

text \<open>
  Drift that removes an attribute is never caught up with: the fold only sets the After values of
  a drift_adopt, so an attribute that vanished from the real resource stays in the recorded state,
  and the diff against the same observation is the same again after it was adopted.
\<close>

theorem fold_drift_adopt_removed:
  "let b = GObj [(''acl'', GStr ''x''), (''tag'', GStr ''z'')]; a = GObj [(''acl'', GStr ''x'')];
       chain = [sample_state [(''acl'', GStr ''x''), (''tag'', GStr ''z'')]];
       p = sample_drift [(''tag'', Some (GStr ''z''))] []
   in DiffAttributes (Some b) (Some a) = Some ([(''tag'', GStr ''z'')], []) \<and>
      rbind (foldStateOverChain git_ops git_empty (chain @ [p]) (Address ''s'' ''t'' ''n'')) (\<lambda>r. Inr (fr_State r))
        = Inr (Some b) \<and>
      ApplyAfter (Some b) [(''tag'', Some (GStr ''z''))] [] = Inr (Some a)"
  by code_simp

end
