(* ===== verification/Fleet.thy ===== *)
theory Fleet
  imports Fold
begin

text \<open>
  core/fleet.go and core/addresses.go: which resources the ledger knows. Both walk the chain once
  with the same discovery rules; the fleet leaves destroyed resources out, the address book can keep
  them. The Go maps are sorted association lists; the sort at the end makes their order irrelevant.
\<close>

section \<open>The fleet\<close>

record FleetEntry =
  fe_Address :: Address
  fe_Kind :: string
  fe_ProposalID :: string
  fe_AcceptedAt :: string
  fe_Lookup :: raw
  fe_Provider :: "ProviderRef option"

record fleetState =
  fl_latest :: "(string, Proposal) amap"
  fl_latestInput :: "(string, ResolutionInput) amap"
  fl_shippedLookup :: "(string, raw) amap"
  fl_shippedProvider :: "(string, ProviderRef option) amap"
  fl_tombstoned :: "(string, bool) amap"

definition fleet_init :: fleetState where
  "fleet_init = \<lparr>fl_latest = [], fl_latestInput = [], fl_shippedLookup = [], fl_shippedProvider = [],
     fl_tombstoned = []\<rparr>"

definition fleetInput :: "Proposal \<Rightarrow> ResolutionInput \<Rightarrow> fleetState \<Rightarrow> fleetState" where
  "fleetInput p i st =
     (if in_Resource i = [] then st
      else let st = st\<lparr>fl_latest := aput (in_Resource i) p (fl_latest st),
                       fl_latestInput := aput (in_Resource i) i (fl_latestInput st)\<rparr>
           in if in_Kind i \<noteq> ''destroy_target''
              then st\<lparr>fl_tombstoned := aput (in_Resource i) False (fl_tombstoned st)\<rparr> else st)"

definition fleetCreate :: "'s store_ops \<Rightarrow> 's \<Rightarrow> Proposal \<Rightarrow> raw \<Rightarrow> fleetState \<Rightarrow> (err, fleetState) res" where
  "fleetCreate ops s p r st =
     (if \<not> isChangeCreateNode r then Inr st
      else case createNodeAddress r of
        None \<Rightarrow> Inr st
      | Some addr \<Rightarrow> rbind (shippedCreateFold ops s (p_ID p) addr) (\<lambda>shipped.
          case shipped of
            None \<Rightarrow> Inr st
          | Some (result, lookup, at) \<Rightarrow>
              let a = addr_String addr
              in Inr (st\<lparr>fl_latest := aput a p (fl_latest st),
                         fl_shippedLookup := aput a lookup (fl_shippedLookup st),
                         fl_shippedProvider := aput a (createNodeProvider r) (fl_shippedProvider st),
                         fl_tombstoned := aput a False (fl_tombstoned st)\<rparr>)))"

definition fleetDestroy :: "'s store_ops \<Rightarrow> 's \<Rightarrow> Proposal \<Rightarrow> DestroyEntry \<Rightarrow> fleetState \<Rightarrow> (err, fleetState) res" where
  "fleetDestroy ops s p d st = rbind (shippedDestroyFold ops s (p_ID p) (des_Address d)) (\<lambda>shipped.
     Inr (if shipped \<noteq> None
          then st\<lparr>fl_tombstoned := aput (addr_String (des_Address d)) True (fl_tombstoned st)\<rparr> else st))"

definition fleetProposal :: "'s store_ops \<Rightarrow> 's \<Rightarrow> Proposal \<Rightarrow> fleetState \<Rightarrow> (err, fleetState) res" where
  "fleetProposal ops s p st =
     (let st = fold (fleetInput p) (rs_Inputs (p_Resolution p)) st
      in if p_Kind p \<noteq> KindChange then Inr st
         else rbind (fold_res (fleetCreate ops s p) (d_Creates (p_Delta p)) st)
           (fold_res (fleetDestroy ops s p) (d_Destroys (p_Delta p))))"

definition nodeProviderForAddress :: "Proposal \<Rightarrow> Address \<Rightarrow> ProviderRef option" where
  "nodeProviderForAddress p addr =
     (if p_Kind p \<noteq> KindChange then None
      else case find (\<lambda>m. mod_Target m = addr) (d_Modifies (p_Delta p)) of
        Some m \<Rightarrow> mod_Provider m
      | None \<Rightarrow> (case find (\<lambda>d. des_Address d = addr) (d_Destroys (p_Delta p)) of
          Some d \<Rightarrow> des_Provider d
        | None \<Rightarrow> None))"

text \<open>A Go map read of a missing key gives the zero value.\<close>

definition tomb :: "(string, bool) amap \<Rightarrow> string \<Rightarrow> bool" where
  "tomb m a = (map_of m a = Some True)"

definition acceptedAt :: "Proposal \<Rightarrow> string" where
  "acceptedAt p = (case p_Acceptance p of None \<Rightarrow> [] | Some a \<Rightarrow> ac_AcceptedAt a)"

definition providerOf :: "(string, ProviderRef option) amap \<Rightarrow> Proposal \<Rightarrow> Address \<Rightarrow> ProviderRef option" where
  "providerOf shipped p addr = (case nodeProviderForAddress p addr of
      Some x \<Rightarrow> Some x
    | None \<Rightarrow> Option.bind (map_of shipped (addr_String addr)) id)"

definition inStack :: "string \<Rightarrow> Address \<Rightarrow> bool" where
  "inStack stack addr \<longleftrightarrow> stack = [] \<or> addr_Stack addr = stack"

definition fleetEntry :: "fleetState \<Rightarrow> string \<Rightarrow> string \<times> Proposal \<Rightarrow> FleetEntry list" where
  "fleetEntry st stack b =
     (if tomb (fl_tombstoned st) (fst b) then []
      else case ParseAddress (fst b) of
        None \<Rightarrow> []
      | Some addr \<Rightarrow>
          if \<not> inStack stack addr then []
          else
            let lookup0 = Option.bind (map_of (fl_latestInput st) (fst b)) in_Lookup;
                lookup = (if lookup0 = None then Option.bind (map_of (fl_shippedLookup st) (fst b)) id else lookup0)
            in [\<lparr>fe_Address = addr, fe_Kind = p_Kind (snd b), fe_ProposalID = p_ID (snd b),
                 fe_AcceptedAt = acceptedAt (snd b), fe_Lookup = lookup,
                 fe_Provider = providerOf (fl_shippedProvider st) (snd b) addr\<rparr>])"

definition fleetOver :: "'s store_ops \<Rightarrow> 's \<Rightarrow> string \<Rightarrow> Proposal list \<Rightarrow> (err, FleetEntry list) res" where
  "fleetOver ops s stack chain =
     rbind (fold_res (fleetProposal ops s) chain fleet_init) (\<lambda>st.
       Inr (sort_key (\<lambda>e. addr_String (fe_Address e)) (concat (map (fleetEntry st stack) (fl_latest st)))))"

definition Fleet :: "'s store_ops \<Rightarrow> 's \<Rightarrow> string \<Rightarrow> (err, FleetEntry list) res option" where
  "Fleet ops s stack = with_chain (Chain ops s) (fleetOver ops s stack)"

section \<open>The address book\<close>

record AddressEntry =
  ae_Address :: Address
  ae_Kind :: string
  ae_ProposalID :: string
  ae_AcceptedAt :: string
  ae_Provider :: "ProviderRef option"
  ae_Tombstoned :: bool
  ae_TombstonedBy :: string

record bookState =
  bk_latest :: "(string, Proposal) amap"
  bk_shippedProvider :: "(string, ProviderRef option) amap"
  bk_tombstoned :: "(string, bool) amap"
  bk_tombstonedBy :: "(string, string) amap"

definition book_init :: bookState where
  "book_init = \<lparr>bk_latest = [], bk_shippedProvider = [], bk_tombstoned = [], bk_tombstonedBy = []\<rparr>"

definition bookInput :: "Proposal \<Rightarrow> ResolutionInput \<Rightarrow> bookState \<Rightarrow> bookState" where
  "bookInput p i st =
     (if in_Resource i = [] then st
      else let st = st\<lparr>bk_latest := aput (in_Resource i) p (bk_latest st)\<rparr>
           in if in_Kind i \<noteq> ''destroy_target''
              then st\<lparr>bk_tombstoned := aput (in_Resource i) False (bk_tombstoned st)\<rparr> else st)"

definition bookCreate :: "'s store_ops \<Rightarrow> 's \<Rightarrow> Proposal \<Rightarrow> raw \<Rightarrow> bookState \<Rightarrow> (err, bookState) res" where
  "bookCreate ops s p r st =
     (if \<not> isChangeCreateNode r then Inr st
      else case createNodeAddress r of
        None \<Rightarrow> Inr st
      | Some addr \<Rightarrow> rbind (shippedCreateFold ops s (p_ID p) addr) (\<lambda>shipped.
          if shipped = None then Inr st
          else let a = addr_String addr
               in Inr (st\<lparr>bk_latest := aput a p (bk_latest st),
                          bk_shippedProvider := aput a (createNodeProvider r) (bk_shippedProvider st),
                          bk_tombstoned := aput a False (bk_tombstoned st)\<rparr>)))"

definition bookDestroy :: "'s store_ops \<Rightarrow> 's \<Rightarrow> Proposal \<Rightarrow> DestroyEntry \<Rightarrow> bookState \<Rightarrow> (err, bookState) res" where
  "bookDestroy ops s p d st = rbind (shippedDestroyFold ops s (p_ID p) (des_Address d)) (\<lambda>shipped.
     Inr (if shipped \<noteq> None
          then let a = addr_String (des_Address d)
               in st\<lparr>bk_tombstoned := aput a True (bk_tombstoned st),
                     bk_tombstonedBy := aput a (p_ID p) (bk_tombstonedBy st),
                     bk_latest := aput a p (bk_latest st)\<rparr>
          else st))"

definition bookProposal :: "'s store_ops \<Rightarrow> 's \<Rightarrow> Proposal \<Rightarrow> bookState \<Rightarrow> (err, bookState) res" where
  "bookProposal ops s p st =
     (let st = fold (bookInput p) (rs_Inputs (p_Resolution p)) st
      in if p_Kind p \<noteq> KindChange then Inr st
         else rbind (fold_res (bookCreate ops s p) (d_Creates (p_Delta p)) st)
           (fold_res (bookDestroy ops s p) (d_Destroys (p_Delta p))))"

definition bookEntry :: "bookState \<Rightarrow> string \<Rightarrow> bool \<Rightarrow> string \<times> Proposal \<Rightarrow> AddressEntry list" where
  "bookEntry st stack includeTombstoned b =
     (let isTombstoned = tomb (bk_tombstoned st) (fst b)
      in if isTombstoned \<and> \<not> includeTombstoned then []
         else case ParseAddress (fst b) of
           None \<Rightarrow> []
         | Some addr \<Rightarrow>
             if \<not> inStack stack addr then []
             else [\<lparr>ae_Address = addr, ae_Kind = p_Kind (snd b), ae_ProposalID = p_ID (snd b),
                    ae_AcceptedAt = acceptedAt (snd b),
                    ae_Provider = providerOf (bk_shippedProvider st) (snd b) addr,
                    ae_Tombstoned = isTombstoned,
                    ae_TombstonedBy = (case map_of (bk_tombstonedBy st) (fst b) of None \<Rightarrow> [] | Some i \<Rightarrow> i)\<rparr>])"

definition addressesOverChain ::
    "'s store_ops \<Rightarrow> 's \<Rightarrow> Proposal list \<Rightarrow> string \<Rightarrow> bool \<Rightarrow> (err, AddressEntry list) res" where
  "addressesOverChain ops s chain stack includeTombstoned =
     rbind (fold_res (bookProposal ops s) chain book_init) (\<lambda>st.
       Inr (sort_key (\<lambda>e. addr_String (ae_Address e))
         (concat (map (bookEntry st stack includeTombstoned) (bk_latest st)))))"

definition Addresses :: "'s store_ops \<Rightarrow> 's \<Rightarrow> string \<Rightarrow> bool \<Rightarrow> (err, AddressEntry list) res option" where
  "Addresses ops s stack includeTombstoned =
     with_chain (Chain ops s) (\<lambda>chain. addressesOverChain ops s chain stack includeTombstoned)"

definition AddressesAt :: "'s store_ops \<Rightarrow> 's \<Rightarrow> string \<Rightarrow> string \<Rightarrow> bool \<Rightarrow> (err, AddressEntry list) res option" where
  "AddressesAt ops s headID stack includeTombstoned =
     with_chain (ChainFrom ops s headID) (\<lambda>chain. addressesOverChain ops s chain stack includeTombstoned)"

section \<open>The last lookup key\<close>

text \<open>What one proposal says: a shipped create first, a shipped modify next, an input last.\<close>

definition createLookup :: "'s store_ops \<Rightarrow> 's \<Rightarrow> Address \<Rightarrow> Proposal \<Rightarrow> raw \<Rightarrow> (err, raw) res" where
  "createLookup ops s addr p r =
     (if createNodeAddress r \<noteq> Some addr \<or> \<not> isChangeCreateNode r then Inr None
      else rbind (shippedCreateFold ops s (p_ID p) addr) (\<lambda>shipped.
        Inr (case shipped of None \<Rightarrow> None | Some (result, lookup, at) \<Rightarrow> lookup)))"

definition modifyLookup :: "'s store_ops \<Rightarrow> 's \<Rightarrow> Address \<Rightarrow> Proposal \<Rightarrow> Modification \<Rightarrow> (err, raw) res" where
  "modifyLookup ops s addr p m =
     (if mod_Target m \<noteq> addr then Inr None
      else rbind (shippedModifyFold ops s (p_ID p) addr) (\<lambda>shipped. Inr (Option.bind shipped id)))"

definition lookupIn :: "'s store_ops \<Rightarrow> 's \<Rightarrow> Address \<Rightarrow> Proposal \<Rightarrow> (err, raw) res" where
  "lookupIn ops s addr p =
     rbind (if p_Kind p = KindChange
            then rbind (first_res (createLookup ops s addr p) (d_Creates (p_Delta p))) (\<lambda>l.
              case l of
                Some v \<Rightarrow> Inr (Some v)
              | None \<Rightarrow> first_res (modifyLookup ops s addr p) (d_Modifies (p_Delta p)))
            else Inr None) (\<lambda>l.
       case l of
         Some v \<Rightarrow> Inr (Some v)
       | None \<Rightarrow> Inr (Option.bind (find (\<lambda>i. in_Resource i = addr_String addr \<and> in_Lookup i \<noteq> None)
                    (rs_Inputs (p_Resolution p))) in_Lookup))"

definition lastLookupOver :: "'s store_ops \<Rightarrow> 's \<Rightarrow> Address \<Rightarrow> Proposal list \<Rightarrow> (err, raw) res" where
  "lastLookupOver ops s addr chain = first_res (lookupIn ops s addr) (rev chain)"

definition LastLookup :: "'s store_ops \<Rightarrow> 's \<Rightarrow> Address \<Rightarrow> (err, raw) res option" where
  "LastLookup ops s addr = with_chain (Chain ops s) (lastLookupOver ops s addr)"

section \<open>The address book without tombstones is the fleet\<close>

text \<open>
  The two walks differ in what they remember of a destroyed address. They agree on who is destroyed,
  on the addresses with an entry that is not destroyed, and on what is kept for those.
\<close>

definition walks_agree :: "fleetState \<Rightarrow> bookState \<Rightarrow> bool" where
  "walks_agree f b \<longleftrightarrow> fl_tombstoned f = bk_tombstoned b \<and> fl_shippedProvider f = bk_shippedProvider b \<and>
     amap_wf (fl_latest f) \<and> amap_wf (bk_latest b) \<and>
     (\<forall>a. \<not> tomb (fl_tombstoned f) a \<longrightarrow> map_of (fl_latest f) a = map_of (bk_latest b) a)"

lemma tomb_aput [simp]: "tomb (aput a v m) x \<longleftrightarrow> (if x = a then v else tomb m x)"
  by (simp add: tomb_def)

lemma walks_agree_input: "walks_agree f b \<Longrightarrow> walks_agree (fleetInput p i f) (bookInput p i b)"
  by (auto simp: walks_agree_def fleetInput_def bookInput_def Let_def)

lemma walks_agree_create:
  "walks_agree f b \<Longrightarrow> fleetCreate ops s p r f = Inr f' \<Longrightarrow> bookCreate ops s p r b = Inr b' \<Longrightarrow> walks_agree f' b'"
proof (cases "isChangeCreateNode r \<and> createNodeAddress r \<noteq> None")
  case False
  then show "walks_agree f b \<Longrightarrow> fleetCreate ops s p r f = Inr f' \<Longrightarrow> bookCreate ops s p r b = Inr b' \<Longrightarrow> walks_agree f' b'"
    by (auto simp: fleetCreate_def bookCreate_def split: if_splits)
next
  case True
  then obtain a where a: "isChangeCreateNode r" "createNodeAddress r = Some a" by auto
  assume agree: "walks_agree f b" and f: "fleetCreate ops s p r f = Inr f'" and b: "bookCreate ops s p r b = Inr b'"
  obtain x where x: "shippedCreateFold ops s (p_ID p) a = Inr x"
    using f a by (auto simp: fleetCreate_def rbind_Inr_iff)
  show "walks_agree f' b'"
  proof (cases x)
    case None
    then show ?thesis using agree f b a x by (simp add: fleetCreate_def bookCreate_def)
  next
    case (Some y)
    obtain res look at where y: "y = (res, look, at)" by (cases y)
    show ?thesis using agree f [symmetric] b [symmetric] a x Some y
      by (simp add: fleetCreate_def bookCreate_def Let_def walks_agree_def)
  qed
qed

lemma walks_agree_destroy:
  "walks_agree f b \<Longrightarrow> fleetDestroy ops s p d f = Inr f' \<Longrightarrow> bookDestroy ops s p d b = Inr b' \<Longrightarrow> walks_agree f' b'"
proof -
  assume agree: "walks_agree f b" and f: "fleetDestroy ops s p d f = Inr f'" and b: "bookDestroy ops s p d b = Inr b'"
  obtain x where x: "shippedDestroyFold ops s (p_ID p) (des_Address d) = Inr x"
    using f by (auto simp: fleetDestroy_def rbind_Inr_iff)
  show "walks_agree f' b'"
    using agree f [symmetric] b [symmetric] x
    by (simp add: fleetDestroy_def bookDestroy_def Let_def walks_agree_def split: if_splits)
qed

lemma walks_agree_proposal:
  assumes "walks_agree f b" "fleetProposal ops s p f = Inr f'" "bookProposal ops s p b = Inr b'"
  shows "walks_agree f' b'"
proof -
  have "walks_agree (fold (fleetInput p) is f) (fold (bookInput p) is b)" for "is"
    using assms(1) by (induction "is" arbitrary: f b) (simp_all add: walks_agree_input)
  note inputs = this
  show ?thesis
  proof (cases "p_Kind p = KindChange")
    case False
    then show ?thesis using assms(2, 3) inputs by (auto simp: fleetProposal_def bookProposal_def Let_def)
  next
    case True
    then obtain f1 b1 where 1: "fold_res (fleetCreate ops s p) (d_Creates (p_Delta p)) (fold (fleetInput p) (rs_Inputs (p_Resolution p)) f) = Inr f1"
      "fold_res (fleetDestroy ops s p) (d_Destroys (p_Delta p)) f1 = Inr f'"
      "fold_res (bookCreate ops s p) (d_Creates (p_Delta p)) (fold (bookInput p) (rs_Inputs (p_Resolution p)) b) = Inr b1"
      "fold_res (bookDestroy ops s p) (d_Destroys (p_Delta p)) b1 = Inr b'"
      using assms(2, 3) by (auto simp: fleetProposal_def bookProposal_def Let_def rbind_Inr_iff)
    have "walks_agree f1 b1"
      by (rule fold_res_rel [where R = walks_agree, OF walks_agree_create inputs 1(1, 3)])
    show ?thesis
      by (rule fold_res_rel [where R = walks_agree, OF _ _ 1(2, 4)]) (rule walks_agree_destroy, assumption+, fact)
  qed
qed

text \<open>Both walks read the same apply records, so one fails exactly when the other does.\<close>

lemma fold_res_same_error:
  assumes "\<And>x s t e. x \<in> set xs \<Longrightarrow> f x s = Inl e \<longleftrightarrow> g x t = Inl e"
  shows "fold_res f xs s = Inl e \<longleftrightarrow> fold_res g xs t = Inl e"
  using assms
proof (induction xs arbitrary: s t)
  case (Cons x xs)
  have 1: "f x s = Inl e \<longleftrightarrow> g x t = Inl e" for e using Cons.prems by simp
  show ?case
  proof (cases "f x s")
    case (Inl e')
    then show ?thesis using 1 [of e'] by simp
  next
    case (Inr s')
    then obtain t' where "g x t = Inr t'" using 1 by (cases "g x t") auto
    then show ?thesis using Inr Cons by simp
  qed
qed simp

lemma walk_errors:
  "fleetCreate ops s p r f = Inl e \<longleftrightarrow> bookCreate ops s p r b = Inl e"
  "fleetDestroy ops s p d f = Inl e \<longleftrightarrow> bookDestroy ops s p d b = Inl e"
  by (auto simp: fleetCreate_def bookCreate_def fleetDestroy_def bookDestroy_def Let_def rbind_Inl_iff split: option.splits)

lemma proposal_errors: "fleetProposal ops s p f = Inl e \<longleftrightarrow> bookProposal ops s p b = Inl e"
proof -
  let ?f = "fold (fleetInput p) (rs_Inputs (p_Resolution p)) f" and ?b = "fold (bookInput p) (rs_Inputs (p_Resolution p)) b"
  have c: "fold_res (fleetCreate ops s p) cs ?f = Inl e \<longleftrightarrow> fold_res (bookCreate ops s p) cs ?b = Inl e" for cs e
    by (rule fold_res_same_error) (rule walk_errors)
  have d: "fold_res (fleetDestroy ops s p) ds f1 = Inl e \<longleftrightarrow> fold_res (bookDestroy ops s p) ds b1 = Inl e" for ds f1 b1 e
    by (rule fold_res_same_error) (rule walk_errors)
  show ?thesis
  proof (cases "fold_res (fleetCreate ops s p) (d_Creates (p_Delta p)) ?f")
    case (Inl e')
    then have "fold_res (bookCreate ops s p) (d_Creates (p_Delta p)) ?b = Inl e'" using c by blast
    then show ?thesis using Inl by (simp add: fleetProposal_def bookProposal_def Let_def)
  next
    case (Inr f1)
    then obtain b1 where "fold_res (bookCreate ops s p) (d_Creates (p_Delta p)) ?b = Inr b1"
      using c by (metis obj_sumE sum.distinct(1))
    then show ?thesis using Inr d by (auto simp: fleetProposal_def bookProposal_def Let_def)
  qed
qed

text \<open>The entries of a map that pass a test are those of any map that agrees where it matters.\<close>

lemma amap_filter_eq:
  assumes "amap_wf m" "amap_wf n" "\<And>k. P k \<Longrightarrow> map_of m k = map_of n k"
  shows "filter (\<lambda>b. P (fst b)) m = filter (\<lambda>b. P (fst b)) n"
proof -
  have wf: "amap_wf (filter (\<lambda>b. P (fst b)) l)" if "amap_wf l" for l :: "('a, 'b) amap"
    using that unfolding amap_wf_def by (simp add: sorted_wrt_filter sorted_wrt_map)
  have mf: "map_of (filter (\<lambda>b. P (fst b)) l) k = (if P k then map_of l k else None)" for l :: "('a, 'b) amap" and k
    by (induction l) auto
  show ?thesis by (rule amap_ext) (use wf assms in \<open>auto simp: mf fun_eq_iff\<close>)
qed

lemma concat_map_skip: "(\<And>x. \<not> Q x \<Longrightarrow> f x = []) \<Longrightarrow> concat (map f xs) = concat (map f (filter Q xs))"
  by (induction xs) auto

lemma map_insort_key: "(\<And>x. k' (f x) = k x) \<Longrightarrow> map f (insort_key k x xs) = insort_key k' (f x) (map f xs)"
  by (induction xs) auto

lemma map_sort_key: "(\<And>x. k' (f x) = k x) \<Longrightarrow> map f (sort_key k xs) = sort_key k' (map f xs)"
  by (induction xs) (simp_all add: map_insort_key [of k' f k])

text \<open>What both listings say of an address.\<close>

definition fleet_view :: "FleetEntry \<Rightarrow> Address \<times> string \<times> string \<times> string \<times> ProviderRef option" where
  "fleet_view e = (fe_Address e, fe_Kind e, fe_ProposalID e, fe_AcceptedAt e, fe_Provider e)"

definition book_view :: "AddressEntry \<Rightarrow> Address \<times> string \<times> string \<times> string \<times> ProviderRef option" where
  "book_view e = (ae_Address e, ae_Kind e, ae_ProposalID e, ae_AcceptedAt e, ae_Provider e)"

lemma entries_agree:
  assumes "walks_agree f b"
  shows "map fleet_view (concat (map (fleetEntry f stack) (fl_latest f))) =
    map book_view (concat (map (bookEntry b stack False) (bk_latest b)))"
proof -
  let ?live = "\<lambda>x :: string \<times> Proposal. \<not> tomb (fl_tombstoned f) (fst x)"
  have one: "map fleet_view (fleetEntry f stack x) = map book_view (bookEntry b stack False x)" for x
    using assms by (simp add: walks_agree_def fleetEntry_def bookEntry_def fleet_view_def book_view_def Let_def
        split: option.split)
  have "concat (map (fleetEntry f stack) (fl_latest f)) = concat (map (fleetEntry f stack) (filter ?live (fl_latest f)))"
    by (rule concat_map_skip) (simp add: fleetEntry_def)
  moreover have "concat (map (bookEntry b stack False) (bk_latest b)) =
      concat (map (bookEntry b stack False) (filter ?live (bk_latest b)))"
    by (rule concat_map_skip) (use assms in \<open>simp add: bookEntry_def walks_agree_def Let_def\<close>)
  moreover have "filter ?live (fl_latest f) = filter ?live (bk_latest b)"
    by (rule amap_filter_eq) (use assms in \<open>auto simp: walks_agree_def\<close>)
  ultimately show ?thesis by (simp add: map_concat one comp_def)
qed

lemma walks_agree_init: "walks_agree fleet_init book_init"
  by (simp add: walks_agree_def fleet_init_def book_init_def)

lemma addresses_fleet_over:
  "rbind (fleetOver ops s stack chain) (\<lambda>es. Inr (map fleet_view es)) =
   rbind (addressesOverChain ops s chain stack False) (\<lambda>es. Inr (map book_view es))"
proof (cases "fold_res (fleetProposal ops s) chain fleet_init")
  case (Inl e)
  then have "fold_res (bookProposal ops s) chain book_init = Inl e"
    using fold_res_same_error [where f = "fleetProposal ops s" and g = "bookProposal ops s", OF proposal_errors] by blast
  then show ?thesis using Inl by (simp add: fleetOver_def addressesOverChain_def)
next
  case (Inr f)
  then obtain b where b: "fold_res (bookProposal ops s) chain book_init = Inr b"
    using fold_res_same_error [where f = "fleetProposal ops s" and g = "bookProposal ops s", OF proposal_errors]
    by (metis obj_sumE sum.distinct(1))
  have "walks_agree f b"
    by (rule fold_res_rel [where R = walks_agree, OF walks_agree_proposal walks_agree_init Inr b])
  then have "map fleet_view (concat (map (fleetEntry f stack) (fl_latest f))) =
    map book_view (concat (map (bookEntry b stack False) (bk_latest b)))" by (rule entries_agree)
  moreover have "map fleet_view (sort_key (\<lambda>e. addr_String (fe_Address e)) es) =
      sort_key (\<lambda>v. addr_String (fst v)) (map fleet_view es)" for es
    by (rule map_sort_key) (simp add: fleet_view_def)
  moreover have "map book_view (sort_key (\<lambda>e. addr_String (ae_Address e)) es) =
      sort_key (\<lambda>v. addr_String (fst v)) (map book_view es)" for es
    by (rule map_sort_key) (simp add: book_view_def)
  ultimately show ?thesis using Inr b by (simp add: fleetOver_def addressesOverChain_def)
qed

text \<open>
  The address book without tombstones and the fleet are one listing: for every store, head and
  stack they fail with the same error, or list the same addresses in the same order with the same
  kind, proposal, acceptance time and provider.
\<close>

theorem Addresses_is_Fleet:
  "map_option (\<lambda>r. rbind r (\<lambda>es. Inr (map book_view es))) (Addresses ops s stack False) =
   map_option (\<lambda>r. rbind r (\<lambda>es. Inr (map fleet_view es))) (Fleet ops s stack)"
proof -
  have "rbind (rbind c (\<lambda>chain. addressesOverChain ops s chain stack False)) (\<lambda>es. Inr (map book_view es)) =
      rbind (rbind c (fleetOver ops s stack)) (\<lambda>es. Inr (map fleet_view es))" for c
    using addresses_fleet_over [of ops s stack] by (cases c) simp_all
  then show ?thesis by (cases "Chain ops s") (simp_all add: Addresses_def Fleet_def with_chain_def)
qed

section \<open>What has a state is listed\<close>

lemma foldCreate_found:
  assumes "foldCreate ops s addr p r st = Inr st'" "fo_current st \<noteq> None \<longrightarrow> fo_found st"
  shows "(fo_current st' \<noteq> None \<longrightarrow> fo_found st') \<and> (fo_found st' \<longrightarrow> fo_found st \<or>
    createsAddress addr r \<and> (embedsState r \<or>
      isChangeCreateNode r \<and> (\<exists>x. shippedCreateFold ops s (p_ID p) addr = Inr (Some x))))"
proof (cases "createsAddress addr r")
  case False
  then have "st' = st" using assms(1) by (auto simp: foldCreate_def createsAddress_def Let_def split: option.splits if_splits)
  then show ?thesis using assms(2) by simp
next
  case True
  then obtain node where node: "unmarshal_map r = Some node" "get_str (fields_of node) ''stack'' = addr_Stack addr"
    "get_str (fields_of node) ''type'' = addr_Type addr" "get_str (fields_of node) ''name'' = addr_Name addr"
    by (auto simp: createsAddress_def)
  show ?thesis
  proof (cases "embedsState r")
    case True
    then have "fo_found st'" using assms(1) node by (auto simp: foldCreate_def Let_def embedsState_def)
    then show ?thesis using True \<open>createsAddress addr r\<close> by simp
  next
    case False
    then have nostate: "get_obj (fields_of node) ''state'' = None" using node(1) by (simp add: embedsState_def)
    show ?thesis
    proof (cases "map_of (fields_of node) ''config'' = None")
      case True
      then show ?thesis using assms node nostate by (simp add: foldCreate_def Let_def)
    next
      case config: False
      then have "isChangeCreateNode r" using node(1) by (simp add: isChangeCreateNode_def)
      moreover obtain x where x: "shippedCreateFold ops s (p_ID p) addr = Inr x"
        using assms(1) node nostate config by (auto simp: foldCreate_def Let_def rbind_Inr_iff)
      ultimately show ?thesis
        using assms node nostate config \<open>createsAddress addr r\<close>
        by (cases x) (auto simp: foldCreate_def Let_def rbind_Inr_iff)
    qed
  qed
qed

lemma foldCreates_found:
  assumes "fold_res (foldCreate ops s addr p) rs st = Inr st'" "fo_current st \<noteq> None \<longrightarrow> fo_found st"
  shows "(fo_current st' \<noteq> None \<longrightarrow> fo_found st') \<and> (fo_found st' \<longrightarrow> fo_found st \<or>
    (\<exists>r \<in> set rs. createsAddress addr r \<and> (embedsState r \<or>
      isChangeCreateNode r \<and> (\<exists>x. shippedCreateFold ops s (p_ID p) addr = Inr (Some x)))))"
  using assms
proof (induction rs arbitrary: st)
  case (Cons r rs)
  then obtain st1 where st1: "foldCreate ops s addr p r st = Inr st1" "fold_res (foldCreate ops s addr p) rs st1 = Inr st'"
    by (auto split: sum.splits)
  note one = foldCreate_found [OF st1(1) Cons.prems(2)]
  have rest: "(fo_current st' \<noteq> None \<longrightarrow> fo_found st') \<and> (fo_found st' \<longrightarrow> fo_found st1 \<or>
    (\<exists>r \<in> set rs. createsAddress addr r \<and> (embedsState r \<or>
      isChangeCreateNode r \<and> (\<exists>x. shippedCreateFold ops s (p_ID p) addr = Inr (Some x)))))"
    by (rule Cons.IH [OF st1(2)]) (use one in blast)
  then show ?case using one by (simp only: list.set bex_simps) blast
qed simp

lemma foldModifies_found:
  assumes "fold_res (foldModify ops s addr p) ms st = Inr st'" "fo_current st \<noteq> None \<longrightarrow> fo_found st"
  shows "(fo_current st' \<noteq> None \<longrightarrow> fo_found st') \<and> (fo_found st' \<longrightarrow> fo_found st)"
proof -
  have "(fo_current st' \<noteq> None \<longrightarrow> fo_found st') \<and> (fo_found st' \<longrightarrow> fo_found st)"
    if "(fo_current u \<noteq> None \<longrightarrow> fo_found u) \<and> (fo_found u \<longrightarrow> fo_found st)"
      "fold_res (foldModify ops s addr p) ms u = Inr st'" for u
    by (rule fold_res_invar [where P = "\<lambda>u. (fo_current u \<noteq> None \<longrightarrow> fo_found u) \<and> (fo_found u \<longrightarrow> fo_found st)", OF _ that])
      (auto simp: foldModify_def rbind_Inr_iff split: if_splits)
  then show ?thesis using assms by blast
qed

lemma foldDestroys_found:
  assumes "fold_res (foldDestroy ops s addr p) ds st = Inr st'" "fo_current st \<noteq> None \<longrightarrow> fo_found st"
  shows "(fo_current st' \<noteq> None \<longrightarrow> fo_found st') \<and>
    (fo_found st' \<longrightarrow> fo_found st \<and> (\<forall>d \<in> set ds. des_Address d = addr \<longrightarrow> shippedDestroyFold ops s (p_ID p) addr = Inr None))"
  using assms
proof (induction ds arbitrary: st)
  case (Cons d ds)
  then obtain st1 where st1: "foldDestroy ops s addr p d st = Inr st1" "fold_res (foldDestroy ops s addr p) ds st1 = Inr st'"
    by (auto split: sum.splits)
  have one: "(fo_current st1 \<noteq> None \<longrightarrow> fo_found st1) \<and>
    (fo_found st1 \<longrightarrow> fo_found st \<and> (des_Address d = addr \<longrightarrow> shippedDestroyFold ops s (p_ID p) addr = Inr None))"
    using st1(1) Cons.prems(2) by (auto simp: foldDestroy_def rbind_Inr_iff fold_init_def split: if_splits)
  then show ?case using Cons.IH [OF st1(2)] by auto
qed simp

definition listed :: "fleetState \<Rightarrow> string \<Rightarrow> bool" where
  "listed f a \<longleftrightarrow> map_of (fl_latest f) a \<noteq> None \<and> \<not> tomb (fl_tombstoned f) a"

lemma fleetInput_listed:
  "listed f a \<Longrightarrow> listed (fleetInput p i f) a"
  "in_Resource i = a \<Longrightarrow> a \<noteq> [] \<Longrightarrow> in_Kind i \<noteq> ''destroy_target'' \<Longrightarrow> listed (fleetInput p i f) a"
  by (auto simp: listed_def fleetInput_def Let_def)

lemma fleetInputs_listed:
  "listed f a \<or> (\<exists>i \<in> set is. in_Resource i = a \<and> a \<noteq> [] \<and> in_Kind i \<noteq> ''destroy_target'') \<Longrightarrow>
   listed (fold (fleetInput p) is f) a"
  by (induction "is" arbitrary: f) (auto simp: fleetInput_listed)

lemma fleetCreate_listed:
  assumes "fleetCreate ops s p r f = Inr f'"
  shows "listed f a \<Longrightarrow> listed f' a"
    and "isChangeCreateNode r \<Longrightarrow> createNodeAddress r = Some addr \<Longrightarrow> shippedCreateFold ops s (p_ID p) addr = Inr (Some x) \<Longrightarrow>
      listed f' (addr_String addr)"
  using assms [symmetric]
  by (auto simp: fleetCreate_def listed_def Let_def rbind_def split: if_splits option.splits sum.splits prod.splits)

lemma fleetCreates_listed:
  assumes "fold_res (fleetCreate ops s p) rs f = Inr f'"
    and "listed f (addr_String addr) \<or> (\<exists>r \<in> set rs. isChangeCreateNode r \<and> createNodeAddress r = Some addr \<and>
      (\<exists>x. shippedCreateFold ops s (p_ID p) addr = Inr (Some x)))"
  shows "listed f' (addr_String addr)"
  using assms
proof (induction rs arbitrary: f)
  case (Cons r rs)
  then obtain f1 where f1: "fleetCreate ops s p r f = Inr f1" "fold_res (fleetCreate ops s p) rs f1 = Inr f'"
    by (auto split: sum.splits)
  show ?case by (rule Cons.IH [OF f1(2)]) (use Cons.prems(2) fleetCreate_listed [OF f1(1)] in auto)
qed simp

lemma fleetDestroys_listed:
  assumes "fold_res (fleetDestroy ops s p) ds f = Inr f'" "listed f a"
    and "\<forall>d \<in> set ds. addr_String (des_Address d) = a \<longrightarrow> shippedDestroyFold ops s (p_ID p) (des_Address d) = Inr None"
  shows "listed f' a"
  by (rule fold_res_invar [where P = "\<lambda>f. listed f a", OF _ assms(2, 1)])
    (use assms(3) in \<open>auto simp: fleetDestroy_def listed_def rbind_Inr_iff split: if_splits\<close>)

text \<open>
  The shape acceptance gives the proposals about an address: destroys and configured creates belong
  to changes, a create that carries a state comes with an observation of the resource, and no other
  destroyed address prints like this one.
\<close>

definition recorded_as_accepted :: "Address \<Rightarrow> Proposal \<Rightarrow> bool" where
  "recorded_as_accepted addr p \<longleftrightarrow>
     (p_Kind p \<noteq> KindChange \<longrightarrow> (\<forall>d \<in> set (d_Destroys (p_Delta p)). des_Address d \<noteq> addr) \<and>
        (\<forall>r \<in> set (d_Creates (p_Delta p)). createsAddress addr r \<longrightarrow> embedsState r)) \<and>
     (\<forall>r \<in> set (d_Creates (p_Delta p)). createsAddress addr r \<and> embedsState r \<longrightarrow>
        (\<exists>i \<in> set (rs_Inputs (p_Resolution p)). in_Resource i = addr_String addr \<and> in_Kind i \<noteq> ''destroy_target'')) \<and>
     (\<forall>d \<in> set (d_Destroys (p_Delta p)). addr_String (des_Address d) = addr_String addr \<longrightarrow> des_Address d = addr)"

lemma addr_String_ne [simp]: "addr_String a \<noteq> []"
  by (simp add: addr_String_def)

lemma createNodeAddress_creates: "addr_ok addr \<Longrightarrow> createsAddress addr r \<Longrightarrow> createNodeAddress r = Some addr"
  by (cases addr) (auto simp: createsAddress_def createNodeAddress_def addr_ok_def Let_def)

lemma found_listed_step:
  assumes fold: "foldProposal ops s addr p st = Inr st'" and fleet: "fleetProposal ops s p f = Inr f'"
    and p: "recorded_as_accepted addr p" and addr: "addr_ok addr"
    and inv: "fo_current st \<noteq> None \<longrightarrow> fo_found st" "fo_found st \<longrightarrow> listed f (addr_String addr)"
  shows "(fo_current st' \<noteq> None \<longrightarrow> fo_found st') \<and> (fo_found st' \<longrightarrow> listed f' (addr_String addr))"
proof -
  obtain st1 st2 where st: "fold_res (foldCreate ops s addr p) (d_Creates (p_Delta p)) st = Inr st1"
    "fold_res (foldModify ops s addr p) (d_Modifies (p_Delta p)) st1 = Inr st2"
    "fold_res (foldDestroy ops s addr p) (d_Destroys (p_Delta p)) st2 = Inr st'"
    using fold by (auto simp: foldProposal_def rbind_Inr_iff)
  note c = foldCreates_found [OF st(1) inv(1)]
  note m = foldModifies_found [OF st(2) c [THEN conjunct1]]
  note d = foldDestroys_found [OF st(3) m [THEN conjunct1]]
  let ?f1 = "fold (fleetInput p) (rs_Inputs (p_Resolution p)) f" and ?a = "addr_String addr"
  have "listed f' ?a" if found: "fo_found st'"
  proof -
    have nodestroy: "\<forall>d \<in> set (d_Destroys (p_Delta p)). des_Address d = addr \<longrightarrow>
        shippedDestroyFold ops s (p_ID p) addr = Inr None" and "fo_found st1"
      using d m found by blast+
    then consider "fo_found st"
      | r where "r \<in> set (d_Creates (p_Delta p))" "createsAddress addr r" "embedsState r"
      | r x where "r \<in> set (d_Creates (p_Delta p))" "createsAddress addr r" "\<not> embedsState r" "isChangeCreateNode r"
          "shippedCreateFold ops s (p_ID p) addr = Inr (Some x)"
      using c by blast
    then have start: "listed ?f1 ?a \<or> p_Kind p = KindChange \<and> (\<exists>r \<in> set (d_Creates (p_Delta p)). isChangeCreateNode r \<and>
        createNodeAddress r = Some addr \<and> (\<exists>x. shippedCreateFold ops s (p_ID p) addr = Inr (Some x)))"
    proof cases
      case 1
      then show ?thesis using inv(2) by (intro disjI1 fleetInputs_listed) simp
    next
      case 2
      then have "\<exists>i \<in> set (rs_Inputs (p_Resolution p)). in_Resource i = ?a \<and> in_Kind i \<noteq> ''destroy_target''"
        using p by (auto simp: recorded_as_accepted_def)
      then show ?thesis by (intro disjI1, intro fleetInputs_listed, intro disjI2) auto
    next
      case 3
      then have "p_Kind p = KindChange" using p by (auto simp: recorded_as_accepted_def)
      then show ?thesis using 3 createNodeAddress_creates [OF addr 3(2)] by blast
    qed
    show ?thesis
    proof (cases "p_Kind p = KindChange")
      case False
      then show ?thesis using start fleet by (simp add: fleetProposal_def Let_def)
    next
      case True
      then obtain f2 where f2: "fold_res (fleetCreate ops s p) (d_Creates (p_Delta p)) ?f1 = Inr f2"
        "fold_res (fleetDestroy ops s p) (d_Destroys (p_Delta p)) f2 = Inr f'"
        using fleet by (auto simp: fleetProposal_def Let_def rbind_Inr_iff)
      have "listed f2 ?a" by (rule fleetCreates_listed [OF f2(1)]) (use start in blast)
      then show ?thesis
        by (rule fleetDestroys_listed [OF f2(2)]) (use nodestroy p in \<open>auto simp: recorded_as_accepted_def\<close>)
    qed
  qed
  then show ?thesis using d by blast
qed

lemma fleetEntry_listed:
  assumes "listed f (addr_String addr)" "addr_ok addr" "inStack stack addr"
  shows "\<exists>e \<in> set (concat (map (fleetEntry f stack) (fl_latest f))). fe_Address e = addr"
proof -
  obtain p where "(addr_String addr, p) \<in> set (fl_latest f)"
    using assms(1) by (auto simp: listed_def dest: map_of_SomeD)
  moreover have "\<exists>e \<in> set (fleetEntry f stack (addr_String addr, p)). fe_Address e = addr"
    using assms by (simp add: fleetEntry_def listed_def ParseAddress_String Let_def)
  ultimately show ?thesis by auto
qed

text \<open>
  The two walks of the chain are in lockstep: on a chain of proposals shaped as acceptance
  leaves them, a resource that FoldState finds is listed by the fleet of its stack and by the fleet
  of all stacks, so nothing with a recorded state escapes a scan of the fleet.
\<close>

theorem found_is_listed:
  assumes "addr_ok addr" "\<forall>p \<in> set chain. recorded_as_accepted addr p"
    and "foldStateOverChain ops s chain addr = Inr r" "fr_Found r"
    and "fleetOver ops s stack chain = Inr es" "inStack stack addr"
  shows "\<exists>e \<in> set es. fe_Address e = addr"
proof -
  obtain st f where st: "fold_res (foldProposal ops s addr) chain fold_init = Inr st" "fo_found st"
    and f: "fold_res (fleetProposal ops s) chain fleet_init = Inr f"
      "es = sort_key (\<lambda>e. addr_String (fe_Address e)) (concat (map (fleetEntry f stack) (fl_latest f)))"
    using assms(3, 4, 5) by (auto simp: foldStateOverChain_def fleetOver_def rbind_Inr_iff split: if_splits)
  let ?R = "\<lambda>st f. (fo_current st \<noteq> None \<longrightarrow> fo_found st) \<and> (fo_found st \<longrightarrow> listed f (addr_String addr))"
  have "?R st f"
  proof (rule fold_res_rel [where R = ?R, OF _ _ st(1) f(1)])
    show "?R st' f'" if "p \<in> set chain" "?R st f" "foldProposal ops s addr p st = Inr st'" "fleetProposal ops s p f = Inr f'"
      for p st f st' f'
      using found_listed_step [OF that(3, 4) _ assms(1)] that(1, 2) assms(2) by blast
  qed (simp add: fold_init_def)
  then have "listed f (addr_String addr)" using st(2) by blast
  then show ?thesis using fleetEntry_listed [OF _ assms(1, 6)] f(2) by simp
qed

definition sample_adopted :: Proposal where
  "sample_adopted = sample_proposal ''a'' [] ''adoption''
     \<lparr>d_Creates = [Some (sample_node ''state'' (GObj []))], d_Modifies = [], d_Destroys = []\<rparr>
     [sample_input ''live_state'' ''s.t.n'' ''h'' (Some (GObj []))] \<lparr>br_Creates = 0, br_Modifies = 0, br_Destroys = 0\<rparr>"

lemma found_is_listed_witness:
  "\<exists>e \<in> set (projr (fleetOver git_ops git_empty ''s'' [sample_adopted])). fe_Address e = Address ''s'' ''t'' ''n''"
proof (rule found_is_listed)
  show "addr_ok (Address ''s'' ''t'' ''n'')" by (simp add: addr_ok_def)
  show "\<forall>p \<in> set [sample_adopted]. recorded_as_accepted (Address ''s'' ''t'' ''n'') p"
    by (simp add: recorded_as_accepted_def sample_adopted_def sample_proposal_def sample_input_def addr_String_def
        createsAddress_def embedsState_def sample_node_def unmarshal_map_def fields_of_def get_obj_def get_str_def)
  let ?r = "projr (foldStateOverChain git_ops git_empty [sample_adopted] (Address ''s'' ''t'' ''n''))"
  show "foldStateOverChain git_ops git_empty [sample_adopted] (Address ''s'' ''t'' ''n'') = Inr ?r" by code_simp
  show "fr_Found ?r" by code_simp
  show "fleetOver git_ops git_empty ''s'' [sample_adopted] = Inr (projr (fleetOver git_ops git_empty ''s'' [sample_adopted]))"
    by code_simp
  show "inStack ''s'' (Address ''s'' ''t'' ''n'')" by code_simp
qed

section \<open>Addresses that come back\<close>

text \<open>
  An address that was destroyed and is then recorded again is active, and yet its entry still
  names the proposal that once destroyed it.
\<close>

theorem address_book_keeps_tombstonedBy:
  "map (\<lambda>e. (ae_Address e, ae_Tombstoned e, ae_TombstonedBy e)) (projr (addressesOverChain git_ops
     (sample_applied ResourceApplied None) [sample_change [] [sample_destroy], sample_adopted] [] True)) =
   [(Address ''s'' ''t'' ''n'', False, sample_sha [])]"
  by code_simp

section \<open>A modify's own lookup key wins\<close>

text \<open>
  When the last change of a chain modified a resource, shipped it and recorded the lookup key
  the provider returned, that key is the one LastLookup answers, whatever key the same proposal was
  resolved with and whatever earlier proposals recorded.
\<close>

theorem LastLookup_shipped_modify:
  assumes "p_Kind p = KindChange" "\<forall>r \<in> set (d_Creates (p_Delta p)). createNodeAddress r \<noteq> Some addr"
    and "m \<in> set (d_Modifies (p_Delta p))" "mod_Target m = addr"
    and "shippedModifyFold ops s (p_ID p) addr = Inr (Some (Some lookup))"
  shows "lastLookupOver ops s addr (chain @ [p]) = Inr (Some lookup)"
proof -
  have "first_res (createLookup ops s addr p) (d_Creates (p_Delta p)) = Inr None"
    by (rule first_res_none) (use assms(2) in \<open>simp add: createLookup_def\<close>)
  moreover have "first_res (modifyLookup ops s addr p) (d_Modifies (p_Delta p)) = Inr (Some lookup)"
    by (rule first_res_same) (use assms(3-5) in \<open>auto simp: modifyLookup_def\<close>)
  ultimately show ?thesis using assms(1) by (simp add: lastLookupOver_def lookupIn_def)
qed

definition sample_modify :: Modification where
  "sample_modify = \<lparr>mod_Target = Address ''s'' ''t'' ''n'', mod_Before = [], mod_After = [], mod_DependsOn = [],
     mod_Provider = None, mod_Sources = []\<rparr>"

definition sample_modified :: git_store where
  "sample_modified = holding (sample_attempt\<lparr>ar_Resources :=
     [(sample_ra ResourceApplied None)\<lparr>rap_Lookup := Some (GObj [(''id'', GStr ''new'')])\<rparr>]\<rparr>)"

lemma LastLookup_shipped_modify_witness:
  "lastLookupOver git_ops sample_modified (Address ''s'' ''t'' ''n'') ([] @ [sample_proposal (sample_sha []) [] ''change''
     \<lparr>d_Creates = [], d_Modifies = [sample_modify], d_Destroys = []\<rparr>
     [sample_input ''live_state'' ''s.t.n'' ''h'' (Some (GObj [(''id'', GStr ''old'')]))]
     \<lparr>br_Creates = 0, br_Modifies = 1, br_Destroys = 0\<rparr>]) = Inr (Some (GObj [(''id'', GStr ''new'')]))"
  by (rule LastLookup_shipped_modify [where m = sample_modify]) code_simp+

end
