(* ===== verification/Verify.thy ===== *)
theory Verify
  imports Apply
begin

text \<open>
  core/verify.go: the offline check of a whole ledger. It walks the parent links itself, guarded
  against cycles, recomputes every content hash, taints what is built on a tampered proposal, checks
  the redaction markers and the sealed apply records. The text of a finding's detail is left out.
\<close>

section \<open>Findings\<close>

datatype FindingKind =
    FindingHashMismatch
  | FindingTaintedDescendant
  | FindingMissingParent
  | FindingCorruptEntry
  | FindingCycle
  | FindingRedactedMalformed
  | FindingCorruptApply
  | FindingApplyHashMismatch
  | FindingApplyChainBreak

record ChainFinding =
  cf_ProposalID :: string
  cf_Kind :: FindingKind

record VerifyResult =
  vr_ProposalsChecked :: int
  vr_ChainIntact :: bool
  vr_Findings :: "ChainFinding list"
  vr_Proposals :: "Proposal list"

definition finding :: "string \<Rightarrow> FindingKind \<Rightarrow> ChainFinding" where
  "finding i k = \<lparr>cf_ProposalID = i, cf_Kind = k\<rparr>"

text \<open>Every place that appends a finding also clears the intact flag.\<close>

definition report :: "ChainFinding list \<Rightarrow> VerifyResult \<Rightarrow> VerifyResult" where
  "report fs r = (if fs = [] then r
     else r\<lparr>vr_Findings := vr_Findings r @ fs, vr_ChainIntact := False\<rparr>)"

section \<open>Redaction markers\<close>

definition wellFormedRedactedInner :: "gval \<Rightarrow> bool" where
  "wellFormedRedactedInner inner = (case inner of
      GObj m \<Rightarrow> length m = 1 \<and> (case map_of m ''sha256'' of Some (GStr sha) \<Rightarrow> IsHash sha | _ \<Rightarrow> False)
    | _ \<Rightarrow> False)"

function malformed_in :: "gval \<Rightarrow> string \<Rightarrow> string list" where
  "malformed_in v path = (case v of
      GObj t \<Rightarrow>
        (case map_of t RedactedMarkerKey of
          Some inner \<Rightarrow>
            if length t = 1 then (if wellFormedRedactedInner inner then [] else [path])
            else concat (map (\<lambda>b. malformed_in (snd b) (path @ ''.'' @ fst b)) t)
        | None \<Rightarrow> concat (map (\<lambda>b. malformed_in (snd b) (path @ ''.'' @ fst b)) t))
    | GArr t \<Rightarrow>
        concat (map (\<lambda>b. malformed_in (snd b) (path @ ''['' @ int_text (int (fst b)) @ '']''))
          (zip [0..<length t] t))
    | _ \<Rightarrow> [])"
  by pat_completeness auto
termination
proof (relation "measure (\<lambda>(v, path). size v)")
  fix v t and b :: "nat \<times> gval"
  assume "v = GArr t" "b \<in> set (zip [0..<length t] t)"
  moreover then have "snd b \<in> set t" by (cases b) (auto dest: set_zip_rightD)
  ultimately show "((snd b, path), (v, path')) \<in> measure (\<lambda>(v, path). size v)" for path path' :: string
    using gval_size_arr by (simp add: less_SucI)
qed (auto simp: termination_simp)

declare malformed_in.simps [simp del]

definition malformedRedactedPaths :: "Proposal \<Rightarrow> string list" where
  "malformedRedactedPaths p = (case plain (json_Proposal p) of None \<Rightarrow> [] | Some tree \<Rightarrow> malformed_in tree ''$'')"

section \<open>The apply records of a proposal\<close>

definition checkAttempt ::
    "(string \<Rightarrow> string) \<Rightarrow> string \<Rightarrow> ApplyRecord \<Rightarrow> ChainFinding list \<times> string \<Rightarrow> ChainFinding list \<times> string" where
  "checkAttempt sha proposalID a st =
     (if \<not> Sealed a then st
      else (fst st @
          (if ApplyHash sha a \<noteq> Inr (ar_ID a) then [finding proposalID FindingApplyHashMismatch] else []) @
          (if ar_Parent a \<noteq> snd st then [finding proposalID FindingApplyChainBreak] else []), ar_ID a))"

definition verifyApplyChain ::
    "(string \<Rightarrow> string) \<Rightarrow> 's store_ops \<Rightarrow> 's \<Rightarrow> string \<Rightarrow> (err, ChainFinding list) res" where
  "verifyApplyChain sha ops s proposalID = (case ApplyAttempts ops s proposalID of
      Inl e \<Rightarrow> if e = ErrCorruptApplyRecord then Inl e else Inr []
    | Inr attempts \<Rightarrow> Inr (fst (fold (checkAttempt sha proposalID) attempts ([], []))))"

section \<open>The walk and the check\<close>

text \<open>The steps come out oldest first, as after the reversal in the code.\<close>

partial_function (option) verify_walk ::
    "'s store_ops \<Rightarrow> 's \<Rightarrow> string \<Rightarrow> string list \<Rightarrow> (string \<times> Proposal) list \<Rightarrow>
     ((string \<times> Proposal) list \<times> ChainFinding list) option" where
  "verify_walk ops s i seen steps =
     (if i = [] then Some (steps, [])
      else if i \<in> set seen then Some (steps, [finding i FindingCycle])
      else case Read ops s i of
        Inl e \<Rightarrow> Some (steps, [finding i (if e = ErrProposalNotFound then FindingMissingParent else FindingCorruptEntry)])
      | Inr p \<Rightarrow> verify_walk ops s (p_Parent p) (i # seen) ((i, p) # steps))"

definition hash_findings :: "(string \<Rightarrow> string) \<Rightarrow> string \<times> Proposal \<Rightarrow> bool \<Rightarrow> ChainFinding list \<times> bool" where
  "hash_findings sha st tainted =
     (if Hash sha (snd st) \<noteq> Inr (fst st) then ([finding (fst st) FindingHashMismatch], True)
      else if tainted then ([finding (fst st) FindingTaintedDescendant], True)
      else ([], False))"

definition apply_findings :: "(string \<Rightarrow> string) \<Rightarrow> 's store_ops \<Rightarrow> 's \<Rightarrow> string \<Rightarrow> ChainFinding list" where
  "apply_findings sha ops s i = (case verifyApplyChain sha ops s i of
      Inl e \<Rightarrow> [finding i FindingCorruptApply] | Inr fs \<Rightarrow> fs)"

definition verify_step ::
    "(string \<Rightarrow> string) \<Rightarrow> 's store_ops \<Rightarrow> 's \<Rightarrow> string \<times> Proposal \<Rightarrow> VerifyResult \<times> bool \<Rightarrow> VerifyResult \<times> bool" where
  "verify_step sha ops s st acc =
     (let r = fst acc;
          r = r\<lparr>vr_ProposalsChecked := vr_ProposalsChecked r + 1, vr_Proposals := vr_Proposals r @ [snd st]\<rparr>;
          (hf, tainted) = hash_findings sha st (snd acc);
          r = report hf r;
          r = report (map (\<lambda>path. finding (fst st) FindingRedactedMalformed) (malformedRedactedPaths (snd st))) r;
          r = report (apply_findings sha ops s (fst st)) r
      in (r, tainted))"

definition VerifyChain ::
    "(string \<Rightarrow> string) \<Rightarrow> 's store_ops \<Rightarrow> 's \<Rightarrow> (err, VerifyResult) res option" where
  "VerifyChain sha ops s = (case so_Head ops s of
      Inl e \<Rightarrow> Some (Inl e)
    | Inr head \<Rightarrow>
        let result = \<lparr>vr_ProposalsChecked = 0, vr_ChainIntact = True, vr_Findings = [], vr_Proposals = []\<rparr>
        in if head = [] then Some (Inr result)
           else map_option (\<lambda>w. Inr (fst (fold (verify_step sha ops s) (fst w) (report (snd w) result, False))))
                  (verify_walk ops s head [] []))"

section \<open>What the report holds\<close>

definition step_findings ::
    "(string \<Rightarrow> string) \<Rightarrow> 's store_ops \<Rightarrow> 's \<Rightarrow> string \<times> Proposal \<Rightarrow> bool \<Rightarrow> ChainFinding list" where
  "step_findings sha ops s st tainted = fst (hash_findings sha st tainted) @
     map (\<lambda>path. finding (fst st) FindingRedactedMalformed) (malformedRedactedPaths (snd st)) @
     apply_findings sha ops s (fst st)"

fun all_findings ::
    "(string \<Rightarrow> string) \<Rightarrow> 's store_ops \<Rightarrow> 's \<Rightarrow> bool \<Rightarrow> (string \<times> Proposal) list \<Rightarrow> ChainFinding list" where
  "all_findings sha ops s tainted [] = []"
| "all_findings sha ops s tainted (st # sts) = step_findings sha ops s st tainted @
     all_findings sha ops s (snd (hash_findings sha st tainted)) sts"

lemma report_eq: "report fs r = r\<lparr>vr_Findings := vr_Findings r @ fs, vr_ChainIntact := vr_ChainIntact r \<and> fs = []\<rparr>"
  by (simp add: report_def)

lemma verify_step_eq:
  "verify_step sha ops s st (r, t) =
    (r\<lparr>vr_ProposalsChecked := vr_ProposalsChecked r + 1, vr_Proposals := vr_Proposals r @ [snd st],
       vr_Findings := vr_Findings r @ step_findings sha ops s st t,
       vr_ChainIntact := vr_ChainIntact r \<and> step_findings sha ops s st t = []\<rparr>, snd (hash_findings sha st t))"
  by (simp add: verify_step_def report_eq step_findings_def Let_def split: prod.split)

lemma fold_verify_step:
  "fst (fold (verify_step sha ops s) sts (r, t)) =
     r\<lparr>vr_ProposalsChecked := vr_ProposalsChecked r + int (length sts), vr_Proposals := vr_Proposals r @ map snd sts,
       vr_Findings := vr_Findings r @ all_findings sha ops s t sts,
       vr_ChainIntact := vr_ChainIntact r \<and> all_findings sha ops s t sts = []\<rparr>"
  by (induction sts arbitrary: r t) (simp_all add: verify_step_eq)

text \<open>The steps of a walk that reaches genesis, oldest first.\<close>

definition steps_of :: "string \<Rightarrow> Proposal list \<Rightarrow> (string \<times> Proposal) list" where
  "steps_of h ps = rev (zip (h # map p_Parent ps) ps)"

lemma steps_of_simps [simp]:
  "steps_of h [] = []" "steps_of h (p # ps) = steps_of (p_Parent p) ps @ [(h, p)]"
  by (simp_all add: steps_of_def)

lemma map_snd_steps_of [simp]: "map snd (steps_of h ps) = rev ps"
  by (induction ps arbitrary: h) auto

lemma length_steps_of [simp]: "length (steps_of h ps) = length ps"
  by (induction ps arbitrary: h) auto

lemma verify_walk_linked:
  "linked ops s i ps \<Longrightarrow> set seen \<inter> insert i (p_Parent ` set ps) = {} \<Longrightarrow>
   verify_walk ops s i seen steps = Some (steps_of i ps @ steps, [])"
proof (induction ps arbitrary: i seen steps)
  case Nil
  then show ?case by (simp add: verify_walk.simps)
next
  case (Cons p ps)
  have "p_Parent q \<noteq> i" if "q \<in> set (p # ps)" for q
    using linked_no_cycle [OF Cons.prems(1) that] .
  then have "set (i # seen) \<inter> insert (p_Parent p) (p_Parent ` set ps) = {}"
    using Cons.prems(2) by auto
  with Cons.IH [of "p_Parent p"] Cons.prems show ?case
    by (simp add: verify_walk.simps [of ops s i])
qed

lemma linked_walk:
  "verify_walk ops s i seen steps = Some r \<Longrightarrow> snd r = [] \<Longrightarrow>
   \<exists>ps. linked ops s i ps \<and> fst r = steps_of i ps @ steps"
proof (induction rule: verify_walk.raw_induct [rotated, consumes 1, case_names 1])
  case (1 walk ops s i seen steps r)
  show ?case
  proof (cases "i = []")
    case True
    then show ?thesis using 1(2, 3) by (intro exI [of _ "[]"]) auto
  next
    case False
    then obtain p where p: "Read ops s i = Inr p" "walk ops s (p_Parent p) (i # seen) ((i, p) # steps) = Some r"
      using 1(2, 3) by (auto split: sum.splits if_splits)
    from 1(1) [OF p(2) 1(3)] obtain ps where "linked ops s (p_Parent p) ps"
      "fst r = steps_of (p_Parent p) ps @ (i, p) # steps" by blast
    then show ?thesis using False p(1) by (intro exI [of _ "p # ps"]) simp
  qed
qed

text \<open>The whole report of a ledger whose links reach genesis.\<close>

lemma VerifyChain_linked:
  assumes "so_Head ops s = Inr h" "linked ops s h ps"
  shows "VerifyChain sha ops s = Some (Inr
    \<lparr>vr_ProposalsChecked = int (length ps), vr_ChainIntact = (all_findings sha ops s False (steps_of h ps) = []),
     vr_Findings = all_findings sha ops s False (steps_of h ps), vr_Proposals = rev ps\<rparr>)"
proof (cases "h = []")
  case True
  then show ?thesis using assms by (cases ps) (simp_all add: VerifyChain_def)
next
  case False
  have "verify_walk ops s h [] [] = Some (steps_of h ps, [])"
    using verify_walk_linked [OF assms(2), of "[]" "[]"] by simp
  then show ?thesis using assms(1) False by (simp add: VerifyChain_def report_def fold_verify_step)
qed

lemma VerifyChain_intact:
  assumes "VerifyChain sha ops s = Some (Inr r)" "vr_ChainIntact r" "so_Head ops s = Inr h"
  shows "\<exists>ps. linked ops s h ps \<and> vr_Proposals r = rev ps \<and> all_findings sha ops s False (steps_of h ps) = []"
proof (cases "h = []")
  case True
  then show ?thesis using assms by (intro exI [of _ "[]"]) (auto simp: VerifyChain_def)
next
  case False
  obtain w where w: "verify_walk ops s h [] [] = Some w"
    and r: "r = fst (fold (verify_step sha ops s) (fst w) (report (snd w)
      \<lparr>vr_ProposalsChecked = 0, vr_ChainIntact = True, vr_Findings = [], vr_Proposals = []\<rparr>, False))"
    using assms(1, 3) False by (auto simp: VerifyChain_def)
  have "snd w = []" using assms(2) by (simp add: r fold_verify_step report_eq)
  then obtain ps where "linked ops s h ps" "fst w = steps_of h ps" using linked_walk [OF w] by auto
  then show ?thesis using assms(2) by (intro exI [of _ ps]) (simp add: r fold_verify_step report_eq)
qed

lemma all_findings_hashes:
  "all_findings sha ops s t sts = [] \<Longrightarrow> st \<in> set sts \<Longrightarrow> Hash sha (snd st) = Inr (fst st)"
  by (induction sts arbitrary: t) (auto simp: step_findings_def hash_findings_def split: if_splits)

section \<open>Verification always returns\<close>

text \<open>A directory holds finitely many proposals, and no identifier is visited twice.\<close>

lemma git_verify_walk_returns: "\<exists>w. verify_walk git_ops g i seen steps = Some w"
proof (induction "card (fst ` set (gs_Proposals g) - set seen)" arbitrary: i seen steps rule: less_induct)
  case less
  show ?case
  proof (cases "i = [] \<or> i \<in> set seen \<or> (\<exists>e. Read git_ops g i = Inl e)")
    case True
    then show ?thesis by (auto simp: verify_walk.simps [of git_ops g i] split: sum.split)
  next
    case False
    then obtain p where p: "Read git_ops g i = Inr p" by (cases "Read git_ops g i") auto
    then obtain b where "map_of (gs_Proposals g) i = Some b"
      by (auto simp: Read_Inr git_ReadProposal_def of_opt_Inr_iff)
    then have i: "i \<in> fst ` set (gs_Proposals g)" by (metis map_of_SomeD fst_conv image_eqI)
    have "card (fst ` set (gs_Proposals g) - set (i # seen)) < card (fst ` set (gs_Proposals g) - set seen)"
      by (rule psubset_card_mono) (use i False in auto)
    from less [OF this, of "p_Parent p" "(i, p) # steps"] p False show ?thesis
      by (simp add: verify_walk.simps [of git_ops g i])
  qed
qed

text \<open>
  C33. Offline verification of a directory returns on every input, tampered or not: with the error
  of reading the head when there is one, and with a report otherwise, which says intact exactly when
  it has no finding.
\<close>

theorem git_verify_returns:
  "(case git_Head g of
      Inl e \<Rightarrow> VerifyChain sha git_ops g = Some (Inl e)
    | Inr h \<Rightarrow> (\<exists>r. VerifyChain sha git_ops g = Some (Inr r) \<and> vr_ChainIntact r = (vr_Findings r = []) \<and>
        vr_ProposalsChecked r = int (length (vr_Proposals r))))"
proof (cases "git_Head g")
  case (Inl e)
  then show ?thesis by (simp add: VerifyChain_def)
next
  case (Inr h)
  obtain w where w: "verify_walk git_ops g h [] [] = Some w" using git_verify_walk_returns by blast
  have "length (fst w) = length (map snd (fst w))" by simp
  then show ?thesis using Inr w
    by (cases "h = []") (auto simp: VerifyChain_def fold_verify_step report_eq)
qed

lemma chain_loop_never:
  "chain_loop ops s i acc = Some r \<Longrightarrow> i \<in> S \<Longrightarrow>
   \<forall>j \<in> S. j \<noteq> [] \<and> (\<exists>p. Read ops s j = Inr p \<and> p_Parent p \<in> S) \<Longrightarrow> False"
proof (induction rule: chain_loop.raw_induct [rotated, consumes 1, case_names 1])
  case (1 loop ops s i acc r)
  then obtain p where p: "Read ops s i = Inr p" "p_Parent p \<in> S" "i \<noteq> []" by blast
  then have "loop ops s (p_Parent p) (p # acc) = Some r" using 1(2) by simp
  then show ?case using 1(1) p(2) 1(4) by blast
qed

lemma verify_walk_cycle:
  "verify_walk ops s i seen steps = Some w \<Longrightarrow> i \<in> S \<Longrightarrow>
   \<forall>j \<in> S. j \<noteq> [] \<and> (\<exists>p. Read ops s j = Inr p \<and> p_Parent p \<in> S) \<Longrightarrow>
   \<exists>j \<in> S. snd w = [finding j FindingCycle]"
proof (induction rule: verify_walk.raw_induct [rotated, consumes 1, case_names 1])
  case (1 walk ops s i seen steps w)
  then obtain p where p: "Read ops s i = Inr p" "p_Parent p \<in> S" "i \<noteq> []" by blast
  show ?case
  proof (cases "i \<in> set seen")
    case True
    then show ?thesis using 1(2, 3) p(3) by auto
  next
    case False
    then have "walk ops s (p_Parent p) (i # seen) ((i, p) # steps) = Some w" using 1(2) p by simp
    then show ?thesis using 1(1) p(2) 1(4) by blast
  qed
qed

text \<open>
  When the parent links below the head run into a cycle, the plain walk of the chain never
  returns, while verification returns and reports the cycle.
\<close>

theorem git_verify_cycle:
  assumes "git_Head g = Inr h" "h \<in> S"
    and "\<forall>j \<in> S. j \<noteq> [] \<and> (\<exists>p. Read git_ops g j = Inr p \<and> p_Parent p \<in> S)"
  shows "Chain git_ops g = None \<and>
    (\<exists>r. VerifyChain sha git_ops g = Some (Inr r) \<and> \<not> vr_ChainIntact r \<and>
      (\<exists>j \<in> S. finding j FindingCycle \<in> set (vr_Findings r)))"
proof
  show "Chain git_ops g = None"
  proof (cases "chain_loop git_ops g h []")
    case None
    then show ?thesis using assms(1) by (simp add: Chain_def ChainFrom_def)
  next
    case (Some r)
    then show ?thesis using chain_loop_never [OF Some assms(2, 3)] by simp
  qed
  obtain w where w: "verify_walk git_ops g h [] [] = Some w" using git_verify_walk_returns by blast
  obtain j where j: "j \<in> S" "snd w = [finding j FindingCycle]"
    using verify_walk_cycle [OF w assms(2, 3)] by (rule bexE)
  have "h \<noteq> []" using assms(2, 3) by blast
  then have V: "VerifyChain sha git_ops g = Some (Inr (fst (fold (verify_step sha git_ops g) (fst w) (report [finding j FindingCycle]
      \<lparr>vr_ProposalsChecked = 0, vr_ChainIntact = True, vr_Findings = [], vr_Proposals = []\<rparr>, False))))"
    using assms(1) w j by (simp add: VerifyChain_def)
  show "\<exists>r. VerifyChain sha git_ops g = Some (Inr r) \<and> \<not> vr_ChainIntact r \<and>
      (\<exists>j \<in> S. finding j FindingCycle \<in> set (vr_Findings r))"
    by (intro exI conjI bexI [OF _ j(1)], rule V) (simp_all add: fold_verify_step report_eq)
qed

text \<open>A directory whose head is its one proposal.\<close>

definition keeping :: "Proposal \<Rightarrow> git_store" where
  "keeping p = git_empty\<lparr>gs_HeadFile := Some (sample_sha []), gs_Proposals := [(sample_sha [], PropBlob p)]\<rparr>"

definition sample_cycle :: git_store where
  "sample_cycle = keeping (sample_adoption\<lparr>p_Parent := sample_sha []\<rparr>)"

lemma keeping_head: "so_Head git_ops (keeping p) = Inr (sample_sha [])"
proof -
  have "so_Head git_ops (keeping p) = git_Head (git_empty\<lparr>gs_HeadFile := Some (sample_sha [])\<rparr>)"
    by (simp add: keeping_def git_Head_def)
  then show ?thesis by simp code_simp
qed

lemma keeping_read: "Read git_ops (keeping p) (sample_sha []) = Inr (reread p)"
  by (simp add: keeping_def Read_def git_ReadProposal_def)

lemma keeping_linked: "p_Parent p = [] \<Longrightarrow> linked git_ops (keeping p) (sample_sha []) [reread p]"
  by (simp add: keeping_read) (simp add: sample_sha_def)

lemma git_verify_cycle_witness:
  "Chain git_ops sample_cycle = None \<and>
    (\<exists>r. VerifyChain sample_sha git_ops sample_cycle = Some (Inr r) \<and> \<not> vr_ChainIntact r \<and>
      (\<exists>j \<in> {sample_sha []}. finding j FindingCycle \<in> set (vr_Findings r)))"
proof (rule git_verify_cycle)
  show "git_Head sample_cycle = Inr (sample_sha [])" using keeping_head by (simp add: sample_cycle_def)
  show "\<forall>j \<in> {sample_sha []}. j \<noteq> [] \<and> (\<exists>p. Read git_ops sample_cycle j = Inr p \<and> p_Parent p \<in> {sample_sha []})"
    by (simp add: sample_cycle_def keeping_read) (simp add: sample_sha_def)
qed simp

section \<open>What verification finds\<close>

lemma apply_findings_kind:
  "f \<in> set (apply_findings sha ops s i) \<Longrightarrow>
   cf_Kind f \<in> {FindingCorruptApply, FindingApplyHashMismatch, FindingApplyChainBreak}"
proof -
  have "\<forall>f \<in> set (fst (fold (checkAttempt sha i) as st)).
      cf_Kind f \<in> {FindingApplyHashMismatch, FindingApplyChainBreak}"
    if "\<forall>f \<in> set (fst st). cf_Kind f \<in> {FindingApplyHashMismatch, FindingApplyChainBreak}" for as st
    using that
  proof (induction as arbitrary: st)
    case (Cons a as)
    have "\<forall>f \<in> set (fst (checkAttempt sha i a st)). cf_Kind f \<in> {FindingApplyHashMismatch, FindingApplyChainBreak}"
      using Cons.prems by (auto simp: checkAttempt_def finding_def)
    from Cons.IH [OF this] show ?case by simp
  qed simp
  from this [of "([], [])"] show "f \<in> set (apply_findings sha ops s i) \<Longrightarrow> ?thesis"
    by (auto simp: apply_findings_def verifyApplyChain_def finding_def split: sum.splits if_splits)
qed

text \<open>The check of the apply records accepts exactly the logs an apply leaves behind.\<close>

lemma fold_checkAttempt:
  "fst (fold (checkAttempt sha i) as (fs, parent)) = fs @ fst (fold (checkAttempt sha i) as ([], parent))"
proof (induction as arbitrary: fs parent)
  case (Cons a as)
  have "checkAttempt sha i a (fs, parent) = (fs @ fst (checkAttempt sha i a ([], parent)), snd (checkAttempt sha i a ([], parent)))"
    by (simp add: checkAttempt_def)
  then show ?case using Cons.IH [of "fs @ fst (checkAttempt sha i a ([], parent))"]
      Cons.IH [of "fst (checkAttempt sha i a ([], parent))"]
    by (cases "checkAttempt sha i a ([], parent)") simp
qed simp

lemma log_ok_no_findings:
  "log_ok sha pid n parent rs \<Longrightarrow> fst (fold (checkAttempt sha i) rs ([], parent)) = []"
  by (induction sha pid n parent rs rule: log_ok.induct) (auto simp: checkAttempt_def)

lemma all_findings_good:
  "\<forall>st \<in> set sts. Hash sha (snd st) = Inr (fst st) \<Longrightarrow> f \<in> set (all_findings sha ops s False sts) \<Longrightarrow>
   \<exists>st \<in> set sts. f \<in> set (map (\<lambda>path. finding (fst st) FindingRedactedMalformed) (malformedRedactedPaths (snd st))) \<or>
     f \<in> set (apply_findings sha ops s (fst st))"
  by (induction sts) (auto simp: step_findings_def hash_findings_def)

lemma steps_of_ids:
  "linked ops s h ps \<Longrightarrow> (\<forall>i q. Read ops s i = Inr q \<longrightarrow> p_ID q = i) \<Longrightarrow> steps_of h ps = map (\<lambda>p. (p_ID p, p)) (rev ps)"
  by (induction ps arbitrary: h) auto

text \<open>
  C23. A ledger in a directory that began empty and was only ever written by acceptances, interrupted at any point
  or not, and by apply records verifies, unless a crash left a head file that cannot be read, which verification
  reports as its error: every proposal of the chain is checked, and nothing is found about hashes, links or
  cycles. With well-formed redaction markers and, for every proposal, an apply log of the shape the
  apply steps keep, nothing is found at all.
\<close>

theorem git_reachable_verifies:
  assumes "\<And>x. IsHash (sha x)" "(git_step sha)\<^sup>*\<^sup>* git_empty g"
  shows "VerifyChain sha git_ops g = Some (Inl ErrCorruptLedgerHead) \<or>
   (\<exists>ps r. Chain git_ops g = Some (Inr ps) \<and> VerifyChain sha git_ops g = Some (Inr r) \<and>
    vr_Proposals r = ps \<and>
    (\<forall>f \<in> set (vr_Findings r). cf_Kind f \<in> {FindingRedactedMalformed, FindingCorruptApply, FindingApplyHashMismatch,
       FindingApplyChainBreak}) \<and>
    ((\<forall>p \<in> set ps. malformedRedactedPaths p = [] \<and>
       (\<exists>rs. ApplyAttempts git_ops g (p_ID p) = Inr rs \<and> log_ok sha (p_ID p) 1 [] rs)) \<longrightarrow> vr_ChainIntact r))"
proof (cases "git_Head g = Inl ErrCorruptLedgerHead")
  case True
  then show ?thesis by (simp add: VerifyChain_def)
next
  case False
  then obtain h ps where inv: "ledger_inv sha git_ops git_ok (\<lambda>_ _. False) g" "git_Head g = Inr h" "linked git_ops g h ps"
    using git_steps_sound [OF assms(2) git_empty_sound assms(1)] by (auto simp: sound_def ledger_inv_git)
  have ids: "\<forall>i q. Read git_ops g i = Inr q \<longrightarrow> p_ID q = i" "\<forall>i q. Read git_ops g i = Inr q \<longrightarrow> Hash sha q = Inr i"
    using inv(1) by (auto simp: ledger_inv_def)
  have reads: "\<forall>q \<in> set ps. Read git_ops g (p_ID q) = Inr q" using linked_links [OF inv(3) ids(1)] by blast
  have steps: "steps_of h ps = map (\<lambda>p. (p_ID p, p)) (rev ps)" by (rule steps_of_ids [OF inv(3) ids(1)])
  have "\<forall>st \<in> set (steps_of h ps). Hash sha (snd st) = Inr (fst st)" using ids(2) reads by (auto simp: steps)
  note found = all_findings_good [OF this, of _ git_ops g]
  have chain: "Chain git_ops g = Some (Inr (rev ps))" using inv(2, 3) by (simp add: Chain_def linked_ChainFrom)
  show ?thesis
  proof (intro disjI2 exI [of _ "rev ps"] exI [of _ "projr (the (VerifyChain sha git_ops g))"] conjI impI ballI, rule chain)
    fix f
    assume "f \<in> set (vr_Findings (projr (the (VerifyChain sha git_ops g))))"
    then have "f \<in> set (all_findings sha git_ops g False (steps_of h ps))"
      using inv(2, 3) by (simp add: VerifyChain_linked)
    then show "cf_Kind f \<in> {FindingRedactedMalformed, FindingCorruptApply, FindingApplyHashMismatch,
       FindingApplyChainBreak}"
      using found [of f] apply_findings_kind by (fastforce simp: finding_def)
  next
    assume clean: "\<forall>p \<in> set (rev ps). malformedRedactedPaths p = [] \<and>
       (\<exists>rs. ApplyAttempts git_ops g (p_ID p) = Inr rs \<and> log_ok sha (p_ID p) 1 [] rs)"
    have "apply_findings sha git_ops g (p_ID p) = []" if "p \<in> set ps" for p
      using clean that log_ok_no_findings by (fastforce simp: apply_findings_def verifyApplyChain_def)
    then have "all_findings sha git_ops g False (steps_of h ps) = []"
      using found [of "hd (all_findings sha git_ops g False (steps_of h ps))"] clean
      by (cases "all_findings sha git_ops g False (steps_of h ps)") (auto simp: steps)
    then show "vr_ChainIntact (projr (the (VerifyChain sha git_ops g)))"
      using inv(2, 3) by (simp add: VerifyChain_linked)
  qed (use inv(2, 3) in \<open>simp_all add: VerifyChain_linked\<close>)
qed

lemma git_reachable_verifies_witness:
  "\<exists>ps r. Chain git_ops (snd sample_accept) = Some (Inr ps) \<and>
    VerifyChain sample_sha git_ops (snd sample_accept) = Some (Inr r) \<and> vr_Proposals r = ps"
proof -
  have "git_Head (snd sample_accept) = Inr (sample_sha [])" by code_simp
  then have "VerifyChain sample_sha git_ops (snd sample_accept) \<noteq> Some (Inl ErrCorruptLedgerHead)"
    by (auto simp: VerifyChain_def Let_def split: option.splits if_splits)
  moreover have "(git_step sample_sha)\<^sup>*\<^sup>* git_empty (snd sample_accept)"
    by (rule r_into_rtranclp, rule git_step.runs, rule sample_step)
  ultimately show ?thesis using git_reachable_verifies [where sha = sample_sha, OF IsHash_sample_sha] by blast
qed

section \<open>A torn head\<close>



section \<open>Tampering\<close>

lemma all_findings_append:
  "all_findings sha ops s t (as @ bs) = all_findings sha ops s t as @
     all_findings sha ops s (t \<or> (\<exists>st \<in> set as. Hash sha (snd st) \<noteq> Inr (fst st))) bs"
  by (induction as arbitrary: t) (auto simp: hash_findings_def)

lemma all_findings_tainted:
  "st \<in> set sts \<Longrightarrow>
   finding (fst st) (if Hash sha (snd st) = Inr (fst st) then FindingTaintedDescendant else FindingHashMismatch)
     \<in> set (all_findings sha ops s True sts)"
  by (induction sts) (auto simp: step_findings_def hash_findings_def)

text \<open>
  When the content of a proposal on the chain no longer hashes to its identifier, verification
  is not intact, reports the proposal, and reports every later proposal of the chain, as tainted
  when its own hash checks out and as mismatched when it does not.
\<close>

theorem VerifyChain_taints:
  assumes "so_Head ops s = Inr h" "linked ops s h ps" "steps_of h ps = old @ (i, p) # later"
    and "Hash sha p \<noteq> Inr i"
  shows "\<exists>r. VerifyChain sha ops s = Some (Inr r) \<and> \<not> vr_ChainIntact r \<and>
    finding i FindingHashMismatch \<in> set (vr_Findings r) \<and>
    (\<forall>st \<in> set later. finding (fst st)
      (if Hash sha (snd st) = Inr (fst st) then FindingTaintedDescendant else FindingHashMismatch) \<in> set (vr_Findings r))"
proof -
  let ?fs = "all_findings sha ops s False (steps_of h ps)"
  have fs: "?fs = all_findings sha ops s False old @
      step_findings sha ops s (i, p) (\<exists>st \<in> set old. Hash sha (snd st) \<noteq> Inr (fst st)) @
      all_findings sha ops s True later"
    using assms(4) by (simp add: assms(3) all_findings_append hash_findings_def)
  have bad: "finding i FindingHashMismatch \<in> set ?fs"
    using assms(4) by (simp add: fs step_findings_def hash_findings_def)
  then have "?fs \<noteq> []" by auto
  moreover have "\<forall>st \<in> set later. finding (fst st)
      (if Hash sha (snd st) = Inr (fst st) then FindingTaintedDescendant else FindingHashMismatch) \<in> set ?fs"
    using all_findings_tainted [of _ later sha ops s] unfolding fs set_append by blast
  ultimately show ?thesis using bad by (simp add: VerifyChain_linked [OF assms(1, 2)])
qed

text \<open>A directory whose one proposal was edited after it was accepted.\<close>

definition sample_edited :: Proposal where
  "sample_edited = sample_adoption\<lparr>p_Kind := ''edited''\<rparr>"

text \<open>A sum that tells one text from the others.\<close>

definition sample_sha2 :: "string \<Rightarrow> string" where
  "sample_sha2 t = (if t = hashDomainPrefix @ projr (canonicalProposalBytes sample_adoption) then sample_sha t
     else replicate 64 (CHR ''b''))"

lemma VerifyChain_taints_witness:
  "\<exists>r. VerifyChain sample_sha2 git_ops (keeping sample_edited) = Some (Inr r) \<and> \<not> vr_ChainIntact r \<and>
    finding (sample_sha []) FindingHashMismatch \<in> set (vr_Findings r) \<and>
    (\<forall>st \<in> set ([] :: (string \<times> Proposal) list). finding (fst st)
      (if Hash sample_sha2 (snd st) = Inr (fst st) then FindingTaintedDescendant else FindingHashMismatch) \<in> set (vr_Findings r))"
proof (rule VerifyChain_taints [OF keeping_head keeping_linked])
  show "p_Parent sample_edited = []" by (simp add: sample_edited_def sample_adoption_def sample_defs)
  show "steps_of (sample_sha []) [reread sample_edited] = [] @ (sample_sha [], reread sample_edited) # []" by simp
  show "Hash sample_sha2 (reread sample_edited) \<noteq> Inr (sample_sha [])" by code_simp
qed

text \<open>Two proposals whose hashed bytes are not a collision of the hash function.\<close>

definition no_collision :: "(string \<Rightarrow> string) \<Rightarrow> Proposal \<Rightarrow> Proposal \<Rightarrow> bool" where
  "no_collision sha p q \<longleftrightarrow> (\<forall>c d. canonicalProposalBytes p = Inr c \<longrightarrow> canonicalProposalBytes q = Inr d \<longrightarrow>
     sha (hashDomainPrefix @ c) = sha (hashDomainPrefix @ d) \<longrightarrow> c = d)"

lemma same_history:
  assumes "linked ops s h ps" "linked ops' s' h qs"
    and "\<forall>st \<in> set (steps_of h ps) \<union> set (steps_of h qs). Hash sha (snd st) = Inr (fst st)"
    and "\<forall>p \<in> set ps \<union> set qs. wf_gval (json_Proposal p)"
    and "\<forall>p \<in> set ps. \<forall>q \<in> set qs. no_collision sha p q"
  shows "map hashedContent ps = map hashedContent qs"
  using assms
proof (induction ps arbitrary: h qs)
  case Nil
  then show ?case by (cases qs) auto
next
  case (Cons p ps)
  then obtain q qs' where qs: "qs = q # qs'" by (cases qs) auto
  have hashes: "Hash sha p = Inr h" "Hash sha q = Inr h" using Cons.prems(3) by (simp_all add: qs)
  have c: "hashedContent p = hashedContent q"
    by (rule Hash_content [OF _ _ hashes]) (use Cons.prems(4, 5) in \<open>auto simp: qs no_collision_def\<close>)
  obtain t where "hashedContent q = Inr t" using hashes(2) by (auto simp: Hash_Inr)
  then have "p_Parent p = p_Parent q" using hashedContent_parent [OF c] by simp
  then have "map hashedContent ps = map hashedContent qs'"
    by (intro Cons.IH [of "p_Parent p"]) (use Cons.prems in \<open>auto simp: qs\<close>)
  then show ?case using c by (simp add: qs)
qed

text \<open>
  C3. A head pins the history below it. When two ledgers, in any two stores, have the same head and
  both verify as intact, their chains are equally long and agree proposal by proposal in everything
  that is hashed, unless the run shows a collision of SHA-256 between two proposals.
\<close>

theorem VerifyChain_pins_history:
  assumes "so_Head ops s = Inr h" "so_Head ops' s' = Inr h"
    and "VerifyChain sha ops s = Some (Inr r)" "vr_ChainIntact r"
    and "VerifyChain sha ops' s' = Some (Inr r')" "vr_ChainIntact r'"
    and "\<forall>p \<in> set (vr_Proposals r) \<union> set (vr_Proposals r'). wf_gval (json_Proposal p)"
    and "\<forall>p \<in> set (vr_Proposals r). \<forall>q \<in> set (vr_Proposals r'). no_collision sha p q"
  shows "map hashedContent (vr_Proposals r) = map hashedContent (vr_Proposals r')"
proof -
  obtain ps where ps: "linked ops s h ps" "vr_Proposals r = rev ps" "all_findings sha ops s False (steps_of h ps) = []"
    using VerifyChain_intact [OF assms(3, 4, 1)] by blast
  obtain qs where qs: "linked ops' s' h qs" "vr_Proposals r' = rev qs" "all_findings sha ops' s' False (steps_of h qs) = []"
    using VerifyChain_intact [OF assms(5, 6, 2)] by blast
  have "map hashedContent ps = map hashedContent qs"
    by (rule same_history [OF ps(1) qs(1)])
      (use assms(7, 8) ps(2) qs(2) all_findings_hashes [OF ps(3)] all_findings_hashes [OF qs(3)] in auto)
  then show ?thesis by (simp add: ps(2) qs(2) flip: rev_map)
qed

text \<open>The same proposal, accepted under two statuses: the hash does not cover the status.\<close>

lemma sample_report:
  assumes "p_Parent p = []"
    and "all_findings sample_sha git_ops (keeping p) False [(sample_sha [], reread p)] = []"
  shows "VerifyChain sample_sha git_ops (keeping p) =
    Some (Inr \<lparr>vr_ProposalsChecked = 1, vr_ChainIntact = True, vr_Findings = [], vr_Proposals = [reread p]\<rparr>)"
  using VerifyChain_linked [OF keeping_head keeping_linked [OF assms(1)]] assms by simp

lemma VerifyChain_pins_history_witness:
  "map hashedContent [reread sample_adoption] = map hashedContent [reread (sample_adoption\<lparr>p_Status := ''accepted''\<rparr>)]"
proof -
  let ?p = "sample_adoption" and ?q = "sample_adoption\<lparr>p_Status := ''accepted''\<rparr>"
  have p: "VerifyChain sample_sha git_ops (keeping ?p) =
      Some (Inr \<lparr>vr_ProposalsChecked = 1, vr_ChainIntact = True, vr_Findings = [], vr_Proposals = [reread ?p]\<rparr>)"
    by (rule sample_report) code_simp+
  have q: "VerifyChain sample_sha git_ops (keeping ?q) =
      Some (Inr \<lparr>vr_ProposalsChecked = 1, vr_ChainIntact = True, vr_Findings = [], vr_Proposals = [reread ?q]\<rparr>)"
    by (rule sample_report) code_simp+
  have wf: "wf_gval (json_Proposal (reread ?p))" "wf_gval (json_Proposal (reread ?q))" by code_simp+
  have same: "canonicalProposalBytes (reread ?p) = canonicalProposalBytes (reread ?q)" by code_simp
  show ?thesis
    using VerifyChain_pins_history [OF keeping_head keeping_head p _ q] wf same by (simp add: no_collision_def)
qed

end
