(* ===== verification/ApplyRace.thy ===== *)
theory ApplyRace
  imports Verify
begin

text \<open>
  core/apply.go with several ships of one proposal at once. The lock of the ledger is held while an attempt
  begins and no longer, so the saves and seals of one attempt may fall between those of another. What
  the apply log keeps under every interleaving is proved, and what it does not keep.
\<close>

section \<open>Interleaved attempts\<close>

text \<open>One process at a time takes one step; each has its own record in hand.\<close>

inductive ships_step ::
    "(string \<Rightarrow> string) \<Rightarrow> 's store_ops \<Rightarrow> string \<Rightarrow> 's \<times> (nat \<Rightarrow> ApplyRecord option) \<Rightarrow>
     's \<times> (nat \<Rightarrow> ApplyRecord option) \<Rightarrow> bool"
  for sha :: "string \<Rightarrow> string" and ops :: "'s store_ops" and pid :: string where
  process: "apply_step sha ops pid (s, curs j) (s', cur) \<Longrightarrow> ships_step sha ops pid (s, curs) (s', curs(j := cur))"

text \<open>
  Attempts are numbered from one, a sealed record's identifier is its hash, and each attempt names no
  parent or a sealed attempt before it.
\<close>

definition log_shape :: "(string \<Rightarrow> string) \<Rightarrow> string \<Rightarrow> ApplyRecord list \<Rightarrow> bool" where
  "log_shape sha pid rs \<longleftrightarrow> (\<forall>k < length rs.
     ar_Attempt (rs ! k) = 1 + int k \<and> ar_Proposal (rs ! k) = pid \<and>
     (Sealed (rs ! k) \<longrightarrow> ApplyHash sha (rs ! k) = Inr (ar_ID (rs ! k))) \<and>
     (ar_Parent (rs ! k) = [] \<or> (\<exists>j < k. Sealed (rs ! j) \<and> ar_Parent (rs ! k) = ar_ID (rs ! j))))"

definition holds_shape ::
    "(string \<Rightarrow> string) \<Rightarrow> 's store_ops \<Rightarrow> string \<Rightarrow> 's \<times> (nat \<Rightarrow> ApplyRecord option) \<Rightarrow> ApplyRecord list \<Rightarrow> bool" where
  "holds_shape sha ops pid x rs \<longleftrightarrow>
     (\<forall>n. so_ReadApply ops (fst x) pid n =
       (if 1 \<le> n \<and> n \<le> int (length rs) then Inr (ApplyBlob (rs ! nat (n - 1))) else Inl ErrStoreObjectNotFound)) \<and>
     log_shape sha pid rs \<and>
     (\<forall>j r. snd x j = Some r \<longrightarrow> (\<exists>k < length rs. rs ! k = r)) \<and>
     (\<forall>i j r q. snd x i = Some r \<longrightarrow> snd x j = Some q \<longrightarrow> ar_Attempt r = ar_Attempt q \<longrightarrow> i = j)"

text \<open>What a log keeps: sealed attempts for ever, and of the others the parent.\<close>

definition grows :: "ApplyRecord list \<Rightarrow> ApplyRecord list \<Rightarrow> bool" where
  "grows rs rs' \<longleftrightarrow> length rs \<le> length rs' \<and>
     (\<forall>k < length rs. ar_Parent (rs' ! k) = ar_Parent (rs ! k) \<and> (Sealed (rs ! k) \<longrightarrow> rs' ! k = rs ! k))"

lemma grows_refl [simp]: "grows rs rs" by (simp add: grows_def)

lemma grows_trans: "grows a b \<Longrightarrow> grows b c \<Longrightarrow> grows a c"
  unfolding grows_def by (metis order.strict_trans2 order.trans)

lemma grows_snoc: "grows rs (rs @ [r])" by (simp add: grows_def nth_append)

lemma lastSealed_shape:
  "lastSealed rs = [] \<or> (\<exists>j < length rs. Sealed (rs ! j) \<and> lastSealed rs = ar_ID (rs ! j))"
proof (induction rs rule: rev_induct)
  case (snoc r rs)
  show ?case
  proof (cases "Sealed r")
    case True
    then show ?thesis by (intro disjI2 exI [of _ "length rs"]) (simp add: lastSealed_def)
  next
    case False
    then have e: "lastSealed (rs @ [r]) = lastSealed rs" by (simp add: lastSealed_def)
    from snoc show ?thesis unfolding e
    proof
      assume "\<exists>j < length rs. Sealed (rs ! j) \<and> lastSealed rs = ar_ID (rs ! j)"
      then obtain j where "j < length rs" "Sealed (rs ! j)" "lastSealed rs = ar_ID (rs ! j)" by blast
      then show "lastSealed rs = [] \<or> (\<exists>j < length (rs @ [r]). Sealed ((rs @ [r]) ! j) \<and> lastSealed rs = ar_ID ((rs @ [r]) ! j))"
        by (intro disjI2 exI [of _ j]) (simp add: nth_append)
    qed simp
  qed
qed (simp add: lastSealed_def)

lemma holds_shape_at:
  "holds_shape sha ops pid (s, curs) rs \<Longrightarrow> curs j = Some r \<Longrightarrow> \<exists>k < length rs. rs ! k = r"
  unfolding holds_shape_def snd_conv by blast

lemma log_shape_nth:
  assumes "log_shape sha pid rs" "k < length rs"
  shows "ar_Attempt (rs ! k) = 1 + int k" "ar_Proposal (rs ! k) = pid"
    and "Sealed (rs ! k) \<Longrightarrow> ApplyHash sha (rs ! k) = Inr (ar_ID (rs ! k))"
    and "ar_Parent (rs ! k) = [] \<or> (\<exists>j < k. Sealed (rs ! j) \<and> ar_Parent (rs ! k) = ar_ID (rs ! j))"
  using assms unfolding log_shape_def by blast+

lemma log_shape_butlast:
  assumes "log_shape sha pid (rs @ [r])"
  shows "log_shape sha pid rs"
  unfolding log_shape_def
proof (intro allI impI conjI)
  fix k assume k: "k < length rs"
  then have k': "k < length (rs @ [r])" and e: "(rs @ [r]) ! k = rs ! k" by (simp_all add: nth_append)
  note at = log_shape_nth [OF assms k', unfolded e]
  show "ar_Attempt (rs ! k) = 1 + int k" by (rule at(1))
  show "ar_Proposal (rs ! k) = pid" by (rule at(2))
  show "ApplyHash sha (rs ! k) = Inr (ar_ID (rs ! k))" if "Sealed (rs ! k)" by (rule at(3) [OF that])
  from at(4) show "ar_Parent (rs ! k) = [] \<or> (\<exists>j < k. Sealed (rs ! j) \<and> ar_Parent (rs ! k) = ar_ID (rs ! j))"
  proof
    assume "\<exists>j < k. Sealed ((rs @ [r]) ! j) \<and> ar_Parent (rs ! k) = ar_ID ((rs @ [r]) ! j)"
    then obtain j where "j < k" "Sealed ((rs @ [r]) ! j)" "ar_Parent (rs ! k) = ar_ID ((rs @ [r]) ! j)" by blast
    then show ?thesis using k by (intro disjI2 exI [of _ j]) (simp add: nth_append)
  qed simp
qed

lemma nextAttempt_shape: "log_shape sha pid rs \<Longrightarrow> nextAttempt rs = 1 + int (length rs)"
proof (induction rs rule: rev_induct)
  case (snoc r rs)
  have "log_shape sha pid rs" by (rule log_shape_butlast [OF snoc.prems])
  moreover have "ar_Attempt r = 1 + int (length rs)"
    using log_shape_nth(1) [OF snoc.prems, of "length rs"] by simp
  ultimately show ?case using snoc.IH by (simp add: nextAttempt_def)
qed (simp add: nextAttempt_def)

lemma log_shape_snoc:
  assumes "log_shape sha pid rs" "ar_Attempt r = 1 + int (length rs)" "ar_Proposal r = pid" "\<not> Sealed r"
    and "ar_Parent r = lastSealed rs"
  shows "log_shape sha pid (rs @ [r])"
  unfolding log_shape_def
proof (intro allI impI)
  fix k assume "k < length (rs @ [r])"
  then consider "k < length rs" | "k = length rs" by fastforce
  then show "ar_Attempt ((rs @ [r]) ! k) = 1 + int k \<and> ar_Proposal ((rs @ [r]) ! k) = pid \<and>
     (Sealed ((rs @ [r]) ! k) \<longrightarrow> ApplyHash sha ((rs @ [r]) ! k) = Inr (ar_ID ((rs @ [r]) ! k))) \<and>
     (ar_Parent ((rs @ [r]) ! k) = [] \<or>
      (\<exists>j < k. Sealed ((rs @ [r]) ! j) \<and> ar_Parent ((rs @ [r]) ! k) = ar_ID ((rs @ [r]) ! j)))"
  proof cases
    case 1
    then have e: "(rs @ [r]) ! k = rs ! k" and ej: "j < k \<Longrightarrow> (rs @ [r]) ! j = rs ! j" for j by (simp_all add: nth_append)
    show ?thesis using log_shape_nth [OF assms(1) 1] ej unfolding e by (simp cong: conj_cong)
  next
    case 2
    have "ar_Parent r = [] \<or> (\<exists>j < length rs. Sealed ((rs @ [r]) ! j) \<and> ar_Parent r = ar_ID ((rs @ [r]) ! j))"
      using lastSealed_shape [of rs] assms(5) by (simp add: nth_append cong: conj_cong)
    then show ?thesis using 2 assms(2-4) by simp
  qed
qed

text \<open>A record replaced by one of the same number and parent, sealed ones excepted.\<close>

lemma log_shape_update:
  assumes "log_shape sha pid rs" "k < length rs" "\<not> Sealed (rs ! k)"
    and "ar_Attempt r = ar_Attempt (rs ! k)" "ar_Parent r = ar_Parent (rs ! k)" "ar_Proposal r = ar_Proposal (rs ! k)"
    and "Sealed r \<longrightarrow> ApplyHash sha r = Inr (ar_ID r)"
  shows "log_shape sha pid (rs[k := r])"
  unfolding log_shape_def
proof (intro allI impI)
  fix n assume n: "n < length (rs[k := r])"
  then have old: "ar_Attempt (rs ! n) = 1 + int n \<and> ar_Proposal (rs ! n) = pid \<and>
     (Sealed (rs ! n) \<longrightarrow> ApplyHash sha (rs ! n) = Inr (ar_ID (rs ! n))) \<and>
     (ar_Parent (rs ! n) = [] \<or> (\<exists>j < n. Sealed (rs ! j) \<and> ar_Parent (rs ! n) = ar_ID (rs ! j)))"
    using log_shape_nth [OF assms(1), of n] by simp
  have parent: "ar_Parent (rs[k := r] ! n) = ar_Parent (rs ! n)" using assms(2,5) by (simp add: nth_list_update)
  have "ar_Parent (rs ! n) = [] \<or> (\<exists>j < n. Sealed (rs[k := r] ! j) \<and> ar_Parent (rs ! n) = ar_ID (rs[k := r] ! j))"
  proof (cases "ar_Parent (rs ! n) = []")
    case False
    then obtain j where "j < n" "Sealed (rs ! j)" "ar_Parent (rs ! n) = ar_ID (rs ! j)" using old by blast
    moreover have "j \<noteq> k" using assms(3) calculation(2) by auto
    ultimately show ?thesis by (intro disjI2 exI [of _ j]) simp
  qed simp
  then show "ar_Attempt (rs[k := r] ! n) = 1 + int n \<and> ar_Proposal (rs[k := r] ! n) = pid \<and>
     (Sealed (rs[k := r] ! n) \<longrightarrow> ApplyHash sha (rs[k := r] ! n) = Inr (ar_ID (rs[k := r] ! n))) \<and>
     (ar_Parent (rs[k := r] ! n) = [] \<or>
      (\<exists>j < n. Sealed (rs[k := r] ! j) \<and> ar_Parent (rs[k := r] ! n) = ar_ID (rs[k := r] ! j)))"
    using old assms(2,4,6,7) unfolding parent by (cases "n = k") (simp_all del: length_greater_0_conv)
qed

text \<open>No two processes hold records of one number: they still do not when one of them moves on.\<close>

lemma holds_shape_one:
  "holds_shape sha ops pid (s, curs) rs \<Longrightarrow> curs i = Some r \<Longrightarrow> curs j = Some q \<Longrightarrow> ar_Attempt r = ar_Attempt q \<Longrightarrow> i = j"
  unfolding holds_shape_def snd_conv by blast

lemma one_holder_upd:
  assumes "\<And>a b u v. curs a = Some u \<Longrightarrow> curs b = Some v \<Longrightarrow> ar_Attempt u = ar_Attempt v \<Longrightarrow> a = b"
    and "\<And>a u. curs a = Some u \<Longrightarrow> ar_Attempt u = ar_Attempt r' \<Longrightarrow> a = j"
  shows "\<forall>a b u v. (curs(j := Some r')) a = Some u \<longrightarrow> (curs(j := Some r')) b = Some v \<longrightarrow> ar_Attempt u = ar_Attempt v \<longrightarrow> a = b"
proof (intro allI impI)
  fix a b u v
  assume u: "(curs(j := Some r')) a = Some u" and v: "(curs(j := Some r')) b = Some v" and n: "ar_Attempt u = ar_Attempt v"
  show "a = b"
  proof (cases "a = j")
    case True
    then show ?thesis using assms(2) [of b v] u v n by (cases "b = j") simp_all
  next
    case False
    then show ?thesis using assms(2) [of a u] assms(1) [of a u b v] u v n by (cases "b = j") simp_all
  qed
qed

context apply_store
begin

lemma shape_attempts: "ok s \<Longrightarrow> IsHash pid \<Longrightarrow> holds_shape sha ops pid (s, curs) rs \<Longrightarrow> ApplyAttempts ops s pid = Inr rs"
  by (rule attempts_from_reads) (simp_all add: holds_shape_def)

text \<open>A process writes its own record again: nobody else holds one of that number.\<close>

lemma rewrite_shape:
  assumes ok: "ok s" and log: "holds_shape sha ops pid (s, curs) rs" and cur: "curs j = Some r"
    and w: "writeApplyFile ops s r' = Inr s'" and ns: "\<not> Sealed r"
    and same: "ar_Attempt r' = ar_Attempt r" "ar_Parent r' = ar_Parent r" "ar_Proposal r' = ar_Proposal r"
    and sealed: "Sealed r' \<longrightarrow> ApplyHash sha r' = Inr (ar_ID r')"
  shows "\<exists>rs'. ok s' \<and> holds_shape sha ops pid (s', curs(j := Some r')) rs' \<and> grows rs rs'"
proof -
  obtain k where k: "k < length rs" "rs ! k = r" using holds_shape_at [of sha ops pid s curs rs j r] log cur by blast
  have shape: "log_shape sha pid rs" using log by (simp add: holds_shape_def)
  from log_shape_nth(1,2) [OF this k(1)] have r: "ar_Attempt r = 1 + int k" "ar_Proposal r = pid" unfolding k(2) .
  obtain s2 where s2: "so_WriteApply ops s pid (ar_Attempt r) (ApplyBlob r') = Inr s2" "ok s2"
    "\<forall>i n. so_ReadApply ops s2 i n = (if (i, n) = (pid, ar_Attempt r) then Inr (ApplyBlob r') else so_ReadApply ops s i n)"
    using apply_write [OF ok, of pid "ar_Attempt r" "ApplyBlob r'"] by blast
  have s': "s2 = s'" using s2(1) w r same by (simp add: writeApplyFile_def)
  have "\<forall>n. so_ReadApply ops s' pid n =
      (if 1 \<le> n \<and> n \<le> int (length (rs[k := r'])) then Inr (ApplyBlob (rs[k := r'] ! nat (n - 1))) else Inl ErrStoreObjectNotFound)"
    using s2(3) s' log k(1) r(1) by (auto simp: holds_shape_def nth_list_update)
  moreover have "log_shape sha pid (rs[k := r'])"
    by (rule log_shape_update [OF shape k(1)]) (use k(2) ns same sealed in simp_all)
  moreover have "\<exists>m < length (rs[k := r']). rs[k := r'] ! m = q" if q: "(curs(j := Some r')) i = Some q" for i q
  proof (cases "i = j")
    case True
    then show ?thesis using q k(1) by (intro exI [of _ k]) simp
  next
    case False
    then have ci: "curs i = Some q" using q by simp
    from holds_shape_at [OF log ci] obtain m where m: "m < length rs" "rs ! m = q" by blast
    have "m \<noteq> k"
    proof
      assume "m = k"
      then have "q = r" using m(2) k(2) by simp
      then have "i = j" using holds_shape_one [OF log ci cur] by simp
      then show False using False by simp
    qed
    then show ?thesis using m by (intro exI [of _ m]) simp
  qed
  moreover have "\<forall>a b u v. (curs(j := Some r')) a = Some u \<longrightarrow> (curs(j := Some r')) b = Some v \<longrightarrow>
      ar_Attempt u = ar_Attempt v \<longrightarrow> a = b"
    using one_holder_upd [of curs r' j] holds_shape_one [OF log] cur same(1) by metis
  ultimately have "holds_shape sha ops pid (s', curs(j := Some r')) (rs[k := r'])"
    unfolding holds_shape_def fst_conv snd_conv by blast
  then show ?thesis using s2(2) s' k ns by (intro exI [of _ "rs[k := r']"]) (auto simp: grows_def nth_list_update same(2))
qed

lemma ships_step_log:
  assumes step: "ships_step sha ops pid x y" and ok: "ok (fst x)" and i: "IsHash pid" and log: "holds_shape sha ops pid x rs"
  shows "\<exists>rs'. ok (fst y) \<and> holds_shape sha ops pid y rs' \<and> grows rs rs'"
  using step
proof cases
  case (process s curs j s' cur)
  have log': "holds_shape sha ops pid (s, curs) rs" and ok': "ok s" using log ok process(1) by simp_all
  have shape: "log_shape sha pid rs" using log' by (simp add: holds_shape_def)
  from process(3) have "\<exists>rs'. ok s' \<and> holds_shape sha ops pid (s', curs(j := cur)) rs' \<and> grows rs rs'"
  proof cases
    case (begins r)
    have att: "ApplyAttempts ops s pid = Inr rs" by (rule shape_attempts [OF ok' i log'])
    have r: "ar_Proposal r = pid" "ar_Attempt r = 1 + int (length rs)" "ar_Parent r = lastSealed rs" "\<not> Sealed r"
      and w: "writeApplyFile ops s r = Inr s'"
      using begins(2) att nextAttempt_shape [OF shape] by (auto simp: BeginApply_def rbind_Inr_iff Let_def Sealed_def)
    obtain s2 where s2: "so_WriteApply ops s pid (ar_Attempt r) (ApplyBlob r) = Inr s2" "ok s2"
      "\<forall>i n. so_ReadApply ops s2 i n = (if (i, n) = (pid, ar_Attempt r) then Inr (ApplyBlob r) else so_ReadApply ops s i n)"
      using apply_write [OF ok', of pid "ar_Attempt r" "ApplyBlob r"] by blast
    have s': "s2 = s'" using s2(1) w r(1) by (simp add: writeApplyFile_def)
    have old: "ar_Attempt q \<le> int (length rs)" if "curs m = Some q" for m q
    proof -
      from holds_shape_at [OF log' that] obtain k where k: "k < length rs" "rs ! k = q" by blast
      then show ?thesis using log_shape_nth(1) [OF shape, of k] by simp
    qed
    have "holds_shape sha ops pid (s', curs(j := Some r)) (rs @ [r])"
      unfolding holds_shape_def fst_conv snd_conv
    proof (intro conjI)
      show "\<forall>n. so_ReadApply ops s' pid n = (if 1 \<le> n \<and> n \<le> int (length (rs @ [r]))
          then Inr (ApplyBlob ((rs @ [r]) ! nat (n - 1))) else Inl ErrStoreObjectNotFound)"
        using s2(3) s' log' r(2) by (auto simp: holds_shape_def nth_append)
      show "log_shape sha pid (rs @ [r])" by (rule log_shape_snoc [OF shape r(2,1,4,3)])
      show "\<forall>m q. (curs(j := Some r)) m = Some q \<longrightarrow> (\<exists>k < length (rs @ [r]). (rs @ [r]) ! k = q)"
      proof (intro allI impI)
        fix m q assume q: "(curs(j := Some r)) m = Some q"
        show "\<exists>k < length (rs @ [r]). (rs @ [r]) ! k = q"
        proof (cases "m = j")
          case True
          then show ?thesis using q by (intro exI [of _ "length rs"]) simp
        next
          case False
          then have "curs m = Some q" using q by simp
          from holds_shape_at [OF log' this] obtain k where "k < length rs" "rs ! k = q" by blast
          then show ?thesis by (intro exI [of _ k]) (simp add: nth_append)
        qed
      qed
      show "\<forall>a b u v. (curs(j := Some r)) a = Some u \<longrightarrow> (curs(j := Some r)) b = Some v \<longrightarrow>
          ar_Attempt u = ar_Attempt v \<longrightarrow> a = b"
      proof (rule one_holder_upd)
        show "a = j" if "curs a = Some u" "ar_Attempt u = ar_Attempt r" for a u
          using old [OF that(1)] that(2) r(2) by simp
      qed (rule holds_shape_one [OF log'])
    qed
    then show ?thesis using begins(1) s2(2) s' by (intro exI [of _ "rs @ [r]"]) (simp add: grows_snoc)
  next
    case (saves rs2 r)
    let ?r = "r\<lparr>ar_Resources := rs2\<rparr>"
    have ns: "\<not> Sealed ?r" and w: "writeApplyFile ops s ?r = Inr s'"
      using saves(3) by (auto simp: SaveApplyProgress_def split: if_splits)
    have "\<not> Sealed r" using ns by (simp add: Sealed_def)
    from rewrite_shape [OF ok' log' saves(1) w this] ns show ?thesis unfolding saves(2) by simp
  next
    case (seals r summary r')
    obtain hash where ns: "\<not> Sealed r" and hash: "ApplyHash sha (r\<lparr>ar_Summary := Some summary\<rparr>) = Inr hash"
      and r': "r' = r\<lparr>ar_Summary := Some summary, ar_ID := hash\<rparr>" and w: "writeApplyFile ops s r' = Inr s'"
      using seals(3) by (auto simp: SealApply_def Let_def rbind_Inr_iff split: if_splits)
    have "ApplyHash sha r' = Inr (ar_ID r')" unfolding r' ApplyHash_id using hash by simp
    from rewrite_shape [OF ok' log' seals(1) w ns] this show ?thesis unfolding seals(2) by (simp add: r')
  next
    case dies
    have "holds_shape sha ops pid (s, curs(j := None)) rs"
      using log' unfolding holds_shape_def by (auto split: if_splits)
    then show ?thesis using dies ok' by (intro exI [of _ rs]) simp
  qed
  then show ?thesis using process(2) by simp
qed

lemma ships_steps_log:
  assumes "(ships_step sha ops pid)\<^sup>*\<^sup>* x y" "ok (fst x)" "IsHash pid" "holds_shape sha ops pid x rs"
  shows "\<exists>rs'. ok (fst y) \<and> holds_shape sha ops pid y rs' \<and> grows rs rs'"
  using assms(1)
proof (induction rule: rtranclp_induct)
  case base
  then show ?case using assms by (intro exI [of _ rs]) simp
next
  case (step u v)
  then obtain rs1 where 1: "ok (fst u)" "holds_shape sha ops pid u rs1" "grows rs rs1" by blast
  from ships_step_log [OF step(2) 1(1) assms(3) 1(2)]
  obtain rs2 where "ok (fst v)" "holds_shape sha ops pid v rs2" "grows rs1 rs2" by blast
  then show ?case using grows_trans [OF 1(3)] by blast
qed

end

section \<open>What verification says of them\<close>

lemma lastSealed_snoc: "lastSealed (rs @ [r]) = (if Sealed r then ar_ID r else lastSealed rs)"
  by (simp add: lastSealed_def)

lemma lastSealed_take:
  assumes "a < m" "m \<le> length rs" "Sealed (rs ! a)" "\<forall>x. a < x \<and> x < m \<longrightarrow> \<not> Sealed (rs ! x)"
  shows "lastSealed (take m rs) = ar_ID (rs ! a)"
  using assms
proof (induction m)
  case (Suc m)
  then have "take (Suc m) rs = take m rs @ [rs ! m]" by (simp add: take_Suc_conv_app_nth)
  then show ?case using Suc by (cases "m = a") (auto simp: lastSealed_snoc)
qed simp

lemma checkAttempt_parent: "snd (fold (checkAttempt sha i) rs ([], [])) = lastSealed rs"
  by (induction rs rule: rev_induct) (simp_all add: lastSealed_snoc checkAttempt_def, simp add: lastSealed_def)

lemma checkAttempt_break:
  assumes "k < length rs" "Sealed (rs ! k)" "ar_Parent (rs ! k) \<noteq> lastSealed (take k rs)"
  shows "finding i FindingApplyChainBreak \<in> set (fst (fold (checkAttempt sha i) rs ([], [])))"
proof -
  have rs: "rs = take k rs @ rs ! k # drop (Suc k) rs" using assms(1) by (simp add: id_take_nth_drop)
  let ?b = "fold (checkAttempt sha i) (take k rs) ([], [])"
  have "snd ?b = lastSealed (take k rs)" by (rule checkAttempt_parent)
  then have "finding i FindingApplyChainBreak \<in> set (fst (checkAttempt sha i (rs ! k) ?b))"
    using assms(2,3) by (simp add: checkAttempt_def)
  moreover have "fold (checkAttempt sha i) rs ([], []) = fold (checkAttempt sha i) (drop (Suc k) rs) (checkAttempt sha i (rs ! k) ?b)"
    by (subst rs) simp
  ultimately show ?thesis
    using fold_checkAttempt [of sha i "drop (Suc k) rs" "fst (checkAttempt sha i (rs ! k) ?b)" "snd (checkAttempt sha i (rs ! k) ?b)"]
    by simp
qed

text \<open>An attempt that named its parent before an earlier one was sealed cannot name that one.\<close>

lemma overlap_breaks:
  assumes old: "log_shape sha pid rs" and new: "log_shape sha pid rs'" and g: "grows rs rs'"
    and ab: "a < b" "b < length rs" and open_a: "\<not> Sealed (rs ! a)" and sealed: "Sealed (rs' ! a)" "Sealed (rs' ! b)"
    and ids: "\<And>j. j < length rs' \<Longrightarrow> j \<noteq> a \<Longrightarrow> Sealed (rs' ! j) \<Longrightarrow> ar_ID (rs' ! j) \<noteq> ar_ID (rs' ! a)" and hash: "ar_ID (rs' ! a) \<noteq> []"
  shows "finding i FindingApplyChainBreak \<in> set (fst (fold (checkAttempt sha i) rs' ([], [])))"
proof -
  have len: "length rs \<le> length rs'" using g by (simp add: grows_def)
  obtain m where m: "a < m" "m \<le> b" "Sealed (rs' ! m)" and least: "\<forall>x. a < x \<and> x < m \<longrightarrow> \<not> Sealed (rs' ! x)"
  proof -
    let ?P = "\<lambda>x. a < x \<and> x \<le> b \<and> Sealed (rs' ! x)"
    have "?P b" using ab(1) sealed(2) by simp
    then have "?P (LEAST x. ?P x)" by (rule LeastI)
    moreover have "\<not> ?P x" if "x < (LEAST x. ?P x)" for x using not_less_Least [OF that] .
    ultimately show ?thesis using that [of "LEAST x. ?P x"] by (meson dual_order.trans less_imp_le_nat)
  qed
  have ml: "m < length rs" using m(2) ab(2) by simp
  have "lastSealed (take m rs') = ar_ID (rs' ! a)"
    by (rule lastSealed_take [OF m(1) _ sealed(1) least]) (use ml len in simp)
  moreover have "ar_Parent (rs' ! m) \<noteq> ar_ID (rs' ! a)"
  proof -
    have p: "ar_Parent (rs' ! m) = ar_Parent (rs ! m)" using g ml by (simp add: grows_def)
    from log_shape_nth(4) [OF old ml] show ?thesis
    proof
      assume "\<exists>j < m. Sealed (rs ! j) \<and> ar_Parent (rs ! m) = ar_ID (rs ! j)"
      then obtain j where j: "j < m" "Sealed (rs ! j)" "ar_Parent (rs ! m) = ar_ID (rs ! j)" by blast
      have "j \<noteq> a" using j(2) open_a by auto
      moreover have "rs' ! j = rs ! j" using g j(1,2) ml by (simp add: grows_def)
      ultimately show ?thesis using ids [of j] j ml len p by simp
    qed (use p hash in simp)
  qed
  ultimately show ?thesis using checkAttempt_break [of m rs' i sha] m(3) ml len by simp
qed

lemma distinct_filtered_ids:
  assumes "distinct (map f (filter P xs))" "i < length xs" "j < length xs" "i \<noteq> j" "P (xs ! i)" "P (xs ! j)"
  shows "f (xs ! i) \<noteq> f (xs ! j)"
proof -
  have *: "f (xs ! a) \<noteq> f (xs ! b)" if "a < b" "b < length xs" "P (xs ! a)" "P (xs ! b)" for a b
  proof -
    have "xs = take b xs @ xs ! b # drop (Suc b) xs" using that(2) by (simp add: id_take_nth_drop)
    then have "filter P xs = filter P (take b xs) @ xs ! b # filter P (drop (Suc b) xs)"
      using that(4) by (metis filter.simps(2) filter_append)
    moreover have "xs ! a \<in> set (filter P (take b xs))" using that by (auto simp: in_set_conv_nth intro!: exI [of _ a])
    then have "f (xs ! a) \<in> f ` set (filter P (take b xs))" by (rule imageI)
    moreover have "f (xs ! b) \<notin> f ` set us" if "distinct (map f (us @ xs ! b # vs))" for us vs
      using that by auto
    ultimately show ?thesis using assms(1) by metis
  qed
  show ?thesis using * [of i j] * [of j i] assms(2-6) by (cases "i < j") auto
qed

lemma Sealed_log_id: "log_shape sha pid rs \<Longrightarrow> k < length rs \<Longrightarrow> Sealed (rs ! k) \<Longrightarrow> (\<And>z. IsHash (sha z)) \<Longrightarrow> ar_ID (rs ! k) \<noteq> []"
proof -
  assume "log_shape sha pid rs" "k < length rs" "Sealed (rs ! k)" and h: "\<And>z. IsHash (sha z)"
  from log_shape_nth(3) [OF this(1-3)] obtain z where "ar_ID (rs ! k) = sha z" unfolding ApplyHash_eq rbind_Inr_iff by (metis sum.inject(2))
  then show ?thesis using h [of z] by (auto simp: IsHash_def)
qed

text \<open>A directory without attempts of the proposal, and what it holds after any of the steps.\<close>

lemma git_ships_log:
  assumes "git_ok g" "IsHash pid" "\<And>n. map_of (gs_Applies g) (pid, n) = None"
    and "(ships_step sha git_ops pid)\<^sup>*\<^sup>* (g, \<lambda>_. None) (g1, c1)" "(ships_step sha git_ops pid)\<^sup>*\<^sup>* (g1, c1) (g2, c2)"
  obtains rs1 rs2 where "holds_shape sha git_ops pid (g1, c1) rs1" "ApplyAttempts git_ops g1 pid = Inr rs1"
    "holds_shape sha git_ops pid (g2, c2) rs2" "ApplyAttempts git_ops g2 pid = Inr rs2" "grows rs1 rs2"
proof -
  have "holds_shape sha git_ops pid (g, \<lambda>_. None) []"
    using assms(3) by (simp add: holds_shape_def log_shape_def git_ReadApply_def)
  from gita.ships_steps_log [OF assms(4) _ assms(2) this] assms(1)
  obtain rs1 where 1: "git_ok g1" "holds_shape sha git_ops pid (g1, c1) rs1" by auto
  from gita.ships_steps_log [OF assms(5) _ assms(2) 1(2)] 1(1)
  obtain rs2 where 2: "git_ok g2" "holds_shape sha git_ops pid (g2, c2) rs2" "grows rs1 rs2" by auto
  show ?thesis
    by (rule that [OF 1(2) gita.shape_attempts [OF 1(1) assms(2) 1(2)] 2(2) gita.shape_attempts [OF 2(1) assms(2) 2(2)] 2(3)])
qed

text \<open>
  Overlapping ships of one proposal keep the log. Whatever number of processes begin, save and seal
  attempts of a proposal on a directory, their steps interleaved in any way and any of them dying at any
  point: the attempts read back are numbered from one without a gap, the identifier of a sealed attempt is
  its hash, each attempt names no parent or a sealed attempt before it, no attempt ever disappears or
  changes its parent, and a sealed attempt is never changed again.
\<close>

theorem git_overlapping_ships:
  assumes "git_ok g" "IsHash pid" "\<And>n. map_of (gs_Applies g) (pid, n) = None"
    and "(ships_step sha git_ops pid)\<^sup>*\<^sup>* (g, \<lambda>_. None) (g1, c1)" "(ships_step sha git_ops pid)\<^sup>*\<^sup>* (g1, c1) (g2, c2)"
  shows "\<exists>rs1 rs2. ApplyAttempts git_ops g1 pid = Inr rs1 \<and> ApplyAttempts git_ops g2 pid = Inr rs2 \<and>
    log_shape sha pid rs2 \<and> length rs1 \<le> length rs2 \<and>
    (\<forall>k < length rs1. ar_Parent (rs2 ! k) = ar_Parent (rs1 ! k) \<and> (Sealed (rs1 ! k) \<longrightarrow> rs2 ! k = rs1 ! k))"
proof (rule git_ships_log [OF assms])
  fix rs1 rs2
  assume "ApplyAttempts git_ops g1 pid = Inr rs1" "holds_shape sha git_ops pid (g2, c2) rs2"
    "ApplyAttempts git_ops g2 pid = Inr rs2" "grows rs1 rs2"
  then show ?thesis unfolding grows_def holds_shape_def by blast
qed

text \<open>Two ships of one proposal: the second begins before the first is sealed.\<close>

definition twin_attempt :: ApplyRecord where
  "twin_attempt = sample_attempt\<lparr>ar_Attempt := 2\<rparr>"

definition twin_summary :: ApplySummary where
  "twin_summary = sample_summary\<lparr>as_Outcome := ''failed''\<rparr>"

definition parity_sha :: "string \<Rightarrow> string" where
  "parity_sha s = replicate 64 (if even (length s) then CHR ''a'' else CHR ''b'')"

definition sealed_by :: "ApplyRecord \<Rightarrow> ApplySummary \<Rightarrow> ApplyRecord" where
  "sealed_by r summary = r\<lparr>ar_Summary := Some summary, ar_ID := projr (ApplyHash parity_sha (r\<lparr>ar_Summary := Some summary\<rparr>))\<rparr>"

definition both :: "ApplyRecord \<Rightarrow> ApplyRecord \<Rightarrow> git_store" where
  "both r q = git_empty\<lparr>gs_Applies := [((sample_sha [], 1), ApplyBlob r), ((sample_sha [], 2), ApplyBlob q)]\<rparr>"

lemma IsHash_parity_sha: "IsHash (parity_sha s)"
  by (simp add: IsHash_def parity_sha_def list_all_iff is_hex_def less_eq_char_def)

lemma twin_hashes:
  "ApplyHash parity_sha (sample_attempt\<lparr>ar_Summary := Some sample_summary\<rparr>) = Inr (replicate 64 (CHR ''b''))"
  "ApplyHash parity_sha (twin_attempt\<lparr>ar_Summary := Some twin_summary\<rparr>) = Inr (replicate 64 (CHR ''a''))"
  by code_simp+

lemma sealed_by_first: "sealed_by sample_attempt sample_summary =
    sample_attempt\<lparr>ar_Summary := Some sample_summary, ar_ID := replicate 64 (CHR ''b'')\<rparr>"
  by (simp add: sealed_by_def twin_hashes)

lemma sealed_by_twin: "sealed_by twin_attempt twin_summary =
    twin_attempt\<lparr>ar_Summary := Some twin_summary, ar_ID := replicate 64 (CHR ''a'')\<rparr>"
  by (simp add: sealed_by_def twin_hashes)

abbreviation twin_ships :: "git_store \<times> (nat \<Rightarrow> ApplyRecord option) \<Rightarrow> git_store \<times> (nat \<Rightarrow> ApplyRecord option) \<Rightarrow> bool" where
  "twin_ships \<equiv> ships_step parity_sha git_ops (sample_sha [])"

definition in_hand :: "ApplyRecord \<Rightarrow> ApplyRecord \<Rightarrow> nat \<Rightarrow> ApplyRecord option" where
  "in_hand r q = (\<lambda>_. None)(0 := Some r, 1 := Some q)"

lemma twin_begins:
  "twin_ships\<^sup>*\<^sup>* (git_empty, \<lambda>_. None) (both sample_attempt twin_attempt, in_hand sample_attempt twin_attempt)"
proof -
  have "BeginApply git_ops git_empty (sample_sha []) = Inr (sample_attempt, holding sample_attempt)"
    by (simp add: BeginApply_def ApplyAttempts_def git_ListApplyAttempts_def git_empty_def writeApplyFile_def
        git_WriteApply_def sample_attempt_def holding_def lastSealed_def nextAttempt_def ApplyRecordSchemaVersion_def
        Let_def)
  then have 1: "twin_ships (git_empty, \<lambda>_. None) (holding sample_attempt, (\<lambda>_. None)(0 := Some sample_attempt))"
    by (intro ships_step.process apply_step.begins)
  have "BeginApply git_ops (holding sample_attempt) (sample_sha []) = Inr (twin_attempt, both sample_attempt twin_attempt)"
    by (simp add: BeginApply_def ApplyAttempts_def git_ListApplyAttempts_def git_ReadApply_def git_empty_def writeApplyFile_def
        git_WriteApply_def sample_attempt_def twin_attempt_def holding_def both_def lastSealed_def nextAttempt_def
        ApplyRecordSchemaVersion_def Sealed_def IsHash_sample_sha Let_def)
  then have 2: "twin_ships (holding sample_attempt, (\<lambda>_. None)(0 := Some sample_attempt))
      (both sample_attempt twin_attempt, in_hand sample_attempt twin_attempt)"
    unfolding in_hand_def by (intro ships_step.process apply_step.begins)
  from 1 2 show ?thesis by (meson converse_rtranclp_into_rtranclp rtranclp.rtrancl_refl)
qed

lemma twin_seals:
  "twin_ships\<^sup>*\<^sup>* (both sample_attempt twin_attempt, in_hand sample_attempt twin_attempt)
     (both (sealed_by sample_attempt sample_summary) (sealed_by twin_attempt twin_summary),
      in_hand (sealed_by sample_attempt sample_summary) (sealed_by twin_attempt twin_summary))"
proof -
  let ?r = "sealed_by sample_attempt sample_summary" and ?q = "sealed_by twin_attempt twin_summary"
  have "SealApply parity_sha git_ops (both sample_attempt twin_attempt) sample_attempt sample_summary = Inr (?r, both ?r twin_attempt)"
    by (simp add: SealApply_def Sealed_def sealed_by_first writeApplyFile_def git_WriteApply_def both_def Let_def twin_hashes)
      (simp add: sample_attempt_def)
  then have 1: "twin_ships (both sample_attempt twin_attempt, in_hand sample_attempt twin_attempt)
      (both ?r twin_attempt, (in_hand sample_attempt twin_attempt)(0 := Some ?r))"
    by (intro ships_step.process) (simp add: in_hand_def apply_step.seals)
  have "SealApply parity_sha git_ops (both ?r twin_attempt) twin_attempt twin_summary = Inr (?q, both ?r ?q)"
    by (simp add: SealApply_def Sealed_def sealed_by_twin writeApplyFile_def git_WriteApply_def both_def Let_def twin_hashes)
      (simp add: twin_attempt_def sample_attempt_def)
  then have "twin_ships (both ?r twin_attempt, (in_hand sample_attempt twin_attempt)(0 := Some ?r))
      (both ?r ?q, (in_hand sample_attempt twin_attempt)(0 := Some ?r, 1 := Some ?q))"
    by (intro ships_step.process) (simp add: in_hand_def apply_step.seals)
  moreover have "(in_hand sample_attempt twin_attempt)(0 := Some ?r, 1 := Some ?q) = in_hand ?r ?q"
    by (auto simp: in_hand_def)
  ultimately show ?thesis using 1 by (metis converse_rtranclp_into_rtranclp rtranclp.rtrancl_refl)
qed

lemma git_overlapping_ships_witness:
  "\<exists>rs1 rs2. ApplyAttempts git_ops (both sample_attempt twin_attempt) (sample_sha []) = Inr rs1 \<and>
    ApplyAttempts git_ops (both (sealed_by sample_attempt sample_summary) (sealed_by twin_attempt twin_summary)) (sample_sha []) = Inr rs2 \<and>
    log_shape parity_sha (sample_sha []) rs2 \<and> length rs1 \<le> length rs2 \<and>
    (\<forall>k < length rs1. ar_Parent (rs2 ! k) = ar_Parent (rs1 ! k) \<and> (Sealed (rs1 ! k) \<longrightarrow> rs2 ! k = rs1 ! k))"
  by (rule git_overlapping_ships [OF _ IsHash_sample_sha _ twin_begins twin_seals])
    (simp_all add: git_ok_def git_empty_def git_Head_def)

text \<open>
  C39. But overlapping ships verify as a broken chain. When an attempt is still open while a later one has
  already begun, which the lock allows as it is only held while an attempt begins, and both are sealed in
  the end, in whichever order and whatever else happens, verification reports a break in the apply
  chain of the proposal: nobody has touched the ledger, and the later attempt, or one before it, does not
  name the sealed attempt in front of it. (No two sealed attempts have the same hash.)
\<close>

theorem overlapping_ships_break:
  assumes "git_ok g" "IsHash pid" "\<And>n. map_of (gs_Applies g) (pid, n) = None" "\<And>z. IsHash (sha z)"
    and "(ships_step sha git_ops pid)\<^sup>*\<^sup>* (g, \<lambda>_. None) (g1, c1)" "(ships_step sha git_ops pid)\<^sup>*\<^sup>* (g1, c1) (g2, c2)"
    and "c1 i = Some r" "\<not> Sealed r" "c1 j = Some q" "ar_Attempt r < ar_Attempt q"
    and "ReadApply git_ops g2 pid (ar_Attempt r) = Inr r'" "Sealed r'"
    and "ReadApply git_ops g2 pid (ar_Attempt q) = Inr q'" "Sealed q'"
    and "ApplyAttempts git_ops g2 pid = Inr rs" "distinct (map ar_ID (filter Sealed rs))"
  shows "\<exists>fs. verifyApplyChain sha git_ops g2 pid = Inr fs \<and> finding pid FindingApplyChainBreak \<in> set fs"
proof (rule git_ships_log [OF assms(1-3,5,6)])
  fix rs1 rs2
  assume 1: "holds_shape sha git_ops pid (g1, c1) rs1" and 2: "holds_shape sha git_ops pid (g2, c2) rs2"
    and r2: "ApplyAttempts git_ops g2 pid = Inr rs2" and g: "grows rs1 rs2"
  have rs: "rs2 = rs" using r2 assms(15) by simp
  have s1: "log_shape sha pid rs1" and s2: "log_shape sha pid rs" using 1 2 rs by (simp_all add: holds_shape_def)
  from holds_shape_at [OF 1 assms(7)] obtain a where a: "a < length rs1" "rs1 ! a = r" by blast
  from holds_shape_at [OF 1 assms(9)] obtain b where b: "b < length rs1" "rs1 ! b = q" by blast
  have na: "ar_Attempt r = 1 + int a" and nb: "ar_Attempt q = 1 + int b"
    using log_shape_nth(1) [OF s1 a(1)] log_shape_nth(1) [OF s1 b(1)] a(2) b(2) by simp_all
  have len: "length rs1 \<le> length rs" using g rs by (simp add: grows_def)
  have at: "ReadApply git_ops g2 pid (1 + int k) = Inr (rs ! k)" if "k < length rs" for k
    using 2 that rs by (simp add: holds_shape_def ReadApply_def)
  have sealed: "Sealed (rs ! a)" "Sealed (rs ! b)"
    using at [of a] at [of b] a(1) b(1) len assms(11-14) na nb by simp_all
  have al: "a < length rs" using a(1) len by simp
  have "finding pid FindingApplyChainBreak \<in> set (fst (fold (checkAttempt sha pid) rs ([], [])))"
  proof (rule overlap_breaks [OF s1 s2 g [unfolded rs] _ b(1) _ sealed])
    show "a < b" using assms(10) na nb by simp
    show "\<not> Sealed (rs1 ! a)" using assms(8) a(2) by simp
    show "ar_ID (rs ! k) \<noteq> ar_ID (rs ! a)" if "k < length rs" "k \<noteq> a" "Sealed (rs ! k)" for k
      by (rule distinct_filtered_ids [OF assms(16) that(1) al that(2,3) sealed(1)])
    show "ar_ID (rs ! a) \<noteq> []" by (rule Sealed_log_id [OF s2 al sealed(1) assms(4)])
  qed
  then show ?thesis using r2 rs by (simp add: verifyApplyChain_def)
qed

lemma overlapping_ships_break_witness:
  "\<exists>fs. verifyApplyChain parity_sha git_ops
      (both (sealed_by sample_attempt sample_summary) (sealed_by twin_attempt twin_summary)) (sample_sha []) = Inr fs \<and>
    finding (sample_sha []) FindingApplyChainBreak \<in> set fs"
proof (rule overlapping_ships_break [OF _ IsHash_sample_sha _ IsHash_parity_sha twin_begins twin_seals,
      of 0 sample_attempt 1 twin_attempt "sealed_by sample_attempt sample_summary" "sealed_by twin_attempt twin_summary"
        "[sealed_by sample_attempt sample_summary, sealed_by twin_attempt twin_summary]"])
qed (simp_all only: sealed_by_first sealed_by_twin,
    simp_all add: git_ok_def git_empty_def git_Head_def in_hand_def both_def ReadApply_def git_ReadApply_def ApplyAttempts_def
      git_ListApplyAttempts_def IsHash_sample_sha Sealed_def sample_attempt_def twin_attempt_def)

end
