(* ===== verification/Scan.thy ===== *)
theory Scan
  imports Fold Verify
begin

text \<open>
  core/scan.go: observing a resource through a provider, comparing the observation with what the
  ledger says, and proposing to adopt it or to revert it. A provider is a record of operations on a
  world; nothing is assumed of it.
\<close>

section \<open>Reading a resource\<close>

record ('w, 'sch) StateReader =
  rd_Schema :: "('w, err, 'sch \<times> (string \<Rightarrow> 'sch option)) op"
  rd_Configure :: "'sch \<Rightarrow> raw \<Rightarrow> ('w, err, unit) op"
  rd_ReadResource :: "'sch \<Rightarrow> string \<Rightarrow> raw \<Rightarrow> ('w, err, raw) op"

text \<open>The text that hints at a resource's lookup fields is left out of the error.\<close>

definition readAndFingerprint ::
    "(string \<Rightarrow> string) \<Rightarrow> ('w, 'sch, 'x) StateReader_scheme \<Rightarrow> string \<Rightarrow> raw \<Rightarrow> raw \<Rightarrow>
     ('w, err, gval \<times> string \<times> 'sch) op" where
  "readAndFingerprint sha prov ty providerConfig currentState =
     obind (rd_Schema prov) (\<lambda>(providerSchema, resourceSchemas).
     obind (oret (of_opt ErrUnknownResourceType (resourceSchemas ty))) (\<lambda>resourceSchema.
     obind (rd_Configure prov providerSchema providerConfig) (\<lambda>_.
     obind (rd_ReadResource prov resourceSchema ty currentState) (\<lambda>observed.
       oret (if observed = None \<or> observed = Some GNil then Inl ErrResourceUnreadable
             else rbind (ObservedHash sha observed) (\<lambda>hash. Inr (the observed, hash, resourceSchema)))))))"

definition ReadAndFingerprint ::
    "(string \<Rightarrow> string) \<Rightarrow> ('w, 'sch, 'x) StateReader_scheme \<Rightarrow> string \<Rightarrow> raw \<Rightarrow> raw \<Rightarrow>
     ('w, err, gval \<times> string) op" where
  "ReadAndFingerprint sha prov ty providerConfig currentState =
     obind (readAndFingerprint sha prov ty providerConfig currentState)
       (\<lambda>(observed, hash, _). oret (Inr (observed, hash)))"

section \<open>Normalization noise\<close>

text \<open>
  A schema may say which attributes the provider owns: \<open>None\<close> when it does not implement the
  question. A literal is compared by its compact text.
\<close>

type_synonym ownership = "(string \<Rightarrow> bool) option"

definition isJSONNull :: "gval option \<Rightarrow> bool" where
  "isJSONNull v = (v = Some GNil)"

definition isZeroishLiteral :: "gval option \<Rightarrow> bool" where
  "isZeroishLiteral v = (case v of
      None \<Rightarrow> False
    | Some v \<Rightarrow> marshal_text v \<in> set [''false'', ''0'', [CHR 0x22, CHR 0x22], ''[]'', ''{}''])"

definition topAttr :: "string \<Rightarrow> string" where
  "topAttr key = takeWhile (\<lambda>c. c \<noteq> CHR ''.'') key"

definition ownedAttr :: "ownership \<Rightarrow> string \<Rightarrow> bool" where
  "ownedAttr owned a = (case owned of None \<Rightarrow> False | Some f \<Rightarrow> f a)"

definition isNormalizationExplained :: "string \<Rightarrow> diff \<Rightarrow> ownership \<Rightarrow> bool" where
  "isNormalizationExplained key d owned =
     (let b = map_of (fst d) key; a = map_of (snd d) key
      in if (b \<noteq> None) \<noteq> (a \<noteq> None) then
           let present = (if a \<noteq> None then a else b)
           in ownedAttr owned (topAttr key) \<or> isJSONNull present \<or> isZeroishLiteral present
         else
           let bNull = isJSONNull b; aNull = isJSONNull a
           in if \<not> bNull \<and> \<not> aNull then False
              else ownedAttr owned (topAttr key) \<or> isZeroishLiteral (if aNull then b else a))"

definition FilterNormalizationNoise :: "ownership \<Rightarrow> diff \<Rightarrow> diff" where
  "FilterNormalizationNoise owned d =
     (filter (\<lambda>b. \<not> isNormalizationExplained (fst b) d owned) (fst d),
      filter (\<lambda>b. \<not> isNormalizationExplained (fst b) d owned) (snd d))"

section \<open>Scanning\<close>

datatype ScanOutcome = ScanUnchanged | ScanNew | ScanDrifted

record 'sch ScanResult =
  sr_Address :: Address
  sr_Outcome :: ScanOutcome
  sr_Observed :: gval
  sr_ObservedHash :: string
  sr_PreviousHash :: string
  sr_Lookup :: raw
  sr_PreviousState :: raw
  sr_ProviderChecksum :: string
  sr_ResourceSchema :: 'sch

record ScanRequest =
  sq_Address :: Address
  sq_ProviderConfig :: raw
  sq_CurrentState :: raw
  sq_ProviderChecksum :: string

text \<open>Whether noise is all that separates two states.\<close>

definition only_noise :: "ownership \<Rightarrow> raw \<Rightarrow> gval \<Rightarrow> bool" where
  "only_noise owned foldedState observed = (case DiffAttributes foldedState (Some observed) of
      None \<Rightarrow> False
    | Some d \<Rightarrow> FilterNormalizationNoise owned d = ([], []))"

definition RunScan ::
    "(string \<Rightarrow> string) \<Rightarrow> ('w, 'sch, 'x) StateReader_scheme \<Rightarrow> ('sch \<Rightarrow> ownership) \<Rightarrow> 's store_ops \<Rightarrow> 's \<Rightarrow>
     ScanRequest \<Rightarrow> 'w \<Rightarrow> ((err, 'sch ScanResult) res \<times> 'w) option" where
  "RunScan sha prov owns ops s req w =
     (case readAndFingerprint sha prov (addr_Type (sq_Address req)) (sq_ProviderConfig req) (sq_CurrentState req) w of
        (Inl e, w') \<Rightarrow> Some (Inl e, w')
      | (Inr (observed, hash, sch), w') \<Rightarrow>
          map_option (\<lambda>folded. (rbind folded (\<lambda>(foldedState, found).
            rbind (if found then ObservedHash sha foldedState else Inr []) (\<lambda>prevHash.
            Inr \<lparr>sr_Address = sq_Address req,
                 sr_Outcome = (if \<not> found then ScanNew
                   else if prevHash \<noteq> hash then
                     (if only_noise (owns sch) foldedState observed then ScanUnchanged else ScanDrifted)
                   else ScanUnchanged),
                 sr_Observed = observed, sr_ObservedHash = hash, sr_PreviousHash = prevHash,
                 sr_Lookup = sq_CurrentState req, sr_PreviousState = foldedState,
                 sr_ProviderChecksum = sq_ProviderChecksum req, sr_ResourceSchema = sch\<rparr>)), w'))
            (FoldState ops s (sq_Address req)))"

section \<open>Proposing\<close>

definition scanInput :: "'sch ScanResult \<Rightarrow> ResolutionInput" where
  "scanInput r = \<lparr>in_Kind = ''live_state'', in_Resource = addr_String (sr_Address r), in_From = [],
     in_ObservedHash = sr_ObservedHash r, in_Lookup = sr_Lookup r, in_ProviderChecksum = sr_ProviderChecksum r,
     in_PinnedHead = [], in_LedgerDir = [], in_Status = [], in_CheckedLedgerDirs = []\<rparr>"

definition plainIntent :: "string \<Rightarrow> Intent" where
  "plainIntent summary = \<lparr>int_Summary = summary, int_Sources = [], int_Assumptions = [], int_Defaults = [], int_Questions = []\<rparr>"

text \<open>The proposal both generators build, on the head, from the clock's time and the scan.\<close>

definition scanProposal ::
    "string \<Rightarrow> string \<Rightarrow> string \<Rightarrow> string \<Rightarrow> Intent \<Rightarrow> Delta \<Rightarrow> int \<Rightarrow> 'sch ScanResult \<Rightarrow> Proposal" where
  "scanProposal now stack head kind intent delta modifies r = \<lparr>p_SchemaVersion = SchemaVersion, p_ID = [], p_Stack = stack,
     p_Parent = head, p_Kind = kind, p_Intent = intent, p_Delta = delta,
     p_Resolution = \<lparr>rs_ResolvedAt = now, rs_Inputs = [scanInput r]\<rparr>,
     p_CostDelta = Some (GNumber ''0''), p_BlastRadius = \<lparr>br_Creates = 0, br_Modifies = modifies, br_Destroys = 0\<rparr>,
     p_InvariantsChecked = [], p_Acceptance = None, p_Status = StatusDraft\<rparr>"

definition adoptedNode :: "'sch ScanResult \<Rightarrow> raw" where
  "adoptedNode r = Some (GObj [(''name'', GStr (addr_Name (sr_Address r))), (''stack'', GStr (addr_Stack (sr_Address r))),
     (''state'', sr_Observed r), (''type'', GStr (addr_Type (sr_Address r)))])"

definition patchOf :: "Address \<Rightarrow> diff \<Rightarrow> Modification" where
  "patchOf addr d = \<lparr>mod_Target = addr, mod_Before = raws (fst d), mod_After = raws (snd d), mod_DependsOn = [],
     mod_Provider = None, mod_Sources = []\<rparr>"

text \<open>The filtered difference between what is recorded and what is to be, in one direction.\<close>

definition realDiff :: "ownership \<Rightarrow> raw \<Rightarrow> raw \<Rightarrow> (err, diff) res" where
  "realDiff owned before after =
     rbind (of_opt EJson (DiffAttributes before after)) (\<lambda>d.
       let d = FilterNormalizationNoise owned d
       in if d = ([], []) then Inl ErrNormalizationNoiseOnly else Inr d)"

definition GenerateProposal ::
    "('sch \<Rightarrow> ownership) \<Rightarrow> string \<Rightarrow> 's store_ops \<Rightarrow> 's \<Rightarrow> string \<Rightarrow> 'sch ScanResult \<Rightarrow> (err, Proposal) res option" where
  "GenerateProposal owns now ops s stack r =
     (if sr_Outcome r = ScanUnchanged then Some (Inl (EMsg ''generate proposal: scan result is unchanged, nothing to propose''))
      else case so_Head ops s of
        Inl e \<Rightarrow> Some (Inl e)
      | Inr head \<Rightarrow>
          if sr_Outcome r = ScanNew
          then Some (Inr (scanProposal now stack head KindAdoption
                 (plainIntent (''adopt existing '' @ addr_String (sr_Address r) @ '' into the ledger (discovered by scan)''))
                 \<lparr>d_Creates = [adoptedNode r], d_Modifies = [], d_Destroys = []\<rparr> 0 r))
          else map_option (\<lambda>folded. rbind folded (\<lambda>(prevState, found).
                 if \<not> found then Inl ErrCorruptLedgerEntry
                 else rbind (realDiff (owns (sr_ResourceSchema r)) prevState (Some (sr_Observed r))) (\<lambda>d.
                   Inr (scanProposal now stack head KindDriftAdopt
                     (plainIntent (''record drift on '' @ addr_String (sr_Address r) @ '' observed outside the ledger''))
                     \<lparr>d_Creates = [], d_Modifies = [patchOf (sr_Address r) d], d_Destroys = []\<rparr> 0 r))))
               (FoldState ops s (sr_Address r)))"

definition GenerateRevertProposal ::
    "('sch \<Rightarrow> ownership) \<Rightarrow> string \<Rightarrow> 's store_ops \<Rightarrow> 's \<Rightarrow> string \<Rightarrow> 'sch ScanResult \<Rightarrow> (err, Proposal) res option" where
  "GenerateRevertProposal owns now ops s stack r =
     (if sr_Outcome r \<noteq> ScanDrifted
      then Some (Inl (EMsg ''generate revert proposal: scan result is not drifted, nothing to revert''))
      else case so_Head ops s of
        Inl e \<Rightarrow> Some (Inl e)
      | Inr head \<Rightarrow>
          map_option (\<lambda>folded. rbind folded (\<lambda>(prevState, found).
            if \<not> found then Inl ErrCorruptLedgerEntry
            else rbind (realDiff (owns (sr_ResourceSchema r)) (Some (sr_Observed r)) prevState) (\<lambda>d.
              Inr (scanProposal now stack head KindDriftRevert
                (plainIntent (''revert '' @ addr_String (sr_Address r) @ '' back to the ledger'' @ [CHR 0x27] @ ''s recorded state''))
                \<lparr>d_Creates = [], d_Modifies = [patchOf (sr_Address r) d], d_Destroys = []\<rparr> 1 r))))
            (FoldState ops s (sr_Address r)))"

section \<open>Freshness\<close>

definition VerifyFreshness ::
    "(string \<Rightarrow> string) \<Rightarrow> ('w, 'sch, 'x) StateReader_scheme \<Rightarrow> ('sch \<Rightarrow> ownership) \<Rightarrow> 's store_ops \<Rightarrow> 's \<Rightarrow>
     Address \<Rightarrow> raw \<Rightarrow> Proposal \<Rightarrow> 'w \<Rightarrow> ((err, unit) res \<times> 'w) option" where
  "VerifyFreshness sha prov owns ops s addr providerConfig p w =
     (case find (\<lambda>i. in_Resource i = addr_String addr) (rs_Inputs (p_Resolution p)) of
        None \<Rightarrow> Some (Inl (EMsg ''verify freshness: no resolution.inputs entry''), w)
      | Some i \<Rightarrow>
          if in_Lookup i = None then Some (Inl (EMsg ''verify freshness: no recorded lookup key''), w)
          else case readAndFingerprint sha prov (addr_Type addr) providerConfig (in_Lookup i) w of
            (Inl e, w') \<Rightarrow> Some (Inl e, w')
          | (Inr (observed, fresh, sch), w') \<Rightarrow>
              if fresh = in_ObservedHash i then Some (Inr (), w')
              else map_option (\<lambda>folded. (case folded of
                  Inr (foldedState, True) \<Rightarrow>
                    if only_noise (owns sch) foldedState observed then Inr () else Inl ErrStaleObservation
                | _ \<Rightarrow> Inl ErrStaleObservation, w')) (FoldState ops s addr))"

fun dataSourcesFresh ::
    "(string \<Rightarrow> string) \<Rightarrow> ('w, 'sch, 'x) StateReader_scheme \<Rightarrow> raw \<Rightarrow> ResolutionInput list \<Rightarrow> ('w, err, unit) op" where
  "dataSourcesFresh sha prov providerConfig [] = oret (Inr ())"
| "dataSourcesFresh sha prov providerConfig (i # is) =
     (if in_Kind i \<noteq> ''data_source'' then dataSourcesFresh sha prov providerConfig is
      else case ParseAddress (in_Resource i) of
        None \<Rightarrow> oret (Inl (EMsg ''verify data source freshness: not a valid address''))
      | Some addr \<Rightarrow>
          if in_Lookup i = None then oret (Inl (EMsg ''verify data source freshness: no recorded lookup key''))
          else obind (readAndFingerprint sha prov (addr_Type addr) providerConfig (in_Lookup i)) (\<lambda>(_, fresh, _).
            if fresh \<noteq> in_ObservedHash i then oret (Inl ErrStaleObservation)
            else dataSourcesFresh sha prov providerConfig is))"

definition VerifyDataSourceFreshness ::
    "(string \<Rightarrow> string) \<Rightarrow> ('w, 'sch, 'x) StateReader_scheme \<Rightarrow> raw \<Rightarrow> Proposal \<Rightarrow> ('w, err, unit) op" where
  "VerifyDataSourceFreshness sha prov providerConfig p =
     dataSourcesFresh sha prov providerConfig (rs_Inputs (p_Resolution p))"

section \<open>What the noise filter drops\<close>

lemma map_of_filter_key: "map_of (filter (\<lambda>b. P (fst b)) m) k = (if P k then map_of m k else None)"
  by (induction m) auto

lemma filter_noise_map_of:
  "map_of (fst (FilterNormalizationNoise owned d)) k =
     (if isNormalizationExplained k d owned then None else map_of (fst d) k)"
  "map_of (snd (FilterNormalizationNoise owned d)) k =
     (if isNormalizationExplained k d owned then None else map_of (snd d) k)"
  by (simp_all add: FilterNormalizationNoise_def map_of_filter_key [where P = "\<lambda>k. \<not> isNormalizationExplained k d owned"])

lemma explained_cong:
  "map_of (fst d) k = map_of (fst e) k \<Longrightarrow> map_of (snd d) k = map_of (snd e) k \<Longrightarrow>
   isNormalizationExplained k d owned = isNormalizationExplained k e owned"
  by (simp only: isNormalizationExplained_def)

text \<open>Absent or null; and additionally one of the literals that mean nothing.\<close>

definition blank :: "gval option \<Rightarrow> bool" where
  "blank v \<longleftrightarrow> v = None \<or> v = Some GNil"

definition quiet :: "gval option \<Rightarrow> bool" where
  "quiet v \<longleftrightarrow> blank v \<or> isZeroishLiteral v"

lemma explained_iff:
  assumes "map_of (fst d) k \<noteq> map_of (snd d) k"
  shows "isNormalizationExplained k d owned \<longleftrightarrow>
    (blank (map_of (fst d) k) \<or> blank (map_of (snd d) k)) \<and>
    (ownedAttr owned (topAttr k) \<or> quiet (if blank (map_of (snd d) k) then map_of (fst d) k else map_of (snd d) k))"
  using assms
  by (cases "map_of (fst d) k"; cases "map_of (snd d) k")
    (auto simp: isNormalizationExplained_def blank_def quiet_def isJSONNull_def isZeroishLiteral_def Let_def split: if_splits)

text \<open>
  The filter drops an attribute of a difference exactly when one side has no value for it,
  absent or null, and the provider owns the attribute or the other side says nothing either (null,
  false, zero, or empty). What it keeps it keeps with its values, and filtering again changes
  nothing. So no attribute with two different values is ever dropped.
\<close>

theorem noise_filter_exact:
  assumes "map_of (fst d) k \<noteq> map_of (snd d) k"
  shows "(let f = FilterNormalizationNoise owned d; b = map_of (fst d) k; a = map_of (snd d) k;
       dropped = (blank b \<or> blank a) \<and> (ownedAttr owned (topAttr k) \<or> quiet (if blank a then b else a))
     in map_of (fst f) k = (if dropped then None else b) \<and> map_of (snd f) k = (if dropped then None else a) \<and>
        FilterNormalizationNoise owned f = f)"
proof -
  let ?f = "FilterNormalizationNoise owned d"
  have same: "isNormalizationExplained j ?f owned = isNormalizationExplained j d owned" if "\<not> isNormalizationExplained j d owned" for j
    by (rule explained_cong) (simp_all add: filter_noise_map_of that)
  have "\<forall>b \<in> set (fst ?f) \<union> set (snd ?f). \<not> isNormalizationExplained (fst b) d owned"
    by (auto simp: FilterNormalizationNoise_def)
  then have "filter (\<lambda>b. \<not> isNormalizationExplained (fst b) ?f owned) (fst ?f) = fst ?f"
    "filter (\<lambda>b. \<not> isNormalizationExplained (fst b) ?f owned) (snd ?f) = snd ?f"
    by (simp_all add: filter_id_conv same)
  then have "FilterNormalizationNoise owned ?f = ?f"
    by (subst FilterNormalizationNoise_def) (simp only: prod.collapse)
  then show ?thesis using explained_iff [OF assms] by (simp add: Let_def filter_noise_map_of)
qed

lemma noise_filter_exact_witness:
  "(let d = ([(''acl'', GStr ''a''), (''tags'', GNil)], [(''acl'', GStr ''b''), (''tags'', GObj [])]);
        f = FilterNormalizationNoise None d; b = map_of (fst d) ''acl''; a = map_of (snd d) ''acl'';
       dropped = (blank b \<or> blank a) \<and> (ownedAttr None (topAttr ''acl'') \<or> quiet (if blank a then b else a))
     in map_of (fst f) ''acl'' = (if dropped then None else b) \<and> map_of (snd f) ''acl'' = (if dropped then None else a) \<and>
        FilterNormalizationNoise None f = f)"
  unfolding Let_def by (rule noise_filter_exact [unfolded Let_def]) simp

section \<open>Freshness\<close>

lemma DiffAttributes_no_noise_left:
  assumes "only_noise owned before after" "DiffAttributes before (Some after) = Some d"
    and "map_of (fst d) k = Some b" "map_of (snd d) k = Some a" "b \<noteq> a"
  shows "b = GNil \<or> a = GNil"
proof -
  have f: "FilterNormalizationNoise owned d = ([], [])" using assms(1, 2) by (simp add: only_noise_def)
  have "isNormalizationExplained k d owned"
    using filter_noise_map_of(1) [of owned d k] f assms(3) by (auto split: if_splits)
  then show ?thesis using explained_iff [of d k owned] assms(3-5) by (auto simp: blank_def)
qed

text \<open>
  When freshness is verified, the resource was read with the lookup key of the first input that
  names it, and either it hashes to what was signed, or the ledger has a state for it and every
  attribute on which that state and the observation hold two different values is null on one side.
\<close>

theorem VerifyFreshness_sound:
  assumes "VerifyFreshness sha prov owns ops s addr cfg p w = Some (Inr (), w')"
  shows "\<exists>i observed fresh sch. find (\<lambda>i. in_Resource i = addr_String addr) (rs_Inputs (p_Resolution p)) = Some i \<and>
    in_Lookup i \<noteq> None \<and>
    readAndFingerprint sha prov (addr_Type addr) cfg (in_Lookup i) w = (Inr (observed, fresh, sch), w') \<and>
    (fresh = in_ObservedHash i \<or>
     (\<exists>folded d. FoldState ops s addr = Some (Inr (folded, True)) \<and> DiffAttributes folded (Some observed) = Some d \<and>
        (\<forall>k b a. map_of (fst d) k = Some b \<and> map_of (snd d) k = Some a \<and> b \<noteq> a \<longrightarrow> b = GNil \<or> a = GNil)))"
proof -
  obtain i where i: "find (\<lambda>i. in_Resource i = addr_String addr) (rs_Inputs (p_Resolution p)) = Some i" "in_Lookup i \<noteq> None"
    using assms by (auto simp: VerifyFreshness_def split: option.splits if_splits)
  obtain observed fresh sch w1 where r: "readAndFingerprint sha prov (addr_Type addr) cfg (in_Lookup i) w = (Inr (observed, fresh, sch), w1)"
    using assms i by (auto simp: VerifyFreshness_def split: sum.splits prod.splits)
  show ?thesis
  proof (cases "fresh = in_ObservedHash i")
    case True
    then have "w1 = w'" using assms i r by (auto simp: VerifyFreshness_def)
    then show ?thesis using i r True by blast
  next
    case False
    obtain x where x: "FoldState ops s addr = Some x" "w1 = w'"
      "(case x of Inr (foldedState, True) \<Rightarrow>
          if only_noise (owns sch) foldedState observed then Inr () else Inl ErrStaleObservation
        | _ \<Rightarrow> Inl ErrStaleObservation) = (Inr () :: (err, unit) res)"
      using assms i r False by (auto simp: VerifyFreshness_def)
    then obtain folded where f: "FoldState ops s addr = Some (Inr (folded, True))" "only_noise (owns sch) folded observed" "w1 = w'"
    proof (cases x)
      case (Inr y)
      then show ?thesis using x that by (cases y; cases "snd y") (auto split: if_splits)
    qed simp
    then obtain d where d: "DiffAttributes folded (Some observed) = Some d" by (auto simp: only_noise_def split: option.splits)
    have "\<forall>k b a. map_of (fst d) k = Some b \<and> map_of (snd d) k = Some a \<and> b \<noteq> a \<longrightarrow> b = GNil \<or> a = GNil"
      using DiffAttributes_no_noise_left [OF f(2) d] by blast
    then show ?thesis using i r f(1, 3) d by blast
  qed
qed

text \<open>A provider that answers every read with one state, whatever it is asked.\<close>

definition fixed_reader :: "gval \<Rightarrow> (unit, unit) StateReader" where
  "fixed_reader v = \<lparr>rd_Schema = oret (Inr ((), \<lambda>_. Some ())), rd_Configure = (\<lambda>_ _. oret (Inr ())),
     rd_ReadResource = (\<lambda>_ _ _. oret (Inr (Some v)))\<rparr>"

lemma ObservedHash_no_number: "no_number v \<Longrightarrow> ObservedHash sha (Some v) = Inr (sha (marshal_text v))"
  by (simp add: ObservedHash_def unmarshal_any_def no_number_plain)

lemma fixed_reader_reads:
  "v \<noteq> GNil \<Longrightarrow> no_number v \<Longrightarrow>
   readAndFingerprint sha (fixed_reader v) ty cfg lookup () = (Inr (v, sha (marshal_text v), ()), ())"
  by (simp add: readAndFingerprint_def fixed_reader_def obind_def oret_def ObservedHash_no_number)

lemma VerifyFreshness_sound_witness:
  "\<exists>i observed fresh sch. find (\<lambda>i. in_Resource i = addr_String (Address ''s'' ''t'' ''n''))
      (rs_Inputs (p_Resolution (sample_teardown (Some (GObj []))))) = Some i \<and> in_Lookup i \<noteq> None \<and>
    readAndFingerprint (\<lambda>_. ''h'') (fixed_reader (GObj [])) ''t'' None (in_Lookup i) () = (Inr (observed, fresh, sch), ()) \<and>
    (fresh = in_ObservedHash i \<or>
     (\<exists>folded d. FoldState git_ops git_empty (Address ''s'' ''t'' ''n'') = Some (Inr (folded, True)) \<and>
        DiffAttributes folded (Some observed) = Some d \<and>
        (\<forall>k b a. map_of (fst d) k = Some b \<and> map_of (snd d) k = Some a \<and> b \<noteq> a \<longrightarrow> b = GNil \<or> a = GNil)))"
  by (rule VerifyFreshness_sound [where addr = "Address ''s'' ''t'' ''n''" and owns = "\<lambda>_. None", simplified Address.sel])
    (simp add: VerifyFreshness_def sample_teardown_def sample_proposal_def sample_input_def addr_String_def fixed_reader_reads)

section \<open>Generated proposals\<close>

lemma plainIntent_sources [simp]: "int_Sources (plainIntent x) = []"
  by (simp add: plainIntent_def)

lemma realDiff_Inr: "realDiff owned before after = Inr d \<Longrightarrow>
   \<exists>e. DiffAttributes before after = Some e \<and> d = FilterNormalizationNoise owned e \<and> d \<noteq> ([], [])"
  by (auto simp: realDiff_def rbind_Inr_iff of_opt_Inr_iff Let_def split: if_splits)

text \<open>The three shapes a generated proposal has.\<close>

lemma GenerateProposal_cases:
  assumes "GenerateProposal owns now ops s stack r = Some (Inr p)"
  obtains (adopt) head intent where "so_Head ops s = Inr head" "sr_Outcome r = ScanNew" "int_Sources intent = []"
      "p = scanProposal now stack head KindAdoption intent \<lparr>d_Creates = [adoptedNode r], d_Modifies = [], d_Destroys = []\<rparr> 0 r"
  | (drift) head intent prev d where "so_Head ops s = Inr head" "sr_Outcome r = ScanDrifted" "int_Sources intent = []"
      "FoldState ops s (sr_Address r) = Some (Inr (prev, True))"
      "realDiff (owns (sr_ResourceSchema r)) prev (Some (sr_Observed r)) = Inr d"
      "p = scanProposal now stack head KindDriftAdopt intent
         \<lparr>d_Creates = [], d_Modifies = [patchOf (sr_Address r) d], d_Destroys = []\<rparr> 0 r"
proof (cases "sr_Outcome r")
  case ScanUnchanged
  then show ?thesis using assms by (simp add: GenerateProposal_def)
next
  case ScanNew
  then obtain head where h: "so_Head ops s = Inr head"
    using assms by (auto simp: GenerateProposal_def split: sum.splits)
  have "p = scanProposal now stack head KindAdoption
      (plainIntent (''adopt existing '' @ addr_String (sr_Address r) @ '' into the ledger (discovered by scan)''))
      \<lparr>d_Creates = [adoptedNode r], d_Modifies = [], d_Destroys = []\<rparr> 0 r"
    using assms ScanNew h by (simp add: GenerateProposal_def)
  from adopt [OF h ScanNew _ this] show ?thesis by simp
next
  case ScanDrifted
  then obtain head where h: "so_Head ops s = Inr head"
    using assms by (auto simp: GenerateProposal_def split: sum.splits)
  then obtain prev d where d: "FoldState ops s (sr_Address r) = Some (Inr (prev, True))"
    "realDiff (owns (sr_ResourceSchema r)) prev (Some (sr_Observed r)) = Inr d"
    "p = scanProposal now stack head KindDriftAdopt
      (plainIntent (''record drift on '' @ addr_String (sr_Address r) @ '' observed outside the ledger''))
      \<lparr>d_Creates = [], d_Modifies = [patchOf (sr_Address r) d], d_Destroys = []\<rparr> 0 r"
    using assms ScanDrifted by (auto simp: GenerateProposal_def rbind_Inr_iff split: if_splits)
  from drift [OF h ScanDrifted _ d] show ?thesis by simp
qed

lemma GenerateRevertProposal_cases:
  assumes "GenerateRevertProposal owns now ops s stack r = Some (Inr p)"
  obtains head intent prev d where "so_Head ops s = Inr head" "sr_Outcome r = ScanDrifted" "int_Sources intent = []"
      "FoldState ops s (sr_Address r) = Some (Inr (prev, True))"
      "realDiff (owns (sr_ResourceSchema r)) (Some (sr_Observed r)) prev = Inr d"
      "p = scanProposal now stack head KindDriftRevert intent
         \<lparr>d_Creates = [], d_Modifies = [patchOf (sr_Address r) d], d_Destroys = []\<rparr> 1 r"
proof -
  have o: "sr_Outcome r = ScanDrifted" using assms by (auto simp: GenerateRevertProposal_def split: if_splits)
  then obtain head where h: "so_Head ops s = Inr head"
    using assms by (auto simp: GenerateRevertProposal_def split: sum.splits)
  then obtain prev d where d: "FoldState ops s (sr_Address r) = Some (Inr (prev, True))"
    "realDiff (owns (sr_ResourceSchema r)) (Some (sr_Observed r)) prev = Inr d"
    "p = scanProposal now stack head KindDriftRevert
      (plainIntent (''revert '' @ addr_String (sr_Address r) @ '' back to the ledger'' @ [CHR 0x27] @ ''s recorded state''))
      \<lparr>d_Creates = [], d_Modifies = [patchOf (sr_Address r) d], d_Destroys = []\<rparr> 1 r"
    using assms o by (auto simp: GenerateRevertProposal_def rbind_Inr_iff split: if_splits)
  from that [OF h o _ d] show ?thesis by simp
qed

lemma sources_ok_Nil [simp]: "sources_ok []"
  by (simp add: sources_ok_def)

lemma scanProposal_valid:
  assumes "sr_ObservedHash r \<noteq> []" "int_Sources intent = []"
    and "(kind, d, n) \<in> {(KindAdoption, \<lparr>d_Creates = [adoptedNode r], d_Modifies = [], d_Destroys = []\<rparr>, 0),
      (KindDriftAdopt, \<lparr>d_Creates = [], d_Modifies = [patchOf (sr_Address r) e], d_Destroys = []\<rparr>, 0),
      (KindDriftRevert, \<lparr>d_Creates = [], d_Modifies = [patchOf (sr_Address r) e], d_Destroys = []\<rparr>, 1)}"
  shows "Validate (scanProposal now stack head kind intent d n r) = Inr ()"
proof -
  let ?p = "scanProposal now stack head kind intent d n r"
  have "modifies_proved ?p" using assms
    by (auto simp: modifies_proved_def scanProposal_def scanInput_def last_such_def patchOf_def)
  moreover have "destroys_proved ?p" using assms by (auto simp: destroys_proved_def scanProposal_def)
  moreover have "kind_ok ?p" using assms by (auto simp: kind_ok_def scanProposal_def kind_defs)
  moreover have "\<forall>m \<in> set (d_Modifies d). sources_ok (mod_Sources m)" using assms(3) by (auto simp: patchOf_def)
  moreover have "\<forall>e \<in> set (d_Destroys d). sources_ok (des_Sources e)" using assms(3) by auto
  ultimately show ?thesis using assms(2)
    by (simp add: Validate_accepts) (simp add: scanProposal_def)
qed

text \<open>
  What a scan proposes can be accepted: a generated adoption, drift adoption or revert of an
  observed resource is a valid draft, built on the head of the ledger it was generated from.
\<close>

theorem generated_valid:
  assumes "GenerateProposal owns now ops s stack r = Some (Inr p) \<or> GenerateRevertProposal owns now ops s stack r = Some (Inr p)"
    and "sr_ObservedHash r \<noteq> []"
  shows "Validate p = Inr () \<and> so_Head ops s = Inr (p_Parent p) \<and> p_ID p = [] \<and> p_Acceptance p = None"
  using assms(1)
proof
  assume "GenerateProposal owns now ops s stack r = Some (Inr p)"
  then show ?thesis
  proof (cases rule: GenerateProposal_cases)
    case (adopt head intent)
    then show ?thesis using scanProposal_valid [OF assms(2) adopt(3)] by (simp add: scanProposal_def [of _ _ _ _ _ _ _ r])
  next
    case (drift head intent prev d)
    then show ?thesis using scanProposal_valid [OF assms(2) drift(3)] by (simp add: scanProposal_def [of _ _ _ _ _ _ _ r])
  qed
next
  assume "GenerateRevertProposal owns now ops s stack r = Some (Inr p)"
  then show ?thesis
  proof (cases rule: GenerateRevertProposal_cases)
    case (1 head intent prev d)
    then show ?thesis using scanProposal_valid [OF assms(2) 1(3)] by (simp add: scanProposal_def [of _ _ _ _ _ _ _ r])
  qed
qed

lemma sample_adoption_scan:
  "RunScan sample_sha (fixed_reader (GObj [(''acl'', GStr ''x'')])) (\<lambda>_. None) git_ops git_empty
     \<lparr>sq_Address = Address ''s'' ''t'' ''n'', sq_ProviderConfig = None, sq_CurrentState = Some (GObj []), sq_ProviderChecksum = []\<rparr> ()
   = Some (Inr \<lparr>sr_Address = Address ''s'' ''t'' ''n'', sr_Outcome = ScanNew, sr_Observed = GObj [(''acl'', GStr ''x'')],
       sr_ObservedHash = sample_sha [], sr_PreviousHash = [], sr_Lookup = Some (GObj []), sr_PreviousState = None,
       sr_ProviderChecksum = [], sr_ResourceSchema = ()\<rparr>, ())"
proof -
  have "FoldState git_ops git_empty (Address ''s'' ''t'' ''n'') = Some (Inr (None, False))"
    by (simp add: FoldState_def Chain_def git_Head_def git_empty_def ChainFrom_def chain_loop.simps with_chain_def
        foldStateOverChain_def fold_init_def)
  then show ?thesis by (simp add: RunScan_def fixed_reader_reads) (simp add: sample_sha_def)
qed

definition sample_scan :: "unit ScanResult" where
  "sample_scan = \<lparr>sr_Address = Address ''s'' ''t'' ''n'', sr_Outcome = ScanNew, sr_Observed = GObj [(''acl'', GStr ''x'')],
       sr_ObservedHash = sample_sha [], sr_PreviousHash = [], sr_Lookup = Some (GObj []), sr_PreviousState = None,
       sr_ProviderChecksum = [], sr_ResourceSchema = ()\<rparr>"

definition sample_scanned :: Proposal where
  "sample_scanned = scanProposal ''now'' ''s'' [] KindAdoption
     (plainIntent (''adopt existing '' @ addr_String (Address ''s'' ''t'' ''n'') @ '' into the ledger (discovered by scan)''))
     \<lparr>d_Creates = [adoptedNode sample_scan], d_Modifies = [], d_Destroys = []\<rparr> 0 sample_scan"

lemma sample_scanned: "GenerateProposal (\<lambda>_. None) ''now'' git_ops git_empty ''s'' sample_scan = Some (Inr sample_scanned)"
  by (simp add: GenerateProposal_def sample_scanned_def git_Head_def git_empty_def)
    (simp add: sample_scan_def)

lemma generated_valid_witness:
  "Validate sample_scanned = Inr () \<and> so_Head git_ops git_empty = Inr (p_Parent sample_scanned) \<and>
   p_ID sample_scanned = [] \<and> p_Acceptance sample_scanned = None"
  by (rule generated_valid [OF disjI1 [OF sample_scanned]]) (simp add: sample_scan_def sample_sha_def)

section \<open>Adopting settles a scan\<close>

lemma readAndFingerprint_hash:
  "readAndFingerprint sha prov ty cfg lookup w = (Inr (v, h, sch), w') \<Longrightarrow> ObservedHash sha (Some v) = Inr h \<and> v \<noteq> GNil"
  by (auto simp: readAndFingerprint_def res_simps split: if_splits prod.splits)

lemma ApplyAttempts_git_cong: "gs_Applies g' = gs_Applies g \<Longrightarrow> ApplyAttempts git_ops g' i = ApplyAttempts git_ops g i"
  by (simp add: ApplyAttempts_def git_ListApplyAttempts_def git_ReadApply_def)

text \<open>The fold reads nothing of a store but its apply records.\<close>

lemma foldStateOverChain_store:
  assumes "\<And>i. ApplyAttempts ops s' i = ApplyAttempts ops s i"
  shows "foldStateOverChain ops s' chain addr = foldStateOverChain ops s chain addr"
proof -
  have shipped: "shippedCreateFold ops s' = shippedCreateFold ops s" "shippedModifyFold ops s' = shippedModifyFold ops s"
    "shippedDestroyFold ops s' = shippedDestroyFold ops s"
    by (simp_all add: fun_eq_iff shippedCreateFold_def shippedModifyFold_def shippedDestroyFold_def assms)
  then have "foldCreate ops s' = foldCreate ops s" "foldModify ops s' = foldModify ops s" "foldDestroy ops s' = foldDestroy ops s"
    by (intro ext, simp only: foldCreate_def foldModify_def foldDestroy_def shipped)+
  then have "foldProposal ops s' = foldProposal ops s" by (intro ext) (simp only: foldProposal_def)
  then show ?thesis by (simp add: foldStateOverChain_def)
qed

text \<open>Accepting a proposal the directory does not hold yet puts it on the chain and leaves the applies alone.\<close>

lemma git_Accept_extends:
  assumes "Accept sha user now git_ops g p = (Inr q, g')" "Chain git_ops g = Some (Inr ps)"
    and "map_of (gs_Proposals g) (p_ID q) = None" "IsHash (p_ID q)"
  shows "Chain git_ops g' = Some (Inr (ps @ [reread q])) \<and> gs_Applies g' = gs_Applies g \<and>
    (\<exists>a. q = finalized p (p_ID q) a)"
proof -
  obtain h a where q: "q = finalized p h a" "Append git_ops g q = (Inr (), g')"
    using assms(1) by (auto simp: Accept_def finalizeAndAppend_def Let_def split: sum.splits prod.splits)
  have i: "p_ID q \<noteq> []" using assms(4) by (auto simp: IsHash_def)
  obtain e where e: "git_Head g = Inr e" "linked git_ops g e (rev ps)"
    using assms(2) by (auto simp: Chain_def ChainFrom_linked split: sum.splits)
  have g': "g' = g\<lparr>gs_Proposals := aput (p_ID q) (PropBlob q) (gs_Proposals g), gs_HeadFile := Some (p_ID q @ [CHR 0x0A])\<rparr>"
    and par: "p_Parent q = e"
    using q(2) git_Append_new [OF e(1) assms(3) i] by (auto split: if_splits)
  have "linked git_ops g' e (rev ps)"
    by (rule linked_cong [OF e(2)]) (use assms(3) in \<open>auto simp: g' Read_def git_ReadProposal_def split: if_splits\<close>)
  then have "linked git_ops g' (p_ID q) (reread q # rev ps)"
    using i par by (simp add: Read_def git_ReadProposal_def g')
  moreover have "git_Head g' = Inr (p_ID q)" unfolding g' by (rule git_Head_advance [OF assms(4)])
  ultimately show ?thesis
    using q(1) g' linked_ChainFrom by (fastforce simp: Chain_def)
qed

lemma FoldState_Chain:
  "Chain ops s = Some (Inr ps) \<Longrightarrow> FoldState ops s addr = Some (rbind (foldStateOverChain ops s ps addr) (\<lambda>r. Inr (fr_State r, fr_Found r)))"
  by (simp add: FoldState_def with_chain_def)

text \<open>A resource whose recorded state is what the provider answers scans as unchanged.\<close>

lemma RunScan_unchanged:
  assumes "readAndFingerprint sha prov (addr_Type (sq_Address req)) (sq_ProviderConfig req) (sq_CurrentState req) w = (Inr (v, h, sch), w')"
    and "FoldState ops s (sq_Address req) = Some (Inr (Some v, True))"
  shows "\<exists>r. RunScan sha prov owns ops s req w = Some (Inr r, w') \<and> sr_Outcome r = ScanUnchanged"
  using assms readAndFingerprint_hash [OF assms(1)] by (simp add: RunScan_def)

lemma adopt_node_folds:
  assumes "sr_Observed r = GObj fs" "no_number (GObj fs)"
  shows "foldCreate ops s (sr_Address r) p (adoptedNode r) st =
    Inr \<lparr>fo_current = Some fs, fo_sources = createNodeSources (adoptedNode r), fo_last = Some p, fo_found = True\<rparr>"
proof -
  have "no_number (GObj [(''name'', GStr (addr_Name (sr_Address r))), (''stack'', GStr (addr_Stack (sr_Address r))),
      (''state'', GObj fs), (''type'', GStr (addr_Type (sr_Address r)))])" using assms(2) by simp
  from unmarshal_map_no_number [OF this]
  have "unmarshal_map (adoptedNode r) = Some (Some [(''name'', GStr (addr_Name (sr_Address r))),
      (''stack'', GStr (addr_Stack (sr_Address r))), (''state'', GObj fs), (''type'', GStr (addr_Type (sr_Address r)))])"
    by (simp only: adoptedNode_def assms(1))
  then show ?thesis by (simp add: foldCreate_def fields_of_def get_str_def get_obj_def)
qed

lemma finalized_reread_delta [simp]:
  "d_Modifies (p_Delta (reread (finalized p h a))) = d_Modifies (p_Delta p)"
  "d_Creates (p_Delta (reread (finalized p h a))) = map (\<lambda>r. Some (raw_val r)) (d_Creates (p_Delta p))"
  "p_Kind (finalized p h a) = p_Kind p"
  "d_Destroys (p_Delta p) = [] \<Longrightarrow> d_Destroys (p_Delta (reread (finalized p h a))) = []"
  by (simp_all add: reread_def finalized_def)

lemma scanProposal_sel [simp]:
  "p_Delta (scanProposal now stack head kind intent d n r) = d" "p_Kind (scanProposal now stack head kind intent d n r) = kind"
  by (simp_all add: scanProposal_def)

text \<open>The ledger after the proposal of a scan was accepted says what the scan observed.\<close>

lemma adopted_state:
  assumes "sr_Observed r = GObj a" "no_number (GObj a)"
    and p: "p = scanProposal now stack head KindAdoption intent \<lparr>d_Creates = [adoptedNode r], d_Modifies = [], d_Destroys = []\<rparr> 0 r"
    and before: "foldStateOverChain ops s ps (sr_Address r) = Inr r0"
  shows "\<exists>r1. foldStateOverChain ops s (ps @ [reread (finalized p h acc)]) (sr_Address r) = Inr r1 \<and>
    fr_Found r1 \<and> fr_State r1 = Some (GObj a)"
proof -
  have node: "Some (raw_val (adoptedNode r)) = adoptedNode r" by (simp add: adoptedNode_def)
  obtain st where "fold_res (foldProposal ops s (sr_Address r)) ps fold_init = Inr st"
    using before by (auto simp: foldStateOverChain_def rbind_Inr_iff)
  then show ?thesis
    by (simp add: foldStateOverChain_def foldStateOverChain_snoc foldProposal_def p node
        adopt_node_folds [OF assms(1, 2)] marshal_map_def)
qed

lemma drift_adopted_state:
  assumes "wf_fields b" "wf_fields a" "no_number (GObj b)" "no_number (GObj a)" "keys_ok b" "keys_ok a"
    and "foldStateOverChain ops s ps (sr_Address r) = Inr r0" "fr_State r0 = Some (GObj b)"
    and "DiffAttributes (Some (GObj b)) (Some (GObj a)) = Some d" "fst ` set (fst d) \<subseteq> fst ` set (snd d)"
    and p: "p = scanProposal now stack head KindDriftAdopt intent
      \<lparr>d_Creates = [], d_Modifies = [patchOf (sr_Address r) d], d_Destroys = []\<rparr> 0 r"
  shows "\<exists>r1. foldStateOverChain ops s (ps @ [reread (finalized p h acc)]) (sr_Address r) = Inr r1 \<and>
    fr_Found r1 \<and> fr_State r1 = Some (GObj a)"
proof -
  obtain before after where d: "d = (before, after)" by (cases d)
  have "p_Kind (reread (finalized p h acc)) = KindDriftAdopt" "d_Creates (p_Delta (reread (finalized p h acc))) = []"
    "d_Destroys (p_Delta (reread (finalized p h acc))) = []"
    "d_Modifies (p_Delta (reread (finalized p h acc))) = [patchOf (sr_Address r) d]"
    by (simp_all add: p)
  from fold_adopted_diff [OF assms(1-8) this(1-4) _ assms(9) [unfolded d]] assms(10)
  show ?thesis by (auto simp: patchOf_def d)
qed

text \<open>
  C22. Adopting settles. Scan a resource on a directory's ledger, accept what the scan proposes, and
  scan again: as long as the provider still answers the same state, the second scan finds nothing.
  This holds for a resource that was new, and for drift that only added and changed attributes, of
  which none was noise, between two states in which no attribute name contains a dot and there are no
  numbers (a patch is a map from dotted paths, so with a name like a.b it writes into another
  attribute). The accepted proposal is a new one: nothing is stored under its identifier yet.
\<close>

theorem git_adopt_settles:
  assumes sha: "\<And>x. IsHash (sha x)" and chain: "Chain git_ops g = Some (Inr ps)"
    and scan: "RunScan sha prov owns git_ops g req w = Some (Inr r, w1)" and obs: "sr_Observed r = GObj a" "no_number (GObj a)"
    and gen: "GenerateProposal owns now git_ops g stack r = Some (Inr p)"
    and acc: "Accept sha user t git_ops g p = (Inr q, g')" "map_of (gs_Proposals g) (p_ID q) = None"
    and same: "readAndFingerprint sha prov (addr_Type (sq_Address req)) (sq_ProviderConfig req) (sq_CurrentState req) w2 =
      (Inr (GObj a, sr_ObservedHash r, sch), w3)"
    and drift: "sr_Outcome r = ScanDrifted \<Longrightarrow> \<exists>b d. sr_PreviousState r = Some (GObj b) \<and> wf_fields b \<and> wf_fields a \<and>
      no_number (GObj b) \<and> keys_ok b \<and> keys_ok a \<and> DiffAttributes (Some (GObj b)) (Some (GObj a)) = Some d \<and>
      FilterNormalizationNoise (owns (sr_ResourceSchema r)) d = d \<and> fst ` set (fst d) \<subseteq> fst ` set (snd d)"
  shows "\<exists>r'. RunScan sha prov owns git_ops g' req w2 = Some (Inr r', w3) \<and> sr_Outcome r' = ScanUnchanged"
proof -
  have addr: "sr_Address r = sq_Address req" and "\<exists>x. foldStateOverChain git_ops g ps (sq_Address req) = Inr x \<and> fr_State x = sr_PreviousState r"
    using scan by (auto simp: RunScan_def FoldState_Chain [OF chain] rbind_Inr_iff split: prod.splits sum.splits)
  then obtain r0 where r0: "foldStateOverChain git_ops g ps (sr_Address r) = Inr r0" "fr_State r0 = sr_PreviousState r" by auto
  obtain h where h: "validateAndHash sha p = Inr h" "p_ID q = h"
    using acc(1) by (auto simp: Accept_def finalizeAndAppend_def Let_def split: sum.splits prod.splits)
  have "IsHash (p_ID q)" using validateAndHash_Hash(1) [OF h(1)] h(2) sha by (auto simp: Hash_Inr)
  from git_Accept_extends [OF acc(1) chain acc(2) this]
  have ext: "Chain git_ops g' = Some (Inr (ps @ [reread q]))" "gs_Applies g' = gs_Applies g" by blast+
  obtain ac where q: "q = finalized p h ac"
    using acc(1) h(1) by (auto simp: Accept_def finalizeAndAppend_def Let_def split: sum.splits prod.splits)
  have "\<exists>r1. foldStateOverChain git_ops g (ps @ [reread q]) (sr_Address r) = Inr r1 \<and> fr_Found r1 \<and> fr_State r1 = Some (GObj a)"
    using gen
  proof (cases rule: GenerateProposal_cases)
    case (adopt head intent)
    show ?thesis unfolding q by (rule adopted_state [OF obs adopt(4) r0(1)])
  next
    case (drift head intent prev d)
    then obtain b e where b: "sr_PreviousState r = Some (GObj b)" "wf_fields b" "wf_fields a" "no_number (GObj b)" "keys_ok b"
      "keys_ok a" "DiffAttributes (Some (GObj b)) (Some (GObj a)) = Some e"
      "FilterNormalizationNoise (owns (sr_ResourceSchema r)) e = e" "fst ` set (fst e) \<subseteq> fst ` set (snd e)"
      using assms(10) by blast
    have "prev = Some (GObj b)"
      using drift(4) r0 b(1) by (simp add: FoldState_Chain [OF chain])
    then have "d = e" using realDiff_Inr [OF drift(5)] b(7, 8) obs(1) by auto
    then show ?thesis unfolding q
      using drift_adopted_state [OF b(2-4) obs(2) b(5, 6) r0(1) _ b(7, 9), of p now stack head intent] r0(2) b(1) drift(6) by simp
  qed
  then have "FoldState git_ops g' (sq_Address req) = Some (Inr (Some (GObj a), True))"
    using foldStateOverChain_store [of git_ops g' g, OF ApplyAttempts_git_cong [OF ext(2)]]
    by (auto simp: FoldState_Chain [OF ext(1)] addr)
  from RunScan_unchanged [OF same this] show ?thesis .
qed

lemma git_adopt_settles_witness:
  "\<exists>r'. RunScan sample_sha (fixed_reader (GObj [(''acl'', GStr ''x'')])) (\<lambda>_. None) git_ops
     (snd (Accept sample_sha ''u'' ''t'' git_ops git_empty sample_scanned))
     \<lparr>sq_Address = Address ''s'' ''t'' ''n'', sq_ProviderConfig = None, sq_CurrentState = Some (GObj []), sq_ProviderChecksum = []\<rparr> ()
   = Some (Inr r', ()) \<and> sr_Outcome r' = ScanUnchanged"
proof (rule git_adopt_settles [OF IsHash_sample_sha _ sample_adoption_scan [folded sample_scan_def] _ _ sample_scanned])
  show "Chain git_ops git_empty = Some (Inr [])"
    by (simp add: Chain_def git_Head_def git_empty_def ChainFrom_def chain_loop.simps)
  show "sr_Observed sample_scan = GObj [(''acl'', GStr ''x'')]" by (simp add: sample_scan_def)
  show "no_number (GObj [(''acl'', GStr ''x'')])" by simp
  show "Accept sample_sha ''u'' ''t'' git_ops git_empty sample_scanned =
      (Inr (projr (fst (Accept sample_sha ''u'' ''t'' git_ops git_empty sample_scanned))),
       snd (Accept sample_sha ''u'' ''t'' git_ops git_empty sample_scanned))" by code_simp
  show "map_of (gs_Proposals git_empty) (p_ID (projr (fst (Accept sample_sha ''u'' ''t'' git_ops git_empty sample_scanned)))) = None"
    by (simp add: git_empty_def)
  show "readAndFingerprint sample_sha (fixed_reader (GObj [(''acl'', GStr ''x'')])) (addr_Type (sq_Address
      \<lparr>sq_Address = Address ''s'' ''t'' ''n'', sq_ProviderConfig = None, sq_CurrentState = Some (GObj []), sq_ProviderChecksum = []\<rparr>))
      (sq_ProviderConfig \<lparr>sq_Address = Address ''s'' ''t'' ''n'', sq_ProviderConfig = None, sq_CurrentState = Some (GObj []), sq_ProviderChecksum = []\<rparr>)
      (sq_CurrentState \<lparr>sq_Address = Address ''s'' ''t'' ''n'', sq_ProviderConfig = None, sq_CurrentState = Some (GObj []), sq_ProviderChecksum = []\<rparr>) ()
      = (Inr (GObj [(''acl'', GStr ''x'')], sr_ObservedHash sample_scan, ()), ())"
    by (simp add: fixed_reader_reads) (simp add: sample_scan_def sample_sha_def)
qed (simp add: sample_scan_def)

text \<open>
  A revert undoes the drift: applying the one modification of a generated revert to the observed
  state gives exactly the recorded state, for every order of its entries, when none of the drift was
  noise.
\<close>

theorem revert_restores:
  assumes "GenerateRevertProposal owns now ops s stack r = Some (Inr p)"
    and "FoldState ops s (sr_Address r) = Some (Inr (Some (GObj b), True))" "sr_Observed r = GObj a"
    and "wf_fields b" "wf_fields a" "no_number (GObj b)" "no_number (GObj a)" "keys_ok b" "keys_ok a"
    and "DiffAttributes (Some (GObj a)) (Some (GObj b)) = Some d" "FilterNormalizationNoise (owns (sr_ResourceSchema r)) d = d"
  shows "\<exists>m. d_Modifies (p_Delta p) = [m] \<and> mod_Target m = sr_Address r \<and>
    (\<forall>before after. mset before = mset (mod_Before m) \<longrightarrow> mset after = mset (mod_After m) \<longrightarrow>
       ApplyAfter (Some (sr_Observed r)) before after = Inr (Some (GObj b)))"
  using assms(1)
proof (cases rule: GenerateRevertProposal_cases)
  case (1 head intent prev d')
  have "prev = Some (GObj b)" using 1(4) assms(2) by simp
  then have d': "d' = d" using realDiff_Inr [OF 1(5)] assms(3, 10, 11) by auto
  obtain db da where d: "d = (db, da)" by (cases d)
  have "ApplyAfter (Some (GObj a)) before after = Inr (Some (GObj b))"
    if "mset before = mset (raws db)" "mset after = mset (raws da)" for before after
    by (rule apply_patch_of_diff [OF assms(5, 4, 7, 6, 9, 8) assms(10) [unfolded d] that])
  then show ?thesis using 1(6) assms(3) by (simp add: patchOf_def d' d)
qed

definition sample_recorded :: Proposal where
  "sample_recorded = sample_proposal (sample_sha []) [] ''adoption''
     \<lparr>d_Creates = [Some (sample_node ''state'' (GObj [(''acl'', GStr ''old'')]))], d_Modifies = [], d_Destroys = []\<rparr>
     [] \<lparr>br_Creates = 0, br_Modifies = 0, br_Destroys = 0\<rparr>"

lemma sample_recorded_state:
  "FoldState git_ops (keeping sample_recorded) (Address ''s'' ''t'' ''n'') = Some (Inr (Some (GObj [(''acl'', GStr ''old'')]), True))"
proof -
  have "p_Parent sample_recorded = []" by (simp add: sample_recorded_def sample_proposal_def)
  then have "Chain git_ops (keeping sample_recorded) = Some (Inr [reread sample_recorded])"
    unfolding Chain_def keeping_head using linked_ChainFrom [OF keeping_linked] by simp
  moreover have "foldStateOverChain git_ops (keeping sample_recorded) [reread sample_recorded] (Address ''s'' ''t'' ''n'') =
      Inr \<lparr>fr_State = Some (GObj [(''acl'', GStr ''old'')]), fr_Sources = [], fr_LastContributor = Some (reread sample_recorded), fr_Found = True\<rparr>"
    by code_simp
  ultimately show ?thesis by (simp add: FoldState_Chain)
qed

definition sample_drifted :: "unit ScanResult" where
  "sample_drifted = sample_scan\<lparr>sr_Outcome := ScanDrifted, sr_Observed := GObj [(''acl'', GStr ''new'')]\<rparr>"

lemma revert_restores_witness:
  "\<exists>p. GenerateRevertProposal (\<lambda>_. None) ''now'' git_ops (keeping sample_recorded) ''s'' sample_drifted = Some (Inr p) \<and>
   (\<exists>m. d_Modifies (p_Delta p) = [m] \<and> mod_Target m = sr_Address sample_drifted \<and>
    (\<forall>before after. mset before = mset (mod_Before m) \<longrightarrow> mset after = mset (mod_After m) \<longrightarrow>
       ApplyAfter (Some (sr_Observed sample_drifted)) before after = Inr (Some (GObj [(''acl'', GStr ''old'')]))))"
proof -
  let ?d = "([(''acl'', GStr ''new'')], [(''acl'', GStr ''old'')])"
  have sel: "sr_Address sample_drifted = Address ''s'' ''t'' ''n''" "sr_Outcome sample_drifted = ScanDrifted"
    "sr_Observed sample_drifted = GObj [(''acl'', GStr ''new'')]"
    by (simp_all add: sample_drifted_def sample_scan_def)
  have d: "DiffAttributes (Some (GObj [(''acl'', GStr ''new'')])) (Some (GObj [(''acl'', GStr ''old'')])) = Some ?d"
    "FilterNormalizationNoise None ?d = ?d" by code_simp+
  then have "\<exists>p. GenerateRevertProposal (\<lambda>_. None) ''now'' git_ops (keeping sample_recorded) ''s'' sample_drifted = Some (Inr p)"
    using keeping_head [of sample_recorded] sample_recorded_state
    by (simp add: GenerateRevertProposal_def sel realDiff_def)
  then obtain p where p: "GenerateRevertProposal (\<lambda>_. None) ''now'' git_ops (keeping sample_recorded) ''s'' sample_drifted = Some (Inr p)" ..
  have "\<exists>m. d_Modifies (p_Delta p) = [m] \<and> mod_Target m = sr_Address sample_drifted \<and>
    (\<forall>before after. mset before = mset (mod_Before m) \<longrightarrow> mset after = mset (mod_After m) \<longrightarrow>
       ApplyAfter (Some (sr_Observed sample_drifted)) before after = Inr (Some (GObj [(''acl'', GStr ''old'')])))"
    by (rule revert_restores [OF p _ sel(3) _ _ _ _ _ _ d(1) d(2)])
      (use sample_recorded_state in \<open>simp_all add: sel keys_ok_def\<close>)
  then show ?thesis using p by blast
qed

end
