(* ===== verification/ShipGraph.thy ===== *)
theory ShipGraph
  imports Fold
begin

text \<open>
  core/executor/ship.go, the graph of a change proposal: its creates, modifies and destroys as one set
  of nodes, the check that every dependency is one of them, and the order they are shipped in. Struct
  members are found by their exact names, as in theory Fold.
\<close>

section \<open>Nodes\<close>

record createNode =
  cn_Stack :: string
  cn_Type :: string
  cn_Name :: string
  cn_Provider :: "ProviderRef option"
  cn_Config :: raw
  cn_DependsOn :: "string list"

definition decode_createNode :: "raw \<Rightarrow> createNode option" where
  "decode_createNode r = (case (case r of Some GNil \<Rightarrow> Some [] | Some (GObj fs) \<Rightarrow> Some fs | _ \<Rightarrow> None) of
      None \<Rightarrow> None
    | Some fs \<Rightarrow>
        Option.bind (str_member fs ''stack'') (\<lambda>stack.
        Option.bind (str_member fs ''type'') (\<lambda>ty.
        Option.bind (str_member fs ''name'') (\<lambda>nm.
        Option.bind (case map_of fs ''provider'' of None \<Rightarrow> Some None | Some v \<Rightarrow> decode_ProviderRef v) (\<lambda>prov.
        Option.bind (strs_member fs ''depends_on'') (\<lambda>deps.
        Some \<lparr>cn_Stack = stack, cn_Type = ty, cn_Name = nm, cn_Provider = prov,
              cn_Config = map_of fs ''config'', cn_DependsOn = deps\<rparr>))))))"

datatype nodeWork = Creates createNode | Modifies Modification | Destroys DestroyEntry

record changeNode =
  ch_addr :: Address
  ch_dependsOn :: "string list"
  ch_provider :: "ProviderRef option"
  ch_work :: nodeWork

definition createChange :: "createNode \<Rightarrow> changeNode" where
  "createChange cn = \<lparr>ch_addr = Address (cn_Stack cn) (cn_Type cn) (cn_Name cn), ch_dependsOn = cn_DependsOn cn,
     ch_provider = cn_Provider cn, ch_work = Creates cn\<rparr>"

definition modifyChange :: "Modification \<Rightarrow> changeNode" where
  "modifyChange m = \<lparr>ch_addr = mod_Target m, ch_dependsOn = mod_DependsOn m, ch_provider = mod_Provider m,
     ch_work = Modifies m\<rparr>"

definition destroyChange :: "DestroyEntry \<Rightarrow> changeNode" where
  "destroyChange d = \<lparr>ch_addr = des_Address d, ch_dependsOn = des_DependsOn d, ch_provider = des_Provider d,
     ch_work = Destroys d\<rparr>"

abbreviation ch_key :: "changeNode \<Rightarrow> string" where
  "ch_key n \<equiv> addr_String (ch_addr n)"

text \<open>The nodes in the order they are put into the map: a later one with the same address replaces an earlier one.\<close>

definition deltaNodes :: "Proposal \<Rightarrow> (err, changeNode list) res" where
  "deltaNodes p =
     rbind (map_res (\<lambda>r. of_opt EJson (decode_createNode r)) (d_Creates (p_Delta p))) (\<lambda>cns.
       Inr (map createChange cns @ map modifyChange (d_Modifies (p_Delta p)) @ map destroyChange (d_Destroys (p_Delta p))))"

definition by_addr :: "changeNode list \<Rightarrow> (string, changeNode) amap" where
  "by_addr ns = foldl (\<lambda>m n. aput (ch_key n) n m) [] ns"

section \<open>Edges\<close>

definition danglingOf :: "(string, changeNode) amap \<Rightarrow> changeNode \<Rightarrow> string option" where
  "danglingOf byAddr n = find (\<lambda>d. map_of byAddr d = None) (ch_dependsOn n)"

fun validateChangeEdges :: "(string, changeNode) amap \<Rightarrow> (string, changeNode) amap \<Rightarrow> (err, unit) res" where
  "validateChangeEdges byAddr [] = Inr ()"
| "validateChangeEdges byAddr ((k, n) # rest) = (case danglingOf byAddr n of
      Some d \<Rightarrow> Inl (ErrDanglingDependency k d)
    | None \<Rightarrow> validateChangeEdges byAddr rest)"

section \<open>The order\<close>

datatype visitState = inProgress | done_visit

record topo =
  tp_state :: "(string, visitState) amap"
  tp_path :: "string list"
  tp_order :: "string list"

text \<open>
  The recursive visit. \<open>edgesOf\<close> is \<open>None\<close> where the Go closure would dereference a nil node. The first
  argument bounds the depth: the addresses on the path are distinct, so the number of addresses plus
  one is enough.
\<close>

primrec visit :: "nat \<Rightarrow> (string \<Rightarrow> string list option) \<Rightarrow> string \<Rightarrow> topo \<Rightarrow> (err, topo) res" where
  "visit 0 edgesOf addr t = Inl EPanic"
| "visit (Suc fuel) edgesOf addr t = (case map_of (tp_state t) addr of
      Some done_visit \<Rightarrow> Inr t
    | Some inProgress \<Rightarrow> Inl (ErrDependencyCycle (dropWhile (\<lambda>p. p \<noteq> addr) (tp_path t) @ [addr]))
    | None \<Rightarrow>
        (case edgesOf addr of
           None \<Rightarrow> Inl EPanic
         | Some deps \<Rightarrow>
             rbind (fold_res (visit fuel edgesOf) deps
                     (t\<lparr>tp_state := aput addr inProgress (tp_state t), tp_path := tp_path t @ [addr]\<rparr>)) (\<lambda>t'.
             Inr (t'\<lparr>tp_path := butlast (tp_path t'), tp_state := aput addr done_visit (tp_state t'),
                     tp_order := tp_order t' @ [addr]\<rparr>))))"

definition topo_start :: topo where
  "topo_start = \<lparr>tp_state = [], tp_path = [], tp_order = []\<rparr>"

definition topoSortAddresses :: "string list \<Rightarrow> (string \<Rightarrow> string list option) \<Rightarrow> (err, string list) res" where
  "topoSortAddresses addrs edgesOf =
     rbind (fold_res (visit (Suc (length addrs)) edgesOf) addrs topo_start) (\<lambda>t. Inr (tp_order t))"

definition edges_in :: "(string, changeNode) amap \<Rightarrow> string \<Rightarrow> string list option" where
  "edges_in byAddr k = map_option ch_dependsOn (map_of byAddr k)"

definition changeNodesOf :: "Proposal \<Rightarrow> (err, changeNode list) res" where
  "changeNodesOf p =
     rbind (deltaNodes p) (\<lambda>ns.
     let byAddr = by_addr ns; keys = sort (map ch_key ns)
     in rbind (validateChangeEdges byAddr byAddr) (\<lambda>_.
        rbind (topoSortAddresses keys (edges_in byAddr)) (\<lambda>order.
        Inr (map (\<lambda>k. the (map_of byAddr k)) order))))"

definition ValidateChangeGraph :: "Proposal option \<Rightarrow> (err, unit) res" where
  "ValidateChangeGraph p = (case p of
      None \<Rightarrow> Inr ()
    | Some p \<Rightarrow> if p_Kind p \<noteq> KindChange then Inr () else rbind (changeNodesOf p) (\<lambda>_. Inr ()))"

section \<open>The map of nodes\<close>

text \<open>The last of the nodes with an address.\<close>

lemma map_of_by_addr: "map_of (by_addr ns) k = find (\<lambda>n. ch_key n = k) (rev ns)"
proof -
  have "map_of (foldl (\<lambda>m n. aput (ch_key n) n m) m0 ns) k =
     (case find (\<lambda>n. ch_key n = k) (rev ns) of Some n \<Rightarrow> Some n | None \<Rightarrow> map_of m0 k)" for m0
    by (induction ns rule: rev_induct) auto
  then show ?thesis by (simp add: by_addr_def split: option.split)
qed

lemma by_addr_key: "map_of (by_addr ns) k = Some n \<Longrightarrow> n \<in> set ns \<and> ch_key n = k"
  by (auto simp: map_of_by_addr find_Some_iff in_set_conv_nth) (metis nth_mem set_rev in_set_conv_nth length_rev)

lemma by_addr_None: "map_of (by_addr ns) k = None \<longleftrightarrow> k \<notin> ch_key ` set ns"
  by (auto simp: map_of_by_addr find_None_iff)

lemma danglingOf_None: "danglingOf byAddr n = None \<longleftrightarrow> (\<forall>d \<in> set (ch_dependsOn n). map_of byAddr d \<noteq> None)"
  by (auto simp: danglingOf_def find_None_iff)

lemma danglingOf_Some: "danglingOf byAddr n = Some d \<Longrightarrow> d \<in> set (ch_dependsOn n) \<and> map_of byAddr d = None"
  by (auto simp: danglingOf_def find_Some_iff)

lemma validateChangeEdges_ok:
  "validateChangeEdges byAddr m = Inr () \<longleftrightarrow> (\<forall>b \<in> set m. \<forall>d \<in> set (ch_dependsOn (snd b)). map_of byAddr d \<noteq> None)"
proof (induction byAddr m rule: validateChangeEdges.induct)
  case (2 byAddr k n rest)
  show ?case
  proof (cases "danglingOf byAddr n")
    case None
    then show ?thesis using "2.IH" [OF None] danglingOf_None [THEN iffD1, OF None] by simp
  next
    case (Some d)
    then show ?thesis using danglingOf_Some [OF Some] by auto
  qed
qed simp

lemma validateChangeEdges_error:
  "validateChangeEdges byAddr m = Inl e \<Longrightarrow>
   \<exists>k n d. (k, n) \<in> set m \<and> d \<in> set (ch_dependsOn n) \<and> map_of byAddr d = None \<and> e = ErrDanglingDependency k d"
proof (induction byAddr m rule: validateChangeEdges.induct)
  case (2 byAddr k n rest)
  show ?case
  proof (cases "danglingOf byAddr n")
    case None
    then show ?thesis using 2 by auto
  next
    case (Some d)
    then show ?thesis using 2 danglingOf_Some [OF Some] by (intro exI [of _ k] exI [of _ n] exI [of _ d]) simp
  qed
qed simp

section \<open>The visit\<close>

text \<open>A walk along the edges, each address a dependency of the one before.\<close>

fun walk :: "(string \<Rightarrow> string list option) \<Rightarrow> string list \<Rightarrow> bool" where
  "walk E (a # b # as) \<longleftrightarrow> (\<exists>ds. E a = Some ds \<and> b \<in> set ds) \<and> walk E (b # as)"
| "walk E as \<longleftrightarrow> True"

definition cycle_of :: "(string \<Rightarrow> string list option) \<Rightarrow> string list \<Rightarrow> bool" where
  "cycle_of E c \<longleftrightarrow> length c \<ge> 2 \<and> hd c = last c \<and> walk E c"

text \<open>Every dependency of an address in the list stands before it.\<close>

fun deps_first :: "(string \<Rightarrow> string list option) \<Rightarrow> string set \<Rightarrow> string list \<Rightarrow> bool" where
  "deps_first E seen [] \<longleftrightarrow> True"
| "deps_first E seen (a # as) \<longleftrightarrow> (\<exists>ds. E a = Some ds \<and> set ds \<subseteq> seen) \<and> deps_first E (insert a seen) as"

lemma walk_append: "walk E (xs @ [a]) \<Longrightarrow> E a = Some ds \<Longrightarrow> b \<in> set ds \<Longrightarrow> walk E (xs @ [a, b])"
  by (induction E xs rule: walk.induct) auto

lemma walk_drop: "walk E xs \<Longrightarrow> walk E (dropWhile P xs)"
  by (induction E xs rule: walk.induct) auto

lemma deps_first_append: "deps_first E seen (xs @ ys) \<longleftrightarrow> deps_first E seen xs \<and> deps_first E (seen \<union> set xs) ys"
  by (induction xs arbitrary: seen) auto

definition topo_ok :: "(string \<Rightarrow> string list option) \<Rightarrow> topo \<Rightarrow> bool" where
  "topo_ok E t \<longleftrightarrow> walk E (tp_path t) \<and> distinct (tp_path t) \<and> distinct (tp_order t) \<and> deps_first E {} (tp_order t) \<and>
     (\<forall>a. map_of (tp_state t) a = Some inProgress \<longleftrightarrow> a \<in> set (tp_path t)) \<and>
     (\<forall>a. map_of (tp_state t) a = Some done_visit \<longleftrightarrow> a \<in> set (tp_order t))"

text \<open>A visit reaches \<open>a\<close> from the top or along an edge from the last address of the path.\<close>

definition reached :: "(string \<Rightarrow> string list option) \<Rightarrow> topo \<Rightarrow> string \<Rightarrow> bool" where
  "reached E t a \<longleftrightarrow> tp_path t = [] \<or> (\<exists>ds. E (last (tp_path t)) = Some ds \<and> a \<in> set ds)"

definition visited :: "(string \<Rightarrow> string list option) \<Rightarrow> topo \<Rightarrow> string list \<Rightarrow> (err, topo) res \<Rightarrow> bool" where
  "visited E t as r \<longleftrightarrow> (case r of
      Inl e \<Rightarrow> \<exists>c. e = ErrDependencyCycle c \<and> cycle_of E c
    | Inr t' \<Rightarrow> topo_ok E t' \<and> tp_path t' = tp_path t \<and> set as \<subseteq> set (tp_order t') \<and>
        set (tp_order t) \<subseteq> set (tp_order t'))"

lemma walk_reached: "walk E (tp_path t) \<Longrightarrow> reached E t a \<Longrightarrow> walk E (tp_path t @ [a])"
proof (cases "tp_path t" rule: rev_cases)
  case (snoc ys y)
  assume "walk E (tp_path t)" "reached E t a"
  then show ?thesis using walk_append [of E ys y] snoc by (auto simp: reached_def)
qed simp

lemma visits_fold:
  assumes "\<And>a t. a \<in> set as \<Longrightarrow> topo_ok E t \<Longrightarrow> tp_path t = path \<Longrightarrow> reached E t a \<Longrightarrow> visited E t [a] (f a t)"
    and "topo_ok E t" "tp_path t = path" "\<And>a t. a \<in> set as \<Longrightarrow> tp_path t = path \<Longrightarrow> reached E t a"
  shows "visited E t as (fold_res f as t)"
  using assms
proof (induction as arbitrary: t)
  case Nil
  then show ?case by (simp add: visited_def)
next
  case (Cons a as)
  have v: "visited E t [a] (f a t)" using Cons.prems by simp
  show ?case
  proof (cases "f a t")
    case (Inl e)
    then show ?thesis using v by (simp add: visited_def)
  next
    case (Inr u)
    have u: "topo_ok E u" "tp_path u = path" "a \<in> set (tp_order u)" "set (tp_order t) \<subseteq> set (tp_order u)"
      using v Inr Cons.prems(3) by (simp_all add: visited_def)
    have "visited E u as (fold_res f as u)" by (rule Cons.IH) (use Cons.prems u in auto)
    then show ?thesis using Inr u Cons.prems(3) by (auto simp: visited_def split: sum.splits)
  qed
qed

lemma visit_visited:
  assumes closed: "\<And>a ds d. E a = Some ds \<Longrightarrow> d \<in> set ds \<Longrightarrow> E d \<noteq> None"
    and fin: "finite (dom E)"
  shows "topo_ok E t \<Longrightarrow> set (tp_path t) \<subseteq> dom E \<Longrightarrow> reached E t a \<Longrightarrow> E a \<noteq> None \<Longrightarrow>
    card (dom E) < fuel + length (tp_path t) \<Longrightarrow> visited E t [a] (visit fuel E a t)"
proof (induction fuel arbitrary: a t)
  case 0
  then have "card (set (tp_path t)) \<le> card (dom E)" using fin by (simp add: card_mono)
  then show ?case using 0 by (simp add: topo_ok_def distinct_card)
next
  case (Suc fuel)
  obtain ds where ds: "E a = Some ds" using Suc.prems(4) by auto
  show ?case
  proof (cases "map_of (tp_state t) a")
    case None
    let ?t = "t\<lparr>tp_state := aput a inProgress (tp_state t), tp_path := tp_path t @ [a]\<rparr>"
    have new: "a \<notin> set (tp_path t)" "a \<notin> set (tp_order t)"
      using None Suc.prems(1) by (metis option.distinct(1) topo_ok_def)+
    have ok: "topo_ok E ?t"
      using Suc.prems(1) walk_reached [OF _ Suc.prems(3)] new by (auto simp: topo_ok_def)
    have "visited E ?t ds (fold_res (visit fuel E) ds ?t)"
    proof (rule visits_fold [where path = "tp_path t @ [a]"])
      fix d u assume d: "d \<in> set ds" "topo_ok E u" "tp_path u = tp_path t @ [a]" "reached E u d"
      show "visited E u [d] (visit fuel E d u)"
        by (rule Suc.IH) (use d Suc.prems ds closed [OF ds d(1)] in \<open>auto simp: domI\<close>)
    qed (use ok ds in \<open>auto simp: reached_def\<close>)
    then show ?thesis
    proof (cases "fold_res (visit fuel E) ds ?t")
      case (Inl e)
      then show ?thesis using \<open>visited E ?t ds _\<close> None ds by (simp add: visited_def)
    next
      case (Inr u)
      then have u: "topo_ok E u" "tp_path u = tp_path t @ [a]" "set ds \<subseteq> set (tp_order u)" "set (tp_order t) \<subseteq> set (tp_order u)"
        using \<open>visited E ?t ds _\<close> by (auto simp: visited_def)
      have "a \<notin> set (tp_order u)" using u(1, 2)
        by (metis (no_types) in_set_conv_decomp option.inject topo_ok_def visitState.distinct(1))
      then have "topo_ok E (u\<lparr>tp_path := butlast (tp_path u), tp_state := aput a done_visit (tp_state u),
          tp_order := tp_order u @ [a]\<rparr>)"
        using u(1-3) ds new Suc.prems(1) by (auto simp: topo_ok_def deps_first_append)
      then show ?thesis using Inr None ds u(2, 4) by (auto simp: visited_def)
    qed
  next
    case (Some v)
    show ?thesis
    proof (cases v)
      case inProgress
      then have a: "a \<in> set (tp_path t)" using Some Suc.prems(1) by (simp add: topo_ok_def)
      let ?c = "dropWhile (\<lambda>p. p \<noteq> a) (tp_path t)"
      have c: "?c \<noteq> []" "hd ?c = a" using a hd_dropWhile [of "\<lambda>p. p \<noteq> a" "tp_path t"] by (auto simp: dropWhile_eq_Nil_conv)
      have "dropWhile (\<lambda>p. p \<noteq> a) (tp_path t @ [a]) = ?c @ [a]" using a by (simp add: dropWhile_append1)
      then have "walk E (?c @ [a])"
        using walk_drop [OF walk_reached [OF _ Suc.prems(3)], of "\<lambda>p. p \<noteq> a"] Suc.prems(1) by (simp add: topo_ok_def)
      then have "cycle_of E (?c @ [a])" using c by (cases ?c) (auto simp: cycle_of_def)
      then show ?thesis using Some inProgress by (simp add: visited_def)
    next
      case done_visit
      then have v: "visit (Suc fuel) E a t = Inr t" using Some by simp
      have "a \<in> set (tp_order t)" using Some done_visit Suc.prems(1) by (simp add: topo_ok_def)
      then show ?thesis unfolding v using Suc.prems(1) by (simp add: visited_def)
    qed
  qed
qed

section \<open>The outcomes\<close>

lemma deps_first_split:
  "deps_first E seen (us @ a # vs) \<Longrightarrow> \<exists>ds. E a = Some ds \<and> set ds \<subseteq> seen \<union> set us"
  by (simp add: deps_first_append)

lemma deps_first_nth:
  assumes "deps_first E {} xs" "i < length xs"
  shows "\<exists>ds. E (xs ! i) = Some ds \<and> (\<forall>d \<in> set ds. \<exists>j < i. xs ! j = d)"
proof -
  have "xs = take i xs @ xs ! i # drop (Suc i) xs" using assms(2) by (rule id_take_nth_drop)
  then obtain ds where "E (xs ! i) = Some ds" "set ds \<subseteq> set (take i xs)"
    using deps_first_split [of E "{}" "take i xs"] assms(1) by (metis sup_bot.left_neutral)
  moreover have "\<exists>j < i. xs ! j = d" if "d \<in> set (take i xs)" for d
    using that by (auto simp: in_set_conv_nth)
  ultimately show ?thesis by blast
qed

lemma walk_next: "walk E c \<Longrightarrow> a \<in> set (butlast c) \<Longrightarrow> \<exists>ds b. E a = Some ds \<and> b \<in> set ds \<and> b \<in> set c"
  by (induction E c rule: walk.induct) auto

lemma cycle_next:
  assumes "cycle_of E c" "a \<in> set c"
  shows "\<exists>ds b. E a = Some ds \<and> b \<in> set ds \<and> b \<in> set c"
proof -
  obtain x y zs where c: "c = x # y # zs"
    using assms(1) by (auto simp: cycle_of_def numeral_2_eq_2 Suc_le_length_iff)
  have "set c = insert (last c) (set (butlast c))" using c by (metis append_butlast_last_id insert_is_Un list.simps(3) set_append set_simps(2) empty_set Un_commute)
  then have "a \<in> set (butlast c) \<or> a = x" using assms c by (auto simp: cycle_of_def)
  then have "a \<in> set (butlast c)" using c by auto
  then show ?thesis using walk_next assms(1) by (simp add: cycle_of_def)
qed

lemma sorted_no_cycle:
  assumes "deps_first E {} xs" "dom E \<subseteq> set xs"
  shows "\<not> cycle_of E c"
proof
  assume c: "cycle_of E c"
  then obtain a where "a \<in> set c" by (cases c) (auto simp: cycle_of_def)
  then have "\<exists>x \<in> set xs. x \<in> set c" using cycle_next [OF c] assms(2) by (metis domI subsetD)
  then obtain us b vs where b: "xs = us @ b # vs" "b \<in> set c" "\<forall>u \<in> set us. u \<notin> set c"
    using split_list_first_prop [of xs "\<lambda>x. x \<in> set c"] by blast
  obtain ds d where d: "E b = Some ds" "d \<in> set ds" "d \<in> set c" using cycle_next [OF c b(2)] by blast
  then show False using deps_first_split [of E "{}" us b vs] assms(1) b by auto
qed

lemma topoSort_outcomes:
  assumes closed: "\<And>a ds d. E a = Some ds \<Longrightarrow> d \<in> set ds \<Longrightarrow> E d \<noteq> None"
    and dom: "dom E = set addrs"
  shows "(\<exists>order. topoSortAddresses addrs E = Inr order \<and> distinct order \<and> set order = set addrs \<and>
            deps_first E {} order \<and> (\<nexists>c. cycle_of E c)) \<or>
         (\<exists>c. topoSortAddresses addrs E = Inl (ErrDependencyCycle c) \<and> cycle_of E c)"
proof -
  let ?n = "Suc (length addrs)"
  have fin: "finite (dom E)" unfolding dom by simp
  have card: "card (dom E) < ?n" unfolding dom using card_length [of addrs] by simp
  have start: "topo_ok E topo_start" by (simp add: topo_ok_def topo_start_def)
  have v: "visited E topo_start addrs (fold_res (visit ?n E) addrs topo_start)"
  proof (rule visits_fold [where path = "[]"])
    fix a t assume t: "a \<in> set addrs" "topo_ok E t" "tp_path t = []" "reached E t a"
    show "visited E t [a] (visit ?n E a t)"
      by (rule visit_visited [OF closed fin]) (use t card dom in auto)
  qed (use start in \<open>auto simp: topo_start_def reached_def\<close>)
  show ?thesis
  proof (cases "fold_res (visit ?n E) addrs topo_start")
    case (Inl e)
    then show ?thesis using v by (auto simp: topoSortAddresses_def visited_def)
  next
    case (Inr t)
    then have t: "topo_ok E t" "set addrs \<subseteq> set (tp_order t)" using v by (simp_all add: visited_def)
    have "set (tp_order t) \<subseteq> dom E"
    proof
      fix a assume "a \<in> set (tp_order t)"
      then obtain i where "i < length (tp_order t)" "tp_order t ! i = a" by (auto simp: in_set_conv_nth)
      then show "a \<in> dom E" using deps_first_nth [of E "tp_order t" i] t(1) by (auto simp: topo_ok_def)
    qed
    then have set: "set (tp_order t) = set addrs" using t(2) dom by blast
    have "\<nexists>c. cycle_of E c" using sorted_no_cycle [of E "tp_order t"] t(1) dom set by (auto simp: topo_ok_def)
    then show ?thesis using Inr t(1) set by (auto simp: topoSortAddresses_def topo_ok_def)
  qed
qed

lemma edges_closed:
  assumes "validateChangeEdges byAddr byAddr = Inr ()" "edges_in byAddr a = Some ds" "d \<in> set ds"
  shows "edges_in byAddr d \<noteq> None"
  using assms by (fastforce simp: validateChangeEdges_ok edges_in_def dest: map_of_SomeD)

lemma dom_edges_by_addr: "dom (edges_in (by_addr ns)) = ch_key ` set ns"
  using by_addr_None [of ns] by (auto simp: edges_in_def dom_def)

text \<open>The edges among the nodes of a delta.\<close>

abbreviation delta_edges :: "changeNode list \<Rightarrow> string \<Rightarrow> string list option" where
  "delta_edges ns \<equiv> edges_in (by_addr ns)"

lemma changeNodesOf_eq:
  assumes "deltaNodes p = Inr ds" "validateChangeEdges (by_addr ds) (by_addr ds) = Inr ()"
  shows "changeNodesOf p = rbind (topoSortAddresses (sort (map ch_key ds)) (delta_edges ds))
    (\<lambda>order. Inr (map (\<lambda>k. the (map_of (by_addr ds) k)) order))"
  using assms by (simp add: changeNodesOf_def Let_def)

lemma delta_topo:
  assumes "validateChangeEdges (by_addr ds) (by_addr ds) = Inr ()"
  shows "(\<exists>order. topoSortAddresses (sort (map ch_key ds)) (delta_edges ds) = Inr order \<and> distinct order \<and>
       set order = ch_key ` set ds \<and> deps_first (delta_edges ds) {} order \<and> (\<nexists>c. cycle_of (delta_edges ds) c)) \<or>
    (\<exists>c. topoSortAddresses (sort (map ch_key ds)) (delta_edges ds) = Inl (ErrDependencyCycle c) \<and> cycle_of (delta_edges ds) c)"
proof -
  have dom: "dom (delta_edges ds) = set (sort (map ch_key ds))" by (simp add: dom_edges_by_addr)
  have keys: "set (sort (map ch_key ds)) = ch_key ` set ds" by simp
  show ?thesis
    using topoSort_outcomes [OF _ dom] edges_closed [OF assms] unfolding keys by blast
qed

lemma changeNodesOf_sorted:
  assumes "changeNodesOf p = Inr ns"
  shows "\<exists>ds. deltaNodes p = Inr ds \<and> distinct (map ch_key ns) \<and> ch_key ` set ns = ch_key ` set ds \<and>
    (\<forall>n \<in> set ns. find (\<lambda>m. ch_key m = ch_key n) (rev ds) = Some n) \<and>
    (\<forall>i < length ns. \<forall>d \<in> set (ch_dependsOn (ns ! i)). \<exists>j < i. ch_key (ns ! j) = d)"
proof -
  obtain ds where ds: "deltaNodes p = Inr ds" using assms by (auto simp: changeNodesOf_def res_simps)
  have val: "validateChangeEdges (by_addr ds) (by_addr ds) = Inr ()"
    using assms by (auto simp: changeNodesOf_def res_simps ds Let_def)
  let ?get = "\<lambda>k. the (map_of (by_addr ds) k)"
  obtain order where o: "topoSortAddresses (sort (map ch_key ds)) (delta_edges ds) = Inr order" "ns = map ?get order"
    using assms changeNodesOf_eq [OF ds val] by (auto simp: res_simps)
  have order: "distinct order" "set order = ch_key ` set ds" "deps_first (delta_edges ds) {} order"
    using delta_topo [OF val] o(1) by auto
  have get: "map_of (by_addr ds) k = Some (?get k) \<and> ch_key (?get k) = k" if "k \<in> set order" for k
    using that by_addr_None [of ds k] by_addr_key [of ds k] order(2) by (cases "map_of (by_addr ds) k") auto
  have keys: "map ch_key ns = order" unfolding o(2) map_map by (rule map_idI) (use get in \<open>simp only: comp_apply\<close>)
  have "\<exists>j < i. ch_key (ns ! j) = d" if i: "i < length ns" "d \<in> set (ch_dependsOn (ns ! i))" for i d
  proof -
    have "i < length order" using i(1) keys by auto
    moreover have "delta_edges ds (order ! i) = Some (ch_dependsOn (ns ! i))"
      using get [of "order ! i"] calculation unfolding edges_in_def o(2)
      by (metis nth_map nth_mem option.simps(9))
    ultimately obtain j where "j < i" "order ! j = d" using deps_first_nth [OF order(3)] i(2) by force
    then show ?thesis using keys i(1) by (metis length_map nth_map order_less_trans)
  qed
  moreover have "find (\<lambda>m. ch_key m = ch_key n) (rev ds) = Some n" if "n \<in> set ns" for n
    using that get unfolding o(2) by (auto simp: map_of_by_addr)
  moreover have "ch_key ` set ns = ch_key ` set ds" using keys order(2) by (metis list.set_map)
  ultimately show ?thesis using ds keys order(1) by metis
qed

text \<open>
  The nodes a change is shipped in order of: every address of a create, modify or destroy of the
  delta occurs exactly once, with the last entry that has it, and whatever a node depends on stands
  before it.
\<close>

theorem changeNodesOf_order:
  assumes "changeNodesOf p = Inr ns"
  shows "\<exists>ds. deltaNodes p = Inr ds \<and> distinct (map ch_key ns) \<and> ch_key ` set ns = ch_key ` set ds \<and>
    (\<forall>n \<in> set ns. find (\<lambda>m. ch_key m = ch_key n) (rev ds) = Some n) \<and>
    (\<forall>i < length ns. \<forall>d \<in> set (ch_dependsOn (ns ! i)). \<exists>j < i. ch_key (ns ! j) = d)"
  using changeNodesOf_sorted [OF assms] .

text \<open>
  Sorting a change always answers, and its answer is the shape of the graph: a dependency that is
  no node of the change is refused by name, a cycle of dependencies is refused with a closed walk along
  them, and the nodes come out exactly when there is neither.
\<close>

theorem changeNodesOf_outcomes:
  assumes "deltaNodes p = Inr ds"
  shows "(case changeNodesOf p of
      Inr ns \<Rightarrow> (\<forall>n \<in> set ns. set (ch_dependsOn n) \<subseteq> ch_key ` set ds) \<and> (\<nexists>c. cycle_of (delta_edges ds) c)
    | Inl e \<Rightarrow>
        (\<exists>n d. n \<in> set ds \<and> d \<in> set (ch_dependsOn n) \<and> d \<notin> ch_key ` set ds \<and> e = ErrDanglingDependency (ch_key n) d) \<or>
        (\<exists>c. cycle_of (delta_edges ds) c \<and> e = ErrDependencyCycle c))"
proof (cases "validateChangeEdges (by_addr ds) (by_addr ds)")
  case (Inl e)
  then obtain k n d where e: "(k, n) \<in> set (by_addr ds)" "d \<in> set (ch_dependsOn n)" "map_of (by_addr ds) d = None"
    "e = ErrDanglingDependency k d"
    using validateChangeEdges_error by blast
  have "amap_wf (foldl (\<lambda>m n. aput (ch_key n) n m) m0 ns)" if "amap_wf m0" for m0 ns
    using that by (induction ns arbitrary: m0) auto
  then have "amap_wf (by_addr ds)" by (simp add: by_addr_def)
  then have "n \<in> set ds \<and> ch_key n = k" by (rule by_addr_key [OF amap_wf_map_of [OF _ e(1)]])
  then show ?thesis using Inl e by_addr_None [of ds d] assms by (auto simp: changeNodesOf_def Let_def)
next
  case (Inr u)
  then have val: "validateChangeEdges (by_addr ds) (by_addr ds) = Inr ()" by simp
  consider (ok) order where "topoSortAddresses (sort (map ch_key ds)) (delta_edges ds) = Inr order"
      "set order = ch_key ` set ds" "\<nexists>c. cycle_of (delta_edges ds) c"
    | (bad) c where "topoSortAddresses (sort (map ch_key ds)) (delta_edges ds) = Inl (ErrDependencyCycle c)" "cycle_of (delta_edges ds) c"
    using delta_topo [OF val] by blast
  then show ?thesis
  proof cases
    case ok
    have "set (ch_dependsOn (the (map_of (by_addr ds) k))) \<subseteq> ch_key ` set ds" if k: "k \<in> set order" for k
    proof -
      obtain n where n: "map_of (by_addr ds) k = Some n" using k ok(2) by_addr_None [of ds k] by auto
      then have "(k, n) \<in> set (by_addr ds)" by (rule map_of_SomeD)
      then show ?thesis using val n by_addr_None [of ds] by (auto simp: validateChangeEdges_ok)
    qed
    then show ?thesis using ok by (simp add: changeNodesOf_eq [OF assms val])
  next
    case bad
    then show ?thesis by (auto simp: changeNodesOf_eq [OF assms val])
  qed
qed

section \<open>A sample\<close>

definition sample_create :: "string \<Rightarrow> string list \<Rightarrow> gval \<Rightarrow> gval" where
  "sample_create name deps config = GObj [(''config'', config), (''depends_on'', GArr (map GStr deps)),
     (''name'', GStr name), (''stack'', GStr ''s''), (''type'', GStr ''t'')]"

definition sample_destroy :: "string \<Rightarrow> string list \<Rightarrow> raw \<Rightarrow> DestroyEntry" where
  "sample_destroy name deps state = \<lparr>des_Address = Address ''s'' ''t'' name, des_State = state, des_DependsOn = deps,
     des_Provider = None, des_Sources = []\<rparr>"

definition change_with :: "Delta \<Rightarrow> ResolutionInput list \<Rightarrow> Proposal" where
  "change_with d ins = sample_proposal ''p'' [] KindChange d ins \<lparr>br_Creates = 0, br_Modifies = 0, br_Destroys = 0\<rparr>"

definition sample_pair :: Proposal where
  "sample_pair = change_with \<lparr>d_Creates = [Some (sample_create ''a'' [''s.t.b''] GNil), Some (sample_create ''b'' [] GNil)],
     d_Modifies = [], d_Destroys = [sample_destroy ''c'' [''s.t.a''] None]\<rparr> []"

definition sample_loop :: Proposal where
  "sample_loop = change_with \<lparr>d_Creates = [Some (sample_create ''a'' [''s.t.b''] GNil), Some (sample_create ''b'' [''s.t.a''] GNil)],
     d_Modifies = [], d_Destroys = []\<rparr> []"

definition sample_cnode :: "string \<Rightarrow> string list \<Rightarrow> changeNode" where
  "sample_cnode name deps = createChange \<lparr>cn_Stack = ''s'', cn_Type = ''t'', cn_Name = name, cn_Provider = None,
     cn_Config = Some GNil, cn_DependsOn = deps\<rparr>"

lemma sample_pair_nodes: "changeNodesOf sample_pair =
   Inr [sample_cnode ''b'' [], sample_cnode ''a'' [''s.t.b''], destroyChange (sample_destroy ''c'' [''s.t.a''] None)]"
  by code_simp

lemma sample_loop_delta: "deltaNodes sample_loop = Inr [sample_cnode ''a'' [''s.t.b''], sample_cnode ''b'' [''s.t.a'']]"
  by code_simp

lemma changeNodesOf_order_witness:
  "\<exists>ns ds. changeNodesOf sample_pair = Inr ns \<and> deltaNodes sample_pair = Inr ds \<and> distinct (map ch_key ns) \<and>
    ch_key ` set ns = ch_key ` set ds \<and> (\<forall>n \<in> set ns. find (\<lambda>m. ch_key m = ch_key n) (rev ds) = Some n) \<and>
    (\<forall>i < length ns. \<forall>d \<in> set (ch_dependsOn (ns ! i)). \<exists>j < i. ch_key (ns ! j) = d)"
  using changeNodesOf_order [OF sample_pair_nodes] sample_pair_nodes by blast

lemma changeNodesOf_outcomes_witness:
  "(case changeNodesOf sample_loop of
      Inr ns \<Rightarrow> (\<forall>n \<in> set ns. set (ch_dependsOn n) \<subseteq> ch_key ` set [sample_cnode ''a'' [''s.t.b''], sample_cnode ''b'' [''s.t.a'']]) \<and>
        (\<nexists>c. cycle_of (delta_edges [sample_cnode ''a'' [''s.t.b''], sample_cnode ''b'' [''s.t.a'']]) c)
    | Inl e \<Rightarrow>
        (\<exists>n d. n \<in> set [sample_cnode ''a'' [''s.t.b''], sample_cnode ''b'' [''s.t.a'']] \<and> d \<in> set (ch_dependsOn n) \<and>
           d \<notin> ch_key ` set [sample_cnode ''a'' [''s.t.b''], sample_cnode ''b'' [''s.t.a'']] \<and> e = ErrDanglingDependency (ch_key n) d) \<or>
        (\<exists>c. cycle_of (delta_edges [sample_cnode ''a'' [''s.t.b''], sample_cnode ''b'' [''s.t.a'']]) c \<and> e = ErrDependencyCycle c))"
  by (rule changeNodesOf_outcomes [OF sample_loop_delta])

end
