(* ===== verification/JsonText.thy ===== *)
theory JsonText
  imports DotPath
begin

text \<open>
  json.Unmarshal on bytes that are only known at run time: a string that itself holds a JSON document.
  The scanner's grammar with its depth limit, the unquoting of strings (escapes, surrogate pairs, and
  U+FFFD in place of what is not UTF-8) and the last of two equal keys winning are written out; numbers
  keep their literals, as everywhere, until \<open>plain\<close> turns them into float64.
\<close>

section \<open>UTF-8\<close>

definition byte :: "nat \<Rightarrow> char" where
  "byte n = char_of n"

definition in_range :: "nat \<Rightarrow> nat \<Rightarrow> string \<Rightarrow> nat \<Rightarrow> bool" where
  "in_range lo hi cs i \<longleftrightarrow> i < length cs \<and> lo \<le> of_char (cs ! i) \<and> of_char (cs ! i) \<le> hi"

text \<open>utf8.DecodeRune: how many bytes the first rune takes, zero when they are not one.\<close>

definition rune_size :: "char \<Rightarrow> string \<Rightarrow> nat" where
  "rune_size c cs =
     (let n = of_char c :: nat; cont = in_range 0x80 0xBF cs in
      if n < 0x80 then 1
      else if n < 0xC2 then 0
      else if n < 0xE0 then (if cont 0 then 2 else 0)
      else if n < 0xF0 then
        (if in_range (if n = 0xE0 then 0xA0 else 0x80) (if n = 0xED then 0x9F else 0xBF) cs 0 \<and> cont 1 then 3 else 0)
      else if n < 0xF5 then
        (if in_range (if n = 0xF0 then 0x90 else 0x80) (if n = 0xF4 then 0x8F else 0xBF) cs 0 \<and> cont 1 \<and> cont 2
         then 4 else 0)
      else 0)"

definition rune_error :: string where
  "rune_error = [byte 0xEF, byte 0xBF, byte 0xBD]"

text \<open>utf8.EncodeRune of a code point that is not a surrogate.\<close>

definition rune_bytes :: "nat \<Rightarrow> string" where
  "rune_bytes r =
     (if r < 0x80 then [byte r]
      else if r < 0x800 then [byte (0xC0 + r div 64), byte (0x80 + r mod 64)]
      else if r < 0x10000 then [byte (0xE0 + r div 4096), byte (0x80 + r div 64 mod 64), byte (0x80 + r mod 64)]
      else [byte (0xF0 + r div 262144), byte (0x80 + r div 4096 mod 64), byte (0x80 + r div 64 mod 64),
            byte (0x80 + r mod 64)])"

section \<open>Strings\<close>

definition hex_val :: "char \<Rightarrow> nat option" where
  "hex_val c = (let n = of_char c :: nat in
     if 48 \<le> n \<and> n \<le> 57 then Some (n - 48)
     else if 97 \<le> n \<and> n \<le> 102 then Some (n - 87)
     else if 65 \<le> n \<and> n \<le> 70 then Some (n - 55)
     else None)"

definition hex4 :: "string \<Rightarrow> nat option" where
  "hex4 s = (if length s < 4 then None
     else foldl (\<lambda>acc c. case (acc, hex_val c) of (Some a, Some h) \<Rightarrow> Some (a * 16 + h) | _ \<Rightarrow> None)
            (Some 0) (take 4 s))"

definition simple_escape :: "char \<Rightarrow> char option" where
  "simple_escape c =
     (if c = CHR 0x22 \<or> c = bslash \<or> c = CHR ''/'' then Some c
      else if c = CHR ''b'' then Some (byte 8) else if c = CHR ''f'' then Some (byte 12)
      else if c = CHR ''n'' then Some (byte 10) else if c = CHR ''r'' then Some (byte 13)
      else if c = CHR ''t'' then Some (byte 9) else None)"

text \<open>What follows \<open>\u\<close>: the bytes it stands for, and how many characters it takes.\<close>

definition unicode_escape :: "string \<Rightarrow> (string \<times> nat) option" where
  "unicode_escape s = (case hex4 s of
      None \<Rightarrow> None
    | Some r \<Rightarrow>
        if r < 0xD800 \<or> 0xE000 \<le> r then Some (rune_bytes r, 4)
        else Some (case (if take 2 (drop 4 s) = [bslash, CHR ''u''] then hex4 (drop 6 s) else None) of
            Some q \<Rightarrow> if r < 0xDC00 \<and> 0xDC00 \<le> q \<and> q < 0xE000
                      then (rune_bytes ((r - 0xD800) * 1024 + (q - 0xDC00) + 0x10000), 10)
                      else (rune_error, 4)
          | None \<Rightarrow> (rune_error, 4)))"

text \<open>The rest of a string literal after its opening quote: the decoded bytes and what follows.\<close>

fun str_body :: "string \<Rightarrow> (string \<times> string) option" where
  "str_body [] = None"
| "str_body (c # cs) =
     (if c = CHR 0x22 then Some ([], cs)
      else if of_char c < (0x20::nat) then None
      else if c = bslash then
        (case cs of
           [] \<Rightarrow> None
         | e # es \<Rightarrow>
             if e = CHR ''u'' then
               (case unicode_escape es of
                  None \<Rightarrow> None
                | Some (bs, n) \<Rightarrow> map_option (\<lambda>(s, rest). (bs @ s, rest)) (str_body (drop n es)))
             else (case simple_escape e of
                  None \<Rightarrow> None
                | Some b \<Rightarrow> map_option (\<lambda>(s, rest). (b # s, rest)) (str_body es)))
      else
        (let n = rune_size c cs
         in map_option (\<lambda>(s, rest). ((if n = 0 then rune_error else c # take (n - 1) cs) @ s, rest))
              (str_body (drop (n - 1) cs))))"

section \<open>Numbers\<close>

definition is_digit :: "char \<Rightarrow> bool" where
  "is_digit c \<longleftrightarrow> 48 \<le> (of_char c :: nat) \<and> (of_char c :: nat) \<le> 57"

definition digits1 :: "string \<Rightarrow> (string \<times> string) option" where
  "digits1 s = (let ds = takeWhile is_digit s in if ds = [] then None else Some (ds, dropWhile is_digit s))"

definition scan_int :: "string \<Rightarrow> (string \<times> string) option" where
  "scan_int s = (case s of
      [] \<Rightarrow> None
    | c # cs \<Rightarrow> if c = CHR ''0'' then Some ([c], cs) else digits1 s)"

definition scan_frac :: "string \<Rightarrow> (string \<times> string) option" where
  "scan_frac s = (case s of
      c # cs \<Rightarrow> if c = CHR ''.'' then map_option (\<lambda>(ds, r). (c # ds, r)) (digits1 cs) else Some ([], s)
    | [] \<Rightarrow> Some ([], s))"

definition scan_exp :: "string \<Rightarrow> (string \<times> string) option" where
  "scan_exp s = (case s of
      c # cs \<Rightarrow>
        if c = CHR ''e'' \<or> c = CHR ''E'' then
          (case cs of
             d # ds \<Rightarrow> if d = CHR ''+'' \<or> d = CHR ''-'' then map_option (\<lambda>(x, r). (c # d # x, r)) (digits1 ds)
                       else map_option (\<lambda>(x, r). (c # x, r)) (digits1 cs)
           | [] \<Rightarrow> None)
        else Some ([], s)
    | [] \<Rightarrow> Some ([], s))"

definition scan_unsigned :: "string \<Rightarrow> (string \<times> string) option" where
  "scan_unsigned s =
     Option.bind (scan_int s) (\<lambda>(i, r).
     Option.bind (scan_frac r) (\<lambda>(f, r').
     Option.bind (scan_exp r') (\<lambda>(e, r''). Some (i @ f @ e, r''))))"

definition scan_number :: "string \<Rightarrow> (string \<times> string) option" where
  "scan_number s = (case s of
      c # cs \<Rightarrow> if c = CHR ''-'' then map_option (\<lambda>(l, r). (c # l, r)) (scan_unsigned cs) else scan_unsigned s
    | [] \<Rightarrow> None)"

section \<open>Values\<close>

definition json_space :: "char \<Rightarrow> bool" where
  "json_space c \<longleftrightarrow> c = CHR '' '' \<or> c = CHR 0x09 \<or> c = CHR 0x0A \<or> c = CHR 0x0D"

abbreviation skip_ws :: "string \<Rightarrow> string" where
  "skip_ws \<equiv> dropWhile json_space"

definition scan_lit :: "string \<Rightarrow> gval \<Rightarrow> string \<Rightarrow> (gval \<times> string) option" where
  "scan_lit w v s = (if take (length w) s = w then Some (v, drop (length w) s) else None)"

text \<open>A value that is neither an array nor an object.\<close>

definition scan_scalar :: "string \<Rightarrow> (gval \<times> string) option" where
  "scan_scalar s = (case s of
      [] \<Rightarrow> None
    | c # cs \<Rightarrow>
        if c = CHR 0x22 then map_option (\<lambda>(x, r). (GStr x, r)) (str_body cs)
        else if c = CHR ''t'' then scan_lit ''true'' (GBool True) s
        else if c = CHR ''f'' then scan_lit ''false'' (GBool False) s
        else if c = CHR ''n'' then scan_lit ''null'' GNil s
        else map_option (\<lambda>(x, r). (GNumber x, r)) (scan_number s))"

text \<open>
  \<open>depth\<close> is how many more levels of nesting the scanner allows. An array or object is read after its
  opening bracket and white space; \<open>json_elems\<close> and \<open>json_members\<close> start at an element.
\<close>

fun json_val :: "nat \<Rightarrow> nat \<Rightarrow> string \<Rightarrow> (gval \<times> string) option"
  and json_elems :: "nat \<Rightarrow> nat \<Rightarrow> string \<Rightarrow> (gval list \<times> string) option"
  and json_members :: "nat \<Rightarrow> nat \<Rightarrow> string \<Rightarrow> fields \<Rightarrow> (fields \<times> string) option" where
  "json_val 0 depth s = None"
| "json_val (Suc fuel) depth s = (case s of
      [] \<Rightarrow> None
    | c # cs \<Rightarrow>
        if c = CHR ''['' \<and> depth > 0 then
          (case skip_ws cs of
             [] \<Rightarrow> None
           | d # ds \<Rightarrow> if d = CHR '']'' then Some (GArr [], ds)
                       else map_option (\<lambda>(xs, r). (GArr xs, r)) (json_elems fuel (depth - 1) (d # ds)))
        else if c = CHR ''{'' \<and> depth > 0 then
          (case skip_ws cs of
             [] \<Rightarrow> None
           | d # ds \<Rightarrow> if d = CHR ''}'' then Some (GObj [], ds)
                       else map_option (\<lambda>(fs, r). (GObj fs, r)) (json_members fuel (depth - 1) (d # ds) []))
        else scan_scalar s)"
| "json_elems 0 depth s = None"
| "json_elems (Suc fuel) depth s = (case json_val fuel depth s of
      None \<Rightarrow> None
    | Some (v, r) \<Rightarrow> (case skip_ws r of
          [] \<Rightarrow> None
        | c # cs \<Rightarrow> if c = CHR '']'' then Some ([v], cs)
                    else if c = CHR '','' then map_option (\<lambda>(xs, r'). (v # xs, r')) (json_elems fuel depth (skip_ws cs))
                    else None))"
| "json_members 0 depth s fs = None"
| "json_members (Suc fuel) depth s fs = (case s of
      [] \<Rightarrow> None
    | q # ks \<Rightarrow> if q \<noteq> CHR 0x22 then None
        else (case str_body ks of
            None \<Rightarrow> None
          | Some (k, r) \<Rightarrow> (case skip_ws r of
                [] \<Rightarrow> None
              | c # cs \<Rightarrow> if c \<noteq> CHR '':'' then None
                  else (case json_val fuel depth (skip_ws cs) of
                      None \<Rightarrow> None
                    | Some (v, r') \<Rightarrow> (case skip_ws r' of
                          [] \<Rightarrow> None
                        | d # ds \<Rightarrow> if d = CHR ''}'' then Some (aput k v fs, ds)
                            else if d = CHR '','' then json_members fuel depth (skip_ws ds) (aput k v fs)
                            else None)))))"

definition maxNestingDepth :: nat where
  "maxNestingDepth = 10000"

definition json_parse :: "string \<Rightarrow> gval option" where
  "json_parse s = (case json_val (2 * length s + 2) maxNestingDepth (skip_ws s) of
      Some (v, r) \<Rightarrow> if skip_ws r = [] then Some v else None
    | None \<Rightarrow> None)"

text \<open>json.Unmarshal of a text into \<open>interface{}\<close>.\<close>

definition unmarshal_text :: "string \<Rightarrow> gval option" where
  "unmarshal_text s = Option.bind (json_parse s) plain"

section \<open>Decoding makes texts smaller\<close>

text \<open>
  The ASCII characters of a text, and of the strings in a value. A decoded value has no more of them
  than its text, and fewer when it has a bracket: so decoding what strings hold, again and again, ends.
\<close>

definition ascii :: "string \<Rightarrow> nat" where
  "ascii s = length (filter (\<lambda>c. of_char c < (128::nat)) s)"

fun ascii_in :: "gval \<Rightarrow> nat" where
  "ascii_in (GStr s) = ascii s"
| "ascii_in (GArr xs) = sum_list (map ascii_in xs)"
| "ascii_in (GObj fs) = sum_list (map (\<lambda>b. ascii_in (snd b)) fs)"
| "ascii_in v = 0"

lemma ascii_simps [simp]:
  "ascii [] = 0" "ascii (c # s) = (if of_char c < (128::nat) then 1 else 0) + ascii s"
  "ascii (s @ t) = ascii s + ascii t"
  by (simp_all add: ascii_def)

lemma ascii_le_length: "ascii s \<le> length s"
  by (simp add: ascii_def)

lemma ascii_take_drop: "ascii (take n s) + ascii (drop n s) = ascii s"
  by (metis ascii_simps(3) append_take_drop_id)

lemma ascii_drop [simp]: "ascii (drop n s) \<le> ascii s"
  using ascii_take_drop [of n s] by linarith

lemma ascii_skip: "ascii (dropWhile P s) \<le> ascii s"
  by (induction s) auto

lemma hex_val_ascii: "hex_val c = Some h \<Longrightarrow> of_char c < (128::nat)"
  by (auto simp: hex_val_def Let_def split: if_splits)

lemma hex4_ascii:
  assumes "hex4 s = Some r"
  shows "ascii s = 4 + ascii (drop 4 s)"
proof -
  obtain a b c d t where s: "s = a # b # c # d # t"
    using assms by (auto simp: hex4_def numeral_eq_Suc Suc_le_length_iff not_less split: if_splits)
  then show ?thesis
    using assms by (auto simp: hex4_def dest: hex_val_ascii split: option.splits)
qed

lemma length_rune_bytes: "length (rune_bytes r) \<le> 4"
  by (simp add: rune_bytes_def)

lemma ascii_rune_bytes: "ascii (rune_bytes r) \<le> 4"
  using ascii_le_length [of "rune_bytes r"] length_rune_bytes [of r] by linarith

lemma ascii_rune_error [simp]: "ascii rune_error = 0"
  by (simp add: rune_error_def byte_def)

lemma unicode_escape_ascii:
  assumes "unicode_escape s = Some (bs, n)"
  shows "ascii bs + ascii (drop n s) \<le> ascii s"
proof -
  have n: "n \<ge> 4" using assms by (auto simp: unicode_escape_def split: option.splits if_splits)
  have "ascii bs \<le> 4" using assms ascii_rune_bytes
    by (auto simp: unicode_escape_def split: option.splits if_splits)
  moreover have "ascii (drop n s) \<le> ascii (drop 4 s)"
    using ascii_drop [of "n - 4" "drop 4 s"] n by simp
  moreover have "ascii s = 4 + ascii (drop 4 s)"
    using assms by (auto simp: unicode_escape_def dest: hex4_ascii split: option.splits)
  ultimately show ?thesis by linarith
qed

lemma simple_escape_ascii: "simple_escape c = Some b \<Longrightarrow> of_char c < (128::nat) \<and> ascii [b] \<le> 1"
  by (auto simp: simple_escape_def bslash_def split: if_splits)

lemma str_body_ascii: "str_body s = Some (x, r) \<Longrightarrow> ascii x + ascii r < ascii s"
proof (induction s arbitrary: x r rule: str_body.induct)
  case (2 c cs)
  show ?case
  proof (cases "c = CHR 0x22")
    case True
    then show ?thesis using "2.prems" by simp
  next
    case quote: False
    then have ge: "\<not> of_char c < (0x20::nat)" using "2.prems" by (auto split: if_splits)
    show ?thesis
    proof (cases "c = bslash")
      case True
      then obtain e es where cs: "cs = e # es" using "2.prems" quote ge by (cases cs) auto
      show ?thesis
      proof (cases "e = CHR ''u''")
        case u: True
        obtain bs n y where y: "unicode_escape es = Some (bs, n)" "str_body (drop n es) = Some (y, r)" "x = bs @ y"
          using "2.prems" quote ge True cs u by (auto split: option.splits)
        have "ascii y + ascii r < ascii (drop n es)"
          using "2.IH"(1) [OF quote ge True cs u y(1) refl y(2)] .
        then show ?thesis using unicode_escape_ascii [OF y(1)] y(3) cs by simp
      next
        case u: False
        obtain b y where y: "simple_escape e = Some b" "str_body es = Some (y, r)" "x = b # y"
          using "2.prems" quote ge True cs u by (auto split: option.splits)
        show ?thesis using "2.IH"(2) [OF quote ge True cs u y(1) y(2)] simple_escape_ascii [OF y(1)] y(3) cs by simp
      qed
    next
      case False
      let ?n = "rune_size c cs"
      obtain y where y: "str_body (drop (?n - 1) cs) = Some (y, r)"
        "x = (if ?n = 0 then rune_error else c # take (?n - 1) cs) @ y"
        using "2.prems" quote ge False by (auto simp: Let_def)
      have "ascii y + ascii r < ascii (drop (?n - 1) cs)"
        using "2.IH"(3) [OF quote ge False refl y(1)] .
      then show ?thesis using ascii_take_drop [of "?n - 1" cs] y(2) by (auto split: if_splits)
    qed
  qed
qed simp

lemma digits1_ascii: "digits1 s = Some (x, r) \<Longrightarrow> ascii r \<le> ascii s"
  by (auto simp: digits1_def Let_def ascii_skip split: if_splits)

lemma scan_unsigned_ascii:
  assumes "scan_unsigned s = Some (x, r)"
  shows "ascii r \<le> ascii s"
proof -
  obtain i a b c e where i: "scan_int s = Some (i, a)" and b: "scan_frac a = Some (b, c)" and e: "scan_exp c = Some (e, r)"
    using assms by (auto simp: scan_unsigned_def bind_eq_Some_conv)
  have "ascii a \<le> ascii s" using i
    by (auto simp: scan_int_def dest: digits1_ascii split: list.splits if_splits)
  moreover have "ascii c \<le> ascii a" using b
    by (auto simp: scan_frac_def dest: digits1_ascii split: list.splits if_splits)
  moreover have "ascii r \<le> ascii c" using e
    by (auto simp: scan_exp_def dest: digits1_ascii split: list.splits if_splits)
  ultimately show ?thesis by linarith
qed

lemma scan_scalar_ascii: "scan_scalar s = Some (v, r) \<Longrightarrow> ascii_in v + ascii r \<le> ascii s"
  by (auto simp: scan_scalar_def scan_lit_def scan_number_def
    split: list.splits if_splits dest!: str_body_ascii scan_unsigned_ascii
    intro: order_trans [OF ascii_drop] le_SucI [OF order_trans [OF ascii_drop]])

fun is_container :: "gval \<Rightarrow> bool" where
  "is_container (GArr xs) \<longleftrightarrow> True"
| "is_container (GObj fs) \<longleftrightarrow> True"
| "is_container v \<longleftrightarrow> False"

lemma scan_scalar_container: "scan_scalar s = Some (v, r) \<Longrightarrow> \<not> is_container v"
  by (auto simp: scan_scalar_def scan_lit_def split: list.splits if_splits)

definition ascii_members :: "fields \<Rightarrow> nat" where
  "ascii_members fs = sum_list (map (\<lambda>b. ascii_in (snd b)) fs)"

lemma ascii_members_Nil [simp]: "ascii_members [] = 0"
  by (simp add: ascii_members_def)

lemma ascii_in_obj: "ascii_in (GObj fs) = ascii_members fs"
  by (simp add: ascii_members_def)

lemma ascii_members_aput: "ascii_members (aput k v fs) \<le> ascii_in v + ascii_members fs"
  by (induction fs) (auto simp: ascii_members_def)

lemma json_val_ascii:
  "json_val n d s = Some (v, r) \<Longrightarrow>
     ascii_in v + ascii r \<le> ascii s \<and> (is_container v \<longrightarrow> ascii_in v + ascii r < ascii s)"
  "json_elems n d s = Some (xs, r) \<Longrightarrow> sum_list (map ascii_in xs) + ascii r < ascii s"
  "json_members n d s fs = Some (gs, r) \<Longrightarrow> ascii_members gs + ascii r < ascii_members fs + ascii s"
proof (induction n d s and n d s and n d s fs arbitrary: v r and xs r and gs r
    rule: json_val_json_elems_json_members.induct)
  case (2 fuel depth s)
  obtain c cs where s: "s = c # cs" using "2.prems" by (cases s) auto
  consider (arr) "c = CHR ''[''" "depth > 0" | (obj) "c = CHR ''{''" "depth > 0"
    | (scalar) "json_val (Suc fuel) depth s = scan_scalar s" unfolding s by fastforce
  then show ?case
  proof cases
    case arr
    then obtain e es where e: "skip_ws cs = e # es" using "2.prems" s by (cases "skip_ws cs") auto
    have le: "ascii (e # es) \<le> ascii cs" using ascii_skip [of json_space cs] unfolding e .
    show ?thesis
    proof (cases "e = CHR '']''")
      case True
      then show ?thesis using "2.prems" s arr e le by auto
    next
      case False
      then obtain ys where "json_elems fuel (depth - 1) (e # es) = Some (ys, r)" "v = GArr ys"
        using "2.prems" s arr e by auto
      then show ?thesis using "2.IH"(1) [OF s _ e False] arr s le by (auto simp del: ascii_simps(2)) simp_all
    qed
  next
    case obj
    then obtain e es where e: "skip_ws cs = e # es" using "2.prems" s by (cases "skip_ws cs") auto
    have le: "ascii (e # es) \<le> ascii cs" using ascii_skip [of json_space cs] unfolding e .
    show ?thesis
    proof (cases "e = CHR ''}''")
      case True
      then show ?thesis using "2.prems" s obj e le by auto
    next
      case False
      then obtain ys where "json_members fuel (depth - 1) (e # es) [] = Some (ys, r)" "v = GObj ys"
        using "2.prems" s obj e by auto
      then show ?thesis using "2.IH"(2) [OF s _ _ e False] obj s le
        by (auto simp del: ascii_simps(2) ascii_in.simps simp: ascii_in_obj) simp_all
    qed
  next
    case scalar
    then show ?thesis using "2.prems" scan_scalar_ascii scan_scalar_container by metis
  qed
next
  case (4 fuel depth s)
  then obtain w t where w: "json_val fuel depth s = Some (w, t)" by (auto split: option.splits)
  then obtain c cs where c: "skip_ws t = c # cs" using "4.prems" by (cases "skip_ws t") auto
  have le: "ascii (c # cs) \<le> ascii t" using ascii_skip [of json_space t] unfolding c .
  have val: "ascii_in w + ascii t \<le> ascii s" using "4.IH"(1) [OF w] by simp
  show ?case
  proof (cases "c = CHR '']''")
    case True
    then show ?thesis using "4.prems" w c le val by auto
  next
    case False
    then obtain ys where y: "c = CHR '',''" "json_elems fuel depth (skip_ws cs) = Some (ys, r)" "xs = w # ys"
      using "4.prems" w c by (auto split: if_splits)
    then have "sum_list (map ascii_in ys) + ascii r < ascii (skip_ws cs)"
      using "4.IH"(2) [OF w refl c False y(1)] by blast
    then show ?thesis using le val y(3) ascii_skip [of json_space cs] by simp
  qed
next
  case (6 fuel depth s fs)
  obtain q ks where s: "s = q # ks" "q = CHR 0x22" using "6.prems" by (cases s) (auto split: if_splits)
  obtain k t where k: "str_body ks = Some (k, t)" using "6.prems" s by (auto split: option.splits)
  obtain c cs where c: "skip_ws t = c # cs" "c = CHR '':''" using "6.prems" s k by (auto split: list.splits if_splits)
  obtain w u where w: "json_val fuel depth (skip_ws cs) = Some (w, u)" using "6.prems" s k c by (auto split: option.splits)
  obtain e es where e: "skip_ws u = e # es" using "6.prems" s k c w by (auto split: list.splits)
  have le: "ascii (e # es) \<le> ascii u" "ascii (c # cs) \<le> ascii t"
    using ascii_skip [of json_space u] ascii_skip [of json_space t] unfolding e c(1) .
  have val: "ascii_in w + ascii u \<le> ascii (skip_ws cs)" using "6.IH"(1) [OF s(1) _ k refl c(1)] s(2) c(2) w by simp
  have sum: "ascii_members (aput k w fs) + ascii u < ascii_members fs + ascii s"
    using ascii_members_aput [of k w fs] val le(2) str_body_ascii [OF k] ascii_skip [of json_space cs] s c(2) by simp
  show ?case
  proof (cases "e = CHR ''}''")
    case True
    then show ?thesis using "6.prems" s k c w e le sum by auto
  next
    case False
    then have y: "e = CHR '',''" "json_members fuel depth (skip_ws es) (aput k w fs) = Some (gs, r)"
      using "6.prems" s k c w e by (auto split: if_splits)
    then have "ascii_members gs + ascii r < ascii_members (aput k w fs) + ascii (skip_ws es)"
      using "6.IH"(2) [OF s(1) _ k refl c(1) _ w refl e False y(1)] s(2) c(2) by blast
    then show ?thesis using le(1) sum ascii_skip [of json_space es] by simp
  qed
qed simp_all

lemma ascii_in_plain: "plain v = Some w \<Longrightarrow> ascii_in w = ascii_in v \<and> is_container w = is_container v"
proof (induction v arbitrary: w rule: gval_induct)
  case (Arr xs)
  then obtain ys where ys: "list_all2 (\<lambda>x y. plain x = Some y) xs ys" "w = GArr ys"
    by (auto simp: those_map_Some_iff)
  have "map ascii_in ys = map ascii_in xs"
    using ys(1) Arr.IH by (auto simp: list_all2_conv_all_nth list_eq_iff_nth_eq)
  then show ?case using ys(2) by simp
next
  case (Obj fs)
  then obtain ys where ys: "list_all2 (\<lambda>b y. plain (snd b) = Some y) fs ys" "w = GObj (zip (map fst fs) ys)"
    by (auto simp: those_map_Some_iff)
  have "ascii_in (ys ! i) = ascii_in (snd (fs ! i))" if "i < length fs" for i
    using that ys(1) Obj.IH [of "fst (fs ! i)" "snd (fs ! i)"] by (auto simp: list_all2_conv_all_nth)
  then have "map ascii_in ys = map (\<lambda>b. ascii_in (snd b)) fs"
    using ys(1) by (auto simp: list_all2_conv_all_nth list_eq_iff_nth_eq)
  moreover have "map (\<lambda>b. ascii_in (snd b)) (zip (map fst fs) ys) = map ascii_in ys"
    using ys(1) by (auto simp: list_eq_iff_nth_eq list_all2_lengthD)
  ultimately show ?case using ys(2) by simp
qed auto

lemma unmarshal_text_ascii:
  assumes "unmarshal_text s = Some v" "is_container v"
  shows "ascii_in v < ascii s"
proof -
  obtain u r where u: "json_val (2 * length s + 2) maxNestingDepth (skip_ws s) = Some (u, r)" "plain u = Some v"
    using assms(1) by (auto simp: unmarshal_text_def json_parse_def bind_eq_Some_conv split: option.splits if_splits)
  have "ascii_in u + ascii r < ascii (skip_ws s)"
    using json_val_ascii(1) [OF u(1)] ascii_in_plain [OF u(2)] assms(2) by blast
  then show ?thesis using ascii_in_plain [OF u(2)] ascii_skip [of json_space s] by linarith
qed

end
