(* ===== verification/ShipNode.thy ===== *)
theory ShipNode
  imports Scan ShipGraph JsonText
begin

text \<open>
  core/executor/ship.go and recorder.go, what shipping does with one resource: its create, its modify,
  its destroy, its revert, with the retries and the read-backs. A node's code is a program in the sense
  of the type \<open>prog\<close>: what it does next, and how it goes on with the answer. A program is a well-founded
  tree, so the loops in it end; what runs beside it is the business of theory ShipWalk.
  Progress events, debug delays and sleeping leave no trace in what is modelled here.
\<close>

section \<open>Providers\<close>

text \<open>
  The error of a provider call: its text, and the text of the TerminalError that errors.As finds in it.
\<close>

record applyErr =
  ae_Text :: string
  ae_Terminal :: "string option"

record ('w, 'sch) Applier = "('w, 'sch) StateReader" +
  ap_ApplyResourceChange :: "'sch option \<Rightarrow> string \<Rightarrow> raw \<Rightarrow> raw \<Rightarrow> string \<Rightarrow> 'w \<Rightarrow> (applyErr, raw \<times> raw) res \<times> 'w"
  ap_PlanResourceChange :: "'sch option \<Rightarrow> string \<Rightarrow> raw \<Rightarrow> raw \<Rightarrow> 'w \<Rightarrow> (applyErr, raw \<times> string) res \<times> 'w"

type_synonym ('w, 'sch) ApplierPool = "string \<Rightarrow> string \<Rightarrow> ('w, err, ('w, 'sch) Applier \<times> raw) op"

definition SingleApplierPool :: "('w, 'sch) Applier \<Rightarrow> raw \<Rightarrow> ('w, 'sch) ApplierPool" where
  "SingleApplierPool app config source version = oret (Inr (app, config))"

definition applyErrorClassification :: "applyErr \<Rightarrow> ErrorClassification" where
  "applyErrorClassification e = (if ae_Terminal e \<noteq> None then ErrorTerminal else ErrorRetryable)"

text \<open>
  What shipping is run with: the hash, the store's operations, who owns an attribute, the clock, and the
  text of an error, which the model of errors does not keep.
\<close>

record ('s, 'w, 'sch) shipEnv =
  en_sha :: "string \<Rightarrow> string"
  en_ops :: "'s store_ops"
  en_owns :: "'sch \<Rightarrow> ownership"
  en_clock :: "'w \<Rightarrow> string \<times> 'w"
  en_text :: "err \<Rightarrow> string"

section \<open>Budgets\<close>

definition maxReconcileAttempts :: nat where "maxReconcileAttempts = 5"

definition maxApplyAttemptsPerResource :: nat where "maxApplyAttemptsPerResource = 3"

text \<open>In milliseconds.\<close>

definition eventualConsistencyBackoffSchedule :: "nat list" where
  "eventualConsistencyBackoffSchedule = [50, 200, 500, 1000, 2000, 5000, 10000, 15000, 15000, 15000]"

definition noProgressBailoutThreshold :: nat where "noProgressBailoutThreshold = 10000"

section \<open>History\<close>

record resourceHistory =
  rh_lastState :: "ResourceState option"
  rh_attemptsInFlight :: nat
  rh_lastProviderResult :: raw
  rh_lastReconciliationOutcome :: string
  rh_lastApplyClaimedSuccess :: bool

definition everInFlight :: "ResourceApply \<Rightarrow> bool" where
  "everInFlight ra \<longleftrightarrow> (\<exists>t \<in> set (rap_Transitions ra). tr_State t = ResourceInFlight)"

definition claimedSuccess :: "ResourceApply \<Rightarrow> bool option" where
  "claimedSuccess ra =
     latest (\<lambda>t. if tr_State t = ResourceUnknownPostTimeout then Some (tr_Detail t \<noteq> []) else None) (rap_Transitions ra)"

definition foldResourceHistory :: "ApplyRecord list \<Rightarrow> Address \<Rightarrow> resourceHistory" where
  "foldResourceHistory attempts addr =
     (let ras = entriesFor attempts addr
      in \<lparr>rh_lastState = latest LastState ras,
          rh_attemptsInFlight = length (filter everInFlight ras),
          rh_lastProviderResult = latest rap_ProviderResult ras,
          rh_lastReconciliationOutcome = (case latest reconOutcome ras of None \<Rightarrow> [] | Some out \<Rightarrow> out),
          rh_lastApplyClaimedSuccess = (latest claimedSuccess ras = Some True)\<rparr>)"

definition rh_applied :: "resourceHistory \<Rightarrow> bool" where
  "rh_applied h \<longleftrightarrow> rh_lastState h = Some ResourceApplied"

definition allAlreadyApplied :: "ApplyRecord list \<Rightarrow> Modification list \<Rightarrow> bool" where
  "allAlreadyApplied attempts modifies \<longleftrightarrow>
     (\<forall>m \<in> set modifies. rh_applied (foldResourceHistory attempts (mod_Target m)))"

definition allAddressesApplied :: "ApplyRecord list \<Rightarrow> Address list \<Rightarrow> bool" where
  "allAddressesApplied attempts addrs \<longleftrightarrow> (\<forall>a \<in> set addrs. rh_applied (foldResourceHistory attempts a))"

definition needsReconciliation :: "ResourceState \<Rightarrow> bool" where
  "needsReconciliation s \<longleftrightarrow> s = ResourceInFlight \<or> s = ResourceUnknownPostTimeout \<or> s = ResourceStillUnknown"

definition rh_unresolved :: "resourceHistory \<Rightarrow> bool" where
  "rh_unresolved h = (case rh_lastState h of None \<Rightarrow> False | Some s \<Rightarrow> needsReconciliation s)"

definition sortedModifies :: "Modification list \<Rightarrow> Modification list" where
  "sortedModifies mods =
     sort_key (\<lambda>m. (addr_Stack (mod_Target m), addr_Type (mod_Target m), addr_Name (mod_Target m))) mods"

section \<open>What a proposal says about a resource\<close>

definition lookupFor :: "Proposal \<Rightarrow> Address \<Rightarrow> raw" where
  "lookupFor p addr = (case find (\<lambda>i. in_Resource i = addr_String addr) (rs_Inputs (p_Resolution p)) of
      None \<Rightarrow> None
    | Some i \<Rightarrow> in_Lookup i)"

definition destroyTargetFor :: "Proposal \<Rightarrow> Address \<Rightarrow> (gval \<times> string) option" where
  "destroyTargetFor p addr =
     (case find (\<lambda>i. in_Kind i = ''destroy_target'' \<and> in_Resource i = addr_String addr) (rs_Inputs (p_Resolution p)) of
        None \<Rightarrow> None
      | Some i \<Rightarrow> map_option (\<lambda>l. (l, in_ObservedHash i)) (in_Lookup i))"

definition redactedAfterPaths :: "Modification \<Rightarrow> string list" where
  "redactedAfterPaths md = sort (map fst (filter (\<lambda>b. IsRedactedValue (snd b)) (mod_After md)))"

section \<open>Computed values\<close>

definition computedMarkerKey :: string where
  "computedMarkerKey = CHR 0x24 # ''computed''"

fun containsComputedMarker :: "gval \<Rightarrow> bool" where
  "containsComputedMarker (GObj fs) \<longleftrightarrow>
     (length fs = 1 \<and> map_of fs computedMarkerKey \<noteq> None) \<or> (\<exists>b \<in> set fs. containsComputedMarker (snd b))"
| "containsComputedMarker (GArr xs) \<longleftrightarrow> (\<exists>x \<in> set xs. containsComputedMarker x)"
| "containsComputedMarker v \<longleftrightarrow> False"

type_synonym results = "(string, raw) amap"

definition splitComputedFrom :: "string \<Rightarrow> (err, string \<times> string) res" where
  "splitComputedFrom s = (case splitn (CHR ''.'') 4 s of
      [a, b, c, path] \<Rightarrow> Inr (join_with (CHR ''.'') [a, b, c], path)
    | _ \<Rightarrow> Inl (ErrMalformedComputedMarker s))"

definition computedRef :: "fields \<Rightarrow> string option" where
  "computedRef fs = (if length fs \<noteq> 1 then None
     else case map_of fs computedMarkerKey of
            Some (GObj inner) \<Rightarrow> Some (get_str inner ''from'')
          | _ \<Rightarrow> None)"

definition resolveComputed :: "results \<Rightarrow> string \<Rightarrow> (err, gval) res" where
  "resolveComputed R from =
     rbind (splitComputedFrom from) (\<lambda>(addr, path).
       case map_of R addr of
         None \<Rightarrow> Inl (ErrDependencyNotApplied addr)
       | Some result \<Rightarrow>
           (case DotGet result path of
              None \<Rightarrow> Inl EJson
            | Some None \<Rightarrow> Inl (ErrDependencyOutputMissing from)
            | Some (Some v) \<Rightarrow> Inr v))"

text \<open>
  Of several members that fail to resolve, Go reports one in the order of that run; here the first.
\<close>

function substituteComputed :: "results \<Rightarrow> gval \<Rightarrow> (err, gval) res" where
  "substituteComputed R (GObj fs) = (case computedRef fs of
      Some from \<Rightarrow> resolveComputed R from
    | None \<Rightarrow> rbind (map_res (\<lambda>b. rbind (substituteComputed R (snd b)) (\<lambda>v. Inr (fst b, v))) fs) (\<lambda>gs. Inr (GObj gs)))"
| "substituteComputed R (GArr xs) = rbind (map_res (substituteComputed R) xs) (\<lambda>ys. Inr (GArr ys))"
| "substituteComputed R (GStr t) = (case unmarshal_text t of
      None \<Rightarrow> Inr (GStr t)
    | Some w \<Rightarrow>
        if \<not> containsComputedMarker w then Inr (GStr t)
        else rbind (substituteComputed R w) (\<lambda>v. Inr (GStr (marshal_text v))))"
| "substituteComputed R GNil = Inr GNil"
| "substituteComputed R (GBool b) = Inr (GBool b)"
| "substituteComputed R (GNumber s) = Inr (GNumber s)"
| "substituteComputed R (GFloat f) = Inr (GFloat f)"
| "substituteComputed R (GInt i) = Inr (GInt i)"
  by pat_completeness auto

lemma marker_container: "containsComputedMarker v \<Longrightarrow> is_container v"
  by (cases v) auto

lemma ascii_in_member: "b \<in> set fs \<Longrightarrow> ascii_in (snd b) \<le> sum_list (map (\<lambda>b. ascii_in (snd b)) fs)"
  by (induction fs) auto

lemma ascii_in_elem: "x \<in> set xs \<Longrightarrow> ascii_in x \<le> sum_list (map ascii_in xs)"
  by (induction xs) auto

termination substituteComputed
proof (relation "inv_image (less_than <*lex*> less_than) (\<lambda>(R, v). (ascii_in v, size v))", goal_cases)
  case 1
  then show ?case by auto
next
  case (2 R fs b)
  then show ?case using ascii_in_member [of b fs] gval_size_obj_snd [of b fs] by auto
next
  case (3 R xs x)
  then show ?case using ascii_in_elem [of x xs] gval_size_arr [of x xs] by auto
next
  case (4 R t w)
  then show ?case using unmarshal_text_ascii [of t w] marker_container [of w] by auto
qed

definition substituteEntry :: "results \<Rightarrow> string \<times> raw \<Rightarrow> (err, string \<times> raw) res" where
  "substituteEntry R b =
     rbind (of_opt EJson (unmarshal_any (snd b))) (\<lambda>v.
     rbind (substituteComputed R v) (\<lambda>sv. Inr (fst b, Some sv)))"

definition substituteModificationComputed :: "Modification \<Rightarrow> results \<Rightarrow> (err, Modification) res" where
  "substituteModificationComputed m R =
     (if mod_After m = [] then Inr m
      else rbind (map_res (substituteEntry R) (mod_After m)) (\<lambda>after. Inr (m\<lparr>mod_After := after\<rparr>)))"

section \<open>Verdicts of a read-back\<close>

definition dotGet :: "fields \<Rightarrow> string \<Rightarrow> gval option" where
  "dotGet m path = get_at (path_of path) (GObj m)"

text \<open>Every path of a patch holds its value in the state.\<close>

definition holds_all :: "fields \<Rightarrow> patch \<Rightarrow> bool" where
  "holds_all state m \<longleftrightarrow> (\<forall>b \<in> set m. \<exists>want. unmarshal_any (snd b) = Some want \<and> dotGet state (fst b) = Some want)"

text \<open>No path that only the first patch has is present in the state.\<close>

definition lacks_rest :: "fields \<Rightarrow> patch \<Rightarrow> patch \<Rightarrow> bool" where
  "lacks_rest state m n \<longleftrightarrow> (\<forall>b \<in> set m. map_of n (fst b) = None \<longrightarrow> dotGet state (fst b) = None)"

definition matchesRestoreTarget :: "fields \<Rightarrow> Modification \<Rightarrow> bool" where
  "matchesRestoreTarget state md \<longleftrightarrow> \<not> (mod_After md = [] \<and> mod_Before md = []) \<and>
     holds_all state (mod_After md) \<and> lacks_rest state (mod_Before md) (mod_After md)"

definition matchesOriginalDrift :: "fields \<Rightarrow> Modification \<Rightarrow> bool" where
  "matchesOriginalDrift state md \<longleftrightarrow> mod_Before md \<noteq> [] \<and>
     holds_all state (mod_Before md) \<and> lacks_rest state (mod_After md) (mod_Before md)"

definition reconciliationVerdict :: "gval \<Rightarrow> Modification \<Rightarrow> (err, string) res" where
  "reconciliationVerdict observed md = (case unmarshal_map (Some observed) of
      None \<Rightarrow> Inl EJson
    | Some state \<Rightarrow>
        if matchesRestoreTarget (fields_of state) md then Inr ''applied''
        else if matchesOriginalDrift (fields_of state) md then Inr ''failed''
        else Inr ''inconclusive'')"

end
