(* ===== verification/ShipProg.thy ===== *)
theory ShipProg
  imports ShipNode
begin

text \<open>
  The programs of core/executor: recorder.go's operations as the steps of a program, and from ship.go
  the two read-back loops, the retried create, and the four node programs, each with its checks, early
  returns and records in the order of the code.
\<close>

section \<open>Programs\<close>

text \<open>
  \<open>Mutate\<close> and \<open>Tally\<close> are the recorder's critical sections on the node's own entry and on the counters,
  \<open>Persist\<close> saves the whole record and ends the program when that fails, \<open>Ask\<close> reads the store or calls
  the world (\<open>None\<close>: the call does not return), and \<open>ApplyChange\<close> is the one call that changes a resource,
  with the prior and the planned state it is made with.
\<close>

datatype ('s, 'w, 'r) prog =
    Done "(err, 'r) res"
  | Mutate "ResourceApply \<Rightarrow> ResourceApply" "('s, 'w, 'r) prog"
  | Tally ResourceState "('s, 'w, 'r) prog"
  | Persist "('s, 'w, 'r) prog"
  | Ask "'s \<Rightarrow> 'w \<Rightarrow> (('s, 'w, 'r) prog \<times> 'w) option"
  | ApplyChange raw raw "'w \<Rightarrow> ('s, 'w, 'r) prog \<times> 'w"

definition ask :: "('w \<Rightarrow> 'a \<times> 'w) \<Rightarrow> ('a \<Rightarrow> ('s, 'w, 'r) prog) \<Rightarrow> ('s, 'w, 'r) prog" where
  "ask f k = Ask (\<lambda>_ w. case f w of (a, w') \<Rightarrow> Some (k a, w'))"

definition applyChange ::
    "raw \<Rightarrow> raw \<Rightarrow> ('w \<Rightarrow> 'a \<times> 'w) \<Rightarrow> ('a \<Rightarrow> ('s, 'w, 'r) prog) \<Rightarrow> ('s, 'w, 'r) prog" where
  "applyChange prior planned f k = ApplyChange prior planned (\<lambda>w. case f w of (a, w') \<Rightarrow> (k a, w'))"

definition add_transition :: "ResourceState \<Rightarrow> string \<Rightarrow> string \<Rightarrow> ResourceApply \<Rightarrow> ResourceApply" where
  "add_transition st at detail ra =
     ra\<lparr>rap_Transitions := rap_Transitions ra @ [\<lparr>tr_State = st, tr_At = at, tr_Detail = detail\<rparr>]\<rparr>"

definition add_error :: "string \<Rightarrow> string \<Rightarrow> ErrorClassification \<Rightarrow> ResourceApply \<Rightarrow> ResourceApply" where
  "add_error at message cls ra =
     ra\<lparr>rap_Errors := rap_Errors ra @ [\<lparr>er_At = at, er_Message = message, er_Classification = cls\<rparr>]\<rparr>"

definition add_attempt :: "string \<Rightarrow> string \<Rightarrow> string \<Rightarrow> ResourceApply \<Rightarrow> ResourceApply" where
  "add_attempt at outcome detail ra =
     ra\<lparr>rap_Reconciliation := rap_Reconciliation ra @ [\<lparr>ra_At = at, ra_Outcome = outcome, ra_Detail = detail\<rparr>]\<rparr>"

definition transition ::
    "('s, 'w, 'sch) shipEnv \<Rightarrow> ResourceState \<Rightarrow> string \<Rightarrow> ('s, 'w, 'r) prog \<Rightarrow> ('s, 'w, 'r) prog" where
  "transition env st detail P = ask (en_clock env) (\<lambda>at. Mutate (add_transition st at detail) P)"

definition recordErr ::
    "('s, 'w, 'sch) shipEnv \<Rightarrow> string \<Rightarrow> ErrorClassification \<Rightarrow> ('s, 'w, 'r) prog \<Rightarrow> ('s, 'w, 'r) prog" where
  "recordErr env message cls P = ask (en_clock env) (\<lambda>at. Mutate (add_error at message cls) P)"

definition noteNow :: "('s, 'w, 'sch) shipEnv \<Rightarrow> string \<Rightarrow> string \<Rightarrow> ('s, 'w, 'r) prog \<Rightarrow> ('s, 'w, 'r) prog" where
  "noteNow env outcome detail P = ask (en_clock env) (\<lambda>at. Mutate (add_attempt at outcome detail) P)"

text \<open>A node's tail: its outcome is counted and the record is saved.\<close>

definition settle :: "ResourceState \<Rightarrow> 'r \<Rightarrow> ('s, 'w, 'r) prog" where
  "settle st r = Tally st (Persist (Done (Inr r)))"

definition failWith :: "('s, 'w, 'sch) shipEnv \<Rightarrow> string \<Rightarrow> ErrorClassification \<Rightarrow> 'r \<Rightarrow> ('s, 'w, 'r) prog" where
  "failWith env message cls r = recordErr env message cls (settle ResourceFailed r)"

section \<open>Reading back\<close>

definition askRead ::
    "('s, 'w, 'sch) shipEnv \<Rightarrow> ('w, 'sch) Applier \<Rightarrow> Address \<Rightarrow> raw \<Rightarrow> raw \<Rightarrow>
     ((err, gval \<times> string) res \<Rightarrow> ('s, 'w, 'r) prog) \<Rightarrow> ('s, 'w, 'r) prog" where
  "askRead env app addr cfg lookup k = ask (ReadAndFingerprint (en_sha env) app (addr_Type addr) cfg lookup) k"

definition exhausted :: string where
  "exhausted = ''reconciliation exhausted its retry budget without a conclusive answer''"

primrec reconcileFrom ::
    "nat \<Rightarrow> ('s, 'w, 'sch) shipEnv \<Rightarrow> ('w, 'sch) Applier \<Rightarrow> raw \<Rightarrow> Address \<Rightarrow> raw \<Rightarrow> Modification \<Rightarrow>
     (ResourceState \<Rightarrow> ('s, 'w, 'r) prog) \<Rightarrow> ('s, 'w, 'r) prog" where
  "reconcileFrom 0 env app cfg addr lookup md k =
     transition env ResourceStillUnknown exhausted (k ResourceStillUnknown)"
| "reconcileFrom (Suc left) env app cfg addr lookup md k =
     askRead env app addr cfg lookup (\<lambda>r.
       case rbind r (\<lambda>(observed, _). reconciliationVerdict observed md) of
         Inl e \<Rightarrow> noteNow env ''inconclusive'' (en_text env e) (reconcileFrom left env app cfg addr lookup md k)
       | Inr verdict \<Rightarrow> noteNow env verdict []
           (if verdict = ''applied'' then
              transition env ResourceApplied ''confirmed by reconciliation'' (k ResourceApplied)
            else if verdict = ''failed'' then
              transition env ResourceFailed ''confirmed by reconciliation: change never landed'' (k ResourceFailed)
            else reconcileFrom left env app cfg addr lookup md k))"

definition reconcileLoop ::
    "('s, 'w, 'sch) shipEnv \<Rightarrow> ('w, 'sch) Applier \<Rightarrow> raw \<Rightarrow> Address \<Rightarrow> raw \<Rightarrow> Modification \<Rightarrow>
     (ResourceState \<Rightarrow> ('s, 'w, 'r) prog) \<Rightarrow> ('s, 'w, 'r) prog" where
  "reconcileLoop = reconcileFrom maxReconcileAttempts"

definition stillPresent :: string where
  "stillPresent = ''the provider reported a successful destroy, but a post-destroy read-back found the resource still present after the full retry budget -- the delete never actually happened''"

definition unattributed :: string where
  "unattributed = ''target unreadable, but no prior confirmed-present observation to attribute it to this attempt''"

definition stillLagging :: string where
  "stillLagging = ''still present after a reported successful destroy -- retrying to allow for real propagation lag before concluding the provider's claim was false''"

definition claimRefuted :: string where
  "claimRefuted = ''provider reported success but a post-destroy read-back found the resource still present''"

primrec reconcileDestroyFrom ::
    "nat \<Rightarrow> ('s, 'w, 'sch) shipEnv \<Rightarrow> ('w, 'sch) Applier \<Rightarrow> raw \<Rightarrow> Address \<Rightarrow> raw \<Rightarrow> bool \<Rightarrow> bool \<Rightarrow>
     (ResourceState \<Rightarrow> ('s, 'w, 'r) prog) \<Rightarrow> ('s, 'w, 'r) prog" where
  "reconcileDestroyFrom 0 env app cfg addr lookup prior claimed k =
     transition env ResourceStillUnknown exhausted (k ResourceStillUnknown)"
| "reconcileDestroyFrom (Suc left) env app cfg addr lookup prior claimed k =
     askRead env app addr cfg lookup (\<lambda>r.
       let again = reconcileDestroyFrom left env app cfg addr lookup prior claimed k
       in case r of
         Inl e \<Rightarrow>
           if e = ErrResourceUnreadable then
             (if prior then noteNow env ''destroyed'' []
                (transition env ResourceApplied ''confirmed by reconciliation'' (k ResourceApplied))
              else noteNow env ''inconclusive''
                unattributed again)
           else noteNow env ''inconclusive'' (en_text env e) again
       | Inr _ \<Rightarrow>
           if \<not> claimed then noteNow env ''failed'' []
             (transition env ResourceFailed ''confirmed by reconciliation: destroy never landed'' (k ResourceFailed))
           else if left = 0 then noteNow env ''provider_reported_success_but_present'' stillPresent
             (recordErr env stillPresent ErrorTerminal
               (transition env ResourceFailed
                 claimRefuted (k ResourceFailed)))
           else noteNow env ''inconclusive''
             stillLagging again)"

definition reconcileDestroyLoop ::
    "('s, 'w, 'sch) shipEnv \<Rightarrow> ('w, 'sch) Applier \<Rightarrow> raw \<Rightarrow> Address \<Rightarrow> raw \<Rightarrow> bool \<Rightarrow> bool \<Rightarrow>
     (ResourceState \<Rightarrow> ('s, 'w, 'r) prog) \<Rightarrow> ('s, 'w, 'r) prog" where
  "reconcileDestroyLoop = reconcileDestroyFrom (length eventualConsistencyBackoffSchedule)"

section \<open>Creating\<close>

text \<open>strings.ToLower, as far as ASCII phrases can tell: two capitals outside ASCII have a lower case in it.\<close>

fun to_lower :: "string \<Rightarrow> string" where
  "to_lower [] = []"
| "to_lower (c # cs) =
     (if c = CHR 0xC4 \<and> take 1 cs = [CHR 0xB0] then CHR ''i'' # to_lower (drop 1 cs)
      else if c = CHR 0xE2 \<and> take 2 cs = [CHR 0x84, CHR 0xAA] then CHR ''k'' # to_lower (drop 2 cs)
      else (if c \<ge> CHR ''A'' \<and> c \<le> CHR ''Z'' then char_of ((of_char c :: nat) + 32) else c) # to_lower cs)"

definition notFoundPhrases :: "string list" where
  "notFoundPhrases = [''not found'', ''does not exist'', ''doesn't exist'', ''no such'', ''cannot be found'',
     ''could not be found'']"

definition looksNotFound :: "string \<Rightarrow> bool" where
  "looksNotFound msg \<longleftrightarrow> (\<exists>phrase \<in> set notFoundPhrases. sublist phrase (to_lower msg))"

definition hasShippedDependency :: "string list \<Rightarrow> results \<Rightarrow> bool" where
  "hasShippedDependency dependsOn R \<longleftrightarrow> (\<exists>d \<in> set dependsOn. map_of R d \<noteq> None)"

text \<open>A duration under a minute, of whole milliseconds, as Go prints it.\<close>

definition ms_text :: "nat \<Rightarrow> string" where
  "ms_text n =
     (if n < 1000 then int_text (int n) @ ''ms''
      else let frac = strip_zeros (tl (int_text (int (1000 + n mod 1000))))
           in int_text (int (n div 1000)) @ (if frac = [] then [] else CHR ''.'' # frac) @ ''s'')"

definition noProgressText :: string where
  "noProgressText = '' of retrying produced zero change in outcome (real provider propagation lag resolves in low single-digit seconds) -- this does not appear to exist and may never have been created under the identity referenced; verify the reference actually matches the shipped dependency's real assigned name/id, not an assumed one: ''"

definition giveUp :: "nat \<Rightarrow> string \<Rightarrow> applyErr" where
  "giveUp elapsed t =
     (let msg = ms_text elapsed @ noProgressText @ t
      in \<lparr>ae_Text = msg, ae_Terminal = Some msg\<rparr>)"

text \<open>What a create is applied with: null before, the substituted config after.\<close>

definition createCall ::
    "('w, 'sch) Applier \<Rightarrow> 'sch option \<Rightarrow> string \<Rightarrow> raw \<Rightarrow> ((applyErr, raw \<times> raw) res \<Rightarrow> ('s, 'w, 'r) prog) \<Rightarrow>
     ('s, 'w, 'r) prog" where
  "createCall app sch ty planned k =
     applyChange (Some GNil) planned (ap_ApplyResourceChange app sch ty (Some GNil) planned []) k"

definition zeroProgressText :: string where
  "zeroProgressText = '' with zero progress -- this doesn't look like propagation lag: ''"

primrec retryCreateFrom ::
    "nat list \<Rightarrow> nat \<Rightarrow> applyErr \<Rightarrow> ('s, 'w, 'sch) shipEnv \<Rightarrow> ('w, 'sch) Applier \<Rightarrow> 'sch option \<Rightarrow> string \<Rightarrow> raw \<Rightarrow>
     ((applyErr, raw \<times> raw) res \<Rightarrow> ('s, 'w, 'r) prog) \<Rightarrow> ('s, 'w, 'r) prog" where
  "retryCreateFrom [] elapsed lastErr env app sch ty planned k = k (Inl lastErr)"
| "retryCreateFrom (d # ds) elapsed lastErr env app sch ty planned k =
     createCall app sch ty planned (\<lambda>r. case r of
         Inr ok \<Rightarrow> noteNow env ''applied'' ''dependency became visible, retry succeeded'' (k (Inr ok))
       | Inl e \<Rightarrow>
           (case ae_Terminal e of
              Some t \<Rightarrow>
                if \<not> looksNotFound t then
                  noteNow env ''inconclusive'' (''retry surfaced a different error, stopping early: '' @ ae_Text e) (k (Inl e))
                else if elapsed + d \<ge> noProgressBailoutThreshold then
                  noteNow env ''inconclusive''
                    (''giving up early after '' @ ms_text (elapsed + d) @ zeroProgressText @ t)
                    (k (Inl (giveUp (elapsed + d) t)))
                else noteNow env ''inconclusive'' t (retryCreateFrom ds (elapsed + d) e env app sch ty planned k)
            | None \<Rightarrow>
                noteNow env ''inconclusive'' (''retry surfaced a different error, stopping early: '' @ ae_Text e) (k (Inl e))))"

definition justShippedText :: string where
  "justShippedText = ''references a same-batch dependency that just shipped -- retrying to allow for real propagation lag (AWS IAM's own well-documented eventual-consistency window): ''"

definition retryCreateOnDependencyNotVisible ::
    "('s, 'w, 'sch) shipEnv \<Rightarrow> ('w, 'sch) Applier \<Rightarrow> 'sch option \<Rightarrow> string \<Rightarrow> raw \<Rightarrow> string list \<Rightarrow> results \<Rightarrow> applyErr \<Rightarrow>
     ((applyErr, raw \<times> raw) res \<Rightarrow> ('s, 'w, 'r) prog) \<Rightarrow> ('s, 'w, 'r) prog" where
  "retryCreateOnDependencyNotVisible env app sch ty planned dependsOn R firstErr k = (case ae_Terminal firstErr of
      None \<Rightarrow> k (Inl firstErr)
    | Some msg \<Rightarrow>
        if \<not> looksNotFound msg \<or> \<not> hasShippedDependency dependsOn R then k (Inl firstErr)
        else noteNow env ''inconclusive''
          (justShippedText @ msg)
          (retryCreateFrom eventualConsistencyBackoffSchedule 0 \<lparr>ae_Text = msg, ae_Terminal = Some msg\<rparr>
             env app sch ty planned k))"

definition budgetText :: "nat \<Rightarrow> string" where
  "budgetText n = ''retry budget exhausted after '' @ int_text (int n) @ '' attempt(s)''"

text \<open>The provider's answer becomes the entry's result and lookup key.\<close>

definition record_result :: "raw \<Rightarrow> raw \<Rightarrow> ResourceApply \<Rightarrow> ResourceApply" where
  "record_result result lookup ra = ra\<lparr>rap_ProviderResult := result,
     rap_Lookup := (if lookup = None then DeriveLookupFromResult result [] else lookup)\<rparr>"

definition createDone ::
    "('s, 'w, 'sch) shipEnv \<Rightarrow> (applyErr, raw \<times> raw) res \<Rightarrow> ('s, 'w, unit) prog" where
  "createDone env r = (case r of
      Inr (result, lookup) \<Rightarrow>
        Mutate (record_result result lookup) (transition env ResourceApplied [] (settle ResourceApplied ()))
    | Inl e \<Rightarrow> recordErr env (ae_Text e) (applyErrorClassification e)
        (transition env ResourceUnknownPostTimeout [] (settle ResourceStillUnknown ())))"

definition shipCreate ::
    "('s, 'w, 'sch) shipEnv \<Rightarrow> ('w, 'sch) Applier \<Rightarrow> raw \<Rightarrow> createNode \<Rightarrow> results \<Rightarrow> resourceHistory \<Rightarrow> ('s, 'w, unit) prog" where
  "shipCreate env app cfg cn R hist =
     transition env ResourcePending []
       (if rh_attemptsInFlight hist \<ge> maxApplyAttemptsPerResource
        then failWith env (budgetText (rh_attemptsInFlight hist)) ErrorTerminal ()
        else case unmarshal_any (cn_Config cn) of
          None \<Rightarrow> failWith env (''decode config: '' @ en_text env EJson) ErrorTerminal ()
        | Some config \<Rightarrow> (case substituteComputed R config of
            Inl e \<Rightarrow> failWith env (''resolve dependency output: '' @ en_text env e) ErrorTerminal ()
          | Inr planned \<Rightarrow>
              ask (rd_Schema app) (\<lambda>schemas. case schemas of
                Inl e \<Rightarrow> failWith env (''fetch schema: '' @ en_text env e) ErrorRetryable ()
              | Inr (providerSchema, resourceSchemas) \<Rightarrow>
                  ask (rd_Configure app providerSchema cfg) (\<lambda>configured. case configured of
                    Inl e \<Rightarrow> failWith env (''configure provider: '' @ en_text env e) ErrorRetryable ()
                  | Inr _ \<Rightarrow>
                      transition env ResourceInFlight [] (Persist
                        (createCall app (resourceSchemas (cn_Type cn)) (cn_Type cn) (Some planned) (\<lambda>r. case r of
                            Inr ok \<Rightarrow> createDone env (Inr ok)
                          | Inl e \<Rightarrow> retryCreateOnDependencyNotVisible env app (resourceSchemas (cn_Type cn)) (cn_Type cn)
                              (Some planned) (cn_DependsOn cn) R e (createDone env))))))))"

section \<open>Modifying\<close>

definition join_text :: "string \<Rightarrow> string list \<Rightarrow> string" where
  "join_text sep ws = concat (case ws of [] \<Rightarrow> [] | v # vs \<Rightarrow> v # map (\<lambda>x. sep @ x) vs)"

definition declinedText :: "string list \<Rightarrow> string" where
  "declinedText paths = ''declined: after value(s) at '' @ join_text '', '' paths @
     '' are redacted -- the ledger holds a salted hash, not the real secret material, and ubx will never construct a live apply from it; use `ubx revert-plan` for this resource's manual reconciliation steps instead''"

definition noLookup :: string where
  "noLookup = ''no resolution.inputs lookup key recorded for this resource''"

definition askFresh ::
    "('s, 'w, 'sch) shipEnv \<Rightarrow> ('w, 'sch) Applier \<Rightarrow> raw \<Rightarrow> Proposal \<Rightarrow> Address \<Rightarrow>
     ((err, unit) res \<Rightarrow> ('s, 'w, 'r) prog) \<Rightarrow> ('s, 'w, 'r) prog" where
  "askFresh env app cfg p addr k = Ask (\<lambda>s w. map_option (\<lambda>(r, w'). (k r, w'))
     (VerifyFreshness (en_sha env) app (en_owns env) (en_ops env) s addr cfg p w))"

text \<open>A failed apply is recorded, and reality is asked.\<close>

definition modifyUnknown ::
    "('s, 'w, 'sch) shipEnv \<Rightarrow> ('w, 'sch) Applier \<Rightarrow> raw \<Rightarrow> raw \<Rightarrow> Modification \<Rightarrow> applyErr \<Rightarrow> 'r \<Rightarrow> ('s, 'w, 'r) prog" where
  "modifyUnknown env app cfg lookup md e r =
     recordErr env (ae_Text e) (applyErrorClassification e)
       (transition env ResourceUnknownPostTimeout []
         (Persist (reconcileLoop env app cfg (mod_Target md) lookup md (\<lambda>outcome. settle outcome r))))"

definition shipModifyNode ::
    "('s, 'w, 'sch) shipEnv \<Rightarrow> ('w, 'sch) Applier \<Rightarrow> raw \<Rightarrow> Proposal \<Rightarrow> Modification \<Rightarrow> results \<Rightarrow> resourceHistory \<Rightarrow>
     ('s, 'w, unit) prog" where
  "shipModifyNode env app cfg p m R hist =
     (let addr = mod_Target m; lookup = lookupFor p addr
      in if redactedAfterPaths m \<noteq> [] then
           transition env ResourcePending [] (failWith env (declinedText (redactedAfterPaths m)) ErrorTerminal ())
         else if rh_unresolved hist then
           transition env ResourcePending []
             (if lookup = None then failWith env noLookup ErrorTerminal ()
              else case substituteModificationComputed m R of
                Inl e \<Rightarrow> failWith env (''resolve dependency output: '' @ en_text env e) ErrorTerminal ()
              | Inr sm \<Rightarrow> reconcileLoop env app cfg addr lookup sm (\<lambda>outcome. settle outcome ()))
         else transition env ResourcePending []
           (if rh_attemptsInFlight hist \<ge> maxApplyAttemptsPerResource
            then failWith env (budgetText (rh_attemptsInFlight hist)) ErrorTerminal ()
            else askFresh env app cfg p addr (\<lambda>fresh. case fresh of
              Inl e \<Rightarrow> failWith env (en_text env e) (if e = ErrStaleObservation then ErrorTerminal else ErrorRetryable) ()
            | Inr _ \<Rightarrow>
                if lookup = None then failWith env noLookup ErrorTerminal ()
                else askRead env app addr cfg lookup (\<lambda>read. case read of
                  Inl e \<Rightarrow> failWith env (''read prior state: '' @ en_text env e) ErrorRetryable ()
                | Inr (observed, _) \<Rightarrow> (case substituteModificationComputed m R of
                    Inl e \<Rightarrow> failWith env (''resolve dependency output: '' @ en_text env e) ErrorTerminal ()
                  | Inr sm \<Rightarrow> (case ApplyAfter (Some observed) (mod_Before sm) (mod_After sm) of
                      Inl e \<Rightarrow> failWith env (''construct planned state: '' @ en_text env e) ErrorTerminal ()
                    | Inr planned \<Rightarrow>
                        ask (rd_Schema app) (\<lambda>schemas. case schemas of
                          Inl e \<Rightarrow> failWith env (''fetch schema: '' @ en_text env e) ErrorRetryable ()
                        | Inr (_, resourceSchemas) \<Rightarrow>
                            transition env ResourceInFlight [] (Persist
                              (applyChange (Some observed) planned
                                (ap_ApplyResourceChange app (resourceSchemas (addr_Type addr)) (addr_Type addr)
                                   (Some observed) planned []) (\<lambda>r. case r of
                                  Inr (result, freshLookup) \<Rightarrow>
                                    Mutate (record_result result freshLookup)
                                      (transition env ResourceApplied [] (settle ResourceApplied ()))
                                | Inl e \<Rightarrow> modifyUnknown env app cfg lookup sm e ()))))))))))"

section \<open>Destroying\<close>

definition noTarget :: string where
  "noTarget = ''no resolution.inputs destroy_target lookup recorded for this resource''"

definition driftedText :: string where
  "driftedText = ''destroy target drifted since it was signed away -- refusing to destroy state that was never reviewed''"

definition claimText :: string where
  "claimText = ''provider reported a successful destroy -- verifying via a post-destroy read-back before recording it as destroyed''"

text \<open>A resource type without a schema has no say on who owns its attributes.\<close>

definition destroyDiffExplainedByNormalization ::
    "('s, 'w, 'sch) shipEnv \<Rightarrow> ('w, 'sch) Applier \<Rightarrow> DestroyEntry \<Rightarrow> gval \<Rightarrow> (bool \<Rightarrow> ('s, 'w, 'r) prog) \<Rightarrow> ('s, 'w, 'r) prog" where
  "destroyDiffExplainedByNormalization env app entry observed k = (case DiffAttributes (des_State entry) (Some observed) of
      None \<Rightarrow> k False
    | Some d \<Rightarrow> ask (rd_Schema app) (\<lambda>schemas. case schemas of
          Inl e \<Rightarrow> k False
        | Inr (_, resourceSchemas) \<Rightarrow>
            k (FilterNormalizationNoise
                 (case resourceSchemas (addr_Type (des_Address entry)) of None \<Rightarrow> None | Some sch \<Rightarrow> en_owns env sch) d
               = ([], []))))"

text \<open>From a target that is present as signed to its destroy and the read-back.\<close>

definition destroyPresent ::
    "('s, 'w, 'sch) shipEnv \<Rightarrow> ('w, 'sch) Applier \<Rightarrow> raw \<Rightarrow> Address \<Rightarrow> gval \<Rightarrow> gval \<Rightarrow> ('s, 'w, unit) prog" where
  "destroyPresent env app cfg addr lookup observed =
     ask (rd_Schema app) (\<lambda>schemas. case schemas of
       Inl e \<Rightarrow> failWith env (''fetch schema: '' @ en_text env e) ErrorRetryable ()
     | Inr (_, resourceSchemas) \<Rightarrow>
         ask (ap_PlanResourceChange app (resourceSchemas (addr_Type addr)) (addr_Type addr) (Some observed) (Some GNil)) (\<lambda>plan.
           case plan of
             Inl e \<Rightarrow> (case ae_Terminal e of
                 Some t \<Rightarrow> failWith env t ErrorTerminal ()
               | None \<Rightarrow> failWith env (ae_Text e) ErrorRetryable ())
           | Inr (_, plannedPrivate) \<Rightarrow>
               transition env ResourceInFlight [] (Persist
                 (applyChange (Some observed) (Some GNil)
                   (ap_ApplyResourceChange app (resourceSchemas (addr_Type addr)) (addr_Type addr)
                      (Some observed) (Some GNil) plannedPrivate) (\<lambda>r.
                   let loop = (\<lambda>claimed. Persist (reconcileDestroyLoop env app cfg addr (Some lookup) True claimed (\<lambda>outcome. settle outcome ())))
                   in case r of
                     Inr _ \<Rightarrow> transition env ResourceUnknownPostTimeout claimText (loop True)
                   | Inl e \<Rightarrow> recordErr env (ae_Text e) (applyErrorClassification e)
                       (transition env ResourceUnknownPostTimeout [] (loop False)))))))"

definition shipDestroyNode ::
    "('s, 'w, 'sch) shipEnv \<Rightarrow> ('w, 'sch) Applier \<Rightarrow> raw \<Rightarrow> Proposal \<Rightarrow> DestroyEntry \<Rightarrow> resourceHistory \<Rightarrow> bool \<Rightarrow>
     ('s, 'w, unit) prog" where
  "shipDestroyNode env app cfg p entry hist sameBatchDependentsDestroyed =
     (let addr = des_Address entry; target = destroyTargetFor p addr
      in if rh_unresolved hist then
           transition env ResourcePending [] (case target of
             None \<Rightarrow> failWith env noTarget ErrorTerminal ()
           | Some (lookup, _) \<Rightarrow> reconcileDestroyLoop env app cfg addr (Some lookup)
               (rh_lastReconciliationOutcome hist = ''present_matches'') (rh_lastApplyClaimedSuccess hist)
               (\<lambda>outcome. settle outcome ()))
         else transition env ResourcePending []
           (if rh_attemptsInFlight hist \<ge> maxApplyAttemptsPerResource
            then failWith env (budgetText (rh_attemptsInFlight hist)) ErrorTerminal ()
            else case target of
              None \<Rightarrow> failWith env noTarget ErrorTerminal ()
            | Some (lookup, expectedHash) \<Rightarrow>
                askRead env app addr cfg (Some lookup) (\<lambda>read. ask (en_clock env) (\<lambda>at. case read of
                  Inl e \<Rightarrow>
                    if e = ErrResourceUnreadable then
                      Mutate (add_attempt at ''already_absent'' [])
                        (transition env ResourceApplied ''already absent before this attempt'' (settle ResourceApplied ()))
                    else failWith env (''freshness recheck: '' @ en_text env e) ErrorRetryable ()
                | Inr (observed, hash) \<Rightarrow>
                    let proceed = Mutate (add_attempt at ''present_matches'' []) (destroyPresent env app cfg addr lookup observed)
                    in if hash = expectedHash then proceed
                       else destroyDiffExplainedByNormalization env app entry observed (\<lambda>explained.
                         if \<not> explained \<and> \<not> sameBatchDependentsDestroyed
                         then Mutate (add_attempt at ''present_drifted'' []) (failWith env driftedText ErrorTerminal ())
                         else proceed)))))"

section \<open>Reverting drift\<close>

definition haltedText :: string where
  "haltedText = ''a prior resource in this attempt failed freshness verification -- refusing remaining resources rather than proceeding past it''"

definition priorText :: string where
  "priorText = ''already applied in a prior attempt''"

text \<open>One turn of the serial loop; its result is whether the loop is halted after it.\<close>

definition shipRevertNode ::
    "('s, 'w, 'sch) shipEnv \<Rightarrow> ('w, 'sch) Applier \<Rightarrow> raw \<Rightarrow> Proposal \<Rightarrow> Modification \<Rightarrow> resourceHistory \<Rightarrow> bool \<Rightarrow>
     ('s, 'w, bool) prog" where
  "shipRevertNode env app cfg p m hist halted =
     (let addr = mod_Target m; lookup = lookupFor p addr
      in if rh_applied hist then transition env ResourceApplied priorText (settle ResourceApplied halted)
         else if halted then transition env ResourcePending [] (failWith env haltedText ErrorTerminal halted)
         else if redactedAfterPaths m \<noteq> [] then
           transition env ResourcePending [] (failWith env (declinedText (redactedAfterPaths m)) ErrorTerminal halted)
         else if rh_unresolved hist then
           transition env ResourcePending []
             (if lookup = None then failWith env noLookup ErrorTerminal halted
              else reconcileLoop env app cfg addr lookup m (\<lambda>outcome. settle outcome halted))
         else transition env ResourcePending []
           (if rh_attemptsInFlight hist \<ge> maxApplyAttemptsPerResource
            then failWith env (budgetText (rh_attemptsInFlight hist)) ErrorTerminal halted
            else askFresh env app cfg p addr (\<lambda>fresh. case fresh of
              Inl e \<Rightarrow> failWith env (en_text env e) (if e = ErrStaleObservation then ErrorTerminal else ErrorRetryable)
                (e = ErrStaleObservation)
            | Inr _ \<Rightarrow>
                if lookup = None then failWith env noLookup ErrorTerminal halted
                else askRead env app addr cfg lookup (\<lambda>read. case read of
                  Inl e \<Rightarrow> failWith env (''read prior state: '' @ en_text env e) ErrorRetryable halted
                | Inr (observed, _) \<Rightarrow> (case ApplyAfter (Some observed) (mod_Before m) (mod_After m) of
                    Inl e \<Rightarrow> failWith env (''construct planned state: '' @ en_text env e) ErrorTerminal halted
                  | Inr planned \<Rightarrow>
                      ask (rd_Schema app) (\<lambda>schemas. case schemas of
                        Inl e \<Rightarrow> failWith env (''fetch schema: '' @ en_text env e) ErrorRetryable halted
                      | Inr (_, resourceSchemas) \<Rightarrow>
                          transition env ResourceInFlight [] (Persist
                            (applyChange (Some observed) planned
                              (ap_ApplyResourceChange app (resourceSchemas (addr_Type addr)) (addr_Type addr)
                                 (Some observed) planned []) (\<lambda>r. case r of
                                Inr (result, _) \<Rightarrow>
                                  Mutate (\<lambda>ra. ra\<lparr>rap_ProviderResult := result\<rparr>)
                                    (transition env ResourceApplied [] (settle ResourceApplied halted))
                              | Inl e \<Rightarrow> modifyUnknown env app cfg lookup m e halted)))))))))"

section \<open>Running\<close>

text \<open>
  The store, the world, the record being written, and the recorder's results and counters, which count
  at most one per resource and do not wrap. A node's entry is known by its place in the record.
\<close>

record ('s, 'w) shipState =
  ss_Store :: 's
  ss_World :: 'w
  ss_Rec :: ApplyRecord
  ss_Results :: results
  ss_Applied :: nat
  ss_Failed :: nat
  ss_StillUnknown :: nat

definition newRecorder :: "'s \<Rightarrow> 'w \<Rightarrow> ApplyRecord \<Rightarrow> results \<Rightarrow> ('s, 'w) shipState" where
  "newRecorder s w r seed = \<lparr>ss_Store = s, ss_World = w, ss_Rec = r, ss_Results = seed,
     ss_Applied = 0, ss_Failed = 0, ss_StillUnknown = 0\<rparr>"

definition mutate_entry :: "nat \<Rightarrow> (ResourceApply \<Rightarrow> ResourceApply) \<Rightarrow> ('s, 'w) shipState \<Rightarrow> ('s, 'w) shipState" where
  "mutate_entry i f st = st\<lparr>ss_Rec := (ss_Rec st)\<lparr>ar_Resources :=
     (ar_Resources (ss_Rec st))[i := f (ar_Resources (ss_Rec st) ! i)]\<rparr>\<rparr>"

definition tally :: "ResourceState \<Rightarrow> ('s, 'w) shipState \<Rightarrow> ('s, 'w) shipState" where
  "tally state st = (case state of
      ResourceApplied \<Rightarrow> st\<lparr>ss_Applied := ss_Applied st + 1\<rparr>
    | ResourceFailed \<Rightarrow> st\<lparr>ss_Failed := ss_Failed st + 1\<rparr>
    | ResourceStillUnknown \<Rightarrow> st\<lparr>ss_StillUnknown := ss_StillUnknown st + 1\<rparr>
    | _ \<Rightarrow> st)"

definition persist :: "'s store_ops \<Rightarrow> ('s, 'w) shipState \<Rightarrow> (err, ('s, 'w) shipState) res" where
  "persist ops st = rbind (SaveApplyProgress ops (ss_Store st) (ss_Rec st)) (\<lambda>s'. Inr (st\<lparr>ss_Store := s'\<rparr>))"

definition setResult :: "string \<Rightarrow> raw \<Rightarrow> ('s, 'w) shipState \<Rightarrow> ('s, 'w) shipState" where
  "setResult addr result st = st\<lparr>ss_Results := aput addr result (ss_Results st)\<rparr>"

definition hasResult :: "string \<Rightarrow> ('s, 'w) shipState \<Rightarrow> bool" where
  "hasResult addr st \<longleftrightarrow> map_of (ss_Results st) addr \<noteq> None"

text \<open>One step of the program of entry \<open>i\<close>; \<open>None\<close> when it is done, or in a call that does not return.\<close>

definition step_prog ::
    "'s store_ops \<Rightarrow> nat \<Rightarrow> ('s, 'w, 'r) prog \<Rightarrow> ('s, 'w) shipState \<Rightarrow> (('s, 'w, 'r) prog \<times> ('s, 'w) shipState) option" where
  "step_prog ops i P st = (case P of
      Done r \<Rightarrow> None
    | Mutate f Q \<Rightarrow> Some (Q, mutate_entry i f st)
    | Tally x Q \<Rightarrow> Some (Q, tally x st)
    | Persist Q \<Rightarrow> (case persist ops st of Inl e \<Rightarrow> Some (Done (Inl e), st) | Inr st' \<Rightarrow> Some (Q, st'))
    | Ask f \<Rightarrow> map_option (\<lambda>(Q, w). (Q, st\<lparr>ss_World := w\<rparr>)) (f (ss_Store st) (ss_World st))
    | ApplyChange prior planned f \<Rightarrow> (case f (ss_World st) of (Q, w) \<Rightarrow> Some (Q, st\<lparr>ss_World := w\<rparr>)))"

text \<open>A program that runs alone, to its end.\<close>

primrec run ::
    "('s, 'w, 'r) prog \<Rightarrow> 's store_ops \<Rightarrow> nat \<Rightarrow> ('s, 'w) shipState \<Rightarrow> ((err, 'r) res \<times> ('s, 'w) shipState) option" where
  "run (Done r) = (\<lambda>ops i st. Some (r, st))"
| "run (Mutate f Q) = (\<lambda>ops i st. run Q ops i (mutate_entry i f st))"
| "run (Tally x Q) = (\<lambda>ops i st. run Q ops i (tally x st))"
| "run (Persist Q) = (\<lambda>ops i st. case persist ops st of Inl e \<Rightarrow> Some (Inl e, st) | Inr st' \<Rightarrow> run Q ops i st')"
| "run (Ask f) = (\<lambda>ops i st. case map_option (map_prod run id) (f (ss_Store st) (ss_World st)) of
     None \<Rightarrow> None | Some (g, w) \<Rightarrow> g ops i (st\<lparr>ss_World := w\<rparr>))"
| "run (ApplyChange prior planned f) = (\<lambda>ops i st. case map_prod run id (f (ss_World st)) of
     (g, w) \<Rightarrow> g ops i (st\<lparr>ss_World := w\<rparr>))"

section \<open>The outcome\<close>

definition overallOutcome :: "nat \<Rightarrow> nat \<Rightarrow> nat \<Rightarrow> bool \<Rightarrow> string" where
  "overallOutcome applied failed unknown halted =
     (if applied = 0 \<and> (failed > 0 \<or> unknown > 0) then ''failed''
      else if failed > 0 \<or> unknown > 0 \<or> halted then ''partially_applied''
      else ''applied'')"

definition sealOutcome ::
    "('s, 'w, 'sch) shipEnv \<Rightarrow> ('s, 'w) shipState \<Rightarrow> string \<Rightarrow> bool \<Rightarrow> (err, ApplyRecord) res \<times> ('s, 'w) shipState" where
  "sealOutcome env st startedAt halted =
     (case en_clock env (ss_World st) of (finishedAt, w) \<Rightarrow>
        let st' = st\<lparr>ss_World := w\<rparr>
        in case SealApply (en_sha env) (en_ops env) (ss_Store st) (ss_Rec st)
             \<lparr>as_Outcome = overallOutcome (ss_Applied st) (ss_Failed st) (ss_StillUnknown st) halted,
              as_StartedAt = startedAt, as_FinishedAt = finishedAt,
              as_ResourcesApplied = int (ss_Applied st), as_ResourcesFailed = int (ss_Failed st),
              as_ResourcesStillUnknown = int (ss_StillUnknown st)\<rparr> of
           Inl e \<Rightarrow> (Inl e, st')
         | Inr (sealed, s') \<Rightarrow> (Inr sealed, st'\<lparr>ss_Store := s', ss_Rec := sealed\<rparr>))"

end
