(* ===== verification/ShipTrace.thy ===== *)
theory ShipTrace
  imports ShipProg
begin

text \<open>
  What a node's program can do, whatever the store and the world answer: its traces, monitors that
  watch every trace, and with them the properties of the four node programs that do not depend on
  what runs beside them.
\<close>

section \<open>Traces\<close>

datatype ('s, 'w) event =
    EMut "ResourceApply \<Rightarrow> ResourceApply"
  | ETally ResourceState
  | ESave
  | EAsk 's 'w 'w
  | EApply raw raw 'w 'w

text \<open>The complete traces: the store and the world a step meets are arbitrary.\<close>

inductive trace :: "('s, 'w, 'r) prog \<Rightarrow> ('s, 'w) event list \<Rightarrow> (err, 'r) res \<Rightarrow> bool" where
  done_tr: "trace (Done r) [] r"
| mutate_tr: "trace Q es r \<Longrightarrow> trace (Mutate f Q) (EMut f # es) r"
| tally_tr: "trace Q es r \<Longrightarrow> trace (Tally x Q) (ETally x # es) r"
| save_tr: "trace Q es r \<Longrightarrow> trace (Persist Q) (ESave # es) r"
| unsaved_tr: "trace (Persist Q) [] (Inl e)"
| ask_tr: "f s w = Some (Q, w') \<Longrightarrow> trace Q es r \<Longrightarrow> trace (Ask f) (EAsk s w w' # es) r"
| apply_tr: "f w = (Q, w') \<Longrightarrow> trace Q es r \<Longrightarrow> trace (ApplyChange prior planned f) (EApply prior planned w w' # es) r"

inductive_simps trace_simps:
  "trace (Done r) es q" "trace (Mutate f Q) es q" "trace (Tally x Q) es q" "trace (Persist Q) es q"
  "trace (Ask g) es q" "trace (ApplyChange prior planned h) es q"

lemma trace_ask: "f w = (a, w') \<Longrightarrow> trace (k a) es r \<Longrightarrow> trace (ask f k) (EAsk s w w' # es) r"
  unfolding ask_def by (rule ask_tr) simp

text \<open>The entry after a trace.\<close>

definition entry_after :: "('s, 'w) event list \<Rightarrow> ResourceApply \<Rightarrow> ResourceApply" where
  "entry_after es ra = fold (\<lambda>e ra. case e of EMut f \<Rightarrow> f ra | _ \<Rightarrow> ra) es ra"

lemma entry_after_simps [simp]:
  "entry_after [] ra = ra"
  "entry_after (e # es) ra = entry_after es (case e of EMut f \<Rightarrow> f ra | _ \<Rightarrow> ra)"
  by (simp_all add: entry_after_def)

text \<open>What a program does when it runs alone is one of its traces.\<close>

definition talliesOf :: "ResourceState \<Rightarrow> ('s, 'w) event list \<Rightarrow> nat" where
  "talliesOf x es = length (filter (\<lambda>e. e = ETally x) es)"

lemma talliesOf_simps [simp]:
  "talliesOf x [] = 0" "talliesOf x (e # es) = (if e = ETally x then 1 else 0) + talliesOf x es"
  by (simp_all add: talliesOf_def)

lemma applied_updates [simp]:
  "ss_Applied (mutate_entry i f st) = ss_Applied st" "persist ops st = Inr st' \<Longrightarrow> ss_Applied st' = ss_Applied st"
  "ss_Applied (tally x st) = ss_Applied st + (if x = ResourceApplied then 1 else 0)"
  by (auto simp: mutate_entry_def persist_def tally_def res_simps split: ResourceState.split)

lemma run_trace:
  "run P ops i st = Some (r, st') \<Longrightarrow> \<exists>es. trace P es r \<and> ss_Applied st' = ss_Applied st + talliesOf ResourceApplied es"
proof (induction P arbitrary: i st)
  case (Done q)
  then show ?case by (auto intro: done_tr)
next
  case (Mutate f Q)
  then obtain es where "trace Q es r" "ss_Applied st' = ss_Applied st + talliesOf ResourceApplied es" by fastforce
  then show ?case by (intro exI [of _ "EMut f # es"]) (simp add: mutate_tr)
next
  case (Tally x Q)
  then obtain es where "trace Q es r" "ss_Applied st' = ss_Applied (tally x st) + talliesOf ResourceApplied es" by fastforce
  then show ?case by (intro exI [of _ "ETally x # es"]) (simp add: tally_tr)
next
  case (Persist Q)
  show ?case
  proof (cases "persist ops st")
    case (Inl e)
    then show ?thesis using Persist.prems by (intro exI [of _ "[]"]) (auto intro: unsaved_tr)
  next
    case (Inr u)
    then obtain es where "trace Q es r" "ss_Applied st' = ss_Applied u + talliesOf ResourceApplied es"
      using Persist by fastforce
    then show ?thesis using Inr by (intro exI [of _ "ESave # es"]) (simp add: save_tr)
  qed
next
  case (Ask f)
  obtain Q w where q: "f (ss_Store st) (ss_World st) = Some (Q, w)" "run Q ops i (st\<lparr>ss_World := w\<rparr>) = Some (r, st')"
    using Ask.prems by (auto split: option.splits)
  have "Some (Q, w) \<in> range (f (ss_Store st))" using q(1) by (metis rangeI)
  then have "\<exists>es. trace Q es r \<and> ss_Applied st' = ss_Applied (st\<lparr>ss_World := w\<rparr>) + talliesOf ResourceApplied es"
    using Ask.IH [of "f (ss_Store st)" "Some (Q, w)" "(Q, w)" Q i "st\<lparr>ss_World := w\<rparr>"] q(2)
    by (simp add: fsts.simps)
  then obtain es where "trace Q es r" "ss_Applied st' = ss_Applied st + talliesOf ResourceApplied es" by auto
  then show ?case by (intro exI [of _ "EAsk (ss_Store st) (ss_World st) w # es"]) (simp add: ask_tr q(1))
next
  case (ApplyChange prior planned f)
  obtain Q w where q: "f (ss_World st) = (Q, w)" "run Q ops i (st\<lparr>ss_World := w\<rparr>) = Some (r, st')"
    using ApplyChange.prems by (cases "f (ss_World st)") auto
  have "(Q, w) \<in> range f" using q(1) by (metis rangeI)
  then have "\<exists>es. trace Q es r \<and> ss_Applied st' = ss_Applied (st\<lparr>ss_World := w\<rparr>) + talliesOf ResourceApplied es"
    using ApplyChange.IH [of "(Q, w)" Q i "st\<lparr>ss_World := w\<rparr>"] q(2) by (simp add: fsts.simps)
  then obtain es where "trace Q es r" "ss_Applied st' = ss_Applied st + talliesOf ResourceApplied es" by auto
  then show ?case by (intro exI [of _ "EApply prior planned (ss_World st) w # es"]) (simp add: apply_tr q(1))
qed

lemma run_ask: "run (ask f k) ops i st = (case f (ss_World st) of (a, w) \<Rightarrow> run (k a) ops i (st\<lparr>ss_World := w\<rparr>))"
  by (simp add: ask_def split: prod.split)

section \<open>Monitors\<close>

record ('m, 's, 'w) monitor =
  mn_ok :: "'m \<Rightarrow> ('s, 'w) event \<Rightarrow> bool"
  mn_next :: "'m \<Rightarrow> ('s, 'w) event \<Rightarrow> 'm"

fun accepted :: "('m, 's, 'w) monitor \<Rightarrow> 'm \<Rightarrow> ('s, 'w) event list \<Rightarrow> bool" where
  "accepted M m [] \<longleftrightarrow> True"
| "accepted M m (e # es) \<longleftrightarrow> mn_ok M m e \<and> accepted M (mn_next M m e) es"

primrec watched :: "('s, 'w, 'r) prog \<Rightarrow> ('m, 's, 'w) monitor \<Rightarrow> 'm \<Rightarrow> bool" where
  "watched (Done r) = (\<lambda>M m. True)"
| "watched (Mutate f Q) = (\<lambda>M m. mn_ok M m (EMut f) \<and> watched Q M (mn_next M m (EMut f)))"
| "watched (Tally x Q) = (\<lambda>M m. mn_ok M m (ETally x) \<and> watched Q M (mn_next M m (ETally x)))"
| "watched (Persist Q) = (\<lambda>M m. mn_ok M m ESave \<and> watched Q M (mn_next M m ESave))"
| "watched (Ask f) = (\<lambda>M m. \<forall>s w g w'. map_option (map_prod watched id) (f s w) = Some (g, w') \<longrightarrow>
     mn_ok M m (EAsk s w w') \<and> g M (mn_next M m (EAsk s w w')))"
| "watched (ApplyChange prior planned f) = (\<lambda>M m. \<forall>w g w'. map_prod watched id (f w) = (g, w') \<longrightarrow>
     mn_ok M m (EApply prior planned w w') \<and> g M (mn_next M m (EApply prior planned w w')))"

lemma watched_Ask [simp]:
  "watched (Ask f) M m \<longleftrightarrow> (\<forall>s w Q w'. f s w = Some (Q, w') \<longrightarrow>
     mn_ok M m (EAsk s w w') \<and> watched Q M (mn_next M m (EAsk s w w')))"
  by fastforce

lemma watched_ApplyChange [simp]:
  "watched (ApplyChange prior planned f) M m \<longleftrightarrow> (\<forall>w Q w'. f w = (Q, w') \<longrightarrow>
     mn_ok M m (EApply prior planned w w') \<and> watched Q M (mn_next M m (EApply prior planned w w')))"
  by (fastforce simp: map_prod_def split: prod.splits)

declare watched.simps(5,6) [simp del]

lemma watched_trace: "trace P es r \<Longrightarrow> watched P M m \<Longrightarrow> accepted M m es"
  by (induction arbitrary: m rule: trace.induct) auto

text \<open>A write to an entry that only adds to it, and does not put it in flight.\<close>

definition keeps :: "(ResourceApply \<Rightarrow> ResourceApply) \<Rightarrow> bool" where
  "keeps f \<longleftrightarrow> (\<forall>ra. rap_Address (f ra) = rap_Address ra \<and> prefix (rap_Transitions ra) (rap_Transitions (f ra)))"

definition calm :: "(ResourceApply \<Rightarrow> ResourceApply) \<Rightarrow> bool" where
  "calm f \<longleftrightarrow> keeps f \<and> (\<forall>ra. everInFlight (f ra) \<longleftrightarrow> everInFlight ra)"

lemma calm_updates [simp]:
  "calm (add_error at message cls)" "calm (add_attempt at outcome detail)" "calm (record_result result lookup)"
  "calm (\<lambda>ra. ra\<lparr>rap_ProviderResult := result\<rparr>)"
  by (auto simp: calm_def keeps_def add_error_def add_attempt_def record_result_def everInFlight_def)

lemma calm_transition [simp]: "st \<noteq> ResourceInFlight \<Longrightarrow> calm (add_transition st at detail)"
  by (auto simp: calm_def keeps_def add_transition_def everInFlight_def)

lemma keeps_transition [simp]: "keeps (add_transition st at detail)"
  by (simp add: keeps_def add_transition_def)

text \<open>
  How the code watches itself is the same for every monitor that reads, calm writes and tallies leave
  as it is: only going in flight, saving and applying move it.
\<close>

primrec applies_upto :: "nat \<Rightarrow> ('m, 's, 'w) monitor \<Rightarrow> 'm \<Rightarrow> bool" where
  "applies_upto 0 M m \<longleftrightarrow> True"
| "applies_upto (Suc n) M m \<longleftrightarrow> (\<forall>prior planned w w'.
     mn_ok M m (EApply prior planned w w') \<and> applies_upto n M (mn_next M m (EApply prior planned w w')))"

definition may_apply :: "nat \<Rightarrow> ('m, 's, 'w) monitor \<Rightarrow> 'm \<Rightarrow> bool" where
  "may_apply n M m \<longleftrightarrow> (\<forall>at. mn_ok M m (EMut (add_transition ResourceInFlight at [])) \<and>
     applies_upto n M (mn_next M (mn_next M m (EMut (add_transition ResourceInFlight at []))) ESave))"

locale calm_monitor =
  fixes M :: "('m, 's, 'w) monitor"
  assumes asks: "mn_ok M m (EAsk s w w') \<and> mn_next M m (EAsk s w w') = m"
    and tallies: "mn_ok M m (ETally x) \<and> mn_next M m (ETally x) = m"
    and saves: "mn_ok M m ESave"
    and calms: "calm f \<Longrightarrow> mn_ok M m (EMut f) \<and> mn_next M m (EMut f) = m"
begin

lemma ask_ok: "(\<And>a. watched (k a) M m) \<Longrightarrow> watched (ask f k) M m"
  by (auto simp: ask_def asks split: prod.splits)

lemma Ask_ok: "(\<And>s w Q w'. f s w = Some (Q, w') \<Longrightarrow> watched Q M m) \<Longrightarrow> watched (Ask f) M m"
  by (auto simp: asks)

lemma mutate_ok: "calm f \<Longrightarrow> watched Q M m \<Longrightarrow> watched (Mutate f Q) M m"
  by (simp add: calms)

lemma transition_ok: "st \<noteq> ResourceInFlight \<Longrightarrow> watched P M m \<Longrightarrow> watched (transition env st detail P) M m"
  by (auto simp: transition_def intro!: ask_ok mutate_ok)

lemma recordErr_ok: "watched P M m \<Longrightarrow> watched (recordErr env message cls P) M m"
  by (auto simp: recordErr_def intro!: ask_ok mutate_ok)

lemma noteNow_ok: "watched P M m \<Longrightarrow> watched (noteNow env outcome detail P) M m"
  by (auto simp: noteNow_def intro!: ask_ok mutate_ok)

lemma settle_ok: "watched (settle st r) M m"
  by (simp add: settle_def tallies saves)

lemma failWith_ok: "watched (failWith env message cls r) M m"
  by (simp add: failWith_def recordErr_ok settle_ok)

lemma askRead_ok: "(\<And>a. watched (k a) M m) \<Longrightarrow> watched (askRead env app addr cfg lookup k) M m"
  by (simp add: askRead_def ask_ok)

lemma askFresh_ok: "(\<And>a. watched (k a) M m) \<Longrightarrow> watched (askFresh env app cfg p addr k) M m"
  unfolding askFresh_def by (rule Ask_ok) auto

lemmas step_ok = transition_ok recordErr_ok noteNow_ok settle_ok failWith_ok

lemma reconcileFrom_ok: "(\<And>st. watched (k st) M m) \<Longrightarrow> watched (reconcileFrom n env app cfg addr lookup md k) M m"
proof (induction n)
  case 0
  then show ?case by (simp add: step_ok)
next
  case (Suc n)
  then show ?case by (auto intro!: askRead_ok step_ok split: sum.splits)
qed

lemma reconcileDestroyFrom_ok:
  "(\<And>st. watched (k st) M m) \<Longrightarrow> watched (reconcileDestroyFrom n env app cfg addr lookup prior claimed k) M m"
proof (induction n)
  case 0
  then show ?case by (simp add: step_ok)
next
  case (Suc n)
  then show ?case by (auto simp: Let_def intro!: askRead_ok step_ok split: sum.splits)
qed

lemmas loop_ok = reconcileFrom_ok [of "\<lambda>st. settle st r" m for r m] reconcileDestroyFrom_ok [of "\<lambda>st. settle st r" m for r m]

lemma modifyUnknown_ok: "watched (modifyUnknown env app cfg lookup md e r) M m"
  by (auto simp: modifyUnknown_def reconcileLoop_def saves intro!: step_ok loop_ok)

lemma createDone_ok: "watched (createDone env r) M m"
  by (auto simp: createDone_def calms intro!: step_ok split: sum.splits)

lemma explained_ok:
  "(\<And>b. watched (k b) M m) \<Longrightarrow> watched (destroyDiffExplainedByNormalization env app entry observed k) M m"
  by (auto simp: destroyDiffExplainedByNormalization_def intro!: ask_ok split: option.splits sum.splits)

text \<open>Going in flight, saving, and applying.\<close>

lemma in_flight_ok:
  assumes "may_apply n M m" "\<And>m'. applies_upto n M m' \<Longrightarrow> watched P M m'"
  shows "watched (transition env ResourceInFlight [] (Persist P)) M m"
  using assms by (auto simp: transition_def may_apply_def saves intro!: ask_ok)

lemma applyChange_ok:
  assumes "applies_upto (Suc n) M m" "\<And>a m'. applies_upto n M m' \<Longrightarrow> watched (k a) M m'"
  shows "watched (applyChange prior planned f k) M m"
  using assms by (auto simp: applyChange_def split: prod.splits)

lemma retryCreateFrom_ok:
  assumes "\<And>a m'. watched (k a) M m'"
  shows "applies_upto (length ds) M m \<Longrightarrow> watched (retryCreateFrom ds elapsed e env app sch ty planned k) M m"
proof (induction ds arbitrary: elapsed e m)
  case Nil
  then show ?case by (simp add: assms)
next
  case (Cons d ds)
  then show ?case
    by (auto simp: createCall_def Let_def assms intro!: applyChange_ok [of "length ds"] noteNow_ok split: sum.splits option.splits)
qed

lemma retryCreate_ok:
  assumes "\<And>a m'. watched (k a) M m'" "applies_upto 10 M m"
  shows "watched (retryCreateOnDependencyNotVisible env app sch ty planned deps R e k) M m"
proof -
  have "length eventualConsistencyBackoffSchedule = 10" by (simp add: eventualConsistencyBackoffSchedule_def)
  then have "watched (retryCreateFrom eventualConsistencyBackoffSchedule elapsed f env app sch ty planned k) M m" for elapsed f
    using retryCreateFrom_ok [of k eventualConsistencyBackoffSchedule m, OF assms(1)] assms(2) by simp
  then show ?thesis
    by (auto simp: retryCreateOnDependencyNotVisible_def assms(1) intro!: noteNow_ok split: option.splits)
qed

theorem shipCreate_ok:
  assumes "rh_attemptsInFlight hist < maxApplyAttemptsPerResource \<Longrightarrow> may_apply 11 M m"
  shows "watched (shipCreate env app cfg cn R hist) M m"
proof -
  have "watched (createCall app sch ty planned (\<lambda>r. case r of Inr ok \<Rightarrow> createDone env (Inr ok)
      | Inl e \<Rightarrow> retryCreateOnDependencyNotVisible env app sch ty planned deps R e (createDone env))) M m'"
    if "applies_upto 11 M m'" for sch ty planned deps m'
    unfolding createCall_def
    by (rule applyChange_ok [where n = 10])
      (use that in \<open>auto simp: createDone_ok numeral_eq_Suc intro!: retryCreate_ok split: sum.splits\<close>)
  then have "watched (transition env ResourceInFlight [] (Persist (createCall app sch ty planned
      (\<lambda>r. case r of Inr ok \<Rightarrow> createDone env (Inr ok)
      | Inl e \<Rightarrow> retryCreateOnDependencyNotVisible env app sch ty planned deps R e (createDone env))))) M m"
    if "rh_attemptsInFlight hist < maxApplyAttemptsPerResource" for sch ty planned deps
    by (rule in_flight_ok [OF assms [OF that]])
  then show ?thesis
    unfolding shipCreate_def by (auto intro!: step_ok(1,5) ask_ok split: option.splits sum.splits)
qed

text \<open>A modify or a revert applies once, when nothing stands against it.\<close>

lemma single_apply_ok:
  assumes "may_apply 1 M m" "\<And>a m'. watched (k a) M m'"
  shows "watched (transition env ResourceInFlight [] (Persist (applyChange prior planned f k))) M m"
  by (rule in_flight_ok [OF assms(1)]) (auto intro!: applyChange_ok [where n = 0] simp: assms(2))

theorem shipModifyNode_ok:
  assumes "redactedAfterPaths md = [] \<Longrightarrow> \<not> rh_unresolved hist \<Longrightarrow>
    rh_attemptsInFlight hist < maxApplyAttemptsPerResource \<Longrightarrow> may_apply 1 M m"
  shows "watched (shipModifyNode env app cfg p md R hist) M m"
proof -
  have tail: "watched (case r of Inr (result, freshLookup) \<Rightarrow>
        Mutate (record_result result freshLookup) (transition env ResourceApplied [] (settle ResourceApplied ()))
      | Inl e \<Rightarrow> modifyUnknown env app cfg lookup sm e ()) M m'" for r lookup sm m'
    by (auto simp: calms intro!: step_ok modifyUnknown_ok split: sum.splits)
  show ?thesis
    unfolding shipModifyNode_def Let_def reconcileLoop_def
    by (auto intro!: step_ok(1,5) ask_ok askFresh_ok askRead_ok reconcileFrom_ok settle_ok single_apply_ok assms tail
      split: option.splits sum.splits)
qed

theorem shipRevertNode_ok:
  assumes "\<not> rh_applied hist \<Longrightarrow> \<not> halted \<Longrightarrow> redactedAfterPaths md = [] \<Longrightarrow> \<not> rh_unresolved hist \<Longrightarrow>
    rh_attemptsInFlight hist < maxApplyAttemptsPerResource \<Longrightarrow> may_apply 1 M m"
  shows "watched (shipRevertNode env app cfg p md hist halted) M m"
  unfolding shipRevertNode_def Let_def reconcileLoop_def
  by (auto intro!: step_ok(1,4,5) ask_ok askFresh_ok askRead_ok reconcileFrom_ok single_apply_ok assms modifyUnknown_ok
    simp: calms split: option.splits sum.splits)

theorem shipDestroyNode_ok:
  assumes "\<not> rh_unresolved hist \<Longrightarrow> rh_attemptsInFlight hist < maxApplyAttemptsPerResource \<Longrightarrow> may_apply 1 M m"
  shows "watched (shipDestroyNode env app cfg p entry hist sameBatch) M m"
proof -
  have loop: "watched (Persist (reconcileDestroyLoop env app cfg addr lookup True claimed (\<lambda>outcome. settle outcome ()))) M m'"
    for addr lookup claimed m'
    by (auto simp: reconcileDestroyLoop_def saves intro!: reconcileDestroyFrom_ok settle_ok)
  have present: "watched (destroyPresent env app cfg addr lookup observed) M m" if "may_apply 1 M m" for addr lookup observed
    unfolding destroyPresent_def Let_def
    by (auto intro!: ask_ok failWith_ok single_apply_ok [OF that] step_ok loop split: sum.splits option.splits simp del: watched.simps)
  show ?thesis
    unfolding shipDestroyNode_def Let_def reconcileDestroyLoop_def
    by (auto intro!: step_ok(1,4,5) ask_ok askRead_ok reconcileDestroyFrom_ok explained_ok present assms simp: calms
      split: option.splits sum.splits)
qed

end

section \<open>In flight first\<close>

text \<open>Whether the entry has been put in flight, in the record and in the saved record.\<close>

definition flight_monitor :: "(bool \<times> bool, 's, 'w) monitor" where
  "flight_monitor = \<lparr>
     mn_ok = (\<lambda>m e. case e of EMut f \<Rightarrow> keeps f | EApply prior planned w w' \<Rightarrow> snd m | _ \<Rightarrow> True),
     mn_next = (\<lambda>m e. case e of EMut f \<Rightarrow> (if calm f then m else (\<forall>ra. everInFlight (f ra), snd m)) | ESave \<Rightarrow> (fst m, fst m) | _ \<Rightarrow> m)\<rparr>"

text \<open>How often a resource may still be changed.\<close>

definition count_monitor :: "(nat, 's, 'w) monitor" where
  "count_monitor = \<lparr>
     mn_ok = (\<lambda>m e. case e of EApply prior planned w w' \<Rightarrow> m > 0 | _ \<Rightarrow> True),
     mn_next = (\<lambda>m e. case e of EApply prior planned w w' \<Rightarrow> m - 1 | _ \<Rightarrow> m)\<rparr>"

text \<open>Never in flight.\<close>

definition idle_monitor :: "(unit, 's, 'w) monitor" where
  "idle_monitor = \<lparr>
     mn_ok = (\<lambda>m e. case e of EMut f \<Rightarrow> calm f | EApply prior planned w w' \<Rightarrow> False | _ \<Rightarrow> True),
     mn_next = (\<lambda>m e. m)\<rparr>"

interpretation flight: calm_monitor flight_monitor
  by unfold_locales (auto simp: flight_monitor_def calm_def)

interpretation count: calm_monitor count_monitor
  by unfold_locales (auto simp: count_monitor_def)

interpretation idle: calm_monitor idle_monitor
  by unfold_locales (auto simp: idle_monitor_def)

lemma everInFlight_transition [simp]: "everInFlight (add_transition ResourceInFlight at detail ra)"
  by (simp add: everInFlight_def add_transition_def)

lemma not_calm_flight [simp]: "\<not> calm (add_transition ResourceInFlight at detail)"
proof
  assume "calm (add_transition ResourceInFlight at detail)"
  then have "everInFlight (add_transition ResourceInFlight at detail ra) \<longleftrightarrow> everInFlight ra" for ra
    by (simp add: calm_def)
  then have "everInFlight \<lparr>rap_Address = undefined, rap_Transitions = [], rap_ProviderResult = None, rap_Lookup = None,
      rap_Reconciliation = [], rap_Errors = []\<rparr>"
    by simp
  then show False by (simp add: everInFlight_def)
qed

lemma flight_applies: "applies_upto n flight_monitor (True, True)"
  by (induction n) (auto simp: flight_monitor_def)

lemma flight_may_apply: "may_apply n flight_monitor (a, b)"
  using flight_applies by (auto simp: may_apply_def flight_monitor_def)

lemma count_applies: "n \<le> k \<Longrightarrow> applies_upto n count_monitor k"
  by (induction n arbitrary: k) (auto simp: count_monitor_def)

lemma count_may_apply: "n \<le> k \<Longrightarrow> may_apply n count_monitor k"
  using count_applies by (auto simp: may_apply_def count_monitor_def)

definition applyCount :: "('s, 'w) event list \<Rightarrow> nat" where
  "applyCount es = length (filter (\<lambda>e. case e of EApply prior planned w w' \<Rightarrow> True | _ \<Rightarrow> False) es)"

lemma accepted_count: "accepted count_monitor n es \<Longrightarrow> applyCount es \<le> n"
proof (induction es arbitrary: n)
  case (Cons e es)
  then show ?case by (cases e) (fastforce simp: applyCount_def count_monitor_def)+
qed (simp add: applyCount_def)

lemma accepted_idle: "accepted idle_monitor m es \<Longrightarrow> everInFlight (entry_after es ra) \<longleftrightarrow> everInFlight ra"
proof (induction es arbitrary: ra)
  case (Cons e es)
  then show ?case by (cases e) (auto simp: idle_monitor_def calm_def)
qed simp

definition at_most :: "nat \<Rightarrow> ('s, 'w, 'r) prog \<Rightarrow> bool" where
  "at_most n P \<longleftrightarrow> (\<forall>es r. trace P es r \<longrightarrow> applyCount es \<le> n)"

lemma at_mostI: "watched P count_monitor n \<Longrightarrow> at_most n P"
  by (auto simp: at_most_def intro: accepted_count watched_trace)

text \<open>
  C11. What one ship attempt may do to one resource, whatever the provider answers: nothing when its
  budget of attempts is used up; a modify is applied once at most, and not at all when one of its new
  values is redacted or an earlier attempt left it unresolved; a destroy once at most, and not at all
  when it was left unresolved; a revert likewise, and not at all when it was applied before or the loop
  is halted. A create is applied eleven times at most: once, and once per step of the backoff schedule.
\<close>

theorem apply_bounds:
  "at_most (if rh_attemptsInFlight hist < maxApplyAttemptsPerResource
     then Suc (length eventualConsistencyBackoffSchedule) else 0) (shipCreate env app cfg cn R hist) \<and>
   at_most (if redactedAfterPaths md = [] \<and> \<not> rh_unresolved hist \<and> rh_attemptsInFlight hist < maxApplyAttemptsPerResource
     then 1 else 0) (shipModifyNode env app cfg p md R hist) \<and>
   at_most (if \<not> rh_unresolved hist \<and> rh_attemptsInFlight hist < maxApplyAttemptsPerResource then 1 else 0)
     (shipDestroyNode env app cfg p entry hist sameBatch) \<and>
   at_most (if \<not> rh_applied hist \<and> \<not> halted \<and> redactedAfterPaths md = [] \<and> \<not> rh_unresolved hist \<and>
       rh_attemptsInFlight hist < maxApplyAttemptsPerResource then 1 else 0)
     (shipRevertNode env app cfg p md hist halted)"
proof -
  have len: "Suc (length eventualConsistencyBackoffSchedule) = 11" by (simp add: eventualConsistencyBackoffSchedule_def)
  show ?thesis
    unfolding len
    by (intro conjI at_mostI count.shipCreate_ok count.shipModifyNode_ok count.shipDestroyNode_ok count.shipRevertNode_ok)
      (simp_all add: count_may_apply)
qed

section \<open>A destroy is verified\<close>

text \<open>Whether a read that counts found nothing, and nothing was applied since.\<close>

definition gone_read ::
    "('s, 'w, 'sch) shipEnv \<Rightarrow> ('w, 'sch) Applier \<Rightarrow> raw \<Rightarrow> Address \<Rightarrow> raw \<Rightarrow> ('s, 'w) event \<Rightarrow> bool" where
  "gone_read env app cfg addr lookup e \<longleftrightarrow> (case e of
      EAsk s w w' \<Rightarrow> ReadAndFingerprint (en_sha env) app (addr_Type addr) cfg lookup w = (Inl ErrResourceUnreadable, w')
    | _ \<Rightarrow> False)"

definition is_apply :: "('s, 'w) event \<Rightarrow> bool" where
  "is_apply e \<longleftrightarrow> (case e of EApply prior planned w w' \<Rightarrow> True | _ \<Rightarrow> False)"

definition gone_monitor :: "(('s, 'w) event \<Rightarrow> bool) \<Rightarrow> (bool, 's, 'w) monitor" where
  "gone_monitor G = \<lparr>mn_ok = (\<lambda>m e. e = ETally ResourceApplied \<longrightarrow> m), mn_next = (\<lambda>m e. (m \<or> G e) \<and> \<not> is_apply e)\<rparr>"

lemma gone_state:
  "fold (\<lambda>e m. mn_next (gone_monitor G) m e) es False \<Longrightarrow>
   \<exists>pre e post. es = pre @ e # post \<and> G e \<and> \<not> is_apply e \<and> (\<forall>x \<in> set post. \<not> is_apply x)"
proof (induction es rule: rev_induct)
  case (snoc x es)
  show ?case
  proof (cases "G x")
    case True
    then show ?thesis using snoc.prems by (intro exI [of _ es] exI [of _ x] exI [of _ "[]"]) (simp add: gone_monitor_def)
  next
    case False
    then have "fold (\<lambda>e m. mn_next (gone_monitor G) m e) es False" "\<not> is_apply x"
      using snoc.prems by (simp_all add: gone_monitor_def)
    then obtain pre e post where "es = pre @ e # post" "G e" "\<not> is_apply e" "\<forall>x \<in> set (post @ [x]). \<not> is_apply x"
      using snoc.IH by auto
    then show ?thesis by (intro exI [of _ pre] exI [of _ e] exI [of _ "post @ [x]"]) simp
  qed
qed simp

lemma accepted_append:
  "accepted M m (es @ fs) \<longleftrightarrow> accepted M m es \<and> accepted M (fold (\<lambda>e m. mn_next M m e) es m) fs"
  by (induction es arbitrary: m) auto

lemma gone_simps [simp]:
  "mn_ok (gone_monitor G) m (EMut f)" "mn_ok (gone_monitor G) m ESave" "mn_ok (gone_monitor G) m (EAsk s w w')"
  "mn_ok (gone_monitor G) m (EApply prior planned w w')"
  "mn_ok (gone_monitor G) m (ETally st) \<longleftrightarrow> (st = ResourceApplied \<longrightarrow> m)"
  "mn_next (gone_monitor G) True (EMut f)" "mn_next (gone_monitor G) True ESave" "mn_next (gone_monitor G) True (ETally st)"
  "mn_next (gone_monitor G) True (EAsk s w w')"
  by (simp_all add: gone_monitor_def is_apply_def)

text \<open>From any state; and once something is gone.\<close>

lemma gone_ask:
  "(\<And>a m. watched (k a) (gone_monitor G) m) \<Longrightarrow> watched (ask f k) (gone_monitor G) m"
  "(\<And>a. watched (k a) (gone_monitor G) True) \<Longrightarrow> watched (ask f k) (gone_monitor G) True"
  by (auto simp: ask_def split: prod.splits)

lemma gone_steps:
  assumes "\<And>m. watched P (gone_monitor G) m"
  shows "watched (transition env st detail P) (gone_monitor G) m" "watched (recordErr env message cls P) (gone_monitor G) m"
    "watched (noteNow env outcome detail P) (gone_monitor G) m" "watched (Mutate f P) (gone_monitor G) m"
    "watched (Persist P) (gone_monitor G) m"
  unfolding transition_def recordErr_def noteNow_def by (auto intro!: gone_ask simp: assms)

lemma gone_true_steps:
  assumes "watched P (gone_monitor G) True"
  shows "watched (transition env st detail P) (gone_monitor G) True" "watched (noteNow env outcome detail P) (gone_monitor G) True"
    "watched (Mutate f P) (gone_monitor G) True"
  using assms unfolding transition_def noteNow_def by (auto intro!: gone_ask)

lemma gone_settle:
  "st \<noteq> ResourceApplied \<Longrightarrow> watched (settle st r) (gone_monitor G) m" "watched (settle st r) (gone_monitor G) True"
  by (simp_all add: settle_def)

lemma gone_failWith: "watched (failWith env message cls r) (gone_monitor G) m"
  unfolding failWith_def by (intro gone_steps gone_settle) simp

lemmas gone_ok = gone_steps gone_failWith gone_settle(1)

definition destroy_monitor ::
    "('s, 'w, 'sch) shipEnv \<Rightarrow> ('w, 'sch) Applier \<Rightarrow> raw \<Rightarrow> Address \<Rightarrow> raw \<Rightarrow> bool \<Rightarrow> (bool, 's, 'w) monitor" where
  "destroy_monitor env app cfg addr lookup counts = gone_monitor (\<lambda>e. counts \<and> gone_read env app cfg addr lookup e)"

lemma destroy_read:
  assumes "\<And>r m. r \<noteq> Inl ErrResourceUnreadable \<or> \<not> counts \<Longrightarrow> watched (k r) (destroy_monitor env app cfg addr lookup counts) m"
    and "counts \<Longrightarrow> watched (k (Inl ErrResourceUnreadable)) (destroy_monitor env app cfg addr lookup counts) True"
  shows "watched (askRead env app addr cfg lookup k) (destroy_monitor env app cfg addr lookup counts) m"
proof -
  have "watched (k r) (destroy_monitor env app cfg addr lookup counts)
      (mn_next (destroy_monitor env app cfg addr lookup counts) m (EAsk s w w'))"
    if "ReadAndFingerprint (en_sha env) app (addr_Type addr) cfg lookup w = (r, w')" for r s w w'
  proof (cases "r = Inl ErrResourceUnreadable \<and> counts")
    case True
    then have "mn_next (destroy_monitor env app cfg addr lookup counts) m (EAsk s w w')"
      using that by (simp add: destroy_monitor_def gone_monitor_def gone_read_def is_apply_def)
    then show ?thesis using assms(2) True by simp
  next
    case False
    then show ?thesis using assms(1) by blast
  qed
  then show ?thesis by (auto simp: askRead_def ask_def destroy_monitor_def split: prod.splits)
qed

lemma reconcileDestroy_verified:
  assumes "prior \<Longrightarrow> counts"
  shows "watched (reconcileDestroyFrom n env app cfg addr lookup prior claimed (\<lambda>outcome. settle outcome r))
    (destroy_monitor env app cfg addr lookup counts) m"
proof (induction n arbitrary: m)
  case 0
  then show ?case unfolding destroy_monitor_def reconcileDestroyFrom.simps by (intro gone_ok) simp
next
  case (Suc n)
  define Q where "Q = reconcileDestroyFrom n env app cfg addr lookup prior claimed (\<lambda>outcome. settle outcome r)"
  define G where "G = (\<lambda>e. counts \<and> gone_read env app cfg addr lookup e)"
  have D: "destroy_monitor env app cfg addr lookup counts = gone_monitor G" by (simp add: destroy_monitor_def G_def)
  have again: "watched Q (gone_monitor G) m" for m using Suc.IH by (simp add: Q_def D)
  show ?case
    unfolding reconcileDestroyFrom.simps Let_def Q_def [symmetric]
  proof (rule destroy_read, goal_cases)
    case (1 q m)
    then show ?case using assms unfolding D by (auto intro!: gone_ok again split: sum.splits)
  next
    case 2
    show ?case unfolding D by (auto intro!: gone_true_steps gone_settle(2) again)
  qed
qed

lemma destroy_monitor_True: "destroy_monitor env app cfg addr lookup True = gone_monitor (gone_read env app cfg addr lookup)"
  by (simp add: destroy_monitor_def)

lemma destroyPresent_verified:
  "watched (destroyPresent env app cfg addr lookup observed) (gone_monitor (gone_read env app cfg addr (Some lookup))) m"
  unfolding destroyPresent_def Let_def applyChange_def reconcileDestroyLoop_def
  by (auto intro!: gone_ask gone_ok reconcileDestroy_verified [where counts = True, unfolded destroy_monitor_True]
    simp del: watched.simps(2,3,4) split: sum.splits option.splits prod.splits)

lemma explained_verified:
  "(\<And>b m. watched (k b) (gone_monitor G) m) \<Longrightarrow>
   watched (destroyDiffExplainedByNormalization env app entry observed k) (gone_monitor G) m"
  by (auto simp: destroyDiffExplainedByNormalization_def intro!: gone_ask split: option.splits sum.splits)

lemma shipDestroy_verified:
  assumes "destroyTargetFor p (des_Address entry) = Some (lookup, expected)"
    and "counts \<longleftrightarrow> (rh_unresolved hist \<longrightarrow> rh_lastReconciliationOutcome hist = ''present_matches'')"
  shows "watched (shipDestroyNode env app cfg p entry hist sameBatch)
    (destroy_monitor env app cfg (des_Address entry) (Some lookup) counts) m"
proof (cases "rh_unresolved hist")
  case True
  then show ?thesis
    unfolding shipDestroyNode_def Let_def reconcileDestroyLoop_def
    using assms by (auto simp: destroy_monitor_def intro!: gone_ok reconcileDestroy_verified [unfolded destroy_monitor_def])
next
  case False
  then have c: "counts = True" using assms(2) by simp
  have read: "watched (askRead env app (des_Address entry) cfg (Some lookup) (\<lambda>read. ask (en_clock env) (\<lambda>at. case read of
                  Inl e \<Rightarrow>
                    if e = ErrResourceUnreadable then
                      Mutate (add_attempt at ''already_absent'' [])
                        (transition env ResourceApplied ''already absent before this attempt'' (settle ResourceApplied ()))
                    else failWith env (''freshness recheck: '' @ en_text env e) ErrorRetryable ()
                | Inr (observed, hash) \<Rightarrow>
                    let proceed = Mutate (add_attempt at ''present_matches'' []) (destroyPresent env app cfg (des_Address entry) lookup observed)
                    in if hash = expected then proceed
                       else destroyDiffExplainedByNormalization env app entry observed (\<lambda>explained.
                         if \<not> explained \<and> \<not> sameBatch
                         then Mutate (add_attempt at ''present_drifted'' []) (failWith env driftedText ErrorTerminal ())
                         else proceed))))
      (destroy_monitor env app cfg (des_Address entry) (Some lookup) counts) m" for m
  proof (rule destroy_read, goal_cases)
    case (1 q m)
    then show ?case unfolding c destroy_monitor_True Let_def
      by (auto intro!: gone_ask gone_ok explained_verified destroyPresent_verified simp del: watched.simps(2) split: sum.splits)
  next
    case 2
    then show ?case unfolding destroy_monitor_def
      by (auto intro!: gone_ask gone_true_steps gone_settle(2) simp del: watched.simps(2))
  qed
  show ?thesis
    unfolding shipDestroyNode_def Let_def
    using False assms(1) read [unfolded destroy_monitor_def Let_def]
    by (auto simp: destroy_monitor_def intro!: gone_ok)
qed

text \<open>
  C6. A destroy is counted as applied only on what a read says: in every trace of a destroy that counts
  it, the target's recorded lookup key was read, the provider answered that there is nothing, and nothing
  was applied after that. A resource an earlier attempt left unresolved is counted only if that attempt
  had seen it present as signed. Whatever the provider says of its own success counts for nothing.
\<close>

theorem destroy_counted_verified:
  assumes "trace (shipDestroyNode env app cfg p entry hist sameBatch) es r" "ETally ResourceApplied \<in> set es"
  shows "\<exists>lookup expected. destroyTargetFor p (des_Address entry) = Some (lookup, expected) \<and>
    (rh_unresolved hist \<longrightarrow> rh_lastReconciliationOutcome hist = ''present_matches'') \<and>
    (\<exists>pre s w w' post rest. es = pre @ EAsk s w w' # post @ ETally ResourceApplied # rest \<and>
       ReadAndFingerprint (en_sha env) app (addr_Type (des_Address entry)) cfg (Some lookup) w = (Inl ErrResourceUnreadable, w') \<and>
       (\<forall>x \<in> set post. \<not> is_apply x))"
proof (cases "destroyTargetFor p (des_Address entry)")
  case None
  have "watched (shipDestroyNode env app cfg p entry hist sameBatch) (gone_monitor (\<lambda>e. False)) False"
    unfolding shipDestroyNode_def Let_def None by (auto intro!: gone_ok)
  then have ok: "accepted (gone_monitor (\<lambda>e. False)) False es" by (rule watched_trace [OF assms(1)])
  obtain us vs where "es = us @ ETally ResourceApplied # vs" using split_list [OF assms(2)] by blast
  then have "fold (\<lambda>e m. mn_next (gone_monitor (\<lambda>e. False)) m e) us False" using ok by (simp add: accepted_append)
  then show ?thesis using gone_state by blast
next
  case (Some target)
  obtain lookup expected where t: "destroyTargetFor p (des_Address entry) = Some (lookup, expected)" using Some by (cases target) auto
  let ?c = "rh_unresolved hist \<longrightarrow> rh_lastReconciliationOutcome hist = ''present_matches''"
  let ?G = "\<lambda>e. ?c \<and> gone_read env app cfg (des_Address entry) (Some lookup) e"
  have ok: "accepted (gone_monitor ?G) False es"
    using watched_trace [OF assms(1) shipDestroy_verified [OF t, of ?c hist]] by (simp add: destroy_monitor_def)
  obtain us vs where es: "es = us @ ETally ResourceApplied # vs" using split_list [OF assms(2)] by blast
  then have "fold (\<lambda>e m. mn_next (gone_monitor ?G) m e) us False" using ok by (simp add: accepted_append)
  then obtain pre e post where p: "us = pre @ e # post" "?G e" "\<forall>x \<in> set post. \<not> is_apply x"
    using gone_state by blast
  obtain s w w' where e: "e = EAsk s w w'" using p(2) by (cases e) (auto simp: gone_read_def)
  then have "ReadAndFingerprint (en_sha env) app (addr_Type (des_Address entry)) cfg (Some lookup) w = (Inl ErrResourceUnreadable, w')"
    using p(2) by (simp add: gone_read_def)
  then show ?thesis using t p e es by fastforce
qed

section \<open>A sample\<close>

text \<open>A world that holds one resource or none, and says so.\<close>

definition sample_env :: "(git_store, bool, unit) shipEnv" where
  "sample_env = \<lparr>en_sha = sample_sha, en_ops = git_ops, en_owns = (\<lambda>_. None), en_clock = (\<lambda>w. (''t'', w)),
     en_text = (\<lambda>_. ''e'')\<rparr>"

definition sample_app :: "(bool, unit) Applier" where
  "sample_app = \<lparr>rd_Schema = (\<lambda>w. (Inr ((), \<lambda>_. Some ()), w)), rd_Configure = (\<lambda>_ _ w. (Inr (), w)),
     rd_ReadResource = (\<lambda>_ _ _ w. (Inr (if w then Some (GObj []) else None), w)),
     ap_ApplyResourceChange = (\<lambda>_ _ _ planned _ w. (Inr (planned, None), planned \<noteq> Some GNil)),
     ap_PlanResourceChange = (\<lambda>_ _ _ planned w. (Inr (planned, []), w))\<rparr>"

definition no_history :: resourceHistory where
  "no_history = \<lparr>rh_lastState = None, rh_attemptsInFlight = 0, rh_lastProviderResult = None,
     rh_lastReconciliationOutcome = [], rh_lastApplyClaimedSuccess = False\<rparr>"

definition sample_target :: DestroyEntry where
  "sample_target = sample_destroy ''c'' [] (Some (GObj []))"

definition sample_terminate :: Proposal where
  "sample_terminate = change_with \<lparr>d_Creates = [], d_Modifies = [], d_Destroys = [sample_target]\<rparr>
     [sample_input ''destroy_target'' ''s.t.c'' (sample_sha []) (Some (GObj [(''id'', GStr ''1'')]))]"

definition sample_record :: "Address list \<Rightarrow> ApplyRecord" where
  "sample_record as = \<lparr>ar_SchemaVersion = 1, ar_ID = [], ar_Proposal = sample_sha [], ar_Parent = [], ar_Attempt = 1,
     ar_Resources = map (\<lambda>a. \<lparr>rap_Address = a, rap_Transitions = [], rap_ProviderResult = None, rap_Lookup = None,
       rap_Reconciliation = [], rap_Errors = []\<rparr>) as, ar_Summary = None\<rparr>"

lemma sample_target_value: "destroyTargetFor sample_terminate (des_Address sample_target) = Some (GObj [(''id'', GStr ''1'')], sample_sha [])"
  by code_simp

lemma sample_gone: "ReadAndFingerprint sample_sha sample_app ty None l False = (Inl ErrResourceUnreadable, False)"
  by (simp add: ReadAndFingerprint_def readAndFingerprint_def obind_def oret_def sample_app_def)

lemma sample_run:
  "\<exists>st'. run (shipDestroyNode sample_env sample_app None sample_terminate sample_target no_history False) git_ops 0
     (newRecorder git_empty False (sample_record [Address ''s'' ''t'' ''c'']) []) = Some (Inr (), st') \<and> ss_Applied st' = 1"
  unfolding shipDestroyNode_def Let_def sample_target_value
  by (simp add: rh_unresolved_def no_history_def maxApplyAttemptsPerResource_def transition_def run_ask askRead_def
    sample_env_def sample_gone settle_def newRecorder_def mutate_entry_def tally_def persist_def SaveApplyProgress_def
    writeApplyFile_def git_WriteApply_def sample_record_def Sealed_def)

lemma destroy_counted_verified_witness:
  "\<exists>es pre s w w' post rest.
    trace (shipDestroyNode sample_env sample_app None sample_terminate sample_target no_history False) es (Inr ()) \<and>
    es = pre @ EAsk s w w' # post @ ETally ResourceApplied # rest \<and>
    ReadAndFingerprint sample_sha sample_app ''t'' None (Some (GObj [(''id'', GStr ''1'')])) w = (Inl ErrResourceUnreadable, w')"
proof -
  obtain st' where st: "run (shipDestroyNode sample_env sample_app None sample_terminate sample_target no_history False) git_ops 0
       (newRecorder git_empty False (sample_record [Address ''s'' ''t'' ''c'']) []) = Some (Inr (), st')" "ss_Applied st' = 1"
    using sample_run by blast
  obtain es where es: "trace (shipDestroyNode sample_env sample_app None sample_terminate sample_target no_history False) es (Inr ())"
    "1 = talliesOf ResourceApplied es"
    using run_trace [OF st(1)] st(2) by (auto simp: newRecorder_def)
  have "ETally ResourceApplied \<in> set es"
    using es(2) by (cases "filter (\<lambda>e. e = ETally ResourceApplied) es") (auto simp: talliesOf_def filter_eq_Cons_iff)
  from destroy_counted_verified [OF es(1) this] show ?thesis
  proof (elim exE conjE)
    fix lookup expected pre s w w' post rest
    assume t: "destroyTargetFor sample_terminate (des_Address sample_target) = Some (lookup, expected)"
      and x: "es = pre @ EAsk s w w' # post @ ETally ResourceApplied # rest"
        "ReadAndFingerprint (en_sha sample_env) sample_app (addr_Type (des_Address sample_target)) None (Some lookup) w = (Inl ErrResourceUnreadable, w')"
    show ?thesis using es(1) t x sample_target_value by (fastforce simp: sample_env_def sample_target_def sample_destroy_def)
  qed
qed

end
