(* ===== verification/ShipWalk.thy ===== *)
theory ShipWalk
  imports ShipTrace
begin

text \<open>
  core/executor/ship.go, shipping a whole proposal: the serial loop of a drift revert, and the
  concurrent walk of a change as a step relation, one step for every critical section of the recorder,
  every call to a provider and every action of the scheduler, in any order the goroutines may take.
\<close>

definition freshEntry :: "Address \<Rightarrow> ResourceApply" where
  "freshEntry addr = \<lparr>rap_Address = addr, rap_Transitions = [], rap_ProviderResult = None, rap_Lookup = None,
     rap_Reconciliation = [], rap_Errors = []\<rparr>"

definition append_entry :: "Address \<Rightarrow> ('s, 'w) shipState \<Rightarrow> ('s, 'w) shipState" where
  "append_entry addr st = st\<lparr>ss_Rec := (ss_Rec st)\<lparr>ar_Resources := ar_Resources (ss_Rec st) @ [freshEntry addr]\<rparr>\<rparr>"

section \<open>Reverting drift\<close>

fun revertLoop ::
    "('s, 'w, 'sch) shipEnv \<Rightarrow> ('w, 'sch) Applier \<Rightarrow> raw \<Rightarrow> ApplyRecord list \<Rightarrow> Proposal \<Rightarrow> Modification list \<Rightarrow> bool \<Rightarrow>
     ('s, 'w) shipState \<Rightarrow> ((err, bool) res \<times> ('s, 'w) shipState) option" where
  "revertLoop env app cfg attempts p [] halted st = Some (Inr halted, st)"
| "revertLoop env app cfg attempts p (m # ms) halted st =
     (case run (shipRevertNode env app cfg p m (foldResourceHistory attempts (mod_Target m)) halted) (en_ops env)
             (length (ar_Resources (ss_Rec st))) (append_entry (mod_Target m) st) of
        None \<Rightarrow> None
      | Some (Inl e, st') \<Rightarrow> Some (Inl e, st')
      | Some (Inr halted', st') \<Rightarrow> revertLoop env app cfg attempts p ms halted' st')"

text \<open>The result, and the store and the world after it; \<open>None\<close> when a call does not return.\<close>

definition shipDriftRevert ::
    "('s, 'w, 'sch) shipEnv \<Rightarrow> ('w, 'sch) Applier \<Rightarrow> raw \<Rightarrow> Proposal \<Rightarrow> 's \<Rightarrow> 'w \<Rightarrow>
     ((err, ApplyRecord) res \<times> 's \<times> 'w) option" where
  "shipDriftRevert env app cfg p s w =
     (if p_Acceptance p = None then Some (Inl ErrNotAccepted, s, w)
      else let modifies = sortedModifies (d_Modifies (p_Delta p)) in
        case ApplyAttempts (en_ops env) s (p_ID p) of
          Inl e \<Rightarrow> Some (Inl e, s, w)
        | Inr attempts \<Rightarrow>
            if allAlreadyApplied attempts modifies then Some (Inl ErrAlreadyApplied, s, w)
            else (case BeginApply (en_ops env) s (p_ID p) of
              Inl e \<Rightarrow> Some (Inl e, s, w)
            | Inr (r, s') \<Rightarrow>
                (case en_clock env w of (startedAt, w') \<Rightarrow>
                 case revertLoop env app cfg attempts p modifies False (newRecorder s' w' r []) of
                   None \<Rightarrow> None
                 | Some (Inl e, st) \<Rightarrow> Some (Inl e, ss_Store st, ss_World st)
                 | Some (Inr halted, st) \<Rightarrow>
                     (case sealOutcome env st startedAt halted of (res, st') \<Rightarrow> Some (res, ss_Store st', ss_World st')))))"

section \<open>The plan of a change\<close>

text \<open>What is fixed before the walk starts.\<close>

record plan =
  pl_nodes :: "changeNode list"
  pl_attempts :: "ApplyRecord list"
  pl_seed :: results

abbreviation pl_hist :: "plan \<Rightarrow> changeNode \<Rightarrow> resourceHistory" where
  "pl_hist pl n \<equiv> foldResourceHistory (pl_attempts pl) (ch_addr n)"

definition seedOf :: "ApplyRecord list \<Rightarrow> changeNode list \<Rightarrow> results" where
  "seedOf attempts nodes = foldl (\<lambda>m n. let h = foldResourceHistory attempts (ch_addr n)
     in if rh_applied h then aput (ch_key n) (rh_lastProviderResult h) m else m) [] nodes"

definition node_index :: "plan \<Rightarrow> string \<Rightarrow> nat" where
  "node_index pl key = length (takeWhile (\<lambda>n. ch_key n \<noteq> key) (pl_nodes pl))"

definition node_of :: "plan \<Rightarrow> string \<Rightarrow> changeNode" where
  "node_of pl key = pl_nodes pl ! node_index pl key"

definition unseeded :: "plan \<Rightarrow> changeNode \<Rightarrow> string list" where
  "unseeded pl n = filter (\<lambda>d. map_of (pl_seed pl) d = None) (ch_dependsOn n)"

text \<open>A node waits once for every mention of a dependency that no earlier attempt applied.\<close>

definition pendingOf :: "plan \<Rightarrow> (string \<times> nat) list" where
  "pendingOf pl = map (\<lambda>n. (ch_key n, length (unseeded pl n))) (pl_nodes pl)"

definition dependentsOf :: "plan \<Rightarrow> string \<Rightarrow> string list" where
  "dependentsOf pl dep = sort (concat (map (\<lambda>n. map (\<lambda>_. ch_key n) (filter (\<lambda>d. d = dep) (unseeded pl n))) (pl_nodes pl)))"

definition toProcess :: "plan \<Rightarrow> changeNode list" where
  "toProcess pl = filter (\<lambda>n. \<not> rh_applied (pl_hist pl n)) (pl_nodes pl)"

definition readyAtStart :: "plan \<Rightarrow> string list" where
  "readyAtStart pl = sort (map ch_key (filter (\<lambda>n. unseeded pl n = [] \<and> \<not> rh_applied (pl_hist pl n)) (pl_nodes pl)))"

text \<open>
  What a completion does: each dependent waits for one less, and the ones that wait for nothing are to be
  launched, in that order.
\<close>

fun release :: "string list \<Rightarrow> (string \<times> nat) list \<Rightarrow> (string \<times> nat) list \<times> string list" where
  "release [] pending = (pending, [])"
| "release (k # ks) pending =
     (let n = (case map_of pending k of None \<Rightarrow> 0 | Some n \<Rightarrow> n);
          pending' = map (\<lambda>b. if fst b = k then (k, n - 1) else b) pending;
          (pending'', todo) = release ks pending'
      in (pending'', if n = 1 then k # todo else todo))"

section \<open>What a node runs\<close>

definition failSync :: "('s, 'w, 'sch) shipEnv \<Rightarrow> string \<Rightarrow> ('s, 'w, unit) prog" where
  "failSync env message = transition env ResourcePending [] (failWith env message ErrorTerminal ())"

definition blockedText :: "string \<Rightarrow> string" where
  "blockedText dep = ''blocked: dependency '' @ dep @ '' has not applied -- refusing to ship a resource ahead of what it depends on''"

definition nodeProg ::
    "('s, 'w, 'sch) shipEnv \<Rightarrow> ('w, 'sch) ApplierPool \<Rightarrow> string \<Rightarrow> Proposal \<Rightarrow> changeNode \<Rightarrow> results \<Rightarrow> resourceHistory \<Rightarrow>
     ('s, 'w, unit) prog" where
  "nodeProg env pool providerSource p n snapshot hist =
     ask (case ch_provider n of None \<Rightarrow> pool providerSource [] | Some r \<Rightarrow> pool (pr_Source r) (pr_Version r)) (\<lambda>r. case r of
         Inl e \<Rightarrow> failSync env (''provider unavailable: '' @ en_text env e)
       | Inr (app, cfg) \<Rightarrow> (case ch_work n of
             Creates cn \<Rightarrow> shipCreate env app cfg cn snapshot hist
           | Destroys d \<Rightarrow> shipDestroyNode env app cfg p d hist (ch_dependsOn n \<noteq> [])
           | Modifies m \<Rightarrow> shipModifyNode env app cfg p m snapshot hist))"

section \<open>The walk\<close>

text \<open>
  \<open>wk_todo\<close> is what the main goroutine is about to launch, \<open>wk_main\<close> the blocked node it is recording,
  \<open>wk_waiting\<close> and \<open>wk_running\<close> the goroutines before and after they acquired the semaphore, \<open>wk_done\<close> and
  \<open>wk_fatal\<close> the two channels, and \<open>wk_abort\<close> the error the walk gave up with.
\<close>

record ('s, 'w) walk =
  wk_st :: "('s, 'w) shipState"
  wk_pending :: "(string \<times> nat) list"
  wk_todo :: "string list"
  wk_main :: "(string \<times> ('s, 'w, unit) prog) option"
  wk_waiting :: "(string \<times> ('s, 'w, unit) prog) list"
  wk_running :: "(string \<times> ('s, 'w, unit) prog) list"
  wk_done :: "string list"
  wk_fatal :: "err list"
  wk_processed :: nat
  wk_abort :: "err option"

definition missingDep :: "plan \<Rightarrow> string \<Rightarrow> ('s, 'w) shipState \<Rightarrow> string option" where
  "missingDep pl key st = find (\<lambda>d. \<not> hasResult d st) (ch_dependsOn (node_of pl key))"

definition entry_at :: "nat \<Rightarrow> ('s, 'w) shipState \<Rightarrow> ResourceApply" where
  "entry_at i st = ar_Resources (ss_Rec st) ! i"

text \<open>A finished goroutine's result, when its entry ends applied.\<close>

definition publish :: "plan \<Rightarrow> string \<Rightarrow> ('s, 'w) shipState \<Rightarrow> ('s, 'w) shipState" where
  "publish pl key st = (let ra = entry_at (node_index pl key) st
     in if LastState ra = Some ResourceApplied then setResult key (rap_ProviderResult ra) st else st)"

inductive walk_step ::
    "('s, 'w, 'sch) shipEnv \<Rightarrow> ('w, 'sch) ApplierPool \<Rightarrow> string \<Rightarrow> Proposal \<Rightarrow> nat \<Rightarrow> plan \<Rightarrow> ('s, 'w) walk \<Rightarrow> ('s, 'w) walk \<Rightarrow> bool"
  for env :: "('s, 'w, 'sch) shipEnv" and pool :: "('w, 'sch) ApplierPool" and src :: string and p :: Proposal
    and maxParallel :: nat and pl :: plan where
  blocks: "wk_main x = None \<Longrightarrow> wk_todo x = k # ks \<Longrightarrow> missingDep pl k (wk_st x) = Some d \<Longrightarrow>
    walk_step env pool src p maxParallel pl x (x\<lparr>wk_todo := ks, wk_main := Some (k, failSync env (blockedText d))\<rparr>)"
| launches: "wk_main x = None \<Longrightarrow> wk_todo x = k # ks \<Longrightarrow> missingDep pl k (wk_st x) = None \<Longrightarrow>
    walk_step env pool src p maxParallel pl x (x\<lparr>wk_todo := ks, wk_waiting := wk_waiting x @
      [(k, nodeProg env pool src p (node_of pl k) (ss_Results (wk_st x)) (pl_hist pl (node_of pl k)))]\<rparr>)"
| records: "wk_main x = Some (k, P) \<Longrightarrow> step_prog (en_ops env) (node_index pl k) P (wk_st x) = Some (Q, st') \<Longrightarrow>
    walk_step env pool src p maxParallel pl x (x\<lparr>wk_main := Some (k, Q), wk_st := st'\<rparr>)"
| recorded: "wk_main x = Some (k, Done (Inr ())) \<Longrightarrow>
    walk_step env pool src p maxParallel pl x (x\<lparr>wk_main := None, wk_done := wk_done x @ [k]\<rparr>)"
| unrecorded: "wk_main x = Some (k, Done (Inl e)) \<Longrightarrow>
    walk_step env pool src p maxParallel pl x (x\<lparr>wk_main := None, wk_fatal := wk_fatal x @ [e]\<rparr>)"
| acquires: "wk_waiting x = us @ (k, P) # vs \<Longrightarrow> length (wk_running x) < maxParallel \<Longrightarrow>
    walk_step env pool src p maxParallel pl x (x\<lparr>wk_waiting := us @ vs, wk_running := wk_running x @ [(k, P)]\<rparr>)"
| works: "wk_running x = us @ (k, P) # vs \<Longrightarrow>
    step_prog (en_ops env) (node_index pl k) P (wk_st x) = Some (Q, st') \<Longrightarrow>
    walk_step env pool src p maxParallel pl x (x\<lparr>wk_running := us @ (k, Q) # vs, wk_st := st'\<rparr>)"
| finishes: "wk_running x = us @ (k, Done (Inr ())) # vs \<Longrightarrow>
    walk_step env pool src p maxParallel pl x
      (x\<lparr>wk_running := us @ vs, wk_st := publish pl k (wk_st x), wk_done := wk_done x @ [k]\<rparr>)"
| fails: "wk_running x = us @ (k, Done (Inl e)) # vs \<Longrightarrow>
    walk_step env pool src p maxParallel pl x (x\<lparr>wk_running := us @ vs, wk_fatal := wk_fatal x @ [e]\<rparr>)"
| receives: "wk_main x = None \<Longrightarrow> wk_todo x = [] \<Longrightarrow> wk_abort x = None \<Longrightarrow>
    wk_processed x < length (toProcess pl) \<Longrightarrow> wk_done x = k # ks \<Longrightarrow>
    release (dependentsOf pl k) (wk_pending x) = (pending, todo) \<Longrightarrow>
    walk_step env pool src p maxParallel pl x
      (x\<lparr>wk_done := ks, wk_processed := wk_processed x + 1, wk_pending := pending, wk_todo := todo\<rparr>)"
| aborts: "wk_main x = None \<Longrightarrow> wk_todo x = [] \<Longrightarrow> wk_abort x = None \<Longrightarrow>
    wk_processed x < length (toProcess pl) \<Longrightarrow> wk_fatal x = e # es \<Longrightarrow>
    walk_step env pool src p maxParallel pl x (x\<lparr>wk_abort := Some e, wk_fatal := es\<rparr>)"

section \<open>Before and after the walk\<close>

text \<open>The nodes an earlier attempt applied are passed through before the walk starts.\<close>

fun passThrough ::
    "('s, 'w, 'sch) shipEnv \<Rightarrow> plan \<Rightarrow> changeNode list \<Rightarrow> ('s, 'w) shipState \<Rightarrow> ((err, unit) res \<times> ('s, 'w) shipState) option" where
  "passThrough env pl [] st = Some (Inr (), st)"
| "passThrough env pl (n # ns) st =
     (if \<not> rh_applied (pl_hist pl n) then passThrough env pl ns st
      else case run (transition env ResourceApplied priorText (settle ResourceApplied ())) (en_ops env)
                  (node_index pl (ch_key n)) st of
          None \<Rightarrow> None
        | Some (Inl e, st') \<Rightarrow> Some (Inl e, st')
        | Some (Inr _, st') \<Rightarrow> passThrough env pl ns st')"

definition walk_start :: "plan \<Rightarrow> ('s, 'w) shipState \<Rightarrow> ('s, 'w) walk" where
  "walk_start pl st = \<lparr>wk_st = st, wk_pending = pendingOf pl, wk_todo = readyAtStart pl, wk_main = None,
     wk_waiting = [], wk_running = [], wk_done = [], wk_fatal = [], wk_processed = 0, wk_abort = None\<rparr>"

text \<open>Data sources are checked once, before anything is touched.\<close>

definition dataSourcesChecked ::
    "('s, 'w, 'sch) shipEnv \<Rightarrow> ('w, 'sch) ApplierPool \<Rightarrow> string \<Rightarrow> Proposal \<Rightarrow> ('w, err, unit) op" where
  "dataSourcesChecked env pool src p =
     (if \<exists>i \<in> set (rs_Inputs (p_Resolution p)). in_Kind i = ''data_source''
      then obind (pool src []) (\<lambda>(app, cfg). VerifyDataSourceFreshness (en_sha env) app cfg p)
      else oret (Inr ()))"

definition planOf :: "ApplyRecord list \<Rightarrow> changeNode list \<Rightarrow> plan" where
  "planOf attempts nodes = \<lparr>pl_nodes = nodes, pl_attempts = attempts, pl_seed = seedOf attempts nodes\<rparr>"

text \<open>Everything up to the walk: an error, or the plan, the start time and the first state of the walk.\<close>

definition beginChange ::
    "('s, 'w, 'sch) shipEnv \<Rightarrow> ('w, 'sch) ApplierPool \<Rightarrow> string \<Rightarrow> Proposal \<Rightarrow> 's \<Rightarrow> 'w \<Rightarrow>
     ((err, plan \<times> string \<times> ('s, 'w) walk) res \<times> 's \<times> 'w) option" where
  "beginChange env pool src p s w =
     (if p_Acceptance p = None then Some (Inl ErrNotAccepted, s, w)
      else case dataSourcesChecked env pool src p w of
        (Inl e, w1) \<Rightarrow> Some (Inl e, s, w1)
      | (Inr _, w1) \<Rightarrow>
          (case rbind (changeNodesOf p) (\<lambda>nodes. rbind (ApplyAttempts (en_ops env) s (p_ID p)) (\<lambda>attempts.
                  if allAddressesApplied attempts (map ch_addr nodes) then Inl ErrAlreadyApplied
                  else rbind (BeginApply (en_ops env) s (p_ID p)) (\<lambda>(r, s'). Inr (nodes, attempts, r, s')))) of
             Inl e \<Rightarrow> Some (Inl e, s, w1)
           | Inr (nodes, attempts, r, s') \<Rightarrow>
               (case en_clock env w1 of (startedAt, w2) \<Rightarrow>
                 let pl = planOf attempts nodes;
                     st = newRecorder s' w2 (r\<lparr>ar_Resources := map (\<lambda>n. freshEntry (ch_addr n)) nodes\<rparr>) (pl_seed pl)
                 in case passThrough env pl nodes st of
                      None \<Rightarrow> None
                    | Some (Inl e, st') \<Rightarrow> Some (Inl e, ss_Store st', ss_World st')
                    | Some (Inr _, st') \<Rightarrow> Some (Inr (pl, startedAt, walk_start pl st'), ss_Store st', ss_World st'))))"

text \<open>The walk is over when every goroutine has ended, and all nodes are processed or it gave up.\<close>

definition walk_over :: "plan \<Rightarrow> ('s, 'w) walk \<Rightarrow> bool" where
  "walk_over pl x \<longleftrightarrow> wk_main x = None \<and> wk_todo x = [] \<and> wk_waiting x = [] \<and> wk_running x = [] \<and>
     (wk_abort x \<noteq> None \<or> wk_processed x = length (toProcess pl))"

definition endChange ::
    "('s, 'w, 'sch) shipEnv \<Rightarrow> string \<Rightarrow> ('s, 'w) walk \<Rightarrow> (err, ApplyRecord) res \<times> ('s, 'w) shipState" where
  "endChange env startedAt x = (case wk_abort x of
      Some e \<Rightarrow> (Inl e, wk_st x)
    | None \<Rightarrow> sealOutcome env (wk_st x) startedAt False)"

section \<open>Programs end\<close>

text \<open>What a program may go on with.\<close>

inductive prog_next :: "('s, 'w, 'r) prog \<Rightarrow> ('s, 'w, 'r) prog \<Rightarrow> bool" where
  "prog_next Q (Mutate f Q)"
| "prog_next Q (Tally x Q)"
| "prog_next Q (Persist Q)"
| "prog_next (Done (Inl e)) (Persist Q)"
| "g s w = Some (Q, w') \<Longrightarrow> prog_next Q (Ask g)"
| "h w = (Q, w') \<Longrightarrow> prog_next Q (ApplyChange prior planned h)"

inductive_cases prog_next_cases: "prog_next Q P"

lemma prog_next_wf: "wfP (prog_next :: ('s, 'w, 'r) prog \<Rightarrow> ('s, 'w, 'r) prog \<Rightarrow> bool)"
proof (rule wfpUNIVI)
  fix ok :: "('s, 'w, 'r) prog \<Rightarrow> bool" and P
  assume h: "\<forall>P. (\<forall>Q. prog_next Q P \<longrightarrow> ok Q) \<longrightarrow> ok P"
  have done_ok: "ok (Done r)" for r
    using h by (auto elim: prog_next_cases)
  show "ok P"
  proof (induction P)
    case (Done r)
    show ?case by (rule done_ok)
  next
    case (Ask g)
    have "ok Q" if "prog_next Q (Ask g)" for Q
    proof -
      obtain s w w' where q: "g s w = Some (Q, w')" using \<open>prog_next Q _\<close> by (auto elim: prog_next_cases)
      then have "Some (Q, w') \<in> range (g s)" by (metis rangeI)
      then show ?thesis using Ask.IH [of "g s" "Some (Q, w')" "(Q, w')" Q] by (simp add: fsts.simps)
    qed
    then show ?case using h by blast
  next
    case (ApplyChange prior planned g)
    have "ok Q" if "prog_next Q (ApplyChange prior planned g)" for Q
    proof -
      obtain w w' where q: "g w = (Q, w')" using \<open>prog_next Q _\<close> by (auto elim: prog_next_cases)
      then have "(Q, w') \<in> range g" by (metis rangeI)
      then show ?thesis using ApplyChange.IH [of "(Q, w')" Q] by (simp add: fsts.simps)
    qed
    then show ?case using h by blast
  qed (use h done_ok in \<open>auto elim: prog_next_cases\<close>)
qed

lemma step_prog_next: "step_prog ops i P st = Some (Q, st') \<Longrightarrow> prog_next Q P"
  by (cases P) (auto simp: step_prog_def intro: prog_next.intros split: sum.splits prod.splits)

lemma run_step:
  "run P ops i st = (case P of Done r \<Rightarrow> Some (r, st)
     | _ \<Rightarrow> (case step_prog ops i P st of None \<Rightarrow> None | Some (Q, st') \<Rightarrow> run Q ops i st'))"
  by (cases P) (auto simp: step_prog_def split: sum.splits option.splits prod.splits)

text \<open>What every step of a program keeps, running it keeps.\<close>

lemma run_keeps:
  assumes step: "\<And>P st Q st'. step_prog ops i P st = Some (Q, st') \<Longrightarrow> J P st \<Longrightarrow> J Q st'"
  shows "run P ops i st = Some (r, st') \<Longrightarrow> J P st \<Longrightarrow> J (Done r) st'"
proof (induction P arbitrary: st rule: wfp_induct [OF prog_next_wf])
  case (1 P)
  show ?case
  proof (cases "\<exists>q. P = Done q")
    case True
    then show ?thesis using "1.prems" by auto
  next
    case False
    then obtain Q u where q: "step_prog ops i P st = Some (Q, u)" "run Q ops i u = Some (r, st')"
      using "1.prems"(1) run_step [of P ops i st] by (cases P) (auto split: option.splits)
    then show ?thesis using "1.IH" step_prog_next [OF q(1)] step [OF q(1) "1.prems"(2)] by blast
  qed
qed

section \<open>In flight, saved, and then applied\<close>

text \<open>The processes of a walk.\<close>

definition procs :: "('s, 'w) walk \<Rightarrow> (string \<times> ('s, 'w, unit) prog) list" where
  "procs x = (case wk_main x of None \<Rightarrow> [] | Some q \<Rightarrow> [q]) @ wk_waiting x @ wk_running x"

definition in_flight_at :: "('s, 'w) shipState \<Rightarrow> nat \<Rightarrow> bool" where
  "in_flight_at st i \<longleftrightarrow> i < length (ar_Resources (ss_Rec st)) \<and> everInFlight (entry_at i st)"

definition saved_at :: "'s store_ops \<Rightarrow> ('s, 'w) shipState \<Rightarrow> nat \<Rightarrow> bool" where
  "saved_at ops st i \<longleftrightarrow> (\<exists>r. so_ReadApply ops (ss_Store st) (ar_Proposal (ss_Rec st)) (ar_Attempt (ss_Rec st)) = Inr (ApplyBlob r) \<and>
     map rap_Address (ar_Resources r) = map rap_Address (ar_Resources (ss_Rec st)) \<and>
     i < length (ar_Resources r) \<and> everInFlight (ar_Resources r ! i))"

text \<open>A program whose monitor's state the record and the saved record bear out.\<close>

definition flight_ok :: "'s store_ops \<Rightarrow> nat \<Rightarrow> ('s, 'w, 'r) prog \<Rightarrow> ('s, 'w) shipState \<Rightarrow> bool" where
  "flight_ok ops i P st \<longleftrightarrow> i < length (ar_Resources (ss_Rec st)) \<and> (\<exists>a b. watched P flight_monitor (a, b) \<and>
     (a \<longrightarrow> in_flight_at st i) \<and> (b \<longrightarrow> saved_at ops st i))"

text \<open>The addresses of a record do not change, and what is in flight or saved so stays so.\<close>

definition later :: "'s store_ops \<Rightarrow> ('s, 'w) shipState \<Rightarrow> ('s, 'w) shipState \<Rightarrow> bool" where
  "later ops st st' \<longleftrightarrow> map rap_Address (ar_Resources (ss_Rec st')) = map rap_Address (ar_Resources (ss_Rec st)) \<and>
     ar_Proposal (ss_Rec st') = ar_Proposal (ss_Rec st) \<and> ar_Attempt (ss_Rec st') = ar_Attempt (ss_Rec st) \<and>
     (\<forall>i. in_flight_at st i \<longrightarrow> in_flight_at st' i) \<and> (\<forall>i. saved_at ops st i \<longrightarrow> saved_at ops st' i)"

lemma later_refl [simp]: "later ops st st"
  by (simp add: later_def)

lemma later_trans: "later ops a b \<Longrightarrow> later ops b c \<Longrightarrow> later ops a c"
  by (simp add: later_def)

lemma flight_later: "later ops st st' \<Longrightarrow> flight_ok ops i P st \<Longrightarrow> flight_ok ops i P st'"
  unfolding flight_ok_def later_def by (metis length_map)

context apply_store
begin

definition saved_ok :: "('s, 'w) shipState \<Rightarrow> bool" where
  "saved_ok st \<longleftrightarrow> ok (ss_Store st) \<and> (\<forall>i. saved_at ops st i \<longrightarrow> in_flight_at st i)"

lemma mutate_later:
  assumes "keeps f"
  shows "later ops st (mutate_entry i f st)"
    "saved_ok st \<Longrightarrow> saved_ok (mutate_entry i f st)"
    "i < length (ar_Resources (ss_Rec st)) \<Longrightarrow> (\<And>ra. everInFlight (f ra)) \<Longrightarrow> in_flight_at (mutate_entry i f st) i"
proof -
  have ever: "everInFlight ra \<Longrightarrow> everInFlight (f ra)" for ra
    using assms unfolding keeps_def everInFlight_def by (meson set_mono_prefix subsetD)
  have addr: "map rap_Address ((ar_Resources r)[i := f (ar_Resources r ! i)]) = map rap_Address (ar_Resources r)" for r
    using assms by (cases "i < length (ar_Resources r)") (auto simp: keeps_def list_eq_iff_nth_eq nth_list_update)
  have flight: "in_flight_at st j \<Longrightarrow> in_flight_at (mutate_entry i f st) j" for j
    using ever by (cases "i = j") (auto simp: in_flight_at_def entry_at_def mutate_entry_def)
  have saved: "saved_at ops (mutate_entry i f st) j = saved_at ops st j" for j
    by (simp add: saved_at_def mutate_entry_def addr)
  show "later ops st (mutate_entry i f st)" using flight saved by (simp add: later_def mutate_entry_def addr)
  show "saved_ok (mutate_entry i f st)" if "saved_ok st"
    using that flight saved by (simp add: saved_ok_def) (simp add: mutate_entry_def)
  show "in_flight_at (mutate_entry i f st) i" if "i < length (ar_Resources (ss_Rec st))" "\<And>ra. everInFlight (f ra)"
    using that by (simp add: in_flight_at_def entry_at_def mutate_entry_def)
qed

lemma persist_later:
  assumes "saved_ok st" "persist ops st = Inr st'"
  shows "later ops st st' \<and> saved_ok st' \<and> (\<forall>i. in_flight_at st i \<longrightarrow> saved_at ops st' i)"
proof -
  obtain s' where s': "SaveApplyProgress ops (ss_Store st) (ss_Rec st) = Inr s'" "st' = st\<lparr>ss_Store := s'\<rparr>"
    using assms(2) by (auto simp: persist_def res_simps)
  have w: "so_WriteApply ops (ss_Store st) (ar_Proposal (ss_Rec st)) (ar_Attempt (ss_Rec st)) (ApplyBlob (ss_Rec st)) = Inr s'"
    using s'(1) by (auto simp: SaveApplyProgress_def writeApplyFile_def split: if_splits)
  have r: "ok s'" "so_ReadApply ops s' (ar_Proposal (ss_Rec st)) (ar_Attempt (ss_Rec st)) = Inr (ApplyBlob (ss_Rec st))"
    using apply_write [of "ss_Store st" "ar_Proposal (ss_Rec st)" "ar_Attempt (ss_Rec st)" "ApplyBlob (ss_Rec st)"] assms(1) w
    by (auto simp: saved_ok_def)
  have flight: "in_flight_at st' i = in_flight_at st i" for i by (simp add: s'(2) in_flight_at_def entry_at_def)
  have "saved_at ops st' i = in_flight_at st i" for i
    using r(2) by (simp add: saved_at_def in_flight_at_def entry_at_def s'(2))
  then show ?thesis using assms(1) r(1) flight by (auto simp: later_def saved_ok_def s'(2))
qed

lemma step_flight:
  assumes "step_prog ops i P st = Some (Q, st')" "flight_ok ops i P st" "saved_ok st"
  shows "flight_ok ops i Q st' \<and> saved_ok st' \<and> later ops st st'"
proof -
  have i: "i < length (ar_Resources (ss_Rec st))" using assms(2) by (simp add: flight_ok_def)
  obtain a b where w: "watched P flight_monitor (a, b)" "a \<longrightarrow> in_flight_at st i" "b \<longrightarrow> saved_at ops st i"
    using assms(2) by (auto simp: flight_ok_def)
  have world: "flight_ok ops i Q (st\<lparr>ss_World := v\<rparr>) \<and> saved_ok (st\<lparr>ss_World := v\<rparr>) \<and> later ops st (st\<lparr>ss_World := v\<rparr>)"
    if "watched Q flight_monitor (a, b)" for v
    using that w assms(3) i by (auto simp: flight_ok_def saved_ok_def later_def in_flight_at_def saved_at_def entry_at_def)
  show ?thesis
  proof (cases P)
    case (Done r)
    then show ?thesis using assms(1) by (simp add: step_prog_def)
  next
    case (Mutate f R)
    then have st': "Q = R" "st' = mutate_entry i f st" using assms(1) by (simp_all add: step_prog_def)
    have k: "keeps f" and q: "watched Q flight_monitor (mn_next flight_monitor (a, b) (EMut f))"
      using w(1) Mutate st'(1) by (simp_all add: flight_monitor_def)
    note m = mutate_later [OF k]
    have len: "length (ar_Resources (ss_Rec st')) = length (ar_Resources (ss_Rec st))" by (simp add: st'(2) mutate_entry_def)
    show ?thesis
    proof (cases "calm f")
      case True
      then show ?thesis using q w(2, 3) m(1) [of st i] m(2) [OF assms(3), of i] i len
        by (auto simp: flight_ok_def later_def flight_monitor_def st'(2))
    next
      case False
      then show ?thesis using q w(3) m(1) [of st i] m(2) [OF assms(3), of i] m(3) [OF i] i len
        by (auto simp: flight_ok_def later_def flight_monitor_def st'(2))
    qed
  next
    case (Tally x R)
    then have "watched Q flight_monitor (a, b)" "st' = tally x st" using w(1) assms(1) by (auto simp: step_prog_def flight_monitor_def)
    then show ?thesis using w assms(3) i
      by (cases x) (auto simp: tally_def flight_ok_def saved_ok_def later_def in_flight_at_def saved_at_def entry_at_def)
  next
    case (Persist R)
    show ?thesis
    proof (cases "persist ops st")
      case (Inl e)
      then show ?thesis using Persist assms i by (auto simp: step_prog_def flight_ok_def)
    next
      case (Inr u)
      then have st': "Q = R" "st' = u" using assms(1) Persist by (auto simp: step_prog_def)
      have "watched Q flight_monitor (a, a)" using w(1) Persist st'(1) by (simp add: flight_monitor_def)
      moreover have "length (ar_Resources (ss_Rec u)) = length (ar_Resources (ss_Rec st))"
        using Inr by (auto simp: persist_def res_simps)
      ultimately show ?thesis using persist_later [OF assms(3) Inr] w(2) i st'(2)
        unfolding flight_ok_def later_def by metis
    qed
  next
    case (Ask g)
    then obtain v where v: "g (ss_Store st) (ss_World st) = Some (Q, v)" "st' = st\<lparr>ss_World := v\<rparr>"
      using assms(1) by (auto simp: step_prog_def)
    have "watched Q flight_monitor (a, b)" using w(1) v(1) unfolding Ask watched_Ask by (fastforce simp: flight_monitor_def)
    then show ?thesis using world v(2) by simp
  next
    case (ApplyChange prior planned h)
    then obtain v where v: "h (ss_World st) = (Q, v)" "st' = st\<lparr>ss_World := v\<rparr>"
      using assms(1) by (auto simp: step_prog_def split: prod.splits)
    have "watched Q flight_monitor (a, b)" using w(1) v(1) unfolding ApplyChange watched_ApplyChange by (fastforce simp: flight_monitor_def)
    then show ?thesis using world v(2) by simp
  qed
qed

definition flight_inv :: "plan \<Rightarrow> string \<Rightarrow> int \<Rightarrow> ('s, 'w) walk \<Rightarrow> bool" where
  "flight_inv pl pid att x \<longleftrightarrow> saved_ok (wk_st x) \<and>
     map rap_Address (ar_Resources (ss_Rec (wk_st x))) = map ch_addr (pl_nodes pl) \<and>
     ar_Proposal (ss_Rec (wk_st x)) = pid \<and> ar_Attempt (ss_Rec (wk_st x)) = att \<and>
     set (wk_todo x) \<subseteq> ch_key ` set (pl_nodes pl) \<and>
     (\<forall>q \<in> set (procs x). fst q \<in> ch_key ` set (pl_nodes pl) \<and> flight_ok ops (node_index pl (fst q)) (snd q) (wk_st x))"

end

lemma takeWhile_less: "\<exists>x \<in> set xs. \<not> P x \<Longrightarrow> length (takeWhile P xs) < length xs"
  by (induction xs) auto

lemma node_index_less: "k \<in> ch_key ` set (pl_nodes pl) \<Longrightarrow> node_index pl k < length (pl_nodes pl)"
  by (auto simp: node_index_def intro!: takeWhile_less)

lemma node_of_key: "k \<in> ch_key ` set (pl_nodes pl) \<Longrightarrow> ch_key (node_of pl k) = k"
  using nth_length_takeWhile [of "\<lambda>n. ch_key n \<noteq> k" "pl_nodes pl"] node_index_less [of k pl]
  by (auto simp: node_of_def node_index_def)

lemma set_dependentsOf: "set (dependentsOf pl d) \<subseteq> ch_key ` set (pl_nodes pl)"
  by (auto simp: dependentsOf_def)

lemma release_todo: "release ks pending = (pending', todo) \<Longrightarrow> set todo \<subseteq> set ks"
proof (induction ks arbitrary: pending pending' todo)
  case (Cons k ks)
  then obtain q t where "release ks q = (pending', t)" "todo = k # t \<or> todo = t"
    by (simp add: Let_def split: prod.splits if_splits)
  then show ?case using Cons.IH [of q pending' t] by auto
qed simp

context calm_monitor
begin

lemma failSync_ok: "watched (failSync env message) M m"
  by (simp add: failSync_def transition_ok failWith_ok)

lemma nodeProg_ok:
  assumes "rh_attemptsInFlight hist < maxApplyAttemptsPerResource \<Longrightarrow> may_apply 11 M m"
    and "rh_attemptsInFlight hist < maxApplyAttemptsPerResource \<Longrightarrow> may_apply 1 M m"
  shows "watched (nodeProg env pool src p n snapshot hist) M m"
  unfolding nodeProg_def
  by (auto intro!: ask_ok failSync_ok shipCreate_ok shipModifyNode_ok shipDestroyNode_ok assms split: sum.splits nodeWork.splits)

end

lemma beginChange_parts:
  assumes "beginChange env pool src p s w = Some (Inr (pl, startedAt, x), s', w')"
  obtains nodes attempts r s1 w2 st u where "changeNodesOf p = Inr nodes" "ApplyAttempts (en_ops env) s (p_ID p) = Inr attempts"
    "BeginApply (en_ops env) s (p_ID p) = Inr (r, s1)" "pl = planOf attempts nodes"
    "passThrough env pl nodes (newRecorder s1 w2 (r\<lparr>ar_Resources := map (\<lambda>n. freshEntry (ch_addr n)) nodes\<rparr>) (pl_seed pl))
      = Some (Inr u, st)" "x = walk_start pl st"
proof -
  obtain w1 nodes attempts r s1 w2 where b: "changeNodesOf p = Inr nodes" "ApplyAttempts (en_ops env) s (p_ID p) = Inr attempts"
    "BeginApply (en_ops env) s (p_ID p) = Inr (r, s1)" "en_clock env w1 = (startedAt, w2)" "pl = planOf attempts nodes"
    and pass: "\<exists>st u. passThrough env pl nodes (newRecorder s1 w2 (r\<lparr>ar_Resources := map (\<lambda>n. freshEntry (ch_addr n)) nodes\<rparr>) (pl_seed pl))
      = Some (Inr u, st) \<and> x = walk_start pl st"
    using assms by (auto simp: beginChange_def res_simps Let_def split: if_splits prod.splits sum.splits option.splits)
  then show ?thesis using that by blast
qed

lemma nodeProg_flight: "watched (nodeProg env pool src p n snapshot hist) flight_monitor (a, b)"
  by (rule flight.nodeProg_ok) (rule flight_may_apply)+

context apply_store
begin

lemma flight_ok_start: "watched P flight_monitor (False, False) \<Longrightarrow> i < length (ar_Resources (ss_Rec st)) \<Longrightarrow> flight_ok ops i P st"
  by (auto simp: flight_ok_def)

lemma flight_inv_procs:
  assumes "flight_inv pl pid att x" "later ops (wk_st x) st'" "saved_ok st'"
    and "\<And>q. q \<in> set (procs y) \<Longrightarrow> q \<in> set (procs x) \<or>
      (fst q \<in> ch_key ` set (pl_nodes pl) \<and> flight_ok ops (node_index pl (fst q)) (snd q) st')"
    and "wk_st y = st'" "set (wk_todo y) \<subseteq> ch_key ` set (pl_nodes pl)"
  shows "flight_inv pl pid att y"
  using assms flight_later [OF assms(2)] unfolding flight_inv_def later_def by metis

lemma walk_step_flight:
  assumes "walk_step env pool src p n pl x y" "flight_inv pl pid att x" "en_ops env = ops"
  shows "flight_inv pl pid att y"
proof -
  have len: "length (ar_Resources (ss_Rec (wk_st x))) = length (pl_nodes pl)"
    using assms(2) unfolding flight_inv_def by (metis length_map)
  have idx: "node_index pl k < length (ar_Resources (ss_Rec (wk_st x)))" if "k \<in> set (wk_todo x)" for k
    unfolding len using that assms(2) by (intro node_index_less) (auto simp: flight_inv_def)
  have s: "saved_ok (wk_st x)" using assms(2) by (simp add: flight_inv_def)
  have todo: "set (wk_todo x) \<subseteq> ch_key ` set (pl_nodes pl)" using assms(2) by (simp add: flight_inv_def)
  have proc: "fst q \<in> ch_key ` set (pl_nodes pl) \<and> flight_ok ops (node_index pl (fst q)) (snd q) (wk_st x)" if "q \<in> set (procs x)" for q
    using that assms(2) by (simp add: flight_inv_def)
  show ?thesis using assms(1)
  proof cases
    case (blocks k ks d)
    have "flight_ok ops (node_index pl k) (failSync env (blockedText d)) (wk_st x)"
      by (rule flight_ok_start [OF flight.failSync_ok idx]) (simp add: blocks)
    then show ?thesis using todo
      by (intro flight_inv_procs [OF assms(2) later_refl s]) (auto simp: blocks procs_def)
  next
    case (launches k ks)
    have "flight_ok ops (node_index pl k) (nodeProg env pool src p (node_of pl k) (ss_Results (wk_st x))
        (pl_hist pl (node_of pl k))) (wk_st x)"
      by (rule flight_ok_start [OF nodeProg_flight idx]) (simp add: launches)
    then show ?thesis using todo
      by (intro flight_inv_procs [OF assms(2) later_refl s]) (auto simp: launches procs_def)
  next
    case (records k P Q st')
    have q: "(k, P) \<in> set (procs x)" by (simp add: records procs_def)
    have "flight_ok ops (node_index pl k) Q st' \<and> saved_ok st' \<and> later ops (wk_st x) st'"
      using step_flight [OF records(3) [unfolded assms(3)] _ s] proc [OF q] by simp
    then show ?thesis using proc [OF q] todo
      by (intro flight_inv_procs [OF assms(2), of st']) (auto simp: records procs_def)
  next
    case (works us k P vs Q st')
    have q: "(k, P) \<in> set (procs x)" by (simp add: works procs_def)
    have "flight_ok ops (node_index pl k) Q st' \<and> saved_ok st' \<and> later ops (wk_st x) st'"
      using step_flight [OF works(3) [unfolded assms(3)] _ s] proc [OF q] by simp
    then show ?thesis using proc [OF q] todo
      by (intro flight_inv_procs [OF assms(2), of st']) (auto simp: works procs_def split: option.splits)
  next
    case (finishes us k vs)
    have "later ops (wk_st x) (publish pl k (wk_st x)) \<and> saved_ok (publish pl k (wk_st x))"
      using s by (simp add: publish_def setResult_def Let_def later_def saved_ok_def in_flight_at_def saved_at_def entry_at_def)
    then show ?thesis using todo
      by (intro flight_inv_procs [OF assms(2), of "publish pl k (wk_st x)"]) (auto simp: finishes procs_def split: option.splits)
  next
    case (receives k ks pending todo)
    have "set todo \<subseteq> ch_key ` set (pl_nodes pl)"
      using release_todo [OF receives(7)] set_dependentsOf [of pl k] by blast
    then show ?thesis
      by (intro flight_inv_procs [OF assms(2) later_refl s]) (auto simp: receives(1) procs_def)
  qed (intro flight_inv_procs [OF assms(2) later_refl s]; use todo in \<open>auto simp: procs_def split: option.splits\<close>)+
qed

lemma walk_steps_flight:
  assumes "(walk_step env pool src p n pl)\<^sup>*\<^sup>* x y" "flight_inv pl pid att x" "en_ops env = ops"
  shows "flight_inv pl pid att y"
  using assms(1, 2) by (induction rule: rtranclp_induct) (auto intro: walk_step_flight [OF _ _ assms(3)])

lemma run_flight:
  assumes "run P ops i st = Some (r, st')" "watched P flight_monitor (False, False)"
    and "i < length (ar_Resources (ss_Rec st))" "saved_ok st"
  shows "saved_ok st' \<and> later ops st st'"
proof -
  have "flight_ok ops i (Done r) st' \<and> saved_ok st' \<and> later ops st st'"
  proof (rule run_keeps [OF _ assms(1)])
    fix P u Q u'
    assume "step_prog ops i P u = Some (Q, u')" "flight_ok ops i P u \<and> saved_ok u \<and> later ops st u"
    then show "flight_ok ops i Q u' \<and> saved_ok u' \<and> later ops st u'"
      using step_flight later_trans by blast
  qed (use flight_ok_start [OF assms(2, 3)] assms(4) in simp)
  then show ?thesis by simp
qed

lemma passThrough_flight:
  "passThrough env pl ns st = Some (r, st') \<Longrightarrow> en_ops env = ops \<Longrightarrow> saved_ok st \<Longrightarrow>
   set ns \<subseteq> set (pl_nodes pl) \<Longrightarrow> length (ar_Resources (ss_Rec st)) = length (pl_nodes pl) \<Longrightarrow>
   saved_ok st' \<and> later ops st st'"
proof (induction env pl ns st arbitrary: st' rule: passThrough.induct)
  case (2 env pl n ns st)
  show ?case
  proof (cases "rh_applied (pl_hist pl n)")
    case False
    then show ?thesis using 2 by simp
  next
    case True
    let ?P = "transition env ResourceApplied priorText (settle ResourceApplied ())"
    obtain q u where q: "run ?P ops (node_index pl (ch_key n)) st = Some (q, u)"
      using "2.prems"(1, 2) True by (auto split: option.splits)
    have "ch_key n \<in> ch_key ` set (pl_nodes pl)" using "2.prems"(4) by auto
    then have i: "node_index pl (ch_key n) < length (ar_Resources (ss_Rec st))"
      unfolding "2.prems"(5) by (rule node_index_less)
    have w: "watched ?P flight_monitor (False, False)"
      by (intro flight.transition_ok flight.settle_ok) simp
    have u: "saved_ok u \<and> later ops st u" by (rule run_flight [OF q w i "2.prems"(3)])
    show ?thesis
    proof (cases q)
      case (Inl e)
      then show ?thesis using "2.prems"(1, 2) True q u by simp
    next
      case (Inr v)
      then have rest: "passThrough env pl ns u = Some (r, st')" using "2.prems"(1, 2) True q by simp
      have "length (ar_Resources (ss_Rec u)) = length (pl_nodes pl)"
        using u "2.prems"(5) unfolding later_def by (metis length_map)
      then have "saved_ok st' \<and> later ops u st'"
        using "2.IH"(2) [OF _ _ refl _ rest] True q Inr u "2.prems"(2, 4) by (simp add: option.case_eq_if)
      then show ?thesis using u later_trans by blast
    qed
  qed
qed simp

lemma beginChange_flight:
  assumes "beginChange env pool src p s w = Some (Inr (pl, startedAt, x), s', w')" "en_ops env = ops" "ok s"
  shows "\<exists>att. flight_inv pl (p_ID p) att x"
proof -
  obtain nodes attempts r s1 w2 st u where b: "BeginApply ops s (p_ID p) = Inr (r, s1)" "pl = planOf attempts nodes"
    and st: "passThrough env pl nodes (newRecorder s1 w2 (r\<lparr>ar_Resources := map (\<lambda>n. freshEntry (ch_addr n)) nodes\<rparr>) (pl_seed pl))
      = Some (Inr u, st)" "x = walk_start pl st"
    using beginChange_parts [OF assms(1)] unfolding assms(2) by metis
  let ?st = "newRecorder s1 w2 (r\<lparr>ar_Resources := map (\<lambda>n. freshEntry (ch_addr n)) nodes\<rparr>) (pl_seed pl)"
  have r: "ar_Proposal r = p_ID p" "ar_Resources r = []" "writeApplyFile ops s r = Inr s1"
    using b(1) by (auto simp: BeginApply_def res_simps Let_def)
  then have s1: "ok s1" "so_ReadApply ops s1 (p_ID p) (ar_Attempt r) = Inr (ApplyBlob r)"
    using apply_write [OF assms(3), of "ar_Proposal r" "ar_Attempt r" "ApplyBlob r"] by (auto simp: writeApplyFile_def)
  have ok0: "saved_ok ?st" using s1 r by (auto simp: saved_ok_def newRecorder_def saved_at_def)
  have nodes: "pl_nodes pl = nodes" by (simp add: b(2) planOf_def)
  have "saved_ok st \<and> later ops ?st st"
    by (rule passThrough_flight [OF st(1) assms(2) ok0]) (simp_all add: nodes newRecorder_def)
  then show ?thesis unfolding st(2)
    by (intro exI [of _ "ar_Attempt r"])
      (auto simp: flight_inv_def walk_start_def procs_def nodes later_def newRecorder_def r readyAtStart_def freshEntry_def comp_def)
qed

end

lemma node_of_index: "k \<in> ch_key ` set (pl_nodes pl) \<Longrightarrow> ch_key (pl_nodes pl ! node_index pl k) = k"
  using node_of_key by (simp add: node_of_def)

text \<open>
  C12. In every state a concurrent ship of a change can reach, a goroutine that is about to change a
  resource has its entry in flight in the saved record of this attempt: whatever runs beside it, and
  wherever the process dies, the ledger says so before the provider is asked.
\<close>

theorem git_in_flight_first:
  assumes "beginChange env pool src p g w = Some (Inr (pl, startedAt, x), g1, w1)" "en_ops env = git_ops" "git_ok g"
    and "(walk_step env pool src p maxParallel pl)\<^sup>*\<^sup>* x y"
    and "(k, ApplyChange prior planned f) \<in> set (wk_running y)"
  shows "\<exists>r ra. git_ReadApply (ss_Store (wk_st y)) (p_ID p) (ar_Attempt (ss_Rec (wk_st y))) = Inr (ApplyBlob r) \<and>
    ra \<in> set (ar_Resources r) \<and> addr_String (rap_Address ra) = k \<and> everInFlight ra"
proof -
  obtain att where x: "gita.flight_inv pl (p_ID p) att x"
    using gita.beginChange_flight [OF assms(1-3)] by blast
  have y: "gita.flight_inv pl (p_ID p) att y" by (rule gita.walk_steps_flight [OF assms(4) x assms(2)])
  let ?i = "node_index pl k" let ?P = "ApplyChange prior planned f"
  have k: "k \<in> ch_key ` set (pl_nodes pl)" "flight_ok git_ops ?i ?P (wk_st y)"
    using y assms(5) unfolding gita.flight_inv_def procs_def by (metis Un_iff fst_conv set_append snd_conv)+
  obtain a b where "watched ?P flight_monitor (a, b)" "b \<longrightarrow> saved_at git_ops (wk_st y) ?i"
    using k(2) by (auto simp: flight_ok_def)
  moreover obtain v Q v' where "f v = (Q, v')" by fastforce
  ultimately have "saved_at git_ops (wk_st y) ?i" by (fastforce simp: flight_monitor_def)
  then obtain r where r: "git_ReadApply (ss_Store (wk_st y)) (ar_Proposal (ss_Rec (wk_st y))) (ar_Attempt (ss_Rec (wk_st y))) = Inr (ApplyBlob r)"
    "map rap_Address (ar_Resources r) = map rap_Address (ar_Resources (ss_Rec (wk_st y)))"
    "?i < length (ar_Resources r)" "everInFlight (ar_Resources r ! ?i)"
    by (auto simp: saved_at_def)
  have "rap_Address (ar_Resources r ! ?i) = ch_addr (pl_nodes pl ! ?i)"
  proof -
    have "map rap_Address (ar_Resources r) = map ch_addr (pl_nodes pl)" using r(2) y by (simp add: gita.flight_inv_def)
    then show ?thesis using r(3) by (metis length_map nth_map)
  qed
  then have "addr_String (rap_Address (ar_Resources r ! ?i)) = k" using node_of_index [OF k(1)] by simp
  then show ?thesis using r y nth_mem [OF r(3)]
    by (intro exI [of _ r] exI [of _ "ar_Resources r ! ?i"]) (auto simp: gita.flight_inv_def)
qed

section \<open>A sample walk\<close>

definition sample_acceptance :: Acceptance where
  "sample_acceptance = \<lparr>ac_Method = ''merge'', ac_Platform = [], ac_MergeSHA = [], ac_PRNumber = 0, ac_ProposalFile = [],
     ac_Approvers = [], ac_ReviewComment = [], ac_AcceptedAt = []\<rparr>"

definition sample_one :: Proposal where
  "sample_one = (change_with \<lparr>d_Creates = [Some (sample_create ''a'' [] GNil)], d_Modifies = [], d_Destroys = []\<rparr> [])
     \<lparr>p_ID := sample_sha [], p_Acceptance := Some sample_acceptance\<rparr>"

abbreviation sample_pool :: "(bool, unit) ApplierPool" where
  "sample_pool \<equiv> SingleApplierPool sample_app None"

lemma sample_one_nodes: "changeNodesOf sample_one = Inr [sample_cnode ''a'' []]"
  by code_simp

text \<open>So many steps of one program.\<close>

fun step_many ::
    "nat \<Rightarrow> 's store_ops \<Rightarrow> nat \<Rightarrow> ('s, 'w, 'r) prog \<Rightarrow> ('s, 'w) shipState \<Rightarrow> (('s, 'w, 'r) prog \<times> ('s, 'w) shipState) option" where
  "step_many 0 ops i P st = Some (P, st)"
| "step_many (Suc n) ops i P st = (case step_prog ops i P st of None \<Rightarrow> None | Some (Q, st') \<Rightarrow> step_many n ops i Q st')"

lemma works_many:
  "step_many n (en_ops env) (node_index pl k) P (wk_st x) = Some (Q, st') \<Longrightarrow> wk_running x = us @ (k, P) # vs \<Longrightarrow>
   (walk_step env pool src p m pl)\<^sup>*\<^sup>* x (x\<lparr>wk_running := us @ (k, Q) # vs, wk_st := st'\<rparr>)"
proof (induction n arbitrary: P x)
  case 0
  then have "x\<lparr>wk_running := us @ (k, Q) # vs, wk_st := st'\<rparr> = x" by (cases x) auto
  then show ?case by simp
next
  case (Suc n)
  then obtain R u where r: "step_prog (en_ops env) (node_index pl k) P (wk_st x) = Some (R, u)"
    "step_many n (en_ops env) (node_index pl k) R u = Some (Q, st')"
    by (auto split: option.splits)
  let ?y = "x\<lparr>wk_running := us @ (k, R) # vs, wk_st := u\<rparr>"
  have "walk_step env pool src p m pl x ?y" by (rule works [OF Suc.prems(2) r(1)])
  moreover have "(walk_step env pool src p m pl)\<^sup>*\<^sup>* ?y (?y\<lparr>wk_running := us @ (k, Q) # vs, wk_st := st'\<rparr>)"
    by (rule Suc.IH) (use r(2) in auto)
  ultimately show ?case by (simp add: converse_rtranclp_into_rtranclp)
qed

lemma step_ask: "step_prog ops i (ask f k) st = (case f (ss_World st) of (a, w) \<Rightarrow> Some (k a, st\<lparr>ss_World := w\<rparr>))"
  by (simp add: ask_def step_prog_def split: prod.split)

lemma step_simps:
  "step_prog ops i (Mutate f Q) st = Some (Q, mutate_entry i f st)" "step_prog ops i (Tally x Q) st = Some (Q, tally x st)"
  "step_prog ops i (Persist Q) st = (case persist ops st of Inl e \<Rightarrow> Some (Done (Inl e), st) | Inr st' \<Rightarrow> Some (Q, st'))"
  "step_prog ops i (applyChange prior planned g k) st = (case g (ss_World st) of (a, w) \<Rightarrow> Some (k a, st\<lparr>ss_World := w\<rparr>))"
  by (simp_all add: step_prog_def applyChange_def split: prod.split)

lemma git_persist: "\<not> Sealed (ss_Rec st) \<Longrightarrow> persist git_ops st = Inr (st\<lparr>ss_Store := (ss_Store st)\<lparr>gs_Applies :=
    aput (ar_Proposal (ss_Rec st), ar_Attempt (ss_Rec st)) (ApplyBlob (ss_Rec st)) (gs_Applies (ss_Store st))\<rparr>\<rparr>)"
  by (simp add: persist_def SaveApplyProgress_def writeApplyFile_def git_WriteApply_def)

definition sample_plan :: plan where
  "sample_plan = planOf [] [sample_cnode ''a'' []]"

definition sample_start :: "(git_store, bool) shipState" where
  "sample_start = newRecorder (git_empty\<lparr>gs_Applies := [((sample_sha [], 1), ApplyBlob (sample_record []))]\<rparr>) False
     (sample_record [Address ''s'' ''t'' ''a'']) []"

lemma sample_begin:
  "beginChange sample_env sample_pool [] sample_one git_empty False =
     Some (Inr (sample_plan, ''t'', walk_start sample_plan sample_start), ss_Store sample_start, False)"
proof -
  have none: "ApplyAttempts git_ops git_empty (sample_sha []) = Inr []"
    by (simp add: ApplyAttempts_def git_ListApplyAttempts_def git_empty_def)
  have e: "gs_Applies git_empty = []" by (simp add: git_empty_def)
  have begun: "BeginApply git_ops git_empty (sample_sha []) = Inr (sample_record [], ss_Store sample_start)"
    by (simp add: BeginApply_def none writeApplyFile_def git_WriteApply_def nextAttempt_def lastSealed_def Let_def
      sample_record_def ApplyRecordSchemaVersion_def sample_start_def newRecorder_def e)
  have seed: "seedOf [] [sample_cnode ''a'' []] = []"
    by (simp add: seedOf_def foldResourceHistory_def entriesFor_def rh_applied_def latest_def)
  have st: "newRecorder (ss_Store sample_start) False
      ((sample_record [])\<lparr>ar_Resources := map (\<lambda>n. freshEntry (ch_addr n)) [sample_cnode ''a'' []]\<rparr>) [] = sample_start"
    by (simp add: sample_start_def sample_record_def newRecorder_def freshEntry_def sample_cnode_def createChange_def)
  have world: "ss_World sample_start = False" by (simp add: sample_start_def newRecorder_def)
  have p: "p_Acceptance sample_one = Some sample_acceptance" "p_ID sample_one = sample_sha []" "rs_Inputs (p_Resolution sample_one) = []"
    by (simp_all add: sample_one_def change_with_def sample_proposal_def)
  have no: "\<not> rh_applied (foldResourceHistory [] a)" for a
    by (simp add: foldResourceHistory_def entriesFor_def rh_applied_def latest_def)
  show ?thesis
    unfolding beginChange_def sample_one_nodes dataSourcesChecked_def p(2, 3)
    by (simp add: p(1) oret_def sample_env_def none allAddressesApplied_def no begun sample_plan_def planOf_def seed st [simplified]
      Let_def world)
qed

abbreviation sample_step :: "(git_store, bool) walk \<Rightarrow> (git_store, bool) walk \<Rightarrow> bool" where
  "sample_step \<equiv> walk_step sample_env sample_pool [] sample_one 10 sample_plan"

definition sample_work :: "(git_store, bool, unit) prog" where
  "sample_work = nodeProg sample_env sample_pool [] sample_one (sample_cnode ''a'' []) []
     (foldResourceHistory [] (Address ''s'' ''t'' ''a''))"

lemma sample_running:
  "\<exists>x. sample_step\<^sup>*\<^sup>* (walk_start sample_plan sample_start) x \<and> wk_st x = sample_start \<and>
     wk_running x = [(''s.t.a'', sample_work)]"
proof -
  let ?x = "walk_start sample_plan sample_start"
  have no: "\<not> rh_applied (foldResourceHistory [] a)" for a
    by (simp add: foldResourceHistory_def entriesFor_def rh_applied_def latest_def)
  have nodes: "pl_nodes sample_plan = [sample_cnode ''a'' []]" "pl_attempts sample_plan = []"
    by (simp_all add: sample_plan_def planOf_def)
  have key: "ch_addr (sample_cnode ''a'' []) = Address ''s'' ''t'' ''a''" "ch_dependsOn (sample_cnode ''a'' []) = []"
    by (simp_all add: sample_cnode_def createChange_def)
  have addr: "addr_String (Address ''s'' ''t'' ''a'') = ''s.t.a''" by (simp add: addr_String_def)
  have node: "node_of sample_plan ''s.t.a'' = sample_cnode ''a'' []"
    by (simp add: node_of_def node_index_def nodes key addr)
  have todo: "wk_todo ?x = [''s.t.a'']"
    by (simp add: walk_start_def readyAtStart_def nodes unseeded_def key addr no)
  have main: "wk_main ?x = None" "wk_waiting ?x = []" "wk_running ?x = []" "wk_st ?x = sample_start"
    by (simp_all add: walk_start_def)
  have missing: "missingDep sample_plan ''s.t.a'' (wk_st ?x) = None" by (simp add: missingDep_def node key)
  have results: "ss_Results sample_start = []" by (simp add: sample_start_def newRecorder_def)
  let ?y = "?x\<lparr>wk_todo := [], wk_waiting := [(''s.t.a'', sample_work)]\<rparr>"
  have xy: "sample_step ?x ?y"
    using launches [OF main(1) todo missing, of sample_env sample_pool "[]" sample_one 10]
    by (simp add: main node results nodes key sample_work_def)
  let ?z = "?y\<lparr>wk_waiting := [], wk_running := [(''s.t.a'', sample_work)]\<rparr>"
  have yz: "sample_step ?y ?z"
    using acquires [of ?y "[]" "''s.t.a''" sample_work "[]" 10 sample_env sample_pool "[]" sample_one sample_plan] by (simp add: main)
  have "sample_step\<^sup>*\<^sup>* ?x ?z" by (rule converse_rtranclp_into_rtranclp [of sample_step, OF xy r_into_rtranclp [of sample_step, OF yz]])
  then show ?thesis by (intro exI [of _ ?z]) (simp add: main)
qed

lemma sample_applying:
  "\<exists>f st. step_many 8 git_ops 0 sample_work sample_start = Some (ApplyChange (Some GNil) (Some GNil) f, st)"
proof -
  have hist: "foldResourceHistory [] a = \<lparr>rh_lastState = None, rh_attemptsInFlight = 0, rh_lastProviderResult = None,
      rh_lastReconciliationOutcome = [], rh_lastApplyClaimedSuccess = False\<rparr>" for a
    by (simp add: foldResourceHistory_def entriesFor_def latest_def Let_def)
  show ?thesis
    unfolding sample_work_def nodeProg_def shipCreate_def createCall_def transition_def hist
    by (simp add: numeral_eq_Suc step_ask step_simps sample_env_def sample_app_def SingleApplierPool_def oret_def sample_cnode_def
      createChange_def maxApplyAttemptsPerResource_def unmarshal_any_def git_persist mutate_entry_def Sealed_def
      sample_start_def newRecorder_def sample_record_def applyChange_def)
qed

lemma git_in_flight_first_witness:
  "\<exists>y f r ra. sample_step\<^sup>*\<^sup>* (walk_start sample_plan sample_start) y \<and>
    (''s.t.a'', ApplyChange (Some GNil) (Some GNil) f) \<in> set (wk_running y) \<and>
    git_ReadApply (ss_Store (wk_st y)) (p_ID sample_one) (ar_Attempt (ss_Rec (wk_st y))) = Inr (ApplyBlob r) \<and>
    ra \<in> set (ar_Resources r) \<and> addr_String (rap_Address ra) = ''s.t.a'' \<and> everInFlight ra"
proof -
  obtain x where x: "sample_step\<^sup>*\<^sup>* (walk_start sample_plan sample_start) x" "wk_st x = sample_start"
    "wk_running x = [] @ (''s.t.a'', sample_work) # []"
    using sample_running by auto
  obtain f st where st: "step_many 8 git_ops 0 sample_work sample_start = Some (ApplyChange (Some GNil) (Some GNil) f, st)"
    using sample_applying by blast
  have idx: "node_index sample_plan ''s.t.a'' = 0"
    by (simp add: node_index_def sample_plan_def planOf_def sample_cnode_def createChange_def addr_String_def)
  have env: "en_ops sample_env = git_ops" by (simp add: sample_env_def)
  let ?y = "x\<lparr>wk_running := [] @ (''s.t.a'', ApplyChange (Some GNil) (Some GNil) f) # [], wk_st := st\<rparr>"
  have "sample_step\<^sup>*\<^sup>* x ?y"
    by (rule works_many [where n = 8, OF _ x(3)]) (simp only: env idx x(2) st)
  then have y: "sample_step\<^sup>*\<^sup>* (walk_start sample_plan sample_start) ?y" using x(1) by simp
  have run: "(''s.t.a'', ApplyChange (Some GNil) (Some GNil) f) \<in> set (wk_running ?y)" by simp
  have ok: "git_ok git_empty" by (simp add: git_ok_def git_Head_def git_empty_def)
  show ?thesis using git_in_flight_first [OF sample_begin env ok y run] y run by blast
qed

end
