(* ===== verification/ShipSched.thy ===== *)
theory ShipSched
  imports ShipWalk
begin

text \<open>
  The scheduler of a concurrent ship: every node is launched once, when everything it depends on has
  been processed.
\<close>

section \<open>Plans\<close>

text \<open>
  What the walk relies on: the nodes' order, the results it is seeded with, and that no earlier attempt
  applied a node ahead of its dependencies.
\<close>

definition prior_ok :: "ApplyRecord list \<Rightarrow> changeNode list \<Rightarrow> bool" where
  "prior_ok attempts nodes \<longleftrightarrow> (\<forall>n \<in> set nodes. rh_applied (foldResourceHistory attempts (ch_addr n)) \<longrightarrow>
     (\<forall>d \<in> set (ch_dependsOn n). \<exists>m \<in> set nodes. ch_key m = d \<and> rh_applied (foldResourceHistory attempts (ch_addr m))))"

definition plan_ok :: "plan \<Rightarrow> bool" where
  "plan_ok pl \<longleftrightarrow> distinct (map ch_key (pl_nodes pl)) \<and>
     (\<forall>i < length (pl_nodes pl). \<forall>d \<in> set (ch_dependsOn (pl_nodes pl ! i)). \<exists>j < i. ch_key (pl_nodes pl ! j) = d) \<and>
     (\<forall>n \<in> set (pl_nodes pl). map_of (pl_seed pl) (ch_key n) \<noteq> None \<longleftrightarrow> rh_applied (pl_hist pl n)) \<and>
     (\<forall>n \<in> set (pl_nodes pl). rh_applied (pl_hist pl n) \<longrightarrow> unseeded pl n = [])"

abbreviation to_ship :: "plan \<Rightarrow> string set" where
  "to_ship pl \<equiv> ch_key ` set (toProcess pl)"

lemma seedOf_dom:
  "map_of (seedOf attempts ns) k \<noteq> None \<longleftrightarrow> (\<exists>n \<in> set ns. ch_key n = k \<and> rh_applied (foldResourceHistory attempts (ch_addr n)))"
  by (induction ns rule: rev_induct) (auto simp: seedOf_def Let_def)

lemma same_key_same_history: "ch_key n = ch_key m \<Longrightarrow> foldResourceHistory attempts (ch_addr n) = foldResourceHistory attempts (ch_addr m)"
  by (simp add: foldResourceHistory_def entriesFor_def)

lemma planOf_ok:
  assumes "changeNodesOf p = Inr nodes" "prior_ok attempts nodes"
  shows "plan_ok (planOf attempts nodes)"
proof -
  have seed: "map_of (seedOf attempts nodes) (ch_key n) \<noteq> None \<longleftrightarrow> rh_applied (foldResourceHistory attempts (ch_addr n))"
    if "n \<in> set nodes" for n
    unfolding seedOf_dom using that by (metis same_key_same_history)
  have "unseeded (planOf attempts nodes) n = []"
    if "n \<in> set nodes" "rh_applied (foldResourceHistory attempts (ch_addr n))" for n
    using that assms(2) seed by (fastforce simp: unseeded_def planOf_def prior_ok_def filter_empty_conv)
  then show ?thesis using changeNodesOf_sorted [OF assms(1)] seed by (auto simp: plan_ok_def planOf_def)
qed

section \<open>Releasing dependents\<close>

lemma release_spec:
  "release ks pending = (pending', todo) \<Longrightarrow>
     (\<forall>j. map_of pending' j = map_option (\<lambda>n. n - count_list ks j) (map_of pending j)) \<and>
     (\<forall>j. j \<in> set todo \<longleftrightarrow> (\<exists>n. map_of pending j = Some n \<and> 0 < n \<and> n \<le> count_list ks j)) \<and> distinct todo"
proof (induction ks arbitrary: pending pending' todo)
  case Nil
  then show ?case by (auto simp: map_option.id [unfolded id_def])
next
  case (Cons k ks)
  let ?n = "case map_of pending k of None \<Rightarrow> 0 | Some n \<Rightarrow> n"
  let ?p = "map (\<lambda>b. if fst b = k then (k, ?n - 1) else b) pending"
  obtain t where t: "release ks ?p = (pending', t)" "todo = (if ?n = 1 then k # t else t)"
    using Cons.prems by (auto simp: Let_def split: prod.splits)
  have p: "map_of ?p j = (if j = k then map_option (\<lambda>n. n - 1) (map_of pending k) else map_of pending j)" for j
  proof -
    have "map_of (map (\<lambda>b. if fst b = k then (k, v) else b) m) j =
        (if j = k then map_option (\<lambda>_. v) (map_of m k) else map_of m j)" for v and m :: "(string \<times> nat) list"
      by (induction m) auto
    then show ?thesis by (cases "map_of pending k") auto
  qed
  note ih = Cons.IH [OF t(1)]
  have "map_of pending' j = map_option (\<lambda>n. n - count_list (k # ks) j) (map_of pending j)" for j
    using ih p [of j] by (cases "map_of pending j") (auto simp: option.map_comp comp_def)
  moreover have "j \<in> set t \<longleftrightarrow> (\<exists>n. map_of ?p j = Some n \<and> 0 < n \<and> n \<le> count_list ks j)" for j
    using ih by blast
  then have "j \<in> set todo \<longleftrightarrow> (\<exists>n. map_of pending j = Some n \<and> 0 < n \<and> n \<le> count_list (k # ks) j)" for j
    using t(2) p [of j] by (cases "map_of pending j"; cases "j = k") auto
  moreover have "distinct todo" using ih t(2) p [of k] by (cases "map_of pending k") auto
  ultimately show ?case by blast
qed

lemma count_dependents:
  assumes "distinct (map ch_key (pl_nodes pl))" "n \<in> set (pl_nodes pl)"
  shows "count_list (dependentsOf pl d) (ch_key n) = count_list (unseeded pl n) d"
proof -
  have c: "count_list (concat (map (\<lambda>n. map (\<lambda>_. ch_key n) (filter (\<lambda>e. e = d) (unseeded pl n))) ns)) (ch_key n) =
      (if n \<in> set ns then count_list (unseeded pl n) d else 0)"
    if "distinct (map ch_key ns)" "set ns \<subseteq> set (pl_nodes pl)" for ns
    using that
  proof (induction ns)
    case (Cons m ns)
    have e: "count_list (map (\<lambda>_. ch_key m) (filter (\<lambda>e. e = d) xs)) (ch_key n) =
        (if ch_key m = ch_key n then count_list xs d else 0)" for xs
      by (induction xs) auto
    have "ch_key m = ch_key n \<longleftrightarrow> m = n"
      using assms Cons.prems(2) by (auto simp: distinct_map inj_on_def)
    then show ?case using Cons e by auto
  qed simp
  have s: "count_list (sort xs) y = count_list xs y" for xs and y :: string
    by (metis count_list_def filter_sort length_sort sorted_sort_id sort_key_id_if_sorted count_mset mset_sort)
  show ?thesis unfolding dependentsOf_def s using c [OF assms(1)] assms(2) by simp
qed

section \<open>Every node once, when its dependencies are processed\<close>

text \<open>
  The keys that were launched or are about to be: waiting to be launched, launched, done, processed (\<open>R\<close>)
  or failed for good (\<open>F\<close>).
\<close>

definition launched :: "('s, 'w) walk \<Rightarrow> string list \<Rightarrow> string list \<Rightarrow> string list" where
  "launched x R F = wk_todo x @ map fst (procs x) @ wk_done x @ R @ F"

definition sched_inv :: "plan \<Rightarrow> ('s, 'w) walk \<Rightarrow> string list \<Rightarrow> string list \<Rightarrow> bool" where
  "sched_inv pl x R F \<longleftrightarrow> distinct (launched x R F) \<and> set (launched x R F) \<subseteq> to_ship pl \<and>
     length R = wk_processed x \<and> length (wk_fatal x) + (if wk_abort x = None then 0 else 1) = length F \<and>
     (\<forall>n \<in> set (pl_nodes pl). map_of (wk_pending x) (ch_key n) = Some (length (filter (\<lambda>d. d \<notin> set R) (unseeded pl n)))) \<and>
     (\<forall>n \<in> set (toProcess pl). ch_key n \<in> set (launched x R F) \<longleftrightarrow> set (unseeded pl n) \<subseteq> set R)"

text \<open>A step that only moves keys along.\<close>

lemma sched_moves:
  assumes "sched_inv pl x R F" "distinct (launched y R G)" "set (launched y R G) = set (launched x R F)"
    and "wk_pending y = wk_pending x" "wk_processed y = wk_processed x"
    and "length (wk_fatal y) + (if wk_abort y = None then 0 else 1) = length G"
  shows "sched_inv pl y R G"
  using assms unfolding sched_inv_def by metis

lemma toProcess_nodes: "n \<in> set (toProcess pl) \<longleftrightarrow> n \<in> set (pl_nodes pl) \<and> \<not> rh_applied (pl_hist pl n)"
  by (auto simp: toProcess_def)

lemma key_unique: "plan_ok pl \<Longrightarrow> n \<in> set (pl_nodes pl) \<Longrightarrow> m \<in> set (pl_nodes pl) \<Longrightarrow> ch_key n = ch_key m \<Longrightarrow> n = m"
  by (auto simp: plan_ok_def distinct_map inj_on_def)

lemma to_ship_node: "plan_ok pl \<Longrightarrow> n \<in> set (pl_nodes pl) \<Longrightarrow> ch_key n \<in> to_ship pl \<longleftrightarrow> n \<in> set (toProcess pl)"
  unfolding image_iff Bex_def toProcess_nodes by (metis key_unique)

lemma unseeded_to_ship:
  assumes "plan_ok pl" "n \<in> set (pl_nodes pl)" "d \<in> set (unseeded pl n)"
  shows "d \<in> to_ship pl"
proof -
  obtain i where i: "i < length (pl_nodes pl)" "pl_nodes pl ! i = n" using assms(2) by (auto simp: in_set_conv_nth)
  have "d \<in> set (ch_dependsOn (pl_nodes pl ! i))" using assms(3) i(2) by (simp add: unseeded_def)
  then obtain j where j: "j < i" "ch_key (pl_nodes pl ! j) = d"
    using assms(1) i(1) unfolding plan_ok_def by metis
  then have m: "pl_nodes pl ! j \<in> set (pl_nodes pl)" using i(1) by simp
  then have "\<not> rh_applied (pl_hist pl (pl_nodes pl ! j))"
    using assms(1, 3) j(2) by (auto simp: plan_ok_def unseeded_def)
  then show ?thesis using m j(2) by (auto simp: toProcess_nodes)
qed

lemma sched_start: "plan_ok pl \<Longrightarrow> sched_inv pl (walk_start pl st) [] []"
proof -
  assume ok: "plan_ok pl"
  have dist: "distinct (map ch_key (filter P (pl_nodes pl)))" for P
    using ok by (simp add: plan_ok_def distinct_map_filter)
  have pend: "map_of (pendingOf pl) (ch_key n) = Some (length (unseeded pl n))" if "n \<in> set (pl_nodes pl)" for n
    using ok that unfolding pendingOf_def plan_ok_def
    by (intro map_of_is_SomeI) (auto simp: comp_def)
  have "ch_key n \<in> set (readyAtStart pl) \<longleftrightarrow> unseeded pl n = []" if "n \<in> set (toProcess pl)" for n
    using that key_unique [OF ok] by (auto simp: readyAtStart_def toProcess_nodes image_iff)
  then show ?thesis using dist pend
    by (auto simp: sched_inv_def launched_def walk_start_def procs_def readyAtStart_def toProcess_nodes)
qed

lemma filter_count: "length (filter (\<lambda>d. d \<notin> insert k S) xs) = length (filter (\<lambda>d. d \<notin> S) xs) - count_list xs k" if "k \<notin> S"
  using that
proof (induction xs)
  case (Cons y ys)
  have "count_list ys k \<le> length (filter (\<lambda>d. d \<notin> S) ys)"
    using \<open>k \<notin> S\<close> by (induction ys) auto
  then show ?case using Cons by (auto simp: Suc_diff_le)
qed simp

lemma count_filter: "count_list xs k \<le> length (filter (\<lambda>d. d \<notin> S) xs)" if "k \<notin> S"
  using that by (induction xs) auto

lemma sched_receive:
  assumes ok: "plan_ok pl" and inv: "sched_inv pl x R F"
    and x: "wk_todo x = []" "wk_done x = k # ks" "release (dependentsOf pl k) (wk_pending x) = (pending, todo)"
    and y: "y = x\<lparr>wk_done := ks, wk_processed := wk_processed x + 1, wk_pending := pending, wk_todo := todo\<rparr>"
  shows "sched_inv pl y (R @ [k]) F"
proof -
  have kR: "k \<notin> set R" using inv x(2) by (auto simp: sched_inv_def launched_def)
  note spec = release_spec [OF x(3)]
  have pend: "map_of (wk_pending x) (ch_key n) = Some (length (filter (\<lambda>d. d \<notin> set R) (unseeded pl n)))"
    if "n \<in> set (pl_nodes pl)" for n using inv that by (simp add: sched_inv_def)
  have cnt: "count_list (dependentsOf pl k) (ch_key n) = count_list (unseeded pl n) k" if "n \<in> set (pl_nodes pl)" for n
    using count_dependents ok that by (simp add: plan_ok_def)
  have pend': "map_of pending (ch_key n) = Some (length (filter (\<lambda>d. d \<notin> set (R @ [k])) (unseeded pl n)))"
    if n: "n \<in> set (pl_nodes pl)" for n
    using spec pend [OF n] cnt [OF n] filter_count [OF kR, of "unseeded pl n"] by simp
  have todo: "ch_key n \<in> set todo \<longleftrightarrow> \<not> set (unseeded pl n) \<subseteq> set R \<and> set (unseeded pl n) \<subseteq> insert k (set R)"
    if n: "n \<in> set (pl_nodes pl)" for n
  proof -
    let ?l = "length (filter (\<lambda>d. d \<notin> set R) (unseeded pl n))"
    have "ch_key n \<in> set todo \<longleftrightarrow> 0 < ?l \<and> ?l - count_list (unseeded pl n) k = 0"
      using spec pend [OF n] cnt [OF n] by simp
    also have "0 < ?l \<longleftrightarrow> \<not> set (unseeded pl n) \<subseteq> set R" by (auto simp: filter_empty_conv)
    also have "?l - count_list (unseeded pl n) k = 0 \<longleftrightarrow> set (unseeded pl n) \<subseteq> insert k (set R)"
      unfolding filter_count [OF kR, symmetric] by (auto simp: filter_empty_conv)
    finally show ?thesis .
  qed
  have keys: "j \<in> ch_key ` set (pl_nodes pl)" if "j \<in> set todo" for j
    using release_todo [OF x(3)] set_dependentsOf [of pl k] that by blast
  have sub: "set todo \<subseteq> to_ship pl"
  proof
    fix j assume "j \<in> set todo"
    then obtain n where n: "n \<in> set (pl_nodes pl)" "j = ch_key n" using keys by blast
    then have "unseeded pl n \<noteq> []" using todo [OF n(1)] \<open>j \<in> set todo\<close> by auto
    then show "j \<in> to_ship pl" using n ok by (auto simp: toProcess_nodes plan_ok_def)
  qed
  have old: "ch_key n \<in> set (launched x R F) \<longleftrightarrow> set (unseeded pl n) \<subseteq> set R" if "n \<in> set (toProcess pl)" for n
    using inv that by (simp add: sched_inv_def)
  have new: "set todo \<inter> set (launched x R F) = {}"
  proof (intro equals0I, elim IntE)
    fix j assume j: "j \<in> set todo" "j \<in> set (launched x R F)"
    then obtain n where n: "n \<in> set (toProcess pl)" "j = ch_key n" using sub by blast
    then show False using todo [of n] old [OF n(1)] j by (simp add: toProcess_nodes)
  qed
  have set: "set (launched y (R @ [k]) F) = set todo \<union> set (launched x R F)"
    using x(1, 2) by (auto simp: launched_def y procs_def)
  have "distinct (launched y (R @ [k]) F)"
    using inv spec new x(1, 2) by (auto simp: sched_inv_def launched_def y procs_def)
  moreover have "ch_key n \<in> set (launched y (R @ [k]) F) \<longleftrightarrow> set (unseeded pl n) \<subseteq> set (R @ [k])"
    if n: "n \<in> set (toProcess pl)" for n
    using todo [of n] old [OF n] n unfolding set by (auto simp: toProcess_nodes)
  ultimately show ?thesis using inv sub pend' set
    by (simp add: sched_inv_def y)
qed

lemma walk_step_sched:
  assumes "walk_step env pool src p m pl x y" "plan_ok pl" "sched_inv pl x R F"
  shows "\<exists>R' F'. sched_inv pl y R' F' \<and> set (wk_done x @ R) \<subseteq> set (wk_done y @ R')"
proof -
  have d: "distinct (launched x R F)" and l: "length (wk_fatal x) + (if wk_abort x = None then 0 else 1) = length F"
    using assms(3) by (simp_all add: sched_inv_def)
  note move = sched_moves [OF assms(3)]
  have goal: ?thesis if "sched_inv pl y R' F'" "set (wk_done x @ R) \<subseteq> set (wk_done y @ R')" for R' F'
    using that by blast
  show ?thesis using assms(1)
  proof cases
    case (unrecorded k e)
    have "sched_inv pl y R (F @ [k])"
      by (rule move) (use d l in \<open>auto simp: unrecorded launched_def procs_def\<close>)
    then show ?thesis by (rule goal) (auto simp: unrecorded)
  next
    case (fails us k e vs)
    have "sched_inv pl y R (F @ [k])"
      by (rule move) (use d l in \<open>auto simp: fails launched_def procs_def\<close>)
    then show ?thesis by (rule goal) (auto simp: fails)
  next
    case (receives k ks pending todo)
    have "sched_inv pl y (R @ [k]) F"
      by (rule sched_receive [OF assms(2, 3) receives(3, 6, 7) receives(1)])
    then show ?thesis by (rule goal) (auto simp: receives)
  next
    case (blocks k ks d)
    have "sched_inv pl y R F"
      by (rule move) (use d l in \<open>auto simp: blocks launched_def procs_def\<close>)
    then show ?thesis by (rule goal) (auto simp: blocks)
  next
    case (launches k ks)
    have "sched_inv pl y R F"
      by (rule move) (use d l in \<open>auto simp: launches launched_def procs_def\<close>)
    then show ?thesis by (rule goal) (auto simp: launches)
  next
    case (records k P Q st')
    have "sched_inv pl y R F"
      by (rule move) (use d l in \<open>auto simp: records launched_def procs_def\<close>)
    then show ?thesis by (rule goal) (auto simp: records)
  next
    case (recorded k)
    have "sched_inv pl y R F"
      by (rule move) (use d l in \<open>auto simp: recorded launched_def procs_def\<close>)
    then show ?thesis by (rule goal) (auto simp: recorded)
  next
    case (acquires us k P vs)
    have "sched_inv pl y R F"
      by (rule move) (use d l in \<open>auto simp: acquires launched_def procs_def\<close>)
    then show ?thesis by (rule goal) (auto simp: acquires)
  next
    case (works us k P vs Q st')
    have "sched_inv pl y R F"
      by (rule move) (use d l in \<open>auto simp: works launched_def procs_def\<close>)
    then show ?thesis by (rule goal) (auto simp: works)
  next
    case (finishes us k vs)
    have "sched_inv pl y R F"
      by (rule move) (use d l in \<open>auto simp: finishes launched_def procs_def\<close>)
    then show ?thesis by (rule goal) (auto simp: finishes)
  next
    case (aborts e es)
    have "sched_inv pl y R F"
      by (rule move) (use d l in \<open>auto simp: aborts launched_def procs_def\<close>)
    then show ?thesis by (rule goal) (auto simp: aborts)
  qed
qed

end
