(* ===== verification/ShipOrder.thy ===== *)
theory ShipOrder
  imports ShipSched
begin

text \<open>
  Nothing is shipped ahead of what it depends on: in every state of a walk, in the record in memory and
  in the saved one, a resource that went in flight or is applied has only applied dependencies.
\<close>

section \<open>Touched entries\<close>

definition touched :: "ResourceApply \<Rightarrow> bool" where
  "touched ra \<longleftrightarrow> everInFlight ra \<or> LastState ra = Some ResourceApplied"

definition deps_applied :: "changeNode list \<Rightarrow> ApplyRecord \<Rightarrow> bool" where
  "deps_applied nodes r \<longleftrightarrow> (\<forall>n \<in> set nodes. \<forall>ra \<in> set (ar_Resources r).
     addr_String (rap_Address ra) = ch_key n \<and> touched ra \<longrightarrow>
     (\<forall>d \<in> set (ch_dependsOn n). \<exists>rb \<in> set (ar_Resources r).
        addr_String (rap_Address rb) = d \<and> LastState rb = Some ResourceApplied))"

text \<open>A program that never touches its entry.\<close>

definition quiet_monitor :: "(unit, 's, 'w) monitor" where
  "quiet_monitor = \<lparr>
     mn_ok = (\<lambda>m e. case e of EMut f \<Rightarrow> \<forall>ra. \<not> touched ra \<longrightarrow> \<not> touched (f ra) | _ \<Rightarrow> True),
     mn_next = (\<lambda>m e. m)\<rparr>"

lemma failSync_quiet: "watched (failSync env message) quiet_monitor ()"
  by (auto simp: failSync_def transition_def failWith_def recordErr_def settle_def ask_def quiet_monitor_def touched_def
      everInFlight_def LastState_def add_transition_def add_error_def split: prod.splits)

lemma entry_mutate:
  "i < length (ar_Resources (ss_Rec st)) \<Longrightarrow>
   entry_at j (mutate_entry i f st) = (if j = i then f (entry_at i st) else entry_at j st)"
  by (simp add: entry_at_def mutate_entry_def)

text \<open>What a step of a program leaves alone.\<close>

lemma step_cases:
  assumes "step_prog ops i P st = Some (Q, st')"
  shows "(\<exists>f. P = Mutate f Q \<and> st' = mutate_entry i f st) \<or>
    (ss_Results st' = ss_Results st \<and> ss_Rec st' = ss_Rec st \<and>
     (watched P quiet_monitor () \<longrightarrow> watched Q quiet_monitor ()))"
proof (cases P)
  case (Tally x R)
  then show ?thesis using assms by (cases x) (auto simp: step_prog_def tally_def quiet_monitor_def)
next
  case (Persist R)
  then show ?thesis using assms by (auto simp: step_prog_def persist_def res_simps quiet_monitor_def split: sum.splits)
next
  case (Ask g)
  then show ?thesis using assms by (fastforce simp: step_prog_def quiet_monitor_def)
next
  case (ApplyChange prior planned g)
  then show ?thesis using assms by (fastforce simp: step_prog_def quiet_monitor_def split: prod.splits)
qed (use assms in \<open>simp_all add: step_prog_def\<close>)

lemma step_entries:
  assumes "step_prog ops i P st = Some (Q, st')" "i < length (ar_Resources (ss_Rec st))"
  shows "ss_Results st' = ss_Results st" "length (ar_Resources (ss_Rec st')) = length (ar_Resources (ss_Rec st))"
    "j \<noteq> i \<Longrightarrow> entry_at j st' = entry_at j st"
    "watched P quiet_monitor () \<Longrightarrow> watched Q quiet_monitor () \<and> (touched (entry_at i st') \<longrightarrow> touched (entry_at i st))"
proof -
  consider (mut) f where "P = Mutate f Q" "st' = mutate_entry i f st"
    | (same) "ss_Results st' = ss_Results st" "ss_Rec st' = ss_Rec st" "watched P quiet_monitor () \<longrightarrow> watched Q quiet_monitor ()"
    using step_cases [OF assms(1)] by blast
  then have "ss_Results st' = ss_Results st \<and> length (ar_Resources (ss_Rec st')) = length (ar_Resources (ss_Rec st)) \<and>
    (j \<noteq> i \<longrightarrow> entry_at j st' = entry_at j st) \<and>
    (watched P quiet_monitor () \<longrightarrow> watched Q quiet_monitor () \<and> (touched (entry_at i st') \<longrightarrow> touched (entry_at i st)))"
  proof cases
    case mut
    then show ?thesis using entry_mutate [OF assms(2)] by (auto simp: quiet_monitor_def) (simp_all add: mutate_entry_def)
  next
    case same
    then show ?thesis by (simp add: entry_at_def)
  qed
  then show "ss_Results st' = ss_Results st" "length (ar_Resources (ss_Rec st')) = length (ar_Resources (ss_Rec st))"
    "j \<noteq> i \<Longrightarrow> entry_at j st' = entry_at j st"
    "watched P quiet_monitor () \<Longrightarrow> watched Q quiet_monitor () \<and> (touched (entry_at i st') \<longrightarrow> touched (entry_at i st))"
    by blast+
qed

section \<open>The order\<close>

abbreviation entry_of :: "plan \<Rightarrow> string \<Rightarrow> ('s, 'w) shipState \<Rightarrow> ResourceApply" where
  "entry_of pl k st \<equiv> entry_at (node_index pl k) st"

definition results_ok :: "plan \<Rightarrow> string set \<Rightarrow> ('s, 'w) shipState \<Rightarrow> bool" where
  "results_ok pl fin st \<longleftrightarrow>
     (\<forall>k. hasResult k st \<longrightarrow>
        k \<in> ch_key ` set (pl_nodes pl) \<and> LastState (entry_of pl k st) = Some ResourceApplied \<and> (k \<in> to_ship pl \<longrightarrow> k \<in> fin)) \<and>
     (\<forall>n \<in> set (pl_nodes pl). rh_applied (pl_hist pl n) \<longrightarrow> hasResult (ch_key n) st)"

definition touched_ok :: "plan \<Rightarrow> ('s, 'w) shipState \<Rightarrow> bool" where
  "touched_ok pl st \<longleftrightarrow> (\<forall>n \<in> set (pl_nodes pl). touched (entry_of pl (ch_key n) st) \<longrightarrow>
     (\<forall>d \<in> set (ch_dependsOn n). hasResult d st))"

definition ready :: "plan \<Rightarrow> string \<Rightarrow> ('s, 'w) shipState \<Rightarrow> bool" where
  "ready pl k st \<longleftrightarrow> (\<forall>d \<in> set (ch_dependsOn (node_of pl k)). hasResult d st)"

definition order_inv :: "plan \<Rightarrow> ('s, 'w) walk \<Rightarrow> string list \<Rightarrow> string list \<Rightarrow> bool" where
  "order_inv pl x R F \<longleftrightarrow> sched_inv pl x R F \<and>
     length (ar_Resources (ss_Rec (wk_st x))) = length (pl_nodes pl) \<and>
     results_ok pl (set (wk_done x @ R)) (wk_st x) \<and> touched_ok pl (wk_st x) \<and>
     (\<forall>q \<in> set (wk_waiting x @ wk_running x). ready pl (fst q) (wk_st x)) \<and>
     (\<forall>k P. wk_main x = Some (k, P) \<longrightarrow> watched P quiet_monitor ())"

lemma node_of_node: "plan_ok pl \<Longrightarrow> n \<in> set (pl_nodes pl) \<Longrightarrow> node_of pl (ch_key n) = n"
  using node_of_key [of "ch_key n" pl] node_index_less [of "ch_key n" pl]
  by (intro key_unique) (auto simp: node_of_def)

lemma node_index_inj:
  "k \<in> ch_key ` set (pl_nodes pl) \<Longrightarrow> j \<in> ch_key ` set (pl_nodes pl) \<Longrightarrow> node_index pl k = node_index pl j \<Longrightarrow> k = j"
  using node_of_key [of k pl] node_of_key [of j pl] by (simp add: node_of_def)

text \<open>A step of one program keeps the order, when its node is ready or it is quiet.\<close>

lemma order_step:
  assumes "step_prog ops (node_index pl k) P st = Some (Q, st')" "plan_ok pl" "k \<in> to_ship pl" "k \<notin> fin"
    and "length (ar_Resources (ss_Rec st)) = length (pl_nodes pl)" "results_ok pl fin st" "touched_ok pl st"
    and "ready pl k st \<or> watched P quiet_monitor ()"
  shows "results_ok pl fin st' \<and> touched_ok pl st' \<and> length (ar_Resources (ss_Rec st')) = length (pl_nodes pl) \<and>
    ss_Results st' = ss_Results st"
proof -
  have k: "k \<in> ch_key ` set (pl_nodes pl)" using assms(3) by (auto simp: toProcess_nodes)
  have i: "node_index pl k < length (ar_Resources (ss_Rec st))" unfolding assms(5) by (rule node_index_less [OF k])
  note step = step_entries [OF assms(1) i]
  have res: "hasResult j st' = hasResult j st" for j by (simp add: hasResult_def step(1))
  have no: "\<not> hasResult k st" using assms(3, 4, 6) by (auto simp: results_ok_def)
  have same: "entry_of pl j st' = entry_of pl j st" if "j \<in> ch_key ` set (pl_nodes pl)" "j \<noteq> k" for j
    using step(3) node_index_inj [OF that(1) k] that(2) by blast
  have "results_ok pl fin st'"
    using assms(6) same no unfolding results_ok_def res by metis
  moreover have "touched_ok pl st'"
    unfolding touched_ok_def res
  proof (intro ballI impI)
    fix n d assume n: "n \<in> set (pl_nodes pl)" "touched (entry_of pl (ch_key n) st')" "d \<in> set (ch_dependsOn n)"
    show "hasResult d st"
    proof (cases "ch_key n = k")
      case False
      then show ?thesis using same n assms(7) by (simp add: touched_ok_def)
    next
      case True
      have "ready pl k st \<Longrightarrow> hasResult d st"
        using n(3) node_of_node [OF assms(2) n(1)] True by (auto simp: ready_def)
      moreover have "watched P quiet_monitor () \<Longrightarrow> hasResult d st"
        using step(4) n True assms(7) by (auto simp: touched_ok_def)
      ultimately show ?thesis using assms(8) by blast
    qed
  qed
  ultimately show ?thesis using step(1, 2) assms(5) by simp
qed

lemma results_mono: "results_ok pl fin st \<Longrightarrow> fin \<subseteq> fin' \<Longrightarrow> results_ok pl fin' st"
  by (auto simp: results_ok_def)

lemma ready_mono: "ready pl k st \<Longrightarrow> (\<And>d. hasResult d st \<Longrightarrow> hasResult d st') \<Longrightarrow> ready pl k st'"
  by (auto simp: ready_def)

lemma publish_result:
  "hasResult j (publish pl k st) \<longleftrightarrow> hasResult j st \<or> (j = k \<and> LastState (entry_of pl k st) = Some ResourceApplied)"
  "ss_Rec (publish pl k st) = ss_Rec st"
  by (auto simp: publish_def Let_def setResult_def hasResult_def)

lemma order_publish:
  assumes "results_ok pl fin st" "touched_ok pl st" "k \<in> ch_key ` set (pl_nodes pl)" "k \<in> fin'" "fin \<subseteq> fin'"
  shows "results_ok pl fin' (publish pl k st)" "touched_ok pl (publish pl k st)"
proof -
  have e: "entry_at i (publish pl k st) = entry_at i st" for i by (simp add: entry_at_def publish_result(2))
  show "results_ok pl fin' (publish pl k st)"
    using assms by (auto simp: results_ok_def publish_result(1) e)
  show "touched_ok pl (publish pl k st)"
    using assms(2) by (simp add: touched_ok_def publish_result(1) e)
qed

lemma proc_key:
  assumes "sched_inv pl x R F" "q \<in> set (procs x)"
  shows "fst q \<in> to_ship pl" "fst q \<notin> set (wk_done x @ R)" "fst q \<in> ch_key ` set (pl_nodes pl)"
proof -
  have "fst q \<in> fst ` set (procs x)" using assms(2) by blast
  then show a: "fst q \<in> to_ship pl" and "fst q \<notin> set (wk_done x @ R)"
    using assms(1) by (auto simp: sched_inv_def launched_def)
  show "fst q \<in> ch_key ` set (pl_nodes pl)" using a by (auto simp: toProcess_nodes)
qed

lemma missing_ready: "missingDep pl k st = None \<longleftrightarrow> ready pl k st"
  by (auto simp: missingDep_def ready_def find_None_iff)

lemma walk_step_order:
  assumes "walk_step env pool src p m pl x y" "plan_ok pl" "order_inv pl x R F"
  shows "\<exists>R' F'. order_inv pl y R' F'"
proof -
  have s: "sched_inv pl x R F" and len: "length (ar_Resources (ss_Rec (wk_st x))) = length (pl_nodes pl)"
    and res: "results_ok pl (set (wk_done x @ R)) (wk_st x)" and tch: "touched_ok pl (wk_st x)"
    and rdy: "\<And>q. q \<in> set (wk_waiting x @ wk_running x) \<Longrightarrow> ready pl (fst q) (wk_st x)"
    and main: "\<And>k P. wk_main x = Some (k, P) \<Longrightarrow> watched P quiet_monitor ()"
    using assms(3) by (simp_all add: order_inv_def)
  obtain R' F' where s': "sched_inv pl y R' F'" and fin: "set (wk_done x @ R) \<subseteq> set (wk_done y @ R')"
    using walk_step_sched [OF assms(1, 2) s] by blast
  have keep: "order_inv pl y R' F'" if "wk_st y = wk_st x"
    "\<And>q. q \<in> set (wk_waiting y @ wk_running y) \<Longrightarrow> q \<in> set (wk_waiting x @ wk_running x) \<or> ready pl (fst q) (wk_st x)"
    "\<And>k P. wk_main y = Some (k, P) \<Longrightarrow> wk_main x = Some (k, P) \<or> watched P quiet_monitor ()"
    unfolding order_inv_def
    using s' len results_mono [OF res fin] tch rdy main that by metis
  have stepped: "order_inv pl y R' F'" if "step_prog (en_ops env) (node_index pl k) P (wk_st x) = Some (Q, st')"
    "(k, P) \<in> set (procs x)" "ready pl k (wk_st x) \<or> watched P quiet_monitor ()" "wk_st y = st'"
    "fst ` set (wk_waiting y @ wk_running y) \<subseteq> fst ` set (wk_waiting x @ wk_running x)"
    "\<And>k P. wk_main y = Some (k, P) \<Longrightarrow> wk_main x = Some (k, P) \<or> watched P quiet_monitor ()" for k P Q st'
  proof -
    note names = that(5)
    have o: "results_ok pl (set (wk_done x @ R)) st' \<and> touched_ok pl st' \<and>
        length (ar_Resources (ss_Rec st')) = length (pl_nodes pl) \<and> ss_Results st' = ss_Results (wk_st x)"
      using order_step [OF that(1) assms(2) _ _ len res tch that(3)] proc_key [OF s that(2)] by simp
    then have "ready pl j st'" if "ready pl j (wk_st x)" for j
      using that by (simp add: ready_def hasResult_def)
    then have "ready pl (fst q) st'" if "q \<in> set (wk_waiting y @ wk_running y)" for q
      using subsetD [OF names imageI [OF that]] rdy by fastforce
    then show ?thesis unfolding order_inv_def using s' o results_mono [OF _ fin] that(4, 6) main by metis
  qed
  show ?thesis using assms(1)
  proof cases
    case (blocks k ks d)
    have "order_inv pl y R' F'" by (rule keep) (auto simp: blocks failSync_quiet)
    then show ?thesis by blast
  next
    case (launches k ks)
    have "ready pl k (wk_st x)" using launches(4) by (simp add: missing_ready)
    then have "order_inv pl y R' F'" by (intro keep) (auto simp: launches)
    then show ?thesis by blast
  next
    case (records k P Q st')
    have q: "(k, P) \<in> set (procs x)" by (simp add: records procs_def)
    have i: "node_index pl k < length (ar_Resources (ss_Rec (wk_st x)))"
      unfolding len using proc_key(3) [OF s q] by (intro node_index_less) simp
    have "watched Q quiet_monitor ()" using step_entries(4) [OF records(3) i main [OF records(2)]] by simp
    then have "order_inv pl y R' F'"
      by (intro stepped [OF records(3) q]) (auto simp: records main [OF records(2)])
    then show ?thesis by blast
  next
    case (works us k P vs Q st')
    have q: "(k, P) \<in> set (procs x)" by (simp add: works procs_def)
    have "ready pl k (wk_st x)" using rdy [of "(k, P)"] by (simp add: works)
    then have "order_inv pl y R' F'" by (intro stepped [OF works(3) q]) (auto simp: works)
    then show ?thesis by blast
  next
    case (finishes us k vs)
    have q: "(k, Done (Inr ())) \<in> set (procs x)" by (simp add: finishes procs_def)
    have pub: "results_ok pl (set (wk_done y @ R')) (publish pl k (wk_st x))" "touched_ok pl (publish pl k (wk_st x))"
      using order_publish [OF res tch _ _ fin, of k] proc_key(3) [OF s q] by (auto simp: finishes)
    have "ready pl j (publish pl k (wk_st x))" if "ready pl j (wk_st x)" for j
      by (rule ready_mono [OF that]) (simp add: publish_result)
    then have "order_inv pl y R' F'"
      using s' pub len rdy main unfolding order_inv_def by (auto simp: finishes publish_result)
    then show ?thesis by blast
  qed (rule exI, rule exI, rule keep; auto)+
qed

section \<open>The start\<close>

lemma run_applied:
  assumes "run (transition env ResourceApplied detail (settle ResourceApplied r)) ops i st = Some (Inr v, st')"
    and "i < length (ar_Resources (ss_Rec st))"
  shows "ss_Results st' = ss_Results st" "length (ar_Resources (ss_Rec st')) = length (ar_Resources (ss_Rec st))"
    "j \<noteq> i \<Longrightarrow> entry_at j st' = entry_at j st" "LastState (entry_at i st') = Some ResourceApplied"
  using assms
  by (auto simp: transition_def run_ask settle_def persist_def res_simps tally_def mutate_entry_def entry_at_def
      LastState_def add_transition_def split: prod.splits sum.splits)

lemma passThrough_entries:
  "passThrough env pl ns st = Some (Inr v, st') \<Longrightarrow> set ns \<subseteq> set (pl_nodes pl) \<Longrightarrow>
   length (ar_Resources (ss_Rec st)) = length (pl_nodes pl) \<Longrightarrow>
   ss_Results st' = ss_Results st \<and> length (ar_Resources (ss_Rec st')) = length (pl_nodes pl) \<and>
   (\<forall>k \<in> ch_key ` set (pl_nodes pl). (entry_of pl k st' = entry_of pl k st \<and> \<not> (\<exists>n \<in> set ns. ch_key n = k \<and> rh_applied (pl_hist pl n))) \<or>
      (LastState (entry_of pl k st') = Some ResourceApplied \<and> (\<exists>n \<in> set ns. ch_key n = k \<and> rh_applied (pl_hist pl n))))"
proof (induction env pl ns st arbitrary: st' rule: passThrough.induct)
  case (2 env pl n ns st)
  show ?case
  proof (cases "rh_applied (pl_hist pl n)")
    case False
    then show ?thesis using 2 by simp
  next
    case True
    let ?P = "transition env ResourceApplied priorText (settle ResourceApplied ())" and ?i = "node_index pl (ch_key n)"
    obtain u w where u: "run ?P (en_ops env) ?i st = Some (Inr w, u)" "passThrough env pl ns u = Some (Inr v, st')"
      using "2.prems"(1) True by (auto split: option.splits sum.splits)
    have n: "ch_key n \<in> ch_key ` set (pl_nodes pl)" using "2.prems"(2) by auto
    have i: "?i < length (ar_Resources (ss_Rec st))" unfolding "2.prems"(3) by (rule node_index_less [OF n])
    note r = run_applied [OF u(1) i]
    have ih: "ss_Results st' = ss_Results u \<and> length (ar_Resources (ss_Rec st')) = length (pl_nodes pl) \<and>
       (\<forall>k \<in> ch_key ` set (pl_nodes pl). (entry_of pl k st' = entry_of pl k u \<and> \<not> (\<exists>n \<in> set ns. ch_key n = k \<and> rh_applied (pl_hist pl n))) \<or>
          (LastState (entry_of pl k st') = Some ResourceApplied \<and> (\<exists>n \<in> set ns. ch_key n = k \<and> rh_applied (pl_hist pl n))))"
      using "2.IH"(2) [OF _ u(1) refl refl u(2)] True "2.prems"(2, 3) r(2) by simp
    have "entry_of pl k u = entry_of pl k st" if "k \<in> ch_key ` set (pl_nodes pl)" "k \<noteq> ch_key n" for k
      using r(3) node_index_inj [OF that(1) n] that(2) by blast
    then show ?thesis using ih r(1, 4) True by (metis (no_types, lifting) list.set_intros set_ConsD)
  qed
qed simp

lemma order_start:
  assumes ok: "plan_ok pl" and pass: "passThrough env pl (pl_nodes pl) st = Some (Inr v, st')"
    and st: "ar_Resources (ss_Rec st) = map (\<lambda>n. freshEntry (ch_addr n)) (pl_nodes pl)" "ss_Results st = pl_seed pl"
    and seed: "\<And>k. map_of (pl_seed pl) k \<noteq> None \<Longrightarrow> k \<in> ch_key ` set (pl_nodes pl)"
  shows "order_inv pl (walk_start pl st') [] []"
proof -
  note e = passThrough_entries [OF pass subset_refl, simplified st, simplified]
  have fresh: "\<not> touched (entry_of pl k st)" if "k \<in> ch_key ` set (pl_nodes pl)" for k
    using node_index_less [OF that] by (simp add: entry_at_def st touched_def freshEntry_def everInFlight_def LastState_def)
  have seeded: "map_of (pl_seed pl) (ch_key n) \<noteq> None \<longleftrightarrow> rh_applied (pl_hist pl n)" if "n \<in> set (pl_nodes pl)" for n
    using ok that by (simp add: plan_ok_def)
  have has: "hasResult k st' \<longleftrightarrow> map_of (pl_seed pl) k \<noteq> None" for k using e by (simp add: hasResult_def)
  have "results_ok pl {} st'"
    unfolding results_ok_def has
  proof (intro conjI allI impI)
    show "\<forall>n \<in> set (pl_nodes pl). rh_applied (pl_hist pl n) \<longrightarrow> map_of (pl_seed pl) (ch_key n) \<noteq> None"
      using seeded by blast
  next
    fix k assume k: "map_of (pl_seed pl) k \<noteq> None"
    then obtain n where n: "n \<in> set (pl_nodes pl)" "ch_key n = k" using seed by blast
    then have a: "rh_applied (pl_hist pl n)" using seeded k by blast
    then have "LastState (entry_of pl k st') = Some ResourceApplied" using e n by blast
    moreover have "k \<notin> to_ship pl" using to_ship_node [OF ok n(1)] n a by (simp add: toProcess_nodes)
    ultimately show "k \<in> ch_key ` set (pl_nodes pl)" "LastState (entry_of pl k st') = Some ResourceApplied"
      "k \<in> to_ship pl \<Longrightarrow> k \<in> {}"
      using n by blast+
  qed
  moreover have "touched_ok pl st'"
    unfolding touched_ok_def has
  proof (intro ballI impI)
    fix n d assume n: "n \<in> set (pl_nodes pl)" "touched (entry_of pl (ch_key n) st')" "d \<in> set (ch_dependsOn n)"
    obtain m where "m \<in> set (pl_nodes pl)" "ch_key m = ch_key n" "rh_applied (pl_hist pl m)"
      using e fresh n by (metis imageI)
    then have "rh_applied (pl_hist pl n)" using key_unique [OF ok _ n(1)] by metis
    then have "unseeded pl n = []" using ok n(1) by (simp add: plan_ok_def)
    then show "map_of (pl_seed pl) d \<noteq> None" using n(3) by (simp add: unseeded_def filter_empty_conv)
  qed
  ultimately show ?thesis using sched_start [OF ok] e by (simp add: order_inv_def walk_start_def)
qed

section \<open>Records\<close>

text \<open>
  What a record of an attempt says, on top of the attempts before it: every resource at most once,
  nothing ahead of its dependencies, and nothing against a resource that was already applied.
\<close>

definition record_ok :: "ApplyRecord list \<Rightarrow> changeNode list \<Rightarrow> ApplyRecord \<Rightarrow> bool" where
  "record_ok attempts nodes r \<longleftrightarrow> distinct (map (\<lambda>ra. addr_String (rap_Address ra)) (ar_Resources r)) \<and>
     deps_applied nodes r \<and>
     (\<forall>n \<in> set nodes. rh_applied (foldResourceHistory attempts (ch_addr n)) \<longrightarrow> (\<forall>ra \<in> set (ar_Resources r).
        addr_String (rap_Address ra) = ch_key n \<longrightarrow> LastState ra = None \<or> LastState ra = Some ResourceApplied))"

lemma latest_append: "latest f (xs @ ys) = (case latest f ys of None \<Rightarrow> latest f xs | Some v \<Rightarrow> Some v)"
  by (induction ys rule: rev_induct) (auto simp: latest_snoc append_assoc [symmetric] simp del: append_assoc split: option.splits)

lemma entries_of_one:
  assumes "distinct (map f ras)"
  shows "filter (\<lambda>ra. f ra = k) ras = [] \<and> (\<forall>ra \<in> set ras. f ra \<noteq> k) \<or>
    (\<exists>ra \<in> set ras. f ra = k \<and> filter (\<lambda>ra. f ra = k) ras = [ra] \<and> (\<forall>rb \<in> set ras. f rb = k \<longrightarrow> rb = ra))"
proof (cases "\<exists>ra \<in> set ras. f ra = k")
  case True
  then obtain ra where ra: "ra \<in> set ras" "f ra = k" by blast
  have u: "rb = ra" if "rb \<in> set ras" "f rb = k" for rb
    using assms ra that by (metis (full_types) distinct_map inj_onD)
  have "filter (\<lambda>ra. f ra = k) ras = filter (\<lambda>rb. rb = ra) ras"
    by (rule filter_cong [OF refl]) (use u ra in blast)
  also have "\<dots> = [ra]" using ra(1) assms
    by (induction ras) (auto simp: filter_empty_conv)
  finally show ?thesis using ra u by blast
qed (simp add: filter_empty_conv)

lemma last_state: "rh_lastState (foldResourceHistory attempts a) = latest LastState (entriesFor attempts a)"
  by (simp add: foldResourceHistory_def Let_def)

lemma applied_with_record:
  assumes "distinct (map (\<lambda>ra. addr_String (rap_Address ra)) (ar_Resources r))"
  shows "rh_applied (foldResourceHistory (attempts @ [r]) a) \<longleftrightarrow>
    (\<exists>ra \<in> set (ar_Resources r). addr_String (rap_Address ra) = addr_String a \<and> LastState ra = Some ResourceApplied) \<or>
    (rh_applied (foldResourceHistory attempts a) \<and>
     (\<forall>ra \<in> set (ar_Resources r). addr_String (rap_Address ra) = addr_String a \<longrightarrow> LastState ra = None))"
proof -
  let ?E = "filter (\<lambda>ra. addr_String (rap_Address ra) = addr_String a) (ar_Resources r)"
  have h: "rh_lastState (foldResourceHistory (attempts @ [r]) a) =
      (case latest LastState ?E of None \<Rightarrow> rh_lastState (foldResourceHistory attempts a) | Some v \<Rightarrow> Some v)"
    unfolding last_state entriesFor_def by (simp add: latest_append)
  from entries_of_one [OF assms, of "addr_String a"] show ?thesis
  proof (elim disjE bexE conjE)
    assume "?E = []" "\<forall>ra \<in> set (ar_Resources r). addr_String (rap_Address ra) \<noteq> addr_String a"
    then show ?thesis by (auto simp: rh_applied_def h)
  next
    fix ra assume ra: "ra \<in> set (ar_Resources r)" "addr_String (rap_Address ra) = addr_String a" "?E = [ra]"
      and only: "\<forall>rb \<in> set (ar_Resources r). addr_String (rap_Address rb) = addr_String a \<longrightarrow> rb = ra"
    have "(\<exists>rb \<in> set (ar_Resources r). addr_String (rap_Address rb) = addr_String a \<and> LastState rb = Some ResourceApplied) \<longleftrightarrow>
        LastState ra = Some ResourceApplied"
      using ra(1, 2) only by metis
    moreover have "(\<forall>rb \<in> set (ar_Resources r). addr_String (rap_Address rb) = addr_String a \<longrightarrow> LastState rb = None) \<longleftrightarrow>
        LastState ra = None"
      using ra(1, 2) only by metis
    ultimately show ?thesis
      using h unfolding rh_applied_def ra(3) by (simp add: latest_def split: option.splits)
  qed
qed

lemma prior_ok_snoc:
  assumes "prior_ok attempts nodes" "record_ok attempts nodes r" "\<forall>n \<in> set nodes. set (ch_dependsOn n) \<subseteq> ch_key ` set nodes"
  shows "prior_ok (attempts @ [r]) nodes"
  unfolding prior_ok_def
proof (intro ballI impI)
  fix n d assume n: "n \<in> set nodes" "rh_applied (foldResourceHistory (attempts @ [r]) (ch_addr n))" "d \<in> set (ch_dependsOn n)"
  have "distinct (map (\<lambda>ra. addr_String (rap_Address ra)) (ar_Resources r))" using assms(2) by (simp add: record_ok_def)
  note hist = applied_with_record [OF this, of attempts]
  from n(2) [unfolded hist]
  show "\<exists>m \<in> set nodes. ch_key m = d \<and> rh_applied (foldResourceHistory (attempts @ [r]) (ch_addr m))"
  proof (elim disjE bexE conjE)
    fix ra assume ra: "ra \<in> set (ar_Resources r)" "addr_String (rap_Address ra) = ch_key n" "LastState ra = Some ResourceApplied"
    then obtain rb where "rb \<in> set (ar_Resources r)" "addr_String (rap_Address rb) = d" "LastState rb = Some ResourceApplied"
      using assms(2) n(1, 3) unfolding record_ok_def deps_applied_def touched_def by blast
    moreover obtain m where "m \<in> set nodes" "ch_key m = d" using assms(3) n(1, 3) by blast
    ultimately show ?thesis by (intro bexI [of _ m]) (auto simp: hist)
  next
    assume "rh_applied (foldResourceHistory attempts (ch_addr n))"
    then obtain m where m: "m \<in> set nodes" "ch_key m = d" "rh_applied (foldResourceHistory attempts (ch_addr m))"
      using assms(1) n(1, 3) unfolding prior_ok_def by blast
    then have "LastState ra = None \<or> LastState ra = Some ResourceApplied"
      if "ra \<in> set (ar_Resources r)" "addr_String (rap_Address ra) = ch_key m" for ra
      using assms(2) that unfolding record_ok_def by blast
    then show ?thesis using m by (intro bexI [of _ m]) (auto simp: hist)
  qed
qed

text \<open>A state's record, when its entries are those of the plan.\<close>

definition entries_ok :: "plan \<Rightarrow> ('s, 'w) shipState \<Rightarrow> bool" where
  "entries_ok pl st \<longleftrightarrow> map rap_Address (ar_Resources (ss_Rec st)) = map ch_addr (pl_nodes pl) \<and>
     (\<forall>n \<in> set (pl_nodes pl). touched (entry_of pl (ch_key n) st) \<longrightarrow>
        (\<forall>d \<in> set (ch_dependsOn n). d \<in> ch_key ` set (pl_nodes pl) \<and> LastState (entry_of pl d st) = Some ResourceApplied)) \<and>
     (\<forall>n \<in> set (pl_nodes pl). rh_applied (pl_hist pl n) \<longrightarrow>
        LastState (entry_of pl (ch_key n) st) = None \<or> LastState (entry_of pl (ch_key n) st) = Some ResourceApplied)"

lemma node_index_nth:
  assumes "plan_ok pl" "i < length (pl_nodes pl)"
  shows "node_index pl (ch_key (pl_nodes pl ! i)) = i"
proof -
  let ?k = "ch_key (pl_nodes pl ! i)"
  have k: "?k \<in> ch_key ` set (pl_nodes pl)" using assms(2) by simp
  have "map ch_key (pl_nodes pl) ! node_index pl ?k = map ch_key (pl_nodes pl) ! i"
    using node_of_key [OF k] node_index_less [OF k] assms(2) by (simp add: node_of_def)
  moreover have "distinct (map ch_key (pl_nodes pl))" using assms(1) by (simp add: plan_ok_def)
  ultimately show ?thesis
    using nth_eq_iff_index_eq [of "map ch_key (pl_nodes pl)"] assms(2) node_index_less [OF k] by (metis length_map)
qed

lemma entries_record_ok:
  assumes ok: "plan_ok pl" and e: "entries_ok pl st"
  shows "record_ok (pl_attempts pl) (pl_nodes pl) (ss_Rec st)"
proof -
  let ?ras = "ar_Resources (ss_Rec st)"
  have a: "map rap_Address ?ras = map ch_addr (pl_nodes pl)" using e by (simp add: entries_ok_def)
  then have len: "length ?ras = length (pl_nodes pl)" by (metis length_map)
  have keys: "map (\<lambda>ra. addr_String (rap_Address ra)) ?ras = map ch_key (pl_nodes pl)"
    using a by (metis (no_types, lifting) comp_apply map_eq_conv map_map)
  have entry: "ra = entry_of pl (ch_key n) st"
    if "n \<in> set (pl_nodes pl)" "ra \<in> set ?ras" "addr_String (rap_Address ra) = ch_key n" for n ra
  proof -
    obtain i where i: "i < length ?ras" "ra = ?ras ! i" using \<open>ra \<in> set ?ras\<close> by (metis in_set_conv_nth)
    then have "ch_key (pl_nodes pl ! i) = ch_key n" using keys len that(3) by (metis nth_map)
    then have "node_index pl (ch_key n) = i" using node_index_nth [OF ok, of i] i(1) len by simp
    then show ?thesis using i by (simp add: entry_at_def)
  qed
  have mem: "entry_of pl k st \<in> set ?ras \<and> addr_String (rap_Address (entry_of pl k st)) = k"
    if "k \<in> ch_key ` set (pl_nodes pl)" for k
  proof -
    have i: "node_index pl k < length ?ras" unfolding len by (rule node_index_less [OF that])
    then have "addr_String (rap_Address (?ras ! node_index pl k)) = ch_key (pl_nodes pl ! node_index pl k)"
      using keys len by (metis nth_map)
    then show ?thesis using i node_of_key [OF that] by (simp add: entry_at_def node_of_def)
  qed
  have "deps_applied (pl_nodes pl) (ss_Rec st)"
    unfolding deps_applied_def
  proof (intro ballI impI)
    fix n ra d assume h: "n \<in> set (pl_nodes pl)" "ra \<in> set ?ras" "addr_String (rap_Address ra) = ch_key n \<and> touched ra"
      "d \<in> set (ch_dependsOn n)"
    then have "d \<in> ch_key ` set (pl_nodes pl) \<and> LastState (entry_of pl d st) = Some ResourceApplied"
      using e entry [OF h(1, 2)] unfolding entries_ok_def by blast
    then show "\<exists>rb \<in> set ?ras. addr_String (rap_Address rb) = d \<and> LastState rb = Some ResourceApplied"
      using mem by blast
  qed
  moreover have "distinct (map ch_key (pl_nodes pl))" using ok by (simp add: plan_ok_def)
  ultimately show ?thesis using e entry unfolding record_ok_def keys entries_ok_def by metis
qed

lemma order_entries:
  assumes "order_inv pl x R F" "map rap_Address (ar_Resources (ss_Rec (wk_st x))) = map ch_addr (pl_nodes pl)"
  shows "entries_ok pl (wk_st x)"
  using assms unfolding order_inv_def results_ok_def touched_ok_def entries_ok_def by blast

section \<open>What is saved\<close>

definition passing :: "plan \<Rightarrow> changeNode list \<Rightarrow> ('s, 'w) shipState \<Rightarrow> bool" where
  "passing pl pre st \<longleftrightarrow> map rap_Address (ar_Resources (ss_Rec st)) = map ch_addr (pl_nodes pl) \<and>
     (\<forall>n \<in> set (pl_nodes pl). if n \<in> set pre \<and> rh_applied (pl_hist pl n)
        then LastState (entry_of pl (ch_key n) st) = Some ResourceApplied
        else \<not> touched (entry_of pl (ch_key n) st) \<and> LastState (entry_of pl (ch_key n) st) = None)"

text \<open>What an applied node depends on stands before it, and is applied.\<close>

lemma prefix_deps:
  assumes "plan_ok pl" "pl_nodes pl = pre @ ns" "n \<in> set pre" "rh_applied (pl_hist pl n)" "d \<in> set (ch_dependsOn n)"
  shows "\<exists>m \<in> set pre. ch_key m = d \<and> rh_applied (pl_hist pl m)"
proof -
  obtain i where i: "i < length pre" "pl_nodes pl ! i = n" using assms(2, 3) by (metis in_set_conv_nth nth_append)
  then have "i < length (pl_nodes pl)" "d \<in> set (ch_dependsOn (pl_nodes pl ! i))" using assms(2, 5) by auto
  then obtain j where j: "j < i" "ch_key (pl_nodes pl ! j) = d" using assms(1) unfolding plan_ok_def by metis
  let ?m = "pl_nodes pl ! j"
  have m: "?m \<in> set pre" "?m \<in> set (pl_nodes pl)" using assms(2) i(1) j(1) by (simp_all add: nth_append)
  have "unseeded pl n = []" using assms(1-4) by (auto simp: plan_ok_def)
  then have "map_of (pl_seed pl) d \<noteq> None" using assms(5) by (auto simp: unseeded_def filter_empty_conv)
  then have "rh_applied (pl_hist pl ?m)" using assms(1) m(2) j(2) by (auto simp: plan_ok_def)
  then show ?thesis using m j by blast
qed

lemma passing_entries:
  assumes "plan_ok pl" "pl_nodes pl = pre @ ns" "passing pl pre st"
  shows "entries_ok pl st"
proof -
  have p: "if n \<in> set pre \<and> rh_applied (pl_hist pl n) then LastState (entry_of pl (ch_key n) st) = Some ResourceApplied
      else \<not> touched (entry_of pl (ch_key n) st) \<and> LastState (entry_of pl (ch_key n) st) = None"
    if "n \<in> set (pl_nodes pl)" for n
    using assms(3) that by (simp add: passing_def)
  have "d \<in> ch_key ` set (pl_nodes pl) \<and> LastState (entry_of pl d st) = Some ResourceApplied"
    if n: "n \<in> set (pl_nodes pl)" "touched (entry_of pl (ch_key n) st)" "d \<in> set (ch_dependsOn n)" for n d
  proof -
    have a: "n \<in> set pre" "rh_applied (pl_hist pl n)" using p [OF n(1)] n(2) by (auto split: if_splits)
    obtain m where m: "m \<in> set pre" "ch_key m = d" "rh_applied (pl_hist pl m)"
      using prefix_deps [OF assms(1, 2) a n(3)] by blast
    then have "m \<in> set (pl_nodes pl)" using assms(2) by simp
    then show ?thesis using p [of m] m by auto
  qed
  moreover have "LastState (entry_of pl (ch_key n) st) = None \<or> LastState (entry_of pl (ch_key n) st) = Some ResourceApplied"
    if "n \<in> set (pl_nodes pl)" for n
    using p [OF that] by (auto split: if_splits)
  ultimately show ?thesis using assms(3) unfolding entries_ok_def passing_def by blast
qed

lemma run_applied_saved:
  "run (transition env ResourceApplied detail (settle ResourceApplied r)) ops i st = Some (Inr v, st') \<Longrightarrow>
   \<exists>m. persist ops m = Inr st' \<and> ss_Store m = ss_Store st \<and>
     ar_Proposal (ss_Rec m) = ar_Proposal (ss_Rec st) \<and> ar_Attempt (ss_Rec m) = ar_Attempt (ss_Rec st)"
  by (auto simp: transition_def run_ask settle_def tally_def mutate_entry_def split: prod.splits sum.splits intro!: exI)

context apply_store
begin

definition saved_rec :: "plan \<Rightarrow> ('s, 'w) shipState \<Rightarrow> bool" where
  "saved_rec pl st \<longleftrightarrow> (\<forall>r. so_ReadApply ops (ss_Store st) (ar_Proposal (ss_Rec st)) (ar_Attempt (ss_Rec st)) = Inr (ApplyBlob r) \<longrightarrow>
     record_ok (pl_attempts pl) (pl_nodes pl) r)"

lemma persist_reads:
  assumes "persist ops st = Inr st'" "ok (ss_Store st)"
  shows "so_ReadApply ops (ss_Store st') (ar_Proposal (ss_Rec st')) (ar_Attempt (ss_Rec st')) = Inr (ApplyBlob (ss_Rec st'))"
    "ss_Rec st' = ss_Rec st"
proof -
  obtain s' where s': "SaveApplyProgress ops (ss_Store st) (ss_Rec st) = Inr s'" "st' = st\<lparr>ss_Store := s'\<rparr>"
    using assms(1) by (auto simp: persist_def res_simps)
  have "so_WriteApply ops (ss_Store st) (ar_Proposal (ss_Rec st)) (ar_Attempt (ss_Rec st)) (ApplyBlob (ss_Rec st)) = Inr s'"
    using s'(1) by (auto simp: SaveApplyProgress_def writeApplyFile_def split: if_splits)
  then show "so_ReadApply ops (ss_Store st') (ar_Proposal (ss_Rec st')) (ar_Attempt (ss_Rec st')) = Inr (ApplyBlob (ss_Rec st'))"
    using apply_write [OF assms(2), of "ar_Proposal (ss_Rec st)" "ar_Attempt (ss_Rec st)" "ApplyBlob (ss_Rec st)"] s'(2) by auto
  show "ss_Rec st' = ss_Rec st" by (simp add: s'(2))
qed

lemma persist_saved_rec:
  assumes "persist ops st = Inr st'" "ok (ss_Store st)" "plan_ok pl" "entries_ok pl st'"
  shows "saved_rec pl st'"
  using persist_reads [OF assms(1, 2)] entries_record_ok [OF assms(3, 4)] by (simp add: saved_rec_def)

lemma step_saved:
  assumes "step_prog ops i P st = Some (Q, st')" "saved_ok st" "entries_ok pl st" "plan_ok pl" "saved_rec pl st"
  shows "saved_rec pl st'"
proof (cases P)
  case (Persist R)
  show ?thesis
  proof (cases "persist ops st")
    case (Inl e)
    then show ?thesis using Persist assms(1, 5) by (simp add: step_prog_def)
  next
    case (Inr u)
    then have "st' = u" using Persist assms(1) by (simp add: step_prog_def)
    moreover have "ss_Rec u = ss_Rec st" "ok (ss_Store st)"
      using persist_reads(2) [OF Inr] assms(2) by (simp_all add: saved_ok_def)
    moreover then have "entries_ok pl u" using assms(3) by (simp add: entries_ok_def entry_at_def)
    ultimately show ?thesis using persist_saved_rec [OF Inr] assms(4) by simp
  qed
next
  case (Tally x R)
  then show ?thesis using assms(1, 5) by (cases x) (auto simp: step_prog_def tally_def saved_rec_def)
next
  case (Mutate f R)
  then show ?thesis using assms(1, 5) by (auto simp: step_prog_def mutate_entry_def saved_rec_def)
next
  case (Ask g)
  then show ?thesis using assms(1, 5) by (auto simp: step_prog_def saved_rec_def)
next
  case (ApplyChange prior planned g)
  then show ?thesis using assms(1, 5) by (auto simp: step_prog_def saved_rec_def split: prod.splits)
qed (use assms(1) in \<open>simp add: step_prog_def\<close>)

lemma passThrough_saved:
  "passThrough env pl ns st = Some (Inr v, st') \<Longrightarrow> en_ops env = ops \<Longrightarrow> plan_ok pl \<Longrightarrow> pl_nodes pl = pre @ ns \<Longrightarrow>
   saved_ok st \<Longrightarrow> passing pl pre st \<Longrightarrow> saved_rec pl st \<Longrightarrow> saved_rec pl st'"
proof (induction env pl ns st arbitrary: pre st' rule: passThrough.induct)
  case (2 env pl n ns st)
  show ?case
  proof (cases "rh_applied (pl_hist pl n)")
    case False
    then have "passing pl (pre @ [n]) st" using "2.prems"(6) by (auto simp: passing_def)
    then show ?thesis using "2.IH"(1) [OF False, of st' "pre @ [n]"] "2.prems" False by simp
  next
    case True
    let ?P = "transition env ResourceApplied priorText (settle ResourceApplied ())" and ?i = "node_index pl (ch_key n)"
    obtain u w where u: "run ?P (en_ops env) ?i st = Some (Inr w, u)" "passThrough env pl ns u = Some (Inr v, st')"
      using "2.prems"(1) True by (auto split: option.splits sum.splits)
    have n: "n \<in> set (pl_nodes pl)" "ch_key n \<in> ch_key ` set (pl_nodes pl)" using "2.prems"(4) by auto
    have len: "length (ar_Resources (ss_Rec st)) = length (pl_nodes pl)"
      using "2.prems"(6) unfolding passing_def by (metis length_map)
    have i: "?i < length (ar_Resources (ss_Rec st))" unfolding len by (rule node_index_less [OF n(2)])
    note r = run_applied [OF u(1) i]
    have "watched ?P flight_monitor (False, False)" by (intro flight.transition_ok flight.settle_ok) simp
    then have f: "saved_ok u \<and> later ops st u"
      using run_flight [OF u(1) [unfolded "2.prems"(2)] _ i "2.prems"(5)] by simp
    have same: "entry_of pl (ch_key m) u = entry_of pl (ch_key m) st" if "m \<in> set (pl_nodes pl)" "m \<noteq> n" for m
    proof -
      have "ch_key m \<noteq> ch_key n" using key_unique [OF "2.prems"(3) that(1) n(1)] that(2) by blast
      then show ?thesis using r(3) node_index_inj [of "ch_key m" pl "ch_key n"] that(1) n(2) by blast
    qed
    have pas: "passing pl (pre @ [n]) u"
      unfolding passing_def
    proof (intro conjI ballI)
      show "map rap_Address (ar_Resources (ss_Rec u)) = map ch_addr (pl_nodes pl)"
        using f "2.prems"(6) by (simp add: later_def passing_def)
      fix m assume m: "m \<in> set (pl_nodes pl)"
      show "if m \<in> set (pre @ [n]) \<and> rh_applied (pl_hist pl m) then LastState (entry_of pl (ch_key m) u) = Some ResourceApplied
        else \<not> touched (entry_of pl (ch_key m) u) \<and> LastState (entry_of pl (ch_key m) u) = None"
        using r(4) same [OF m] True "2.prems"(6) m by (cases "m = n") (auto simp: passing_def)
    qed
    have ent: "entries_ok pl u" using passing_entries [OF "2.prems"(3) _ pas, of ns] "2.prems"(4) by simp
    obtain q where q: "persist ops q = Inr u" "ss_Store q = ss_Store st"
      using run_applied_saved [OF u(1)] "2.prems"(2) by auto
    have "saved_rec pl u"
      by (rule persist_saved_rec [OF q(1) _ "2.prems"(3) ent]) (use q(2) "2.prems"(5) in \<open>simp add: saved_ok_def\<close>)
    then show ?thesis
      using "2.IH"(2) [OF _ u(1) refl refl u(2), of "pre @ [n]"] True "2.prems"(2-4) f pas by simp
  qed
qed simp

text \<open>The order, the saved record and the scheduler together.\<close>

definition walk_inv :: "plan \<Rightarrow> string \<Rightarrow> int \<Rightarrow> ('s, 'w) walk \<Rightarrow> bool" where
  "walk_inv pl pid att x \<longleftrightarrow> (\<exists>R F. order_inv pl x R F) \<and> flight_inv pl pid att x \<and> saved_rec pl (wk_st x)"

lemma walk_inv_entries: "walk_inv pl pid att x \<Longrightarrow> entries_ok pl (wk_st x)"
  using order_entries unfolding walk_inv_def flight_inv_def by blast

lemma walk_step_store:
  fixes env :: "('s, 'w, 'sch) shipEnv" and x y :: "('s, 'w) walk"
  assumes "walk_step env pool src p m pl x y"
  shows "(\<exists>k (P :: ('s, 'w, unit) prog) Q. step_prog (en_ops env) k P (wk_st x) = Some (Q, wk_st y)) \<or>
    (ss_Store (wk_st y) = ss_Store (wk_st x) \<and> ss_Rec (wk_st y) = ss_Rec (wk_st x))"
  using assms
proof cases
  case (finishes us k vs)
  then show ?thesis by (simp add: publish_def Let_def setResult_def)
qed auto

lemma walk_step_inv:
  fixes env :: "('s, 'w, 'sch) shipEnv" and x y :: "('s, 'w) walk"
  assumes "walk_step env pool src p m pl x y" "plan_ok pl" "en_ops env = ops" "walk_inv pl pid att x"
  shows "walk_inv pl pid att y"
proof -
  have x: "flight_inv pl pid att x" "saved_rec pl (wk_st x)" using assms(4) by (simp_all add: walk_inv_def)
  then have s: "saved_ok (wk_st x)" by (simp add: flight_inv_def)
  from walk_step_store [OF assms(1)] have "saved_rec pl (wk_st y)"
  proof (elim disjE exE conjE)
    fix k and P Q :: "('s, 'w, unit) prog"
    assume "step_prog (en_ops env) k P (wk_st x) = Some (Q, wk_st y)"
    then show ?thesis unfolding assms(3) by (rule step_saved [OF _ s walk_inv_entries [OF assms(4)] assms(2) x(2)])
  next
    assume "ss_Store (wk_st y) = ss_Store (wk_st x)" "ss_Rec (wk_st y) = ss_Rec (wk_st x)"
    then show ?thesis using x(2) by (simp add: saved_rec_def)
  qed
  moreover have "\<exists>R F. order_inv pl y R F"
    using assms(4) walk_step_order [OF assms(1, 2)] unfolding walk_inv_def by blast
  ultimately show ?thesis using walk_step_flight [OF assms(1) x(1) assms(3)] by (simp add: walk_inv_def)
qed

lemma walk_steps_inv:
  assumes "(walk_step env pool src p m pl)\<^sup>*\<^sup>* x y" "plan_ok pl" "en_ops env = ops" "walk_inv pl pid att x"
  shows "walk_inv pl pid att y"
  using assms(1, 4) by (induction rule: rtranclp_induct) (auto intro: walk_step_inv [OF _ assms(2, 3)])

lemma beginChange_inv:
  assumes "beginChange env pool src p s w = Some (Inr (pl, startedAt, x), s', w')" "en_ops env = ops" "ok s"
    and prior: "prior_ok (pl_attempts pl) (pl_nodes pl)"
  shows "plan_ok pl \<and> (\<exists>att. walk_inv pl (p_ID p) att x)"
proof -
  obtain nodes attempts r s1 w2 st u where b: "changeNodesOf p = Inr nodes" "BeginApply ops s (p_ID p) = Inr (r, s1)"
    "pl = planOf attempts nodes"
    and st: "passThrough env pl nodes (newRecorder s1 w2 (r\<lparr>ar_Resources := map (\<lambda>n. freshEntry (ch_addr n)) nodes\<rparr>) (pl_seed pl))
      = Some (Inr u, st)" "x = walk_start pl st"
    using beginChange_parts [OF assms(1)] unfolding assms(2) by metis
  let ?st = "newRecorder s1 w2 (r\<lparr>ar_Resources := map (\<lambda>n. freshEntry (ch_addr n)) nodes\<rparr>) (pl_seed pl)"
  have pl: "pl_nodes pl = nodes" "pl_attempts pl = attempts" "pl_seed pl = seedOf attempts nodes"
    by (simp_all add: b(3) planOf_def)
  have ok: "plan_ok pl" using planOf_ok [OF b(1), of attempts] prior by (simp add: b(3) planOf_def)
  have r: "ar_Proposal r = p_ID p" "ar_Resources r = []" "writeApplyFile ops s r = Inr s1"
    using b(2) by (auto simp: BeginApply_def res_simps Let_def)
  then have s1: "ok s1" "so_ReadApply ops s1 (p_ID p) (ar_Attempt r) = Inr (ApplyBlob r)"
    using apply_write [OF assms(3), of "ar_Proposal r" "ar_Attempt r" "ApplyBlob r"] by (auto simp: writeApplyFile_def)
  have ok0: "saved_ok ?st" using s1 r by (auto simp: saved_ok_def newRecorder_def saved_at_def)
  have fresh: "entry_of pl (ch_key n) ?st = freshEntry (ch_addr (node_of pl (ch_key n)))" if "n \<in> set nodes" for n
    using node_index_less [of "ch_key n" pl] that
    by (simp add: entry_at_def newRecorder_def node_of_def pl)
  have start: "passing pl [] ?st"
    unfolding passing_def using fresh
    by (auto simp: newRecorder_def pl freshEntry_def touched_def everInFlight_def LastState_def)
  have "record_ok (pl_attempts pl) (pl_nodes pl) r" by (simp add: record_ok_def deps_applied_def r(2))
  then have "saved_rec pl ?st" using s1(2) r(1) by (simp add: saved_rec_def newRecorder_def)
  then have "saved_rec pl st" using passThrough_saved [OF st(1) assms(2) ok _ ok0 start] by (simp add: pl)
  moreover have "order_inv pl x [] []"
    unfolding st(2)
  proof (rule order_start [OF ok])
    show "passThrough env pl (pl_nodes pl) ?st = Some (Inr u, st)" using st(1) by (simp add: pl)
    show "\<And>k. map_of (pl_seed pl) k \<noteq> None \<Longrightarrow> k \<in> ch_key ` set (pl_nodes pl)"
      unfolding pl(3) seedOf_dom pl(1) by blast
  qed (simp_all add: newRecorder_def pl)
  moreover have "\<exists>att. flight_inv pl (p_ID p) att x" by (rule beginChange_flight [OF assms(1-3)])
  ultimately show ?thesis using ok unfolding walk_inv_def st(2) by (auto simp: walk_start_def)
qed

end

lemma plan_deps: "plan_ok pl \<Longrightarrow> \<forall>n \<in> set (pl_nodes pl). set (ch_dependsOn n) \<subseteq> ch_key ` set (pl_nodes pl)"
proof (intro ballI subsetI)
  fix n d assume ok: "plan_ok pl" and n: "n \<in> set (pl_nodes pl)" "d \<in> set (ch_dependsOn n)"
  obtain i where i: "i < length (pl_nodes pl)" "pl_nodes pl ! i = n" using n(1) by (metis in_set_conv_nth)
  obtain j where "j < i" "ch_key (pl_nodes pl ! j) = d" using ok i n(2) unfolding plan_ok_def by metis
  then show "d \<in> ch_key ` set (pl_nodes pl)" using i by (metis imageI less_trans nth_mem)
qed

text \<open>
  C4. Nothing is shipped ahead of what it depends on. In every state a concurrent ship can reach, in
  memory and in the ledger: a resource that went in flight or is applied in this attempt has only
  dependencies that are applied in it, in the record being built and in the saved one. So the saved
  record, wherever the process dies, leaves the history of attempts in an order the next attempt can
  rely on, which is what this attempt had assumed of it.
\<close>

theorem git_deps_first:
  assumes "beginChange env pool src p g w = Some (Inr (pl, startedAt, x), g1, w1)" "en_ops env = git_ops" "git_ok g"
    and "prior_ok (pl_attempts pl) (pl_nodes pl)" "(walk_step env pool src p maxParallel pl)\<^sup>*\<^sup>* x y"
    and "r = ss_Rec (wk_st y) \<or>
      git_ReadApply (ss_Store (wk_st y)) (p_ID p) (ar_Attempt (ss_Rec (wk_st y))) = Inr (ApplyBlob r)"
  shows "deps_applied (pl_nodes pl) r \<and> prior_ok (pl_attempts pl @ [r]) (pl_nodes pl)"
proof -
  obtain att where x: "plan_ok pl" "gita.walk_inv pl (p_ID p) att x"
    using gita.beginChange_inv [OF assms(1-4)] by blast
  have y: "gita.walk_inv pl (p_ID p) att y" by (rule gita.walk_steps_inv [OF assms(5) x(1) assms(2) x(2)])
  have "record_ok (pl_attempts pl) (pl_nodes pl) r"
    using assms(6) entries_record_ok [OF x(1) gita.walk_inv_entries [OF y]] y
    by (auto simp: gita.walk_inv_def gita.saved_rec_def gita.flight_inv_def)
  then show ?thesis using prior_ok_snoc [OF assms(4) _ plan_deps [OF x(1)]] by (simp add: record_ok_def)
qed

lemma git_deps_first_witness:
  "\<exists>y. sample_step\<^sup>*\<^sup>* (walk_start sample_plan sample_start) y \<and> wk_running y = [(''s.t.a'', sample_work)] \<and>
    deps_applied (pl_nodes sample_plan) (ss_Rec (wk_st y)) \<and>
    prior_ok (pl_attempts sample_plan @ [ss_Rec (wk_st y)]) (pl_nodes sample_plan)"
proof -
  obtain x where x: "sample_step\<^sup>*\<^sup>* (walk_start sample_plan sample_start) x" "wk_running x = [(''s.t.a'', sample_work)]"
    using sample_running by blast
  have env: "en_ops sample_env = git_ops" by (simp add: sample_env_def)
  have ok: "git_ok git_empty" by (simp add: git_ok_def git_Head_def git_empty_def)
  have prior: "prior_ok (pl_attempts sample_plan) (pl_nodes sample_plan)"
    by (simp add: prior_ok_def sample_plan_def planOf_def foldResourceHistory_def entriesFor_def rh_applied_def)
  show ?thesis using git_deps_first [OF sample_begin env ok prior x(1) disjI1 [OF refl]] x by blast
qed

end
