(* ===== verification/ShipEnds.thy ===== *)
theory ShipEnds
  imports ShipSched
begin

text \<open>
  A concurrent ship ends: every step brings the walk closer to its end, and a walk that cannot go on is
  over or waits for a call that does not return.
\<close>

section \<open>Every walk is finite\<close>

text \<open>
  The way of a key from being launched to being done or failed, and inside it the steps of its program.
\<close>

definition way_left :: "('s, 'w) walk \<Rightarrow> nat" where
  "way_left x = 5 * length (wk_todo x) + 4 * length (wk_waiting x) + 3 * length (wk_running x) +
     (if wk_main x = None then 0 else 3) + 2 * length (wk_fatal x)"

definition programs :: "('s, 'w) walk \<Rightarrow> ('s, 'w, unit) prog multiset" where
  "programs x = mset (map snd (wk_running x)) + (case wk_main x of None \<Rightarrow> {#} | Some q \<Rightarrow> {#snd q#})"

definition walk_measure :: "plan \<Rightarrow> ('s, 'w) walk \<Rightarrow> nat \<times> nat \<times> ('s, 'w, unit) prog multiset" where
  "walk_measure pl x = (length (toProcess pl) - wk_processed x, way_left x, programs x)"

definition walk_order :: "((nat \<times> nat \<times> ('s, 'w, unit) prog multiset) \<times> (nat \<times> nat \<times> ('s, 'w, unit) prog multiset)) set" where
  "walk_order = less_than <*lex*> less_than <*lex*> mult {(Q, P). prog_next Q P}"

lemma wf_walk_order: "wf (walk_order :: ((nat \<times> nat \<times> ('s, 'w, unit) prog multiset) \<times> _) set)"
proof -
  have "wf {(Q, P). prog_next Q (P :: ('s, 'w, unit) prog)}"
    using prog_next_wf by (simp add: wfp_def)
  then show ?thesis by (auto simp: walk_order_def intro: wf_mult)
qed

lemma mult_one: "(Q, P) \<in> r \<Longrightarrow> (add_mset Q M, add_mset P M) \<in> mult r"
  using one_step_implies_mult [of "{#P#}" "{#Q#}" r M] by simp

lemma walk_step_decreases:
  assumes "walk_step env pool src p m pl x y"
  shows "(walk_measure pl y, walk_measure pl x) \<in> walk_order"
  using assms
proof cases
  case (records k P Q st')
  then have "(programs y, programs x) \<in> mult {(Q, P). prog_next Q P}"
    using mult_one [of Q P "{(Q, P). prog_next Q P}" "mset (map snd (wk_running x))"] step_prog_next
    by (fastforce simp: programs_def)
  then show ?thesis using records by (simp add: walk_measure_def walk_order_def way_left_def)
next
  case (works us k P vs Q st')
  let ?M = "mset (map snd (us @ vs)) + (case wk_main x of None \<Rightarrow> {#} | Some q \<Rightarrow> {#snd q#})"
  have "programs x = add_mset P ?M" "programs y = add_mset Q ?M"
    using works by (simp_all add: programs_def)
  then have "(programs y, programs x) \<in> mult {(Q, P). prog_next Q P}"
    using mult_one [of Q P "{(Q, P). prog_next Q P}" ?M] step_prog_next [OF works(3)] by simp
  then show ?thesis using works by (simp add: walk_measure_def walk_order_def way_left_def)
next
  case (receives k ks pending todo)
  then have "length (toProcess pl) - wk_processed y < length (toProcess pl) - wk_processed x" by simp
  then show ?thesis by (simp add: walk_measure_def walk_order_def)
qed (simp_all add: walk_measure_def walk_order_def way_left_def)

lemma walk_step_wf: "wfP (\<lambda>y x. walk_step env pool src p m pl x y)"
proof -
  have "{(y, x). walk_step env pool src p m pl x y} \<subseteq> inv_image walk_order (walk_measure pl)"
    using walk_step_decreases by auto
  then show ?thesis
    unfolding wfp_def by (rule wf_subset [rotated]) (rule wf_inv_image [OF wf_walk_order])
qed

section \<open>A walk that cannot go on\<close>

text \<open>A goroutine in a call that does not return.\<close>

definition hangs :: "('s, 'w, 'sch) shipEnv \<Rightarrow> plan \<Rightarrow> ('s, 'w) walk \<Rightarrow> string \<times> ('s, 'w, unit) prog \<Rightarrow> bool" where
  "hangs env pl x q \<longleftrightarrow> (\<forall>r. snd q \<noteq> Done r) \<and> step_prog (en_ops env) (node_index pl (fst q)) (snd q) (wk_st x) = None"

lemma walk_steps_sched:
  assumes "(walk_step env pool src p m pl)\<^sup>*\<^sup>* x y" "plan_ok pl" "sched_inv pl x R F"
  shows "\<exists>R F. sched_inv pl y R F"
  using assms(1)
proof (induction rule: rtranclp_induct)
  case base
  then show ?case using assms(3) by blast
next
  case (step y z)
  then show ?case using walk_step_sched [OF step(2) assms(2)] by blast
qed

text \<open>With nothing launched and nothing to receive, everything is processed.\<close>

lemma all_processed:
  assumes ok: "plan_ok pl" and inv: "sched_inv pl x R []" and none: "launched x R [] = R"
  shows "to_ship pl \<subseteq> set R"
proof -
  have "ch_key (pl_nodes pl ! i) \<in> set R" if "i < length (pl_nodes pl)" "pl_nodes pl ! i \<in> set (toProcess pl)" for i
    using that
  proof (induction i rule: less_induct)
    case (less i)
    let ?n = "pl_nodes pl ! i"
    have "d \<in> set R" if d: "d \<in> set (unseeded pl ?n)" for d
    proof -
      have "d \<in> set (ch_dependsOn ?n)" using d by (simp add: unseeded_def)
      then obtain j where j: "j < i" "ch_key (pl_nodes pl ! j) = d" using ok less.prems(1) unfolding plan_ok_def by metis
      have "d \<in> to_ship pl" using unseeded_to_ship [OF ok nth_mem [OF less.prems(1)] d] .
      then have "pl_nodes pl ! j \<in> set (toProcess pl)"
        using to_ship_node [OF ok, of "pl_nodes pl ! j"] j less.prems(1) by simp
      then show ?thesis using less.IH [OF j(1)] j less.prems(1) by simp
    qed
    then show ?case using inv less.prems(2) none by (auto simp: sched_inv_def)
  qed
  then have "ch_key n \<in> set R" if "n \<in> set (toProcess pl)" for n
    using that by (metis in_set_conv_nth toProcess_nodes)
  then show ?thesis by blast
qed

lemma walk_progress:
  assumes ok: "plan_ok pl" and inv: "sched_inv pl x R F" and par: "0 < m"
    and calls: "\<And>q. q \<in> set (procs x) \<Longrightarrow> \<not> hangs env pl x q" and "\<not> walk_over pl x"
  shows "\<exists>y. walk_step env pool src p m pl x y"
proof (cases "wk_main x")
  case (Some q)
  obtain k P where q: "q = (k, P)" by (cases q)
  have "\<not> hangs env pl x (k, P)" using calls Some q by (simp add: procs_def)
  then consider "P = Done (Inr ())" | e where "P = Done (Inl e)"
    | Q st' where "step_prog (en_ops env) (node_index pl k) P (wk_st x) = Some (Q, st')"
    by (auto simp: hangs_def) (metis (full_types) old.sum.exhaust old.unit.exhaust)
  then show ?thesis
    by cases (use Some q in \<open>blast intro: walk_step.intros\<close>)+
next
  case None
  note main = None
  show ?thesis
  proof (cases "wk_todo x")
    case (Cons k ks)
    then show ?thesis using None by (cases "missingDep pl k (wk_st x)") (blast intro: walk_step.intros)+
  next
    case Nil
    note todo = Nil
    show ?thesis
    proof (cases "wk_running x")
      case (Cons q qs)
      obtain k P where q: "q = (k, P)" by (cases q)
      have r: "wk_running x = [] @ (k, P) # qs" using Cons q by simp
      have "\<not> hangs env pl x (k, P)" using calls Cons q by (simp add: procs_def)
      then consider "P = Done (Inr ())" | e where "P = Done (Inl e)"
        | Q st' where "step_prog (en_ops env) (node_index pl k) P (wk_st x) = Some (Q, st')"
        by (auto simp: hangs_def) (metis (full_types) old.sum.exhaust old.unit.exhaust)
      then show ?thesis
        by cases (use r in \<open>blast intro: walk_step.intros\<close>)+
    next
      case Nil
      note running = Nil
      show ?thesis
      proof (cases "wk_waiting x")
        case (Cons q qs)
        then have "wk_waiting x = [] @ (fst q, snd q) # qs" by simp
        then show ?thesis using running par acquires [of x "[]" "fst q" "snd q" qs m] by (metis list.size(3))
      next
        case Nil
        have open_: "wk_abort x = None" "wk_processed x \<noteq> length (toProcess pl)"
          using assms(5) main todo running Nil by (auto simp: walk_over_def)
        have dist: "distinct (launched x R F)" "set (launched x R F) \<subseteq> to_ship pl" "length R = wk_processed x"
          using inv by (simp_all add: sched_inv_def)
        have "distinct (map ch_key (toProcess pl))" using ok by (simp add: plan_ok_def toProcess_def distinct_map_filter)
        then have card: "card (to_ship pl) = length (toProcess pl)" using distinct_card by fastforce
        have "length R = card (set R)" using dist(1) by (simp add: launched_def distinct_card)
        also have "\<dots> \<le> card (to_ship pl)" using dist(2) by (intro card_mono) (auto simp: launched_def)
        finally have less: "wk_processed x < length (toProcess pl)" using dist(3) card open_(2) by simp
        show ?thesis
        proof (cases "wk_fatal x")
          case (Cons e es)
          then show ?thesis using main todo open_(1) less by (blast intro: walk_step.intros)
        next
          case Nil
          note fatal = Nil
          show ?thesis
          proof (cases "wk_done x")
            case (Cons k ks)
            obtain pending td where "release (dependentsOf pl k) (wk_pending x) = (pending, td)" by fastforce
            then show ?thesis using Cons main todo open_(1) less by (blast intro: walk_step.intros)
          next
            case Nil
            have F: "F = []" using inv fatal open_(1) by (simp add: sched_inv_def)
            have "launched x R [] = R"
              using main todo running \<open>wk_waiting x = []\<close> Nil by (simp add: launched_def procs_def)
            then have "to_ship pl \<subseteq> set R" using all_processed [OF ok] inv F by blast
            then have "card (to_ship pl) \<le> length R" by (meson List.finite_set card_length card_mono le_trans)
            then show ?thesis using card dist(3) less by simp
          qed
        qed
      qed
    qed
  qed
qed

text \<open>
  C19. A concurrent ship ends, whatever order the goroutines run in: there is no infinite run of steps,
  and where no step is possible the walk is over (every node processed and every goroutine ended, or given
  up with the error of one) unless some goroutine is in a call that does not return. At least one node
  may run at a time.
\<close>

theorem walk_ends:
  assumes "beginChange env pool src p s w = Some (Inr (pl, startedAt, x), s', w')"
    and "prior_ok (pl_attempts pl) (pl_nodes pl)" "0 < maxParallel"
  shows "wfP (\<lambda>z y. walk_step env pool src p maxParallel pl y z) \<and>
    (\<forall>y. (walk_step env pool src p maxParallel pl)\<^sup>*\<^sup>* x y \<and> (\<nexists>z. walk_step env pool src p maxParallel pl y z) \<longrightarrow>
       walk_over pl y \<or> (\<exists>q \<in> set (procs y). hangs env pl y q))"
proof -
  obtain nodes attempts st where b: "changeNodesOf p = Inr nodes" "pl = planOf attempts nodes" "x = walk_start pl st"
    using beginChange_parts [OF assms(1)] by metis
  have ok: "plan_ok pl" using planOf_ok [OF b(1), of attempts] assms(2) by (simp add: b(2) planOf_def)
  have "walk_over pl y \<or> (\<exists>q \<in> set (procs y). hangs env pl y q)"
    if y: "(walk_step env pool src p maxParallel pl)\<^sup>*\<^sup>* x y" "\<nexists>z. walk_step env pool src p maxParallel pl y z" for y
  proof -
    obtain R F where "sched_inv pl y R F"
      using walk_steps_sched [OF y(1) [unfolded b(3)] ok sched_start [OF ok]] by blast
    then show ?thesis using walk_progress [OF ok _ assms(3)] y(2) by blast
  qed
  then show ?thesis using walk_step_wf by blast
qed

lemma walk_ends_witness:
  "\<exists>y. sample_step\<^sup>*\<^sup>* (walk_start sample_plan sample_start) y \<and>
    (walk_over sample_plan y \<or> (\<exists>q \<in> set (procs y). hangs sample_env sample_plan y q))"
proof -
  have prior: "prior_ok (pl_attempts sample_plan) (pl_nodes sample_plan)"
    by (simp add: prior_ok_def sample_plan_def planOf_def foldResourceHistory_def entriesFor_def rh_applied_def)
  note ends = walk_ends [OF sample_begin prior, of 10, simplified]
  have wf: "wf {(z, y). sample_step y z}" using ends by (simp add: wfp_def)
  let ?R = "{y. sample_step\<^sup>*\<^sup>* (walk_start sample_plan sample_start) y}"
  have "walk_start sample_plan sample_start \<in> ?R" by simp
  then obtain y where y: "y \<in> ?R" "\<And>z. (z, y) \<in> {(z, y). sample_step y z} \<Longrightarrow> z \<notin> ?R"
    by (rule wfE_min [OF wf]) blast
  then have "\<nexists>z. sample_step y z" by (auto intro: rtranclp.rtrancl_into_rtrancl)
  then show ?thesis using ends y(1) by blast
qed

end
