(* ===== verification/ResolveData.thy ===== *)
theory ResolveData
  imports Fleet Scan JsonText ShipGraph
begin

text \<open>
  core/resolver, its data: what an intent file declares, what a stack's providers say of their types, the
  errors of the package, and the ledgers a resolution reads, this stack's and its neighbours'.
\<close>

section \<open>Errors\<close>

text \<open>The package's own sentinels, and an error of package core that it passes on.\<close>

datatype resolveErr =
    Core err
  | Internal string
  | ErrUnknownIntentKind
  | ErrUnexpandedBlueprintCalls
  | ErrInvalidOp
  | ErrDuplicateResource string
  | ErrUnknownType string
  | ErrAmbiguousType string
  | ErrProviderHintUnknown string
  | ErrProviderHintDoesNotOwnType string string
  | ErrCreateTargetExists string
  | ErrModifyTargetMissing string
  | ErrDuplicateDataSource string
  | ErrDataSourceLookupNotConcrete string
  | ErrDataSourceReadFailed string
  | ErrRefNotFound string
  | ErrCycleDetected "string list"
  | ErrComputedWhereConcreteRequired string
  | ErrSecretNotSensitive string
  | ErrNeighborLedgerMissing string
  | ErrCrossStackAddressNotFound string
  | ErrCrossStackPinStale string
  | ErrDuplicateDestroy string
  | ErrDestroyResourceConflict string
  | ErrDestroyTargetMissing string
  | ErrRefToDestroyTarget string
  | ErrDestroyOrphaned string string
  | ErrDependentLedgerMissing string
  | ErrDestroyTargetNoLookup string
  | ErrModifyTargetNoLookup string
  | ErrMarkerStringLiteral string
  | ErrSecretEmbeddedInString string
  | ErrConfigKeys "resolveErr list"
  | ErrUnknownConfigKey string
  | ErrMissingRequiredAttribute string

section \<open>Runs that may not return\<close>

text \<open>
  Folding a ledger walks its chain, which does not end on a chain with a cycle: \<open>None\<close> is a run that does
  not return.
\<close>

type_synonym 'a rrun = "(resolveErr, 'a) res option"

definition tbind :: "'a rrun \<Rightarrow> ('a \<Rightarrow> 'b rrun) \<Rightarrow> 'b rrun" where
  "tbind m f = (case m of None \<Rightarrow> None | Some (Inl e) \<Rightarrow> Some (Inl e) | Some (Inr a) \<Rightarrow> f a)"

definition tret :: "'a \<Rightarrow> 'a rrun" where
  "tret a = Some (Inr a)"

definition tfail :: "resolveErr \<Rightarrow> 'a rrun" where
  "tfail e = Some (Inl e)"

definition of_core :: "(err, 'a) res \<Rightarrow> (resolveErr, 'a) res" where
  "of_core r = (case r of Inl e \<Rightarrow> Inl (Core e) | Inr a \<Rightarrow> Inr a)"

lemma tbind_simps [simp]:
  "tbind None f = None" "tbind (Some (Inl e)) f = Some (Inl e)" "tbind (Some (Inr a)) f = f a"
  "tbind (tret a) f = f a" "tbind (tfail e) f = tfail e"
  by (simp_all add: tbind_def tret_def tfail_def)

lemma tbind_Inr_iff [res_simps]: "tbind m f = Some (Inr b) \<longleftrightarrow> (\<exists>a. m = Some (Inr a) \<and> f a = Some (Inr b))"
  by (auto simp: tbind_def split: option.splits sum.splits)

lemma tret_iff [res_simps]: "tret a = Some (Inr b) \<longleftrightarrow> a = b" "tfail e \<noteq> Some (Inr b)"
  by (auto simp: tret_def tfail_def)

lemma of_core_Inr_iff [res_simps]: "of_core r = Inr a \<longleftrightarrow> r = Inr a"
  by (auto simp: of_core_def split: sum.splits)

lemma of_core_simps [simp]: "of_core (Inr a) = Inr a" "of_core (Inl e) = Inl (Core e)"
  by (simp_all add: of_core_def)

fun tmap :: "('a \<Rightarrow> 'b rrun) \<Rightarrow> 'a list \<Rightarrow> 'b list rrun" where
  "tmap f [] = tret []"
| "tmap f (x # xs) = tbind (f x) (\<lambda>y. tbind (tmap f xs) (\<lambda>ys. tret (y # ys)))"

lemma tmap_cong [fundef_cong]:
  "xs = ys \<Longrightarrow> (\<And>x. x \<in> set ys \<Longrightarrow> f x = g x) \<Longrightarrow> tmap f xs = tmap g ys"
  by (induction xs arbitrary: ys) auto

lemma tmap_Inr_iff: "tmap f xs = Some (Inr ys) \<longleftrightarrow> list_all2 (\<lambda>x y. f x = Some (Inr y)) xs ys"
  by (induction xs arbitrary: ys) (auto simp: res_simps list_all2_Cons1)

fun tfold :: "('a \<Rightarrow> 's \<Rightarrow> 's rrun) \<Rightarrow> 'a list \<Rightarrow> 's \<Rightarrow> 's rrun" where
  "tfold f [] s = tret s"
| "tfold f (x # xs) s = tbind (f x s) (tfold f xs)"

lemma tfold_invar:
  assumes "tfold f xs s = Some (Inr s')" "P s" "\<And>x s s'. x \<in> set xs \<Longrightarrow> f x s = Some (Inr s') \<Longrightarrow> P s \<Longrightarrow> P s'"
  shows "P s'"
  using assms
proof (induction xs arbitrary: s)
  case (Cons x xs)
  then obtain t where t: "f x s = Some (Inr t)" "tfold f xs t = Some (Inr s')" by (auto simp: res_simps)
  then show ?case using Cons.IH [OF t(2)] Cons.prems(2, 3) by (metis list.set_intros)
qed (simp add: res_simps)

section \<open>Ledgers\<close>

text \<open>A ledger that is read: its store, whether it was ever used, and how its stack is addressed.\<close>

record 's ledger =
  lg_Ops :: "'s store_ops"
  lg_Store :: 's
  lg_Exists :: bool
  lg_BaseStore :: string
  lg_ExternalStacks :: "string \<Rightarrow> string option"

definition led_FoldState :: "'s ledger \<Rightarrow> Address \<Rightarrow> (raw \<times> bool) rrun" where
  "led_FoldState l addr = map_option of_core (FoldState (lg_Ops l) (lg_Store l) addr)"

definition led_FoldSources :: "'s ledger \<Rightarrow> Address \<Rightarrow> (IntentSource list \<times> bool) rrun" where
  "led_FoldSources l addr = map_option of_core (FoldSources (lg_Ops l) (lg_Store l) addr)"

definition led_LastLookup :: "'s ledger \<Rightarrow> Address \<Rightarrow> raw rrun" where
  "led_LastLookup l addr = map_option of_core (LastLookup (lg_Ops l) (lg_Store l) addr)"

definition led_Chain :: "'s ledger \<Rightarrow> Proposal list rrun" where
  "led_Chain l = map_option of_core (Chain (lg_Ops l) (lg_Store l))"

definition led_Head :: "'s ledger \<Rightarrow> string rrun" where
  "led_Head l = Some (of_core (so_Head (lg_Ops l) (lg_Store l)))"

text \<open>core/openref.go: a reference is a directory, or a URI for the opener that was registered, if any.\<close>

definition looksLikeStoreURI :: "string \<Rightarrow> bool" where
  "looksLikeStoreURI ref \<longleftrightarrow> sublist ''://'' ref"

definition OpenRef ::
    "(string \<Rightarrow> 's ledger) \<Rightarrow> (string \<Rightarrow> (err, 's ledger) res) option \<Rightarrow> string \<Rightarrow> (err, 's ledger) res" where
  "OpenRef openDir remoteLedgerOpener ref =
     (if \<not> looksLikeStoreURI ref then Inr (openDir ref)
      else case remoteLedgerOpener of
          None \<Rightarrow> Inl (EMsg ''no remote ledger store support registered in this build'')
        | Some opener \<Rightarrow> opener ref)"

section \<open>Providers\<close>

text \<open>What a provider's schema answers about its types; the schema is the provider's.\<close>

record SchemaInspector =
  si_HasType :: "string \<Rightarrow> bool"
  si_IsComputed :: "string \<Rightarrow> string \<Rightarrow> bool"
  si_IsProviderOwned :: "string \<Rightarrow> string \<Rightarrow> bool"
  si_IsSensitive :: "string \<Rightarrow> string \<Rightarrow> bool"
  si_UnknownConfigKeys :: "string \<Rightarrow> fields \<Rightarrow> (string \<times> string) list"
  si_MissingRequiredKeys :: "string \<Rightarrow> fields \<Rightarrow> string list"

record ('w, 'sch) DeclaredProvider =
  dp_Source :: string
  dp_Version :: string
  dp_Schema :: SchemaInspector
  dp_Reader :: "('w, 'sch) StateReader option"
  dp_ProviderConfig :: raw

definition schemaOwnershipAdapter :: "SchemaInspector \<Rightarrow> string \<Rightarrow> ownership" where
  "schemaOwnershipAdapter schema typeName = Some (si_IsProviderOwned schema typeName)"

definition InferProvider ::
    "('w, 'sch) DeclaredProvider list \<Rightarrow> string \<Rightarrow> string option \<Rightarrow> (resolveErr, ('w, 'sch) DeclaredProvider) res" where
  "InferProvider providers typeName hint =
     (case filter (\<lambda>p. si_HasType (dp_Schema p) typeName) providers of
        [] \<Rightarrow> Inl (ErrUnknownType typeName)
      | [o1] \<Rightarrow> Inr o1
      | owners \<Rightarrow> (case hint of
            None \<Rightarrow> Inl (ErrAmbiguousType typeName)
          | Some source \<Rightarrow>
              if \<not> (\<exists>p \<in> set providers. dp_Source p = source) then Inl (ErrProviderHintUnknown source)
              else (case find (\<lambda>p. dp_Source p = source) owners of
                  Some o1 \<Rightarrow> Inr o1
                | None \<Rightarrow> Inl (ErrProviderHintDoesNotOwnType source typeName))))"

section \<open>Intent files\<close>

definition IntentFileKind :: string where "IntentFileKind = ''ubx:intent/v1''"

definition OpCreate :: string where "OpCreate = ''create''"
definition OpModify :: string where "OpModify = ''modify''"

record ResourceIntent =
  ri_Type :: string
  ri_Name :: string
  ri_Op :: string
  ri_Config :: raw
  ri_Provider :: "string option"
  ri_DependsOn :: "string list"
  ri_Sources :: "IntentSource list"
  ri_ForEach :: string
  ri_CreateIf :: "string list"

record DataSourceIntent =
  di_Type :: string
  di_Name :: string
  di_Lookup :: raw
  di_Sources :: "IntentSource list"

record BlueprintCall =
  bc_Name :: string
  bc_Blueprint :: string
  bc_Ref :: string
  bc_Path :: string
  bc_Args :: "(string \<times> string) list"
  bc_CallName :: string

record Override =
  ov_Address :: string
  ov_Config :: "(string \<times> raw) list"

record IntentFile =
  if_SchemaVersion :: int
  if_Kind :: string
  if_Stack :: string
  if_Intent :: Intent
  if_Resources :: "ResourceIntent list"
  if_DataSources :: "DataSourceIntent list"
  if_Destroys :: "string list"
  if_BlueprintOutputs :: "(string \<times> string) list"
  if_BlueprintCalls :: "BlueprintCall list"
  if_Overrides :: "Override list"

section \<open>The batch\<close>

text \<open>
  One entry of the batch. The Go struct has both a resource and a pointer to a data source, of which one is
  in use; a nil config, of an entry that is not resolved, is \<open>None\<close>.
\<close>

datatype entrySpec = IsResource ResourceIntent | IsData DataSourceIntent

record ('w, 'sch) batchEntry =
  be_Spec :: entrySpec
  be_addr :: Address
  be_provider :: "('w, 'sch) DeclaredProvider"
  be_rawEdges :: "string list"
  be_resolvedConfig :: "fields option"

type_synonym ('w, 'sch) batch = "(string, ('w, 'sch) batchEntry) amap"

definition isDataSource :: "('w, 'sch) batchEntry \<Rightarrow> bool" where
  "isDataSource e \<longleftrightarrow> (case be_Spec e of IsData d \<Rightarrow> True | IsResource r \<Rightarrow> False)"

definition typeName :: "('w, 'sch) batchEntry \<Rightarrow> string" where
  "typeName e = (case be_Spec e of IsData d \<Rightarrow> di_Type d | IsResource r \<Rightarrow> ri_Type r)"

definition rawValue :: "('w, 'sch) batchEntry \<Rightarrow> raw" where
  "rawValue e = (case be_Spec e of IsData d \<Rightarrow> di_Lookup d | IsResource r \<Rightarrow> ri_Config r)"

definition entryOp :: "('w, 'sch) batchEntry \<Rightarrow> string" where
  "entryOp e = (case be_Spec e of IsData d \<Rightarrow> [] | IsResource r \<Rightarrow> ri_Op r)"

definition entryDependsOn :: "('w, 'sch) batchEntry \<Rightarrow> string list" where
  "entryDependsOn e = (case be_Spec e of IsData d \<Rightarrow> [] | IsResource r \<Rightarrow> ri_DependsOn r)"

definition entrySources :: "('w, 'sch) batchEntry \<Rightarrow> IntentSource list" where
  "entrySources e = (case be_Spec e of IsData d \<Rightarrow> di_Sources d | IsResource r \<Rightarrow> ri_Sources r)"

definition inBatch :: "('w, 'sch) batch \<Rightarrow> string \<Rightarrow> bool" where
  "inBatch b k \<longleftrightarrow> map_of b k \<noteq> None"

section \<open>Order\<close>

text \<open>core/resolver/graph.go: the executor's sort, with an error of this package.\<close>

definition topoSort :: "string list \<Rightarrow> (string \<Rightarrow> string list option) \<Rightarrow> (resolveErr, string list) res" where
  "topoSort nodes edgesOf = (case topoSortAddresses nodes edgesOf of
      Inl (ErrDependencyCycle cycle) \<Rightarrow> Inl (ErrCycleDetected cycle)
    | Inl e \<Rightarrow> Inl (Core e)
    | Inr order \<Rightarrow> Inr order)"

section \<open>Pins\<close>

text \<open>The pins of a proposal hold: every pinned neighbour still has the head it was read at.\<close>

fun VerifyPins :: "(string \<Rightarrow> (err, 's ledger) res) \<Rightarrow> ResolutionInput list \<Rightarrow> unit rrun" where
  "VerifyPins opener [] = tret ()"
| "VerifyPins opener (i # ins) =
     (if in_Kind i \<noteq> ''cross_stack_pin'' then VerifyPins opener ins
      else tbind (Some (of_core (opener (in_LedgerDir i)))) (\<lambda>neighbor.
           tbind (led_Head neighbor) (\<lambda>head.
             if head \<noteq> in_PinnedHead i then tfail (ErrCrossStackPinStale (in_Resource i))
             else VerifyPins opener ins)))"

end
