(* ===== verification/ResolveRefs.thy ===== *)
theory ResolveRefs
  imports ResolveData ShipNode
begin

text \<open>
  core/resolver/refs.go: the markers of an intent's values, which of them make an entry of the batch depend
  on another, and what a marker resolves to. A \<open>resolveCtx\<close> holds what the walk over one entry's value
  carries along unchanged: Go passes each as a parameter.
\<close>

section \<open>Markers\<close>

definition markerRef :: string where "markerRef = CHR 0x24 # ''ref''"
definition markerCross :: string where "markerCross = CHR 0x24 # ''cross''"
definition markerSecret :: string where "markerSecret = CHR 0x24 # ''secret''"
definition markerComputed :: string where "markerComputed = CHR 0x24 # ''computed''"
definition markerEphemeral :: string where "markerEphemeral = CHR 0x24 # ''ephemeral''"

definition markerKeys :: "string list" where
  "markerKeys = [markerRef, markerCross, markerSecret, markerComputed, markerEphemeral]"

definition isAnyMarkerShape :: "fields \<Rightarrow> bool" where
  "isAnyMarkerShape m \<longleftrightarrow> length m = 1 \<and> (\<exists>k \<in> set markerKeys. map_of m k \<noteq> None)"

fun containsMarker :: "gval \<Rightarrow> bool" where
  "containsMarker (GObj fs) \<longleftrightarrow> isAnyMarkerShape fs \<or> (\<exists>b \<in> set fs. containsMarker (snd b))"
| "containsMarker (GArr xs) \<longleftrightarrow> (\<exists>x \<in> set xs. containsMarker x)"
| "containsMarker v \<longleftrightarrow> False"

definition asMarker :: "fields \<Rightarrow> string \<Rightarrow> fields option" where
  "asMarker m key = (if length m \<noteq> 1 then None
     else case map_of m key of Some (GObj inner) \<Rightarrow> Some inner | _ \<Rightarrow> None)"

fun unsafeToEmbedSecret :: "gval \<Rightarrow> bool" where
  "unsafeToEmbedSecret (GObj fs) \<longleftrightarrow> asMarker fs markerSecret \<noteq> None \<or> (\<exists>b \<in> set fs. unsafeToEmbedSecret (snd b))"
| "unsafeToEmbedSecret (GArr xs) \<longleftrightarrow> (\<exists>x \<in> set xs. unsafeToEmbedSecret x)"
| "unsafeToEmbedSecret v \<longleftrightarrow> False"

definition isEphemeralMarker :: "fields \<Rightarrow> bool" where
  "isEphemeralMarker m \<longleftrightarrow> length m = 1 \<and> map_of m markerEphemeral = Some (GBool True)"

definition isComputedMarker :: "gval \<Rightarrow> bool" where
  "isComputedMarker v \<longleftrightarrow> (case v of GObj m \<Rightarrow> length m = 1 \<and> map_of m markerComputed \<noteq> None | _ \<Rightarrow> False)"

definition splitRefTarget :: "string \<Rightarrow> (resolveErr, string \<times> string) res" where
  "splitRefTarget s = (case splitn (CHR ''.'') 4 s of
      [a, b, c, path] \<Rightarrow> if a = [] \<or> b = [] \<or> c = [] \<or> path = [] then Inl (ErrRefNotFound s)
         else Inr (join_with (CHR ''.'') [a, b, c], path)
    | _ \<Rightarrow> Inl (ErrRefNotFound s))"

lemma containsMarker_container: "containsMarker v \<Longrightarrow> is_container v"
  by (cases v) auto

section \<open>Edges\<close>

text \<open>
  The addresses of the batch that a value refers to. Of several members with a malformed reference, Go
  reports one in the order of that run; here the first.
\<close>

function scanWalk :: "('w, 'sch) batch \<Rightarrow> gval \<Rightarrow> (resolveErr, string list) res" where
  "scanWalk batch (GObj fs) =
     (case asMarker fs markerRef of
        Some inner \<Rightarrow> rbind (splitRefTarget (get_str inner ''to'')) (\<lambda>(addrStr, _).
                        Inr (if inBatch batch addrStr then [addrStr] else []))
      | None \<Rightarrow>
          if asMarker fs markerCross \<noteq> None then Inr []
          else if asMarker fs markerSecret \<noteq> None then Inr []
          else if isEphemeralMarker fs then Inr []
          else rbind (map_res (\<lambda>b. scanWalk batch (snd b)) fs) (\<lambda>ess. Inr (concat ess)))"
| "scanWalk batch (GArr xs) = rbind (map_res (scanWalk batch) xs) (\<lambda>ess. Inr (concat ess))"
| "scanWalk batch (GStr t) = (case unmarshal_text t of
      None \<Rightarrow> Inr []
    | Some w \<Rightarrow> if containsMarker w then scanWalk batch w else Inr [])"
| "scanWalk batch GNil = Inr []"
| "scanWalk batch (GBool b) = Inr []"
| "scanWalk batch (GNumber s) = Inr []"
| "scanWalk batch (GFloat f) = Inr []"
| "scanWalk batch (GInt i) = Inr []"
  by pat_completeness auto

termination scanWalk
proof (relation "inv_image (less_than <*lex*> less_than) (\<lambda>(b, v). (ascii_in v, size v))", goal_cases)
  case 1
  then show ?case by auto
next
  case (2 batch fs b)
  then show ?case using ascii_in_member [of b fs] gval_size_obj_snd [of b fs] by auto
next
  case (3 batch xs x)
  then show ?case using ascii_in_elem [of x xs] gval_size_arr [of x xs] by auto
next
  case (4 batch t w)
  then show ?case using unmarshal_text_ascii [of t w] containsMarker_container [of w] by auto
qed

definition scanRefEdges :: "('w, 'sch) batch \<Rightarrow> gval \<Rightarrow> (resolveErr, string list) res" where
  "scanRefEdges batch v = rbind (scanWalk batch v) (\<lambda>es. Inr (sort (remdups es)))"

text \<open>One address of an entry's own depends_on list.\<close>

definition dependOn ::
    "'s ledger \<Rightarrow> ('w, 'sch) batch \<Rightarrow> string set \<Rightarrow> string \<Rightarrow> string list \<Rightarrow> string list rrun" where
  "dependOn l batch destroySet to out =
     (if to \<in> destroySet then tfail (ErrRefToDestroyTarget to)
      else if inBatch batch to then tret (if to \<in> set out then out else out @ [to])
      else case ParseAddress to of
          None \<Rightarrow> tfail (ErrRefNotFound to)
        | Some addr \<Rightarrow> tbind (led_FoldState l addr) (\<lambda>(_, found).
            if found then tret out else tfail (ErrRefNotFound to)))"

definition unionDependsOn ::
    "'s ledger \<Rightarrow> ('w, 'sch) batch \<Rightarrow> string set \<Rightarrow> string list \<Rightarrow> string list \<Rightarrow> string list rrun" where
  "unionDependsOn l batch destroySet dependsOn edges =
     (if dependsOn = [] then tret edges
      else tbind (tfold (dependOn l batch destroySet) dependsOn edges) (\<lambda>out. tret (sort out)))"

section \<open>Values\<close>

record ('s, 'w, 'sch) resolveCtx =
  rc_sha :: "string \<Rightarrow> string"
  rc_ledger :: "'s ledger"
  rc_open :: "string \<Rightarrow> (err, 's ledger) res"
  rc_schema :: SchemaInspector
  rc_batch :: "('w, 'sch) batch"
  rc_destroys :: "string set"
  rc_typeName :: string
  rc_from :: string

type_synonym resolvedValue = "gval \<times> ResolutionInput list"

text \<open>The value at a path of a recorded state.\<close>

definition recordedValue :: "raw \<Rightarrow> string \<Rightarrow> string \<Rightarrow> (resolveErr, gval) res" where
  "recordedValue state addrStr attrPath = (case DotGet state attrPath of
      None \<Rightarrow> Inl (Core EJson)
    | Some None \<Rightarrow> Inl (ErrRefNotFound addrStr)
    | Some (Some v) \<Rightarrow> Inr v)"

definition resolveRef :: "('s, 'w, 'sch) resolveCtx \<Rightarrow> fields \<Rightarrow> resolvedValue rrun" where
  "resolveRef c inner =
     (let to = get_str inner ''to''
      in tbind (Some (splitRefTarget to)) (\<lambda>(addrStr, attrPath).
         if addrStr \<in> rc_destroys c then tfail (ErrRefToDestroyTarget addrStr)
         else case map_of (rc_batch c) addrStr of
             Some target \<Rightarrow>
               (case be_resolvedConfig target of
                  None \<Rightarrow> tfail (Internal addrStr)
                | Some config \<Rightarrow>
                    if \<not> isDataSource target \<and> si_IsComputed (dp_Schema (be_provider target)) (typeName target) attrPath
                    then tret (GObj [(markerComputed, GObj [(''from'', GStr to)])], [])
                    else case dotGetGeneric config attrPath of
                        None \<Rightarrow> tfail (ErrRefNotFound addrStr)
                      | Some val \<Rightarrow> if isComputedMarker val then tfail (ErrComputedWhereConcreteRequired addrStr)
                                   else tret (val, []))
           | None \<Rightarrow>
               (case ParseAddress addrStr of
                  None \<Rightarrow> tfail (ErrRefNotFound addrStr)
                | Some addr \<Rightarrow> tbind (led_FoldState (rc_ledger c) addr) (\<lambda>(state, found).
                    if \<not> found then tfail (ErrRefNotFound addrStr)
                    else tbind (Some (recordedValue state addrStr attrPath)) (\<lambda>v. tret (v, []))))))"

definition deriveStackAddress :: "string \<Rightarrow> string \<Rightarrow> string" where
  "deriveStackAddress base stack =
     (if base \<noteq> [] \<and> last base = CHR ''/'' then butlast base else base) @ ''/'' @ stack @ ''/''"

text \<open>Where a reference into another stack's ledger points: a directory it names, or its stack's own store.\<close>

definition crossTarget :: "'s ledger \<Rightarrow> string \<Rightarrow> string \<Rightarrow> (resolveErr, string) res" where
  "crossTarget l ledgerDir stackName =
     (if stackName = [] then Inr ledgerDir
      else let base = (case lg_ExternalStacks l stackName of Some override \<Rightarrow> override | None \<Rightarrow> lg_BaseStore l)
           in if base = [] then Inl (ErrRefNotFound stackName) else Inr (deriveStackAddress base stackName))"

definition pinInput :: "string \<Rightarrow> string \<Rightarrow> string \<Rightarrow> string \<Rightarrow> string \<Rightarrow> ResolutionInput" where
  "pinInput resource from ohash head ref =
     \<lparr>in_Kind = ''cross_stack_pin'', in_Resource = resource, in_From = from, in_ObservedHash = ohash,
      in_Lookup = None, in_ProviderChecksum = [], in_PinnedHead = head, in_LedgerDir = ref,
      in_Status = [], in_CheckedLedgerDirs = []\<rparr>"

definition resolveCross :: "('s, 'w, 'sch) resolveCtx \<Rightarrow> fields \<Rightarrow> resolvedValue rrun" where
  "resolveCross c inner =
     (let ledgerDir = get_str inner ''ledger_dir''; stackName = get_str inner ''stack''; to = get_str inner ''to''
      in if ledgerDir \<noteq> [] \<and> stackName \<noteq> [] then tfail (ErrRefNotFound to)
         else if to = [] \<or> (ledgerDir = [] \<and> stackName = []) then tfail (ErrRefNotFound to)
         else tbind (Some (splitRefTarget to)) (\<lambda>(addrStr, attrPath).
              case ParseAddress addrStr of
                None \<Rightarrow> tfail (ErrRefNotFound addrStr)
              | Some addr \<Rightarrow>
                  tbind (Some (crossTarget (rc_ledger c) ledgerDir stackName)) (\<lambda>ref.
                  tbind (Some (of_core (rc_open c ref))) (\<lambda>neighbor.
                  if \<not> lg_Exists neighbor then tfail (ErrNeighborLedgerMissing ref)
                  else tbind (led_Head neighbor) (\<lambda>head.
                       tbind (led_FoldState neighbor addr) (\<lambda>(state, found).
                       if \<not> found then tfail (ErrCrossStackAddressNotFound addrStr)
                       else tbind (Some (of_core (ObservedHash (rc_sha c) state))) (\<lambda>ohash.
                            tbind (Some (recordedValue state addrStr attrPath)) (\<lambda>v.
                            tret (v, [pinInput (addr_String addr) (rc_from c) ohash head ref])))))))))"

definition looksLikeMarker :: "string \<Rightarrow> bool" where
  "looksLikeMarker t \<longleftrightarrow> (\<exists>key \<in> set markerKeys. prefix (key @ '':'') t)"

text \<open>A value without markers to resolve: what the walk does when it need not walk further.\<close>

definition markerValue :: "('s, 'w, 'sch) resolveCtx \<Rightarrow> string \<Rightarrow> fields \<Rightarrow> resolvedValue rrun option" where
  "markerValue c path fs =
     (case asMarker fs markerRef of
        Some inner \<Rightarrow> Some (resolveRef c inner)
      | None \<Rightarrow> (case asMarker fs markerCross of
          Some inner \<Rightarrow> Some (resolveCross c inner)
        | None \<Rightarrow> (case asMarker fs markerSecret of
            Some inner \<Rightarrow> Some (if \<not> si_IsSensitive (rc_schema c) (rc_typeName c) path
              then tfail (ErrSecretNotSensitive path) else tret (GObj [(markerSecret, GObj inner)], []))
          | None \<Rightarrow> if isEphemeralMarker fs then Some (tret (GObj fs, [])) else None)))"

function resolveValue :: "('s, 'w, 'sch) resolveCtx \<Rightarrow> string \<Rightarrow> gval \<Rightarrow> resolvedValue rrun" where
  "resolveValue c path (GObj fs) = (case markerValue c path fs of
      Some r \<Rightarrow> r
    | None \<Rightarrow> tbind (tmap (\<lambda>b. tbind (resolveValue c (sub_path path (fst b)) (snd b)) (\<lambda>(v, ins).
                tret ((fst b, v), ins))) fs) (\<lambda>rs. tret (GObj (map fst rs), concat (map snd rs))))"
| "resolveValue c path (GArr xs) =
     tbind (tmap (resolveValue c path) xs) (\<lambda>rs. tret (GArr (map fst rs), concat (map snd rs)))"
| "resolveValue c path (GStr t) =
     (if looksLikeMarker t then tfail (ErrMarkerStringLiteral path)
      else case unmarshal_text t of
          None \<Rightarrow> tret (GStr t, [])
        | Some w \<Rightarrow>
            if \<not> containsMarker w then tret (GStr t, [])
            else tbind (resolveValue c path w) (\<lambda>(resolved, ins).
                 if unsafeToEmbedSecret resolved then tfail (ErrSecretEmbeddedInString path)
                 else tret (GStr (marshal_text resolved), ins)))"
| "resolveValue c path GNil = tret (GNil, [])"
| "resolveValue c path (GBool b) = tret (GBool b, [])"
| "resolveValue c path (GNumber s) = tret (GNumber s, [])"
| "resolveValue c path (GFloat f) = tret (GFloat f, [])"
| "resolveValue c path (GInt i) = tret (GInt i, [])"
  by pat_completeness auto

termination resolveValue
proof (relation "inv_image (less_than <*lex*> less_than) (\<lambda>(c, p, v). (ascii_in v, size v))", goal_cases)
  case 1
  then show ?case by auto
next
  case (2 c path fs b)
  then show ?case using ascii_in_member [of b fs] gval_size_obj_snd [of b fs] by auto
next
  case (3 c path xs x)
  then show ?case using ascii_in_elem [of x xs] gval_size_arr [of x xs] by auto
next
  case (4 c path t w)
  then show ?case using unmarshal_text_ascii [of t w] containsMarker_container [of w] by auto
qed

end
