(* ===== verification/ResolveDestroys.thy ===== *)
theory ResolveDestroys
  imports ResolveRefs
begin

text \<open>
  core/resolver/destroys.go: the destroys of an intent. The targets in the order the intent names them are
  an association list from key to address: Go's map and its list of keys in one.
\<close>

section \<open>Targets\<close>

type_synonym targets = "(string \<times> Address) list"

definition destroyTarget ::
    "'s ledger \<Rightarrow> ('w, 'sch) batch \<Rightarrow> string \<Rightarrow> targets \<Rightarrow> targets rrun" where
  "destroyTarget l batch s byKey = (case ParseAddress s of
      None \<Rightarrow> tfail (ErrRefNotFound s)
    | Some addr \<Rightarrow>
        let key = addr_String addr
        in if map_of byKey key \<noteq> None then tfail (ErrDuplicateDestroy key)
           else if inBatch batch key then tfail (ErrDestroyResourceConflict key)
           else tbind (led_FoldState l addr) (\<lambda>(_, found).
                if \<not> found then tfail (ErrDestroyTargetMissing key) else tret (byKey @ [(key, addr)])))"

definition parseDestroyBatch :: "'s ledger \<Rightarrow> string list \<Rightarrow> ('w, 'sch) batch \<Rightarrow> targets rrun" where
  "parseDestroyBatch l destroys batch = tfold (destroyTarget l batch) destroys []"

definition destroyAddrSet :: "targets \<Rightarrow> string set" where
  "destroyAddrSet byKey = set (map fst byKey)"

section \<open>Who depends on what\<close>

text \<open>The strings of a create node's depends_on; anything else in it is passed over.\<close>

definition nodeDependsOn :: "fields \<Rightarrow> string list" where
  "nodeDependsOn node = (case map_of node ''depends_on'' of
      Some (GArr xs) \<Rightarrow> List.map_filter (\<lambda>x. case x of GStr s \<Rightarrow> Some s | _ \<Rightarrow> None) xs
    | _ \<Rightarrow> [])"

type_synonym depsOf = "(string, string list) amap"

definition recordCreate :: "raw \<Rightarrow> depsOf \<Rightarrow> depsOf" where
  "recordCreate r deps = (case unmarshal_map r of
      None \<Rightarrow> deps
    | Some m \<Rightarrow>
        let node = fields_of m; stack = get_str node ''stack''; typ = get_str node ''type''; name = get_str node ''name''
        in if map_of node ''config'' = None then deps
           else if stack = [] \<or> typ = [] \<or> name = [] then deps
           else aput (addr_String (Address stack typ name)) (nodeDependsOn node) deps)"

definition recordModify :: "Modification \<Rightarrow> depsOf \<Rightarrow> depsOf" where
  "recordModify m deps = aput (addr_String (mod_Target m)) (mod_DependsOn m) deps"

definition recordProposal :: "Proposal \<Rightarrow> depsOf \<Rightarrow> depsOf" where
  "recordProposal p deps =
     (if p_Kind p \<noteq> KindChange then deps
      else fold recordModify (d_Modifies (p_Delta p)) (fold recordCreate (d_Creates (p_Delta p)) deps))"

definition latestDependsOn :: "Proposal list \<Rightarrow> depsOf" where
  "latestDependsOn chain = fold recordProposal chain []"

text \<open>The dependers of an address, in the order of their addresses; Go's order is that of the run.\<close>

definition reverseDeps :: "depsOf \<Rightarrow> string \<Rightarrow> string list" where
  "reverseDeps deps key = concat (map (\<lambda>(addr, ds). replicate (count_list ds key) addr) deps)"

definition historicalReverseDependents :: "'s ledger \<Rightarrow> (string \<Rightarrow> string list) rrun" where
  "historicalReverseDependents l = tbind (led_Chain l) (\<lambda>chain. tret (reverseDeps (latestDependsOn chain)))"

section \<open>Orphans\<close>

text \<open>
  The dependers of a target that go before it. One that this proposal does not destroy or touch must be gone.
\<close>

fun dependersOf ::
    "'s ledger \<Rightarrow> targets \<Rightarrow> ('w, 'sch) batch \<Rightarrow> string \<Rightarrow> string list \<Rightarrow> string list rrun" where
  "dependersOf l byKey batch key [] = tret []"
| "dependersOf l byKey batch key (depender # ds) =
     (if map_of byKey depender \<noteq> None \<or> inBatch batch depender
      then tbind (dependersOf l byKey batch key ds) (\<lambda>deps. tret (depender # deps))
      else case ParseAddress depender of
          None \<Rightarrow> dependersOf l byKey batch key ds
        | Some dependerAddr \<Rightarrow> tbind (led_FoldState l dependerAddr) (\<lambda>(_, stillExists).
            if stillExists then tfail (ErrDestroyOrphaned key depender)
            else dependersOf l byKey batch key ds))"

definition plainInput :: "string \<Rightarrow> string \<Rightarrow> ResolutionInput" where
  "plainInput kind resource =
     \<lparr>in_Kind = kind, in_Resource = resource, in_From = [], in_ObservedHash = [], in_Lookup = None,
      in_ProviderChecksum = [], in_PinnedHead = [], in_LedgerDir = [], in_Status = [], in_CheckedLedgerDirs = []\<rparr>"

definition pinsAddress :: "string \<Rightarrow> Proposal \<Rightarrow> bool" where
  "pinsAddress target p \<longleftrightarrow>
     (\<exists>i \<in> set (rs_Inputs (p_Resolution p)). in_Kind i = ''cross_stack_pin'' \<and> in_Resource i = target)"

fun checkDependents :: "(string \<Rightarrow> (err, 's ledger) res) \<Rightarrow> string \<Rightarrow> string list \<Rightarrow> unit rrun" where
  "checkDependents opener target [] = tret ()"
| "checkDependents opener target (dir # dirs) =
     tbind (Some (of_core (opener dir))) (\<lambda>neighbor.
     if \<not> lg_Exists neighbor then tfail (ErrDependentLedgerMissing dir)
     else tbind (led_Chain neighbor) (\<lambda>chain.
          if \<exists>p \<in> set chain. pinsAddress target p then tfail (ErrDestroyOrphaned target dir)
          else checkDependents opener target dirs))"

definition crossStackOrphanCheck ::
    "(string \<Rightarrow> (err, 's ledger) res) \<Rightarrow> Address \<Rightarrow> string list \<Rightarrow> ResolutionInput rrun" where
  "crossStackOrphanCheck opener addr knownDependents =
     (let input = plainInput ''cross_stack_orphan_check'' (addr_String addr)
      in if knownDependents = [] then tret (input\<lparr>in_Status := ''not_performed''\<rparr>)
         else tbind (checkDependents opener (addr_String addr) knownDependents) (\<lambda>_.
              tret (input\<lparr>in_Status := ''checked_clear'', in_CheckedLedgerDirs := knownDependents\<rparr>)))"

section \<open>Destroy entries\<close>

definition withinBatch :: "targets \<Rightarrow> (string \<times> string list) list \<Rightarrow> string \<Rightarrow> string list option" where
  "withinBatch byKey dependsOn key =
     map_option (filter (\<lambda>dep. map_of byKey dep \<noteq> None)) (map_of dependsOn key)"

definition providerRefOf :: "('w, 'sch) DeclaredProvider \<Rightarrow> ProviderRef" where
  "providerRefOf prov = \<lparr>pr_Source = dp_Source prov, pr_Version = dp_Version prov\<rparr>"

definition destroyEntry ::
    "(string \<Rightarrow> string) \<Rightarrow> (string \<Rightarrow> (err, 's ledger) res) \<Rightarrow> 's ledger \<Rightarrow> string list \<Rightarrow>
     ('w, 'sch) DeclaredProvider list \<Rightarrow> string \<Rightarrow> Address \<Rightarrow> string list \<Rightarrow>
     (DestroyEntry \<times> ResolutionInput list) rrun" where
  "destroyEntry sha opener l knownDependents providers key addr deps =
     tbind (led_FoldState l addr) (\<lambda>(state, _).
     tbind (Some (InferProvider providers (addr_Type addr) None)) (\<lambda>prov.
     tbind (led_FoldSources l addr) (\<lambda>(sources, _).
     tbind (Some (of_core (ObservedHash sha state))) (\<lambda>ohash.
     tbind (led_LastLookup l addr) (\<lambda>lookup.
     if lookup = None then tfail (ErrDestroyTargetNoLookup key)
     else tbind (crossStackOrphanCheck opener addr knownDependents) (\<lambda>crossInput.
          tret (\<lparr>des_Address = addr, des_State = state, des_DependsOn = deps,
                 des_Provider = Some (providerRefOf prov), des_Sources = sources\<rparr>,
                [(plainInput ''destroy_target'' key)\<lparr>in_ObservedHash := ohash, in_Lookup := lookup\<rparr>,
                 crossInput])))))))"

definition resolveDestroys ::
    "(string \<Rightarrow> string) \<Rightarrow> (string \<Rightarrow> (err, 's ledger) res) \<Rightarrow> 's ledger \<Rightarrow> targets \<Rightarrow> ('w, 'sch) batch \<Rightarrow>
     string list \<Rightarrow> ('w, 'sch) DeclaredProvider list \<Rightarrow> (DestroyEntry list \<times> ResolutionInput list) rrun" where
  "resolveDestroys sha opener l byKey batch knownDependents providers =
     (if byKey = [] then tret ([], [])
      else tbind (historicalReverseDependents l) (\<lambda>reverse.
           tbind (tmap (\<lambda>(key, _). tbind (dependersOf l byKey batch key (reverse key)) (\<lambda>deps.
                    tret (key, sort deps))) byKey) (\<lambda>dependsOn.
           tbind (Some (topoSort (map fst byKey) (withinBatch byKey dependsOn))) (\<lambda>topoOrder.
           tbind (tmap (\<lambda>key. destroyEntry sha opener l knownDependents providers key
                          (the (map_of byKey key)) (the (map_of dependsOn key))) topoOrder) (\<lambda>rs.
           tret (map fst rs, concat (map snd rs)))))))"

end
