(* ===== verification/ResolveBatch.thy ===== *)
theory ResolveBatch
  imports ResolveDestroys
begin

text \<open>
  core/resolver/resolver.go: an intent is resolved into a draft change proposal. The batch of its resources
  and data sources is a map by address beside the list of its keys; a data source's read goes to the provider
  through the world \<open>'w\<close>, once per resolve, which the cache sees to.
\<close>

section \<open>What a resolve is given\<close>

record resolveOptions =
  ro_inferOp :: bool

definition WithInferredOp :: "resolveOptions \<Rightarrow> resolveOptions" where
  "WithInferredOp opts = opts\<lparr>ro_inferOp := True\<rparr>"

definition applyResolveOptions :: "(resolveOptions \<Rightarrow> resolveOptions) option list \<Rightarrow> resolveOptions" where
  "applyResolveOptions opts =
     fold (\<lambda>opt ro. case opt of None \<Rightarrow> ro | Some f \<Rightarrow> f ro) opts \<lparr>ro_inferOp = False\<rparr>"

record ('s, 'w, 'sch) resolveIn =
  rv_sha :: "string \<Rightarrow> string"
  rv_open :: "string \<Rightarrow> (err, 's ledger) res"
  rv_ledger :: "'s ledger"
  rv_providers :: "('w, 'sch) DeclaredProvider list"
  rv_intent :: IntentFile
  rv_knownDependents :: "string list"
  rv_resolvedAt :: string
  rv_opts :: resolveOptions

section \<open>The entries\<close>

definition newEntry :: "entrySpec \<Rightarrow> Address \<Rightarrow> ('w, 'sch) DeclaredProvider \<Rightarrow> ('w, 'sch) batchEntry" where
  "newEntry spec addr prov =
     \<lparr>be_Spec = spec, be_addr = addr, be_provider = prov, be_rawEdges = [], be_resolvedConfig = None\<rparr>"

type_synonym ('w, 'sch) ordered = "('w, 'sch) batch \<times> string list"

definition put_entry :: "string \<Rightarrow> ('w, 'sch) batchEntry \<Rightarrow> ('w, 'sch) ordered \<Rightarrow> ('w, 'sch) ordered" where
  "put_entry key e bo = (aput key e (fst bo), snd bo @ [key])"

definition opAgainst :: "resolveOptions \<Rightarrow> bool \<Rightarrow> string \<Rightarrow> string" where
  "opAgainst opts found op = (if ro_inferOp opts then if found then OpModify else OpCreate else op)"

definition addResource ::
    "('s, 'w, 'sch) resolveIn \<Rightarrow> ResourceIntent \<Rightarrow> ('w, 'sch) ordered \<Rightarrow> ('w, 'sch) ordered rrun" where
  "addResource x ri bo =
     tbind (Some (InferProvider (rv_providers x) (ri_Type ri) (ri_Provider ri))) (\<lambda>prov.
     if ri_Op ri \<noteq> OpCreate \<and> ri_Op ri \<noteq> OpModify then tfail ErrInvalidOp
     else let addr = Address (if_Stack (rv_intent x)) (ri_Type ri) (ri_Name ri); key = addr_String addr
          in if inBatch (fst bo) key then tfail (ErrDuplicateResource key)
             else tbind (led_FoldState (rv_ledger x) addr) (\<lambda>(_, found).
               let op = opAgainst (rv_opts x) found (ri_Op ri)
               in if op = OpCreate \<and> found then tfail (ErrCreateTargetExists key)
                  else if op = OpModify \<and> \<not> found then tfail (ErrModifyTargetMissing key)
                  else tret (put_entry key (newEntry (IsResource (ri\<lparr>ri_Op := op\<rparr>)) addr prov) bo)))"

definition addDataSource ::
    "('s, 'w, 'sch) resolveIn \<Rightarrow> DataSourceIntent \<Rightarrow> ('w, 'sch) ordered \<Rightarrow> ('w, 'sch) ordered rrun" where
  "addDataSource x di bo =
     tbind (Some (InferProvider (rv_providers x) (di_Type di) None)) (\<lambda>prov.
     let addr = Address (if_Stack (rv_intent x)) (di_Type di) (di_Name di); key = addr_String addr
     in if inBatch (fst bo) key then tfail (ErrDuplicateDataSource key)
        else tret (put_entry key (newEntry (IsData di) addr prov) bo))"

text \<open>What the schema has against an entry's keys; of a data source it is not asked.\<close>

definition keyIssues :: "('w, 'sch) batchEntry \<Rightarrow> gval \<Rightarrow> resolveErr list" where
  "keyIssues e raw = (case raw of
      GObj configMap \<Rightarrow>
        if isDataSource e then []
        else map (\<lambda>i. ErrUnknownConfigKey (fst i)) (si_UnknownConfigKeys (dp_Schema (be_provider e)) (typeName e) configMap) @
             map ErrMissingRequiredAttribute (si_MissingRequiredKeys (dp_Schema (be_provider e)) (typeName e) configMap)
    | _ \<Rightarrow> [])"

definition scanEntry ::
    "('s, 'w, 'sch) resolveIn \<Rightarrow> string set \<Rightarrow> string \<Rightarrow> ('w, 'sch) batch \<times> resolveErr list \<Rightarrow>
     (('w, 'sch) batch \<times> resolveErr list) rrun" where
  "scanEntry x destroySet key be = (let e = the (map_of (fst be) key) in
     tbind (Some (of_opt (Core EJson) (unmarshal_any (rawValue e)))) (\<lambda>raw.
     tbind (Some (scanRefEdges (fst be) raw)) (\<lambda>edges.
     tbind (unionDependsOn (rv_ledger x) (fst be) destroySet (entryDependsOn e) edges) (\<lambda>edges.
     tret (aput key (e\<lparr>be_rawEdges := edges\<rparr>) (fst be), snd be @ keyIssues e raw)))))"

definition batchEdges :: "('w, 'sch) batch \<Rightarrow> string \<Rightarrow> string list option" where
  "batchEdges b key = map_option be_rawEdges (map_of b key)"

section \<open>Values\<close>

type_synonym readCache = "(string, gval \<times> string) amap"

text \<open>The read of a data source: from the cache, or the provider's, which is then kept. An error is not.\<close>

definition dataSourceRead ::
    "(string \<Rightarrow> string) \<Rightarrow> ('w, 'sch) StateReader \<Rightarrow> Address \<Rightarrow> raw \<Rightarrow> raw \<Rightarrow> readCache \<times> 'w \<Rightarrow>
     (resolveErr, (gval \<times> string) \<times> readCache \<times> 'w) res" where
  "dataSourceRead sha reader addr providerConfig lookup cw = (let key = addr_String addr in
     case map_of (fst cw) key of
       Some cached \<Rightarrow> Inr (cached, cw)
     | None \<Rightarrow> (case ReadAndFingerprint sha reader (addr_Type addr) providerConfig lookup (snd cw) of
           (Inl e, w) \<Rightarrow> Inl (ErrDataSourceReadFailed key)
         | (Inr read, w) \<Rightarrow> Inr (read, aput key read (fst cw), w)))"

record ('w, 'sch) valueState =
  vs_batch :: "('w, 'sch) batch"
  vs_inputs :: "ResolutionInput list"
  vs_reads :: "readCache \<times> 'w"

definition entryCtx ::
    "('s, 'w, 'sch) resolveIn \<Rightarrow> string set \<Rightarrow> ('w, 'sch) batch \<Rightarrow> ('w, 'sch) batchEntry \<Rightarrow> ('s, 'w, 'sch) resolveCtx" where
  "entryCtx x destroySet batch e =
     \<lparr>rc_sha = rv_sha x, rc_ledger = rv_ledger x, rc_open = rv_open x, rc_schema = dp_Schema (be_provider e),
      rc_batch = batch, rc_destroys = destroySet, rc_typeName = typeName e, rc_from = addr_String (be_addr e)\<rparr>"

text \<open>The resolved lookup of a data source is read; what was observed is the entry's configuration.\<close>

definition readEntry ::
    "('s, 'w, 'sch) resolveIn \<Rightarrow> string \<Rightarrow> ('w, 'sch) batchEntry \<Rightarrow> fields \<Rightarrow> ('w, 'sch) valueState \<Rightarrow> ('w, 'sch) valueState rrun" where
  "readEntry x key e resolvedMap st =
     (if containsMarker (GObj resolvedMap) then tfail (ErrDataSourceLookupNotConcrete key)
      else case dp_Reader (be_provider e) of
          None \<Rightarrow> tfail (ErrDataSourceReadFailed key)
        | Some reader \<Rightarrow>
            tbind (Some (dataSourceRead (rv_sha x) reader (be_addr e) (dp_ProviderConfig (be_provider e))
                           (Some (GObj resolvedMap)) (vs_reads st))) (\<lambda>((observed, hash), reads).
            tbind (Some (of_opt (ErrDataSourceReadFailed key) (unmarshal_map (Some observed)))) (\<lambda>observedMap.
            tret (st\<lparr>vs_batch := aput key (e\<lparr>be_resolvedConfig := observedMap\<rparr>) (vs_batch st),
                     vs_inputs := vs_inputs st @ [(plainInput ''data_source'' (addr_String (be_addr e)))
                        \<lparr>in_ObservedHash := hash, in_Lookup := Some (GObj resolvedMap)\<rparr>],
                     vs_reads := reads\<rparr>))))"

definition resolveEntry ::
    "('s, 'w, 'sch) resolveIn \<Rightarrow> string set \<Rightarrow> string \<Rightarrow> ('w, 'sch) valueState \<Rightarrow> ('w, 'sch) valueState rrun" where
  "resolveEntry x destroySet key st = (let e = the (map_of (vs_batch st) key) in
     tbind (Some (of_opt (Core EJson) (unmarshal_any (rawValue e)))) (\<lambda>raw.
     tbind (resolveValue (entryCtx x destroySet (vs_batch st) e) [] raw) (\<lambda>(resolvedVal, ins).
     case resolvedVal of
       GObj resolvedMap \<Rightarrow>
         let st = st\<lparr>vs_inputs := vs_inputs st @ ins\<rparr>
         in if isDataSource e then readEntry x key e resolvedMap st
            else tret (st\<lparr>vs_batch := aput key (e\<lparr>be_resolvedConfig := Some resolvedMap\<rparr>) (vs_batch st)\<rparr>)
     | _ \<Rightarrow> tfail (Core (EMsg key)))))"

section \<open>Modifies\<close>

definition currentAttrs :: "raw \<Rightarrow> fields" where
  "currentAttrs current = (case unmarshal_map current of None \<Rightarrow> [] | Some m \<Rightarrow> fields_of m)"

record modifyDecision =
  md_before :: patch
  md_after :: patch
  md_observedHash :: string
  md_lookup :: raw
  md_dropped :: bool

type_synonym decisions = "(string, modifyDecision) amap"

definition backfill :: "resolveOptions \<Rightarrow> ('w, 'sch) batchEntry \<Rightarrow> raw \<Rightarrow> fields \<Rightarrow> fields" where
  "backfill opts e current config =
     fold (\<lambda>(k, v) m.
         if map_of m k = None \<and> (ro_inferOp opts \<or> si_IsComputed (dp_Schema (be_provider e)) (typeName e) k)
         then aput k v m else m)
       (currentAttrs current) config"

definition isModify :: "('w, 'sch) batchEntry \<Rightarrow> bool" where
  "isModify e \<longleftrightarrow> \<not> isDataSource e \<and> entryOp e = OpModify"

definition planModify ::
    "('s, 'w, 'sch) resolveIn \<Rightarrow> string \<Rightarrow> ('w, 'sch) batch \<times> decisions \<Rightarrow> (('w, 'sch) batch \<times> decisions) rrun" where
  "planModify x key bd = (let e = the (map_of (fst bd) key) in
     if \<not> isModify e then tret bd
     else tbind (led_FoldState (rv_ledger x) (be_addr e)) (\<lambda>(current, _).
       let config = backfill (rv_opts x) e current (fields_of (be_resolvedConfig e));
           batch = aput key (e\<lparr>be_resolvedConfig := Some config\<rparr>) (fst bd)
       in tbind (Some (of_opt (Core EJson) (DiffAttributes current (Some (GObj config))))) (\<lambda>d.
          let d = FilterNormalizationNoise (schemaOwnershipAdapter (dp_Schema (be_provider e)) (typeName e)) d;
              decision = \<lparr>md_before = raws (fst d), md_after = raws (snd d), md_observedHash = [], md_lookup = None,
                          md_dropped = (ro_inferOp (rv_opts x) \<and> fst d = [] \<and> snd d = [])\<rparr>
          in if md_dropped decision then tret (batch, aput key decision (snd bd))
             else tbind (Some (of_core (ObservedHash (rv_sha x) current))) (\<lambda>ohash.
                  tbind (led_LastLookup (rv_ledger x) (be_addr e)) (\<lambda>lookup.
                  if lookup = None then tfail (ErrModifyTargetNoLookup key)
                  else tret (batch, aput key (decision\<lparr>md_observedHash := ohash, md_lookup := lookup\<rparr>) (snd bd)))))))"

definition planModifies ::
    "('s, 'w, 'sch) resolveIn \<Rightarrow> ('w, 'sch) batch \<Rightarrow> string list \<Rightarrow> (('w, 'sch) batch \<times> decisions) rrun" where
  "planModifies x batch topoOrder = tfold (planModify x) topoOrder (batch, [])"

definition droppedKeys :: "decisions \<Rightarrow> string set" where
  "droppedKeys ds = fst ` set (filter (\<lambda>b. md_dropped (snd b)) ds)"

fun resolveDroppedComputed :: "'s ledger \<Rightarrow> string set \<Rightarrow> gval \<Rightarrow> gval rrun" where
  "resolveDroppedComputed l dropped (GObj fs) = (case asMarker fs markerComputed of
      Some inner \<Rightarrow>
        tbind (Some (splitRefTarget (get_str inner ''from''))) (\<lambda>(addrStr, attrPath).
        if addrStr \<notin> dropped then tret (GObj fs)
        else case ParseAddress addrStr of
            None \<Rightarrow> tfail (ErrRefNotFound addrStr)
          | Some addr \<Rightarrow> tbind (led_FoldState l addr) (\<lambda>(state, found).
              if \<not> found then tfail (ErrRefNotFound addrStr) else Some (recordedValue state addrStr attrPath)))
    | None \<Rightarrow> tbind (tmap (\<lambda>b. tbind (resolveDroppedComputed l dropped (snd b)) (\<lambda>v. tret (fst b, v))) fs)
                (\<lambda>gs. tret (GObj gs)))"
| "resolveDroppedComputed l dropped (GArr xs) =
     tbind (tmap (resolveDroppedComputed l dropped) xs) (\<lambda>ys. tret (GArr ys))"
| "resolveDroppedComputed l dropped v = tret v"

definition rewriteConfig :: "'s ledger \<Rightarrow> string set \<Rightarrow> string \<Rightarrow> fields option \<Rightarrow> fields option rrun" where
  "rewriteConfig l dropped key config = (case config of
      None \<Rightarrow> tret None
    | Some m \<Rightarrow> tbind (resolveDroppedComputed l dropped (GObj m)) (\<lambda>v. case v of
          GObj m \<Rightarrow> tret (Some m) | _ \<Rightarrow> tfail (Internal key)))"

definition rewriteEntry :: "'s ledger \<Rightarrow> string set \<Rightarrow> string \<Rightarrow> ('w, 'sch) batch \<Rightarrow> ('w, 'sch) batch rrun" where
  "rewriteEntry l dropped key batch =
     (if key \<in> dropped then tret batch
      else let e = the (map_of batch key)
           in tbind (rewriteConfig l dropped key (be_resolvedConfig e)) (\<lambda>config.
              tret (aput key (e\<lparr>be_resolvedConfig := config,
                                be_rawEdges := filter (\<lambda>edge. edge \<notin> dropped) (be_rawEdges e)\<rparr>) batch)))"

definition rewriteDroppedRefs ::
    "'s ledger \<Rightarrow> ('w, 'sch) batch \<Rightarrow> string list \<Rightarrow> string set \<Rightarrow> ('w, 'sch) batch rrun" where
  "rewriteDroppedRefs l batch topoOrder dropped =
     (if dropped = {} then tret batch else tfold (rewriteEntry l dropped) topoOrder batch)"

section \<open>The delta\<close>

definition createNodeOf :: "('w, 'sch) batchEntry \<Rightarrow> gval" where
  "createNodeOf e = jobj [
     jstr ''stack'' (addr_Stack (be_addr e)), jstr ''type'' (addr_Type (be_addr e)), jstr ''name'' (addr_Name (be_addr e)),
     (''provider'', Some (json_ProviderRef (providerRefOf (be_provider e)))),
     (''config'', Some (marshal_map (be_resolvedConfig e))),
     jlist_oe ''depends_on'' GStr (sort (be_rawEdges e)),
     jlist_oe ''sources'' json_IntentSource (entrySources e)]"

definition modificationOf :: "('w, 'sch) batchEntry \<Rightarrow> modifyDecision \<Rightarrow> Modification" where
  "modificationOf e d =
     \<lparr>mod_Target = be_addr e, mod_Before = md_before d, mod_After = md_after d, mod_DependsOn = sort (be_rawEdges e),
      mod_Provider = Some (providerRefOf (be_provider e)), mod_Sources = entrySources e\<rparr>"

definition liveInput :: "('w, 'sch) batchEntry \<Rightarrow> modifyDecision \<Rightarrow> ResolutionInput" where
  "liveInput e d = (plainInput ''live_state'' (addr_String (be_addr e)))
     \<lparr>in_ObservedHash := md_observedHash d, in_Lookup := md_lookup d\<rparr>"

type_synonym delta_acc = "raw list \<times> Modification list \<times> ResolutionInput list"

definition emitEntry :: "('w, 'sch) batch \<Rightarrow> decisions \<Rightarrow> string \<Rightarrow> delta_acc \<Rightarrow> delta_acc" where
  "emitEntry batch decisions key acc = (let e = the (map_of batch key); (cs, ms, ins) = acc in
     if isDataSource e then acc
     else if entryOp e = OpCreate then (cs @ [Some (createNodeOf e)], ms, ins)
     else if entryOp e = OpModify then (case map_of decisions key of
         None \<Rightarrow> acc
       | Some d \<Rightarrow> if md_dropped d then acc else (cs, ms @ [modificationOf e d], ins @ [liveInput e d]))
     else acc)"

definition draftOf ::
    "('s, 'w, 'sch) resolveIn \<Rightarrow> string \<Rightarrow> delta_acc \<Rightarrow> DestroyEntry list \<times> ResolutionInput list \<Rightarrow> Proposal" where
  "draftOf x head acc ds = (let (cs, ms, ins) = acc in
     \<lparr>p_SchemaVersion = SchemaVersion, p_ID = [], p_Stack = if_Stack (rv_intent x), p_Parent = head, p_Kind = KindChange,
      p_Intent = if_Intent (rv_intent x), p_Delta = \<lparr>d_Creates = cs, d_Modifies = ms, d_Destroys = fst ds\<rparr>,
      p_Resolution = \<lparr>rs_ResolvedAt = rv_resolvedAt x, rs_Inputs = ins @ snd ds\<rparr>, p_CostDelta = Some (GNumber ''0''),
      p_BlastRadius = \<lparr>br_Creates = int (length cs), br_Modifies = int (length ms), br_Destroys = int (length (fst ds))\<rparr>,
      p_InvariantsChecked = [], p_Acceptance = None, p_Status = StatusDraft\<rparr>)"

section \<open>Resolving\<close>

text \<open>The batch with its edges and its targets: everything before a value is resolved.\<close>

definition gatherBatch ::
    "('s, 'w, 'sch) resolveIn \<Rightarrow> (('w, 'sch) batch \<times> targets \<times> string list) rrun" where
  "gatherBatch x = (let intent = rv_intent x in
     if if_Kind intent \<noteq> IntentFileKind then tfail ErrUnknownIntentKind
     else if if_BlueprintCalls intent \<noteq> [] then tfail ErrUnexpandedBlueprintCalls
     else tbind (tfold (addResource x) (if_Resources intent) ([], [])) (\<lambda>bo.
          tbind (tfold (addDataSource x) (if_DataSources intent) bo) (\<lambda>(batch, order).
          tbind (parseDestroyBatch (rv_ledger x) (if_Destroys intent) batch) (\<lambda>byKey.
          tbind (tfold (scanEntry x (destroyAddrSet byKey)) order (batch, [])) (\<lambda>(batch, keyErrs).
          if keyErrs \<noteq> [] then tfail (ErrConfigKeys keyErrs)
          else tbind (Some (topoSort order (batchEdges batch))) (\<lambda>topoOrder. tret (batch, byKey, topoOrder)))))))"

definition resolveOnce ::
    "('s, 'w, 'sch) resolveIn \<Rightarrow> readCache \<times> 'w \<Rightarrow> (Proposal \<times> readCache \<times> 'w) rrun" where
  "resolveOnce x reads =
     tbind (gatherBatch x) (\<lambda>(batch, byKey, topoOrder).
     tbind (tfold (resolveEntry x (destroyAddrSet byKey)) topoOrder
              \<lparr>vs_batch = batch, vs_inputs = [], vs_reads = reads\<rparr>) (\<lambda>st.
     tbind (planModifies x (vs_batch st) topoOrder) (\<lambda>(batch, decisions).
     tbind (rewriteDroppedRefs (rv_ledger x) batch topoOrder (droppedKeys decisions)) (\<lambda>batch.
     let acc = fold (emitEntry batch decisions) topoOrder ([], [], vs_inputs st)
     in tbind (resolveDestroys (rv_sha x) (rv_open x) (rv_ledger x) byKey batch (rv_knownDependents x) (rv_providers x)) (\<lambda>ds.
        tbind (led_Head (rv_ledger x)) (\<lambda>head.
        tret (draftOf x head acc ds, vs_reads st)))))))"

text \<open>
  The intent is resolved twice with one cache, and the two proposals must be the same text. The second is
  the result. The time is taken once, before both.
\<close>

definition Resolve :: "('s, 'w, 'sch) resolveIn \<Rightarrow> 'w \<Rightarrow> (Proposal \<times> 'w) rrun" where
  "Resolve x w =
     tbind (resolveOnce x ([], w)) (\<lambda>(p1, reads1).
     tbind (resolveOnce x reads1) (\<lambda>(p2, reads2).
     tbind (Some (of_core (DoubleRun (Inr (marshal_text (json_Proposal p1))) (Inr (marshal_text (json_Proposal p2)))
                     ErrDoubleRunMismatch))) (\<lambda>_.
     tret (p2, snd reads2))))"

end
