(* ===== verification/ResolveGraph.thy ===== *)
theory ResolveGraph
  imports ResolveBatch
begin

text \<open>
  What a resolve keeps of its batch, and the graph of the proposal it ends in: which entries the batch has,
  what an entry keeps while its value and its edges are worked out, and why the executor can order the result.
\<close>

section \<open>The entries of a batch\<close>

abbreviation resourceAddr :: "('s, 'w, 'sch) resolveIn \<Rightarrow> ResourceIntent \<Rightarrow> Address" where
  "resourceAddr x ri \<equiv> Address (if_Stack (rv_intent x)) (ri_Type ri) (ri_Name ri)"

abbreviation dataAddr :: "('s, 'w, 'sch) resolveIn \<Rightarrow> DataSourceIntent \<Rightarrow> Address" where
  "dataAddr x di \<equiv> Address (if_Stack (rv_intent x)) (di_Type di) (di_Name di)"

definition resourceKeys :: "('s, 'w, 'sch) resolveIn \<Rightarrow> string list" where
  "resourceKeys x = map (\<lambda>ri. addr_String (resourceAddr x ri)) (if_Resources (rv_intent x))"

definition dataKeys :: "('s, 'w, 'sch) resolveIn \<Rightarrow> string list" where
  "dataKeys x = map (\<lambda>di. addr_String (dataAddr x di)) (if_DataSources (rv_intent x))"

text \<open>The provider of an entry is a declared one that has the entry's type.\<close>

definition provided :: "('w, 'sch) DeclaredProvider list \<Rightarrow> string \<Rightarrow> ('w, 'sch) DeclaredProvider \<Rightarrow> bool" where
  "provided ps ty p \<longleftrightarrow> p \<in> set ps \<and> si_HasType (dp_Schema p) ty"

text \<open>
  An entry as the intent has it: a resource with its operation decided against the ledger, or a data source.
\<close>

definition entry_ok :: "('s, 'w, 'sch) resolveIn \<Rightarrow> string \<Rightarrow> ('w, 'sch) batchEntry \<Rightarrow> bool" where
  "entry_ok x k e \<longleftrightarrow> addr_String (be_addr e) = k \<and> provided (rv_providers x) (typeName e) (be_provider e) \<and>
     typeName e = addr_Type (be_addr e) \<and>
     (case be_Spec e of
        IsResource r \<Rightarrow> (\<exists>ri \<in> set (if_Resources (rv_intent x)). \<exists>st found.
          be_addr e = resourceAddr x ri \<and> led_FoldState (rv_ledger x) (be_addr e) = Some (Inr (st, found)) \<and>
          r = ri\<lparr>ri_Op := if found then OpModify else OpCreate\<rparr> \<and> (\<not> ro_inferOp (rv_opts x) \<longrightarrow> r = ri))
      | IsData di \<Rightarrow> di \<in> set (if_DataSources (rv_intent x)) \<and> be_addr e = dataAddr x di)"

definition batch_ok :: "('s, 'w, 'sch) resolveIn \<Rightarrow> ('w, 'sch) ordered \<Rightarrow> bool" where
  "batch_ok x bo \<longleftrightarrow> distinct (snd bo) \<and> dom (map_of (fst bo)) = set (snd bo) \<and>
     (\<forall>k e. map_of (fst bo) k = Some e \<longrightarrow> entry_ok x k e)"

lemma InferProvider_provided: "InferProvider ps ty hint = Inr p \<Longrightarrow> provided ps ty p"
proof -
  assume r: "InferProvider ps ty hint = Inr p"
  let ?os = "filter (\<lambda>p. si_HasType (dp_Schema p) ty) ps"
  have "p \<in> set ?os"
  proof (cases "\<exists>o1. ?os = [o1]")
    case True
    then show ?thesis using r by (auto simp: InferProvider_def simp del: set_filter)
  next
    case False
    then obtain o1 o2 rest where os: "?os = o1 # o2 # rest"
      using r unfolding InferProvider_def by (cases ?os rule: remdups_adj.cases) auto
    then obtain s where "find (\<lambda>p. dp_Source p = s) ?os = Some p"
      using r unfolding InferProvider_def os
      by (cases hint) (auto simp del: find.simps split: option.splits if_splits)
    then show ?thesis unfolding find_Some_iff by (metis nth_mem)
  qed
  then show ?thesis by (simp add: provided_def)
qed

lemma put_entry_ok:
  assumes "batch_ok x bo" "\<not> inBatch (fst bo) k" "entry_ok x k e"
  shows "batch_ok x (put_entry k e bo)"
proof -
  have "k \<notin> set (snd bo)" using assms(1, 2) by (auto simp: batch_ok_def inBatch_def)
  then show ?thesis using assms by (auto simp: batch_ok_def put_entry_def)
qed

lemma addResource_ok:
  assumes "addResource x ri bo = Some (Inr bo')" "batch_ok x bo" "ri \<in> set (if_Resources (rv_intent x))"
  shows "batch_ok x bo' \<and> snd bo' = snd bo @ [addr_String (resourceAddr x ri)]"
proof -
  let ?k = "addr_String (resourceAddr x ri)"
  obtain prov st found where r: "InferProvider (rv_providers x) (ri_Type ri) (ri_Provider ri) = Inr prov"
    "led_FoldState (rv_ledger x) (resourceAddr x ri) = Some (Inr (st, found))" "\<not> inBatch (fst bo) ?k"
    "ri_Op ri = OpCreate \<or> ri_Op ri = OpModify"
    and e: "let op = opAgainst (rv_opts x) found (ri_Op ri) in \<not> (op = OpCreate \<and> found) \<and> \<not> (op = OpModify \<and> \<not> found) \<and>
      bo' = put_entry ?k (newEntry (IsResource (ri\<lparr>ri_Op := op\<rparr>)) (resourceAddr x ri) prov) bo"
    using assms(1) by (auto simp: addResource_def res_simps Let_def split: if_splits)
  let ?op = "opAgainst (rv_opts x) found (ri_Op ri)"
  have "?op = OpCreate \<or> ?op = OpModify" using r(4) by (auto simp: opAgainst_def)
  then have op: "?op = (if found then OpModify else OpCreate)" using e by (auto simp: Let_def)
  have "entry_ok x ?k (newEntry (IsResource (ri\<lparr>ri_Op := ?op\<rparr>)) (resourceAddr x ri) prov)"
    using assms(3) r(2) op InferProvider_provided [OF r(1)]
    by (auto simp: entry_ok_def newEntry_def typeName_def opAgainst_def intro!: bexI [of _ ri])
  then show ?thesis using put_entry_ok [OF assms(2) r(3)] e by (simp add: Let_def put_entry_def)
qed

lemma addDataSource_ok:
  assumes "addDataSource x di bo = Some (Inr bo')" "batch_ok x bo" "di \<in> set (if_DataSources (rv_intent x))"
  shows "batch_ok x bo' \<and> snd bo' = snd bo @ [addr_String (dataAddr x di)]"
proof -
  obtain prov where r: "InferProvider (rv_providers x) (di_Type di) None = Inr prov"
    "\<not> inBatch (fst bo) (addr_String (dataAddr x di))"
    "bo' = put_entry (addr_String (dataAddr x di)) (newEntry (IsData di) (dataAddr x di) prov) bo"
    using assms(1) by (auto simp: addDataSource_def res_simps Let_def split: if_splits)
  have "entry_ok x (addr_String (dataAddr x di)) (newEntry (IsData di) (dataAddr x di) prov)"
    using assms(3) InferProvider_provided [OF r(1)] by (simp add: entry_ok_def newEntry_def typeName_def)
  then show ?thesis using put_entry_ok [OF assms(2) r(2)] r(3) by (simp add: put_entry_def)
qed

lemma add_all_ok:
  assumes "tfold f zs bo = Some (Inr bo')" "batch_ok x bo" "set zs \<subseteq> Z"
    and step: "\<And>z bo bo'. f z bo = Some (Inr bo') \<Longrightarrow> batch_ok x bo \<Longrightarrow> z \<in> Z \<Longrightarrow> batch_ok x bo' \<and> snd bo' = snd bo @ [g z]"
  shows "batch_ok x bo' \<and> snd bo' = snd bo @ map g zs"
  using assms(1-3)
proof (induction zs arbitrary: bo)
  case Nil
  then show ?case by (simp add: res_simps)
next
  case (Cons z zs)
  then obtain b where b: "f z bo = Some (Inr b)" "tfold f zs b = Some (Inr bo')" by (auto simp: res_simps)
  then have "batch_ok x b" "snd b = snd bo @ [g z]" using step [OF b(1)] Cons.prems by auto
  then show ?case using Cons.IH [OF b(2)] Cons.prems(3) by simp
qed

section \<open>What an entry keeps\<close>

abbreviation core_of :: "('w, 'sch) batchEntry \<Rightarrow> entrySpec \<times> Address \<times> ('w, 'sch) DeclaredProvider" where
  "core_of e \<equiv> (be_Spec e, be_addr e, be_provider e)"

text \<open>Two stages of one batch: the same entries, but for their edges and values.\<close>

definition stages :: "('w, 'sch) batch \<Rightarrow> ('w, 'sch) batch \<Rightarrow> bool" where
  "stages b b' \<longleftrightarrow> (\<forall>k. map_option core_of (map_of b' k) = map_option core_of (map_of b k))"

lemma stages_refl [simp]: "stages b b"
  by (simp add: stages_def)

lemma stages_trans: "stages a b \<Longrightarrow> stages b c \<Longrightarrow> stages a c"
  by (simp add: stages_def)

lemma stages_put: "map_of b k = Some e \<Longrightarrow> core_of e' = core_of e \<Longrightarrow> stages b (aput k e' b)"
  by (simp add: stages_def)

lemma stages_at: "stages b b' \<Longrightarrow> map_option core_of (map_of b' k) = map_option core_of (map_of b k)"
  by (simp add: stages_def)

lemma stages_dom: "stages b b' \<Longrightarrow> map_of b' k = None \<longleftrightarrow> map_of b k = None"
  using stages_at [of b b' k] by (cases "map_of b k"; cases "map_of b' k") auto

lemma stages_some: "stages b b' \<Longrightarrow> map_of b' k = Some e' \<Longrightarrow> \<exists>e. map_of b k = Some e \<and> core_of e' = core_of e"
  using stages_at [of b b' k] by (cases "map_of b k") auto

lemma typeName_core: "core_of e' = core_of e \<Longrightarrow> typeName e' = typeName e \<and> isDataSource e' = isDataSource e \<and>
    entryOp e' = entryOp e \<and> isModify e' = isModify e \<and> entrySources e' = entrySources e"
  by (simp add: typeName_def isDataSource_def entryOp_def isModify_def entrySources_def)

lemma entry_ok_core:
  assumes "core_of e' = core_of e"
  shows "entry_ok x k e' = entry_ok x k e"
proof -
  have eqs: "be_Spec e' = be_Spec e" "be_addr e' = be_addr e" "be_provider e' = be_provider e"
    using assms by simp_all
  show ?thesis unfolding entry_ok_def typeName_def eqs ..
qed

lemma stages_batch_ok:
  assumes "batch_ok x (b, order)" "stages b b'"
  shows "batch_ok x (b', order)"
proof -
  have "entry_ok x k e'" if k: "map_of b' k = Some e'" for k e'
  proof -
    obtain e where e: "map_of b k = Some e" "core_of e' = core_of e" using stages_some [OF assms(2) k] by blast
    moreover have "entry_ok x k e" using assms(1) e(1) by (simp add: batch_ok_def)
    ultimately show ?thesis using entry_ok_core [of e' e x k] by metis
  qed
  moreover have "dom (map_of b') = dom (map_of b)" using stages_dom [OF assms(2)] by (auto simp: dom_def)
  ultimately show ?thesis using assms(1) by (simp add: batch_ok_def)
qed

text \<open>A fold over keys of the batch, every step of which is a stage.\<close>

lemma stages_fold:
  assumes "tfold f ks s = Some (Inr s')" "\<forall>k \<in> set ks. map_of (B s) k \<noteq> None"
    and step: "\<And>k s s'. k \<in> set ks \<Longrightarrow> map_of (B s) k \<noteq> None \<Longrightarrow> f k s = Some (Inr s') \<Longrightarrow> stages (B s) (B s')"
  shows "stages (B s) (B s')"
proof -
  have "(\<forall>k \<in> set ks. map_of (B s') k \<noteq> None) \<and> stages (B s) (B s')"
  proof (rule tfold_invar [OF assms(1), where P = "\<lambda>t. (\<forall>k \<in> set ks. map_of (B t) k \<noteq> None) \<and> stages (B s) (B t)"])
    fix k t t' assume k: "k \<in> set ks" "f k t = Some (Inr t')" "(\<forall>k \<in> set ks. map_of (B t) k \<noteq> None) \<and> stages (B s) (B t)"
    then have "stages (B t) (B t')" using step [OF k(1) _ k(2)] by blast
    then show "(\<forall>k \<in> set ks. map_of (B t') k \<noteq> None) \<and> stages (B s) (B t')"
      using k(3) stages_dom [of "B t" "B t'"] stages_trans by metis
  qed (use assms(2) in simp)
  then show ?thesis ..
qed

text \<open>Edges that lead back into the batch.\<close>

definition edges_ok :: "('w, 'sch) batch \<Rightarrow> bool" where
  "edges_ok b \<longleftrightarrow> (\<forall>k e. map_of b k = Some e \<longrightarrow> (\<forall>d \<in> set (be_rawEdges e). inBatch b d))"

lemma scanWalk_in_batch: "scanWalk b v = Inr es \<Longrightarrow> d \<in> set es \<Longrightarrow> inBatch b d"
proof (induction b v arbitrary: es rule: scanWalk.induct)
  case (1 b fs)
  show ?case
  proof (cases "asMarker fs markerRef")
    case (Some inner)
    then show ?thesis using 1(2, 3) by (auto simp: res_simps split: if_splits)
  next
    case None
    show ?thesis
    proof (cases "asMarker fs markerCross \<noteq> None \<or> asMarker fs markerSecret \<noteq> None \<or> isEphemeralMarker fs")
      case True
      then show ?thesis using 1(2, 3) None by (auto split: if_splits)
    next
      case False
      then obtain ess where ess: "map_res (\<lambda>b'. scanWalk b (snd b')) fs = Inr ess" "es = concat ess"
        using 1(2) None by (auto simp: res_simps)
      then obtain e1 where "e1 \<in> set ess" "d \<in> set e1" using 1(3) by auto
      moreover obtain f where "f \<in> set fs" "scanWalk b (snd f) = Inr e1"
        using list_all2_right [OF map_res_Inr_iff [THEN iffD1, OF ess(1)] calculation(1)] by blast
      ultimately show ?thesis using 1(1) [OF None _ _ _ \<open>f \<in> set fs\<close>] False by blast
    qed
  qed
next
  case (2 b xs)
  then obtain ess where ess: "map_res (scanWalk b) xs = Inr ess" "es = concat ess" by (auto simp: res_simps)
  then obtain e1 where "e1 \<in> set ess" "d \<in> set e1" using 2(3) by auto
  moreover obtain y where "y \<in> set xs" "scanWalk b y = Inr e1"
    using list_all2_right [OF map_res_Inr_iff [THEN iffD1, OF ess(1)] calculation(1)] by blast
  ultimately show ?case using 2(1) by blast
next
  case (3 b t)
  then show ?case by (auto split: option.splits if_splits)
qed auto

lemma scanRefEdges_in_batch: "scanRefEdges b v = Inr es \<Longrightarrow> d \<in> set es \<Longrightarrow> inBatch b d"
  using scanWalk_in_batch by (auto simp: scanRefEdges_def res_simps)

lemma unionDependsOn_in_batch:
  assumes "unionDependsOn l b D deps es = Some (Inr es')" "\<forall>d \<in> set es. inBatch b d"
  shows "\<forall>d \<in> set es'. inBatch b d"
proof (cases "deps = []")
  case True
  then show ?thesis using assms by (simp add: unionDependsOn_def res_simps)
next
  case False
  then obtain out where out: "tfold (dependOn l b D) deps es = Some (Inr out)" "es' = sort out"
    using assms(1) by (auto simp: unionDependsOn_def res_simps)
  have "\<forall>d \<in> set out. inBatch b d"
  proof (rule tfold_invar [OF out(1), where P = "\<lambda>es. \<forall>d \<in> set es. inBatch b d"])
    fix k t t' assume "dependOn l b D k t = Some (Inr t')" "\<forall>d \<in> set t. inBatch b d"
    then show "\<forall>d \<in> set t'. inBatch b d"
      by (auto simp: dependOn_def res_simps split: if_splits option.splits)
  qed (use assms(2) in simp)
  then show ?thesis using out(2) by simp
qed

lemma inBatch_stages: "stages b b' \<Longrightarrow> inBatch b' d = inBatch b d"
  using stages_dom [of b b' d] by (simp add: inBatch_def)

lemma put_edges_ok:
  assumes "edges_ok b" "map_of b k = Some e" "core_of e' = core_of e" "\<forall>d \<in> set (be_rawEdges e'). inBatch b d"
  shows "edges_ok (aput k e' b)"
proof -
  have "inBatch (aput k e' b) d = inBatch b d" for d
    using inBatch_stages [OF stages_put [OF assms(2, 3)]] .
  then show ?thesis using assms(1, 4) by (simp add: edges_ok_def)
qed

lemma scanEntry_stage:
  assumes "scanEntry x D k be = Some (Inr be')" "map_of (fst be) k \<noteq> None"
  shows "stages (fst be) (fst be') \<and> (edges_ok (fst be) \<longrightarrow> edges_ok (fst be'))"
proof -
  obtain e where e: "map_of (fst be) k = Some e" using assms(2) by auto
  obtain raw es es' where r: "scanRefEdges (fst be) raw = Inr es"
    "unionDependsOn (rv_ledger x) (fst be) D (entryDependsOn e) es = Some (Inr es')"
    "fst be' = aput k (e\<lparr>be_rawEdges := es'\<rparr>) (fst be)"
    using assms(1) e by (auto simp: scanEntry_def res_simps Let_def)
  have "\<forall>d \<in> set es'. inBatch (fst be) d"
    using unionDependsOn_in_batch [OF r(2)] scanRefEdges_in_batch [OF r(1)] by blast
  then show ?thesis unfolding r(3)
    using stages_put [OF e, of "e\<lparr>be_rawEdges := es'\<rparr>"] put_edges_ok [OF _ e, of "e\<lparr>be_rawEdges := es'\<rparr>"] by simp
qed

text \<open>Two stages with the same edges.\<close>

definition edged :: "('w, 'sch) batch \<Rightarrow> ('w, 'sch) batch \<Rightarrow> bool" where
  "edged b b' \<longleftrightarrow> stages b b' \<and> batchEdges b' = batchEdges b"

lemma edged_put: "map_of b k = Some e \<Longrightarrow> core_of e' = core_of e \<Longrightarrow> be_rawEdges e' = be_rawEdges e \<Longrightarrow> edged b (aput k e' b)"
  unfolding edged_def by (intro conjI stages_put ext) (auto simp: batchEdges_def)

lemma edged_refl [simp]: "edged b b"
  by (simp add: edged_def)

lemma edged_trans: "edged a b \<Longrightarrow> edged b c \<Longrightarrow> edged a c"
  unfolding edged_def by (metis stages_trans)

lemma edged_fold:
  assumes "tfold f ks s = Some (Inr s')" "\<forall>k \<in> set ks. map_of (B s) k \<noteq> None"
    and step: "\<And>k s s'. k \<in> set ks \<Longrightarrow> map_of (B s) k \<noteq> None \<Longrightarrow> f k s = Some (Inr s') \<Longrightarrow> edged (B s) (B s')"
  shows "edged (B s) (B s')"
proof -
  have "(\<forall>k \<in> set ks. map_of (B s') k \<noteq> None) \<and> edged (B s) (B s')"
  proof (rule tfold_invar [OF assms(1), where P = "\<lambda>t. (\<forall>k \<in> set ks. map_of (B t) k \<noteq> None) \<and> edged (B s) (B t)"])
    fix k t t' assume k: "k \<in> set ks" "f k t = Some (Inr t')" "(\<forall>k \<in> set ks. map_of (B t) k \<noteq> None) \<and> edged (B s) (B t)"
    then have e: "edged (B t) (B t')" using step [OF k(1) _ k(2)] by blast
    then have "\<forall>k. map_of (B t') k = None \<longleftrightarrow> map_of (B t) k = None"
      unfolding edged_def using stages_dom [of "B t" "B t'"] by blast
    then show "(\<forall>k \<in> set ks. map_of (B t') k \<noteq> None) \<and> edged (B s) (B t')"
      using k(3) edged_trans [of "B s" "B t" "B t'"] e by simp
  qed (use assms(2) in simp)
  then show ?thesis ..
qed

lemma resolveEntry_stage:
  assumes "resolveEntry x D k st = Some (Inr st')" "map_of (vs_batch st) k \<noteq> None"
  shows "edged (vs_batch st) (vs_batch st')"
proof -
  obtain e where e: "map_of (vs_batch st) k = Some e" using assms(2) by auto
  obtain raw v ins where r: "resolveValue (entryCtx x D (vs_batch st) e) [] raw = Some (Inr (v, ins))"
    "(case v of GObj m \<Rightarrow> let st = st\<lparr>vs_inputs := vs_inputs st @ ins\<rparr>
         in if isDataSource e then readEntry x k e m st
            else tret (st\<lparr>vs_batch := aput k (e\<lparr>be_resolvedConfig := Some m\<rparr>) (vs_batch st)\<rparr>)
       | _ \<Rightarrow> tfail (Core (EMsg k))) = Some (Inr st')"
    using assms(1) e by (auto simp: resolveEntry_def res_simps Let_def)
  obtain m where v: "v = GObj m" using r(2) by (cases v) (auto simp: res_simps)
  obtain c where "vs_batch st' = aput k (e\<lparr>be_resolvedConfig := c\<rparr>) (vs_batch st)"
    using r(2) by (auto simp: v readEntry_def res_simps Let_def split: if_splits option.splits)
  then show ?thesis using edged_put [OF e, of "e\<lparr>be_resolvedConfig := c\<rparr>"] by simp
qed

text \<open>A decision is made for every modify, and only an inferred modify is dropped.\<close>

definition decided :: "('s, 'w, 'sch) resolveIn \<Rightarrow> string set \<Rightarrow> ('w, 'sch) batch \<times> decisions \<Rightarrow> bool" where
  "decided x K bd \<longleftrightarrow> amap_wf (snd bd) \<and>
     (\<forall>k \<in> K. \<forall>e. map_of (fst bd) k = Some e \<longrightarrow> isModify e \<longrightarrow> map_of (snd bd) k \<noteq> None) \<and>
     (\<forall>k d. map_of (snd bd) k = Some d \<longrightarrow> md_dropped d \<longrightarrow> ro_inferOp (rv_opts x) \<and>
        (\<exists>e. map_of (fst bd) k = Some e \<and> isModify e)) \<and>
     (\<forall>k d. map_of (snd bd) k = Some d \<longrightarrow> md_dropped d \<or> (\<exists>s. md_observedHash d = rv_sha x s))"

lemma planModify_cases:
  assumes "planModify x k bd = Some (Inr bd')" "map_of (fst bd) k = Some e"
  obtains (other) "\<not> isModify e" "bd' = bd"
    | (decide) e' d where "isModify e" "core_of e' = core_of e" "be_rawEdges e' = be_rawEdges e"
        "bd' = (aput k e' (fst bd), aput k d (snd bd))" "md_dropped d \<longrightarrow> ro_inferOp (rv_opts x)"
        "md_dropped d \<or> (\<exists>s. md_observedHash d = rv_sha x s)"
proof (cases "isModify e")
  case False
  then show ?thesis using assms other by (simp add: planModify_def res_simps)
next
  case True
  obtain cur st d0 where c: "led_FoldState (rv_ledger x) (be_addr e) = Some (Inr (cur, st))"
    "DiffAttributes cur (Some (GObj (backfill (rv_opts x) e cur (fields_of (be_resolvedConfig e))))) = Some d0"
    using assms True by (auto simp: planModify_def res_simps Let_def)
  let ?d = "FilterNormalizationNoise (schemaOwnershipAdapter (dp_Schema (be_provider e)) (typeName e)) d0"
  let ?e = "e\<lparr>be_resolvedConfig := Some (backfill (rv_opts x) e cur (fields_of (be_resolvedConfig e)))\<rparr>"
  let ?dec = "\<lparr>md_before = raws (fst ?d), md_after = raws (snd ?d), md_observedHash = [], md_lookup = None,
    md_dropped = (ro_inferOp (rv_opts x) \<and> fst ?d = [] \<and> snd ?d = [])\<rparr>"
  show ?thesis
  proof (cases "md_dropped ?dec")
    case dropped: True
    then have "bd' = (aput k ?e (fst bd), aput k ?dec (snd bd))"
      using assms True c by (simp add: planModify_def res_simps Let_def)
    then show ?thesis using decide [OF True, of ?e ?dec] dropped by simp
  next
    case kept: False
    obtain h where h: "ObservedHash (rv_sha x) cur = Inr h"
      using assms True c kept by (auto simp: planModify_def res_simps Let_def)
    obtain lookup where "bd' = (aput k ?e (fst bd), aput k (?dec\<lparr>md_observedHash := h, md_lookup := lookup\<rparr>) (snd bd))"
      using assms True c kept h by (auto simp: planModify_def res_simps Let_def split: if_splits)
    moreover have "\<exists>s. h = rv_sha x s" using h by (auto simp: ObservedHash_def res_simps)
    ultimately show ?thesis
      using decide [OF True, of ?e "?dec\<lparr>md_observedHash := h, md_lookup := lookup\<rparr>"] kept by simp
  qed
qed

lemma planModify_stage:
  assumes "planModify x k bd = Some (Inr bd')" "map_of (fst bd) k \<noteq> None"
  shows "edged (fst bd) (fst bd')"
proof -
  obtain e where e: "map_of (fst bd) k = Some e" using assms(2) by auto
  from assms(1) e show ?thesis
  proof (cases rule: planModify_cases)
    case (decide e' d)
    then show ?thesis using edged_put [OF e decide(2, 3)] by simp
  qed simp
qed

lemma planModify_decided:
  assumes "planModify x k bd = Some (Inr bd')" "map_of (fst bd) k = Some e" "decided x K bd"
  shows "decided x (insert k K) bd'"
  using assms(1, 2)
proof (cases rule: planModify_cases)
  case other
  then show ?thesis using assms(2, 3) by (auto simp: decided_def)
next
  case (decide e' d)
  have "isModify e'" using decide(1) typeName_core [OF decide(2)] by simp
  then show ?thesis using assms(3) decide(1, 4, 5, 6) by (auto simp: decided_def split: if_splits)
qed

lemma planModifies_decided:
  assumes "tfold (planModify x) ks bd = Some (Inr bd')" "\<forall>k \<in> set ks. map_of (fst bd) k \<noteq> None" "decided x K bd"
  shows "decided x (K \<union> set ks) bd'"
  using assms
proof (induction ks arbitrary: bd K)
  case Nil
  then show ?case by (simp add: res_simps)
next
  case (Cons k ks)
  then obtain b where b: "planModify x k bd = Some (Inr b)" "tfold (planModify x) ks b = Some (Inr bd')"
    by (auto simp: res_simps)
  obtain e where e: "map_of (fst bd) k = Some e" using Cons.prems(2) by auto
  have "stages (fst bd) (fst b)" using planModify_stage [OF b(1)] e by (simp add: edged_def)
  then have "\<forall>k \<in> set ks. map_of (fst b) k \<noteq> None" using Cons.prems(2) stages_dom [of "fst bd" "fst b"] by simp
  then show ?case using Cons.IH [OF b(2) _ planModify_decided [OF b(1) e Cons.prems(3)]] by simp
qed

lemma droppedKeys_iff: "amap_wf ds \<Longrightarrow> k \<in> droppedKeys ds \<longleftrightarrow> (\<exists>d. map_of ds k = Some d \<and> md_dropped d)"
  by (auto simp: droppedKeys_def dest: map_of_SomeD amap_wf_map_of intro!: rev_image_eqI)

text \<open>Dropping leaves an entry that stays with the edges to entries that stay.\<close>

definition undropped :: "string set \<Rightarrow> string set \<Rightarrow> ('w, 'sch) batch \<Rightarrow> ('w, 'sch) batch \<Rightarrow> bool" where
  "undropped D K b b' \<longleftrightarrow> stages b b' \<and>
     (\<forall>k e e'. map_of b k = Some e \<longrightarrow> map_of b' k = Some e' \<longrightarrow>
        be_rawEdges e' = (if k \<in> K - D then filter (\<lambda>d. d \<notin> D) (be_rawEdges e) else be_rawEdges e))"

lemma rewriteEntry_undropped:
  assumes "rewriteEntry l D k b = Some (Inr b')" "map_of b k = Some e"
  shows "undropped D {k} b b'"
proof (cases "k \<in> D")
  case True
  then show ?thesis using assms(1) by (auto simp: rewriteEntry_def res_simps undropped_def)
next
  case False
  then obtain c where b': "b' = aput k (e\<lparr>be_resolvedConfig := c, be_rawEdges := filter (\<lambda>d. d \<notin> D) (be_rawEdges e)\<rparr>) b"
    using assms by (auto simp: rewriteEntry_def res_simps Let_def)
  show ?thesis unfolding undropped_def b' using stages_put [OF assms(2)] assms(2) False by (auto split: if_splits)
qed

lemma undropped_trans:
  assumes "undropped D K a b" "undropped D L b c"
  shows "undropped D (K \<union> L) a c"
  unfolding undropped_def
proof (intro conjI allI impI)
  show "stages a c" using assms stages_trans by (auto simp: undropped_def)
  fix k e e' assume k: "map_of a k = Some e" "map_of c k = Some e'"
  then obtain m where m: "map_of b k = Some m" using assms(2) stages_dom [of b c k] by (auto simp: undropped_def)
  have "be_rawEdges m = (if k \<in> K - D then filter (\<lambda>d. d \<notin> D) (be_rawEdges e) else be_rawEdges e)"
    using assms(1) k(1) m by (auto simp: undropped_def)
  moreover have "be_rawEdges e' = (if k \<in> L - D then filter (\<lambda>d. d \<notin> D) (be_rawEdges m) else be_rawEdges m)"
    using assms(2) k(2) m by (auto simp: undropped_def)
  ultimately show "be_rawEdges e' = (if k \<in> K \<union> L - D then filter (\<lambda>d. d \<notin> D) (be_rawEdges e) else be_rawEdges e)"
    by auto
qed

lemma rewriteDroppedRefs_undropped:
  assumes "tfold (rewriteEntry l D) ks b = Some (Inr b')" "\<forall>k \<in> set ks. map_of b k \<noteq> None"
  shows "undropped D (set ks) b b'"
  using assms
proof (induction ks arbitrary: b)
  case Nil
  then show ?case by (auto simp: res_simps undropped_def)
next
  case (Cons k ks)
  then obtain c where c: "rewriteEntry l D k b = Some (Inr c)" "tfold (rewriteEntry l D) ks c = Some (Inr b')"
    by (auto simp: res_simps)
  obtain e where "map_of b k = Some e" using Cons.prems(2) by auto
  then have u: "undropped D {k} b c" by (rule rewriteEntry_undropped [OF c(1)])
  then have "\<forall>k \<in> set ks. map_of c k \<noteq> None" using Cons.prems(2) stages_dom [of b c] by (simp add: undropped_def)
  then show ?case using undropped_trans [OF u Cons.IH [OF c(2)]] by simp
qed

section \<open>The delta\<close>

definition emitsCreate :: "('w, 'sch) batch \<Rightarrow> string \<Rightarrow> bool" where
  "emitsCreate b k \<longleftrightarrow> (let e = the (map_of b k) in \<not> isDataSource e \<and> entryOp e = OpCreate)"

definition emitsModify :: "('w, 'sch) batch \<Rightarrow> decisions \<Rightarrow> string \<Rightarrow> bool" where
  "emitsModify b ds k \<longleftrightarrow> isModify (the (map_of b k)) \<and> (\<exists>d. map_of ds k = Some d \<and> \<not> md_dropped d)"

definition createsOf :: "('w, 'sch) batch \<Rightarrow> string list \<Rightarrow> raw list" where
  "createsOf b ks = map (\<lambda>k. Some (createNodeOf (the (map_of b k)))) (filter (emitsCreate b) ks)"

definition modifiesOf :: "('w, 'sch) batch \<Rightarrow> decisions \<Rightarrow> string list \<Rightarrow> Modification list" where
  "modifiesOf b ds ks = map (\<lambda>k. modificationOf (the (map_of b k)) (the (map_of ds k))) (filter (emitsModify b ds) ks)"

definition liveInputs :: "('w, 'sch) batch \<Rightarrow> decisions \<Rightarrow> string list \<Rightarrow> ResolutionInput list" where
  "liveInputs b ds ks = map (\<lambda>k. liveInput (the (map_of b k)) (the (map_of ds k))) (filter (emitsModify b ds) ks)"

lemma ops_differ [simp]: "OpModify \<noteq> OpCreate" "OpCreate \<noteq> OpModify"
  by (simp_all add: OpModify_def OpCreate_def)

lemma emitEntry_eq: "emitEntry b ds k (cs, ms, ins) =
  (cs @ createsOf b [k], ms @ modifiesOf b ds [k], ins @ liveInputs b ds [k])"
  by (auto simp: emitEntry_def createsOf_def modifiesOf_def liveInputs_def emitsCreate_def emitsModify_def isModify_def
      Let_def split: option.splits)

lemma emit_fold: "fold (emitEntry b ds) ks (cs, ms, ins) =
  (cs @ createsOf b ks, ms @ modifiesOf b ds ks, ins @ liveInputs b ds ks)"
proof (induction ks arbitrary: cs ms ins)
  case (Cons k ks)
  show ?case unfolding fold_simps comp_def emitEntry_eq Cons.IH
    by (simp add: createsOf_def modifiesOf_def liveInputs_def)
qed (simp add: createsOf_def modifiesOf_def liveInputs_def)

lemma decode_providerRef: "decode_ProviderRef (json_ProviderRef r) = Some (Some r)"
proof -
  obtain fs where fs: "json_ProviderRef r = GObj fs" by (simp add: json_ProviderRef_def jobj_def)
  note m = map_of_jobj [OF fs [unfolded json_ProviderRef_def]]
  show ?thesis unfolding decode_ProviderRef_def fs str_member_def by (simp add: m jstr_def)
qed

lemma strs_as_str: "those (map as_str (map GStr ss)) = Some ss"
  by (induction ss) (auto simp: as_str_def)

text \<open>What the executor reads of a create the resolver wrote.\<close>

lemma decode_createNodeOf: "decode_createNode (Some (createNodeOf e)) = Some
  \<lparr>cn_Stack = addr_Stack (be_addr e), cn_Type = addr_Type (be_addr e), cn_Name = addr_Name (be_addr e),
   cn_Provider = Some (providerRefOf (be_provider e)), cn_Config = Some (marshal_map (be_resolvedConfig e)),
   cn_DependsOn = sort (be_rawEdges e)\<rparr>"
proof -
  obtain fs where fs: "createNodeOf e = GObj fs" by (simp add: createNodeOf_def jobj_def)
  note m = map_of_jobj [OF fs [unfolded createNodeOf_def]]
  have deps: "strs_member fs ''depends_on'' = Some (sort (be_rawEdges e))"
    using strs_as_str [of "sort (be_rawEdges e)"] unfolding strs_member_def
    by (cases "be_rawEdges e = []") (auto simp: m jstr_def jlist_oe_def)
  show ?thesis unfolding fs decode_createNode_def
    by (simp add: deps str_member_def m jstr_def jlist_oe_def decode_providerRef)
qed

abbreviation entryNode :: "('w, 'sch) batchEntry \<Rightarrow> changeNode" where
  "entryNode e \<equiv> createChange (the (decode_createNode (Some (createNodeOf e))))"

lemma entryNode_sel [simp]:
  "ch_addr (entryNode e) = be_addr e" "ch_dependsOn (entryNode e) = sort (be_rawEdges e)"
  by (simp_all add: decode_createNodeOf createChange_def)

lemma modificationOf_sel [simp]:
  "ch_addr (modifyChange (modificationOf e d)) = be_addr e"
  "ch_dependsOn (modifyChange (modificationOf e d)) = sort (be_rawEdges e)"
  by (simp_all add: modifyChange_def modificationOf_def)

lemma draft_nodes:
  "deltaNodes (draftOf x head (createsOf b ks, modifiesOf b ds ks, ins) des) = Inr
     (map (\<lambda>k. entryNode (the (map_of b k))) (filter (emitsCreate b) ks) @
      map modifyChange (modifiesOf b ds ks) @ map destroyChange (fst des))"
proof -
  have "map_res (\<lambda>r. of_opt EJson (decode_createNode r)) (createsOf b ks) =
    Inr (map (\<lambda>k. the (decode_createNode (Some (createNodeOf (the (map_of b k)))))) (filter (emitsCreate b) ks))"
    unfolding createsOf_def map_res_Inr_iff list_all2_map1 list_all2_map2
    by (rule list.rel_refl_strong) (simp add: decode_createNodeOf)
  then show ?thesis by (simp add: deltaNodes_def draftOf_def)
qed

section \<open>Destroys\<close>

definition targets_ok :: "('w, 'sch) batch \<Rightarrow> targets \<Rightarrow> bool" where
  "targets_ok b ts \<longleftrightarrow> distinct (map fst ts) \<and> (\<forall>(k, a) \<in> set ts. addr_String a = k \<and> \<not> inBatch b k)"

lemma destroyTarget_ok:
  assumes "destroyTarget l b s ts = Some (Inr ts')" "targets_ok b ts"
  shows "targets_ok b ts' \<and> map fst ts' = map fst ts @ [s]"
proof -
  obtain a st where a: "ParseAddress s = Some a" "map_of ts (addr_String a) = None" "\<not> inBatch b (addr_String a)"
    "led_FoldState l a = Some (Inr (st, True))" "ts' = ts @ [(addr_String a, a)]"
    using assms(1) by (auto simp: destroyTarget_def res_simps Let_def split: option.splits if_splits)
  have "addr_String a = s"
  proof -
    let ?ps = "splitn (CHR ''.'') 3 s"
    have ps: "length ?ps = 3" "a = Address (?ps ! 0) (?ps ! 1) (?ps ! 2)"
      using a(1) by (auto simp: ParseAddress_def Let_def split: if_splits)
    then have "?ps = [?ps ! 0, ?ps ! 1, ?ps ! 2]" by (auto simp: numeral_3_eq_3 length_Suc_conv)
    then have "join_with (CHR ''.'') ?ps = addr_String a" unfolding ps(2) addr_String_def
      by (metis Address.sel join_with.simps(2, 3) append_Cons append_Nil)
    then show ?thesis by (simp add: join_splitn)
  qed
  then show ?thesis using a assms(2) by (auto simp: targets_ok_def map_of_eq_None_iff)
qed

lemma parseDestroyBatch_ok:
  assumes "parseDestroyBatch l ss b = Some (Inr ts)"
  shows "targets_ok b ts \<and> map fst ts = ss"
proof -
  have "targets_ok b ts' \<and> map fst ts' = map fst ts @ ss" if "tfold (destroyTarget l b) ss ts = Some (Inr ts')" "targets_ok b ts" for ts ts'
    using that
  proof (induction ss arbitrary: ts)
    case (Cons s ss)
    then obtain u where u: "destroyTarget l b s ts = Some (Inr u)" "tfold (destroyTarget l b) ss u = Some (Inr ts')"
      by (auto simp: res_simps)
    then show ?case using Cons.IH [OF u(2)] destroyTarget_ok [OF u(1) Cons.prems(2)] by simp
  qed (simp add: res_simps)
  from this [of "[]" ts] show ?thesis using assms by (auto simp: parseDestroyBatch_def targets_ok_def)
qed

lemma topoSort_sorted:
  assumes "topoSort ks E = Inr order" "dom E = set ks" "\<And>a ds d. E a = Some ds \<Longrightarrow> d \<in> set ds \<Longrightarrow> d \<in> set ks"
  shows "distinct order \<and> set order = set ks \<and> deps_first E {} order"
proof -
  have "topoSortAddresses ks E = Inr order" using assms(1) by (auto simp: topoSort_def split: sum.splits err.splits)
  moreover have "E d \<noteq> None" if "E a = Some ds" "d \<in> set ds" for a ds d
    using assms(2) assms(3) [OF that] by auto
  ultimately show ?thesis using topoSort_outcomes [OF _ assms(2)] by fastforce
qed

lemma dependersOf_ok:
  assumes "dependersOf l ts b k rs = Some (Inr deps)"
  shows "set deps \<subseteq> set rs \<and> (\<forall>d \<in> set deps. map_of ts d \<noteq> None \<or> inBatch b d) \<and>
    (\<forall>d \<in> set rs - set deps. \<forall>a. ParseAddress d = Some a \<longrightarrow> (\<exists>st. led_FoldState l a = Some (Inr (st, False))))"
  using assms
proof (induction rs arbitrary: deps)
  case Nil
  then show ?case by (simp add: res_simps)
next
  case (Cons r rs)
  show ?case
  proof (cases "map_of ts r \<noteq> None \<or> inBatch b r")
    case True
    then obtain ds where "dependersOf l ts b k rs = Some (Inr ds)" "deps = r # ds"
      using Cons.prems by (auto simp: res_simps)
    then show ?thesis using Cons.IH True by auto
  next
    case False
    show ?thesis
    proof (cases "ParseAddress r")
      case None
      then have "dependersOf l ts b k rs = Some (Inr deps)" using Cons.prems False by simp
      then show ?thesis using Cons.IH None by auto
    next
      case (Some a)
      then obtain st where "led_FoldState l a = Some (Inr (st, False))" "dependersOf l ts b k rs = Some (Inr deps)"
        using Cons.prems False by (auto simp: res_simps split: if_splits)
      then show ?thesis using Cons.IH Some by auto
    qed
  qed
qed

lemma destroyEntry_parts:
  assumes "destroyEntry sha opener l kd ps k a deps = Some (Inr r)"
  obtains st found p src lookup h cross where "led_FoldState l a = Some (Inr (st, found))" "provided ps (addr_Type a) p"
    and "ObservedHash sha st = Inr h" "led_LastLookup l a = Some (Inr lookup)" "lookup \<noteq> None"
    and "crossStackOrphanCheck opener a kd = Some (Inr cross)" "in_Kind cross = ''cross_stack_orphan_check''"
    and "in_Resource cross = addr_String a"
    and "r = (\<lparr>des_Address = a, des_State = st, des_DependsOn = deps, des_Provider = Some (providerRefOf p), des_Sources = src\<rparr>,
      [(plainInput ''destroy_target'' k)\<lparr>in_ObservedHash := h, in_Lookup := lookup\<rparr>, cross])"
proof -
  obtain st found where 1: "led_FoldState l a = Some (Inr (st, found))"
    using assms by (auto simp: destroyEntry_def tbind_Inr_iff)
  obtain p where 2: "InferProvider ps (addr_Type a) None = Inr p"
    using assms 1 by (auto simp: destroyEntry_def tbind_Inr_iff)
  obtain src f2 where 3: "led_FoldSources l a = Some (Inr (src, f2))"
    using assms 1 2 by (auto simp: destroyEntry_def tbind_Inr_iff)
  obtain h where 4: "ObservedHash sha st = Inr h"
    using assms 1 2 3 by (auto simp: destroyEntry_def tbind_Inr_iff of_core_Inr_iff)
  obtain lookup where 5: "led_LastLookup l a = Some (Inr lookup)"
    using assms 1 2 3 4 by (auto simp: destroyEntry_def tbind_Inr_iff)
  have 6: "lookup \<noteq> None"
  proof
    assume "lookup = None"
    then show False using assms 1 2 3 4 5 by (simp add: destroyEntry_def res_simps)
  qed
  obtain cross where 7: "crossStackOrphanCheck opener a kd = Some (Inr cross)"
    using assms 1 2 3 4 5 6 by (auto simp: destroyEntry_def tbind_Inr_iff)
  have 8: "r = (\<lparr>des_Address = a, des_State = st, des_DependsOn = deps, des_Provider = Some (providerRefOf p), des_Sources = src\<rparr>,
      [(plainInput ''destroy_target'' k)\<lparr>in_ObservedHash := h, in_Lookup := lookup\<rparr>, cross])"
    using assms 1 2 3 4 5 6 7 by (simp add: destroyEntry_def res_simps)
  have "in_Kind cross = ''cross_stack_orphan_check'' \<and> in_Resource cross = addr_String a"
    using 7 by (auto simp: crossStackOrphanCheck_def plainInput_def Let_def res_simps split: if_splits)
  then show ?thesis using that [OF 1 InferProvider_provided [OF 2] 4 5 6 7 _ _ 8] by blast
qed

text \<open>The entries of the destroys: one for each target, after the targets among its dependers.\<close>

lemma resolveDestroys_parts:
  assumes "resolveDestroys sha opener l ts b kd ps = Some (Inr ds)" "targets_ok b ts" "ts \<noteq> []"
  obtains chain dependsOn order rs where "led_Chain l = Some (Inr chain)" "map fst dependsOn = map fst ts"
    and "\<And>k deps. map_of dependsOn k = Some deps \<Longrightarrow>
      \<exists>xs. dependersOf l ts b k (reverseDeps (latestDependsOn chain) k) = Some (Inr xs) \<and> deps = sort xs"
    and "distinct order" "set order = fst ` set ts" "deps_first (withinBatch ts dependsOn) {} order"
    and "list_all2 (\<lambda>k r. destroyEntry sha opener l kd ps k (the (map_of ts k)) (the (map_of dependsOn k)) = Some (Inr r)) order rs"
    and "ds = (map fst rs, concat (map snd rs))"
proof -
  obtain chain where 1: "led_Chain l = Some (Inr chain)"
    using assms(1, 3) by (auto simp: resolveDestroys_def historicalReverseDependents_def tbind_Inr_iff)
  let ?deps = "\<lambda>(key, _). tbind (dependersOf l ts b key (reverseDeps (latestDependsOn chain) key)) (\<lambda>deps. tret (key, sort deps))"
  obtain dependsOn where 2: "tmap ?deps ts = Some (Inr dependsOn)"
    using assms(1, 3) 1 by (auto simp: resolveDestroys_def historicalReverseDependents_def tbind_Inr_iff)
  obtain order where 3: "topoSort (map fst ts) (withinBatch ts dependsOn) = Inr order"
    using assms(1, 3) 1 2 by (auto simp: resolveDestroys_def historicalReverseDependents_def tbind_Inr_iff)
  let ?entry = "\<lambda>k. destroyEntry sha opener l kd ps k (the (map_of ts k)) (the (map_of dependsOn k))"
  obtain rs where 4: "tmap ?entry order = Some (Inr rs)"
    using assms(1, 3) 1 2 3 by (auto simp: resolveDestroys_def historicalReverseDependents_def tbind_Inr_iff)
  have 5: "ds = (map fst rs, concat (map snd rs))"
    using assms(1, 3) 1 2 3 4 by (simp add: resolveDestroys_def historicalReverseDependents_def res_simps)
  note r = 1 2 [unfolded tmap_Inr_iff] 3 4 [unfolded tmap_Inr_iff] 5
  have keys: "map fst dependsOn = map fst ts"
    using r(2) by (induction rule: list_all2_induct) (auto simp: res_simps)
  have deps: "\<exists>xs. dependersOf l ts b k (reverseDeps (latestDependsOn chain) k) = Some (Inr xs) \<and> deps = sort xs"
    if "map_of dependsOn k = Some deps" for k deps
    using list_all2_right [OF r(2) map_of_SomeD [OF that]] by (auto simp: res_simps)
  have "dom (withinBatch ts dependsOn) = dom (map_of dependsOn)" by (auto simp: withinBatch_def dom_def)
  then have "dom (withinBatch ts dependsOn) = set (map fst ts)"
    unfolding dom_map_of_conv_image_fst keys [symmetric] by simp
  moreover have "d \<in> set (map fst ts)" if "withinBatch ts dependsOn a = Some ds" "d \<in> set ds" for a ds d
    using that by (auto simp: withinBatch_def map_of_eq_None_iff)
  ultimately have "distinct order \<and> set order = set (map fst ts) \<and> deps_first (withinBatch ts dependsOn) {} order"
    by (rule topoSort_sorted [OF r(3)])
  then show ?thesis using that [OF r(1) keys deps _ _ _ r(4, 5)] by simp
qed

section \<open>A resolve, stage by stage\<close>

lemma fresh_edges:
  assumes "tfold f zs bo = Some (Inr bo')" "\<forall>k e. map_of (fst bo) k = Some e \<longrightarrow> be_rawEdges e = []"
    and "\<And>z bo bo'. f z bo = Some (Inr bo') \<Longrightarrow> \<exists>k spec addr prov. bo' = put_entry k (newEntry spec addr prov) bo"
  shows "\<forall>k e. map_of (fst bo') k = Some e \<longrightarrow> be_rawEdges e = []"
proof (rule tfold_invar [OF assms(1), where P = "\<lambda>bo. \<forall>k e. map_of (fst bo) k = Some e \<longrightarrow> be_rawEdges e = []"])
  fix z t t' assume "f z t = Some (Inr t')" "\<forall>k e. map_of (fst t) k = Some e \<longrightarrow> be_rawEdges e = []"
  moreover obtain k spec addr prov where "t' = put_entry k (newEntry spec addr prov) t" using assms(3) calculation(1) by blast
  ultimately show "\<forall>k e. map_of (fst t') k = Some e \<longrightarrow> be_rawEdges e = []"
    by (simp add: put_entry_def newEntry_def)
qed (rule assms(2))

lemma addResource_puts: "addResource x ri bo = Some (Inr bo') \<Longrightarrow> \<exists>k spec addr prov. bo' = put_entry k (newEntry spec addr prov) bo"
  by (auto simp: addResource_def res_simps Let_def split: if_splits)

lemma addDataSource_puts: "addDataSource x di bo = Some (Inr bo') \<Longrightarrow> \<exists>k spec addr prov. bo' = put_entry k (newEntry spec addr prov) bo"
  by (auto simp: addDataSource_def res_simps Let_def split: if_splits)

lemma scan_stage:
  assumes "tfold (scanEntry x D) ks be = Some (Inr be')" "\<forall>k \<in> set ks. map_of (fst be) k \<noteq> None" "edges_ok (fst be)"
  shows "stages (fst be) (fst be') \<and> edges_ok (fst be')"
proof -
  have "(\<forall>k \<in> set ks. map_of (fst be') k \<noteq> None) \<and> stages (fst be) (fst be') \<and> edges_ok (fst be')"
  proof (rule tfold_invar [OF assms(1), where P = "\<lambda>t. (\<forall>k \<in> set ks. map_of (fst t) k \<noteq> None) \<and> stages (fst be) (fst t) \<and> edges_ok (fst t)"])
    fix k t t' assume k: "k \<in> set ks" "scanEntry x D k t = Some (Inr t')"
      "(\<forall>k \<in> set ks. map_of (fst t) k \<noteq> None) \<and> stages (fst be) (fst t) \<and> edges_ok (fst t)"
    then have "stages (fst t) (fst t') \<and> edges_ok (fst t')" using scanEntry_stage [OF k(2)] by blast
    then show "(\<forall>k \<in> set ks. map_of (fst t') k \<noteq> None) \<and> stages (fst be) (fst t') \<and> edges_ok (fst t')"
      using k(3) stages_dom [of "fst t" "fst t'"] stages_trans [of "fst be" "fst t" "fst t'"] by simp
  qed (use assms in simp)
  then show ?thesis by simp
qed

lemma gatherBatch_parts:
  assumes "gatherBatch x = Some (Inr (b, ts, topo))"
  shows "batch_ok x (b, resourceKeys x @ dataKeys x) \<and> edges_ok b \<and> targets_ok b ts \<and> map fst ts = if_Destroys (rv_intent x) \<and>
    distinct topo \<and> set topo = set (resourceKeys x @ dataKeys x) \<and> deps_first (batchEdges b) {} topo"
proof -
  obtain bo where 1: "tfold (addResource x) (if_Resources (rv_intent x)) ([], []) = Some (Inr bo)"
    using assms by (auto simp: gatherBatch_def res_simps Let_def split: if_splits)
  obtain b2 order where 2: "tfold (addDataSource x) (if_DataSources (rv_intent x)) bo = Some (Inr (b2, order))"
    using assms 1 by (auto simp: gatherBatch_def res_simps Let_def split: if_splits)
  have 3: "parseDestroyBatch (rv_ledger x) (if_Destroys (rv_intent x)) b2 = Some (Inr ts)"
    using assms 1 2 by (auto simp: gatherBatch_def res_simps Let_def split: if_splits)
  have 4: "tfold (scanEntry x (destroyAddrSet ts)) order (b2, []) = Some (Inr (b, []))" "topoSort order (batchEdges b) = Inr topo"
    using assms 1 2 3 by (auto simp: gatherBatch_def res_simps Let_def split: if_splits)
  have "batch_ok x ([], [])" by (simp add: batch_ok_def)
  from add_all_ok [OF 1 this order.refl, where g = "\<lambda>ri. addr_String (resourceAddr x ri)"] addResource_ok
  have 5: "batch_ok x bo" "snd bo = resourceKeys x" unfolding resourceKeys_def by fastforce+
  from add_all_ok [OF 2 5(1) order.refl, where g = "\<lambda>di. addr_String (dataAddr x di)"] addDataSource_ok
  have ok: "batch_ok x (b2, order)" "order = resourceKeys x @ dataKeys x" unfolding 5(2) dataKeys_def by fastforce+
  have "\<forall>k e. map_of (fst bo) k = Some e \<longrightarrow> be_rawEdges e = []"
    by (rule fresh_edges [OF 1 _ addResource_puts]) simp_all
  then have "\<forall>k e. map_of (fst (b2, order)) k = Some e \<longrightarrow> be_rawEdges e = []"
    by (rule fresh_edges [OF 2 _ addDataSource_puts])
  then have "edges_ok b2" by (simp add: edges_ok_def)
  moreover have dom: "dom (map_of b2) = set order" using ok(1) by (simp add: batch_ok_def)
  ultimately have st: "stages b2 b" "edges_ok b" using scan_stage [OF 4(1)] by auto
  have E: "dom (batchEdges b) = set order" using dom stages_dom [OF st(1)] by (auto simp: batchEdges_def dom_def)
  have "d \<in> set order" if "batchEdges b a = Some ds" "d \<in> set ds" for a ds d
    using that st(2) E by (auto simp: edges_ok_def inBatch_def batchEdges_def)
  then have "distinct topo \<and> set topo = set order \<and> deps_first (batchEdges b) {} topo"
    by (rule topoSort_sorted [OF 4(2) E])
  moreover have "targets_ok b ts \<and> map fst ts = if_Destroys (rv_intent x)"
    using parseDestroyBatch_ok [OF 3] inBatch_stages [OF st(1)] unfolding targets_ok_def by auto
  moreover have "batch_ok x (b, order)" by (rule stages_batch_ok [OF ok(1) st(1)])
  ultimately show ?thesis using st(2) ok(2) by simp
qed

definition droppedIn :: "decisions \<Rightarrow> string \<Rightarrow> bool" where
  "droppedIn ds k \<longleftrightarrow> (\<exists>d. map_of ds k = Some d \<and> md_dropped d)"

text \<open>The last stage of the batch, and the proposal that is built from it.\<close>

definition resolved ::
    "('s, 'w, 'sch) resolveIn \<Rightarrow> ('w, 'sch) batch \<Rightarrow> decisions \<Rightarrow> string list \<Rightarrow> targets \<Rightarrow> bool" where
  "resolved x b ds topo ts \<longleftrightarrow> batch_ok x (b, resourceKeys x @ dataKeys x) \<and>
     distinct topo \<and> set topo = set (resourceKeys x @ dataKeys x) \<and>
     (\<forall>i < length topo. \<forall>e. map_of b (topo ! i) = Some e \<longrightarrow> (\<forall>d \<in> set (be_rawEdges e). \<exists>j < i. topo ! j = d)) \<and>
     (\<forall>k e. map_of b k = Some e \<longrightarrow> isModify e \<longrightarrow> map_of ds k \<noteq> None) \<and>
     (\<forall>k d. map_of ds k = Some d \<longrightarrow> md_dropped d \<or> (\<exists>s. md_observedHash d = rv_sha x s)) \<and>
     (\<forall>k. droppedIn ds k \<longrightarrow> ro_inferOp (rv_opts x) \<and> (\<exists>e. map_of b k = Some e \<and> isModify e)) \<and>
     (\<forall>k e. map_of b k = Some e \<longrightarrow> \<not> droppedIn ds k \<longrightarrow> (\<forall>d \<in> set (be_rawEdges e). \<not> droppedIn ds d)) \<and>
     targets_ok b ts \<and> map fst ts = if_Destroys (rv_intent x)"

lemma resolveOnce_parts:
  assumes "resolveOnce x reads = Some (Inr (p, reads'))"
  obtains b ds topo ts D st des head b1 where "resolved x b ds topo ts"
    and "tfold (resolveEntry x (destroyAddrSet ts)) topo \<lparr>vs_batch = b1, vs_inputs = [], vs_reads = reads\<rparr> = Some (Inr st)"
    and "gatherBatch x = Some (Inr (b1, ts, topo))" "vs_reads st = reads'"
    and "planModifies x (vs_batch st) topo = Some (Inr (D, ds))" "stages (vs_batch st) D" "stages D b"
    and "rewriteDroppedRefs (rv_ledger x) D topo (droppedKeys ds) = Some (Inr b)"
    and "resolveDestroys (rv_sha x) (rv_open x) (rv_ledger x) ts b (rv_knownDependents x) (rv_providers x) = Some (Inr des)"
    and "led_Head (rv_ledger x) = Some (Inr head)"
    and "p = draftOf x head (createsOf b topo, modifiesOf b ds topo, vs_inputs st @ liveInputs b ds topo) des"
proof -
  obtain b1 ts topo where 1: "gatherBatch x = Some (Inr (b1, ts, topo))"
    using assms by (auto simp: resolveOnce_def tbind_Inr_iff)
  let ?st = "\<lparr>vs_batch = b1, vs_inputs = [], vs_reads = reads\<rparr>"
  obtain st where 2: "tfold (resolveEntry x (destroyAddrSet ts)) topo ?st = Some (Inr st)"
    using assms 1 by (auto simp: resolveOnce_def tbind_Inr_iff)
  obtain b2 ds where 3: "planModifies x (vs_batch st) topo = Some (Inr (b2, ds))"
    using assms 1 2 by (auto simp: resolveOnce_def tbind_Inr_iff)
  let ?D = "droppedKeys ds"
  obtain b where 4: "rewriteDroppedRefs (rv_ledger x) b2 topo ?D = Some (Inr b)"
    using assms 1 2 3 by (auto simp: resolveOnce_def tbind_Inr_iff)
  obtain des where 5: "resolveDestroys (rv_sha x) (rv_open x) (rv_ledger x) ts b (rv_knownDependents x) (rv_providers x) = Some (Inr des)"
    using assms 1 2 3 4 by (auto simp: resolveOnce_def tbind_Inr_iff Let_def)
  obtain head where 6: "led_Head (rv_ledger x) = Some (Inr head)"
    using assms 1 2 3 4 5 by (auto simp: resolveOnce_def tbind_Inr_iff Let_def)
  have 7: "p = draftOf x head (createsOf b topo, modifiesOf b ds topo, vs_inputs st @ liveInputs b ds topo) des"
    "reads' = vs_reads st"
    using assms 1 2 3 4 5 6 by (simp_all add: resolveOnce_def res_simps Let_def emit_fold)
  note g = gatherBatch_parts [OF 1]
  have dom1: "\<forall>k \<in> set topo. map_of b1 k \<noteq> None" using g by (auto simp: batch_ok_def)
  have e12: "edged b1 (vs_batch st)"
    using edged_fold [OF 2, where B = vs_batch] resolveEntry_stage dom1 by fastforce
  have dom2: "\<forall>k \<in> set topo. map_of (vs_batch st) k \<noteq> None"
    using dom1 e12 stages_dom [of b1 "vs_batch st"] by (simp add: edged_def)
  have pm: "tfold (planModify x) topo (vs_batch st, []) = Some (Inr (b2, ds))" using 3 by (simp add: planModifies_def)
  have e23: "edged (vs_batch st) b2"
    using edged_fold [OF pm, where B = fst] planModify_stage dom2 by fastforce
  have dom3: "\<forall>k \<in> set topo. map_of b2 k \<noteq> None"
    using dom2 e23 stages_dom [of "vs_batch st" b2] by (simp add: edged_def)
  have "decided x ({} \<union> set topo) (b2, ds)"
    by (rule planModifies_decided [OF pm]) (use dom2 in \<open>simp_all add: decided_def\<close>)
  then have dec: "decided x (set topo) (b2, ds)" by simp
  have D: "k \<in> ?D \<longleftrightarrow> droppedIn ds k" for k
    using dec droppedKeys_iff [of ds k] by (simp add: decided_def droppedIn_def)
  have u: "undropped ?D (set topo) b2 b"
  proof (cases "?D = {}")
    case True
    then show ?thesis using 4 by (auto simp: rewriteDroppedRefs_def res_simps undropped_def)
  next
    case False
    then show ?thesis using 4 dom3 rewriteDroppedRefs_undropped by (simp add: rewriteDroppedRefs_def)
  qed
  have st23: "stages (vs_batch st) b2" and stb: "stages b2 b" and st1: "stages b1 (vs_batch st)"
    using e12 e23 u by (simp_all add: edged_def undropped_def)
  have st: "stages b1 b" using stages_trans [OF stages_trans [OF st1 st23] stb] .
  have ok: "batch_ok x (b, resourceKeys x @ dataKeys x)" using g stages_batch_ok [OF _ st] by blast
  have dom: "map_of b k \<noteq> None \<longleftrightarrow> k \<in> set topo" for k using ok g by (auto simp: batch_ok_def dom_def)
  have E: "batchEdges b2 = batchEdges b1" using e12 e23 by (simp add: edged_def)
  have edges: "be_rawEdges e = (if k \<in> ?D then be_rawEdges e2 else filter (\<lambda>d. d \<notin> ?D) (be_rawEdges e2))"
    if "map_of b k = Some e" "map_of b2 k = Some e2" for k e e2
    using that u dom [of k] by (auto simp: undropped_def)
  have e2: "\<exists>e2. map_of b2 k = Some e2 \<and> isModify e2 = isModify e" if k: "map_of b k = Some e" for k e
  proof -
    obtain e2 where e2: "map_of b2 k = Some e2" "core_of e = core_of e2" using stages_some [OF stb k] by blast
    then show ?thesis using typeName_core [OF e2(2)] by simp
  qed
  have "\<exists>j < i. topo ! j = d" if i: "i < length topo" "map_of b (topo ! i) = Some e" "d \<in> set (be_rawEdges e)" for i e d
  proof -
    obtain e2 where e2: "map_of b2 (topo ! i) = Some e2" using e2 [OF i(2)] by blast
    then have "batchEdges b1 (topo ! i) = Some (be_rawEdges e2)" unfolding E [symmetric] batchEdges_def by simp
    moreover have "d \<in> set (be_rawEdges e2)" using edges [OF i(2) e2] i(3) by (auto split: if_splits)
    ultimately show ?thesis using deps_first_nth [of "batchEdges b1" topo i] g i(1) by auto
  qed
  moreover have "map_of ds k \<noteq> None" if "map_of b k = Some e" "isModify e" for k e
    using that e2 [OF that(1)] dec dom [of k] by (auto simp: decided_def)
  moreover have "ro_inferOp (rv_opts x) \<and> (\<exists>e. map_of b k = Some e \<and> isModify e)" if d: "droppedIn ds k" for k
  proof -
    obtain e2' where m: "ro_inferOp (rv_opts x)" "map_of b2 k = Some e2'" "isModify e2'"
      using d dec unfolding decided_def droppedIn_def fst_conv snd_conv by blast
    then obtain e where e: "map_of b k = Some e" using stages_dom [OF stb, of k] by auto
    then show ?thesis using m e2 [OF e] by auto
  qed
  moreover have "\<not> droppedIn ds d" if k: "map_of b k = Some e" "\<not> droppedIn ds k" "d \<in> set (be_rawEdges e)" for k e d
  proof -
    obtain e2 where "map_of b2 k = Some e2" using e2 [OF k(1)] by blast
    then show ?thesis using edges [OF k(1)] k(2, 3) D by auto
  qed
  moreover have "\<forall>k d. map_of ds k = Some d \<longrightarrow> md_dropped d \<or> (\<exists>s. md_observedHash d = rv_sha x s)"
    using dec by (simp add: decided_def)
  moreover have "targets_ok b ts \<and> map fst ts = if_Destroys (rv_intent x)"
    using g inBatch_stages [OF st] unfolding targets_ok_def by auto
  ultimately have "resolved x b ds topo ts" using ok g unfolding resolved_def by blast
  then show ?thesis using that [OF _ 2 1 _ 3 st23 stb 4 5 6 7(1)] 7(2) by simp
qed

end
