(* ===== verification/ResolveProps.thy ===== *)
theory ResolveProps
  imports ResolveGraph
begin

text \<open>
  core/resolver, what holds of a resolved proposal: its graph, its providers, its orphans, its inputs, and of
  resolving twice.
\<close>

section \<open>The graph of a resolved proposal\<close>

lemma ranked_no_cycle:
  assumes "\<And>a ds d. E a = Some ds \<Longrightarrow> d \<in> set ds \<Longrightarrow> E d \<noteq> None \<Longrightarrow> r d < (r a :: nat)"
  shows "\<not> cycle_of E c"
proof
  assume c: "cycle_of E c"
  then have "c \<noteq> []" by (auto simp: cycle_of_def)
  then obtain a where a: "a \<in> set c" "\<forall>b \<in> set c. r a \<le> r b"
    using arg_min_if_finite [of "set c" r] by (metis List.finite_set empty_set not_le_imp_less set_empty)
  obtain ds b where b: "E a = Some ds" "b \<in> set ds" "b \<in> set c" using cycle_next [OF c a(1)] by blast
  then have "E b \<noteq> None" using cycle_next [OF c b(3)] by auto
  then show False using assms [OF b(1, 2)] a(2) b(3) by fastforce
qed

definition place :: "string list \<Rightarrow> string \<Rightarrow> nat" where
  "place xs k = (LEAST i. i < length xs \<and> xs ! i = k)"

lemma place_nth: "distinct xs \<Longrightarrow> i < length xs \<Longrightarrow> place xs (xs ! i) = i"
  unfolding place_def by (rule Least_equality) (auto simp: nth_eq_iff_index_eq)

lemma place_less: "distinct xs \<Longrightarrow> k \<in> set xs \<Longrightarrow> place xs k < length xs"
  by (metis in_set_conv_nth place_nth)

lemma resolveDestroys_edges:
  assumes "resolveDestroys sha opener l ts b kd ps = Some (Inr des)" "targets_ok b ts"
  shows "\<exists>order. distinct order \<and> set order = fst ` set ts \<and> map (\<lambda>d. addr_String (des_Address d)) (fst des) = order \<and>
    (\<forall>i < length order. \<forall>d \<in> set (des_DependsOn (fst des ! i)). inBatch b d \<or> (\<exists>j < i. order ! j = d))"
proof (cases "ts = []")
  case True
  then show ?thesis using assms by (auto simp: resolveDestroys_def res_simps)
next
  case False
  from assms(1, 2) False show ?thesis
  proof (rule resolveDestroys_parts)
    fix chain dependsOn order rs
    assume chain: "led_Chain l = Some (Inr chain)" and keys: "map fst dependsOn = map fst ts"
      and deps: "\<And>k deps. map_of dependsOn k = Some deps \<Longrightarrow>
        \<exists>xs. dependersOf l ts b k (reverseDeps (latestDependsOn chain) k) = Some (Inr xs) \<and> deps = sort xs"
      and order: "distinct order" "set order = fst ` set ts" "deps_first (withinBatch ts dependsOn) {} order"
      and rs: "list_all2 (\<lambda>k r. destroyEntry sha opener l kd ps k (the (map_of ts k)) (the (map_of dependsOn k)) = Some (Inr r)) order rs"
      and des: "des = (map fst rs, concat (map snd rs))"
    have key: "addr_String (the (map_of ts k)) = k" if k: "k \<in> set order" for k
    proof -
      obtain a where a: "map_of ts k = Some a" using k order(2) map_of_eq_None_iff [of ts k] by auto
      then show ?thesis using assms(2) map_of_SomeD [OF a] by (auto simp: targets_ok_def)
    qed
    have nth: "des_Address (fst (rs ! i)) = the (map_of ts (order ! i)) \<and> des_DependsOn (fst (rs ! i)) = the (map_of dependsOn (order ! i))"
      if "i < length order" for i
    proof -
      have "destroyEntry sha opener l kd ps (order ! i) (the (map_of ts (order ! i))) (the (map_of dependsOn (order ! i))) = Some (Inr (rs ! i))"
        using rs that by (simp add: list_all2_conv_all_nth)
      then show ?thesis by (rule destroyEntry_parts) simp
    qed
    have len: "length rs = length order" using rs by (simp add: list_all2_lengthD)
    have "map (\<lambda>d. addr_String (des_Address d)) (fst des) = order"
      by (rule nth_equalityI) (use len nth key in \<open>simp_all add: des\<close>)
    moreover have "inBatch b d \<or> (\<exists>j < i. order ! j = d)" if i: "i < length order" "d \<in> set (des_DependsOn (fst des ! i))" for i d
    proof -
      obtain ds where ds: "withinBatch ts dependsOn (order ! i) = Some ds" "\<forall>d \<in> set ds. \<exists>j < i. order ! j = d"
        using deps_first_nth [OF order(3) i(1)] by blast
      then obtain full where full: "map_of dependsOn (order ! i) = Some full" "ds = filter (\<lambda>d. map_of ts d \<noteq> None) full"
        by (auto simp: withinBatch_def)
      then have "d \<in> set full" using i nth len by (simp add: des)
      moreover have "map_of ts d \<noteq> None \<or> inBatch b d"
        using deps [OF full(1)] dependersOf_ok calculation by fastforce
      ultimately show ?thesis using ds(2) full(2) by auto
    qed
    ultimately show ?thesis using order(1, 2) by blast
  qed
qed

lemma resolved_entry:
  assumes "resolved x b ds topo ts" "k \<in> set topo"
  obtains e where "map_of b k = Some e" "entry_ok x k e"
proof -
  have "k \<in> dom (map_of b)" "\<forall>e. map_of b k = Some e \<longrightarrow> entry_ok x k e"
    using assms by (simp_all add: resolved_def batch_ok_def)
  then show ?thesis using that by auto
qed

lemma resolved_dropped:
  "resolved x b ds topo ts \<Longrightarrow> droppedIn ds k \<Longrightarrow> ro_inferOp (rv_opts x) \<and> (\<exists>e. map_of b k = Some e \<and> isModify e)"
  by (simp add: resolved_def)

lemma resolved_emits:
  assumes r: "resolved x b ds topo ts" and k: "k \<in> set topo"
  shows "emitsCreate b k \<or> emitsModify b ds k \<longleftrightarrow> k \<in> set (resourceKeys x) \<and> \<not> droppedIn ds k"
proof -
  obtain e where e: "map_of b k = Some e" "entry_ok x k e" using resolved_entry [OF r k] .
  have disj: "set (resourceKeys x) \<inter> set (dataKeys x) = {}" using r by (auto simp: resolved_def batch_ok_def)
  show ?thesis
  proof (cases "be_Spec e")
    case (IsData di)
    then have "k \<in> set (dataKeys x)" using e(2) by (auto simp: entry_ok_def dataKeys_def)
    then have "k \<notin> set (resourceKeys x)" using disj by blast
    then show ?thesis using e(1) IsData by (simp add: emitsCreate_def emitsModify_def isDataSource_def isModify_def)
  next
    case (IsResource ri)
    then have in_res: "k \<in> set (resourceKeys x)" using e(2) by (auto simp: entry_ok_def resourceKeys_def)
    have nd: "\<not> isDataSource e" "entryOp e = ri_Op ri" using IsResource by (simp_all add: isDataSource_def entryOp_def)
    obtain ri' found where "ri = ri'\<lparr>ri_Op := if found then OpModify else OpCreate\<rparr>"
      using e(2) IsResource unfolding entry_ok_def by (simp only: entrySpec.case) blast
    then have op: "ri_Op ri = OpCreate \<or> ri_Op ri = OpModify" by (cases found) simp_all
    have dropped: "isModify e" if "droppedIn ds k"
      using resolved_dropped [OF r that] e(1) by simp
    have "map_of ds k \<noteq> None" if "isModify e" using that r e(1) by (auto simp: resolved_def)
    then show ?thesis using op in_res e(1) nd dropped
      by (auto simp: emitsCreate_def emitsModify_def isModify_def droppedIn_def)
  qed
qed

lemma draft_nodes_eq:
  assumes "deltaNodes (draftOf x head (createsOf b topo, modifiesOf b ds topo, ins) des) = Inr ns"
  shows "ns = map (\<lambda>k. entryNode (the (map_of b k))) (filter (emitsCreate b) topo) @
      map (\<lambda>k. modifyChange (modificationOf (the (map_of b k)) (the (map_of ds k)))) (filter (emitsModify b ds) topo) @
      map destroyChange (fst des)"
  using assms unfolding draft_nodes by (auto simp: modifiesOf_def)

text \<open>The nodes of a resolved proposal: an entry that is emitted, or a destroy.\<close>

lemma resolved_nodes:
  assumes r: "resolved x b ds topo ts"
    and nodes: "deltaNodes (draftOf x head (createsOf b topo, modifiesOf b ds topo, ins) des) = Inr ns" and n: "n \<in> set ns"
  obtains (entry) e where "map_of b (ch_key n) = Some e" "ch_dependsOn n = sort (be_rawEdges e)"
      "ch_key n \<in> set topo" "emitsCreate b (ch_key n) \<or> emitsModify b ds (ch_key n)"
    | (gone) d where "d \<in> set (fst des)" "n = destroyChange d"
proof -
  have ent: thesis if k: "k \<in> set topo" "emitsCreate b k \<or> emitsModify b ds k"
    and a: "ch_addr n = be_addr (the (map_of b k))" "ch_dependsOn n = sort (be_rawEdges (the (map_of b k)))" for k
  proof -
    obtain e where e: "map_of b k = Some e" "entry_ok x k e" using resolved_entry [OF r k(1)] .
    then have "ch_key n = k" using a(1) by (simp add: entry_ok_def)
    then show thesis using entry [of e] e(1) a(2) k by simp
  qed
  have "(\<exists>k \<in> set topo. emitsCreate b k \<and> n = entryNode (the (map_of b k))) \<or>
      (\<exists>k \<in> set topo. emitsModify b ds k \<and> n = modifyChange (modificationOf (the (map_of b k)) (the (map_of ds k)))) \<or>
      (\<exists>d \<in> set (fst des). n = destroyChange d)"
    using n unfolding draft_nodes_eq [OF nodes] by auto
  then show thesis
  proof (elim disjE bexE conjE)
    fix k assume k: "k \<in> set topo" "emitsCreate b k" "n = entryNode (the (map_of b k))"
    show thesis by (rule ent [OF k(1)]) (simp_all add: k)
  next
    fix k assume k: "k \<in> set topo" "emitsModify b ds k" "n = modifyChange (modificationOf (the (map_of b k)) (the (map_of ds k)))"
    show thesis by (rule ent [OF k(1)]) (simp_all add: k)
  qed (use gone in blast)
qed

lemma resolved_keys:
  assumes r: "resolved x b ds topo ts"
    and nodes: "deltaNodes (draftOf x head (createsOf b topo, modifiesOf b ds topo, ins) des) = Inr ns"
    and des: "(\<lambda>d. addr_String (des_Address d)) ` set (fst des) = set (if_Destroys (rv_intent x))"
  shows "ch_key ` set ns = {k \<in> set (resourceKeys x). \<not> droppedIn ds k} \<union> set (if_Destroys (rv_intent x))"
proof -
  have key: "addr_String (be_addr (the (map_of b k))) = k" if k: "k \<in> set topo" for k
    using resolved_entry [OF r k] by (metis entry_ok_def option.sel)
  have topo: "set topo = set (resourceKeys x) \<union> set (dataKeys x)" using r by (simp add: resolved_def)
  have "ch_key ` set ns = {k \<in> set topo. emitsCreate b k} \<union> {k \<in> set topo. emitsModify b ds k} \<union>
      (\<lambda>d. addr_String (des_Address d)) ` set (fst des)"
    unfolding draft_nodes_eq [OF nodes] set_append image_Un set_map image_image set_filter
    using key by (auto simp: destroyChange_def image_iff)
  also have "{k \<in> set topo. emitsCreate b k} \<union> {k \<in> set topo. emitsModify b ds k} =
      {k \<in> set (resourceKeys x). \<not> droppedIn ds k}"
    using resolved_emits [OF r] topo by blast
  finally show ?thesis unfolding des .
qed

text \<open>
  C5. What a resolve produces can be shipped: the executor sorts the change graph of a resolved proposal,
  and its nodes are the intent's resources and destroys. Resolving and shipping agree on the order, so no
  resolved proposal has a cycle. What is left is a dangling edge, to a data source of the intent, or of a
  destroy to a resource whose inferred modify was dropped because it changes nothing.
\<close>

theorem resolved_ships:
  assumes "resolveOnce x reads = Some (Inr (p, reads'))"
  shows "(case changeNodesOf p of
      Inr ns \<Rightarrow> ch_key ` set ns \<subseteq> set (resourceKeys x) \<union> set (if_Destroys (rv_intent x)) \<and>
        (\<not> ro_inferOp (rv_opts x) \<longrightarrow> ch_key ` set ns = set (resourceKeys x) \<union> set (if_Destroys (rv_intent x)))
    | Inl e \<Rightarrow> \<exists>n d. e = ErrDanglingDependency n d \<and> (d \<in> set (dataKeys x) \<or>
        ro_inferOp (rv_opts x) \<and> d \<in> set (resourceKeys x) \<and> n \<in> set (if_Destroys (rv_intent x))))"
  using assms
proof (rule resolveOnce_parts)
  fix b ds topo ts D st des head b1
  assume r: "resolved x b ds topo ts"
    and des: "resolveDestroys (rv_sha x) (rv_open x) (rv_ledger x) ts b (rv_knownDependents x) (rv_providers x) = Some (Inr des)"
    and p: "p = draftOf x head (createsOf b topo, modifiesOf b ds topo, vs_inputs st @ liveInputs b ds topo) des"
  have ts: "targets_ok b ts" "fst ` set ts = set (if_Destroys (rv_intent x))"
    using r by (auto simp: resolved_def simp flip: set_map)
  obtain order where o: "distinct order \<and> set order = fst ` set ts \<and> map (\<lambda>d. addr_String (des_Address d)) (fst des) = order \<and>
    (\<forall>i < length order. \<forall>d \<in> set (des_DependsOn (fst des ! i)). inBatch b d \<or> (\<exists>j < i. order ! j = d))"
    using resolveDestroys_edges [OF des ts(1)] by (elim exE) (rule that)
  then have order: "distinct order" "set order = set (if_Destroys (rv_intent x))"
    "map (\<lambda>d. addr_String (des_Address d)) (fst des) = order"
    "\<And>i d. i < length order \<Longrightarrow> d \<in> set (des_DependsOn (fst des ! i)) \<Longrightarrow> inBatch b d \<or> (\<exists>j < i. order ! j = d)"
    unfolding ts(2) by simp_all
  have topo: "distinct topo" "set topo = set (resourceKeys x) \<union> set (dataKeys x)"
    "\<And>i e d. i < length topo \<Longrightarrow> map_of b (topo ! i) = Some e \<Longrightarrow> d \<in> set (be_rawEdges e) \<Longrightarrow> \<exists>j < i. topo ! j = d"
    using r by (simp_all add: resolved_def)
  have inB: "inBatch b d \<longleftrightarrow> d \<in> set topo" for d
    using r by (auto simp: resolved_def batch_ok_def inBatch_def)
  have apart: "d \<notin> set topo" if "d \<in> set order" for d
    using that ts order(2) inB by (fastforce simp: targets_ok_def)
  obtain ns where ns: "deltaNodes p = Inr ns" unfolding p draft_nodes by blast
  have keys: "ch_key ` set ns = {k \<in> set (resourceKeys x). \<not> droppedIn ds k} \<union> set (if_Destroys (rv_intent x))"
    using resolved_keys [OF r ns [unfolded p]] order(2, 3) by (metis set_map)
  define rank where "rank k = (if k \<in> set topo then place topo k else length topo + place order k)" for k
  have edge: "rank d < rank (ch_key n) \<and> (d \<in> ch_key ` set ns \<or> d \<in> set (dataKeys x) \<or>
      d \<in> set (resourceKeys x) \<and> droppedIn ds d \<and> ch_key n \<in> set (if_Destroys (rv_intent x)))"
    if n: "n \<in> set ns" "d \<in> set (ch_dependsOn n)" for n d
    using r ns [unfolded p] n(1)
  proof (cases rule: resolved_nodes)
    case (entry e)
    obtain i where i: "i < length topo" "topo ! i = ch_key n" using entry(3) by (auto simp: in_set_conv_nth)
    then obtain j where j: "j < i" "topo ! j = d" using topo(3) [OF i(1)] entry(1, 2) n(2) by auto
    then have d: "d \<in> set topo" using i(1) by auto
    have "rank d = j" "rank (ch_key n) = i"
      using place_nth [OF topo(1), of i] place_nth [OF topo(1), of j] i j d entry(3) unfolding rank_def by auto
    moreover have "\<not> droppedIn ds (ch_key n)" using resolved_emits [OF r entry(3)] entry(4) by blast
    then have "\<not> droppedIn ds d" using r entry(1, 2) n(2) unfolding resolved_def by (metis set_sort)
    ultimately show ?thesis using j(1) d topo(2) keys by auto
  next
    case (gone g)
    then obtain i where i: "i < length order" "fst des ! i = g" using order(3) by (metis in_set_conv_nth length_map)
    then have key: "order ! i = ch_key n" "ch_key n \<in> set order"
      using gone order(3) by (auto simp: destroyChange_def)
    have rn: "rank (ch_key n) = length topo + i"
      using apart [OF key(2)] place_nth [OF order(1) i(1)] key(1) by (simp add: rank_def)
    from order(4) [OF i(1), of d] n(2) gone i(2) have "inBatch b d \<or> (\<exists>j < i. order ! j = d)"
      by (simp add: destroyChange_def)
    then show ?thesis
    proof
      assume "inBatch b d"
      then have d: "d \<in> set topo" by (simp add: inB)
      then have "rank d < length topo" using place_less [OF topo(1)] by (simp add: rank_def)
      then show ?thesis using rn d topo(2) keys key(2) order(2) by auto
    next
      assume "\<exists>j < i. order ! j = d"
      then obtain j where j: "j < i" "order ! j = d" by blast
      then have d: "d \<in> set order" using i(1) by auto
      then have "rank d = length topo + j" using apart [OF d] place_nth [OF order(1), of j] i(1) j by (simp add: rank_def)
      then show ?thesis using rn j(1) d order(2) keys by auto
    qed
  qed
  have "\<not> cycle_of (delta_edges ns) c" for c
  proof (rule ranked_no_cycle [where r = rank])
    fix a es d assume e: "delta_edges ns a = Some es" "d \<in> set es"
    then obtain n where "map_of (by_addr ns) a = Some n" "es = ch_dependsOn n" by (auto simp: edges_in_def)
    then show "rank d < rank a" using by_addr_key [of ns a n] edge e(2) by auto
  qed
  moreover have "droppedIn ds k \<longrightarrow> ro_inferOp (rv_opts x)" for k using r by (simp add: resolved_def)
  moreover have "\<exists>ns'. deltaNodes p = Inr ns' \<and> ch_key ` set ns'' = ch_key ` set ns'" if "changeNodesOf p = Inr ns''" for ns''
    using changeNodesOf_sorted [OF that] by blast
  ultimately show ?thesis using changeNodesOf_outcomes [OF ns] edge ns keys by (fastforce split: sum.splits)
qed

text \<open>Code for the chain walk, for the witnesses.\<close>

declare chain_loop.simps [code]

definition sample_schema :: SchemaInspector where
  "sample_schema = \<lparr>si_HasType = (\<lambda>ty. ty = ''t''), si_IsComputed = (\<lambda>ty a. a = ''id''), si_IsProviderOwned = (\<lambda>ty a. False),
     si_IsSensitive = (\<lambda>ty a. False), si_UnknownConfigKeys = (\<lambda>ty m. []), si_MissingRequiredKeys = (\<lambda>ty m. [])\<rparr>"

definition sample_provider :: "(unit, unit) DeclaredProvider" where
  "sample_provider = \<lparr>dp_Source = ''p'', dp_Version = ''1'', dp_Schema = sample_schema,
     dp_Reader = Some (fixed_reader (GObj [(''acl'', GStr ''x'')])), dp_ProviderConfig = None\<rparr>"

definition git_ledger :: "git_store \<Rightarrow> git_store ledger" where
  "git_ledger g = \<lparr>lg_Ops = git_ops, lg_Store = g, lg_Exists = True, lg_BaseStore = [], lg_ExternalStacks = Map.empty\<rparr>"

definition sample_resource :: "string \<Rightarrow> string \<Rightarrow> fields \<Rightarrow> ResourceIntent" where
  "sample_resource op name config = \<lparr>ri_Type = ''t'', ri_Name = name, ri_Op = op, ri_Config = Some (GObj config), ri_Provider = None,
     ri_DependsOn = [], ri_Sources = [], ri_ForEach = [], ri_CreateIf = []\<rparr>"

definition sample_intent :: "ResourceIntent list \<Rightarrow> DataSourceIntent list \<Rightarrow> string list \<Rightarrow> IntentFile" where
  "sample_intent rs ds des = \<lparr>if_SchemaVersion = 1, if_Kind = IntentFileKind, if_Stack = ''s'', if_Intent = plainIntent ''do'',
     if_Resources = rs, if_DataSources = ds, if_Destroys = des, if_BlueprintOutputs = [], if_BlueprintCalls = [], if_Overrides = []\<rparr>"

definition sample_resolve :: "git_store \<Rightarrow> IntentFile \<Rightarrow> (git_store, unit, unit) resolveIn" where
  "sample_resolve g intent = \<lparr>rv_sha = sample_sha, rv_open = (\<lambda>ref. Inr (git_ledger git_empty)), rv_ledger = git_ledger g,
     rv_providers = [sample_provider], rv_intent = intent, rv_knownDependents = [], rv_resolvedAt = ''now'',
     rv_opts = applyResolveOptions []\<rparr>"

definition refTo :: "string \<Rightarrow> gval" where
  "refTo to = GObj [(markerRef, GObj [(''to'', GStr to)])]"

definition sample_two :: "(git_store, unit, unit) resolveIn" where
  "sample_two = sample_resolve git_empty (sample_intent
     [sample_resource ''create'' ''a'' [(''link'', refTo ''s.t.b.id'')], sample_resource ''create'' ''b'' [(''x'', GBool True)]] [] [])"

definition resolvedOf :: "('a \<times> 'b) rrun \<Rightarrow> 'a" where
  "resolvedOf r = fst (projr (the r))"

lemma sample_two_resolves: "resolveOnce sample_two ([], ()) = Some (Inr (resolvedOf (resolveOnce sample_two ([], ())), [], ()))"
  by code_simp

lemma resolved_ships_witness:
  "\<exists>ns. changeNodesOf (resolvedOf (resolveOnce sample_two ([], ()))) = Inr ns \<and> ch_key ` set ns = {''s.t.a'', ''s.t.b''}"
proof -
  have "set (resourceKeys sample_two) = {''s.t.a'', ''s.t.b''}" "dataKeys sample_two = []" "\<not> ro_inferOp (rv_opts sample_two)"
    "if_Destroys (rv_intent sample_two) = []"
    by (simp_all add: resourceKeys_def dataKeys_def sample_two_def sample_resolve_def sample_intent_def sample_resource_def
        addr_String_def applyResolveOptions_def)
  then show ?thesis using resolved_ships [OF sample_two_resolves] by (auto split: sum.splits)
qed

end
