(* ===== verification/ResolveTwice.thy ===== *)
theory ResolveTwice
  imports ResolveProps
begin

text \<open>
  Resolving an intent twice: with the cache of the first run, the second reads nothing and finds the same.
\<close>

section \<open>Reads are kept\<close>

abbreviation kept :: "readCache \<times> 'w \<Rightarrow> readCache \<times> 'w \<Rightarrow> bool" where
  "kept c c' \<equiv> map_of (fst c) \<subseteq>\<^sub>m map_of (fst c')"

text \<open>A step that can be repeated with every cache that has its reads, and then changes neither cache nor world.\<close>

definition repeats :: "(('w, 'sch) valueState \<Rightarrow> ('w, 'sch) valueState rrun) \<Rightarrow> ('w, 'sch) valueState \<Rightarrow> ('w, 'sch) valueState \<Rightarrow> bool" where
  "repeats f st st' \<longleftrightarrow> kept (vs_reads st) (vs_reads st') \<and>
     (\<forall>c. kept (vs_reads st') c \<longrightarrow> f (st\<lparr>vs_reads := c\<rparr>) = Some (Inr (st'\<lparr>vs_reads := c\<rparr>)))"

lemma dataSourceRead_repeats:
  assumes "dataSourceRead sha reader addr pc lookup c = Inr (r, c')"
  shows "kept c c' \<and> (kept c' d \<longrightarrow> dataSourceRead sha reader addr pc lookup d = Inr (r, d))"
proof (cases "map_of (fst c) (addr_String addr)")
  case (Some cached)
  then have "c' = c" "r = cached" using assms by (simp_all add: dataSourceRead_def Let_def)
  moreover have "map_of (fst d) (addr_String addr) = Some cached" if "kept c d"
    using Some that by (metis domI map_le_def)
  ultimately show ?thesis by (simp add: dataSourceRead_def Let_def)
next
  case None
  then have c': "fst c' = aput (addr_String addr) r (fst c)"
    using assms by (auto simp: dataSourceRead_def Let_def split: prod.splits sum.splits)
  then have "kept c c'" using None by (auto simp: map_le_def)
  moreover have "map_of (fst d) (addr_String addr) = Some r" if "kept c' d"
    using that c' by (auto simp: map_le_def)
  ultimately show ?thesis by (simp add: dataSourceRead_def Let_def)
qed

lemma readEntry_repeats:
  assumes "readEntry x k e m st = Some (Inr st')"
  shows "repeats (readEntry x k e m) st st'"
proof -
  have m: "\<not> containsMarker (GObj m)" using assms by (auto simp: readEntry_def res_simps simp del: containsMarker.simps)
  obtain reader where reader: "dp_Reader (be_provider e) = Some reader"
    using assms m by (auto simp: readEntry_def res_simps split: option.splits)
  obtain obs h reads where read: "dataSourceRead (rv_sha x) reader (be_addr e) (dp_ProviderConfig (be_provider e))
      (Some (GObj m)) (vs_reads st) = Inr ((obs, h), reads)"
    using assms m reader by (auto simp: readEntry_def res_simps)
  obtain om where om: "unmarshal_map (Some obs) = Some om"
    using assms m reader read by (auto simp: readEntry_def res_simps)
  have st': "st' = st\<lparr>vs_batch := aput k (e\<lparr>be_resolvedConfig := om\<rparr>) (vs_batch st),
      vs_inputs := vs_inputs st @ [(plainInput ''data_source'' (addr_String (be_addr e)))\<lparr>in_ObservedHash := h, in_Lookup := Some (GObj m)\<rparr>],
      vs_reads := reads\<rparr>"
    using assms m reader read om by (simp add: readEntry_def res_simps)
  have "readEntry x k e m (st\<lparr>vs_reads := c\<rparr>) = Some (Inr (st'\<lparr>vs_reads := c\<rparr>))" if c: "kept reads c" for c
  proof -
    have "dataSourceRead (rv_sha x) reader (be_addr e) (dp_ProviderConfig (be_provider e)) (Some (GObj m)) c = Inr ((obs, h), c)"
      using dataSourceRead_repeats [OF read] c by blast
    then show ?thesis using m reader om by (simp add: readEntry_def tret_def st')
  qed
  then show ?thesis using dataSourceRead_repeats [OF read] by (simp add: repeats_def st')
qed

lemma resolveEntry_repeats:
  assumes "resolveEntry x D k st = Some (Inr st')"
  shows "repeats (resolveEntry x D k) st st'"
proof -
  let ?e = "the (map_of (vs_batch st) k)"
  obtain raw where raw: "unmarshal_any (rawValue ?e) = Some raw"
    using assms by (auto simp: resolveEntry_def res_simps Let_def)
  obtain v ins where v: "resolveValue (entryCtx x D (vs_batch st) ?e) [] raw = Some (Inr (v, ins))"
    using assms raw by (auto simp: resolveEntry_def res_simps Let_def)
  obtain m where m: "v = GObj m"
    using assms raw v by (cases v) (auto simp: resolveEntry_def res_simps Let_def)
  let ?st = "st\<lparr>vs_inputs := vs_inputs st @ ins\<rparr>"
  show ?thesis
  proof (cases "isDataSource ?e")
    case True
    have "repeats (readEntry x k ?e m) ?st st'"
      by (rule readEntry_repeats) (use assms raw v m True in \<open>simp add: resolveEntry_def Let_def\<close>)
    then have "kept (vs_reads ?st) (vs_reads st') \<and>
        (\<forall>c. kept (vs_reads st') c \<longrightarrow> readEntry x k ?e m (?st\<lparr>vs_reads := c\<rparr>) = Some (Inr (st'\<lparr>vs_reads := c\<rparr>)))"
      unfolding repeats_def .
    then have rep: "kept (vs_reads ?st) (vs_reads st')"
      "\<And>c. kept (vs_reads st') c \<Longrightarrow> readEntry x k ?e m (?st\<lparr>vs_reads := c\<rparr>) = Some (Inr (st'\<lparr>vs_reads := c\<rparr>))"
      by blast+
    have "resolveEntry x D k (st\<lparr>vs_reads := c\<rparr>) = Some (Inr (st'\<lparr>vs_reads := c\<rparr>))" if c: "kept (vs_reads st') c" for c
    proof -
      have eq: "st\<lparr>vs_reads := c, vs_inputs := vs_inputs st @ ins\<rparr> = ?st\<lparr>vs_reads := c\<rparr>" by (cases st) simp
      show ?thesis using raw v m True rep(2) [OF c] by (simp add: resolveEntry_def Let_def eq)
    qed
    moreover have "kept (vs_reads st) (vs_reads st')" using rep(1) by simp
    ultimately show ?thesis unfolding repeats_def by blast
  next
    case False
    then have "st' = ?st\<lparr>vs_batch := aput k (?e\<lparr>be_resolvedConfig := Some m\<rparr>) (vs_batch st)\<rparr>"
      using assms raw v m by (simp add: resolveEntry_def Let_def res_simps)
    then show ?thesis using raw v m False by (simp add: repeats_def resolveEntry_def Let_def tret_def)
  qed
qed

lemma repeats_fold:
  assumes "tfold f ks st = Some (Inr st')" "\<And>k st st'. f k st = Some (Inr st') \<Longrightarrow> repeats (f k) st st'"
  shows "repeats (tfold f ks) st st'"
  using assms(1)
proof (induction ks arbitrary: st)
  case Nil
  then show ?case by (simp add: res_simps repeats_def tret_def)
next
  case (Cons k ks)
  then obtain t where t: "f k st = Some (Inr t)" "tfold f ks t = Some (Inr st')" by (auto simp: res_simps)
  have 1: "repeats (f k) st t" by (rule assms(2) [OF t(1)])
  have 2: "repeats (tfold f ks) t st'" by (rule Cons.IH [OF t(2)])
  have "kept (vs_reads st) (vs_reads st')" using 1 2 unfolding repeats_def by (meson map_le_trans)
  moreover have "tfold f (k # ks) (st\<lparr>vs_reads := c\<rparr>) = Some (Inr (st'\<lparr>vs_reads := c\<rparr>))" if c: "kept (vs_reads st') c" for c
  proof -
    have "kept (vs_reads t) c" using 2 c unfolding repeats_def by (meson map_le_trans)
    then have "f k (st\<lparr>vs_reads := c\<rparr>) = Some (Inr (t\<lparr>vs_reads := c\<rparr>))" using 1 unfolding repeats_def by blast
    moreover have "tfold f ks (t\<lparr>vs_reads := c\<rparr>) = Some (Inr (st'\<lparr>vs_reads := c\<rparr>))" using 2 c unfolding repeats_def by blast
    ultimately show ?thesis by simp
  qed
  ultimately show ?case unfolding repeats_def by blast
qed

lemma resolveOnce_again:
  assumes "resolveOnce x reads = Some (Inr (p, reads'))"
  shows "resolveOnce x reads' = Some (Inr (p, reads'))"
proof -
  obtain b ts topo where 1: "gatherBatch x = Some (Inr (b, ts, topo))"
    using assms by (auto simp: resolveOnce_def tbind_Inr_iff)
  let ?st = "\<lparr>vs_batch = b, vs_inputs = [], vs_reads = reads\<rparr>"
  obtain st where 2: "tfold (resolveEntry x (destroyAddrSet ts)) topo ?st = Some (Inr st)"
    using assms 1 by (auto simp: resolveOnce_def tbind_Inr_iff)
  have reads': "vs_reads st = reads'"
    using assms 1 2 by (auto simp: resolveOnce_def res_simps Let_def)
  have "tfold (resolveEntry x (destroyAddrSet ts)) topo (?st\<lparr>vs_reads := reads'\<rparr>) = Some (Inr (st\<lparr>vs_reads := reads'\<rparr>))"
  proof -
    have "repeats (tfold (resolveEntry x (destroyAddrSet ts)) topo) ?st st"
      by (rule repeats_fold [OF 2]) (rule resolveEntry_repeats)
    then show ?thesis unfolding repeats_def reads' by (metis map_le_refl)
  qed
  then have "tfold (resolveEntry x (destroyAddrSet ts)) topo \<lparr>vs_batch = b, vs_inputs = [], vs_reads = reads'\<rparr> = Some (Inr st)"
    by (simp add: reads' [symmetric])
  then show ?thesis using assms 1 2 reads' by (simp add: resolveOnce_def)
qed

text \<open>
  C20. Resolving twice is resolving once: the second run takes every read of a data source from the cache of
  the first, so its proposal is the same, the two texts never disagree, and the world is where the first run
  left it. Resolve is its first run.
\<close>

theorem Resolve_is_resolveOnce:
  "Resolve x w = (case resolveOnce x ([], w) of
      None \<Rightarrow> None
    | Some (Inl e) \<Rightarrow> Some (Inl e)
    | Some (Inr (p, reads)) \<Rightarrow> Some (Inr (p, snd reads)))"
proof (cases "resolveOnce x ([], w)")
  case (Some r)
  show ?thesis
  proof (cases r)
    case (Inr pr)
    obtain p reads where pr: "pr = (p, reads)" by (cases pr)
    then have "resolveOnce x ([], w) = Some (Inr (p, reads))" using Some Inr by simp
    then show ?thesis using resolveOnce_again [of x _ p reads] by (simp add: Resolve_def DoubleRun_def tret_def)
  qed (simp add: Resolve_def Some)
qed (simp add: Resolve_def)

end
