(* ===== verification/ResolveDelta.thy ===== *)
theory ResolveDelta
  imports ResolveTwice
begin

text \<open>
  core/resolver, what the entries of a resolved proposal are: their providers, the evidence a validator asks
  for, and what becomes of the resources that depend on a destroyed one.
\<close>

section \<open>Destroy entries\<close>

lemma resolveDestroys_entries:
  assumes "resolveDestroys sha opener l ts b kd ps = Some (Inr des)" "targets_ok b ts"
  shows "\<exists>rs. des = (map fst rs, concat (map snd rs)) \<and> (\<forall>r \<in> set rs. \<exists>k a deps.
    map_of ts k = Some a \<and> addr_String a = k \<and> destroyEntry sha opener l kd ps k a deps = Some (Inr r) \<and>
    (\<exists>chain xs. led_Chain l = Some (Inr chain) \<and> set deps = set xs \<and>
       dependersOf l ts b k (reverseDeps (latestDependsOn chain) k) = Some (Inr xs)))"
proof (cases "ts = []")
  case True
  then show ?thesis using assms by (auto simp: resolveDestroys_def res_simps)
next
  case False
  from assms(1, 2) False show ?thesis
  proof (rule resolveDestroys_parts)
    fix chain dependsOn order rs
    assume chain: "led_Chain l = Some (Inr chain)" and keys: "map fst dependsOn = map fst ts"
      and deps: "\<And>k deps. map_of dependsOn k = Some deps \<Longrightarrow>
        \<exists>xs. dependersOf l ts b k (reverseDeps (latestDependsOn chain) k) = Some (Inr xs) \<and> deps = sort xs"
      and order: "set order = fst ` set ts"
      and rs: "list_all2 (\<lambda>k r. destroyEntry sha opener l kd ps k (the (map_of ts k)) (the (map_of dependsOn k)) = Some (Inr r)) order rs"
      and des: "des = (map fst rs, concat (map snd rs))"
    have "\<exists>k a deps. map_of ts k = Some a \<and> addr_String a = k \<and> destroyEntry sha opener l kd ps k a deps = Some (Inr r) \<and>
        (\<exists>chain xs. led_Chain l = Some (Inr chain) \<and> set deps = set xs \<and>
          dependersOf l ts b k (reverseDeps (latestDependsOn chain) k) = Some (Inr xs))" if r: "r \<in> set rs" for r
    proof -
      obtain k where k: "k \<in> set order"
        "destroyEntry sha opener l kd ps k (the (map_of ts k)) (the (map_of dependsOn k)) = Some (Inr r)"
        using list_all2_right [OF rs r] by blast
      obtain a where a: "map_of ts k = Some a" using k(1) order map_of_eq_None_iff [of ts k] by auto
      have "k \<in> set (map fst dependsOn)" using k(1) order unfolding keys by simp
      then obtain ds where ds: "map_of dependsOn k = Some ds" using map_of_eq_None_iff [of dependsOn k] by auto
      then obtain xs where "dependersOf l ts b k (reverseDeps (latestDependsOn chain) k) = Some (Inr xs)" "ds = sort xs"
        using deps by blast
      moreover have "addr_String a = k" using assms(2) map_of_SomeD [OF a] by (auto simp: targets_ok_def)
      ultimately show ?thesis using chain k(2) a ds by (intro exI [of _ k] exI [of _ a] exI [of _ ds]) auto
    qed
    then show ?thesis unfolding des by (intro exI [of _ rs] conjI refl ballI)
  qed
qed

section \<open>Evidence\<close>

lemma last_such_append: "last_such P (xs @ ys) = (if filter P ys = [] then last_such P xs else last_such P ys)"
  by (simp add: last_such_def)

lemma last_such_exists: "filter P xs \<noteq> [] \<Longrightarrow> \<exists>x. last_such P xs = Some x \<and> x \<in> set xs \<and> P x"
proof -
  assume "filter P xs \<noteq> []"
  then have "last_such P xs = Some (last (filter P xs))" by (simp add: last_such_def)
  then show ?thesis using last_such_Some by metis
qed

lemma last_such_last:
  assumes "\<exists>y \<in> set ys. P y" "\<forall>z \<in> set zs. \<not> P z"
  shows "\<exists>y \<in> set ys. P y \<and> last_such P (xs @ ys @ zs) = Some y"
proof -
  have "filter P zs = []" "filter P ys \<noteq> []" using assms by (auto simp: filter_empty_conv)
  then show ?thesis using last_such_exists [of P ys] by (auto simp: last_such_append)
qed

lemma liveInput_sel [simp]: "in_Resource (liveInput e d) = addr_String (be_addr e)" "in_ObservedHash (liveInput e d) = md_observedHash d"
  by (simp_all add: liveInput_def plainInput_def)

lemma draftOf_sel [simp]:
  "d_Creates (p_Delta (draftOf x head (cs, ms, ins) des)) = cs" "d_Modifies (p_Delta (draftOf x head (cs, ms, ins) des)) = ms"
  "d_Destroys (p_Delta (draftOf x head (cs, ms, ins) des)) = fst des" "p_Parent (draftOf x head (cs, ms, ins) des) = head"
  "rs_Inputs (p_Resolution (draftOf x head (cs, ms, ins) des)) = ins @ snd des"
  "p_Kind (draftOf x head (cs, ms, ins) des) = KindChange" "p_Stack (draftOf x head (cs, ms, ins) des) = if_Stack (rv_intent x)"
  "p_ID (draftOf x head (cs, ms, ins) des) = []" "p_Acceptance (draftOf x head (cs, ms, ins) des) = None"
  "p_BlastRadius (draftOf x head (cs, ms, ins) des) =
    \<lparr>br_Creates = int (length cs), br_Modifies = int (length ms), br_Destroys = int (length (fst des))\<rparr>"
  by (simp_all add: draftOf_def)

lemma destroy_inputs:
  assumes "destroyEntry sha opener l kd ps k a deps = Some (Inr r)" "addr_String a = k" "\<forall>s. sha s \<noteq> []"
  shows "(\<forall>i \<in> set (snd r). in_Resource i = k) \<and>
    (\<exists>i \<in> set (snd r). in_Kind i = ''destroy_target'') \<and> addr_String (des_Address (fst r)) = k \<and>
    (\<forall>i \<in> set (snd r). in_Kind i = ''destroy_target'' \<longrightarrow> in_ObservedHash i \<noteq> [] \<and> in_Lookup i \<noteq> None)"
  using assms(1)
proof (rule destroyEntry_parts)
  fix st found p src lookup h cross
  assume r: "ObservedHash sha st = Inr h" "lookup \<noteq> None" "in_Kind cross = ''cross_stack_orphan_check''"
    "in_Resource cross = addr_String a"
    "r = (\<lparr>des_Address = a, des_State = st, des_DependsOn = deps, des_Provider = Some (providerRefOf p), des_Sources = src\<rparr>,
      [(plainInput ''destroy_target'' k)\<lparr>in_ObservedHash := h, in_Lookup := lookup\<rparr>, cross])"
  have "h \<noteq> []" using r(1) assms(3) by (auto simp: ObservedHash_def res_simps)
  then show ?thesis using r(2-5) assms(2) by (simp add: plainInput_def)
qed

text \<open>
  C34. A resolved proposal is a valid draft on the head of its ledger: every modify and every destroy has
  the evidence that validation asks for, and the blast radius counts the delta. What validation can still
  refuse is a source whose fields do not fit its kind, which the resolver copies from the intent and the
  ledger without looking.
\<close>

theorem resolved_valid:
  assumes "resolveOnce x reads = Some (Inr (p, reads'))" "\<forall>s. rv_sha x s \<noteq> []"
  shows "Validate p = wrapInvalid (validateSourceFields p) \<and> led_Head (rv_ledger x) = Some (Inr (p_Parent p)) \<and>
    p_Kind p = KindChange \<and> p_Stack p = if_Stack (rv_intent x) \<and> p_ID p = [] \<and> p_Acceptance p = None"
  using assms(1)
proof (rule resolveOnce_parts)
  fix b ds topo ts D st des head b1
  assume r: "resolved x b ds topo ts"
    and des: "resolveDestroys (rv_sha x) (rv_open x) (rv_ledger x) ts b (rv_knownDependents x) (rv_providers x) = Some (Inr des)"
    and head: "led_Head (rv_ledger x) = Some (Inr head)"
    and p: "p = draftOf x head (createsOf b topo, modifiesOf b ds topo, vs_inputs st @ liveInputs b ds topo) des"
  have ts: "targets_ok b ts" using r by (simp add: resolved_def)
  obtain rs where rs: "des = (map fst rs, concat (map snd rs))"
    "\<And>r. r \<in> set rs \<Longrightarrow> \<exists>k a deps. map_of ts k = Some a \<and> addr_String a = k \<and>
      destroyEntry (rv_sha x) (rv_open x) (rv_ledger x) (rv_knownDependents x) (rv_providers x) k a deps = Some (Inr r)"
    using resolveDestroys_entries [OF des ts] by blast
  have ins: "rs_Inputs (p_Resolution p) = vs_inputs st @ liveInputs b ds topo @ snd des" by (simp add: p)
  have "modifies_proved p" unfolding modifies_proved_def ins
  proof
    fix m assume "m \<in> set (d_Modifies (p_Delta p))"
    then obtain k where k: "k \<in> set topo" "emitsModify b ds k" "m = modificationOf (the (map_of b k)) (the (map_of ds k))"
      by (auto simp: p modifiesOf_def)
    obtain e where e: "map_of b k = Some e" "addr_String (be_addr e) = k"
      using resolved_entry [OF r k(1)] by (metis entry_ok_def)
    let ?P = "\<lambda>i. in_Resource i = addr_String (mod_Target m)"
    have key: "addr_String (mod_Target m) = k" using k(3) e by (simp add: modificationOf_def)
    have "\<exists>i \<in> set (liveInputs b ds topo). ?P i" using k e key by (auto simp: liveInputs_def)
    moreover have "\<forall>i \<in> set (snd des). \<not> ?P i"
    proof
      fix i assume "i \<in> set (snd des)"
      then obtain rr where rr: "rr \<in> set rs" "i \<in> set (snd rr)" by (auto simp: rs(1))
      obtain k' a deps where a: "map_of ts k' = Some a" "addr_String a = k'"
        "destroyEntry (rv_sha x) (rv_open x) (rv_ledger x) (rv_knownDependents x) (rv_providers x) k' a deps = Some (Inr rr)"
        using rs(2) [OF rr(1)] by blast
      have "in_Resource i = k'" using destroy_inputs [OF a(3, 2) assms(2)] rr(2) by blast
      moreover have "\<not> inBatch b k'" using ts map_of_SomeD [OF a(1)] by (auto simp: targets_ok_def)
      ultimately show "\<not> ?P i" using e(1) key by (auto simp: inBatch_def)
    qed
    ultimately obtain i where i: "i \<in> set (liveInputs b ds topo)" "last_such ?P (vs_inputs st @ liveInputs b ds topo @ snd des) = Some i"
      using last_such_last [of "liveInputs b ds topo" ?P] by blast
    then obtain k2 where "emitsModify b ds k2" "i = liveInput (the (map_of b k2)) (the (map_of ds k2))"
      by (auto simp: liveInputs_def)
    then obtain d where "in_ObservedHash i = md_observedHash d" "map_of ds k2 = Some d" "\<not> md_dropped d"
      by (auto simp: emitsModify_def)
    then have "in_ObservedHash i \<noteq> []" using r assms(2) unfolding resolved_def by metis
    then show "\<exists>i. last_such ?P (vs_inputs st @ liveInputs b ds topo @ snd des) = Some i \<and> in_ObservedHash i \<noteq> []"
      using i(2) by blast
  qed
  moreover have "destroys_proved p" unfolding destroys_proved_def ins
  proof
    fix d assume "d \<in> set (d_Destroys (p_Delta p))"
    then obtain rr where rr: "rr \<in> set rs" "d = fst rr" by (auto simp: p rs(1))
    let ?P = "\<lambda>i. in_Kind i = ''destroy_target'' \<and> in_Resource i = addr_String (des_Address d)"
    have evid: "(\<exists>i \<in> set (snd r). in_Kind i = ''destroy_target'' \<and> in_Resource i = addr_String (des_Address (fst r))) \<and>
        (\<forall>i \<in> set (snd r). in_Kind i = ''destroy_target'' \<longrightarrow> in_ObservedHash i \<noteq> [] \<and> in_Lookup i \<noteq> None)"
      if "r \<in> set rs" for r
      using rs(2) [OF that] destroy_inputs [OF _ _ assms(2)] by metis
    have "\<exists>i \<in> set (snd des). ?P i" using evid [OF rr(1)] rr by (auto simp: rs(1))
    then obtain i where i: "i \<in> set (snd des)" "?P i"
      "last_such ?P ((vs_inputs st @ liveInputs b ds topo) @ snd des @ []) = Some i"
      using last_such_last [of "snd des" ?P "[]" "vs_inputs st @ liveInputs b ds topo"] by auto
    then have "in_ObservedHash i \<noteq> [] \<and> in_Lookup i \<noteq> None" using evid by (auto simp: rs(1))
    then show "\<exists>i. last_such ?P (vs_inputs st @ liveInputs b ds topo @ snd des) = Some i \<and> in_ObservedHash i \<noteq> [] \<and> in_Lookup i \<noteq> None"
      using i(3) by auto
  qed
  moreover have "kind_ok p" by (simp add: kind_ok_def p kind_defs Let_def)
  ultimately have "Validate p = wrapInvalid (validateSourceFields p)"
    using modifies_ok [of p "()"] destroys_ok [of p "()"] validateKind_ok [of p "()"]
    by (cases "validateSourceFields p") (simp_all add: Validate_def wrapInvalid_def)
  then show ?thesis using head by (simp add: p)
qed

lemma sample_sha_nonempty [simp]: "sample_sha s \<noteq> []"
  by (simp add: sample_sha_def)

lemma resolved_valid_witness:
  "Validate (resolvedOf (resolveOnce sample_two ([], ()))) = Inr () \<and> p_Parent (resolvedOf (resolveOnce sample_two ([], ()))) = []"
proof -
  have v: "validateSourceFields (resolvedOf (resolveOnce sample_two ([], ()))) = Inr ()" by code_simp
  have "rv_sha sample_two = sample_sha" "led_Head (rv_ledger sample_two) = Some (Inr [])"
    by (simp_all add: sample_two_def sample_resolve_def git_ledger_def led_Head_def git_Head_def git_empty_def)
  then show ?thesis using resolved_valid [OF sample_two_resolves] by (simp add: v wrapInvalid_def)
qed

section \<open>Who depends on what\<close>

text \<open>
  What a change records of dependencies: for each create with a configuration, and for each modify, its
  address and what it depends on.
\<close>

definition createDeps :: "raw \<Rightarrow> (string \<times> string list) option" where
  "createDeps r = (if isChangeCreateNode r
     then map_option (\<lambda>a. (addr_String a, nodeDependsOn (fields_of (the (unmarshal_map r))))) (createNodeAddress r) else None)"

definition changeDeps :: "Proposal \<Rightarrow> (string \<times> string list) list" where
  "changeDeps p = (if p_Kind p = KindChange then List.map_filter createDeps (d_Creates (p_Delta p)) @
     map (\<lambda>m. (addr_String (mod_Target m), mod_DependsOn m)) (d_Modifies (p_Delta p)) else [])"

text \<open>What an address depends on now: what the last record of it says.\<close>

definition dependsNow :: "Proposal list \<Rightarrow> string \<Rightarrow> string set" where
  "dependsNow chain k = (case last_such (\<lambda>b. fst b = k) (concat (map changeDeps chain)) of
      None \<Rightarrow> {} | Some b \<Rightarrow> set (snd b))"

lemma recordCreate_deps: "recordCreate r deps = (case createDeps r of None \<Rightarrow> deps | Some b \<Rightarrow> aput (fst b) (snd b) deps)"
  by (simp add: recordCreate_def createDeps_def isChangeCreateNode_def createNodeAddress_def Let_def split: option.splits)

lemma fold_recordCreate: "fold recordCreate rs deps = fold (\<lambda>b. aput (fst b) (snd b)) (List.map_filter createDeps rs) deps"
  by (induction rs arbitrary: deps) (auto simp: recordCreate_deps List.map_filter_def split: option.splits)

lemma fold_recordModify: "fold recordModify ms deps =
    fold (\<lambda>b. aput (fst b) (snd b)) (map (\<lambda>m. (addr_String (mod_Target m), mod_DependsOn m)) ms) deps"
  by (induction ms arbitrary: deps) (simp_all add: recordModify_def)

lemma latestDependsOn_eq: "latestDependsOn chain = fold (\<lambda>b. aput (fst b) (snd b)) (concat (map changeDeps chain)) []"
proof -
  have "recordProposal p deps = fold (\<lambda>b. aput (fst b) (snd b)) (changeDeps p) deps" for p deps
    by (simp add: recordProposal_def changeDeps_def fold_recordCreate fold_recordModify)
  then have "fold recordProposal chain deps = fold (\<lambda>b. aput (fst b) (snd b)) (concat (map changeDeps chain)) deps" for deps
    by (induction chain arbitrary: deps) simp_all
  then show ?thesis by (simp add: latestDependsOn_def)
qed

lemma map_of_fold_aput: "map_of (fold (\<lambda>b. aput (fst b) (snd b)) bs []) k = map_option snd (last_such (\<lambda>b. fst b = k) bs)"
  by (induction bs rule: rev_induct) (auto simp: last_such_snoc, simp add: last_such_def)

lemma amap_wf_fold_aput: "amap_wf m \<Longrightarrow> amap_wf (fold (\<lambda>b. aput (fst b) (snd b)) bs m)"
  by (induction bs arbitrary: m) auto

lemma reverseDeps_now: "k \<in> set (reverseDeps (latestDependsOn chain) key) \<longleftrightarrow> key \<in> dependsNow chain k"
proof -
  let ?m = "latestDependsOn chain"
  have "amap_wf ?m" unfolding latestDependsOn_eq by (rule amap_wf_fold_aput) simp
  then have "(k, ds) \<in> set ?m \<longleftrightarrow> map_of ?m k = Some ds" for ds by (metis amap_wf_map_of map_of_SomeD)
  moreover have "k \<in> set (reverseDeps ?m key) \<longleftrightarrow> (\<exists>ds. (k, ds) \<in> set ?m \<and> key \<in> set ds)"
    by (force simp: reverseDeps_def count_list_0_iff)
  ultimately show ?thesis
    unfolding latestDependsOn_eq map_of_fold_aput by (auto simp: dependsNow_def split: option.splits)
qed

text \<open>
  C21. The walk for reverse dependencies implements their specification: an address is listed among the
  dependents of a target exactly when the last create or modify of it in a change of the chain names the
  target in its depends_on, whatever other kinds of proposal recorded since.
\<close>

theorem reverse_dependents_refine:
  assumes "historicalReverseDependents l = Some (Inr dependents)"
  shows "\<exists>chain. led_Chain l = Some (Inr chain) \<and> (\<forall>key k. k \<in> set (dependents key) \<longleftrightarrow> key \<in> dependsNow chain k)"
  using assms reverseDeps_now by (auto simp: historicalReverseDependents_def res_simps)

text \<open>The witness walks a ledger of one change, whose create \<open>a\<close> depends on \<open>b\<close>.\<close>

definition sample_linked :: Proposal where
  "sample_linked = sample_proposal (sample_sha []) [] ''change''
     \<lparr>d_Creates = [Some (sample_create ''a'' [''s.t.b''] (GObj [])), Some (sample_create ''b'' [] (GObj []))], d_Modifies = [], d_Destroys = []\<rparr>
     [] \<lparr>br_Creates = 2, br_Modifies = 0, br_Destroys = 0\<rparr>"

lemma sample_linked_chain: "led_Chain (git_ledger (keeping sample_linked)) = Some (Inr [reread sample_linked])"
proof -
  have "p_Parent sample_linked = []" by (simp add: sample_linked_def sample_proposal_def)
  then have "Chain git_ops (keeping sample_linked) = Some (Inr [reread sample_linked])"
    unfolding Chain_def keeping_head using linked_ChainFrom [OF keeping_linked] by simp
  then show ?thesis by (simp add: led_Chain_def git_ledger_def)
qed

lemma reverse_dependents_refine_witness: "''s.t.b'' \<in> dependsNow [reread sample_linked] ''s.t.a''"
proof -
  let ?l = "git_ledger (keeping sample_linked)"
  let ?rev = "reverseDeps (latestDependsOn [reread sample_linked])"
  have "historicalReverseDependents ?l = Some (Inr ?rev)"
    by (simp add: historicalReverseDependents_def sample_linked_chain tret_def)
  from reverse_dependents_refine [OF this] sample_linked_chain
  have "''s.t.a'' \<in> set (?rev ''s.t.b'') \<longleftrightarrow> ''s.t.b'' \<in> dependsNow [reread sample_linked] ''s.t.a''" by auto
  moreover have "''s.t.a'' \<in> set (?rev ''s.t.b'')" by code_simp
  ultimately show ?thesis by simp
qed

section \<open>Orphans\<close>

text \<open>An address without a recorded state.\<close>

definition gone_from :: "'s ledger \<Rightarrow> string \<Rightarrow> bool" where
  "gone_from l k \<longleftrightarrow> (\<forall>a. ParseAddress k = Some a \<longrightarrow> (\<exists>st. led_FoldState l a = Some (Inr (st, False))))"

text \<open>A ledger that exists and none of whose proposals pins the address.\<close>

definition unpinned_in :: "(string \<Rightarrow> (err, 's ledger) res) \<Rightarrow> string \<Rightarrow> string \<Rightarrow> bool" where
  "unpinned_in opener target dir \<longleftrightarrow> (\<exists>l chain. opener dir = Inr l \<and> lg_Exists l \<and> led_Chain l = Some (Inr chain) \<and>
     (\<forall>q \<in> set chain. \<not> pinsAddress target q))"

lemma checkDependents_unpinned:
  "checkDependents opener target dirs = Some (Inr u) \<Longrightarrow> dir \<in> set dirs \<Longrightarrow> unpinned_in opener target dir"
proof (induction dirs)
  case (Cons d dirs)
  then obtain l where l: "opener d = Inr l" by (auto simp: res_simps)
  have ex: "lg_Exists l" using Cons.prems(1) l by (auto simp: res_simps split: if_splits)
  obtain chain where chain: "led_Chain l = Some (Inr chain)" using Cons.prems(1) l ex by (auto simp: res_simps)
  have "\<not> (\<exists>p \<in> set chain. pinsAddress target p)" using Cons.prems(1) l ex chain by (auto simp: res_simps split: if_splits)
  then have "unpinned_in opener target d" "checkDependents opener target dirs = Some (Inr u)"
    using Cons.prems(1) l ex chain by (auto simp: unpinned_in_def)
  then show ?case using Cons.IH Cons.prems(2) by auto
qed simp

text \<open>
  C13. No destroy leaves an orphan unnoticed: for every resource that a resolved proposal destroys, whatever
  the last change of the ledger recorded as depending on it is either gone, or the destroy lists it as
  depending on it and the same intent names it, as a destroy, a resource or a data source; and every known
  neighbor was read and pins it nowhere. (A resource the intent names may turn out unchanged, so
  that the proposal does not touch it.)
\<close>

theorem resolved_no_orphans:
  assumes "resolveOnce x reads = Some (Inr (p, reads'))" "d \<in> set (d_Destroys (p_Delta p))"
  shows "\<exists>chain. led_Chain (rv_ledger x) = Some (Inr chain) \<and>
    (\<forall>k. addr_String (des_Address d) \<in> dependsNow chain k \<longrightarrow> \<not> gone_from (rv_ledger x) k \<longrightarrow>
       k \<in> set (des_DependsOn d) \<and> k \<in> set (if_Destroys (rv_intent x) @ resourceKeys x @ dataKeys x)) \<and>
    (\<forall>dir \<in> set (rv_knownDependents x). unpinned_in (rv_open x) (addr_String (des_Address d)) dir)"
  using assms(1)
proof (rule resolveOnce_parts)
  fix b ds topo ts D st des head b1
  assume r: "resolved x b ds topo ts"
    and des: "resolveDestroys (rv_sha x) (rv_open x) (rv_ledger x) ts b (rv_knownDependents x) (rv_providers x) = Some (Inr des)"
    and p: "p = draftOf x head (createsOf b topo, modifiesOf b ds topo, vs_inputs st @ liveInputs b ds topo) des"
  have ts: "targets_ok b ts" "map fst ts = if_Destroys (rv_intent x)" using r by (simp_all add: resolved_def)
  obtain rs where rs: "des = (map fst rs, concat (map snd rs))"
    and each: "\<forall>r \<in> set rs. \<exists>k a deps. map_of ts k = Some a \<and> addr_String a = k \<and>
      destroyEntry (rv_sha x) (rv_open x) (rv_ledger x) (rv_knownDependents x) (rv_providers x) k a deps = Some (Inr r) \<and>
      (\<exists>chain xs. led_Chain (rv_ledger x) = Some (Inr chain) \<and> set deps = set xs \<and>
         dependersOf (rv_ledger x) ts b k (reverseDeps (latestDependsOn chain) k) = Some (Inr xs))"
    using resolveDestroys_entries [OF des ts(1)] by (elim exE conjE) (rule that)
  obtain rr where rr: "rr \<in> set rs" "d = fst rr" using assms(2) by (auto simp: p rs)
  obtain k a deps chain xs where e: "addr_String a = k"
    "destroyEntry (rv_sha x) (rv_open x) (rv_ledger x) (rv_knownDependents x) (rv_providers x) k a deps = Some (Inr rr)"
    "led_Chain (rv_ledger x) = Some (Inr chain)" "set deps = set xs"
    "dependersOf (rv_ledger x) ts b k (reverseDeps (latestDependsOn chain) k) = Some (Inr xs)"
    using bspec [OF each rr(1)] by (elim exE conjE) (rule that)
  have d: "addr_String (des_Address d) = k \<and> set (des_DependsOn d) = set xs \<and>
      (\<exists>cross. crossStackOrphanCheck (rv_open x) a (rv_knownDependents x) = Some (Inr cross))"
    using e(2) by (rule destroyEntry_parts) (simp add: rr(2) e(1, 4))
  have deps: "(\<forall>c \<in> set xs. map_of ts c \<noteq> None \<or> inBatch b c) \<and>
      (\<forall>c. k \<in> dependsNow chain c \<longrightarrow> c \<notin> set xs \<longrightarrow> gone_from (rv_ledger x) c)"
    using dependersOf_ok [OF e(5)] reverseDeps_now [of _ chain k] by (auto simp: gone_from_def)
  have "c \<in> set (if_Destroys (rv_intent x) @ resourceKeys x @ dataKeys x)" if "map_of ts c \<noteq> None \<or> inBatch b c" for c
  proof -
    have "inBatch b c \<Longrightarrow> c \<in> set (resourceKeys x @ dataKeys x)"
      using r by (auto simp: resolved_def batch_ok_def inBatch_def)
    moreover have "map_of ts c \<noteq> None \<Longrightarrow> c \<in> set (if_Destroys (rv_intent x))"
      unfolding ts(2) [symmetric] by (simp add: map_of_eq_None_iff)
    ultimately show ?thesis using that by auto
  qed
  moreover have "unpinned_in (rv_open x) k dir" if dir: "dir \<in> set (rv_knownDependents x)" for dir
  proof -
    have "rv_knownDependents x \<noteq> []" using dir by auto
    then obtain u where "checkDependents (rv_open x) k (rv_knownDependents x) = Some (Inr u)"
      using d e(1) by (auto simp: crossStackOrphanCheck_def Let_def res_simps split: if_splits)
    then show ?thesis using dir by (rule checkDependents_unpinned)
  qed
  ultimately show ?thesis using e(3) d deps by metis
qed

definition sample_destroyable :: Proposal where
  "sample_destroyable = sample_proposal (sample_sha []) [] ''adoption''
     \<lparr>d_Creates = [Some (sample_node ''state'' (GObj [(''acl'', GStr ''old'')]))], d_Modifies = [], d_Destroys = []\<rparr>
     [sample_input ''live_state'' ''s.t.n'' ''h'' (Some (GObj [(''id'', GStr ''i'')]))]
     \<lparr>br_Creates = 0, br_Modifies = 0, br_Destroys = 0\<rparr>"

definition sample_destroying :: "(git_store, unit, unit) resolveIn" where
  "sample_destroying = (sample_resolve (keeping sample_destroyable) (sample_intent [] [] [''s.t.n'']))\<lparr>rv_knownDependents := [''other'']\<rparr>"

lemma sample_destroying_resolves:
  "resolveOnce sample_destroying ([], ()) = Some (Inr (resolvedOf (resolveOnce sample_destroying ([], ())), [], ()))"
  "map (\<lambda>d. addr_String (des_Address d)) (d_Destroys (p_Delta (resolvedOf (resolveOnce sample_destroying ([], ()))))) = [''s.t.n'']"
  by code_simp+

lemma resolved_no_orphans_witness: "unpinned_in (rv_open sample_destroying) ''s.t.n'' ''other''"
proof -
  obtain d where d: "d \<in> set (d_Destroys (p_Delta (resolvedOf (resolveOnce sample_destroying ([], ())))))"
    "addr_String (des_Address d) = ''s.t.n''"
    using sample_destroying_resolves(2) by (auto simp: map_eq_Cons_conv)
  have "''other'' \<in> set (rv_knownDependents sample_destroying)" by (simp add: sample_destroying_def)
  then show ?thesis using resolved_no_orphans [OF sample_destroying_resolves(1) d(1)] d(2) by auto
qed

section \<open>Types\<close>

definition valued :: "string set \<Rightarrow> ('w, 'sch) batch \<Rightarrow> bool" where
  "valued K b \<longleftrightarrow> (\<forall>k \<in> K. \<forall>e. map_of b k = Some e \<longrightarrow> \<not> isDataSource e \<longrightarrow> be_resolvedConfig e \<noteq> None)"

lemma valued_put: "valued K b \<Longrightarrow> \<not> isDataSource e \<longrightarrow> be_resolvedConfig e \<noteq> None \<Longrightarrow> valued (insert k K) (aput k e b)"
  by (simp add: valued_def)

lemma resolveEntry_valued:
  assumes "resolveEntry x D k st = Some (Inr st')" "valued K (vs_batch st)"
  shows "valued (insert k K) (vs_batch st')"
proof -
  let ?e = "the (map_of (vs_batch st) k)"
  obtain v ins where r:
    "(case v of GObj m \<Rightarrow> let st = st\<lparr>vs_inputs := vs_inputs st @ ins\<rparr>
         in if isDataSource ?e then readEntry x k ?e m st
            else tret (st\<lparr>vs_batch := aput k (?e\<lparr>be_resolvedConfig := Some m\<rparr>) (vs_batch st)\<rparr>)
       | _ \<Rightarrow> tfail (Core (EMsg k))) = Some (Inr st')"
    using assms(1) by (auto simp: resolveEntry_def res_simps Let_def)
  obtain m where v: "v = GObj m" using r by (cases v) (auto simp: res_simps)
  have "\<exists>c. vs_batch st' = aput k (?e\<lparr>be_resolvedConfig := c\<rparr>) (vs_batch st) \<and> (isDataSource ?e \<or> c \<noteq> None)"
    using r by (auto simp: v readEntry_def res_simps Let_def split: if_splits option.splits)
  then show ?thesis using valued_put [OF assms(2)] by (auto simp: isDataSource_def)
qed

lemma resolve_valued:
  assumes "tfold (resolveEntry x D) ks st = Some (Inr st')" "valued K (vs_batch st)"
  shows "valued (K \<union> set ks) (vs_batch st')"
  using assms
proof (induction ks arbitrary: st K)
  case (Cons k ks)
  then obtain t where t: "resolveEntry x D k st = Some (Inr t)" "tfold (resolveEntry x D) ks t = Some (Inr st')"
    by (auto simp: res_simps)
  then show ?case using Cons.IH [OF t(2) resolveEntry_valued [OF t(1) Cons.prems(2)]] by simp
qed (simp add: res_simps)

lemma planModifies_valued:
  assumes "planModifies x b ks = Some (Inr (b', ds))" "valued K b"
  shows "valued K b'"
proof -
  have "valued K (fst (b', ds))"
  proof (rule tfold_invar [OF assms(1) [unfolded planModifies_def], where P = "\<lambda>bd. valued K (fst bd)"])
    fix k t t' assume "planModify x k t = Some (Inr t')" "valued K (fst t)"
    then show "valued K (fst t')"
      by (auto simp: planModify_def res_simps Let_def valued_def split: if_splits)
  qed (use assms(2) in simp)
  then show ?thesis by simp
qed

lemma rewriteDroppedRefs_valued:
  assumes "rewriteDroppedRefs l b ks D = Some (Inr b')" "valued K b" "\<forall>k \<in> set ks. map_of b k \<noteq> None"
  shows "valued K b'"
proof (cases "D = {}")
  case True
  then show ?thesis using assms by (simp add: rewriteDroppedRefs_def res_simps)
next
  case False
  then have f: "tfold (rewriteEntry l D) ks b = Some (Inr b')" using assms(1) by (simp add: rewriteDroppedRefs_def)
  have "valued K b' \<and> (\<forall>k \<in> set ks. map_of b' k \<noteq> None)"
  proof (rule tfold_invar [OF f, where P = "\<lambda>b. valued K b \<and> (\<forall>k \<in> set ks. map_of b k \<noteq> None)"])
    fix k t t' assume k: "k \<in> set ks" "rewriteEntry l D k t = Some (Inr t')" "valued K t \<and> (\<forall>k \<in> set ks. map_of t k \<noteq> None)"
    obtain e where e: "map_of t k = Some e" using k(1, 3) by auto
    show "valued K t' \<and> (\<forall>k \<in> set ks. map_of t' k \<noteq> None)"
    proof (cases "k \<in> D")
      case True
      then show ?thesis using k by (simp add: rewriteEntry_def res_simps)
    next
      case False
      then obtain c where c: "rewriteConfig l D k (be_resolvedConfig e) = Some (Inr c)"
        "t' = aput k (e\<lparr>be_resolvedConfig := c, be_rawEdges := filter (\<lambda>d. d \<notin> D) (be_rawEdges e)\<rparr>) t"
        using k(2) e by (auto simp: rewriteEntry_def res_simps Let_def)
      have "c \<noteq> None" if m: "be_resolvedConfig e \<noteq> None"
      proof -
        obtain m where m: "be_resolvedConfig e = Some m" using m by auto
        obtain v where "resolveDroppedComputed l D (GObj m) = Some (Inr v)"
          using c(1) m by (auto simp: rewriteConfig_def tbind_Inr_iff simp del: resolveDroppedComputed.simps)
        then show ?thesis using c(1) m
          by (cases v) (auto simp: rewriteConfig_def res_simps simp del: resolveDroppedComputed.simps)
      qed
      moreover have "k \<in> K \<Longrightarrow> \<not> isDataSource e \<Longrightarrow> be_resolvedConfig e \<noteq> None" using k(3) e by (simp add: valued_def)
      ultimately show ?thesis using k(3) e unfolding c(2) valued_def by (auto simp: isDataSource_def)
    qed
  qed (use assms in simp)
  then show ?thesis ..
qed

text \<open>
  C35. The entries of a resolved proposal are typed by the declared providers: every create decodes into a
  node with a configuration object, and every create, modify and destroy names a declared provider whose
  schema has the type of its address.
\<close>

theorem resolved_typed:
  assumes "resolveOnce x reads = Some (Inr (p, reads'))"
  shows "(\<forall>c \<in> set (d_Creates (p_Delta p)). \<exists>cn cfg prov. decode_createNode c = Some cn \<and> cn_Config cn = Some (GObj cfg) \<and>
      provided (rv_providers x) (cn_Type cn) prov \<and> cn_Provider cn = Some (providerRefOf prov)) \<and>
    (\<forall>m \<in> set (d_Modifies (p_Delta p)). \<exists>prov. provided (rv_providers x) (addr_Type (mod_Target m)) prov \<and>
      mod_Provider m = Some (providerRefOf prov)) \<and>
    (\<forall>d \<in> set (d_Destroys (p_Delta p)). \<exists>prov. provided (rv_providers x) (addr_Type (des_Address d)) prov \<and>
      des_Provider d = Some (providerRefOf prov))"
  using assms
proof (rule resolveOnce_parts)
  fix b ds topo ts D st des head b1
  assume r: "resolved x b ds topo ts"
    and run: "tfold (resolveEntry x (destroyAddrSet ts)) topo \<lparr>vs_batch = b1, vs_inputs = [], vs_reads = reads\<rparr> = Some (Inr st)"
    and plan: "planModifies x (vs_batch st) topo = Some (Inr (D, ds))" and stb: "stages D b"
    and drop: "rewriteDroppedRefs (rv_ledger x) D topo (droppedKeys ds) = Some (Inr b)"
    and des: "resolveDestroys (rv_sha x) (rv_open x) (rv_ledger x) ts b (rv_knownDependents x) (rv_providers x) = Some (Inr des)"
    and p: "p = draftOf x head (createsOf b topo, modifiesOf b ds topo, vs_inputs st @ liveInputs b ds topo) des"
  have ts: "targets_ok b ts" using r by (simp add: resolved_def)
  have dom: "\<forall>k \<in> set topo. map_of D k \<noteq> None"
    using resolved_entry [OF r] stages_dom [OF stb] by (metis option.distinct(1))
  have "valued ({} \<union> set topo) (vs_batch st)" by (rule resolve_valued [OF run]) (simp add: valued_def)
  then have vb: "valued (set topo) b" using planModifies_valued [OF plan] rewriteDroppedRefs_valued [OF drop _ dom] by simp
  have "\<exists>cn cfg prov. decode_createNode c = Some cn \<and> cn_Config cn = Some (GObj cfg) \<and>
      provided (rv_providers x) (cn_Type cn) prov \<and> cn_Provider cn = Some (providerRefOf prov)"
    if c: "c \<in> set (d_Creates (p_Delta p))" for c
  proof -
    obtain k where k: "k \<in> set topo" "emitsCreate b k" "c = Some (createNodeOf (the (map_of b k)))"
      using c by (auto simp: p createsOf_def)
    obtain e where e: "map_of b k = Some e" "entry_ok x k e" using resolved_entry [OF r k(1)] .
    have "be_resolvedConfig e \<noteq> None" using vb k e by (auto simp: valued_def emitsCreate_def Let_def)
    then obtain cfg where "marshal_map (be_resolvedConfig e) = GObj cfg" by (auto simp: marshal_map_def)
    then show ?thesis using e(2) by (simp add: k(3) e(1) decode_createNodeOf entry_ok_def) metis
  qed
  moreover have "\<exists>prov. provided (rv_providers x) (addr_Type (mod_Target m)) prov \<and> mod_Provider m = Some (providerRefOf prov)"
    if m: "m \<in> set (d_Modifies (p_Delta p))" for m
  proof -
    obtain k where k: "k \<in> set topo" "m = modificationOf (the (map_of b k)) (the (map_of ds k))"
      using m by (auto simp: p modifiesOf_def)
    obtain e where e: "map_of b k = Some e" "entry_ok x k e" using resolved_entry [OF r k(1)] .
    then show ?thesis by (auto simp: k(2) modificationOf_def entry_ok_def)
  qed
  moreover have "\<exists>prov. provided (rv_providers x) (addr_Type (des_Address d)) prov \<and> des_Provider d = Some (providerRefOf prov)"
    if d: "d \<in> set (d_Destroys (p_Delta p))" for d
  proof -
    obtain rs where rs: "des = (map fst rs, concat (map snd rs))"
      and each: "\<forall>r \<in> set rs. \<exists>k a deps.
        destroyEntry (rv_sha x) (rv_open x) (rv_ledger x) (rv_knownDependents x) (rv_providers x) k a deps = Some (Inr r)"
      using resolveDestroys_entries [OF des ts] by metis
    obtain rr where rr: "rr \<in> set rs" "d = fst rr" using d by (auto simp: p rs)
    obtain k a deps where
      "destroyEntry (rv_sha x) (rv_open x) (rv_ledger x) (rv_knownDependents x) (rv_providers x) k a deps = Some (Inr rr)"
      using each rr(1) by blast
    then show ?thesis by (rule destroyEntry_parts) (auto simp: rr(2))
  qed
  ultimately show ?thesis by blast
qed

lemma resolved_typed_witness:
  "\<exists>cn cfg prov. decode_createNode (hd (d_Creates (p_Delta (resolvedOf (resolveOnce sample_two ([], ())))))) = Some cn \<and>
    cn_Config cn = Some (GObj cfg) \<and> provided (rv_providers sample_two) (cn_Type cn) prov \<and> cn_Provider cn = Some (providerRefOf prov)"
proof -
  have "length (d_Creates (p_Delta (resolvedOf (resolveOnce sample_two ([], ()))))) = 2" by code_simp
  then have "hd (d_Creates (p_Delta (resolvedOf (resolveOnce sample_two ([], ()))))) \<in>
      set (d_Creates (p_Delta (resolvedOf (resolveOnce sample_two ([], ())))))"
    by (intro hd_in_set) force
  then show ?thesis using resolved_typed [OF sample_two_resolves] by blast
qed

end
