(* ===== verification/ResolveCases.thy ===== *)
theory ResolveCases
  imports ResolveDelta
begin

text \<open>
  Two inputs on which the resolver's output is not what the executor can ship: runs of the model on them.
\<close>

section \<open>A reference to a data source\<close>

text \<open>The bucket \<open>a\<close> reads an attribute of the data source \<open>d\<close> of the same intent.\<close>

definition sample_data :: "(git_store, unit, unit) resolveIn" where
  "sample_data = sample_resolve git_empty (sample_intent
     [sample_resource ''create'' ''a'' [(''acl'', refTo ''s.t.d.acl'')]]
     [\<lparr>di_Type = ''t'', di_Name = ''d'', di_Lookup = Some (GObj []), di_Sources = []\<rparr>] [])"

lemma data_source_resolves:
  "map (\<lambda>c. case decode_createNode c of Some cn \<Rightarrow> (cn_Name cn, cn_Config cn, cn_DependsOn cn) | None \<Rightarrow> ([], None, []))
     (d_Creates (p_Delta (resolvedOf (resolveOnce sample_data ([], ()))))) =
   [(''a'', Some (GObj [(''acl'', GStr ''x'')]), [''s.t.d''])]"
  by code_simp

text \<open>The value is resolved, but the edge stays, and the graph has no node for it.\<close>

lemma data_source_dangles:
  "ValidateChangeGraph (Some (resolvedOf (resolveOnce sample_data ([], ())))) = Inl (ErrDanglingDependency ''s.t.a'' ''s.t.d'')"
  by code_simp

section \<open>A deferred value inside a string\<close>

definition computedFrom :: "string \<Rightarrow> gval" where
  "computedFrom from = GObj [(markerComputed, GObj [(''from'', GStr from)])]"

text \<open>
  A policy document in a string names an attribute of a modify that is dropped: the value is not rewritten,
  as it is outside a string, and shipping finds nothing to put in its place.
\<close>

lemma embedded_marker_kept:
  "resolveDroppedComputed (git_ledger (keeping sample_destroyable)) {''s.t.n''} (computedFrom ''s.t.n.acl'') = tret (GStr ''old'')"
  "resolveDroppedComputed (git_ledger (keeping sample_destroyable)) {''s.t.n''} (GStr (marshal_text (computedFrom ''s.t.n.acl''))) =
     tret (GStr (marshal_text (computedFrom ''s.t.n.acl'')))"
  "substituteComputed [] (GStr (marshal_text (computedFrom ''s.t.n.acl''))) = Inl (ErrDependencyNotApplied ''s.t.n'')"
  by code_simp+

section \<open>A repoint that was never shipped\<close>

text \<open>
  After the change in which \<open>a\<close> depends on \<open>b\<close>, a modify of \<open>a\<close> without dependencies is accepted. Nothing
  says that it was shipped, and \<open>b\<close> has no dependents any more.
\<close>

definition sample_repoint :: Proposal where
  "sample_repoint = sample_proposal ''r'' (sample_sha []) ''change''
     \<lparr>d_Creates = [], d_Modifies = [\<lparr>mod_Target = Address ''s'' ''t'' ''a'', mod_Before = [], mod_After = [],
        mod_DependsOn = [], mod_Provider = None, mod_Sources = []\<rparr>], d_Destroys = []\<rparr>
     [] \<lparr>br_Creates = 0, br_Modifies = 1, br_Destroys = 0\<rparr>"

lemma unshipped_repoint_counts:
  "reverseDeps (latestDependsOn [sample_linked]) ''s.t.b'' = [''s.t.a'']"
  "reverseDeps (latestDependsOn [sample_linked, sample_repoint]) ''s.t.b'' = []"
  by code_simp+

end
