(* ===== verification/Bucket.thy ===== *)
theory Bucket
  imports Ledger
begin

text \<open>
  ledgerstore/store.go: the ledger store in a cloud bucket. The bucket is the service behind
  gocloud.dev/blob, a parameter of everything here: a record of its operations, whose documented
  behaviour (reads see the last write, a create-only write fails exactly on a key that is taken, a
  listing returns the keys that are there) is the locale \<open>bucket\<close>. Every other error of the service is
  passed on by the operations as the code passes it on; under the laws none occurs.
\<close>

section \<open>Buckets\<close>

text \<open>The bytes of an object: a stored document, a line of text, or a lock's expiry time.\<close>

datatype obj = Doc blob | Text string | Lease int

datatype gcerr = NotFound | FailedPrecondition | OtherCode string

record 'b bucket_ops =
  bk_ReadAll :: "'b \<Rightarrow> string \<Rightarrow> (gcerr, obj) res"
  bk_Create :: "'b \<Rightarrow> string \<Rightarrow> obj \<Rightarrow> (gcerr, 'b) res"
  bk_WriteAll :: "'b \<Rightarrow> string \<Rightarrow> obj \<Rightarrow> (gcerr, 'b) res"
  bk_Delete :: "'b \<Rightarrow> string \<Rightarrow> (gcerr, 'b) res"
  bk_List :: "'b \<Rightarrow> string \<Rightarrow> (gcerr, string list) res"

text \<open>\<open>bk_Create\<close> is WriteAll with IfNotExist. \<open>bok\<close> is an invariant of the service.\<close>

locale bucket =
  fixes bk :: "'b bucket_ops" and bok :: "'b \<Rightarrow> bool"
  assumes bk_read: "bok b \<Longrightarrow> (\<exists>x. bk_ReadAll bk b k = Inr x) \<or> bk_ReadAll bk b k = Inl NotFound"
    and bk_create: "bok b \<Longrightarrow> bk_ReadAll bk b k = Inl NotFound \<Longrightarrow> \<exists>b'. bk_Create bk b k x = Inr b' \<and> bok b' \<and>
      bk_ReadAll bk b' = (bk_ReadAll bk b)(k := Inr x)"
    and bk_taken: "bok b \<Longrightarrow> bk_ReadAll bk b k = Inr y \<Longrightarrow> bk_Create bk b k x = Inl FailedPrecondition"
    and bk_write: "bok b \<Longrightarrow> \<exists>b'. bk_WriteAll bk b k x = Inr b' \<and> bok b' \<and>
      bk_ReadAll bk b' = (bk_ReadAll bk b)(k := Inr x)"
    and bk_delete: "bok b \<Longrightarrow> bk_ReadAll bk b k = Inr x \<Longrightarrow> \<exists>b'. bk_Delete bk b k = Inr b' \<and> bok b' \<and>
      bk_ReadAll bk b' = (bk_ReadAll bk b)(k := Inl NotFound)"
    and bk_absent: "bok b \<Longrightarrow> bk_ReadAll bk b k = Inl NotFound \<Longrightarrow> bk_Delete bk b k = Inl NotFound"
    and bk_list: "bok b \<Longrightarrow> \<exists>ks. bk_List bk b pre = Inr ks \<and> distinct ks \<and>
      (\<forall>k. k \<in> set ks \<longleftrightarrow> prefix pre k \<and> bk_ReadAll bk b k \<noteq> Inl NotFound)"

definition gc_err :: "gcerr \<Rightarrow> err" where
  "gc_err e = EMsg (case e of NotFound \<Rightarrow> ''not found'' | FailedPrecondition \<Rightarrow> ''failed precondition'' | OtherCode m \<Rightarrow> m)"

definition doc_of :: "obj \<Rightarrow> blob" where
  "doc_of x = (case x of Doc b \<Rightarrow> b | _ \<Rightarrow> Garbage)"

text \<open>What is no text begins with a brace or is no hash for another reason.\<close>

definition text_of :: "obj \<Rightarrow> string" where
  "text_of x = (case x of Text s \<Rightarrow> s | _ \<Rightarrow> ''{'')"

section \<open>Keys\<close>

definition proposalsPrefix :: string where "proposalsPrefix = ''proposals/''"
definition appliesPrefix :: string where "appliesPrefix = ''applies/''"
definition headsPrefix :: string where "headsPrefix = ''heads/''"
definition genesisEdgeName :: string where "genesisEdgeName = ''genesis''"
definition headHintKey :: string where "headHintKey = ''head-hint''"
definition lockKey :: string where "lockKey = ''lock''"
definition saltKey :: string where "saltKey = ''salt''"

lemmas key_defs = proposalsPrefix_def appliesPrefix_def headsPrefix_def genesisEdgeName_def headHintKey_def
  lockKey_def saltKey_def

definition proposalKey :: "string \<Rightarrow> string" where
  "proposalKey i = proposalsPrefix @ i @ ''.prop.json''"

definition applyKey :: "string \<Rightarrow> int \<Rightarrow> string" where
  "applyKey i n = appliesPrefix @ i @ ''.attempt-'' @ int_text n @ ''.apply.json''"

definition headEdgeKey :: "string \<Rightarrow> string" where
  "headEdgeKey parent = (if parent = [] then headsPrefix @ genesisEdgeName else headsPrefix @ parent)"

text \<open>applyKeyPattern: the hash and the number of a key it matches. Attempt numbers are not bounded here.\<close>

definition matchApplyKey :: "string \<Rightarrow> (string \<times> int) option" where
  "matchApplyKey k =
     (let i = take 64 (drop 8 k); rest = drop 72 k;
          mid = drop 9 (take (length rest - 11) rest)
      in if prefix appliesPrefix k \<and> IsHash i \<and> rest = ''.attempt-'' @ mid @ ''.apply.json'' \<and> mid \<noteq> [] \<and>
            list_all is_digit mid
         then Some (i, digits_val mid 0) else None)"

lemma is_digit_dot: "list_all is_digit s \<Longrightarrow> CHR ''.'' \<notin> set s"
  by (auto simp: list_all_iff is_digit_def less_eq_char_def)

lemma int_text_dot: "CHR ''.'' \<notin> set (int_text n)"
  using nat_text_digits [of n] nat_text_digits [of "- n"] by (auto simp: int_text_def is_digit_dot)

lemma last_dot:
  assumes "s @ CHR ''.'' # t = u @ CHR ''.'' # v" "CHR ''.'' \<notin> set t" "CHR ''.'' \<notin> set v"
  shows "s = u \<and> t = v"
proof -
  have r: "rev t @ CHR ''.'' # rev s = rev v @ CHR ''.'' # rev u" using arg_cong [OF assms(1), of rev] by simp
  have "rev t = takeWhile (\<lambda>x. x \<noteq> CHR ''.'') (rev t @ CHR ''.'' # rev s)" using assms(2) by (simp add: takeWhile_sep)
  also have "\<dots> = rev v" unfolding r using assms(3) by (simp add: takeWhile_sep)
  finally show ?thesis using r by simp
qed

lemma attempt_split:
  assumes "i @ ''.attempt-'' @ s @ ''.apply.json'' = j @ ''.attempt-'' @ t @ ''.apply.json''"
    and "CHR ''.'' \<notin> set s" "CHR ''.'' \<notin> set t"
  shows "i = j \<and> s = t"
  using last_dot [of i "''attempt-'' @ s" j "''attempt-'' @ t"] assms by simp

lemma applyKey_inj [simp]: "applyKey i n = applyKey j m \<longleftrightarrow> i = j \<and> n = m"
proof
  assume "applyKey i n = applyKey j m"
  then have "i = j \<and> int_text n = int_text m"
    by (intro attempt_split) (simp_all add: applyKey_def int_text_dot)
  then show "i = j \<and> n = m" using int_text_cancel [of "[]" "[]" n m] by (simp add: delim_def)
qed simp

lemma proposalKey_inj [simp]: "proposalKey i = proposalKey j \<longleftrightarrow> i = j"
  by (simp add: proposalKey_def)

lemma IsHash_not_Nil [simp]: "\<not> IsHash []" "\<not> IsHash ''genesis''"
  by (simp_all add: IsHash_def)

lemma headEdgeKey_inj:
  "p = [] \<or> IsHash p \<Longrightarrow> q = [] \<or> IsHash q \<Longrightarrow> headEdgeKey p = headEdgeKey q \<longleftrightarrow> p = q"
  by (auto simp: headEdgeKey_def genesisEdgeName_def)

lemma keys_differ [simp]:
  "proposalKey i \<noteq> applyKey j n" "applyKey j n \<noteq> proposalKey i" "proposalKey i \<noteq> headEdgeKey p" "headEdgeKey p \<noteq> proposalKey i"
  "proposalKey i \<noteq> headHintKey" "headHintKey \<noteq> proposalKey i" "applyKey i n \<noteq> headEdgeKey p" "headEdgeKey p \<noteq> applyKey i n"
  "applyKey i n \<noteq> headHintKey" "headHintKey \<noteq> applyKey i n" "headEdgeKey p \<noteq> headHintKey" "headHintKey \<noteq> headEdgeKey p"
  by (simp_all add: key_defs proposalKey_def applyKey_def headEdgeKey_def)

lemma not_apply_key [simp]:
  "\<not> prefix appliesPrefix (proposalKey i)" "\<not> prefix appliesPrefix (headEdgeKey p)" "\<not> prefix appliesPrefix headHintKey"
  "prefix appliesPrefix (applyKey i n)"
  by (simp_all add: key_defs proposalKey_def applyKey_def headEdgeKey_def)

lemma matchApplyKey_applyKey:
  "IsHash i \<Longrightarrow> matchApplyKey (applyKey i n) = (if 0 \<le> n then Some (i, n) else None)"
proof -
  assume h: "IsHash i"
  then have l: "length i = 64" by (simp add: IsHash_def)
  have d: "list_all is_digit (int_text n) \<longleftrightarrow> 0 \<le> n" "int_text n \<noteq> []" "0 \<le> n \<Longrightarrow> digits_val (int_text n) 0 = n"
    using nat_text_digits [of n] int_text_hd [of n] by (auto simp: int_text_def is_digit_def less_eq_char_def)
  have "drop 8 (applyKey i n) = i @ ''.attempt-'' @ int_text n @ ''.apply.json''" by (simp add: applyKey_def appliesPrefix_def)
  moreover have "drop 72 (applyKey i n) = ''.attempt-'' @ int_text n @ ''.apply.json''"
    using l by (simp add: applyKey_def appliesPrefix_def)
  ultimately show ?thesis using h l d by (simp add: matchApplyKey_def Let_def)
qed

lemma matchApplyKey_canonical: "matchApplyKey (applyKey j m) = Some (i, n) \<Longrightarrow> j = i \<and> m = n \<and> 0 \<le> n"
proof -
  assume s: "matchApplyKey (applyKey j m) = Some (i, n)"
  let ?k = "applyKey j m"
  define mid where "mid = drop 9 (take (length (drop 72 ?k) - 11) (drop 72 ?k))"
  have c: "prefix appliesPrefix ?k \<and> IsHash (take 64 (drop 8 ?k)) \<and> drop 72 ?k = ''.attempt-'' @ mid @ ''.apply.json'' \<and>
      mid \<noteq> [] \<and> list_all is_digit mid" (is ?C)
  proof (rule ccontr)
    assume "\<not> ?C"
    then have "matchApplyKey ?k = None" unfolding matchApplyKey_def Let_def mid_def by (rule if_not_P)
    then show False using s by simp
  qed
  then have "matchApplyKey ?k = Some (take 64 (drop 8 ?k), digits_val mid 0)"
    unfolding matchApplyKey_def Let_def mid_def by (rule if_P)
  then have i: "i = take 64 (drop 8 ?k)" using s by simp
  have "drop 8 ?k = take 64 (drop 8 ?k) @ drop 64 (drop 8 ?k)" by (rule append_take_drop_id [symmetric])
  also have "\<dots> = i @ drop 72 ?k" by (simp only: i drop_drop) simp
  also have "\<dots> = i @ ''.attempt-'' @ mid @ ''.apply.json''" using c by simp
  finally have "j @ ''.attempt-'' @ int_text m @ ''.apply.json'' = i @ ''.attempt-'' @ mid @ ''.apply.json''"
    by (simp add: applyKey_def appliesPrefix_def)
  then have "j = i" using attempt_split [of j "int_text m" i mid] int_text_dot is_digit_dot [of mid] c by simp
  then show ?thesis using s matchApplyKey_applyKey [of i m] c i by (simp split: if_splits)
qed

section \<open>The store's operations\<close>

definition bucket_Exists :: "'b bucket_ops \<Rightarrow> 'b \<Rightarrow> (err, bool) res" where
  "bucket_Exists bk b = (case bk_List bk b [] of Inl e \<Rightarrow> Inl (gc_err e) | Inr ks \<Rightarrow> Inr (ks \<noteq> []))"

definition bucket_ReadProposal :: "'b bucket_ops \<Rightarrow> 'b \<Rightarrow> string \<Rightarrow> (err, blob) res" where
  "bucket_ReadProposal bk b i = (case bk_ReadAll bk b (proposalKey i) of
      Inl e \<Rightarrow> Inl (if e = NotFound then ErrStoreObjectNotFound else gc_err e)
    | Inr x \<Rightarrow> Inr (doc_of x))"

definition bucket_WriteProposalIfAbsent :: "'b bucket_ops \<Rightarrow> 'b \<Rightarrow> string \<Rightarrow> blob \<Rightarrow> (err, 'b) res" where
  "bucket_WriteProposalIfAbsent bk b i d = (case bk_Create bk b (proposalKey i) (Doc d) of
      Inl e \<Rightarrow> Inl (if e = FailedPrecondition then ErrStoreObjectExists else gc_err e)
    | Inr b' \<Rightarrow> Inr b')"

definition readEdge :: "'b bucket_ops \<Rightarrow> 'b \<Rightarrow> string \<Rightarrow> (err, string option) res" where
  "readEdge bk b parent = (case bk_ReadAll bk b (headEdgeKey parent) of
      Inl e \<Rightarrow> if e = NotFound then Inr None else Inl (gc_err e)
    | Inr x \<Rightarrow>
        let child = TrimSpace (text_of x)
        in if IsHash child then Inr (Some child) else Inl ErrCorruptLedgerHead)"

text \<open>The walk along the edges: \<open>None\<close> when it never ends.\<close>

partial_function (option) resolveHeadFrom :: "'b bucket_ops \<Rightarrow> 'b \<Rightarrow> string \<Rightarrow> (err, string) res option" where
  "resolveHeadFrom bk b current = (case readEdge bk b current of
      Inl e \<Rightarrow> Some (Inl e)
    | Inr None \<Rightarrow> Some (Inr current)
    | Inr (Some child) \<Rightarrow> resolveHeadFrom bk b child)"

declare resolveHeadFrom.simps [code]

definition hintStart :: "'b bucket_ops \<Rightarrow> 'b \<Rightarrow> (err, string) res" where
  "hintStart bk b = (case bk_ReadAll bk b headHintKey of
      Inl e \<Rightarrow> if e = NotFound then Inr [] else Inl (gc_err e)
    | Inr x \<Rightarrow>
        let h = TrimSpace (text_of x)
        in if h \<noteq> [] \<and> \<not> IsHash h then Inl ErrCorruptLedgerHead else Inr h)"

definition bucket_Head :: "'b bucket_ops \<Rightarrow> 'b \<Rightarrow> (err, string) res option" where
  "bucket_Head bk b = (case hintStart bk b of Inl e \<Rightarrow> Some (Inl e) | Inr start \<Rightarrow> resolveHeadFrom bk b start)"

text \<open>The hint is written on a best effort: what that write answers is ignored.\<close>

definition writeHint :: "'b bucket_ops \<Rightarrow> 'b \<Rightarrow> string \<Rightarrow> 'b" where
  "writeHint bk b newHead = (case bk_WriteAll bk b headHintKey (Text newHead) of Inl _ \<Rightarrow> b | Inr b' \<Rightarrow> b')"

definition writeEdge :: "'b bucket_ops \<Rightarrow> 'b \<Rightarrow> string \<Rightarrow> string \<Rightarrow> (err, 'b) res" where
  "writeEdge bk b expectedPrev newHead = (case bk_Create bk b (headEdgeKey expectedPrev) (Text newHead) of
      Inl e \<Rightarrow> Inl (if e = FailedPrecondition then ErrStoreHeadMoved else gc_err e)
    | Inr b' \<Rightarrow> Inr b')"

definition bucket_AdvanceHead :: "'b bucket_ops \<Rightarrow> 'b \<Rightarrow> string \<Rightarrow> string \<Rightarrow> (err, 'b) res" where
  "bucket_AdvanceHead bk b expectedPrev newHead =
     rbind (writeEdge bk b expectedPrev newHead) (\<lambda>b'. Inr (writeHint bk b' newHead))"

definition bucket_ReadApply :: "'b bucket_ops \<Rightarrow> 'b \<Rightarrow> string \<Rightarrow> int \<Rightarrow> (err, blob) res" where
  "bucket_ReadApply bk b i n = (case bk_ReadAll bk b (applyKey i n) of
      Inl e \<Rightarrow> Inl (if e = NotFound then ErrStoreObjectNotFound else gc_err e)
    | Inr x \<Rightarrow> Inr (doc_of x))"

definition bucket_WriteApply :: "'b bucket_ops \<Rightarrow> 'b \<Rightarrow> string \<Rightarrow> int \<Rightarrow> blob \<Rightarrow> (err, 'b) res" where
  "bucket_WriteApply bk b i n d = (case bk_WriteAll bk b (applyKey i n) (Doc d) of
      Inl e \<Rightarrow> Inl (gc_err e) | Inr b' \<Rightarrow> Inr b')"

definition bucket_ListApplyAttempts :: "'b bucket_ops \<Rightarrow> 'b \<Rightarrow> string \<Rightarrow> (err, int list) res" where
  "bucket_ListApplyAttempts bk b i = (case bk_List bk b (appliesPrefix @ i @ ''.'') of
      Inl e \<Rightarrow> Inl (gc_err e)
    | Inr ks \<Rightarrow> Inr (concat (map (\<lambda>k. case matchApplyKey k of
          Some (j, n) \<Rightarrow> if j = i then [n] else [] | None \<Rightarrow> []) ks)))"

definition bucket_ReadSalt :: "'b bucket_ops \<Rightarrow> 'b \<Rightarrow> (err, string option) res" where
  "bucket_ReadSalt bk b = (case bk_ReadAll bk b saltKey of
      Inl e \<Rightarrow> if e = NotFound then Inr None else Inl (gc_err e)
    | Inr x \<Rightarrow> Inr (Some (text_of x)))"

definition bucket_WriteSaltIfAbsent :: "'b bucket_ops \<Rightarrow> 'b \<Rightarrow> string \<Rightarrow> (err, 'b) res" where
  "bucket_WriteSaltIfAbsent bk b salt = (case bk_Create bk b saltKey (Text salt) of
      Inl e \<Rightarrow> Inl (if e = FailedPrecondition then ErrStoreObjectExists else gc_err e)
    | Inr b' \<Rightarrow> Inr b')"

text \<open>
  The store behind the interface, whose Head returns. A head that is never found is left as an error of
  its own; no bucket with the invariant \<open>bucket_ok\<close> has one.
\<close>

definition bucket_store :: "'b bucket_ops \<Rightarrow> 'b store_ops" where
  "bucket_store bk = \<lparr>so_ReadProposal = bucket_ReadProposal bk,
     so_WriteProposalIfAbsent = bucket_WriteProposalIfAbsent bk,
     so_Head = (\<lambda>b. case bucket_Head bk b of None \<Rightarrow> Inl (EMsg ''no end'') | Some r \<Rightarrow> r),
     so_AdvanceHead = bucket_AdvanceHead bk, so_ReadApply = bucket_ReadApply bk,
     so_WriteApply = bucket_WriteApply bk, so_ListApplyAttempts = bucket_ListApplyAttempts bk\<rparr>"

lemma bucket_store_simps [simp]:
  "so_ReadProposal (bucket_store bk) = bucket_ReadProposal bk"
  "so_WriteProposalIfAbsent (bucket_store bk) = bucket_WriteProposalIfAbsent bk"
  "so_Head (bucket_store bk) b = (case bucket_Head bk b of None \<Rightarrow> Inl (EMsg ''no end'') | Some r \<Rightarrow> r)"
  "so_AdvanceHead (bucket_store bk) = bucket_AdvanceHead bk" "so_ReadApply (bucket_store bk) = bucket_ReadApply bk"
  "so_WriteApply (bucket_store bk) = bucket_WriteApply bk"
  "so_ListApplyAttempts (bucket_store bk) = bucket_ListApplyAttempts bk"
  by (simp_all add: bucket_store_def)

section \<open>The chain of edges\<close>

text \<open>What comes after \<open>p\<close> on the path from \<open>a\<close> through a list of heads.\<close>

fun next_in :: "string \<Rightarrow> string list \<Rightarrow> string \<Rightarrow> string option" where
  "next_in a [] p = None"
| "next_in a (n # ns) p = (if p = a then Some n else next_in n ns p)"

text \<open>The last head of a path from genesis.\<close>

definition tip :: "string list \<Rightarrow> string" where
  "tip ns = last ([] # ns)"

lemma tip_simps [simp]: "tip [] = []" "tip (ns @ [n]) = n" "tip ns \<in> set ([] # ns)"
  by (auto simp: tip_def)

text \<open>The edges are one path from genesis through heads whose proposals are stored, and the hint is on it.\<close>

definition edges_are :: "'b bucket_ops \<Rightarrow> 'b \<Rightarrow> string list \<Rightarrow> bool" where
  "edges_are bk b ns \<longleftrightarrow> distinct ns \<and> (\<forall>n \<in> set ns. IsHash n) \<and>
     (\<forall>p. p = [] \<or> IsHash p \<longrightarrow> readEdge bk b p = Inr (next_in [] ns p))"

definition bucket_ok :: "'b bucket_ops \<Rightarrow> ('b \<Rightarrow> bool) \<Rightarrow> 'b \<Rightarrow> bool" where
  "bucket_ok bk bok b \<longleftrightarrow> bok b \<and>
     (\<exists>ns. edges_are bk b ns \<and> (\<forall>n \<in> set ns. bk_ReadAll bk b (proposalKey n) \<noteq> Inl NotFound) \<and>
        (\<exists>h \<in> set ([] # ns). hintStart bk b = Inr h)) \<and>
     (\<forall>k. prefix appliesPrefix k \<and> bk_ReadAll bk b k \<noteq> Inl NotFound \<longrightarrow> (\<exists>i n. k = applyKey i n))"

definition bucket_used :: "'b bucket_ops \<Rightarrow> 'b \<Rightarrow> string \<Rightarrow> bool" where
  "bucket_used bk b n \<longleftrightarrow> (\<exists>p. (p = [] \<or> IsHash p) \<and> readEdge bk b p = Inr (Some n))"

lemma next_in_append:
  "p \<notin> set (butlast (a # ns)) \<Longrightarrow> next_in a (ns @ ms) p = next_in (last (a # ns)) ms p"
  by (induction ns arbitrary: a) (auto split: if_splits)

lemma next_in_last: "distinct (a # ns) \<Longrightarrow> next_in a ns (last (a # ns)) = None"
  by (induction ns arbitrary: a) auto

lemma next_in_other: "p \<notin> set (a # ns) \<Longrightarrow> next_in a ns p = None"
  by (induction ns arbitrary: a) auto

lemma next_in_snoc:
  "distinct (a # ns) \<Longrightarrow> next_in a (ns @ [n]) = (next_in a ns)(last (a # ns) := Some n)"
  by (induction ns arbitrary: a) (auto simp: fun_eq_iff next_in_other)

lemma next_in_mem: "next_in a ns p = Some n \<Longrightarrow> n \<in> set ns"
  by (induction ns arbitrary: a) (auto split: if_splits)

lemma next_in_all: "distinct (a # ns) \<Longrightarrow> n \<in> set ns \<Longrightarrow> \<exists>p \<in> set (a # ns). next_in a ns p = Some n"
proof (induction ns arbitrary: a)
  case (Cons m ns)
  show ?case
  proof (cases "n = m")
    case False
    then obtain p where "p \<in> set (m # ns)" "next_in m ns p = Some n" using Cons by auto
    then show ?thesis using Cons.prems(1) by auto
  qed simp
qed simp

lemma ok_parts:
  assumes "bucket_ok bk bok b"
  shows "bok b" "prefix appliesPrefix k \<Longrightarrow> bk_ReadAll bk b k \<noteq> Inl NotFound \<Longrightarrow> \<exists>i n. k = applyKey i n"
  using assms unfolding bucket_ok_def by blast+

lemma edges_read: "edges_are bk b ns \<Longrightarrow> p = [] \<or> IsHash p \<Longrightarrow> readEdge bk b p = Inr (next_in [] ns p)"
  unfolding edges_are_def by blast

lemma edges_tip:
  assumes "edges_are bk b ns"
  shows "tip ns = [] \<or> IsHash (tip ns)" "readEdge bk b (tip ns) = Inr None" "distinct ([] # ns)"
proof -
  show d: "distinct ([] # ns)" using assms by (auto simp: edges_are_def)
  show h: "tip ns = [] \<or> IsHash (tip ns)" using assms by (auto simp: edges_are_def tip_def)
  show "readEdge bk b (tip ns) = Inr None"
    using assms h next_in_last [OF d] unfolding edges_are_def tip_def by metis
qed

lemma edges_used: "edges_are bk b ns \<Longrightarrow> bucket_used bk b n \<longleftrightarrow> n \<in> set ns"
proof
  assume e: "edges_are bk b ns"
  then show "bucket_used bk b n \<Longrightarrow> n \<in> set ns"
    unfolding bucket_used_def edges_are_def using next_in_mem by (metis sum.inject(2))
  assume n: "n \<in> set ns"
  have "distinct ([] # ns)" using e by (auto simp: edges_are_def)
  then obtain p where "p \<in> set ([] # ns)" "next_in [] ns p = Some n" using next_in_all n by blast
  then show "bucket_used bk b n" using e by (auto simp: bucket_used_def edges_are_def)
qed

lemma next_in_path: "distinct ([] # ns) \<Longrightarrow> [] # ns = xs @ c # y # ys \<Longrightarrow> next_in [] ns c = Some y"
proof (cases xs)
  case (Cons a as)
  assume d: "distinct ([] # ns)" and x: "[] # ns = xs @ c # y # ys"
  have ns: "ns = as @ [c] @ y # ys" "a = []" using x Cons by auto
  have "next_in [] ((as @ [c]) @ y # ys) c = next_in (last ([] # as @ [c])) (y # ys) c"
    by (rule next_in_append) (use d ns in \<open>auto simp: butlast_append\<close>)
  then show ?thesis using ns by simp
qed auto

lemma edges_next:
  assumes "edges_are bk b ns" "[] # ns = xs @ c # y # ys"
  shows "readEdge bk b c = Inr (Some y)"
proof -
  have "c \<in> set ([] # ns)" using assms(2) by simp
  then have "c = [] \<or> IsHash c" using assms(1) by (auto simp: edges_are_def)
  then show ?thesis using edges_read [OF assms(1)] next_in_path [OF edges_tip(3) [OF assms(1)] assms(2)] by metis
qed

lemma resolve_suffix:
  assumes "edges_are bk b ns" "[] # ns = xs @ c # ys"
  shows "resolveHeadFrom bk b c = Some (Inr (last (c # ys)))"
  using assms(2)
proof (induction ys arbitrary: xs c)
  case Nil
  then have "c = tip ns" unfolding tip_def by simp
  then have "readEdge bk b c = Inr None" using edges_tip(2) [OF assms(1)] by simp
  then show ?case by (simp add: resolveHeadFrom.simps)
next
  case (Cons y ys)
  have "readEdge bk b c = Inr (Some y)" by (rule edges_next [OF assms(1) Cons.prems])
  moreover have "resolveHeadFrom bk b y = Some (Inr (last (y # ys)))" using Cons.IH [of "xs @ [c]" y] Cons.prems by simp
  ultimately show ?case by (simp add: resolveHeadFrom.simps)
qed

lemma resolve_path: "edges_are bk b ns \<Longrightarrow> c \<in> set ([] # ns) \<Longrightarrow> resolveHeadFrom bk b c = Some (Inr (tip ns))"
proof -
  assume e: "edges_are bk b ns" and "c \<in> set ([] # ns)"
  then obtain xs ys where x: "[] # ns = xs @ c # ys" by (meson split_list)
  then show ?thesis using resolve_suffix [OF e x] unfolding tip_def x by simp
qed

section \<open>The bucket obeys the laws of a ledger store\<close>

lemma gc_err_simps [simp]:
  "gc_err e \<noteq> ErrStoreObjectNotFound" "gc_err e \<noteq> ErrStoreObjectExists" "gc_err e \<noteq> ErrStoreHeadMoved"
  by (simp_all add: gc_err_def)

lemma bucket_ReadProposal_absent [simp]:
  "bucket_ReadProposal bk b i = Inl ErrStoreObjectNotFound \<longleftrightarrow> bk_ReadAll bk b (proposalKey i) = Inl NotFound"
  by (auto simp: bucket_ReadProposal_def split: sum.splits)

lemma bucket_ReadApply_absent [simp]:
  "bucket_ReadApply bk b i n = Inl ErrStoreObjectNotFound \<longleftrightarrow> bk_ReadAll bk b (applyKey i n) = Inl NotFound"
  by (auto simp: bucket_ReadApply_def split: sum.splits)

lemma same_reads:
  "bk_ReadAll bk b' (headEdgeKey p) = bk_ReadAll bk b (headEdgeKey p) \<Longrightarrow> readEdge bk b' p = readEdge bk b p"
  "bk_ReadAll bk b' headHintKey = bk_ReadAll bk b headHintKey \<Longrightarrow> hintStart bk b' = hintStart bk b"
  by (simp_all add: readEdge_def hintStart_def)

lemma TrimSpace_hash: "IsHash h \<Longrightarrow> TrimSpace h = h"
proof -
  assume h: "IsHash h"
  then have "\<forall>c \<in> set h. \<not> is_space c" using hex_not_space by (auto simp: IsHash_def list_all_iff)
  then have "dropWhile is_space h = h" "dropWhile is_space (rev h) = rev h"
    by (auto intro: dropWhile_eq_self_iff [THEN iffD2] simp: hd_rev)
  then show ?thesis by (simp add: TrimSpace_def)
qed

context bucket begin

lemma ok_path:
  assumes "bucket_ok bk bok b"
  shows "\<exists>ns. edges_are bk b ns \<and> bucket_Head bk b = Some (Inr (tip ns)) \<and>
    (\<forall>n \<in> set ns. bk_ReadAll bk b (proposalKey n) \<noteq> Inl NotFound) \<and> (\<exists>h \<in> set ([] # ns). hintStart bk b = Inr h)"
proof -
  obtain ns h where n: "edges_are bk b ns" "\<forall>n \<in> set ns. bk_ReadAll bk b (proposalKey n) \<noteq> Inl NotFound"
      "h \<in> set ([] # ns)" "hintStart bk b = Inr h"
    using assms unfolding bucket_ok_def by blast
  have "bucket_Head bk b = Some (Inr (tip ns))" using resolve_path [OF n(1, 3)] n(4) by (simp add: bucket_Head_def)
  then show ?thesis using n by blast
qed

lemma ok_frame:
  assumes ok: "bucket_ok bk bok b" and b': "bok b'" "bk_ReadAll bk b' = (bk_ReadAll bk b)(k := Inr x)"
    and k: "\<And>p. k \<noteq> headEdgeKey p" "k \<noteq> headHintKey" "prefix appliesPrefix k \<Longrightarrow> \<exists>i n. k = applyKey i n"
  shows "bucket_ok bk bok b' \<and> bucket_Head bk b' = bucket_Head bk b \<and> bucket_used bk b' = bucket_used bk b"
proof -
  obtain ns where ns: "edges_are bk b ns" "bucket_Head bk b = Some (Inr (tip ns))"
      "\<forall>n \<in> set ns. bk_ReadAll bk b (proposalKey n) \<noteq> Inl NotFound" "\<exists>h \<in> set ([] # ns). hintStart bk b = Inr h"
    using ok_path [OF ok] by blast
  have same: "readEdge bk b' p = readEdge bk b p" "hintStart bk b' = hintStart bk b" for p
    by (rule same_reads, simp add: b' k(1, 2) [THEN not_sym])+
  then have e: "edges_are bk b' ns" using ns(1) by (simp add: edges_are_def)
  obtain h where h: "h \<in> set ([] # ns)" "hintStart bk b' = Inr h" using ns(4) same by auto
  have s: "bk_ReadAll bk b' (proposalKey n) \<noteq> Inl NotFound" if "n \<in> set ns" for n
    using ns(3) that by (simp add: b')
  have a: "\<exists>i n. j = applyKey i n" if "prefix appliesPrefix j" "bk_ReadAll bk b' j \<noteq> Inl NotFound" for j
    using that ok_parts(2) [OF ok that(1)] k(3) by (cases "j = k") (auto simp: b')
  have "bucket_ok bk bok b'" unfolding bucket_ok_def using b'(1) e s h a by blast
  moreover have "bucket_Head bk b' = bucket_Head bk b"
    using resolve_path [OF e h(1)] by (simp add: bucket_Head_def [of bk b'] h ns(2))
  ultimately show ?thesis by (simp add: fun_eq_iff bucket_used_def same)
qed

lemma write_created:
  assumes "bok b" "bucket_WriteProposalIfAbsent bk b i d = Inr b'"
  shows "bok b' \<and> bk_ReadAll bk b' = (bk_ReadAll bk b)(proposalKey i := Inr (Doc d))"
proof (cases "bk_ReadAll bk b (proposalKey i) = Inl NotFound")
  case True
  then obtain c where "bk_Create bk b (proposalKey i) (Doc d) = Inr c" "bok c"
      "bk_ReadAll bk c = (bk_ReadAll bk b)(proposalKey i := Inr (Doc d))"
    using bk_create [OF assms(1) True] by blast
  then show ?thesis using assms(2) by (simp add: bucket_WriteProposalIfAbsent_def)
next
  case False
  then obtain y where "bk_ReadAll bk b (proposalKey i) = Inr y" using bk_read [OF assms(1)] by blast
  then show ?thesis using assms(2) bk_taken [OF assms(1)] by (simp add: bucket_WriteProposalIfAbsent_def)
qed

lemma write_frame:
  assumes "bucket_ok bk bok b" "bucket_WriteProposalIfAbsent bk b i d = Inr b'"
  shows "bucket_ok bk bok b' \<and> bucket_Head bk b' = bucket_Head bk b \<and> bucket_used bk b' = bucket_used bk b"
proof -
  have w: "bok b'" "bk_ReadAll bk b' = (bk_ReadAll bk b)(proposalKey i := Inr (Doc d))"
    using write_created [OF _ assms(2)] assms(1) by (simp_all add: bucket_ok_def)
  show ?thesis by (rule ok_frame [OF assms(1) w]) auto
qed

text \<open>Advancing from the head, and from any other place on the path.\<close>

lemma edge_written:
  assumes "bok b" "edges_are bk b ns" "IsHash n" "n \<notin> set ns"
  obtains b' where "writeEdge bk b (tip ns) n = Inr b'" "bok b'" "edges_are bk b' (ns @ [n])"
    "bk_ReadAll bk b' = (bk_ReadAll bk b)(headEdgeKey (tip ns) := Inr (Text n))"
proof -
  let ?e = "tip ns"
  note e = edges_tip(1) [OF assms(2)] and d = edges_tip(3) [OF assms(2)]
  have "readEdge bk b ?e = Inr None" by (rule edges_tip(2) [OF assms(2)])
  then have "bk_ReadAll bk b (headEdgeKey ?e) = Inl NotFound"
    by (auto simp: readEdge_def Let_def split: sum.splits if_splits)
  then obtain b' where b': "bk_Create bk b (headEdgeKey ?e) (Text n) = Inr b'" "bok b'"
      "bk_ReadAll bk b' = (bk_ReadAll bk b)(headEdgeKey ?e := Inr (Text n))"
    using bk_create [OF assms(1)] by blast
  have "readEdge bk b' p = Inr (next_in [] (ns @ [n]) p)" if p: "p = [] \<or> IsHash p" for p
  proof (cases "p = ?e")
    case True
    then show ?thesis using assms(3) by (simp add: readEdge_def b' text_of_def TrimSpace_hash next_in_snoc [OF d, folded tip_def])
  next
    case False
    then have "headEdgeKey p \<noteq> headEdgeKey ?e" using headEdgeKey_inj [OF p e] by simp
    then have "readEdge bk b' p = readEdge bk b p" by (intro same_reads) (simp add: b')
    then show ?thesis using edges_read [OF assms(2) p] False by (simp add: next_in_snoc [OF d, folded tip_def])
  qed
  then have "edges_are bk b' (ns @ [n])" using assms(2-4) by (auto simp: edges_are_def)
  then show ?thesis using that [of b'] b' by (simp add: writeEdge_def)
qed

lemma hint_written:
  assumes "bok b"
  shows "bok (writeHint bk b n)" "bk_ReadAll bk (writeHint bk b n) = (bk_ReadAll bk b)(headHintKey := Inr (Text n))"
  using bk_write [OF assms, of headHintKey "Text n"] by (auto simp: writeHint_def)

lemma advance:
  assumes ok: "bucket_ok bk bok b" and e: "bucket_Head bk b = Some (Inr e)" and n: "IsHash n" "\<not> bucket_used bk b n"
    and stored: "bk_ReadAll bk b (proposalKey n) \<noteq> Inl NotFound"
  shows "\<exists>b'. bucket_AdvanceHead bk b e n = Inr b' \<and> bucket_ok bk bok b' \<and> bucket_Head bk b' = Some (Inr n) \<and>
    (\<forall>i. bk_ReadAll bk b' (proposalKey i) = bk_ReadAll bk b (proposalKey i)) \<and>
    (\<forall>m. bucket_used bk b' m \<longleftrightarrow> bucket_used bk b m \<or> m = n)"
proof -
  obtain ns where ns: "edges_are bk b ns" "bucket_Head bk b = Some (Inr (tip ns))"
      "\<forall>n \<in> set ns. bk_ReadAll bk b (proposalKey n) \<noteq> Inl NotFound" "\<exists>h \<in> set ([] # ns). hintStart bk b = Inr h"
    using ok_path [OF ok] by blast
  have b: "bok b" "n \<notin> set ns" using ok_parts(1) [OF ok] n(2) edges_used [OF ns(1)] by simp_all
  have "e = tip ns" using e ns(2) by simp
  then obtain c where c: "writeEdge bk b e n = Inr c" "bok c" "edges_are bk c (ns @ [n])"
      "bk_ReadAll bk c = (bk_ReadAll bk b)(headEdgeKey e := Inr (Text n))"
    using edge_written [OF b(1) ns(1) n(1) b(2)] by blast
  let ?b = "writeHint bk c n"
  have hb: "bok ?b" "bk_ReadAll bk ?b = (bk_ReadAll bk c)(headHintKey := Inr (Text n))"
    by (rule hint_written [OF c(2)])+
  have "readEdge bk ?b p = readEdge bk c p" for p by (rule same_reads) (simp add: hb)
  then have edges: "edges_are bk ?b (ns @ [n])" using c(3) by (simp add: edges_are_def)
  have hint: "hintStart bk ?b = Inr n" using n(1) by (simp add: hintStart_def hb text_of_def TrimSpace_hash)
  have reads: "bk_ReadAll bk ?b (proposalKey i) = bk_ReadAll bk b (proposalKey i)" for i by (simp add: hb c)
  have apps: "\<exists>i n. k = applyKey i n" if "prefix appliesPrefix k" "bk_ReadAll bk ?b k \<noteq> Inl NotFound" for k
  proof -
    have "k \<noteq> headHintKey" "k \<noteq> headEdgeKey e" using that(1) by auto
    then have "bk_ReadAll bk b k \<noteq> Inl NotFound" using that(2) by (simp add: hb c)
    then show ?thesis by (rule ok_parts(2) [OF ok that(1)])
  qed
  have "bucket_ok bk bok ?b"
    unfolding bucket_ok_def
  proof (intro conjI exI [of _ "ns @ [n]"])
    show "\<forall>m \<in> set (ns @ [n]). bk_ReadAll bk ?b (proposalKey m) \<noteq> Inl NotFound" using ns(3) stored reads by auto
    show "\<exists>h \<in> set ([] # ns @ [n]). hintStart bk ?b = Inr h" using hint by simp
  qed (use hb(1) edges apps in blast)+
  moreover have "bucket_Head bk ?b = Some (Inr n)"
    using resolve_path [OF edges, of n] by (simp add: bucket_Head_def hint)
  ultimately show ?thesis
    using edges_used [OF edges] edges_used [OF ns(1)] by (auto simp: bucket_AdvanceHead_def c reads)
qed

lemma list_attempts:
  assumes ok: "bucket_ok bk bok b" and "IsHash i"
  shows "\<exists>ns. bucket_ListApplyAttempts bk b i = Inr ns \<and> distinct ns \<and>
    (\<forall>n. n \<in> set ns \<longleftrightarrow> 0 \<le> n \<and> bk_ReadAll bk b (applyKey i n) \<noteq> Inl NotFound)"
proof -
  obtain ks where k: "bk_List bk b (appliesPrefix @ i @ ''.'') = Inr ks \<and> distinct ks \<and>
      (\<forall>k. k \<in> set ks \<longleftrightarrow> prefix (appliesPrefix @ i @ ''.'') k \<and> bk_ReadAll bk b k \<noteq> Inl NotFound)"
    using bk_list [OF ok_parts(1) [OF ok]] ..
  then have ks: "bk_List bk b (appliesPrefix @ i @ ''.'') = Inr ks" "distinct ks"
      "k \<in> set ks \<longleftrightarrow> prefix (appliesPrefix @ i @ ''.'') k \<and> bk_ReadAll bk b k \<noteq> Inl NotFound" for k
    by simp_all
  let ?f = "\<lambda>k. case matchApplyKey k of Some (j, n) \<Rightarrow> if j = i then [n] else [] | None \<Rightarrow> []"
  have canon: "\<exists>j m. k = applyKey j m" if "k \<in> set ks" for k
  proof -
    have "prefix (appliesPrefix @ i @ ''.'') k" "bk_ReadAll bk b k \<noteq> Inl NotFound" using that ks(3) by simp_all
    then show ?thesis using ok_parts(2) [OF ok append_prefixD] by blast
  qed
  have f: "?f (applyKey j m) = (if j = i \<and> 0 \<le> m then [m] else [])" for j m
  proof (cases "matchApplyKey (applyKey j m)")
    case None
    then show ?thesis using matchApplyKey_applyKey [OF assms(2), of m] by (cases "j = i") (simp_all split: if_splits)
  next
    case (Some q)
    then obtain l k where q: "matchApplyKey (applyKey j m) = Some (l, k)" by (cases q) simp
    then show ?thesis using matchApplyKey_canonical [OF q] by simp
  qed
  have "n \<in> set (concat (map ?f ks)) \<longleftrightarrow> 0 \<le> n \<and> bk_ReadAll bk b (applyKey i n) \<noteq> Inl NotFound" for n
  proof -
    have "prefix (appliesPrefix @ i @ ''.'') (applyKey i n)" by (simp add: applyKey_def)
    then have "applyKey i n \<in> set ks \<longleftrightarrow> bk_ReadAll bk b (applyKey i n) \<noteq> Inl NotFound" using ks(3) by simp
    moreover have "n \<in> set (concat (map ?f ks)) \<longleftrightarrow> applyKey i n \<in> set ks \<and> 0 \<le> n"
    proof
      assume "n \<in> set (concat (map ?f ks))"
      then obtain k where k: "k \<in> set ks" "n \<in> set (?f k)" by auto
      then obtain j m where "k = applyKey j m" using canon by blast
      with k f [of j m] show "applyKey i n \<in> set ks \<and> 0 \<le> n" by (auto split: if_splits)
    next
      assume "applyKey i n \<in> set ks \<and> 0 \<le> n"
      then have "n \<in> set (?f (applyKey i n))" "applyKey i n \<in> set ks" using f [of i n] by simp_all
      then show "n \<in> set (concat (map ?f ks))" unfolding set_concat set_map by blast
    qed
    ultimately show ?thesis by blast
  qed
  moreover have "distinct (concat (map ?f ks))"
  proof -
    have "distinct (concat (map ?f ls))" if "distinct ls" "\<And>k. k \<in> set ls \<Longrightarrow> \<exists>j m. k = applyKey j m" for ls
      using that
    proof (induction ls)
      case (Cons k ls)
      obtain j m where k: "k = applyKey j m" using Cons.prems(2) [of k] by auto
      have "set (?f k) \<inter> set (concat (map ?f ls)) = {}"
      proof (rule ccontr)
        assume "set (?f k) \<inter> set (concat (map ?f ls)) \<noteq> {}"
        then obtain n where n: "n \<in> set (?f k)" and c: "n \<in> set (concat (map ?f ls))" by (meson disjoint_iff)
        obtain l where nl: "n \<in> set (?f l)" "l \<in> set ls" using c unfolding set_concat set_map by blast
        obtain j' m' where l: "l = applyKey j' m'" using Cons.prems(2) [of l] nl(2) by auto
        have "k = l" using n nl(1) f [of j m] f [of j' m'] unfolding k l by (simp split: if_splits)
        then show False using Cons.prems(1) nl(2) by simp
      qed
      moreover have "distinct (?f k)" using f [of j m] by (simp add: k)
      moreover have "distinct (concat (map ?f ls))" using Cons by simp
      ultimately show ?case by (simp del: set_concat)
    qed simp
    then show ?thesis using ks(2) canon by blast
  qed
  ultimately show ?thesis using ks(1) by (simp add: bucket_ListApplyAttempts_def)
qed

end

sublocale bucket \<subseteq> led: ledger_store "bucket_store bk" "bucket_ok bk bok" "bucket_used bk"
proof
  fix s i
  assume ok: "bucket_ok bk bok s"
  then have b: "bok s" by (simp add: bucket_ok_def)
  show "(\<exists>b. so_ReadProposal (bucket_store bk) s i = Inr b) \<or> so_ReadProposal (bucket_store bk) s i = Inl ErrStoreObjectNotFound"
    using bk_read [OF b, of "proposalKey i"] by (auto simp: bucket_ReadProposal_def)
  show "\<exists>h. so_Head (bucket_store bk) s = Inr h" using ok_path [OF ok] by auto
next
  fix s i b
  assume "bucket_ok bk bok s" "so_ReadProposal (bucket_store bk) s i = Inl ErrStoreObjectNotFound"
  then show "\<exists>s'. so_WriteProposalIfAbsent (bucket_store bk) s i b = Inr s'"
    using bk_create [of s "proposalKey i" "Doc b"] by (auto simp: bucket_ok_def bucket_WriteProposalIfAbsent_def)
next
  fix s i c b
  assume "bucket_ok bk bok s" "so_ReadProposal (bucket_store bk) s i = Inr c"
  then show "so_WriteProposalIfAbsent (bucket_store bk) s i b = Inl ErrStoreObjectExists"
    using bk_taken [of s "proposalKey i"]
    by (auto simp: bucket_ok_def bucket_WriteProposalIfAbsent_def bucket_ReadProposal_def split: sum.splits)
next
  fix s i b s'
  assume a: "bucket_ok bk bok s" "so_WriteProposalIfAbsent (bucket_store bk) s i b = Inr s'"
  have f: "bucket_ok bk bok s' \<and> bucket_Head bk s' = bucket_Head bk s \<and> bucket_used bk s' = bucket_used bk s"
    using write_frame [OF a(1)] a(2) by simp
  then show "bucket_ok bk bok s'" "so_Head (bucket_store bk) s' = so_Head (bucket_store bk) s"
    "bucket_used bk s' n = bucket_used bk s n" for n by simp_all
  have "bk_ReadAll bk s' = (bk_ReadAll bk s)(proposalKey i := Inr (Doc b))"
    using write_created a by (simp add: bucket_ok_def)
  then show "so_ReadProposal (bucket_store bk) s' j = (if j = i then Inr b else so_ReadProposal (bucket_store bk) s j)" for j
    by (simp add: bucket_ReadProposal_def doc_of_def)
next
  fix s n
  assume a: "bucket_ok bk bok s" "bucket_used bk s n"
  obtain ns where ns: "edges_are bk s ns" "bucket_Head bk s = Some (Inr (tip ns))"
      "\<forall>n \<in> set ns. bk_ReadAll bk s (proposalKey n) \<noteq> Inl NotFound" "\<exists>h \<in> set ([] # ns). hintStart bk s = Inr h"
    using ok_path [OF a(1)] by blast
  show "so_ReadProposal (bucket_store bk) s n \<noteq> Inl ErrStoreObjectNotFound"
    using a(2) ns(3) edges_used [OF ns(1)] by simp
next
  fix s e n b
  assume a: "bucket_ok bk bok s" "so_Head (bucket_store bk) s = Inr e" "IsHash n" "\<not> bucket_used bk s n"
    "so_ReadProposal (bucket_store bk) s n = Inr b"
  have "bucket_Head bk s = Some (Inr e)" using ok_path [OF a(1)] a(2) by auto
  moreover have "bk_ReadAll bk s (proposalKey n) \<noteq> Inl NotFound" using a(5) by (auto simp: bucket_ReadProposal_def)
  ultimately obtain s' where "bucket_AdvanceHead bk s e n = Inr s'" "bucket_ok bk bok s'" "bucket_Head bk s' = Some (Inr n)"
      "\<forall>i. bk_ReadAll bk s' (proposalKey i) = bk_ReadAll bk s (proposalKey i)" "\<forall>m. bucket_used bk s' m \<longleftrightarrow> bucket_used bk s m \<or> m = n"
    using advance [OF a(1) _ a(3, 4)] by blast
  then show "\<exists>s'. so_AdvanceHead (bucket_store bk) s e n = Inr s' \<and> bucket_ok bk bok s' \<and> so_Head (bucket_store bk) s' = Inr n \<and>
      (\<forall>j. so_ReadProposal (bucket_store bk) s' j = so_ReadProposal (bucket_store bk) s j) \<and>
      (\<forall>m. bucket_used bk s' m \<longrightarrow> bucket_used bk s m \<or> m = n)"
    by (simp add: bucket_ReadProposal_def)
next
  fix s i n b
  assume ok: "bucket_ok bk bok s"
  then obtain s' where s': "bk_WriteAll bk s (applyKey i n) (Doc b) = Inr s'" "bok s'"
      "bk_ReadAll bk s' = (bk_ReadAll bk s)(applyKey i n := Inr (Doc b))"
    using bk_write by (metis bucket_ok_def)
  have "bucket_ok bk bok s' \<and> bucket_Head bk s' = bucket_Head bk s \<and> bucket_used bk s' = bucket_used bk s"
    by (rule ok_frame [OF ok s'(2, 3)]) auto
  then show "\<exists>s'. so_WriteApply (bucket_store bk) s i n b = Inr s' \<and> bucket_ok bk bok s' \<and>
      (\<forall>j k. so_ReadApply (bucket_store bk) s' j k = (if (j, k) = (i, n) then Inr b else so_ReadApply (bucket_store bk) s j k)) \<and>
      so_ReadProposal (bucket_store bk) s' = so_ReadProposal (bucket_store bk) s \<and>
      so_Head (bucket_store bk) s' = so_Head (bucket_store bk) s"
    using s' by (auto simp: bucket_WriteApply_def bucket_ReadApply_def bucket_ReadProposal_def doc_of_def fun_eq_iff)
next
  fix s i
  assume "bucket_ok bk bok s" "IsHash i"
  then show "\<exists>ns. so_ListApplyAttempts (bucket_store bk) s i = Inr ns \<and> distinct ns \<and>
      (\<forall>n. (n \<in> set ns) = (0 \<le> n \<and> so_ReadApply (bucket_store bk) s i n \<noteq> Inl ErrStoreObjectNotFound))"
    using list_attempts by simp
next
  fix s i n
  assume "bucket_ok bk bok s"
  then have "bok s" by (simp add: bucket_ok_def)
  then show "(\<exists>b. so_ReadApply (bucket_store bk) s i n = Inr b) \<or> so_ReadApply (bucket_store bk) s i n = Inl ErrStoreObjectNotFound"
    using bk_read [of s "applyKey i n"] by (auto simp: bucket_ReadApply_def)
next
  fix s i n b s' m
  assume a: "bucket_ok bk bok s" "so_WriteApply (bucket_store bk) s i n b = Inr s'" "bucket_used bk s' m"
  then obtain t where t: "bk_WriteAll bk s (applyKey i n) (Doc b) = Inr t" "bok t"
      "bk_ReadAll bk t = (bk_ReadAll bk s)(applyKey i n := Inr (Doc b))"
    using bk_write by (metis bucket_ok_def)
  have "bucket_used bk t = bucket_used bk s" using ok_frame [OF a(1) t(2, 3)] by auto
  then show "bucket_used bk s m" using a t(1) by (simp add: bucket_WriteApply_def)
qed

section \<open>A bucket in memory\<close>

text \<open>The bucket that memblob gives: a map from keys to objects.\<close>

type_synonym mem = "(string, obj) amap"

definition mem_bucket :: "mem bucket_ops" where
  "mem_bucket = \<lparr>
     bk_ReadAll = (\<lambda>b k. case map_of b k of None \<Rightarrow> Inl NotFound | Some x \<Rightarrow> Inr x),
     bk_Create = (\<lambda>b k x. if map_of b k = None then Inr (aput k x b) else Inl FailedPrecondition),
     bk_WriteAll = (\<lambda>b k x. Inr (aput k x b)),
     bk_Delete = (\<lambda>b k. if map_of b k = None then Inl NotFound else Inr (adel k b)),
     bk_List = (\<lambda>b pre. Inr (filter (prefix pre) (map fst b)))\<rparr>"

lemma mem_reads: "bk_ReadAll mem_bucket b k = (case map_of b k of None \<Rightarrow> Inl NotFound | Some x \<Rightarrow> Inr x)"
  by (simp add: mem_bucket_def)

interpretation mem: bucket mem_bucket amap_wf
proof
  fix b :: mem and k pre x y
  assume w: "amap_wf b"
  show "(\<exists>x. bk_ReadAll mem_bucket b k = Inr x) \<or> bk_ReadAll mem_bucket b k = Inl NotFound"
    by (simp add: mem_reads split: option.splits)
  show "bk_ReadAll mem_bucket b k = Inl NotFound \<Longrightarrow> \<exists>b'. bk_Create mem_bucket b k x = Inr b' \<and> amap_wf b' \<and>
      bk_ReadAll mem_bucket b' = (bk_ReadAll mem_bucket b)(k := Inr x)"
    using w by (auto simp: mem_bucket_def fun_eq_iff split: option.splits)
  show "bk_ReadAll mem_bucket b k = Inr y \<Longrightarrow> bk_Create mem_bucket b k x = Inl FailedPrecondition"
    by (simp add: mem_bucket_def split: option.splits)
  show "\<exists>b'. bk_WriteAll mem_bucket b k x = Inr b' \<and> amap_wf b' \<and> bk_ReadAll mem_bucket b' = (bk_ReadAll mem_bucket b)(k := Inr x)"
    using w by (auto simp: mem_bucket_def fun_eq_iff)
  show "bk_ReadAll mem_bucket b k = Inr y \<Longrightarrow> \<exists>b'. bk_Delete mem_bucket b k = Inr b' \<and> amap_wf b' \<and>
      bk_ReadAll mem_bucket b' = (bk_ReadAll mem_bucket b)(k := Inl NotFound)"
    using w by (auto simp: mem_bucket_def fun_eq_iff split: option.splits)
  show "bk_ReadAll mem_bucket b k = Inl NotFound \<Longrightarrow> bk_Delete mem_bucket b k = Inl NotFound"
    by (simp add: mem_bucket_def split: option.splits)
  have "distinct (map fst b)" using w strict_sorted_iff unfolding amap_wf_def by blast
  then show "\<exists>ks. bk_List mem_bucket b pre = Inr ks \<and> distinct ks \<and>
      (\<forall>k. (k \<in> set ks) = (prefix pre k \<and> bk_ReadAll mem_bucket b k \<noteq> Inl NotFound))"
    by (auto simp: mem_bucket_def map_of_eq_None_iff image_iff split: option.splits) (metis fst_conv map_of_eq_Some_iff)+
qed

end
