(* ===== verification/BucketRace.thy ===== *)
theory BucketRace
  imports Bucket
begin

text \<open>
  Appends to a bucket from several machines at once. core/ledger.go's Append is taken apart into the calls
  it makes to the bucket, each of which is atomic, and any number of appends take their calls in any order.
  No lock is modelled here: what is proved holds whether or not the lock object does its work.
\<close>

section \<open>Append, one call at a time\<close>

text \<open>Where an append is: before reading its proposal, the hint, an edge; before writing the proposal, its
  edge, the hint; or at its end with what it returns.\<close>

datatype append_pc =
    Looking Proposal
  | Starting Proposal "blob option"
  | Walking Proposal "blob option" string
  | Writing Proposal string
  | Linking Proposal string
  | Hinting Proposal
  | Ended Proposal "(err, unit) res"

definition startAppend :: "Proposal \<Rightarrow> append_pc" where
  "startAppend p = (if p_ID p = [] then Ended p (Inl (EMsg ''append: proposal has no ID'')) else Looking p)"

text \<open>What Append does once it knows the head.\<close>

definition decide :: "Proposal \<Rightarrow> blob option \<Rightarrow> string \<Rightarrow> append_pc" where
  "decide p existing head = (case existing of
      Some x \<Rightarrow>
        if head \<noteq> p_Parent p then Ended p (Inl ErrDuplicateProposal)
        else (case parse_proposal x of None \<Rightarrow> Ended p (Inl ErrCorruptLedgerEntry) | Some _ \<Rightarrow> Linking p head)
    | None \<Rightarrow> if p_Parent p \<noteq> head then Ended p (Inl ErrParentMismatch) else Writing p head)"

fun appendCall :: "'b bucket_ops \<Rightarrow> 'b \<Rightarrow> append_pc \<Rightarrow> append_pc \<times> 'b" where
  "appendCall bk b (Looking p) = (case bucket_ReadProposal bk b (p_ID p) of
      Inl e \<Rightarrow> (if e \<noteq> ErrStoreObjectNotFound then Ended p (Inl e) else Starting p None, b)
    | Inr x \<Rightarrow> (Starting p (Some x), b))"
| "appendCall bk b (Starting p existing) = (case hintStart bk b of
      Inl e \<Rightarrow> (Ended p (Inl e), b)
    | Inr start \<Rightarrow> (Walking p existing start, b))"
| "appendCall bk b (Walking p existing current) = (case readEdge bk b current of
      Inl e \<Rightarrow> (Ended p (Inl e), b)
    | Inr None \<Rightarrow> (decide p existing current, b)
    | Inr (Some child) \<Rightarrow> (Walking p existing child, b))"
| "appendCall bk b (Writing p head) = (case bucket_WriteProposalIfAbsent bk b (p_ID p) (PropBlob p) of
      Inl e \<Rightarrow> (Ended p (Inl e), b)
    | Inr b' \<Rightarrow> (Linking p head, b'))"
| "appendCall bk b (Linking p head) = (case writeEdge bk b head (p_ID p) of
      Inl e \<Rightarrow> (Ended p (Inl e), b)
    | Inr b' \<Rightarrow> (Hinting p, b'))"
| "appendCall bk b (Hinting p) = (Ended p (Inr ()), writeHint bk b (p_ID p))"
| "appendCall bk b (Ended p r) = (Ended p r, b)"

text \<open>One append left to itself, for at most so many calls.\<close>

fun appendRun :: "'b bucket_ops \<Rightarrow> nat \<Rightarrow> append_pc \<times> 'b \<Rightarrow> append_pc \<times> 'b" where
  "appendRun bk 0 s = s"
| "appendRun bk (Suc n) s = appendRun bk n (appendCall bk (snd s) (fst s))"

lemma appendRun_add: "appendRun bk (m + n) s = appendRun bk n (appendRun bk m s)"
  by (induction m arbitrary: s) simp_all

lemma walk_alone:
  assumes "edges_are bk b ns" "[] # ns = xs @ c # ys"
  shows "appendRun bk (Suc (length ys)) (Walking p x c, b) = (decide p x (tip ns), b)"
  using assms(2)
proof (induction ys arbitrary: xs c)
  case Nil
  then have "c = tip ns" unfolding tip_def by simp
  then show ?case using edges_tip(2) [OF assms(1)] by simp
next
  case (Cons y ys)
  have "readEdge bk b c = Inr (Some y)" by (rule edges_next [OF assms(1) Cons.prems])
  then show ?case using Cons.IH [of "xs @ [c]" y] Cons.prems by simp
qed

definition runs :: "'b bucket_ops \<Rightarrow> append_pc \<times> 'b \<Rightarrow> append_pc \<times> 'b \<Rightarrow> bool" where
  "runs bk s s' \<longleftrightarrow> (\<exists>n. appendRun bk n s = s')"

lemma runs_refl: "runs bk s s"
  unfolding runs_def by (intro exI [of _ 0]) simp

lemma runs_step: "runs bk (appendCall bk b pc) s' \<Longrightarrow> runs bk (pc, b) s'"
  unfolding runs_def by (metis appendRun.simps(2) fst_conv snd_conv)

lemma runs_trans: "runs bk s t \<Longrightarrow> runs bk t u \<Longrightarrow> runs bk s u"
  unfolding runs_def by (metis appendRun_add)

context bucket begin

lemma runs_head:
  assumes ok: "bucket_ok bk bok b" and "bucket_Head bk b = Some (Inr head)"
  shows "runs bk (Starting p x, b) (decide p x head, b)"
proof -
  obtain ns h where ns: "edges_are bk b ns" "bucket_Head bk b = Some (Inr (tip ns))" "h \<in> set ([] # ns)" "hintStart bk b = Inr h"
    using ok_path [OF ok] by blast
  then obtain xs ys where "[] # ns = xs @ h # ys" by (meson split_list)
  then have "runs bk (Walking p x h, b) (decide p x (tip ns), b)" using walk_alone [OF ns(1)] unfolding runs_def by blast
  then show ?thesis using ns(2, 4) assms(2) by (intro runs_step) simp
qed

lemma runs_link: "runs bk (Linking p head, b) (case advance_from (bucket_store bk) b head (p_ID p) of (r, b') \<Rightarrow> (Ended p r, b'))"
proof (cases "writeEdge bk b head (p_ID p)")
  case (Inl e)
  then show ?thesis by (intro runs_step) (simp add: advance_from_def bucket_AdvanceHead_def runs_refl)
next
  case (Inr c)
  show ?thesis
    by (rule runs_step, simp add: Inr advance_from_def bucket_AdvanceHead_def, rule runs_step, simp add: runs_refl)
qed

lemma append_alone:
  assumes ok: "bucket_ok bk bok b"
  shows "runs bk (startAppend p, b) (case Append (bucket_store bk) b p of (r, b') \<Rightarrow> (Ended p r, b'))"
proof (cases "p_ID p = []")
  case True
  then show ?thesis by (simp add: startAppend_def Append_def runs_refl)
next
  case id: False
  obtain head where head: "bucket_Head bk b = Some (Inr head)" using ok_path [OF ok] by blast
  have so: "so_Head (bucket_store bk) b = Inr head" by (simp add: head)
  define x where "x = (case bucket_ReadProposal bk b (p_ID p) of Inl e \<Rightarrow> None | Inr y \<Rightarrow> Some y)"
  have read: "bucket_ReadProposal bk b (p_ID p) = (case x of None \<Rightarrow> Inl ErrStoreObjectNotFound | Some y \<Rightarrow> Inr y)"
    using led.read_total [OF ok, of "p_ID p"] by (auto simp: x_def simp del: bucket_ReadProposal_absent)
  have "runs bk (startAppend p, b) (Starting p x, b)"
    by (simp add: startAppend_def id, rule runs_step) (cases x; simp add: read runs_refl)
  then have start: "runs bk (startAppend p, b) (decide p x head, b)"
    using runs_head [OF ok head] runs_trans by blast
  show ?thesis
  proof (cases x)
    case None
    note r = None
    show ?thesis
    proof (cases "p_Parent p = head")
      case False
      then show ?thesis using start by (simp add: Append_def id read r head decide_def)
    next
      case True
      have "runs bk (Writing p head, b) (case Append (bucket_store bk) b p of (r, b') \<Rightarrow> (Ended p r, b'))"
      proof (cases "bucket_WriteProposalIfAbsent bk b (p_ID p) (PropBlob p)")
        case (Inl e)
        then show ?thesis by (intro runs_step) (simp add: Append_def id read r head True runs_refl)
      next
        case (Inr c)
        then show ?thesis using runs_link [of p head c] by (intro runs_step) (simp add: Append_def id read r head True)
      qed
      then show ?thesis using start by (intro runs_trans [OF start]) (simp add: decide_def r True)
    qed
  next
    case (Some y)
    note r = Some
    consider "head \<noteq> p_Parent p" | "head = p_Parent p" "parse_proposal y = None"
      | q where "head = p_Parent p" "parse_proposal y = Some q" by (cases "parse_proposal y") auto
    then show ?thesis
    proof cases
      case 1
      then show ?thesis using start by (simp add: Append_def id read r head decide_def)
    next
      case 2
      then show ?thesis using start by (simp add: Append_def id read r head decide_def)
    next
      case 3
      then show ?thesis using start runs_link [of p head b]
        by (intro runs_trans [OF start]) (simp add: Append_def id read r head decide_def)
    qed
  qed
qed

end

section \<open>Many appends at once\<close>

text \<open>
  The bucket and the appends that have begun. \<open>Ps\<close> are the drafts anyone accepts. An append may stop at any
  of its calls, as when its machine is lost: it then takes no further step. Apply records are written too.
\<close>

type_synonym 'b race = "'b \<times> append_pc list"

inductive race_step :: "(string \<Rightarrow> string) \<Rightarrow> 'b bucket_ops \<Rightarrow> Proposal set \<Rightarrow> 'b race \<Rightarrow> 'b race \<Rightarrow> bool"
  for sha :: "string \<Rightarrow> string" and bk :: "'b bucket_ops" and Ps :: "Proposal set" where
  accept: "p \<in> Ps \<Longrightarrow> validateAndHash sha p = Inr h \<Longrightarrow>
    race_step sha bk Ps (b, cs) (b, cs @ [startAppend (finalized p h a)])"
| call: "i < length cs \<Longrightarrow> appendCall bk b (cs ! i) = (pc, b') \<Longrightarrow> race_step sha bk Ps (b, cs) (b', cs[i := pc])"
| apply_record: "bucket_WriteApply bk b j n d = Inr b' \<Longrightarrow> race_step sha bk Ps (b, cs) (b', cs)"

definition accepted_form :: "(string \<Rightarrow> string) \<Rightarrow> Proposal set \<Rightarrow> Proposal \<Rightarrow> bool" where
  "accepted_form sha Ps p \<longleftrightarrow> (\<exists>d \<in> Ps. \<exists>a. validateAndHash sha d = Inr (p_ID p) \<and> p = finalized d (p_ID p) a)"

text \<open>What holds of an append, given the heads of the chain so far.\<close>

definition has_proposal :: "'b bucket_ops \<Rightarrow> 'b \<Rightarrow> string \<Rightarrow> bool" where
  "has_proposal bk b i \<longleftrightarrow> bk_ReadAll bk b (proposalKey i) \<noteq> Inl NotFound"

fun pc_ok :: "(string \<Rightarrow> string) \<Rightarrow> 'b bucket_ops \<Rightarrow> Proposal set \<Rightarrow> 'b \<Rightarrow> string list \<Rightarrow> append_pc \<Rightarrow> bool" where
  "pc_ok sha bk Ps b ns (Looking p) \<longleftrightarrow> accepted_form sha Ps p"
| "pc_ok sha bk Ps b ns (Starting p x) \<longleftrightarrow> accepted_form sha Ps p \<and> (x \<noteq> None \<longrightarrow> has_proposal bk b (p_ID p))"
| "pc_ok sha bk Ps b ns (Walking p x c) \<longleftrightarrow>
     accepted_form sha Ps p \<and> (x \<noteq> None \<longrightarrow> has_proposal bk b (p_ID p)) \<and> c \<in> set ([] # ns)"
| "pc_ok sha bk Ps b ns (Writing p head) \<longleftrightarrow> accepted_form sha Ps p \<and> p_Parent p = head \<and> head \<in> set ([] # ns)"
| "pc_ok sha bk Ps b ns (Linking p head) \<longleftrightarrow>
     accepted_form sha Ps p \<and> p_Parent p = head \<and> head \<in> set ([] # ns) \<and> has_proposal bk b (p_ID p)"
| "pc_ok sha bk Ps b ns (Hinting p) \<longleftrightarrow> p_ID p \<in> set ns"
| "pc_ok sha bk Ps b ns (Ended p r) \<longleftrightarrow> (r = Inr () \<longrightarrow> p_ID p \<in> set ns)"

text \<open>The chain: its edges, the hint, the proposals that are stored and what they name as their parents.\<close>

definition chain_ok :: "(string \<Rightarrow> string) \<Rightarrow> 'b bucket_ops \<Rightarrow> ('b \<Rightarrow> bool) \<Rightarrow> Proposal set \<Rightarrow> 'b \<Rightarrow> string list \<Rightarrow> bool" where
  "chain_ok sha bk bok Ps b ns \<longleftrightarrow> bok b \<and> edges_are bk b ns \<and> (\<exists>h \<in> set ([] # ns). hintStart bk b = Inr h) \<and>
     (\<forall>i x. bk_ReadAll bk b (proposalKey i) = Inr x \<longrightarrow>
        (\<exists>p. x = Doc (PropBlob p) \<and> accepted_form sha Ps p \<and> p_ID p = i)) \<and>
     (\<forall>n \<in> set ns. has_proposal bk b n) \<and>
     (\<forall>xs n ys p. ns = xs @ n # ys \<longrightarrow> bk_ReadAll bk b (proposalKey n) = Inr (Doc (PropBlob p)) \<longrightarrow> p_Parent p = tip xs)"

lemma chain_okD:
  assumes "chain_ok sha bk bok Ps b ns"
  shows "bok b" "edges_are bk b ns" "\<exists>h \<in> set ([] # ns). hintStart bk b = Inr h"
    "n \<in> set ns \<Longrightarrow> has_proposal bk b n"
    "ns = xs @ n # ys \<Longrightarrow> bk_ReadAll bk b (proposalKey n) = Inr (Doc (PropBlob p)) \<Longrightarrow> p_Parent p = tip xs"
  using assms unfolding chain_ok_def by simp_all

lemma pc_ok_mono:
  "pc_ok sha bk Ps b ns pc \<Longrightarrow> set ns \<subseteq> set ms \<Longrightarrow> (\<And>i. has_proposal bk b i \<Longrightarrow> has_proposal bk b' i) \<Longrightarrow>
   pc_ok sha bk Ps b' ms pc"
  by (cases pc) auto

definition collision_free :: "(string \<Rightarrow> string) \<Rightarrow> Proposal set \<Rightarrow> bool" where
  "collision_free sha Ps \<longleftrightarrow> (\<forall>d \<in> Ps. \<forall>e \<in> Ps. Hash sha d = Hash sha e \<longrightarrow> hashedContent d = hashedContent e)"

lemma accepted_form_parent:
  assumes "accepted_form sha Ps p" "accepted_form sha Ps q" "p_ID p = p_ID q"
    and inj: "collision_free sha Ps"
  shows "p_Parent p = p_Parent q"
proof -
  obtain d a where d: "d \<in> Ps" "validateAndHash sha d = Inr (p_ID p)" "p = finalized d (p_ID p) a"
    using assms(1) by (auto simp: accepted_form_def)
  obtain e c where e: "e \<in> Ps" "validateAndHash sha e = Inr (p_ID q)" "q = finalized e (p_ID q) c"
    using assms(2) by (auto simp: accepted_form_def)
  have "Hash sha d = Hash sha e"
    using validateAndHash_Hash(1) [OF d(2)] validateAndHash_Hash(1) [OF e(2)] assms(3) by simp
  then have "hashedContent d = hashedContent e" using inj d(1) e(1) unfolding collision_free_def by blast
  then have "p_Parent d = p_Parent e" using hashedContent_parent validateAndHash_Hash(2) [OF e(2)] by blast
  then show ?thesis using d(3) e(3) by (metis finalized_sel(2))
qed

context bucket begin

lemma chain_read:
  assumes "chain_ok sha bk bok Ps b ns"
  shows "bk_ReadAll bk b (proposalKey i) = Inr x \<Longrightarrow> \<exists>p. x = Doc (PropBlob p) \<and> accepted_form sha Ps p \<and> p_ID p = i"
    and "has_proposal bk b i \<Longrightarrow> \<exists>p. bk_ReadAll bk b (proposalKey i) = Inr (Doc (PropBlob p)) \<and> accepted_form sha Ps p \<and> p_ID p = i"
proof -
  show *: "bk_ReadAll bk b (proposalKey i) = Inr x \<Longrightarrow> \<exists>p. x = Doc (PropBlob p) \<and> accepted_form sha Ps p \<and> p_ID p = i" for x
    using assms unfolding chain_ok_def by blast
  assume "has_proposal bk b i"
  moreover have "bok b" using assms by (simp add: chain_ok_def)
  ultimately obtain x where "bk_ReadAll bk b (proposalKey i) = Inr x" using bk_read unfolding has_proposal_def by blast
  with * show "\<exists>p. bk_ReadAll bk b (proposalKey i) = Inr (Doc (PropBlob p)) \<and> accepted_form sha Ps p \<and> p_ID p = i" by blast
qed

text \<open>A call that writes none of the objects the chain is made of.\<close>

lemma chain_frame:
  assumes c: "chain_ok sha bk bok Ps b ns" and b': "bok b'" "bk_ReadAll bk b' = (bk_ReadAll bk b)(k := Inr x)"
    and k: "\<And>p. k \<noteq> headEdgeKey p" "k \<noteq> headHintKey"
    and new: "\<And>i. k = proposalKey i \<Longrightarrow> bk_ReadAll bk b k = Inl NotFound \<and>
      (\<exists>p. x = Doc (PropBlob p) \<and> accepted_form sha Ps p \<and> p_ID p = i)"
  shows "chain_ok sha bk bok Ps b' ns"
proof -
  have same: "readEdge bk b' p = readEdge bk b p" "hintStart bk b' = hintStart bk b" for p
    by (rule same_reads, simp add: b' k(1, 2) [THEN not_sym])+
  note e = chain_okD(2) [OF c] and h = chain_okD(3) [OF c] and n = chain_okD(4) [OF c] and par = chain_okD(5) [OF c]
  have old: "bk_ReadAll bk b' (proposalKey n) = bk_ReadAll bk b (proposalKey n)" if "n \<in> set ns" for n
    using n that new [of n] by (auto simp: b' has_proposal_def)
  show ?thesis
    unfolding chain_ok_def
  proof (intro conjI allI impI)
    show "bok b'" "edges_are bk b' ns" "\<exists>h \<in> set ([] # ns). hintStart bk b' = Inr h"
      using b'(1) e h same by (simp_all add: edges_are_def)
    show "\<exists>p. y = Doc (PropBlob p) \<and> accepted_form sha Ps p \<and> p_ID p = i" if "bk_ReadAll bk b' (proposalKey i) = Inr y" for i y
      using that new [of i] chain_read(1) [OF c, of i y] by (cases "k = proposalKey i") (auto simp: b')
    show "\<forall>n \<in> set ns. has_proposal bk b' n" using n old unfolding has_proposal_def by simp
    show "p_Parent p = tip xs" if "ns = xs @ n # ys" "bk_ReadAll bk b' (proposalKey n) = Inr (Doc (PropBlob p))" for xs n ys p
      using par [OF that(1)] that old [of n] by simp
  qed
qed

text \<open>
  The edge an append writes starts at the tip: an earlier head has its edge already, and the proposal being
  appended is not yet on the chain, for it names as its parent a head that has no successor.
\<close>

lemma link_at_tip:
  assumes c: "chain_ok sha bk bok Ps b ns" and p: "accepted_form sha Ps p" "p_Parent p \<in> set ([] # ns)"
    and w: "writeEdge bk b (p_Parent p) (p_ID p) = Inr b'"
    and inj: "collision_free sha Ps"
  shows "p_Parent p = tip ns \<and> p_ID p \<notin> set ns"
proof -
  note b = chain_okD(1) [OF c] and e = chain_okD(2) [OF c]
  have none: "next_in [] ns (p_Parent p) = None"
  proof (rule ccontr)
    assume "next_in [] ns (p_Parent p) \<noteq> None"
    then obtain m where m: "next_in [] ns (p_Parent p) = Some m" by blast
    have "p_Parent p = [] \<or> IsHash (p_Parent p)" using p(2) e by (auto simp: edges_are_def)
    then have "readEdge bk b (p_Parent p) = Inr (Some m)" using edges_read [OF e] m by simp
    then obtain y where "bk_ReadAll bk b (headEdgeKey (p_Parent p)) = Inr y"
      by (auto simp: readEdge_def split: sum.splits if_splits)
    then show False using w bk_taken [OF b] by (simp add: writeEdge_def)
  qed
  have d: "distinct ([] # ns)" by (rule edges_tip(3) [OF e])
  have at: "p_Parent p = tip ns"
  proof -
    obtain xs ys where x: "[] # ns = xs @ p_Parent p # ys" using p(2) by (meson split_list)
    have "ys = []" using next_in_path [OF d, of xs "p_Parent p"] x none by (cases ys) auto
    then show ?thesis unfolding tip_def x by simp
  qed
  moreover have "p_ID p \<notin> set ns"
  proof
    assume "p_ID p \<in> set ns"
    then obtain xs ys where x: "ns = xs @ p_ID p # ys" by (meson split_list)
    have "has_proposal bk b (p_ID p)" by (rule chain_okD(4) [OF c \<open>p_ID p \<in> set ns\<close>])
    then obtain q where q: "bk_ReadAll bk b (proposalKey (p_ID p)) = Inr (Doc (PropBlob q))" "accepted_form sha Ps q" "p_ID q = p_ID p"
      using chain_read(2) [OF c] by blast
    have "p_Parent q = tip xs" by (rule chain_okD(5) [OF c x q(1)])
    then have "p_Parent p = tip xs" using accepted_form_parent [OF q(2) p(1) q(3) inj] by simp
    moreover have "next_in [] ns (tip xs) = Some (p_ID p)"
    proof (rule next_in_path [OF d])
      have "butlast ([] # xs) @ [tip xs] = [] # xs" unfolding tip_def by (rule append_butlast_last_id) simp
      then show "[] # ns = butlast ([] # xs) @ tip xs # p_ID p # ys"
        unfolding x by (metis append.assoc append_Cons append_Nil)
    qed
    ultimately show False using none by simp
  qed
  ultimately show ?thesis ..
qed

lemma call_keeps:
  assumes c: "chain_ok sha bk bok Ps b ns" and pc: "pc_ok sha bk Ps b ns pc" and call: "appendCall bk b pc = (pc', b')"
    and hash: "\<And>x. IsHash (sha x)"
    and inj: "collision_free sha Ps"
  shows "\<exists>ms. chain_ok sha bk bok Ps b' (ns @ ms) \<and> pc_ok sha bk Ps b' (ns @ ms) pc' \<and>
    (\<forall>i. has_proposal bk b i \<longrightarrow> bk_ReadAll bk b' (proposalKey i) = bk_ReadAll bk b (proposalKey i))"
  (is "\<exists>ms. ?P b' ms pc'")
proof -
  note b = chain_okD(1) [OF c] and e = chain_okD(2) [OF c]
  have stay: ?thesis if "b' = b" "pc_ok sha bk Ps b ns pc'" using that c by (intro exI [of _ "[]"]) simp
  show ?thesis
  proof (cases pc)
    case (Looking p)
    then show ?thesis using stay call pc bk_read [OF b, of "proposalKey (p_ID p)"]
      by (auto simp: bucket_ReadProposal_def has_proposal_def)
  next
    case (Starting p x)
    then show ?thesis using stay call pc chain_okD(3) [OF c] by auto
  next
    case (Walking p x cur)
    have "cur = [] \<or> IsHash cur" using pc Walking e by (auto simp: edges_are_def)
    then have r: "readEdge bk b cur = Inr (next_in [] ns cur)" by (rule edges_read [OF e])
    show ?thesis
    proof (cases "next_in [] ns cur")
      case None
      then have "pc' = decide p x cur" "b' = b" using call r Walking by simp_all
      moreover have "pc_ok sha bk Ps b ns (decide p x cur)"
        using pc Walking by (auto simp: decide_def split: option.splits)
      ultimately show ?thesis using stay by simp
    next
      case (Some m)
      then have "pc' = Walking p x m" "b' = b" using call r Walking by simp_all
      then show ?thesis using stay pc Walking next_in_mem [OF Some] by simp
    qed
  next
    case (Writing p head)
    note w = Writing
    show ?thesis
    proof (cases "bucket_WriteProposalIfAbsent bk b (p_ID p) (PropBlob p)")
      case (Inl x)
      then have "b' = b" "pc' = Ended p (Inl x)" using call w by simp_all
      then show ?thesis using stay by simp
    next
      case (Inr d)
      then have d: "pc' = Linking p head" "b' = d" using call w by simp_all
      have new: "bk_ReadAll bk b (proposalKey (p_ID p)) = Inl NotFound"
        using Inr bk_read [OF b, of "proposalKey (p_ID p)"] bk_taken [OF b]
        by (auto simp: bucket_WriteProposalIfAbsent_def)
      note wr = write_created [OF b Inr]
      have "chain_ok sha bk bok Ps d ns"
        by (rule chain_frame [OF c]) (use wr new pc w in auto)
      moreover have "has_proposal bk d i" if "has_proposal bk b i \<or> i = p_ID p" for i
        using that wr by (auto simp: has_proposal_def)
      moreover have "bk_ReadAll bk d (proposalKey i) = bk_ReadAll bk b (proposalKey i)" if "has_proposal bk b i" for i
        using that wr new by (auto simp: has_proposal_def)
      ultimately have "?P d [] (Linking p head)" using pc w by simp
      then show ?thesis unfolding d by blast
    qed
  next
    case (Linking p head)
    note w = Linking
    show ?thesis
    proof (cases "writeEdge bk b head (p_ID p)")
      case (Inl x)
      then have "b' = b" "pc' = Ended p (Inl x)" using call w by simp_all
      then show ?thesis using stay by simp
    next
      case (Inr d)
      have p: "accepted_form sha Ps p" "p_Parent p \<in> set ([] # ns)" "head = p_Parent p" "has_proposal bk b (p_ID p)"
        using pc w by simp_all
      then have t: "head = tip ns" "p_ID p \<notin> set ns" using link_at_tip [OF c p(1, 2) _ inj] Inr by simp_all
      obtain d0 where "validateAndHash sha d0 = Inr (p_ID p)" using p(1) unfolding accepted_form_def by blast
      then have "Hash sha d0 = Inr (p_ID p)" by (rule validateAndHash_Hash(1))
      then have "IsHash (p_ID p)" using hash by (metis Hash_Inr)
      then obtain d' where d': "writeEdge bk b (tip ns) (p_ID p) = Inr d'" "bok d'" "edges_are bk d' (ns @ [p_ID p])"
          "bk_ReadAll bk d' = (bk_ReadAll bk b)(headEdgeKey (tip ns) := Inr (Text (p_ID p)))"
        using edge_written [OF b e _ t(2)] by blast
      have "d' = b'" "pc' = Hinting p" using d'(1) call w t(1) by simp_all
      have reads: "bk_ReadAll bk d' (proposalKey i) = bk_ReadAll bk b (proposalKey i)" for i by (simp add: d'(4))
      have "hintStart bk d' = hintStart bk b" by (rule same_reads) (simp add: d'(4))
      then have hint: "\<exists>h \<in> set ([] # ns @ [p_ID p]). hintStart bk d' = Inr h" using chain_okD(3) [OF c] by auto
      have par: "p_Parent q = tip xs"
        if x: "ns @ [p_ID p] = xs @ n # ys" and q: "bk_ReadAll bk d' (proposalKey n) = Inr (Doc (PropBlob q))" for xs n ys q
      proof (cases ys rule: rev_cases)
        case Nil
        then have n: "xs = ns" "n = p_ID p" using x by simp_all
        have "bk_ReadAll bk b (proposalKey n) = Inr (Doc (PropBlob q))" using q reads by simp
        then have "accepted_form sha Ps q" "p_ID q = n" using chain_read(1) [OF c] by auto
        then have "p_Parent q = p_Parent p" using accepted_form_parent [OF _ p(1) _ inj, of q] n(2) by simp
        then show ?thesis using t p(3) n by simp
      next
        case (snoc zs z)
        then have "ns = xs @ n # zs" using x by simp
        then show ?thesis using chain_okD(5) [OF c] q reads by simp
      qed
      have "chain_ok sha bk bok Ps d' (ns @ [p_ID p])"
        unfolding chain_ok_def
      proof (intro conjI allI impI)
        show "\<exists>p. x = Doc (PropBlob p) \<and> accepted_form sha Ps p \<and> p_ID p = i" if "bk_ReadAll bk d' (proposalKey i) = Inr x" for i x
          using chain_read(1) [OF c] that reads by simp
        show "\<forall>n \<in> set (ns @ [p_ID p]). has_proposal bk d' n"
          using chain_okD(4) [OF c] p(4) reads by (auto simp: has_proposal_def)
      qed (use d'(2, 3) hint par in blast)+
      then have "?P d' [p_ID p] (Hinting p)" using reads by simp
      then show ?thesis using \<open>d' = b'\<close> \<open>pc' = Hinting p\<close> by blast
    qed
  next
    case (Hinting p)
    have p: "p_ID p \<in> set ns" using pc Hinting by simp
    have h: "IsHash (p_ID p)" using p e by (auto simp: edges_are_def)
    let ?d = "writeHint bk b (p_ID p)"
    have d: "b' = ?d" "pc' = Ended p (Inr ())" using call Hinting by simp_all
    note hb = hint_written [OF b, of "p_ID p"]
    have reads: "bk_ReadAll bk ?d (proposalKey i) = bk_ReadAll bk b (proposalKey i)" for i by (simp add: hb)
    have "readEdge bk ?d q = readEdge bk b q" for q by (rule same_reads) (simp add: hb)
    then have e': "edges_are bk ?d ns" using e by (simp add: edges_are_def)
    have "hintStart bk ?d = Inr (p_ID p)" using h by (simp add: hintStart_def hb text_of_def TrimSpace_hash)
    then have hint: "\<exists>h \<in> set ([] # ns). hintStart bk ?d = Inr h" using p by simp
    have "chain_ok sha bk bok Ps ?d ns"
      unfolding chain_ok_def
    proof (intro conjI allI impI)
      show "\<exists>p. x = Doc (PropBlob p) \<and> accepted_form sha Ps p \<and> p_ID p = i" if "bk_ReadAll bk ?d (proposalKey i) = Inr x" for i x
        using chain_read(1) [OF c] that reads by simp
      show "p_Parent q = tip xs" if "ns = xs @ n # ys" "bk_ReadAll bk ?d (proposalKey n) = Inr (Doc (PropBlob q))" for xs n ys q
        using chain_okD(5) [OF c that(1)] that(2) reads by simp
      show "\<forall>n \<in> set ns. has_proposal bk ?d n" using chain_okD(4) [OF c] reads by (simp add: has_proposal_def)
    qed (use hb(1) e' hint in blast)+
    then have "?P ?d [] (Ended p (Inr ()))" using reads p by simp
    then show ?thesis unfolding d by blast
  next
    case (Ended p r)
    then show ?thesis using stay call pc by simp
  qed
qed

lemma race_keeps:
  assumes "race_step sha bk Ps (b, cs) (b', cs')" and c: "chain_ok sha bk bok Ps b ns" and pcs: "\<forall>pc \<in> set cs. pc_ok sha bk Ps b ns pc"
    and hash: "\<And>x. IsHash (sha x)" and inj: "collision_free sha Ps"
  shows "\<exists>ms. chain_ok sha bk bok Ps b' (ns @ ms) \<and> (\<forall>pc \<in> set cs'. pc_ok sha bk Ps b' (ns @ ms) pc) \<and>
    (\<forall>i. has_proposal bk b i \<longrightarrow> bk_ReadAll bk b' (proposalKey i) = bk_ReadAll bk b (proposalKey i))"
  using assms(1)
proof cases
  case (accept p h a)
  have "accepted_form sha Ps (finalized p h a)" using accept(3, 4) by (auto simp: accepted_form_def)
  moreover have "startAppend (finalized p h a) = Looking (finalized p h a) \<or> h = []" by (simp add: startAppend_def)
  moreover have "h \<noteq> []" using hash validateAndHash_Hash(1) [OF accept(4)] by (metis Hash_Inr IsHash_not_Nil(1))
  ultimately have "pc_ok sha bk Ps b ns (startAppend (finalized p h a))" by auto
  then show ?thesis using accept(1, 2) c pcs by (intro exI [of _ "[]"]) auto
next
  case (call i pc)
  have "pc_ok sha bk Ps b ns (cs ! i)" using pcs call(2) by simp
  then obtain ms where ms: "chain_ok sha bk bok Ps b' (ns @ ms)" "pc_ok sha bk Ps b' (ns @ ms) pc"
      "\<forall>i. has_proposal bk b i \<longrightarrow> bk_ReadAll bk b' (proposalKey i) = bk_ReadAll bk b (proposalKey i)"
    using call_keeps [OF c _ call(3) hash inj] by blast
  have more: "has_proposal bk b' j" if "has_proposal bk b j" for j using ms(3) that unfolding has_proposal_def by simp
  have "pc_ok sha bk Ps b' (ns @ ms) q" if "q \<in> set cs" for q
    by (rule pc_ok_mono [of _ _ _ b ns]) (use pcs that more in auto)
  then show ?thesis using ms call(1) set_update_subset_insert [of cs i pc] by blast
next
  case (apply_record j n d)
  obtain b2 where b2: "bk_WriteAll bk b (applyKey j n) (Doc d) = Inr b2" "bok b2"
      "bk_ReadAll bk b2 = (bk_ReadAll bk b)(applyKey j n := Inr (Doc d))"
    using bk_write [OF chain_okD(1) [OF c]] by blast
  have b': "b' = b2" "cs' = cs" using apply_record b2(1) by (simp_all add: bucket_WriteApply_def)
  have same: "bk_ReadAll bk b' (proposalKey i) = bk_ReadAll bk b (proposalKey i)" for i by (simp add: b' b2)
  have "chain_ok sha bk bok Ps b' ns" unfolding b' by (rule chain_frame [OF c b2(2, 3)]) auto
  moreover have "pc_ok sha bk Ps b' ns q" if "q \<in> set cs" for q
    by (rule pc_ok_mono [of _ _ _ b ns]) (use pcs that same in \<open>auto simp: has_proposal_def\<close>)
  ultimately show ?thesis using same b'(2) by (intro exI [of _ "[]"]) simp
qed

lemma race_extends:
  assumes "(race_step sha bk Ps)\<^sup>*\<^sup>* (b, cs) (b', cs')" and c: "chain_ok sha bk bok Ps b ns" and pcs: "\<forall>pc \<in> set cs. pc_ok sha bk Ps b ns pc"
    and hash: "\<And>x. IsHash (sha x)" and inj: "collision_free sha Ps"
  shows "\<exists>ms. chain_ok sha bk bok Ps b' (ns @ ms) \<and> (\<forall>pc \<in> set cs'. pc_ok sha bk Ps b' (ns @ ms) pc) \<and>
    (\<forall>i. has_proposal bk b i \<longrightarrow> bk_ReadAll bk b' (proposalKey i) = bk_ReadAll bk b (proposalKey i))"
  using assms(1)
proof (induction rule: rtranclp_induct2)
  case refl
  then show ?case using c pcs by (intro exI [of _ "[]"]) simp
next
  case (step b1 cs1 b2 cs2)
  then obtain ms where ms: "chain_ok sha bk bok Ps b1 (ns @ ms)" "\<forall>pc \<in> set cs1. pc_ok sha bk Ps b1 (ns @ ms) pc"
      "\<And>i. has_proposal bk b i \<Longrightarrow> bk_ReadAll bk b1 (proposalKey i) = bk_ReadAll bk b (proposalKey i)" by blast
  obtain ls where ls: "chain_ok sha bk bok Ps b2 ((ns @ ms) @ ls)" "\<forall>pc \<in> set cs2. pc_ok sha bk Ps b2 ((ns @ ms) @ ls) pc"
      "\<And>i. has_proposal bk b1 i \<Longrightarrow> bk_ReadAll bk b2 (proposalKey i) = bk_ReadAll bk b1 (proposalKey i)"
    using race_keeps [OF step(2) ms(1, 2) hash inj] by blast
  have "bk_ReadAll bk b2 (proposalKey i) = bk_ReadAll bk b (proposalKey i)" if "has_proposal bk b i" for i
    using ls(3) [of i] ms(3) [OF that] that by (simp add: has_proposal_def)
  then show ?case using ls(1, 2) by (intro exI [of _ "ms @ ls"]) simp
qed

text \<open>What a walk of the ledger's own makes of such a bucket.\<close>

definition proposalAt :: "'b \<Rightarrow> string \<Rightarrow> Proposal" where
  "proposalAt b n = projr (Read (bucket_store bk) b n)"

lemma chain_proposal:
  assumes c: "chain_ok sha bk bok Ps b ns" and "n \<in> set ns"
  shows "\<exists>p. bk_ReadAll bk b (proposalKey n) = Inr (Doc (PropBlob p)) \<and> p_ID p = n \<and>
    Read (bucket_store bk) b n = Inr (reread p) \<and> Hash sha (reread p) = Inr n \<and> proposalAt b n = reread p"
proof -
  obtain p where p: "bk_ReadAll bk b (proposalKey n) = Inr (Doc (PropBlob p))" "accepted_form sha Ps p" "p_ID p = n"
    using chain_read(2) [OF c chain_okD(4) [OF c assms(2)]] by blast
  obtain d a where d: "validateAndHash sha d = Inr n" "p = finalized d n a" using p(2, 3) by (auto simp: accepted_form_def)
  have "Hash sha (reread p) = Inr n" using validateAndHash_Hash(1) [OF d(1)] by (simp add: d(2) Hash_finalized)
  moreover have "Read (bucket_store bk) b n = Inr (reread p)" by (simp add: Read_def bucket_ReadProposal_def p(1) doc_of_def)
  ultimately show ?thesis using p by (simp add: proposalAt_def)
qed

lemma reread_links: "p_ID (reread p) = p_ID p" "p_Parent (reread p) = p_Parent p"
  by (simp_all add: reread_def)

lemma chain_linked:
  assumes c: "chain_ok sha bk bok Ps b ns"
  shows "ns = xs @ ys \<Longrightarrow> linked (bucket_store bk) b (tip xs) (rev (map (proposalAt b) xs))"
proof (induction xs arbitrary: ys rule: rev_induct)
  case (snoc n xs)
  have n: "n \<in> set ns" "ns = xs @ n # ys" using snoc.prems by simp_all
  obtain p where p: "bk_ReadAll bk b (proposalKey n) = Inr (Doc (PropBlob p))" "Read (bucket_store bk) b n = Inr (reread p)"
      "proposalAt b n = reread p" using chain_proposal [OF c n(1)] by blast
  have "p_Parent (reread p) = tip xs" using chain_okD(5) [OF c n(2) p(1)] by (simp add: reread_links)
  moreover have "n \<noteq> []" using n(1) chain_okD(2) [OF c] by (auto simp: edges_are_def)
  ultimately show ?case using snoc.IH [of "n # ys"] n(2) p by simp
qed simp

lemma chain_Chain:
  assumes c: "chain_ok sha bk bok Ps b ns"
  shows "Chain (bucket_store bk) b = Some (Inr (map (proposalAt b) ns))"
proof -
  obtain h where "h \<in> set ([] # ns)" "hintStart bk b = Inr h" using chain_okD(3) [OF c] by blast
  then have "bucket_Head bk b = Some (Inr (tip ns))" using resolve_path [OF chain_okD(2) [OF c]] by (simp add: bucket_Head_def)
  then show ?thesis using linked_ChainFrom [OF chain_linked [OF c, of ns "[]"]] by (simp add: Chain_def)
qed

lemma chain_links:
  assumes c: "chain_ok sha bk bok Ps b ns"
  shows "ns = xs @ ys \<Longrightarrow> links [] (map (proposalAt b) xs)" and "map p_ID (map (proposalAt b) ns) = ns"
proof -
  have ids: "p_ID (proposalAt b n) = n" if "n \<in> set ns" for n using chain_proposal [OF c that] by (auto simp: reread_links)
  then show "map p_ID (map (proposalAt b) ns) = ns" by (simp add: map_idI)
  show "ns = xs @ ys \<Longrightarrow> links [] (map (proposalAt b) xs)"
  proof (induction xs arbitrary: ys rule: rev_induct)
    case (snoc n xs)
    have n: "n \<in> set ns" "ns = xs @ n # ys" using snoc.prems by simp_all
    obtain p where p: "bk_ReadAll bk b (proposalKey n) = Inr (Doc (PropBlob p))" "proposalAt b n = reread p"
      using chain_proposal [OF c n(1)] by blast
    have "p_Parent (proposalAt b n) = tip xs" using chain_okD(5) [OF c n(2) p(1)] p(2) by (simp add: reread_links)
    moreover have "xs \<noteq> [] \<Longrightarrow> p_ID (proposalAt b (last xs)) = last xs" using ids n(2) by simp
    ultimately show ?case using snoc.IH [of "n # ys"] n(2) by (simp add: links_snoc last_map tip_def)
  qed simp
qed

lemma chain_empty: "bok b \<Longrightarrow> (\<And>k. bk_ReadAll bk b k = Inl NotFound) \<Longrightarrow> chain_ok sha bk bok Ps b []"
  by (simp add: chain_ok_def edges_are_def readEdge_def hintStart_def)

lemma race_outcome:
  assumes hash: "\<And>x. IsHash (sha x)" and inj: "collision_free sha Ps" and b0: "bok b0" "\<And>k. bk_ReadAll bk b0 k = Inl NotFound"
    and "(race_step sha bk Ps)\<^sup>*\<^sup>* (b0, []) (b, cs)" "(race_step sha bk Ps)\<^sup>*\<^sup>* (b, cs) (b', cs')"
  shows "\<exists>ps more. Chain (bucket_store bk) b = Some (Inr ps) \<and> Chain (bucket_store bk) b' = Some (Inr (ps @ more)) \<and>
    links [] (ps @ more) \<and> distinct (map p_ID (ps @ more)) \<and>
    (\<forall>p \<in> set (ps @ more). Hash sha p = Inr (p_ID p) \<and> Read (bucket_store bk) b' (p_ID p) = Inr p) \<and>
    (\<forall>p. Ended p (Inr ()) \<in> set cs' \<longrightarrow> p_ID p \<in> p_ID ` set (ps @ more))"
proof -
  obtain ns where n: "chain_ok sha bk bok Ps b ns" "\<forall>pc \<in> set cs. pc_ok sha bk Ps b ns pc"
    using race_extends [OF assms(5) chain_empty [OF b0] _ hash inj] by auto
  obtain ms where m: "chain_ok sha bk bok Ps b' (ns @ ms)" "\<forall>pc \<in> set cs'. pc_ok sha bk Ps b' (ns @ ms) pc"
      "\<forall>i. has_proposal bk b i \<longrightarrow> bk_ReadAll bk b' (proposalKey i) = bk_ReadAll bk b (proposalKey i)"
    using race_extends [OF assms(6) n(1, 2) hash inj] by blast
  let ?P = "map (proposalAt b') (ns @ ms)"
  have "proposalAt b' i = proposalAt b i" if "i \<in> set ns" for i
    using m(3) chain_okD(4) [OF n(1) that] by (simp add: proposalAt_def Read_def bucket_ReadProposal_def)
  then have old: "map (proposalAt b) ns = map (proposalAt b') ns" by simp
  have ids: "map p_ID ?P = ns @ ms" by (rule chain_links(2) [OF m(1)])
  have dist: "distinct (ns @ ms)" using chain_okD(2) [OF m(1)] by (simp add: edges_are_def)
  have good: "Hash sha p = Inr (p_ID p) \<and> Read (bucket_store bk) b' (p_ID p) = Inr p" if pp: "p \<in> set ?P" for p
  proof -
    obtain i where i: "i \<in> set (ns @ ms)" "p = proposalAt b' i" using pp unfolding set_map by blast
    obtain q where q: "p_ID q = i" "Read (bucket_store bk) b' i = Inr (reread q)" "Hash sha (reread q) = Inr i" "proposalAt b' i = reread q"
      using chain_proposal [OF m(1) i(1)] by blast
    then show ?thesis unfolding i(2) q(4) by (simp add: reread_links)
  qed
  have ended: "p_ID p \<in> p_ID ` set ?P" if "Ended p (Inr ()) \<in> set cs'" for p
  proof -
    have "p_ID p \<in> set (ns @ ms)" using m(2) that by force
    then have "p_ID p \<in> set (map p_ID ?P)" by (subst ids)
    then show ?thesis by (simp only: set_map)
  qed
  have split: "?P = map (proposalAt b') ns @ map (proposalAt b') ms" by (rule map_append)
  have "Chain (bucket_store bk) b = Some (Inr (map (proposalAt b') ns))" using chain_Chain [OF n(1)] old by (simp only:)
  moreover have "Chain (bucket_store bk) b' = Some (Inr ?P)" by (rule chain_Chain [OF m(1)])
  moreover have "links [] ?P" by (rule chain_links(1) [OF m(1), of _ "[]"]) simp
  moreover have "distinct (map p_ID ?P)" unfolding ids by (rule dist)
  moreover have "\<forall>p \<in> set ?P. Hash sha p = Inr (p_ID p) \<and> Read (bucket_store bk) b' (p_ID p) = Inr p" using good by blast
  moreover have "\<forall>p. Ended p (Inr ()) \<in> set cs' \<longrightarrow> p_ID p \<in> p_ID ` set ?P" using ended by blast
  ultimately show ?thesis
    unfolding split by (intro exI [of _ "map (proposalAt b') ns"] exI [of _ "map (proposalAt b') ms"] conjI)
qed

end

text \<open>
  C2. The ledger in a bucket is append-only even if no lock is taken. Any number of appends make their calls to
  the bucket in any order, some stop half-way, apply records are written between them: at any two moments the
  walk of the chain returns what it returned at the earlier one followed by what was appended since, each
  entry's identifier is its hash and it names the one before it, none repeats, and an append that
  reported success has its proposal on the chain. The drafts are assumed not to be a collision of SHA-256.
\<close>

theorem concurrent_append_only:
  assumes "bucket bk bok" "\<And>x. IsHash (sha x)" "collision_free sha Ps" "bok b0" "\<And>k. bk_ReadAll bk b0 k = Inl NotFound"
    and "(race_step sha bk Ps)\<^sup>*\<^sup>* (b0, []) (b, cs)" "(race_step sha bk Ps)\<^sup>*\<^sup>* (b, cs) (b', cs')"
  shows "\<exists>ps more. Chain (bucket_store bk) b = Some (Inr ps) \<and> Chain (bucket_store bk) b' = Some (Inr (ps @ more)) \<and>
    links [] (ps @ more) \<and> distinct (map p_ID (ps @ more)) \<and>
    (\<forall>p \<in> set (ps @ more). Hash sha p = Inr (p_ID p) \<and> Read (bucket_store bk) b' (p_ID p) = Inr p) \<and>
    (\<forall>p. Ended p (Inr ()) \<in> set cs' \<longrightarrow> p_ID p \<in> p_ID ` set (ps @ more))"
  by (rule bucket.race_outcome [OF assms])

text \<open>Two machines accept two drafts on the empty ledger: both write their proposals, one gets the edge.\<close>

definition sample_rival :: Proposal where
  "sample_rival = sample_adoption\<lparr>p_Stack := ''ss''\<rparr>"

definition race_sha :: "string \<Rightarrow> string" where
  "race_sha s = replicate 64 (if even (length s) then CHR ''a'' else CHR ''b'')"

definition sample_ids :: "string \<times> string" where
  "sample_ids = (replicate 64 (CHR ''a''), replicate 64 (CHR ''b''))"

lemma sample_hashes:
  "validateAndHash race_sha sample_adoption = Inr (fst sample_ids)"
  "validateAndHash race_sha sample_rival = Inr (snd sample_ids)"
  by code_simp+

definition raced :: "Proposal \<Rightarrow> string \<Rightarrow> Proposal" where
  "raced d h = finalized d h
     \<lparr>ac_Method = ''local'', ac_Platform = [], ac_MergeSHA = [], ac_PRNumber = 0, ac_ProposalFile = [],
      ac_Approvers = [''ann''], ac_ReviewComment = [], ac_AcceptedAt = ''now''\<rparr>"

text \<open>The calls of a list of appends in a given order, as an execution.\<close>

fun raceCalls :: "'b bucket_ops \<Rightarrow> nat list \<Rightarrow> 'b race \<Rightarrow> 'b race" where
  "raceCalls bk [] s = s"
| "raceCalls bk (i # is) (b, cs) =
     (if i < length cs then case appendCall bk b (cs ! i) of (pc, b') \<Rightarrow> raceCalls bk is (b', cs[i := pc]) else (b, cs))"

lemma raceCalls_steps: "(race_step sha bk Ps)\<^sup>*\<^sup>* s (raceCalls bk is s)"
proof (induction bk "is" s rule: raceCalls.induct)
  case (2 bk i "is" b cs)
  show ?case
  proof (cases "i < length cs")
    case True
    obtain pc b' where c: "appendCall bk b (cs ! i) = (pc, b')" by (cases "appendCall bk b (cs ! i)")
    have "race_step sha bk Ps (b, cs) (b', cs[i := pc])" by (rule race_step.call [OF True c])
    moreover have "(race_step sha bk Ps)\<^sup>*\<^sup>* (b', cs[i := pc]) (raceCalls bk is (b', cs[i := pc]))"
      using 2 True c by simp
    ultimately show ?thesis using True c by (simp add: converse_rtranclp_into_rtranclp)
  qed simp
qed simp

definition sample_race :: "mem race" where
  "sample_race = ([], [startAppend (raced sample_adoption (fst sample_ids)), startAppend (raced sample_rival (snd sample_ids))])"

definition sample_order :: "nat list" where
  "sample_order = [0, 1, 0, 1, 0, 1, 0, 1, 1, 0, 1]"

lemma sample_race_runs:
  "map (\<lambda>pc. case pc of Ended p r \<Rightarrow> (p_Stack p, r) | _ \<Rightarrow> ([], Inl EPanic)) (snd (raceCalls mem_bucket sample_order sample_race)) =
   [(''s'', Inl ErrStoreHeadMoved), (''ss'', Inr ())]"
  by code_simp

lemma sample_race_reached:
  "(race_step race_sha mem_bucket {sample_adoption, sample_rival})\<^sup>*\<^sup>* ([], []) sample_race"
proof -
  let ?R = "race_step race_sha mem_bucket {sample_adoption, sample_rival}"
  have "?R ([], []) ([], [] @ [startAppend (raced sample_adoption (fst sample_ids))])"
    "?R ([], [startAppend (raced sample_adoption (fst sample_ids))]) ([], [startAppend (raced sample_adoption (fst sample_ids))] @ [startAppend (raced sample_rival (snd sample_ids))])"
    unfolding raced_def by (intro race_step.accept sample_hashes; simp)+
  then show ?thesis unfolding sample_race_def by simp
qed

lemma sample_race_free: "collision_free race_sha {sample_adoption, sample_rival}"
proof -
  have "Hash race_sha sample_adoption = Inr (fst sample_ids)" "Hash race_sha sample_rival = Inr (snd sample_ids)"
    using sample_hashes validateAndHash_Hash(1) by blast+
  moreover have "fst sample_ids \<noteq> snd sample_ids" by (simp add: sample_ids_def)
  ultimately have "Hash race_sha sample_adoption \<noteq> Hash race_sha sample_rival" by simp
  then show ?thesis by (simp add: collision_free_def)
qed

lemma race_sample_run:
  "(race_step race_sha mem_bucket {sample_adoption, sample_rival})\<^sup>*\<^sup>* ([], [])
     (fst (raceCalls mem_bucket is sample_race), snd (raceCalls mem_bucket is sample_race))"
  using rtranclp_trans [OF sample_race_reached raceCalls_steps] by simp

lemma IsHash_race_sha: "IsHash (race_sha x)"
  by (simp add: IsHash_def race_sha_def list_all_iff is_hex_def is_digit_def less_eq_char_def)

lemma mem_empty: "bk_ReadAll mem_bucket [] k = Inl NotFound"
  by (simp add: mem_reads)

lemma concurrent_append_only_witness:
  "\<exists>ps more. Chain (bucket_store mem_bucket) [] = Some (Inr ps) \<and>
    Chain (bucket_store mem_bucket) (fst (raceCalls mem_bucket sample_order sample_race)) = Some (Inr (ps @ more)) \<and>
    links [] (ps @ more) \<and> distinct (map p_ID (ps @ more))"
  using concurrent_append_only [OF mem.bucket_axioms IsHash_race_sha sample_race_free amap_wf_Nil mem_empty
      rtranclp.rtrancl_refl race_sample_run] by blast

text \<open>
  Append as the concurrent runs take it apart is Append: left to itself on a bucket of a ledger, the calls
  end with what core/ledger.go's Append returns over that store, and leave the bucket it leaves.
\<close>

theorem append_calls_refine:
  assumes "bucket bk bok" "bucket_ok bk bok b" "Append (bucket_store bk) b p = (r, b')"
  shows "runs bk (startAppend p, b) (Ended p r, b')"
  using bucket.append_alone [OF assms(1, 2), of p] assms(3) by simp

lemma append_calls_refine_witness:
  "runs mem_bucket (startAppend (raced sample_rival (snd sample_ids)), [])
     (Ended (raced sample_rival (snd sample_ids)) (fst (Append (bucket_store mem_bucket) [] (raced sample_rival (snd sample_ids)))),
      snd (Append (bucket_store mem_bucket) [] (raced sample_rival (snd sample_ids))))"
proof (rule append_calls_refine [OF mem.bucket_axioms])
  show "bucket_ok mem_bucket amap_wf []"
    by (auto simp: bucket_ok_def edges_are_def readEdge_def hintStart_def mem_reads intro!: exI [of _ "[]"])
qed simp

end
