(* ===== verification/BucketGC.thy ===== *)
theory BucketGC
  imports BucketRace
begin

text \<open>
  ledgerstore/gc.go and the command of cli/storegc.go: which stored proposals no head leads to, and
  their removal. Nothing here takes the ledger's lock, and neither does the code.
\<close>

section \<open>Orphans\<close>

partial_function (option) reachableFrom :: "'b bucket_ops \<Rightarrow> 'b \<Rightarrow> string \<Rightarrow> string list \<Rightarrow> (err, string list) res option" where
  "reachableFrom bk b current ids = (case readEdge bk b current of
      Inl e \<Rightarrow> Some (Inl e)
    | Inr None \<Rightarrow> Some (Inr ids)
    | Inr (Some n) \<Rightarrow> reachableFrom bk b n (ids @ [n]))"

definition reachableProposalIDs :: "'b bucket_ops \<Rightarrow> 'b \<Rightarrow> (err, string list) res option" where
  "reachableProposalIDs bk b = reachableFrom bk b [] []"

definition cutPrefix :: "string \<Rightarrow> string \<Rightarrow> string option" where
  "cutPrefix s p = (if prefix p s then Some (drop (length p) s) else None)"

definition cutSuffix :: "string \<Rightarrow> string \<Rightarrow> string option" where
  "cutSuffix s p = (if suffix p s then Some (take (length s - length p) s) else None)"

definition proposalIDFromKey :: "string \<Rightarrow> string option" where
  "proposalIDFromKey key = (case cutPrefix key proposalsPrefix of
      None \<Rightarrow> None | Some rest \<Rightarrow> cutSuffix rest ''.prop.json'')"

definition OrphanedProposals :: "'b bucket_ops \<Rightarrow> 'b \<Rightarrow> (err, string list) res option" where
  "OrphanedProposals bk b = (case reachableProposalIDs bk b of
      None \<Rightarrow> None
    | Some (Inl e) \<Rightarrow> Some (Inl e)
    | Some (Inr reachable) \<Rightarrow> (case bk_List bk b proposalsPrefix of
        Inl e \<Rightarrow> Some (Inl (gc_err e))
      | Inr ks \<Rightarrow> Some (Inr (sort (filter (\<lambda>i. i \<notin> set reachable)
          (concat (map (\<lambda>k. case proposalIDFromKey k of None \<Rightarrow> [] | Some i \<Rightarrow> [i]) ks)))))))"

text \<open>A key that is not there was deleted by somebody else, which is fine.\<close>

definition DeleteProposal :: "'b bucket_ops \<Rightarrow> 'b \<Rightarrow> string \<Rightarrow> (err, 'b) res" where
  "DeleteProposal bk b i = (case bk_Delete bk b (proposalKey i) of
      Inl e \<Rightarrow> if e = NotFound then Inr b else Inl (gc_err e)
    | Inr b' \<Rightarrow> Inr b')"

section \<open>ubx store gc\<close>

text \<open>What the command counts: how many it deleted, and how many it skipped.\<close>

fun gcDelete :: "'b bucket_ops \<Rightarrow> string list \<Rightarrow> string list \<Rightarrow> nat \<times> nat \<Rightarrow> 'b \<Rightarrow> (err, nat \<times> nat) res \<times> 'b" where
  "gcDelete bk fresh [] c b = (Inr c, b)"
| "gcDelete bk fresh (i # is) c b =
     (if i \<notin> set fresh then gcDelete bk fresh is (fst c, snd c + 1) b
      else case DeleteProposal bk b i of
        Inl e \<Rightarrow> (Inl e, b)
      | Inr b' \<Rightarrow> gcDelete bk fresh is (fst c + 1, snd c) b')"

text \<open>
  What the command does once it has listed the orphans, and the whole of it when nothing comes between.
  \<open>yes\<close> is the flag; without it nothing is deleted.
\<close>

definition gcAfterListing :: "'b bucket_ops \<Rightarrow> string list \<Rightarrow> bool \<Rightarrow> 'b \<Rightarrow> ((err, nat \<times> nat) res \<times> 'b) option" where
  "gcAfterListing bk orphans yes b =
     (if orphans = [] \<or> \<not> yes then Some (Inr (0, 0), b)
      else case OrphanedProposals bk b of
        None \<Rightarrow> None
      | Some (Inl e) \<Rightarrow> Some (Inl e, b)
      | Some (Inr fresh) \<Rightarrow> Some (gcDelete bk fresh orphans (0, 0) b))"

definition storeGC :: "'b bucket_ops \<Rightarrow> bool \<Rightarrow> 'b \<Rightarrow> ((err, nat \<times> nat) res \<times> 'b) option" where
  "storeGC bk yes b = (case OrphanedProposals bk b of
      None \<Rightarrow> None
    | Some (Inl e) \<Rightarrow> Some (Inl e, b)
    | Some (Inr orphans) \<Rightarrow> gcAfterListing bk orphans yes b)"

section \<open>What is an orphan\<close>

lemma proposalIDFromKey_iff: "proposalIDFromKey k = Some i \<longleftrightarrow> k = proposalKey i"
proof
  assume "proposalIDFromKey k = Some i"
  then obtain rest where r: "k = proposalsPrefix @ rest" "cutSuffix rest ''.prop.json'' = Some i"
    by (auto simp: proposalIDFromKey_def cutPrefix_def prefix_def split: option.splits if_splits)
  then obtain zs where "rest = zs @ ''.prop.json''" "i = take (length rest - 10) rest"
    by (auto simp: cutSuffix_def suffix_def split: if_splits)
  then show "k = proposalKey i" using r(1) by (simp add: proposalKey_def)
next
  assume "k = proposalKey i"
  then show "proposalIDFromKey k = Some i"
    by (simp add: proposalIDFromKey_def proposalKey_def cutPrefix_def cutSuffix_def suffix_def)
qed

lemma reachable_suffix:
  assumes "edges_are bk b ns" "[] # ns = xs @ c # ys"
  shows "reachableFrom bk b c ids = Some (Inr (ids @ ys))"
  using assms(2)
proof (induction ys arbitrary: xs c ids)
  case Nil
  then have "c = tip ns" unfolding tip_def by simp
  then show ?case using edges_tip(2) [OF assms(1)] by (simp add: reachableFrom.simps)
next
  case (Cons y ys)
  have "readEdge bk b c = Inr (Some y)" by (rule edges_next [OF assms(1) Cons.prems])
  then show ?case using Cons.IH [of "xs @ [c]" y] Cons.prems by (simp add: reachableFrom.simps [of bk b c])
qed

lemma reachable_path: "edges_are bk b ns \<Longrightarrow> reachableProposalIDs bk b = Some (Inr ns)"
  using reachable_suffix [of bk b ns "[]" "[]" ns] by (simp add: reachableProposalIDs_def)

context bucket begin

lemma orphans_are:
  assumes "bok b" "edges_are bk b ns"
  shows "\<exists>os. OrphanedProposals bk b = Some (Inr os) \<and> sorted os \<and> distinct os \<and>
    (\<forall>i. i \<in> set os \<longleftrightarrow> has_proposal bk b i \<and> i \<notin> set ns)"
proof -
  obtain ks where k: "bk_List bk b proposalsPrefix = Inr ks \<and> distinct ks \<and>
      (\<forall>k. k \<in> set ks \<longleftrightarrow> prefix proposalsPrefix k \<and> bk_ReadAll bk b k \<noteq> Inl NotFound)"
    using bk_list [OF assms(1)] ..
  let ?f = "\<lambda>k. case proposalIDFromKey k of None \<Rightarrow> [] | Some i \<Rightarrow> [i]"
  have f: "i \<in> set (?f k) \<longleftrightarrow> k = proposalKey i" for i k
    using proposalIDFromKey_iff [of k i] by (auto split: option.splits)
  have mem: "i \<in> set (concat (map ?f ks)) \<longleftrightarrow> has_proposal bk b i" for i
  proof -
    have "i \<in> set (concat (map ?f ks)) \<longleftrightarrow> (\<exists>k \<in> set ks. i \<in> set (?f k))" unfolding set_concat set_map by blast
    also have "\<dots> \<longleftrightarrow> proposalKey i \<in> set ks" unfolding f by blast
    finally have "i \<in> set (concat (map ?f ks)) \<longleftrightarrow> proposalKey i \<in> set ks" .
    then show ?thesis using k by (simp add: has_proposal_def proposalKey_def)
  qed
  have "distinct (concat (map ?f ls))" if "distinct ls" for ls
    using that
  proof (induction ls)
    case (Cons k ls)
    have "set (?f k) \<inter> set (concat (map ?f ls)) = {}"
    proof -
      have "False" if i: "i \<in> set (?f k)" "i \<in> set (concat (map ?f ls))" for i
      proof -
        obtain l where l: "l \<in> set ls" "i \<in> set (?f l)" using i(2) unfolding set_concat set_map by blast
        have "k = proposalKey i" "l = proposalKey i" using i(1) l(2) unfolding f .
        then show False using l(1) Cons.prems by simp
      qed
      then show ?thesis by (meson disjoint_iff)
    qed
    moreover have "distinct (?f k)" by (simp split: option.splits)
    moreover have "distinct (concat (map ?f ls))" using Cons by simp
    ultimately show ?case by (simp del: set_concat)
  qed simp
  then have "distinct (concat (map ?f ks))" using k by blast
  then show ?thesis
    using k mem by (simp add: OrphanedProposals_def reachable_path [OF assms(2)] del: set_concat)
qed

lemma delete_one:
  assumes "bok b" shows "\<exists>b'. DeleteProposal bk b i = Inr b' \<and> bok b' \<and>
    bk_ReadAll bk b' = (bk_ReadAll bk b)(proposalKey i := Inl NotFound)"
proof (cases "bk_ReadAll bk b (proposalKey i) = Inl NotFound")
  case True
  then show ?thesis using bk_absent [OF assms True] assms by (simp add: DeleteProposal_def fun_upd_idem)
next
  case False
  then obtain x where "bk_ReadAll bk b (proposalKey i) = Inr x" using bk_read [OF assms] by blast
  then show ?thesis using bk_delete [OF assms, of "proposalKey i" x] by (auto simp: DeleteProposal_def)
qed

lemma gcDelete_runs:
  assumes "bok b" "set is \<subseteq> set fresh"
  shows "\<exists>b'. gcDelete bk fresh is c b = (Inr (fst c + length is, snd c), b') \<and> bok b' \<and>
    (\<forall>k. bk_ReadAll bk b' k = (if k \<in> proposalKey ` set is then Inl NotFound else bk_ReadAll bk b k))"
  using assms
proof (induction "is" arbitrary: b c)
  case (Cons i "is")
  obtain b1 where b1: "DeleteProposal bk b i = Inr b1" "bok b1" "bk_ReadAll bk b1 = (bk_ReadAll bk b)(proposalKey i := Inl NotFound)"
    using delete_one [OF Cons.prems(1)] by blast
  have "set is \<subseteq> set fresh" using Cons.prems(2) by simp
  then obtain b2 where "gcDelete bk fresh is (fst c + 1, snd c) b1 = (Inr (fst c + 1 + length is, snd c), b2)" "bok b2"
      "\<forall>k. bk_ReadAll bk b2 k = (if k \<in> proposalKey ` set is then Inl NotFound else bk_ReadAll bk b1 k)"
    using Cons.IH [OF b1(2), of "(fst c + 1, snd c)"] by auto
  then show ?case using Cons.prems(2) b1(1, 3) by auto
qed simp

lemma gc_outcome:
  assumes "bok b" "edges_are bk b ns"
  shows "\<exists>os b'. OrphanedProposals bk b = Some (Inr os) \<and> (\<forall>i. i \<in> set os \<longleftrightarrow> has_proposal bk b i \<and> i \<notin> set ns) \<and>
    storeGC bk True b = Some (Inr (length os, 0), b') \<and> bok b' \<and>
    (\<forall>k. bk_ReadAll bk b' k = (if k \<in> proposalKey ` set os then Inl NotFound else bk_ReadAll bk b k))"
proof -
  obtain os where os: "OrphanedProposals bk b = Some (Inr os)" "\<forall>i. i \<in> set os \<longleftrightarrow> has_proposal bk b i \<and> i \<notin> set ns"
    using orphans_are [OF assms] by blast
  obtain b' where b': "gcDelete bk os os (0, 0) b = (Inr (length os, 0), b')" "bok b'"
      "\<forall>k. bk_ReadAll bk b' k = (if k \<in> proposalKey ` set os then Inl NotFound else bk_ReadAll bk b k)"
    using gcDelete_runs [OF assms(1), of os os "(0, 0)"] by auto
  have "storeGC bk True b = Some (Inr (length os, 0), b')"
  proof (cases "os = []")
    case True
    then have "b' = b" using b'(1) by simp
    then show ?thesis by (simp add: storeGC_def gcAfterListing_def os(1) True)
  next
    case False
    then show ?thesis by (simp add: storeGC_def gcAfterListing_def os(1) b'(1))
  qed
  then show ?thesis using os b' by blast
qed

lemma gc_chain:
  assumes c: "chain_ok sha bk bok Ps b ns" and b': "bok b'"
    "\<forall>k. bk_ReadAll bk b' k = (if k \<in> proposalKey ` os then Inl NotFound else bk_ReadAll bk b k)" "os \<inter> set ns = {}"
  shows "chain_ok sha bk bok Ps b' ns \<and> (\<forall>n \<in> set ns. proposalAt b' n = proposalAt b n)"
proof -
  have k: "headEdgeKey p \<notin> proposalKey ` os" "headHintKey \<notin> proposalKey ` os" for p by auto
  have same: "readEdge bk b' p = readEdge bk b p" "hintStart bk b' = hintStart bk b" for p
    by (rule same_reads, simp add: b'(2) k)+
  have old: "bk_ReadAll bk b' (proposalKey n) = bk_ReadAll bk b (proposalKey n)" if "n \<in> set ns" for n
    using that b'(2, 3) by auto
  have sub: "bk_ReadAll bk b (proposalKey i) = Inr x" if "bk_ReadAll bk b' (proposalKey i) = Inr x" for i x
    using that b'(2) by (simp split: if_splits)
  have "chain_ok sha bk bok Ps b' ns"
    unfolding chain_ok_def
  proof (intro conjI allI impI)
    show "edges_are bk b' ns" "\<exists>h \<in> set ([] # ns). hintStart bk b' = Inr h"
      using chain_okD(2, 3) [OF c] same by (simp_all add: edges_are_def)
    show "\<forall>n \<in> set ns. has_proposal bk b' n" using chain_okD(4) [OF c] old by (simp add: has_proposal_def)
    show "\<exists>p. x = Doc (PropBlob p) \<and> accepted_form sha Ps p \<and> p_ID p = i" if "bk_ReadAll bk b' (proposalKey i) = Inr x" for i x
      by (rule chain_read(1) [OF c sub [OF that]])
    show "p_Parent p = tip xs" if "ns = xs @ n # ys" "bk_ReadAll bk b' (proposalKey n) = Inr (Doc (PropBlob p))" for xs n ys p
      by (rule chain_okD(5) [OF c that(1) sub [OF that(2)]])
  qed (rule b'(1))
  then show ?thesis using old by (simp add: proposalAt_def Read_def bucket_ReadProposal_def)
qed

lemma gc_keeps:
  assumes c: "chain_ok sha bk bok Ps b ns"
  shows "\<exists>os b'. storeGC bk True b = Some (Inr (length os, 0), b') \<and> OrphanedProposals bk b = Some (Inr os) \<and>
    (\<forall>i. i \<in> set os \<longleftrightarrow> has_proposal bk b i \<and> i \<notin> set ns) \<and> OrphanedProposals bk b' = Some (Inr []) \<and>
    chain_ok sha bk bok Ps b' ns \<and> Chain (bucket_store bk) b' = Chain (bucket_store bk) b"
proof -
  obtain os b' where o: "OrphanedProposals bk b = Some (Inr os)" "\<forall>i. i \<in> set os \<longleftrightarrow> has_proposal bk b i \<and> i \<notin> set ns"
      "storeGC bk True b = Some (Inr (length os, 0), b')" "bok b'"
      "\<forall>k. bk_ReadAll bk b' k = (if k \<in> proposalKey ` set os then Inl NotFound else bk_ReadAll bk b k)"
    using gc_outcome [OF chain_okD(1, 2) [OF c]] by blast
  have "set os \<inter> set ns = {}" using o(2) by blast
  then have c': "chain_ok sha bk bok Ps b' ns" "\<forall>n \<in> set ns. proposalAt b' n = proposalAt b n"
    using gc_chain [OF c o(4, 5)] by blast+
  obtain os' where o': "OrphanedProposals bk b' = Some (Inr os')" "\<forall>i. i \<in> set os' \<longleftrightarrow> has_proposal bk b' i \<and> i \<notin> set ns"
    using orphans_are [OF chain_okD(1, 2) [OF c'(1)]] by blast
  have "i \<notin> set os'" for i
  proof
    assume "i \<in> set os'"
    then have "has_proposal bk b' i" "i \<notin> set ns" using o'(2) by simp_all
    moreover from this have "has_proposal bk b i" using o(5) by (auto simp: has_proposal_def split: if_splits)
    ultimately have "i \<in> set os" using o(2) by simp
    then show False using \<open>has_proposal bk b' i\<close> o(5) by (simp add: has_proposal_def)
  qed
  then have "os' = []" by (cases os') auto
  moreover have "Chain (bucket_store bk) b' = Chain (bucket_store bk) b"
    using chain_Chain [OF c] chain_Chain [OF c'(1)] c'(2) by simp
  ultimately show ?thesis using o o' c' by blast
qed

text \<open>An append that has written its proposal and not yet its edge.\<close>

lemma gc_loses:
  assumes c: "chain_ok sha bk bok Ps b ns" and pc: "pc_ok sha bk Ps b ns (Linking p head)" and h: "bucket_Head bk b = Some (Inr head)"
    and hash: "\<And>x. IsHash (sha x)" and inj: "collision_free sha Ps"
  shows "\<exists>n b1 b2. storeGC bk True b = Some (Inr (n, 0), b1) \<and> runs bk (Linking p head, b1) (Ended p (Inr ()), b2) \<and>
    Chain (bucket_store bk) b2 = Some (Inl ErrBrokenLedgerHead)"
proof -
  obtain g where "g \<in> set ([] # ns)" "hintStart bk b = Inr g" using chain_okD(3) [OF c] by blast
  then have tip: "head = tip ns" using resolve_path [OF chain_okD(2) [OF c]] h by (simp add: bucket_Head_def)
  have p: "accepted_form sha Ps p" "p_Parent p = head" "head \<in> set ([] # ns)" "has_proposal bk b (p_ID p)" using pc by simp_all
  obtain d0 where "validateAndHash sha d0 = Inr (p_ID p)" using p(1) unfolding accepted_form_def by blast
  then have "Hash sha d0 = Inr (p_ID p)" by (rule validateAndHash_Hash(1))
  then have id: "IsHash (p_ID p)" using hash by (metis Hash_Inr)
  have new: "p_ID p \<notin> set ns"
  proof
    assume m: "p_ID p \<in> set ns"
    then obtain xs ys where x: "ns = xs @ p_ID p # ys" by (meson split_list)
    obtain q where q: "bk_ReadAll bk b (proposalKey (p_ID p)) = Inr (Doc (PropBlob q))" "accepted_form sha Ps q" "p_ID q = p_ID p"
      using chain_read(2) [OF c p(4)] by blast
    have "p_Parent p = tip xs" using accepted_form_parent [OF q(2) p(1) q(3) inj] chain_okD(5) [OF c x q(1)] by simp
    then have "tip ns = tip xs" using tip p(2) by simp
    moreover have "distinct ([] # ns)" by (rule edges_tip(3) [OF chain_okD(2) [OF c]])
    ultimately show False unfolding x tip_def by (cases xs rule: rev_cases; cases ys rule: rev_cases) auto
  qed
  obtain os b1 where o: "storeGC bk True b = Some (Inr (length os, 0), b1)" "OrphanedProposals bk b = Some (Inr os)"
      "\<forall>i. i \<in> set os \<longleftrightarrow> has_proposal bk b i \<and> i \<notin> set ns" "chain_ok sha bk bok Ps b1 ns" "OrphanedProposals bk b1 = Some (Inr [])"
    using gc_keeps [OF c] by blast
  obtain os1 where "OrphanedProposals bk b1 = Some (Inr os1)" "\<forall>i. i \<in> set os1 \<longleftrightarrow> has_proposal bk b1 i \<and> i \<notin> set ns"
    using orphans_are [OF chain_okD(1, 2) [OF o(4)]] by blast
  then have gone: "\<not> has_proposal bk b1 (p_ID p)" using o(5) new by auto
  obtain b2 where b2: "writeEdge bk b1 (tip ns) (p_ID p) = Inr b2" "bok b2" "edges_are bk b2 (ns @ [p_ID p])"
      "bk_ReadAll bk b2 = (bk_ReadAll bk b1)(headEdgeKey (tip ns) := Inr (Text (p_ID p)))"
    using edge_written [OF chain_okD(1, 2) [OF o(4)] id new] by blast
  let ?b3 = "writeHint bk b2 (p_ID p)"
  note hb = hint_written [OF b2(2), of "p_ID p"]
  have run: "runs bk (Linking p head, b1) (Ended p (Inr ()), ?b3)"
    by (rule runs_step, simp add: tip b2(1), rule runs_step, simp add: runs_refl)
  have "readEdge bk ?b3 q = readEdge bk b2 q" for q by (rule same_reads) (simp add: hb)
  then have e3: "edges_are bk ?b3 (ns @ [p_ID p])" using b2(3) by (simp add: edges_are_def)
  have "hintStart bk ?b3 = Inr (p_ID p)" using id by (simp add: hintStart_def hb text_of_def TrimSpace_hash)
  then have head3: "so_Head (bucket_store bk) ?b3 = Inr (p_ID p)" using resolve_path [OF e3, of "p_ID p"] by (simp add: bucket_Head_def)
  have "bk_ReadAll bk ?b3 (proposalKey (p_ID p)) = Inl NotFound" using gone by (simp add: hb b2(4) has_proposal_def)
  then have "Read (bucket_store bk) ?b3 (p_ID p) = Inl ErrProposalNotFound" by (simp add: Read_def bucket_ReadProposal_def)
  moreover have "p_ID p \<noteq> []" using id by auto
  ultimately have "Chain (bucket_store bk) ?b3 = Some (Inl ErrBrokenLedgerHead)"
    unfolding Chain_def ChainFrom_def head3 by (simp add: chain_loop.simps)
  then show ?thesis using o(1) run by blast
qed

end

text \<open>
  ubx store gc deletes exactly the stored proposals that no head leads to. On a bucket that concurrent
  appends have written, with none of them at work, it leaves the chain as it was and no orphan.
\<close>

theorem gc_exact:
  assumes "bucket bk bok" "\<And>x. IsHash (sha x)" "collision_free sha Ps" "bok b0" "\<And>k. bk_ReadAll bk b0 k = Inl NotFound"
    and "(race_step sha bk Ps)\<^sup>*\<^sup>* (b0, []) (b, cs)"
  shows "\<exists>ps os b'. Chain (bucket_store bk) b = Some (Inr ps) \<and> OrphanedProposals bk b = Some (Inr os) \<and>
    (\<forall>i. i \<in> set os \<longleftrightarrow> bucket_ReadProposal bk b i \<noteq> Inl ErrStoreObjectNotFound \<and> i \<notin> p_ID ` set ps) \<and>
    storeGC bk True b = Some (Inr (length os, 0), b') \<and> Chain (bucket_store bk) b' = Some (Inr ps) \<and>
    OrphanedProposals bk b' = Some (Inr [])"
proof -
  obtain ns where c: "chain_ok sha bk bok Ps b ns"
    using bucket.race_extends [OF assms(1, 6) bucket.chain_empty [OF assms(1, 4, 5)] _ assms(2, 3)] by auto
  have ids: "map p_ID (map (bucket.proposalAt bk b) ns) = ns" by (rule bucket.chain_links(2) [OF assms(1) c])
  have "p_ID ` set (map (bucket.proposalAt bk b) ns) = set ns" using arg_cong [OF ids, of set] by (simp only: set_map)
  then show ?thesis
    using bucket.gc_keeps [OF assms(1) c] bucket.chain_Chain [OF assms(1) c] by (auto simp: has_proposal_def)
qed

lemma gc_exact_witness:
  "\<exists>ps os b'. Chain (bucket_store mem_bucket) (fst (raceCalls mem_bucket sample_order sample_race)) = Some (Inr ps) \<and>
    OrphanedProposals mem_bucket (fst (raceCalls mem_bucket sample_order sample_race)) = Some (Inr os) \<and>
    storeGC mem_bucket True (fst (raceCalls mem_bucket sample_order sample_race)) = Some (Inr (length os, 0), b') \<and>
    Chain (bucket_store mem_bucket) b' = Some (Inr ps) \<and> OrphanedProposals mem_bucket b' = Some (Inr [])"
  using gc_exact [OF mem.bucket_axioms IsHash_race_sha sample_race_free amap_wf_Nil mem_empty race_sample_run [of sample_order]] by blast

text \<open>
  C10. ubx store gc takes no lock, and an append has stored its proposal before it writes the edge to it. When
  the command runs between the two it deletes that proposal, the append still reports success, and the head
  of the ledger then names a proposal that is gone: the chain cannot be read any more.
\<close>

theorem gc_breaks_append:
  assumes "bucket bk bok" "\<And>x. IsHash (sha x)" "collision_free sha Ps" "bok b0" "\<And>k. bk_ReadAll bk b0 k = Inl NotFound"
    and "(race_step sha bk Ps)\<^sup>*\<^sup>* (b0, []) (b, cs)" "Linking p head \<in> set cs" "bucket_Head bk b = Some (Inr head)"
  shows "\<exists>n b1 b2. storeGC bk True b = Some (Inr (n, 0), b1) \<and> runs bk (Linking p head, b1) (Ended p (Inr ()), b2) \<and>
    Chain (bucket_store bk) b2 = Some (Inl ErrBrokenLedgerHead)"
proof -
  obtain ns where c: "chain_ok sha bk bok Ps b ns" "\<forall>pc \<in> set cs. pc_ok sha bk Ps b ns pc"
    using bucket.race_extends [OF assms(1, 6) bucket.chain_empty [OF assms(1, 4, 5)] _ assms(2, 3)] by auto
  show ?thesis by (rule bucket.gc_loses [OF assms(1) c(1) bspec [OF c(2) assms(7)] assms(8, 2, 3)])
qed

lemma gc_breaks_append_witness:
  "\<exists>n b1 b2. storeGC mem_bucket True (fst (raceCalls mem_bucket [0, 0, 0, 0] sample_race)) = Some (Inr (n, 0), b1) \<and>
    runs mem_bucket (Linking (raced sample_adoption (fst sample_ids)) [], b1) (Ended (raced sample_adoption (fst sample_ids)) (Inr ()), b2) \<and>
    Chain (bucket_store mem_bucket) b2 = Some (Inl ErrBrokenLedgerHead)"
proof (rule gc_breaks_append [OF mem.bucket_axioms IsHash_race_sha sample_race_free amap_wf_Nil mem_empty
      race_sample_run [of "[0, 0, 0, 0]"]])
  show "Linking (raced sample_adoption (fst sample_ids)) [] \<in> set (snd (raceCalls mem_bucket [0, 0, 0, 0] sample_race))"
    by code_simp
  show "bucket_Head mem_bucket (fst (raceCalls mem_bucket [0, 0, 0, 0] sample_race)) = Some (Inr [])" by code_simp
qed

end
