(* ===== verification/BucketLock.thy ===== *)
theory BucketLock
  imports Bucket
begin

text \<open>
  ledgerstore/store.go's Lock: the lock object of a bucket and the callers that compete for it. Times are
  nanoseconds. A caller's loop is taken apart into its calls to the bucket; time passes between any two.
\<close>

section \<open>Lock and release\<close>

definition defaultLockTTL :: int where "defaultLockTTL = 2 * 60 * 10 ^ 9"
definition lockWaitTimeout :: int where "lockWaitTimeout = 30 * 10 ^ 9"

datatype lock_err = ErrLedgerLocked | LockStore err

text \<open>
  About to create the object, to look at the one that is there, to delete it, or to look at the clock and sleep;
  each with the caller's deadline. Then it holds the lock until the time it wrote down, or was refused.
\<close>

datatype lock_pc =
    Trying int
  | Inspecting int
  | Reclaiming int
  | Waiting int
  | Held int
  | Refused lock_err
  | Released

definition effectiveTTL :: "int \<Rightarrow> int" where
  "effectiveTTL ttl = (if ttl \<le> 0 then defaultLockTTL else ttl)"

definition startLock :: "int \<Rightarrow> lock_pc" where
  "startLock now = Trying (now + lockWaitTimeout)"

fun lockCall :: "'b bucket_ops \<Rightarrow> int \<Rightarrow> int \<Rightarrow> 'b \<Rightarrow> lock_pc \<Rightarrow> lock_pc \<times> 'b" where
  "lockCall bk ttl now b (Trying deadline) = (case bk_Create bk b lockKey (Lease (now + effectiveTTL ttl)) of
      Inr b' \<Rightarrow> (Held (now + effectiveTTL ttl), b')
    | Inl e \<Rightarrow> (if e \<noteq> FailedPrecondition then Refused (LockStore (gc_err e)) else Inspecting deadline, b))"
| "lockCall bk ttl now b (Inspecting deadline) = (case bk_ReadAll bk b lockKey of
      Inl _ \<Rightarrow> (Waiting deadline, b)
    | Inr x \<Rightarrow> (case x of
        Lease expiresAt \<Rightarrow> (if now > expiresAt then Reclaiming deadline else Waiting deadline, b)
      | _ \<Rightarrow> (Waiting deadline, b)))"
| "lockCall bk ttl now b (Reclaiming deadline) = (Trying deadline, case bk_Delete bk b lockKey of Inl _ \<Rightarrow> b | Inr b' \<Rightarrow> b')"
| "lockCall bk ttl now b (Waiting deadline) = (if now > deadline then Refused ErrLedgerLocked else Trying deadline, b)"
| "lockCall bk ttl now b pc = (pc, b)"

text \<open>The release function a holder is given: it deletes the lock object, whoever wrote it.\<close>

definition releaseLock :: "'b bucket_ops \<Rightarrow> 'b \<Rightarrow> (err, 'b) res" where
  "releaseLock bk b = (case bk_Delete bk b lockKey of Inl e \<Rightarrow> Inl (gc_err e) | Inr b' \<Rightarrow> Inr b')"

section \<open>Competing callers\<close>

type_synonym 'b locking = "'b \<times> int \<times> lock_pc list"

inductive lock_step :: "'b bucket_ops \<Rightarrow> int \<Rightarrow> 'b locking \<Rightarrow> 'b locking \<Rightarrow> bool"
  for bk :: "'b bucket_ops" and ttl :: int where
  enters: "lock_step bk ttl (b, now, cs) (b, now, cs @ [startLock now])"
| ticks: "now \<le> now' \<Longrightarrow> lock_step bk ttl (b, now, cs) (b, now', cs)"
| calls: "i < length cs \<Longrightarrow> lockCall bk ttl now b (cs ! i) = (pc, b') \<Longrightarrow> lock_step bk ttl (b, now, cs) (b', now, cs[i := pc])"
| releases: "i < length cs \<Longrightarrow> cs ! i = Held t \<Longrightarrow> releaseLock bk b = Inr b' \<Longrightarrow>
    lock_step bk ttl (b, now, cs) (b', now, cs[i := Released])"

definition holds :: "lock_pc \<Rightarrow> bool" where
  "holds pc \<longleftrightarrow> (case pc of Held _ \<Rightarrow> True | _ \<Rightarrow> False)"

lemma holds_simps [simp]:
  "holds (Held t)" "\<not> holds (Trying d)" "\<not> holds (Inspecting d)" "\<not> holds (Reclaiming d)" "\<not> holds (Waiting d)"
  "\<not> holds (Refused e)" "\<not> holds Released" "\<not> holds (startLock n)"
  by (simp_all add: holds_def startLock_def)

definition holders :: "lock_pc list \<Rightarrow> nat" where
  "holders cs = length (filter holds cs)"

lemma holders_update:
  "i < length cs \<Longrightarrow> holders (cs[i := pc]) + (if holds (cs ! i) then 1 else 0) = holders cs + (if holds pc then 1 else 0)"
  unfolding holders_def
proof (induction cs arbitrary: i)
  case (Cons c cs)
  then show ?case by (cases i) auto
qed simp

text \<open>
  Before the first lease can have run out, which is at \<open>T\<close>: nobody is about to delete the object, and the
  number of holders is one or none as the object is there or not.
\<close>

definition lock_inv :: "'b bucket_ops \<Rightarrow> ('b \<Rightarrow> bool) \<Rightarrow> int \<Rightarrow> 'b locking \<Rightarrow> bool" where
  "lock_inv bk bok T s = (case s of (b, now, cs) \<Rightarrow> bok b \<and> (\<forall>pc \<in> set cs. \<forall>d. pc \<noteq> Reclaiming d) \<and>
     (bk_ReadAll bk b lockKey = Inl NotFound \<and> holders cs = 0 \<or>
      (\<exists>t. bk_ReadAll bk b lockKey = Inr (Lease t) \<and> T \<le> t \<and> holders cs = 1)))"

context bucket begin

lemma lock_inv_step:
  assumes "lock_step bk ttl s s'" "lock_inv bk bok T s" and now: "fst (snd s) \<le> T" "T \<le> fst (snd s) + effectiveTTL ttl"
  shows "lock_inv bk bok T s'"
  using assms(1)
proof cases
  case (enters b now cs)
  then show ?thesis using assms(2) by (auto simp: lock_inv_def holders_def startLock_def)
next
  case (ticks now now' b cs)
  then show ?thesis using assms(2) by (simp add: lock_inv_def)
next
  case (calls i cs now b pc b')
  have ok: "bok b" "\<forall>pc \<in> set cs. \<forall>d. pc \<noteq> Reclaiming d"
    "bk_ReadAll bk b lockKey = Inl NotFound \<and> holders cs = 0 \<or>
     (\<exists>t. bk_ReadAll bk b lockKey = Inr (Lease t) \<and> T \<le> t \<and> holders cs = 1)"
    using assms(2) calls(1) by (auto simp: lock_inv_def)
  have n: "now \<le> T" "T \<le> now + effectiveTTL ttl" using now calls(1) by simp_all
  note hu = holders_update [OF calls(3), of pc]
  have mem: "\<forall>q \<in> set (cs[i := pc]). \<forall>d. q \<noteq> Reclaiming d" if "\<forall>d. pc \<noteq> Reclaiming d"
    using ok(2) that set_update_subset_insert [of cs i pc] by blast
  show ?thesis
  proof (cases "cs ! i")
    case (Trying d)
    show ?thesis
    proof (cases "bk_ReadAll bk b lockKey = Inl NotFound")
      case True
      obtain c where c: "bk_Create bk b lockKey (Lease (now + effectiveTTL ttl)) = Inr c" "bok c"
          "bk_ReadAll bk c = (bk_ReadAll bk b)(lockKey := Inr (Lease (now + effectiveTTL ttl)))"
        using bk_create [OF ok(1) True] by blast
      then have "pc = Held (now + effectiveTTL ttl)" "b' = c" using calls(4) Trying by simp_all
      then show ?thesis using calls(2) c ok(3) True n hu mem Trying by (simp add: lock_inv_def)
    next
      case False
      then obtain t where t: "bk_ReadAll bk b lockKey = Inr (Lease t)" "T \<le> t" "holders cs = 1" using ok(3) by blast
      then have "pc = Inspecting d" "b' = b" using calls(4) Trying bk_taken [OF ok(1) t(1)] by simp_all
      then show ?thesis using calls(2) ok(1) t hu mem Trying by (simp add: lock_inv_def)
    qed
  next
    case (Inspecting d)
    have "pc = Waiting d" "b' = b" using calls(4) Inspecting ok(3) n by (auto split: if_splits)
    then show ?thesis using calls(2) ok(1, 3) hu mem Inspecting by (simp add: lock_inv_def)
  next
    case (Reclaiming d)
    then have "Reclaiming d \<in> set cs" using calls(3) by (metis nth_mem)
    then show ?thesis using ok(2) by blast
  next
    case (Waiting d)
    then have "b' = b" "\<not> holds pc" "\<forall>e. pc \<noteq> Reclaiming e" using calls(4) by (auto split: if_splits)
    then show ?thesis using calls(2) ok(1, 3) hu mem Waiting by (simp add: lock_inv_def)
  qed (use calls ok hu mem in \<open>auto simp: lock_inv_def list_update_same_conv\<close>)
next
  case (releases i cs t b b' now)
  have ok: "bok b" "\<forall>pc \<in> set cs. \<forall>d. pc \<noteq> Reclaiming d"
    "bk_ReadAll bk b lockKey = Inl NotFound \<and> holders cs = 0 \<or>
     (\<exists>t. bk_ReadAll bk b lockKey = Inr (Lease t) \<and> T \<le> t \<and> holders cs = 1)"
    using assms(2) releases(1) by (auto simp: lock_inv_def)
  have "holders (cs[i := Released]) + 1 = holders cs" using holders_update [OF releases(3), of Released] releases(4) by simp
  then have h: "holders (cs[i := Released]) = 0" and r: "\<exists>t. bk_ReadAll bk b lockKey = Inr (Lease t)" using ok(3) by auto
  obtain u where "bk_ReadAll bk b lockKey = Inr (Lease u)" using r by blast
  then obtain c where "bk_Delete bk b lockKey = Inr c" "bok c" "bk_ReadAll bk c = (bk_ReadAll bk b)(lockKey := Inl NotFound)"
    using bk_delete [OF ok(1)] by blast
  then have "bok b'" "bk_ReadAll bk b' lockKey = Inl NotFound" using releases(5) by (simp_all add: releaseLock_def)
  moreover have "\<forall>q \<in> set (cs[i := Released]). \<forall>d. q \<noteq> Reclaiming d"
    using ok(2) set_update_subset_insert [of cs i Released] by blast
  ultimately show ?thesis using releases(2) h by (simp add: lock_inv_def)
qed

lemma lock_time: "(lock_step bk ttl)\<^sup>*\<^sup>* s s' \<Longrightarrow> fst (snd s) \<le> fst (snd s')"
proof (induction rule: rtranclp_induct)
  case (step t u)
  from step(2) have "fst (snd t) \<le> fst (snd u)" by cases auto
  then show ?case using step.IH by simp
qed simp

lemma lock_reach:
  assumes "(lock_step bk ttl)\<^sup>*\<^sup>* (b0, t0, []) s" "bok b0" "bk_ReadAll bk b0 lockKey = Inl NotFound"
  shows "fst (snd s) \<le> t0 + effectiveTTL ttl \<longrightarrow> lock_inv bk bok (t0 + effectiveTTL ttl) s"
  using assms(1)
proof (induction rule: rtranclp_induct)
  case base
  then show ?case using assms(2, 3) by (simp add: lock_inv_def holders_def)
next
  case (step t u)
  have a: "t0 \<le> fst (snd t)" using lock_time [OF step(1)] by simp
  have b: "fst (snd t) \<le> fst (snd u)" using lock_time [OF r_into_rtranclp [of "lock_step bk ttl", OF step(2)]] .
  show ?case
  proof
    assume "fst (snd u) \<le> t0 + effectiveTTL ttl"
    then show "lock_inv bk bok (t0 + effectiveTTL ttl) u"
      using lock_inv_step [OF step(2)] step.IH a b by simp
  qed
qed

end

text \<open>
  C40. Until the first lease can have run out, the lock of a bucket is held by at most one caller, whatever the
  callers do and in whatever order, and it is free again when its holder has released it.
\<close>

theorem lock_exclusive:
  assumes "bucket bk bok" "bok b0" "bk_ReadAll bk b0 lockKey = Inl NotFound"
    and "(lock_step bk ttl)\<^sup>*\<^sup>* (b0, t0, []) (b, now, cs)" "now \<le> t0 + effectiveTTL ttl"
  shows "holders cs \<le> 1 \<and> (holders cs = 0 \<longleftrightarrow> bk_ReadAll bk b lockKey = Inl NotFound)"
  using bucket.lock_reach [OF assms(1, 4, 2, 3)] assms(5) by (auto simp: lock_inv_def)

section \<open>An expired lease\<close>

text \<open>A schedule: the time that passes, then whose call comes next; a number beyond the callers is a new one.\<close>

fun lockRun :: "'b bucket_ops \<Rightarrow> int \<Rightarrow> (int \<times> nat) list \<Rightarrow> 'b locking \<Rightarrow> 'b locking" where
  "lockRun bk ttl [] s = s"
| "lockRun bk ttl ((d, i) # es) (b, now, cs) =
     (let now' = now + max 0 d
      in if i < length cs
         then case lockCall bk ttl now' b (cs ! i) of (pc, b') \<Rightarrow> lockRun bk ttl es (b', now', cs[i := pc])
         else lockRun bk ttl es (b, now', cs @ [startLock now']))"

lemma lockRun_steps: "(lock_step bk ttl)\<^sup>*\<^sup>* s (lockRun bk ttl es s)"
proof (induction bk ttl es s rule: lockRun.induct)
  case (2 bk ttl d i es b now cs)
  let ?n = "now + max 0 d"
  have t: "lock_step bk ttl (b, now, cs) (b, ?n, cs)" by (rule lock_step.ticks) simp
  show ?case
  proof (cases "i < length cs")
    case True
    obtain pc b' where c: "lockCall bk ttl ?n b (cs ! i) = (pc, b')" by (cases "lockCall bk ttl ?n b (cs ! i)")
    have "lock_step bk ttl (b, ?n, cs) (b', ?n, cs[i := pc])" by (rule lock_step.calls [OF True c])
    moreover have "(lock_step bk ttl)\<^sup>*\<^sup>* (b', ?n, cs[i := pc]) (lockRun bk ttl es (b', ?n, cs[i := pc]))"
      using 2(1) True c by simp
    ultimately show ?thesis using True c t by (simp add: converse_rtranclp_into_rtranclp Let_def)
  next
    case False
    have "lock_step bk ttl (b, ?n, cs) (b, ?n, cs @ [startLock ?n])" by (rule lock_step.enters)
    moreover have "(lock_step bk ttl)\<^sup>*\<^sup>* (b, ?n, cs @ [startLock ?n]) (lockRun bk ttl es (b, ?n, cs @ [startLock ?n]))"
      using 2(2) False by simp
    ultimately show ?thesis using False t by (simp add: converse_rtranclp_into_rtranclp Let_def)
  qed
qed simp

definition contended :: "mem locking" where
  "contended = lockRun mem_bucket 0 [(0, 0), (0, 0), (5, 1), (0, 1), (0, 1)] ([], 0, [])"

lemma mem_no_lock: "bk_ReadAll mem_bucket [] lockKey = Inl NotFound"
  by (simp add: mem_reads)

lemma lock_exclusive_witness: "holders (snd (snd contended)) \<le> 1"
proof -
  have t: "fst (snd contended) \<le> 0 + effectiveTTL 0" by code_simp
  have "(lock_step mem_bucket 0)\<^sup>*\<^sup>* ([], 0, []) (fst contended, fst (snd contended), snd (snd contended))"
    unfolding contended_def prod.collapse by (rule lockRun_steps)
  from lock_exclusive [OF mem.bucket_axioms amap_wf_Nil mem_no_lock this t] show ?thesis ..
qed

text \<open>
  One caller takes the lock and is lost. When its lease has run out two others see the same expired object. The
  first deletes it and takes the lock; the second deletes the first one's object and takes it as well.
\<close>

definition reclaim_schedule :: "(int \<times> nat) list" where
  "reclaim_schedule = [(0, 0), (0, 0), (defaultLockTTL + 1, 1), (0, 2), (0, 1), (0, 2), (0, 1), (0, 2), (0, 1), (0, 1), (0, 2), (0, 2)]"

text \<open>
  Reclaiming an expired lock is not exclusive: there is a run in which two callers hold the lock at the same
  time, each with a lease that has not run out.
\<close>

theorem reclaimed_twice:
  "\<exists>b now cs. (lock_step mem_bucket defaultLockTTL)\<^sup>*\<^sup>* ([], 0, []) (b, now, cs) \<and>
    2 \<le> length (filter (\<lambda>pc. case pc of Held t \<Rightarrow> now < t | _ \<Rightarrow> False) cs)"
proof -
  let ?s = "lockRun mem_bucket defaultLockTTL reclaim_schedule ([], 0, [])"
  have "2 \<le> length (filter (\<lambda>pc. case pc of Held t \<Rightarrow> fst (snd ?s) < t | _ \<Rightarrow> False) (snd (snd ?s)))" by code_simp
  moreover have "(lock_step mem_bucket defaultLockTTL)\<^sup>*\<^sup>* ([], 0, []) (fst ?s, fst (snd ?s), snd (snd ?s))"
    using lockRun_steps by simp
  ultimately show ?thesis by blast
qed

end
