(* ===== verification/ProviderSchema.thy ===== *)
theory ProviderSchema
  imports ResolveData
begin

text \<open>
  provider/schema.go: the schema of a resource type as this program holds it, and its translation
  from the messages of the two wire protocols; cli/schemainspector.go: the answers the resolver asks
  of it. The messages (tfplugin5 and tfplugin6) are generated code: of each, the fields the
  translation reads. The types of go-cty are a parameter, the record \<open>cty_ops\<close>. The enum of a message
  is the integer that came over the wire, which may be one the protocol does not name.
\<close>

section \<open>Schemas\<close>

datatype NestingMode =
  NestingInvalid | NestingSingle | NestingList | NestingSet | NestingMap | NestingGroup

datatype Attribute = Attribute
  (at_Name: string) (at_Type: raw) (at_Description: string) (at_Required: bool) (at_Optional: bool)
  (at_Computed: bool) (at_Sensitive: bool) (at_NestedAttributes: "Attribute list")

datatype Block = Block (bl_Attributes: "Attribute list") (bl_NestedBlocks: "NestedBlock list")
  and NestedBlock = NestedBlock
    (nb_TypeName: string) (nb_Nesting: NestingMode) (nb_Block: Block) (nb_MaxItems: int)

record Schema =
  sc_Version :: int
  sc_Block :: Block

record Schemas =
  scs_Provider :: "Schema option"
  scs_Resources :: "string \<Rightarrow> Schema option"
  scs_DataSources :: "string \<Rightarrow> Schema option"

lemma Block_size [termination_simp]:
  "nb \<in> set (bl_NestedBlocks b) \<Longrightarrow> size (nb_Block nb) < size b"
proof -
  assume nb: "nb \<in> set (bl_NestedBlocks b)"
  have "size (nb_Block nb) < size nb" by (cases nb) simp
  also have "\<dots> \<le> size_list size (bl_NestedBlocks b)" using nb by (simp add: size_list_estimation')
  also have "\<dots> < size b" by (cases b) simp
  finally show ?thesis .
qed

lemma Block_size_rec [termination_simp]:
  "nb \<in> set (bl_NestedBlocks b) \<Longrightarrow> size nb < size b"
  by (cases b) (simp add: less_Suc_eq_le size_list_estimation')

lemma NestedBlock_size: "size (nb_Block nb) < size nb"
  by (cases nb) simp

lemma find_in_set: "find P xs = Some x \<Longrightarrow> x \<in> set xs"
  by (auto simp: find_Some_iff)

lemma Block_size_list [termination_simp]:
  "nb \<in> set nbs \<Longrightarrow> size (nb_Block nb) < Suc (size_list size nbs)"
  using Block_size [of nb "Block [] nbs"] by simp

definition IsAttrProviderOwned :: "Schema option \<Rightarrow> string \<Rightarrow> bool" where
  "IsAttrProviderOwned s attrName = (case s of
      None \<Rightarrow> False
    | Some sc \<Rightarrow> (case find (\<lambda>a. at_Name a = attrName) (bl_Attributes (sc_Block sc)) of
          Some a \<Rightarrow> at_Computed a \<and> \<not> at_Optional a
        | None \<Rightarrow> False))"

section \<open>The messages\<close>

datatype Schema_Attribute = Schema_Attribute
    (sa_Name: string) (sa_Type: raw) (sa_NestedType: "Schema_Object option") (sa_Description: string)
    (sa_Required: bool) (sa_Optional: bool) (sa_Computed: bool) (sa_Sensitive: bool)
  and Schema_Object = Schema_Object (so_Attributes: "Schema_Attribute list") (so_Nesting: int)

record Schema_Attribute5 =
  s5_Name :: string
  s5_Type :: raw
  s5_Description :: string
  s5_Required :: bool
  s5_Optional :: bool
  s5_Computed :: bool
  s5_Sensitive :: bool

text \<open>The two protocols' blocks differ in their attributes only.\<close>

datatype 'a Schema_Block = Schema_Block
    (sb_Attributes: "'a list") (sb_BlockTypes: "'a Schema_NestedBlock list")
  and 'a Schema_NestedBlock = Schema_NestedBlock
    (sn_TypeName: string) (sn_Block: "'a Schema_Block option") (sn_Nesting: int) (sn_MaxItems: int)

record 'a Schema_Message =
  sm_Version :: int
  sm_Block :: "'a Schema_Block option"

definition nestingMode :: "int \<Rightarrow> NestingMode" where
  "nestingMode m =
     (if m = 1 then NestingSingle
      else if m = 2 then NestingList
      else if m = 3 then NestingSet
      else if m = 4 then NestingMap
      else if m = 5 then NestingGroup
      else NestingInvalid)"

section \<open>From the messages\<close>

text \<open>What the translation calls of go-cty: types, and their JSON.\<close>

record 't cty_ops =
  cty_UnmarshalType :: "raw \<Rightarrow> (err, 't) res"
  cty_MarshalType :: "'t \<Rightarrow> (err, raw) res"
  cty_Object :: "(string, 't) amap \<Rightarrow> 't"
  cty_List :: "'t \<Rightarrow> 't"
  cty_Set :: "'t \<Rightarrow> 't"
  cty_Map :: "'t \<Rightarrow> 't"

definition cty_collection :: "'t cty_ops \<Rightarrow> int \<Rightarrow> 't \<Rightarrow> 't" where
  "cty_collection cty nesting obj =
     (if nesting = 2 then cty_List cty obj
      else if nesting = 3 then cty_Set cty obj
      else if nesting = 4 then cty_Map cty obj
      else obj)"

lemma Schema_Object_size [termination_simp]:
  "a \<in> set (so_Attributes b) \<Longrightarrow> size a < size b"
  by (cases b) (simp add: less_Suc_eq_le size_list_estimation')

function (sequential) attributeCtyTypeFromV6 :: "'t cty_ops \<Rightarrow> Schema_Attribute \<Rightarrow> (err, 't) res"
  and nestedObjectCtyTypeFromV6 :: "'t cty_ops \<Rightarrow> Schema_Object \<Rightarrow> (err, 't) res" where
  "attributeCtyTypeFromV6 cty (Schema_Attribute n ty None d r p c s) = cty_UnmarshalType cty ty"
| "attributeCtyTypeFromV6 cty (Schema_Attribute n ty (Some nt) d r p c s) = nestedObjectCtyTypeFromV6 cty nt"
| "nestedObjectCtyTypeFromV6 cty nt =
     rbind (map_res (\<lambda>a. rbind (attributeCtyTypeFromV6 cty a) (\<lambda>ty. Inr (sa_Name a, ty))) (so_Attributes nt)) (\<lambda>attrTypes.
     Inr (cty_collection cty (so_Nesting nt) (cty_Object cty (fold (\<lambda>(k, ty). aput k ty) attrTypes []))))"
  by pat_completeness auto
termination
  by (relation "measure (case_sum (\<lambda>(_, a). size a) (\<lambda>(_, nt). size nt))") (auto intro: Schema_Object_size)

declare nestedObjectCtyTypeFromV6.simps [simp del]

definition attributeTypeJSONFromV6 :: "'t cty_ops \<Rightarrow> Schema_Attribute \<Rightarrow> (err, raw) res" where
  "attributeTypeJSONFromV6 cty a = (case sa_NestedType a of
      None \<Rightarrow> Inr (sa_Type a)
    | Some nt \<Rightarrow> rbind (nestedObjectCtyTypeFromV6 cty nt) (cty_MarshalType cty))"

text \<open>One attribute with its children; of none, the nil slice.\<close>

function (sequential) attributeFromV6 :: "'t cty_ops \<Rightarrow> Schema_Attribute \<Rightarrow> (err, Attribute) res"
  and nestedAttributesFromV6 :: "'t cty_ops \<Rightarrow> Schema_Object option \<Rightarrow> (err, Attribute list) res" where
  "attributeFromV6 cty (Schema_Attribute n ty nt d r p c s) =
     rbind (attributeTypeJSONFromV6 cty (Schema_Attribute n ty nt d r p c s)) (\<lambda>typeJSON.
     rbind (nestedAttributesFromV6 cty nt) (\<lambda>nested.
     Inr (Attribute n typeJSON d r p c s nested)))"
| "nestedAttributesFromV6 cty None = Inr []"
| "nestedAttributesFromV6 cty (Some nt) = map_res (attributeFromV6 cty) (so_Attributes nt)"
  by pat_completeness auto
termination
  by (relation "measure (case_sum (\<lambda>(_, a). size a) (\<lambda>(_, nt). case nt of None \<Rightarrow> 0 | Some o1 \<Rightarrow> size o1))")
    (auto intro: Schema_Object_size split: option.splits)

function (sequential) blockFromV6 :: "'t cty_ops \<Rightarrow> Schema_Attribute Schema_Block option \<Rightarrow> (err, Block) res"
  and nestedBlockFromV6 :: "'t cty_ops \<Rightarrow> Schema_Attribute Schema_NestedBlock \<Rightarrow> (err, NestedBlock) res" where
  "blockFromV6 cty None = Inr (Block [] [])"
| "blockFromV6 cty (Some (Schema_Block attrs bts)) =
     rbind (map_res (attributeFromV6 cty) attrs) (\<lambda>attributes.
     rbind (map_res (nestedBlockFromV6 cty) bts) (\<lambda>nested.
     Inr (Block attributes nested)))"
| "nestedBlockFromV6 cty (Schema_NestedBlock n b nesting maxItems) =
     rbind (blockFromV6 cty b) (\<lambda>nested. Inr (NestedBlock n (nestingMode nesting) nested maxItems))"
  by pat_completeness auto
termination
  by (relation "measure (case_sum (\<lambda>(_, b). case b of None \<Rightarrow> 0 | Some b1 \<Rightarrow> size b1) (\<lambda>(_, nb). size nb))")
    (auto simp: less_Suc_eq_le size_list_estimation' trans_le_add2 split: option.splits)

definition schemaFromV6 :: "'t cty_ops \<Rightarrow> Schema_Attribute Schema_Message option \<Rightarrow> (err, Schema option) res" where
  "schemaFromV6 cty s = (case s of
      None \<Rightarrow> Inr None
    | Some m \<Rightarrow> rbind (blockFromV6 cty (sm_Block m)) (\<lambda>block.
        Inr (Some \<lparr>sc_Version = sm_Version m, sc_Block = block\<rparr>)))"

definition schemaMapFromV6 ::
    "'t cty_ops \<Rightarrow> (string, Schema_Attribute Schema_Message option) amap \<Rightarrow> (err, (string, Schema option) amap) res" where
  "schemaMapFromV6 cty m = map_res (\<lambda>(k, v). rbind (schemaFromV6 cty v) (\<lambda>schema. Inr (k, schema))) m"

definition attributeFromV5 :: "Schema_Attribute5 \<Rightarrow> Attribute" where
  "attributeFromV5 a = Attribute (s5_Name a) (s5_Type a) (s5_Description a) (s5_Required a) (s5_Optional a)
     (s5_Computed a) (s5_Sensitive a) []"

function (sequential) blockFromV5 :: "Schema_Attribute5 Schema_Block option \<Rightarrow> Block"
  and nestedBlockFromV5 :: "Schema_Attribute5 Schema_NestedBlock \<Rightarrow> NestedBlock" where
  "blockFromV5 None = Block [] []"
| "blockFromV5 (Some (Schema_Block attrs bts)) = Block (map attributeFromV5 attrs) (map nestedBlockFromV5 bts)"
| "nestedBlockFromV5 (Schema_NestedBlock n b nesting maxItems) =
     NestedBlock n (nestingMode nesting) (blockFromV5 b) maxItems"
  by pat_completeness auto
termination
  by (relation "measure (case_sum (\<lambda>b. case b of None \<Rightarrow> 0 | Some b1 \<Rightarrow> size b1) size)")
    (auto simp: less_Suc_eq_le size_list_estimation' trans_le_add2 split: option.splits)

definition schemaFromV5 :: "Schema_Attribute5 Schema_Message option \<Rightarrow> Schema option" where
  "schemaFromV5 s = map_option (\<lambda>m. \<lparr>sc_Version = sm_Version m, sc_Block = blockFromV5 (sm_Block m)\<rparr>) s"

definition schemaMapFromV5 ::
    "(string, Schema_Attribute5 Schema_Message option) amap \<Rightarrow> (string, Schema option) amap" where
  "schemaMapFromV5 m = map (\<lambda>(k, v). (k, schemaFromV5 v)) m"

end
