(* ===== verification/Redact.thy ===== *)
theory Redact
  imports ProviderSchema
begin

text \<open>
  provider/redact.go and provider/overrides.go: an observed state on its way to the ledger loses every
  value the provider's schema, or the program's own table, calls sensitive; a salted digest takes its
  place. The walk is proved to replace exactly the values at the positions the schema flags, as long as it
  flags no attribute of an attribute, which the walk never looks at; what comes out depends on the rest
  of the state and on the digests alone; and, without a collision among the digests, two states that
  differ still differ, which is what drift detection needs.
\<close>

section \<open>The walk over a state\<close>

definition redactedMarkerKey :: string where
  "redactedMarkerKey = ''$redacted''"

definition is_marker :: "gval \<Rightarrow> bool" where
  "is_marker v = (case v of
      GObj m \<Rightarrow>
        if length m \<noteq> 1 then False
        else (case map_of m redactedMarkerKey of Some (GObj inner) \<Rightarrow> True | _ \<Rightarrow> False)
    | _ \<Rightarrow> False)"

definition redactValue :: "(string \<Rightarrow> string) \<Rightarrow> string \<Rightarrow> gval \<Rightarrow> gval" where
  "redactValue sha salt v =
     GObj [(redactedMarkerKey, GObj [(''sha256'', GStr (sha (salt @ marshal_text v)))])]"

text \<open>The value under a key is replaced where there is one that is not nil.\<close>

definition at_key :: "string \<Rightarrow> (gval \<Rightarrow> gval) \<Rightarrow> fields \<Rightarrow> fields" where
  "at_key k g m = (case map_of m k of
      None \<Rightarrow> m
    | Some v \<Rightarrow> if v = GNil then m else aput k (g v) m)"

definition redactAttribute :: "(string \<Rightarrow> string) \<Rightarrow> string \<Rightarrow> Attribute \<Rightarrow> fields \<Rightarrow> fields" where
  "redactAttribute sha salt a m =
     (if at_Sensitive a then at_key (at_Name a) (redactValue sha salt) m else m)"

definition in_object :: "(fields \<Rightarrow> fields) \<Rightarrow> gval \<Rightarrow> gval" where
  "in_object f v = (case v of GObj m \<Rightarrow> GObj (f m) | _ \<Rightarrow> v)"

definition in_array :: "(fields \<Rightarrow> fields) \<Rightarrow> gval \<Rightarrow> gval" where
  "in_array f v = (case v of GArr xs \<Rightarrow> GArr (map (in_object f) xs) | _ \<Rightarrow> v)"

definition in_map :: "(fields \<Rightarrow> fields) \<Rightarrow> gval \<Rightarrow> gval" where
  "in_map f v = (case v of GObj m \<Rightarrow> GObj (map (\<lambda>(k, x). (k, in_object f x)) m) | _ \<Rightarrow> v)"

function redactBlock :: "(string \<Rightarrow> string) \<Rightarrow> string \<Rightarrow> Block \<Rightarrow> fields \<Rightarrow> fields"
  and redactNested :: "(string \<Rightarrow> string) \<Rightarrow> string \<Rightarrow> NestedBlock \<Rightarrow> gval \<Rightarrow> gval" where
  "redactBlock sha salt b m =
     fold (\<lambda>nb. at_key (nb_TypeName nb) (\<lambda>v. redactNested sha salt nb v)) (bl_NestedBlocks b)
       (fold (redactAttribute sha salt) (bl_Attributes b) m)"
| "redactNested sha salt nb v =
     (case nb_Nesting nb of
        NestingSingle \<Rightarrow> in_object (redactBlock sha salt (nb_Block nb)) v
      | NestingGroup \<Rightarrow> in_object (redactBlock sha salt (nb_Block nb)) v
      | NestingList \<Rightarrow> in_array (redactBlock sha salt (nb_Block nb)) v
      | NestingSet \<Rightarrow> in_array (redactBlock sha salt (nb_Block nb)) v
      | NestingMap \<Rightarrow> in_map (redactBlock sha salt (nb_Block nb)) v
      | NestingInvalid \<Rightarrow> v)"
  by pat_completeness auto
termination
  by (relation "measure (case_sum (\<lambda>(_, _, b, _). 2 * size b) (\<lambda>(_, _, nb, _). 2 * size nb))")
    (auto simp: Block_size_rec NestedBlock_size)

declare redactBlock.simps [simp del] redactNested.simps [simp del]

section \<open>Overrides\<close>

text \<open>The table: source, type, path.\<close>

definition SensitiveOverrides :: "(string \<times> string \<times> string) list" where
  "SensitiveOverrides =
     [(''hashicorp/helm'', ''helm_release'', ''manifest''),
      (''hashicorp/helm'', ''helm_release'', ''metadata.values''),
      (''hashicorp/helm'', ''helm_release'', ''metadata.notes''),
      (''hashicorp/azurerm'', ''azurerm_linux_web_app'', ''app_settings''),
      (''hashicorp/azurerm'', ''azurerm_linux_function_app'', ''app_settings'')]"

definition OverridePathsFor :: "string \<Rightarrow> string \<Rightarrow> string list" where
  "OverridePathsFor source ty =
     map (\<lambda>(_, _, p). p) (filter (\<lambda>(s, t, _). s = source \<and> t = ty) SensitiveOverrides)"

function (sequential) redactOverridePath :: "(string \<Rightarrow> string) \<Rightarrow> string \<Rightarrow> string list \<Rightarrow> gval \<Rightarrow> gval" where
  "redactOverridePath sha salt [] v = v"
| "redactOverridePath sha salt (key # rest) (GObj c) =
     GObj (at_key key (\<lambda>val.
       if rest \<noteq> [] then redactOverridePath sha salt rest val
       else if is_marker val then val
       else redactValue sha salt val) c)"
| "redactOverridePath sha salt path (GArr xs) = GArr (map (redactOverridePath sha salt path) xs)"
| "redactOverridePath sha salt path v = v"
  by pat_completeness auto
termination
  by (relation "measures [\<lambda>(_, _, p, _). length p, \<lambda>(_, _, _, v). size v]")
    (auto simp: less_Suc_eq_le size_list_estimation')

definition Redact ::
    "(string \<Rightarrow> string) \<Rightarrow> string \<Rightarrow> string \<Rightarrow> Block \<Rightarrow> string \<Rightarrow> raw \<Rightarrow> (err, raw) res" where
  "Redact sha source ty block salt observed = (case unmarshal_map observed of
      None \<Rightarrow> Inl EJson
    | Some dec \<Rightarrow>
        let out = marshal_map (map_option (redactBlock sha salt block) dec)
        in Inr (Some (fold (\<lambda>path. redactOverridePath sha salt (path_of path)) (OverridePathsFor source ty) out)))"

section \<open>Positions\<close>

text \<open>A position in a value: the member of an object, or any element of an array.\<close>

datatype step = Key string | Elem

function (sequential) walked :: "Block \<Rightarrow> step list \<Rightarrow> bool"
  and walked_in :: "NestedBlock \<Rightarrow> step list \<Rightarrow> bool" where
  "walked b (Key k # p) \<longleftrightarrow>
     p = [] \<and> (\<exists>a \<in> set (bl_Attributes b). at_Name a = k \<and> at_Sensitive a) \<or>
     (\<exists>nb \<in> set (bl_NestedBlocks b). nb_TypeName nb = k \<and> walked_in nb p)"
| "walked b p \<longleftrightarrow> False"
| "walked_in nb p \<longleftrightarrow>
     (case nb_Nesting nb of
        NestingInvalid \<Rightarrow> False
      | NestingSingle \<Rightarrow> walked (nb_Block nb) p
      | NestingGroup \<Rightarrow> walked (nb_Block nb) p
      | NestingMap \<Rightarrow> (case p of Key j # q \<Rightarrow> walked (nb_Block nb) q | _ \<Rightarrow> False)
      | _ \<Rightarrow> (case p of Elem # q \<Rightarrow> walked (nb_Block nb) q | _ \<Rightarrow> False))"
  by pat_completeness auto
termination
  by (relation "measure (case_sum (\<lambda>(_, p). 2 * length p) (\<lambda>(_, p). 2 * length p + 1))") auto

declare walked_in.simps [simp del]

text \<open>
  What the schema itself flags is more: an attribute may have attributes of its own, which stand in its
  object or in the objects of its list, set or map.
\<close>

definition members :: "string \<Rightarrow> step list \<Rightarrow> step list list" where
  "members n p = (case p of
      Key k # q \<Rightarrow> (if k = n then [q] else []) @ (case q of Key j # r \<Rightarrow> if j = n then [r] else [] | _ \<Rightarrow> [])
    | Elem # Key j # r \<Rightarrow> if j = n then [r] else []
    | _ \<Rightarrow> [])"

lemma Attribute_size [termination_simp]: "c \<in> set (at_NestedAttributes a) \<Longrightarrow> size c < size a"
  by (cases a) (simp add: less_Suc_eq_le size_list_estimation')

function attr_flagged :: "Attribute \<Rightarrow> step list \<Rightarrow> bool" where
  "attr_flagged a p \<longleftrightarrow> p = [] \<and> at_Sensitive a \<or>
     (\<exists>c \<in> set (at_NestedAttributes a). \<exists>q \<in> set (members (at_Name c) p). attr_flagged c q)"
  by pat_completeness auto
termination
  by (relation "measure (\<lambda>(a, _). size a)") (auto intro: Attribute_size)

declare attr_flagged.simps [simp del]

function (sequential) flagged :: "Block \<Rightarrow> step list \<Rightarrow> bool"
  and flagged_in :: "NestedBlock \<Rightarrow> step list \<Rightarrow> bool" where
  "flagged b (Key k # p) \<longleftrightarrow>
     (\<exists>a \<in> set (bl_Attributes b). at_Name a = k \<and> attr_flagged a p) \<or>
     (\<exists>nb \<in> set (bl_NestedBlocks b). nb_TypeName nb = k \<and> flagged_in nb p)"
| "flagged b p \<longleftrightarrow> False"
| "flagged_in nb p \<longleftrightarrow>
     (case nb_Nesting nb of
        NestingInvalid \<Rightarrow> flagged (nb_Block nb) p
      | NestingSingle \<Rightarrow> flagged (nb_Block nb) p
      | NestingGroup \<Rightarrow> flagged (nb_Block nb) p
      | NestingMap \<Rightarrow> (case p of Key j # q \<Rightarrow> flagged (nb_Block nb) q | _ \<Rightarrow> False)
      | _ \<Rightarrow> (case p of Elem # q \<Rightarrow> flagged (nb_Block nb) q | _ \<Rightarrow> False))"
  by pat_completeness auto
termination
  by (relation "measure (case_sum (\<lambda>(_, p). 2 * length p) (\<lambda>(_, p). 2 * length p + 1))") auto

declare flagged_in.simps [simp del]

text \<open>The two are one where no attribute of an attribute is sensitive and every nesting mode is known.\<close>

fun clear :: "Attribute \<Rightarrow> bool" where
  "clear (Attribute n t d r o1 c s cs) \<longleftrightarrow> list_all (\<lambda>a. \<not> at_Sensitive a \<and> clear a) cs"

fun redactable :: "Block \<Rightarrow> bool" where
  "redactable (Block as nbs) \<longleftrightarrow> list_all clear as \<and>
     list_all (\<lambda>nb. nb_Nesting nb \<noteq> NestingInvalid \<and> redactable (nb_Block nb)) nbs"

lemma clear_flagged: "clear a \<Longrightarrow> attr_flagged a p \<longleftrightarrow> p = [] \<and> at_Sensitive a"
proof (induction a arbitrary: p rule: measure_induct_rule [where f = size])
  case (less a)
  have "\<not> attr_flagged c q" if "c \<in> set (at_NestedAttributes a)" for c q
    using less.IH [OF Attribute_size [OF that]] less.prems that by (cases a) (auto simp: list_all_iff)
  then show ?case by (subst attr_flagged.simps) blast
qed

lemma redactableD:
  assumes "redactable b"
  shows "a \<in> set (bl_Attributes b) \<Longrightarrow> clear a" "nb \<in> set (bl_NestedBlocks b) \<Longrightarrow> redactable (nb_Block nb)"
    "nb \<in> set (bl_NestedBlocks b) \<Longrightarrow> nb_Nesting nb \<noteq> NestingInvalid"
  using assms by (cases b, simp add: list_all_iff)+

lemma flagged_walked:
  assumes "redactable b"
  shows "flagged b = walked b"
proof
  fix p
  show "flagged b p = walked b p"
    using assms
  proof (induction p arbitrary: b rule: length_induct)
    case (1 p)
    have sub: "flagged (nb_Block nb) q = walked (nb_Block nb) q" if "nb \<in> set (bl_NestedBlocks b)" "length q < length p" for nb q
      using 1 that redactableD(2) by blast
    show ?case
    proof (cases p)
      case (Cons x q)
      have nested: "flagged_in nb q = walked_in nb q" if nb: "nb \<in> set (bl_NestedBlocks b)" for nb
        using sub [OF nb, of q] sub [OF nb, of "tl q"] Cons redactableD(3) [OF 1(2) nb]
        by (cases q) (simp_all add: flagged_in.simps walked_in.simps del: flagged.simps(1) walked.simps(1)
            split: NestingMode.splits step.splits)
      show ?thesis
        using Cons nested clear_flagged redactableD(1) [OF 1(2)] by (cases x) (auto simp: Bex_def)
    qed simp
  qed
qed

text \<open>Protocol 5 has no attributes of attributes; of the enum of its nestings, 1 to 5 are in use.\<close>

fun nestings_known :: "'a Schema_Block \<Rightarrow> bool"
  and nesting_known :: "'a Schema_NestedBlock \<Rightarrow> bool" where
  "nestings_known (Schema_Block as bts) \<longleftrightarrow> list_all nesting_known bts"
| "nesting_known (Schema_NestedBlock n b nesting i) \<longleftrightarrow>
     1 \<le> nesting \<and> nesting \<le> 5 \<and> (case b of None \<Rightarrow> True | Some c \<Rightarrow> nestings_known c)"

lemma redactable_V5: "pred_option nestings_known b \<Longrightarrow> redactable (blockFromV5 b)"
proof (induction b rule: blockFromV5_nestedBlockFromV5.induct(1) [of _
      "\<lambda>n. nesting_known n \<longrightarrow> nb_Nesting (nestedBlockFromV5 n) \<noteq> NestingInvalid \<and> redactable (nb_Block (nestedBlockFromV5 n))"])
  case (2 attrs bts)
  then show ?case by (auto simp: list_all_iff attributeFromV5_def)
next
  case (3 n b nesting maxItems)
  then show ?case by (auto simp: nestingMode_def split: option.splits)
qed simp_all

fun on_path :: "string list \<Rightarrow> step list \<Rightarrow> bool" where
  "on_path ks (Elem # p) \<longleftrightarrow> on_path ks p"
| "on_path [k] [Key j] \<longleftrightarrow> k = j"
| "on_path (k # k2 # ks) (Key j # p) \<longleftrightarrow> k = j \<and> on_path (k2 # ks) p"
| "on_path ks p \<longleftrightarrow> False"

definition secret :: "string \<Rightarrow> string \<Rightarrow> Block \<Rightarrow> step list \<Rightarrow> bool" where
  "secret source ty b p \<longleftrightarrow>
     flagged b p \<or> (\<exists>path \<in> set (OverridePathsFor source ty). on_path (path_of path) p)"

text \<open>The reference: the values at the positions \<open>P\<close> through \<open>g\<close>, the others as they are.\<close>

fun masked :: "(gval \<Rightarrow> gval) \<Rightarrow> (step list \<Rightarrow> bool) \<Rightarrow> gval \<Rightarrow> gval" where
  "masked g P v =
     (if P [] \<and> v \<noteq> GNil then g v
      else case v of
        GObj m \<Rightarrow> GObj (map (\<lambda>(k, x). (k, masked g (\<lambda>p. P (Key k # p)) x)) m)
      | GArr xs \<Rightarrow> GArr (map (masked g (\<lambda>p. P (Elem # p))) xs)
      | _ \<Rightarrow> v)"

declare masked.simps [simp del]

lemma map_of_map_key: "map_of (map (\<lambda>(k, x). (k, f k x)) m) k = map_option (f k) (map_of m k)"
  by (induction m) auto

lemma at_key_map:
  assumes "amap_wf m"
  shows "at_key k g m = map (\<lambda>(l, x). (l, if l = k \<and> x \<noteq> GNil then g x else x)) m"
proof (rule amap_ext)
  show "amap_wf (at_key k g m)" using assms by (auto simp: at_key_def split: option.splits)
  show "amap_wf (map (\<lambda>(l, x). (l, if l = k \<and> x \<noteq> GNil then g x else x)) m)" using assms by simp
  show "map_of (at_key k g m) = map_of (map (\<lambda>(l, x). (l, if l = k \<and> x \<noteq> GNil then g x else x)) m)"
  proof
    fix l
    show "map_of (at_key k g m) l = map_of (map (\<lambda>(l, x). (l, if l = k \<and> x \<noteq> GNil then g x else x)) m) l"
      by (cases "map_of m l") (auto simp: at_key_def map_of_map_key split: option.splits)
  qed
qed

lemma redactAttribute_at_key:
  assumes "amap_wf m"
  shows "redactAttribute sha salt a m =
    at_key (at_Name a) (\<lambda>v. if at_Sensitive a then redactValue sha salt v else v) m"
proof (cases "at_Sensitive a")
  case False
  have "map (\<lambda>(l, x). (l, if l = at_Name a \<and> x \<noteq> GNil then x else x)) m = m" by (induction m) auto
  then show ?thesis using False by (simp add: redactAttribute_def at_key_map [OF assms])
qed (simp add: redactAttribute_def)

text \<open>Writes under the keys of a list, as one pass over the members.\<close>

definition through :: "('a \<Rightarrow> string) \<Rightarrow> ('a \<Rightarrow> gval \<Rightarrow> gval) \<Rightarrow> 'a list \<Rightarrow> string \<Rightarrow> gval \<Rightarrow> gval" where
  "through nm g as k x = (if x = GNil then GNil else fold (\<lambda>a y. if nm a = k then g a y else y) as x)"

lemma fold_at_key:
  assumes "amap_wf m" "\<forall>a x. x \<noteq> GNil \<longrightarrow> g a x \<noteq> GNil"
  shows "fold (\<lambda>a. at_key (nm a) (g a)) as m = map (\<lambda>(k, x). (k, through nm g as k x)) m"
  using assms(1)
proof (induction as arbitrary: m)
  case Nil
  show ?case by (induction m) (auto simp: through_def)
next
  case (Cons a as)
  have "amap_wf (at_key (nm a) (g a) m)" using Cons.prems by (simp add: at_key_map)
  from Cons.IH [OF this] show ?case
    using assms(2) by (auto simp: at_key_map [OF Cons.prems] through_def case_prod_beta)
qed

lemma through_one:
  assumes "distinct (map nm as)" "a \<in> set as" "x \<noteq> GNil"
  shows "through nm g as (nm a) x = g a x"
proof -
  have out: "fold (\<lambda>a y. if nm a = k then g a y else y) bs x = x" if "k \<notin> nm ` set bs" for k bs x
    using that by (induction bs arbitrary: x) auto
  have "fold (\<lambda>a y. if nm a = nm b then g a y else y) as x = g b x" if "distinct (map nm as)" "b \<in> set as" for b
    using that by (induction as arbitrary: x) (auto simp: out)
  with assms show ?thesis by (simp add: through_def)
qed

lemma through_none: "k \<notin> nm ` set as \<Longrightarrow> through nm g as k x = x"
proof -
  assume k: "k \<notin> nm ` set as"
  have "fold (\<lambda>a y. if nm a = k then g a y else y) as x = x"
    using k by (induction as arbitrary: x) auto
  then show ?thesis by (simp add: through_def)
qed

lemma masked_simps [simp]:
  "masked g P GNil = GNil"
  "masked g P (GBool c) = (if P [] then g (GBool c) else GBool c)"
  "masked g P (GNumber s) = (if P [] then g (GNumber s) else GNumber s)"
  "masked g P (GFloat f) = (if P [] then g (GFloat f) else GFloat f)"
  "masked g P (GInt i) = (if P [] then g (GInt i) else GInt i)"
  "masked g P (GStr s) = (if P [] then g (GStr s) else GStr s)"
  "masked g P (GArr xs) = (if P [] then g (GArr xs) else GArr (map (masked g (\<lambda>p. P (Elem # p))) xs))"
  "masked g P (GObj m) =
     (if P [] then g (GObj m) else GObj (map (\<lambda>(k, x). (k, masked g (\<lambda>p. P (Key k # p)) x)) m))"
  by (simp_all add: masked.simps)

lemma masked_none [simp]: "masked g (\<lambda>_. False) = (\<lambda>v. v)"
proof
  show "masked g (\<lambda>_. False) v = v" for v
    by (induction v rule: gval_induct) (auto intro!: map_idI)
qed

text \<open>The names of a block, which are apart in the schemas that providers serve.\<close>

fun names_ok :: "Block \<Rightarrow> bool" where
  "names_ok (Block as nbs) \<longleftrightarrow>
     distinct (map at_Name as @ map nb_TypeName nbs) \<and>
     redactedMarkerKey \<notin> set (map at_Name as @ map nb_TypeName nbs) \<and>
     [] \<notin> set (map at_Name as @ map nb_TypeName nbs) \<and>
     list_all (\<lambda>nb. names_ok (nb_Block nb)) nbs"

lemma names_okD:
  assumes "names_ok b"
  shows "distinct (map at_Name (bl_Attributes b))" "distinct (map nb_TypeName (bl_NestedBlocks b))"
    "at_Name ` set (bl_Attributes b) \<inter> nb_TypeName ` set (bl_NestedBlocks b) = {}"
    "\<And>nb. nb \<in> set (bl_NestedBlocks b) \<Longrightarrow> names_ok (nb_Block nb)"
    "\<And>a. a \<in> set (bl_Attributes b) \<Longrightarrow> at_Name a \<noteq> redactedMarkerKey"
    "\<And>nb. nb \<in> set (bl_NestedBlocks b) \<Longrightarrow> nb_TypeName nb \<noteq> redactedMarkerKey"
    "\<And>nb. nb \<in> set (bl_NestedBlocks b) \<Longrightarrow> nb_TypeName nb \<noteq> []"
proof -
  obtain as nbs where b: "b = Block as nbs" by (cases b)
  note ok = assms [unfolded b names_ok.simps distinct_append list_all_iff]
  show "distinct (map at_Name (bl_Attributes b))" "distinct (map nb_TypeName (bl_NestedBlocks b))"
    "at_Name ` set (bl_Attributes b) \<inter> nb_TypeName ` set (bl_NestedBlocks b) = {}"
    using ok b by simp_all
  show "names_ok (nb_Block nb)" if "nb \<in> set (bl_NestedBlocks b)" for nb using ok b that by simp
  show "at_Name a \<noteq> redactedMarkerKey" if "a \<in> set (bl_Attributes b)" for a using ok b that by (auto simp: image_iff)
  show "nb_TypeName nb \<noteq> []" if "nb \<in> set (bl_NestedBlocks b)" for nb using ok b that by (auto simp: image_iff)
  show "nb_TypeName nb \<noteq> redactedMarkerKey" if "nb \<in> set (bl_NestedBlocks b)" for nb using ok b that by (auto simp: image_iff)
qed

lemma in_object_masked:
  assumes "\<And>m. wf_fields m \<Longrightarrow> GObj (f m) = masked g (walked b) (GObj m)" "wf_gval v"
  shows "in_object f v = masked g (walked b) v"
proof (cases v)
  case (GObj m)
  then show ?thesis using assms by (simp add: in_object_def)
qed (simp_all add: in_object_def)

lemma redactNested_masked:
  assumes block: "\<And>m. wf_fields m \<Longrightarrow>
      GObj (redactBlock sha salt (nb_Block nb) m) = masked (redactValue sha salt) (walked (nb_Block nb)) (GObj m)"
    and wf: "wf_gval v"
  shows "redactNested sha salt nb v = masked (redactValue sha salt) (walked_in nb) v"
proof -
  let ?in = "in_object (redactBlock sha salt (nb_Block nb))"
  have obj: "?in x = masked (redactValue sha salt) (walked (nb_Block nb)) x" if "wf_gval x" for x
    using in_object_masked [OF block that] by simp
  show ?thesis
  proof (cases "nb_Nesting nb")
    case NestingInvalid
    then have "walked_in nb = (\<lambda>_. False)" by (simp add: fun_eq_iff walked_in.simps)
    then show ?thesis using NestingInvalid by (simp add: redactNested.simps)
  next
    case NestingSingle
    then have "walked_in nb = walked (nb_Block nb)" by (simp add: fun_eq_iff walked_in.simps)
    then show ?thesis using NestingSingle obj [OF wf] by (simp add: redactNested.simps)
  next
    case NestingGroup
    then have "walked_in nb = walked (nb_Block nb)" by (simp add: fun_eq_iff walked_in.simps)
    then show ?thesis using NestingGroup obj [OF wf] by (simp add: redactNested.simps)
  next
    case NestingList
    then show ?thesis using wf
      by (cases v) (auto simp: redactNested.simps in_array_def walked_in.simps list_all_iff obj)
  next
    case NestingSet
    then show ?thesis using wf
      by (cases v) (auto simp: redactNested.simps in_array_def walked_in.simps list_all_iff obj)
  next
    case NestingMap
    then show ?thesis using wf
      by (cases v) (auto simp: redactNested.simps in_map_def walked_in.simps list_all_iff obj)
  qed
qed

lemma redactBlock_map:
  assumes "amap_wf m"
  shows "redactBlock sha salt b m = map (\<lambda>(k, x). (k,
      through nb_TypeName (redactNested sha salt) (bl_NestedBlocks b) k
        (through at_Name (\<lambda>a v. if at_Sensitive a then redactValue sha salt v else v) (bl_Attributes b) k x))) m"
proof -
  let ?g = "\<lambda>a v. if at_Sensitive a then redactValue sha salt v else v"
  have "fold (redactAttribute sha salt) as m = fold (\<lambda>a. at_key (at_Name a) (?g a)) as m" if "amap_wf m" for as m
    using that
  proof (induction as arbitrary: m)
    case (Cons a as)
    then show ?case by (simp add: redactAttribute_at_key at_key_map)
  qed simp
  from this [OF assms] have attrs: "fold (redactAttribute sha salt) (bl_Attributes b) m =
      map (\<lambda>(k, x). (k, through at_Name ?g (bl_Attributes b) k x)) m"
    using assms by (subst (asm) fold_at_key) (auto simp: redactValue_def)
  have "x \<noteq> GNil \<Longrightarrow> redactNested sha salt nb x \<noteq> GNil" for nb x
    by (auto simp: redactNested.simps in_object_def in_array_def in_map_def split: NestingMode.splits gval.splits)
  then show ?thesis using assms
    by (subst redactBlock.simps, subst attrs, subst fold_at_key) (auto simp: case_prod_beta)
qed

lemma redactBlock_masked:
  assumes "names_ok b" "wf_fields m"
  shows "GObj (redactBlock sha salt b m) = masked (redactValue sha salt) (walked b) (GObj m)"
  using assms
proof (induction b arbitrary: m rule: measure_induct_rule [where f = size])
  case (less b)
  let ?g = "\<lambda>a v. if at_Sensitive a then redactValue sha salt v else v"
  have nested: "redactNested sha salt nb x = masked (redactValue sha salt) (walked_in nb) x"
    if "nb \<in> set (bl_NestedBlocks b)" "wf_gval x" for nb x
    using redactNested_masked that less.IH [OF Block_size] names_okD(4) [OF less.prems(1)] by blast
  have "through nb_TypeName (redactNested sha salt) (bl_NestedBlocks b) k (through at_Name ?g (bl_Attributes b) k x)
      = masked (redactValue sha salt) (\<lambda>p. walked b (Key k # p)) x" (is "?l = ?r")
    if kx: "(k, x) \<in> set m" for k x
  proof (cases "x = GNil")
    case True
    then show ?thesis by (simp add: through_def masked_simps)
  next
    case x: False
    have wfx: "wf_gval x" using less.prems(2) kx by (auto simp: list_all_iff)
    show ?thesis
    proof (cases "k \<in> nb_TypeName ` set (bl_NestedBlocks b)")
      case True
      then obtain nb where nb: "nb \<in> set (bl_NestedBlocks b)" "k = nb_TypeName nb" by blast
      have k: "k \<notin> at_Name ` set (bl_Attributes b)" using names_okD(3) [OF less.prems(1)] nb by blast
      have only: "n = nb" if "n \<in> set (bl_NestedBlocks b)" "nb_TypeName n = nb_TypeName nb" for n
        using that nb(1) names_okD(2) [OF less.prems(1)] by (meson distinct_map inj_on_def)
      have "(\<lambda>p. walked b (Key k # p)) = walked_in nb"
        using k nb only by (auto simp: fun_eq_iff image_iff)
      moreover have "?l = redactNested sha salt nb x"
        using through_one [OF names_okD(2) [OF less.prems(1)] nb(1) x] through_none [OF k] nb(2) by simp
      ultimately show ?thesis using nested [OF nb(1) wfx] by simp
    next
      case no_nb: False
      show ?thesis
      proof (cases "k \<in> at_Name ` set (bl_Attributes b)")
        case True
        then obtain a where a: "a \<in> set (bl_Attributes b)" "k = at_Name a" by blast
        have only: "c = a" if "c \<in> set (bl_Attributes b)" "at_Name c = at_Name a" for c
          using that a(1) names_okD(1) [OF less.prems(1)] by (meson distinct_map inj_on_def)
        have "(\<lambda>p. walked b (Key k # p)) = (\<lambda>p. p = [] \<and> at_Sensitive a)"
          using no_nb a only by (auto simp: fun_eq_iff image_iff)
        moreover have "?l = ?g a x"
          using through_one [OF names_okD(1) [OF less.prems(1)] a(1) x, of ?g] through_none [OF no_nb] a(2) by simp
        ultimately show ?thesis using x by (cases x) (auto simp: intro!: map_idI [symmetric])
      next
        case False
        then have "(\<lambda>p. walked b (Key k # p)) = (\<lambda>_. False)" using no_nb by (auto simp: fun_eq_iff image_iff)
        then show ?thesis using through_none [OF no_nb] through_none [OF False] by simp
      qed
    qed
  qed
  then have "map (\<lambda>(k, x). (k, through nb_TypeName (redactNested sha salt) (bl_NestedBlocks b) k
        (through at_Name ?g (bl_Attributes b) k x))) m =
      map (\<lambda>(k, x). (k, masked (redactValue sha salt) (\<lambda>p. walked b (Key k # p)) x)) m"
    by (intro map_cong) auto
  then show ?case using less.prems(2) by (simp add: redactBlock_map)
qed

text \<open>An override redacts the values on its path that are not redacted yet.\<close>

definition redact_once :: "(string \<Rightarrow> string) \<Rightarrow> string \<Rightarrow> gval \<Rightarrow> gval" where
  "redact_once sha salt v = (if is_marker v then v else redactValue sha salt v)"

lemma on_path_Nil: "\<not> on_path ks []"
  by (cases ks) auto

lemma on_path_Key: "on_path (k # ks) (Key j # p) \<longleftrightarrow> k = j \<and> (if ks = [] then p = [] else on_path ks p)"
  by (cases ks; cases p) (auto simp: on_path_Nil)

lemma masked_at: "masked g (\<lambda>p. p = []) v = (if v = GNil then GNil else g v)"
  by (cases v) auto

lemma redactOverridePath_masked:
  assumes "ks \<noteq> []" "wf_gval v"
  shows "redactOverridePath sha salt ks v = masked (redact_once sha salt) (on_path ks) v"
  using assms
proof (induction sha salt ks v rule: redactOverridePath.induct)
  case (2 sha salt key rest c)
  have wf: "amap_wf c" using 2 by simp
  have "(if l = key \<and> x \<noteq> GNil
         then if rest \<noteq> [] then redactOverridePath sha salt rest x
              else if is_marker x then x else redactValue sha salt x
         else x) = masked (redact_once sha salt) (\<lambda>p. on_path (key # rest) (Key l # p)) x"
    if lx: "(l, x) \<in> set c" for l x
  proof (cases "l = key")
    case True
    have wfx: "wf_gval x" using 2 lx by (auto simp: list_all_iff)
    show ?thesis
    proof (cases "rest = []")
      case nil: True
      then show ?thesis using True by (simp add: on_path_Key masked_at redact_once_def)
    next
      case False
      then have "redactOverridePath sha salt rest x = masked (redact_once sha salt) (on_path rest) x"
        using 2(1) wfx by blast
      then show ?thesis using True False by (auto simp: on_path_Key)
    qed
  next
    case False
    then show ?thesis by (simp add: on_path_Key)
  qed
  then show ?case
    using on_path_Nil [of "key # rest"] by (auto simp: at_key_map [OF wf] intro!: map_cong)
next
  case (3 sha salt v va xs)
  have "on_path (v # va) (Elem # p) = on_path (v # va) p" for p by simp
  then show ?case using 3 on_path_Nil [of "v # va"] by (auto simp: list_all_iff)
qed (simp_all add: on_path_Nil)

section \<open>What comes out\<close>

text \<open>
  Two values agree outside the positions \<open>P\<close>: same members, same lengths, same scalars. At a position
  of \<open>P\<close> two different values may stand, if neither is nil and neither looks redacted already.
\<close>

lemma list_all2_cong2 [fundef_cong]:
  assumes "xs = xs'" "ys = ys'" "\<And>x y. x \<in> set xs' \<Longrightarrow> y \<in> set ys' \<Longrightarrow> R x y = S x y"
  shows "list_all2 R xs ys = list_all2 S xs' ys'"
  using assms(3) unfolding assms(1,2) by (auto simp: list_all2_conv_all_nth)

lemma list_all2_mono_set:
  assumes "list_all2 R xs ys" "\<And>x y. x \<in> set xs \<Longrightarrow> y \<in> set ys \<Longrightarrow> R x y \<Longrightarrow> S x y"
  shows "list_all2 S xs ys"
  using assms by (auto simp: list_all2_conv_all_nth)

definition may_differ :: "gval \<Rightarrow> gval \<Rightarrow> bool" where
  "may_differ v w \<longleftrightarrow> v \<noteq> GNil \<and> w \<noteq> GNil \<and> \<not> is_marker v \<and> \<not> is_marker w"

fun agree :: "(step list \<Rightarrow> bool) \<Rightarrow> gval \<Rightarrow> gval \<Rightarrow> bool" where
  "agree P v w \<longleftrightarrow>
     (if P [] then v = w \<or> may_differ v w
      else case (v, w) of
        (GObj m, GObj n) \<Rightarrow> list_all2 (\<lambda>(k, x) (l, y). k = l \<and> agree (\<lambda>p. P (Key k # p)) x y) m n
      | (GArr xs, GArr ys) \<Rightarrow> list_all2 (agree (\<lambda>p. P (Elem # p))) xs ys
      | _ \<Rightarrow> v = w)"

declare agree.simps [simp del]

lemma agree_at: "P [] \<Longrightarrow> agree P v w \<longleftrightarrow> v = w \<or> may_differ v w"
  by (simp add: agree.simps)

lemma agree_obj:
  "\<not> P [] \<Longrightarrow> agree P (GObj m) w \<longleftrightarrow>
     (\<exists>n. w = GObj n \<and> list_all2 (\<lambda>(k, x) (l, y). k = l \<and> agree (\<lambda>p. P (Key k # p)) x y) m n)"
  by (subst agree.simps) (simp split: gval.splits)

lemma agree_arr:
  "\<not> P [] \<Longrightarrow> agree P (GArr xs) w \<longleftrightarrow> (\<exists>ys. w = GArr ys \<and> list_all2 (agree (\<lambda>p. P (Elem # p))) xs ys)"
  by (subst agree.simps) (simp split: gval.splits)

lemma agree_scalar:
  "\<not> P [] \<Longrightarrow> \<not> (\<exists>m. v = GObj m) \<Longrightarrow> \<not> (\<exists>xs. v = GArr xs) \<Longrightarrow> agree P v w \<longleftrightarrow> v = w"
  by (subst agree.simps) (auto split: gval.splits)

lemma agree_refl: "agree P v v"
proof (induction v arbitrary: P rule: gval_induct)
  case (Arr xs)
  then show ?case by (cases "P []") (auto simp: agree_at agree_arr list_all2_same)
next
  case (Obj fs)
  then show ?case by (cases "P []") (fastforce simp: agree_at agree_obj list_all2_same)+
qed (auto simp: agree.simps)

lemma agree_none: "agree (\<lambda>_. False) v w \<Longrightarrow> v = w"
proof (induction v arbitrary: w rule: gval_induct)
  case (Arr xs)
  then obtain ys where ys: "w = GArr ys" "list_all2 (agree (\<lambda>p. False)) xs ys" by (auto simp: agree_arr)
  have "list_all2 (=) xs ys" using ys(2) by (rule list_all2_mono_set) (use Arr.IH in blast)
  then show ?case using ys(1) by (simp add: list.rel_eq)
next
  case (Obj m)
  then obtain n where n: "w = GObj n"
    "list_all2 (\<lambda>(k, x) (l, y). k = l \<and> agree (\<lambda>p. False) x y) m n" by (auto simp: agree_obj)
  have "list_all2 (=) m n" using n(2) by (rule list_all2_mono_set) (use Obj.IH in auto)
  then show ?case using n(1) by (simp add: list.rel_eq)
qed (simp_all add: agree_scalar)

text \<open>What a pass over the positions \<open>P\<close> leaves of a difference at \<open>P\<close> or \<open>Q\<close> stands at \<open>Q\<close>.\<close>

definition blind :: "(gval \<Rightarrow> gval) \<Rightarrow> bool" where
  "blind g \<longleftrightarrow> (\<forall>x. x \<noteq> GNil \<longrightarrow> g x \<noteq> GNil) \<and> (\<forall>x y. may_differ x y \<longrightarrow> g x = g y)"

definition keyless :: "(step list \<Rightarrow> bool) \<Rightarrow> bool" where
  "keyless P \<longleftrightarrow> (\<forall>p. \<not> P (p @ [Key redactedMarkerKey]))"

lemma keyless_step: "keyless P \<Longrightarrow> keyless (\<lambda>p. P (s # p))"
  by (auto simp: keyless_def) (metis append_Cons)

lemma keyless_key: "keyless P \<Longrightarrow> \<not> P [Key redactedMarkerKey]"
  by (auto simp: keyless_def) (metis append_Nil)

lemma masked_nil: "blind g \<Longrightarrow> masked g P v = GNil \<longleftrightarrow> v = GNil"
  by (cases v) (auto simp: blind_def)

lemma masked_is_obj: "\<not> P [] \<Longrightarrow> (\<exists>m. masked g P v = GObj m) \<longleftrightarrow> (\<exists>m. v = GObj m)"
  by (cases v) auto

lemma is_marker_obj: "is_marker v \<longleftrightarrow> (\<exists>i. v = GObj [(redactedMarkerKey, GObj i)])"
proof
  assume "is_marker v"
  then obtain m where "v = GObj m" "length m = Suc 0" "is_marker (GObj m)"
    by (auto simp: is_marker_def split: gval.splits if_splits)
  moreover then obtain b where "m = [b]" by (auto simp: length_Suc_conv)
  ultimately show "\<exists>i. v = GObj [(redactedMarkerKey, GObj i)]"
    by (cases b) (auto simp: is_marker_def split: option.splits gval.splits if_splits)
qed (auto simp: is_marker_def)

lemma masked_marker:
  assumes "\<not> P []" "keyless P"
  shows "is_marker (masked g P v) \<longleftrightarrow> is_marker v"
proof (cases v)
  case (GObj m)
  have "(\<exists>i. masked g (\<lambda>p. P (Key redactedMarkerKey # p)) x = GObj i) \<longleftrightarrow> (\<exists>i. x = GObj i)" for x
    using keyless_key [OF assms(2)] by (intro masked_is_obj) simp
  then show ?thesis using assms(1) GObj keyless_key [OF assms(2)] by (auto simp: is_marker_obj)
qed (use assms in \<open>auto simp: is_marker_def\<close>)

lemma masked_agree_top:
  assumes "blind g" "keyless P" "agree (\<lambda>p. P p \<or> Q p) v w"
    and "P [] \<or> Q [] \<or> \<not> (\<exists>m. v = GObj m) \<and> \<not> (\<exists>xs. v = GArr xs)"
  shows "agree Q (masked g P v) (masked g P w)"
proof -
  consider "v = w" | "P []" "may_differ v w" | "\<not> P []" "Q []" "may_differ v w"
    using assms(3,4) by (cases "P [] \<or> Q []") (auto simp: agree_at agree_scalar)
  then show ?thesis
  proof cases
    case 2
    then have "masked g P v = g v" "masked g P w = g w" "g v = g w"
      using assms(1) by (auto simp: masked.simps may_differ_def blind_def)
    then show ?thesis by (simp add: agree_refl)
  next
    case 3
    then have "may_differ (masked g P v) (masked g P w)"
      using assms(1,2) by (simp add: may_differ_def masked_nil masked_marker)
    then show ?thesis using 3 by (simp add: agree_at)
  qed (simp add: agree_refl)
qed

lemma masked_agree:
  assumes "blind g"
  shows "keyless P \<Longrightarrow> agree (\<lambda>p. P p \<or> Q p) v w \<Longrightarrow> agree Q (masked g P v) (masked g P w)"
proof (induction v arbitrary: P Q w rule: gval_induct)
  case (Arr xs)
  consider "P []" | "\<not> P []" "Q []" | "\<not> P []" "\<not> Q []" by blast
  then show ?case
  proof cases
    case 3
    then obtain ys where ys: "w = GArr ys" "list_all2 (agree (\<lambda>p. P (Elem # p) \<or> Q (Elem # p))) xs ys"
      using Arr.prems(2) by (auto simp: agree_arr)
    have "list_all2 (\<lambda>x y. agree (\<lambda>p. Q (Elem # p)) (masked g (\<lambda>p. P (Elem # p)) x) (masked g (\<lambda>p. P (Elem # p)) y)) xs ys"
      using ys(2) by (rule list_all2_mono_set) (rule Arr.IH [OF _ keyless_step [OF Arr.prems(1)]])
    then show ?thesis using 3 ys(1) by (simp add: agree_arr list_all2_map1 list_all2_map2)
  qed (rule masked_agree_top [OF assms Arr.prems], simp)+
next
  case (Obj m)
  consider "P []" | "\<not> P []" "Q []" | "\<not> P []" "\<not> Q []" by blast
  then show ?case
  proof cases
    case 3
    then obtain n where n: "w = GObj n"
      "list_all2 (\<lambda>(k, x) (l, y). k = l \<and> agree (\<lambda>p. P (Key k # p) \<or> Q (Key k # p)) x y) m n"
      using Obj.prems(2) by (auto simp: agree_obj)
    have "list_all2 (\<lambda>(k, x) (l, y). k = l \<and>
        agree (\<lambda>p. Q (Key k # p)) (masked g (\<lambda>p. P (Key k # p)) x) (masked g (\<lambda>p. P (Key l # p)) y)) m n"
      using n(2) by (rule list_all2_mono_set) (use Obj.IH [OF _ keyless_step [OF Obj.prems(1)]] in auto)
    then show ?thesis using 3 n(1) by (simp add: agree_obj list_all2_map1 list_all2_map2 case_prod_unfold)
  qed (rule masked_agree_top [OF assms Obj.prems], simp)+
qed (rule masked_agree_top [OF assms], assumption, assumption, simp)+

lemma masked_wf:
  assumes "\<And>x. wf_gval x \<Longrightarrow> wf_gval (g x)"
  shows "wf_gval v \<Longrightarrow> wf_gval (masked g P v)"
proof (induction v arbitrary: P rule: gval_induct)
  case (Obj fs)
  then show ?case using assms [of "GObj fs"] by (fastforce simp: list_all_iff)
qed (auto simp: list_all_iff assms simp del: wf_gval.simps(1,2), auto simp: list_all_iff assms)

lemma redactValue_wf [simp]: "wf_gval (redactValue sha salt v)"
  by (simp add: redactValue_def)

lemma redact_once_wf: "wf_gval v \<Longrightarrow> wf_gval (redact_once sha salt v)"
  by (simp add: redact_once_def)

lemma blind_redactValue: "blind (redactValue (\<lambda>_. d) salt)"
  by (simp add: blind_def redactValue_def)

lemma blind_redact_once: "blind (redact_once (\<lambda>_. d) salt)"
  by (auto simp: blind_def redact_once_def redactValue_def may_differ_def)

lemma keyless_walked:
  assumes "names_ok b"
  shows "keyless (walked b)"
proof -
  have "\<not> walked b (p @ [Key redactedMarkerKey])" for p
    using assms
  proof (induction p arbitrary: b rule: length_induct)
    case (1 p)
    have sub: "\<not> walked (nb_Block nb) (q @ [Key redactedMarkerKey])"
      if "nb \<in> set (bl_NestedBlocks b)" "length q < length p" for nb q
      using 1 that names_okD(4) [OF 1(2)] by blast
    show ?case
    proof (cases p)
      case Nil
      then show ?thesis using names_okD(5,6) [OF 1(2)] by auto
    next
      case (Cons s q)
      have "\<not> walked_in nb (q @ [Key redactedMarkerKey])" if nb: "nb \<in> set (bl_NestedBlocks b)" for nb
        using sub [OF nb, of q] sub [OF nb, of "tl q"] Cons
        by (cases q) (auto simp: walked_in.simps simp del: walked.simps(1) split: NestingMode.splits step.splits)
      then show ?thesis using Cons by (cases s) auto
    qed
  qed
  then show ?thesis by (simp add: keyless_def)
qed

lemma keyless_on_path:
  assumes "redactedMarkerKey \<notin> set ks"
  shows "keyless (on_path ks)"
proof -
  have "on_path ks p \<Longrightarrow> p \<noteq> [] \<and> (last p = Key j \<longrightarrow> j \<in> set ks)" for p j
    by (induction ks p rule: on_path.induct) auto
  then show ?thesis using assms unfolding keyless_def by (metis last_snoc)
qed

lemma override_paths:
  assumes "path \<in> set (OverridePathsFor source ty)"
  shows "redactedMarkerKey \<notin> set (path_of path)" "path_of path \<noteq> []"
proof -
  have "list_all (\<lambda>(s, t, p). redactedMarkerKey \<notin> set (path_of p)) SensitiveOverrides" by code_simp
  then show "redactedMarkerKey \<notin> set (path_of path)"
    using assms unfolding OverridePathsFor_def list_all_iff by auto
  show "path_of path \<noteq> []" by (cases path) (auto split: list.splits)
qed

lemma overrides_agree:
  assumes "\<And>path. path \<in> set paths \<Longrightarrow> redactedMarkerKey \<notin> set (path_of path) \<and> path_of path \<noteq> []"
    and "wf_gval v" "wf_gval w" "agree (\<lambda>p. \<exists>path \<in> set paths. on_path (path_of path) p) v w"
  shows "fold (\<lambda>path. redactOverridePath (\<lambda>_. d) salt (path_of path)) paths v =
    fold (\<lambda>path. redactOverridePath (\<lambda>_. d) salt (path_of path)) paths w"
  using assms
proof (induction paths arbitrary: v w)
  case Nil
  then show ?case by (simp add: agree_none)
next
  case (Cons a paths)
  let ?g = "redact_once (\<lambda>_. d) salt" and ?P = "on_path (path_of a)"
  have a: "redactedMarkerKey \<notin> set (path_of a)" "path_of a \<noteq> []" using Cons.prems(1) by auto
  have "agree (\<lambda>p. ?P p \<or> (\<exists>path \<in> set paths. on_path (path_of path) p)) v w" using Cons.prems(4) by simp
  from masked_agree [OF blind_redact_once keyless_on_path [OF a(1)] this]
  have "agree (\<lambda>p. \<exists>path \<in> set paths. on_path (path_of path) p) (masked ?g ?P v) (masked ?g ?P w)" .
  with Cons show ?case using a(2) by (simp add: redactOverridePath_masked masked_wf redact_once_wf)
qed

lemma walked_Nil: "\<not> walked b []"
  by simp

definition sample_attr :: "string \<Rightarrow> bool \<Rightarrow> Attribute" where
  "sample_attr n sensitive = Attribute n (Some (GStr ''string'')) [] False True False sensitive []"

definition helm_block :: Block where
  "helm_block = Block [sample_attr ''manifest'' False, sample_attr ''name'' False, sample_attr ''password'' True]
     [NestedBlock ''set'' NestingList (Block [sample_attr ''name'' False, sample_attr ''value'' True] []) 0]"

definition helm_state :: "string \<Rightarrow> string \<Rightarrow> string \<Rightarrow> fields" where
  "helm_state manifest password val =
     [(''manifest'', GStr manifest), (''name'', GStr ''web''), (''password'', GStr password),
      (''set'', GArr [GObj [(''name'', GStr ''key''), (''value'', GStr val)]])]"

lemma helm_redactable: "redactable helm_block"
  by code_simp

lemma helm_ok: "names_ok helm_block" "wf_fields (helm_state a b c)" "no_number (GObj (helm_state a b c))"
  by (code_simp, code_simp, code_simp)

text \<open>
  C14. Redaction replaces the values at exactly the positions that the schema flags, wherever blocks
  nest, each by the digest of the value, and leaves the rest of the state as it was. This is for schemas
  in which no attribute of an attribute is sensitive and every block nests in a mode the program knows
  (redactable: all that protocol 5 sends with nestings of its enum are such; C8 has what happens in the
  others) and the names of a block are distinct, not empty and not $redacted (names_ok).
\<close>

theorem redaction_exact:
  assumes "names_ok b" "redactable b" "wf_fields m"
  shows "GObj (redactBlock sha salt b m) = masked (redactValue sha salt) (flagged b) (GObj m)"
  unfolding flagged_walked [OF assms(2)] using assms(1,3) by (rule redactBlock_masked)

theorem redaction_exact_witness:
  "GObj (redactBlock (\<lambda>s. s) ''salt'' helm_block (helm_state ''a'' ''b'' ''c'')) =
   masked (redactValue (\<lambda>s. s) ''salt'') (flagged helm_block) (GObj (helm_state ''a'' ''b'' ''c''))"
  by (rule redaction_exact [OF helm_ok(1) helm_redactable helm_ok(2)])

lemma Redact_hidden:
  assumes "names_ok b" "redactable b" "wf_fields m" "wf_fields n"
    and "unmarshal_map r = Some (Some m)" "unmarshal_map r' = Some (Some n)"
    and "agree (secret source ty b) (GObj m) (GObj n)"
  shows "Redact (\<lambda>_. d) source ty b salt r = Redact (\<lambda>_. d) source ty b salt r'"
proof -
  let ?g = "redactValue (\<lambda>_. d) salt" and ?paths = "OverridePathsFor source ty"
  have "agree (\<lambda>p. walked b p \<or> (\<exists>path \<in> set ?paths. on_path (path_of path) p)) (GObj m) (GObj n)"
    using assms(7) unfolding secret_def flagged_walked [OF assms(2)] .
  from masked_agree [OF blind_redactValue keyless_walked [OF assms(1)] this]
  have "agree (\<lambda>p. \<exists>path \<in> set ?paths. on_path (path_of path) p)
      (GObj (redactBlock (\<lambda>_. d) salt b m)) (GObj (redactBlock (\<lambda>_. d) salt b n))"
    by (simp only: redactBlock_masked [OF assms(1,3)] redactBlock_masked [OF assms(1,4)])
  moreover have "wf_gval (GObj (redactBlock (\<lambda>_. d) salt b l))" if "wf_fields l" for l
    by (simp only: redactBlock_masked [OF assms(1) that] masked_wf [OF redactValue_wf that])
  ultimately show ?thesis
    using overrides_agree [of ?paths] override_paths assms(3-6)
    unfolding Redact_def by (simp add: marshal_map_def)
qed

lemma helm_agree:
  "agree (secret ''hashicorp/helm'' ''helm_release'' helm_block)
     (GObj (helm_state ''a'' ''b'' ''c'')) (GObj (helm_state ''x'' ''y'' ''z''))"
  by code_simp

text \<open>
  C7. What redaction lets out of a state is its content outside the secret positions, those the schema
  flags and those of the program's own table, and the digests of the secrets: two states that agree
  elsewhere, and in which at a secret position the two values are equal or neither is null or has the
  shape of a marker, redact to the same document once the digests are hidden. (Whether a secret is null
  shows, and a value of the override table that looks redacted is let through.) As in C14, no attribute of
  an attribute is sensitive, nesting modes are known and the names of a block are apart.
\<close>

theorem redaction_hides:
  assumes "names_ok b" "redactable b" "wf_fields m" "wf_fields n"
    and "unmarshal_map r = Some (Some m)" "unmarshal_map r' = Some (Some n)"
    and "agree (secret source ty b) (GObj m) (GObj n)"
  shows "Redact (\<lambda>_. d) source ty b salt r = Redact (\<lambda>_. d) source ty b salt r'"
  using assms by (rule Redact_hidden)

theorem redaction_hides_witness:
  "Redact (\<lambda>_. ''d'') ''hashicorp/helm'' ''helm_release'' helm_block ''s'' (Some (GObj (helm_state ''a'' ''b'' ''c''))) =
   Redact (\<lambda>_. ''d'') ''hashicorp/helm'' ''helm_release'' helm_block ''s'' (Some (GObj (helm_state ''x'' ''y'' ''z'')))"
  by (rule redaction_hides [OF helm_ok(1) helm_redactable helm_ok(2,2) unmarshal_map_no_number unmarshal_map_no_number])
    (rule helm_ok(3), rule helm_ok(3), rule helm_agree)

text \<open>The values at the positions \<open>P\<close>.\<close>

fun secrets :: "(step list \<Rightarrow> bool) \<Rightarrow> gval \<Rightarrow> gval list" where
  "secrets P v =
     (if P [] \<and> v \<noteq> GNil then [v]
      else case v of
        GObj m \<Rightarrow> concat (map (\<lambda>(k, x). secrets (\<lambda>p. P (Key k # p)) x) m)
      | GArr xs \<Rightarrow> concat (map (secrets (\<lambda>p. P (Elem # p))) xs)
      | _ \<Rightarrow> [])"

declare secrets.simps [simp del]

lemma map_eq_list_all2: "map f xs = map h ys \<longleftrightarrow> list_all2 (\<lambda>x y. f x = h y) xs ys"
  by (auto simp: list_all2_conv_all_nth list_eq_iff_nth_eq)

lemma masked_inj_top:
  assumes "\<forall>x. x \<noteq> GNil \<longrightarrow> g x \<noteq> GNil"
    and "\<forall>x \<in> set (secrets P v). \<forall>y \<in> set (secrets P w). g x = g y \<longrightarrow> x = y"
    and "masked g P v = masked g P w"
    and "P [] \<or> \<not> (\<exists>m. v = GObj m) \<and> \<not> (\<exists>xs. v = GArr xs)"
  shows "v = w"
proof (cases "P []")
  case True
  then have m: "masked g P u = (if u = GNil then GNil else g u)" for u by (cases u) simp_all
  have "secrets P u = [u]" if "u \<noteq> GNil" for u using True that by (subst secrets.simps) simp
  then have "v \<noteq> GNil \<Longrightarrow> w \<noteq> GNil \<Longrightarrow> g v = g w \<longrightarrow> v = w" using assms(2) by simp
  then show ?thesis using assms(1,3) unfolding m [of v] m [of w] by (metis (full_types))
next
  case False
  then have "masked g P v = v" using assms(4) by (cases v) auto
  then show ?thesis using assms(3,4) False by (cases w) auto
qed

lemma masked_inj:
  assumes "\<forall>x. x \<noteq> GNil \<longrightarrow> g x \<noteq> GNil"
  shows "\<forall>x \<in> set (secrets P v). \<forall>y \<in> set (secrets P w). g x = g y \<longrightarrow> x = y \<Longrightarrow>
    masked g P v = masked g P w \<Longrightarrow> v = w"
proof (induction v arbitrary: P w rule: gval_induct)
  case (Arr xs)
  show ?case
  proof (cases "P []")
    case True
    then show ?thesis using masked_inj_top [OF assms Arr.prems] by blast
  next
    case False
    then obtain ys where w: "w = GArr ys" using Arr.prems(2) by (cases w) auto
    have "list_all2 (\<lambda>x y. masked g (\<lambda>p. P (Elem # p)) x = masked g (\<lambda>p. P (Elem # p)) y) xs ys"
      using Arr.prems(2) False w by (simp add: map_eq_list_all2)
    then have "list_all2 (=) xs ys"
    proof (rule list_all2_mono_set)
      fix x y
      assume xy: "x \<in> set xs" "y \<in> set ys" and
        eq: "masked g (\<lambda>p. P (Elem # p)) x = masked g (\<lambda>p. P (Elem # p)) y"
      have "set (secrets (\<lambda>p. P (Elem # p)) x) \<subseteq> set (secrets P (GArr xs))"
        "set (secrets (\<lambda>p. P (Elem # p)) y) \<subseteq> set (secrets P (GArr ys))"
        using xy False by (fastforce simp: secrets.simps [of P "GArr _"])+
      then show "x = y" using Arr.prems(1) w eq Arr.IH [OF xy(1), of "\<lambda>p. P (Elem # p)" y] by blast
    qed
    then show ?thesis using w by (simp add: list.rel_eq)
  qed
next
  case (Obj m)
  show ?case
  proof (cases "P []")
    case True
    then show ?thesis using masked_inj_top [OF assms Obj.prems] by blast
  next
    case False
    then obtain n where w: "w = GObj n" using Obj.prems(2) by (cases w) auto
    have "list_all2 (\<lambda>b c. fst b = fst c \<and>
        masked g (\<lambda>p. P (Key (fst b) # p)) (snd b) = masked g (\<lambda>p. P (Key (fst c) # p)) (snd c)) m n"
      using Obj.prems(2) False w by (simp add: map_eq_list_all2 case_prod_unfold)
    then have "list_all2 (=) m n"
    proof (rule list_all2_mono_set)
      fix b c
      assume bc: "b \<in> set m" "c \<in> set n" and
        eq: "fst b = fst c \<and> masked g (\<lambda>p. P (Key (fst b) # p)) (snd b) = masked g (\<lambda>p. P (Key (fst c) # p)) (snd c)"
      have "set (secrets (\<lambda>p. P (Key (fst b) # p)) (snd b)) \<subseteq> set (secrets P (GObj m))"
        "set (secrets (\<lambda>p. P (Key (fst c) # p)) (snd c)) \<subseteq> set (secrets P (GObj n))"
        using bc False by (fastforce simp: secrets.simps [of P "GObj _"])+
      then have "snd b = snd c"
        using Obj.prems(1) w eq bc(1) Obj.IH [of "fst b" "snd b" "\<lambda>p. P (Key (fst b) # p)" "snd c"]
        unfolding prod.collapse by (metis subsetD)
      with eq show "b = c" by (simp add: prod_eq_iff)
    qed
    then show ?thesis using w by (simp add: list.rel_eq)
  qed
qed (rule masked_inj_top [OF assms], assumption, assumption, simp)+

text \<open>
  C16. Redaction keeps a change visible. Take two documents of a type for which the program's own table has
  no entry, decoded as Go decodes them, numbers as float64: unless the digests of two different values
  that are replaced collide, they redact to the same document only if they are the same decoded document.
\<close>

theorem redaction_keeps_changes:
  assumes "names_ok b" "wf_fields m" "wf_fields n"
    and "unmarshal_map r = Some (Some m)" "unmarshal_map r' = Some (Some n)" "OverridePathsFor source ty = []"
    and "\<And>x y. x \<in> set (secrets (walked b) (GObj m)) \<Longrightarrow> y \<in> set (secrets (walked b) (GObj n)) \<Longrightarrow>
      sha (salt @ marshal_text x) = sha (salt @ marshal_text y) \<Longrightarrow> x = y"
  shows "Redact sha source ty b salt r = Redact sha source ty b salt r' \<longleftrightarrow> m = n"
proof
  assume "Redact sha source ty b salt r = Redact sha source ty b salt r'"
  then have "redactBlock sha salt b m = redactBlock sha salt b n"
    using assms(4-6) by (simp add: Redact_def marshal_map_def)
  then have "masked (redactValue sha salt) (walked b) (GObj m) = masked (redactValue sha salt) (walked b) (GObj n)"
    by (simp only: redactBlock_masked [OF assms(1,2), symmetric] redactBlock_masked [OF assms(1,3), symmetric])
  then have "GObj m = GObj n"
    by (rule masked_inj [rotated 2]) (use assms(7) in \<open>auto simp: redactValue_def\<close>)
  then show "m = n" by simp
qed (simp add: Redact_def assms(4,5))

theorem redaction_keeps_changes_witness:
  "Redact (\<lambda>s. s) ''hashicorp/aws'' ''aws_thing'' helm_block ''s'' (Some (GObj (helm_state ''a'' ''b'' ''c''))) \<noteq>
   Redact (\<lambda>s. s) ''hashicorp/aws'' ''aws_thing'' helm_block ''s'' (Some (GObj (helm_state ''a'' ''b'' ''d'')))"
proof -
  have "secrets (walked helm_block) (GObj (helm_state ''a'' ''b'' ''c'')) = [GStr ''b'', GStr ''c'']"
    "secrets (walked helm_block) (GObj (helm_state ''a'' ''b'' ''d'')) = [GStr ''b'', GStr ''d'']"
    by code_simp+
  moreover have "list_all (\<lambda>x. list_all (\<lambda>y. marshal_text x = marshal_text y \<longrightarrow> x = y)
    [GStr ''b'', GStr ''d'']) [GStr ''b'', GStr ''c'']" by code_simp
  moreover have "OverridePathsFor ''hashicorp/aws'' ''aws_thing'' = []" by code_simp
  ultimately have "Redact (\<lambda>s. s) ''hashicorp/aws'' ''aws_thing'' helm_block ''s'' (Some (GObj (helm_state ''a'' ''b'' ''c''))) =
      Redact (\<lambda>s. s) ''hashicorp/aws'' ''aws_thing'' helm_block ''s'' (Some (GObj (helm_state ''a'' ''b'' ''d''))) \<longleftrightarrow>
    helm_state ''a'' ''b'' ''c'' = helm_state ''a'' ''b'' ''d''"
    by (intro redaction_keeps_changes [OF helm_ok(1,2,2) unmarshal_map_no_number [OF helm_ok(3)]
          unmarshal_map_no_number [OF helm_ok(3)]]) (auto simp: list_all_iff)
  then show ?thesis by (simp add: helm_state_def)
qed

section \<open>Nested attributes\<close>

text \<open>A block as protocol 6 sends it: one attribute, an object with a sensitive member.\<close>

definition nested_wire :: "Schema_Attribute Schema_Block" where
  "nested_wire = Schema_Block
     [Schema_Attribute ''spec'' None
       (Some (Schema_Object [Schema_Attribute ''password'' (Some (GStr ''string'')) None [] False True False True] 1))
       [] False True False False] []"

definition nested_state :: "string \<Rightarrow> fields" where
  "nested_state pw = [(''spec'', GObj [(''password'', GStr pw)])]"

text \<open>
  C8. The sensitive flag of a nested attribute survives the translation of a protocol 6 schema and is
  never consulted: the state passes redaction unchanged, with the secret in it.
\<close>

theorem nested_secret_leaks:
  assumes "cty_UnmarshalType cty (Some (GStr ''string'')) = Inr t"
    and "cty_MarshalType cty (cty_Object cty [(''password'', t)]) = Inr tj"
    and "OverridePathsFor source ty = []"
  shows "\<exists>b. blockFromV6 cty (Some nested_wire) = Inr b \<and>
    map (map at_Sensitive \<circ> at_NestedAttributes) (bl_Attributes b) = [[True]] \<and>
    Redact sha source ty b salt (Some (GObj (nested_state pw))) = Inr (Some (GObj (nested_state pw)))"
proof -
  define b where "b = Block [Attribute ''spec'' tj [] False True False False
    [Attribute ''password'' (Some (GStr ''string'')) [] False True False True []]] []"
  have "blockFromV6 cty (Some nested_wire) = Inr b"
    by (simp add: nested_wire_def b_def attributeTypeJSONFromV6_def nestedObjectCtyTypeFromV6.simps
      cty_collection_def assms(1,2))
  moreover have "redactBlock sha salt b m = m" for m
    by (simp add: b_def redactBlock.simps redactAttribute_def)
  moreover have "no_number (GObj (nested_state pw))" by (simp add: nested_state_def)
  ultimately show ?thesis
    by (intro exI [of _ b]) (simp add: Redact_def unmarshal_map_no_number assms(3) marshal_map_def, simp add: b_def)
qed

definition text_cty :: "gval cty_ops" where
  "text_cty = \<lparr>cty_UnmarshalType = of_opt EJson, cty_MarshalType = \<lambda>t. Inr (Some t),
     cty_Object = \<lambda>m. GArr [GStr ''object'', GObj m], cty_List = \<lambda>t. GArr [GStr ''list'', t],
     cty_Set = \<lambda>t. GArr [GStr ''set'', t], cty_Map = \<lambda>t. GArr [GStr ''map'', t]\<rparr>"

theorem nested_secret_leaks_witness:
  "\<exists>b. blockFromV6 text_cty (Some nested_wire) = Inr b \<and>
    map (map at_Sensitive \<circ> at_NestedAttributes) (bl_Attributes b) = [[True]] \<and>
    Redact (\<lambda>s. s) ''ubx/kubernetes'' ''kubernetes_thing'' b ''salt'' (Some (GObj (nested_state ''hunter2''))) =
      Inr (Some (GObj (nested_state ''hunter2'')))"
  by (rule nested_secret_leaks [of text_cty "GStr ''string''"])
    (simp add: text_cty_def, simp add: text_cty_def, code_simp)

end
