(* ===== verification/Adapter.thy ===== *)
theory Adapter
  imports Redact ShipNode
begin

text \<open>
  cli/stateadapter.go: a provider as the reader and the applier that scans and ships are run with. The
  provider is a record of operations on a world; what it answers reaches the core through redaction
  only, and the lookup key of a new resource is derived from what redaction let through.
\<close>

section \<open>Providers\<close>

text \<open>
  A provider's error: its text, and whether errors.As finds a DiagnosticError in it. A schema is a
  pointer, which may be nil.
\<close>

record providerErr =
  pe_Text :: string
  pe_Diagnostic :: bool

record 'w Provider =
  pr_Schema :: "('w, err, Schemas) op"
  pr_Configure :: "Schema option \<Rightarrow> raw \<Rightarrow> ('w, err, unit) op"
  pr_ReadResource :: "Schema option \<Rightarrow> string \<Rightarrow> raw \<Rightarrow> ('w, err, raw) op"
  pr_ApplyResourceChange ::
    "Schema option \<Rightarrow> string \<Rightarrow> raw \<Rightarrow> raw \<Rightarrow> raw \<Rightarrow> string \<Rightarrow> ('w, providerErr, raw) op"
  pr_PlanResourceChange :: "Schema option \<Rightarrow> string \<Rightarrow> raw \<Rightarrow> raw \<Rightarrow> ('w, providerErr, raw \<times> string) op"

record 'w stateReaderAdapter =
  sra_p :: "'w Provider"
  sra_salt :: string
  sra_source :: string
  sra_identity :: "string \<Rightarrow> string list"

section \<open>The adapter\<close>

definition adapter_Schema ::
    "'w stateReaderAdapter \<Rightarrow> ('w, err, Schema option \<times> (string \<Rightarrow> Schema option option)) op" where
  "adapter_Schema a =
     obind (pr_Schema (sra_p a)) (\<lambda>schemas.
       oret (Inr (scs_Provider schemas, \<lambda>name. map_option Some (scs_Resources schemas name))))"

text \<open>A nil schema is only looked into when there is something to redact.\<close>

definition redact_as :: "(string \<Rightarrow> string) \<Rightarrow> 'w stateReaderAdapter \<Rightarrow> Schema option \<Rightarrow> string \<Rightarrow> raw \<Rightarrow> (err, raw) res" where
  "redact_as sha a rs ty r = (case rs of
      None \<Rightarrow> Inl EPanic
    | Some sc \<Rightarrow> Redact sha (sra_source a) ty (sc_Block sc) (sra_salt a) r)"

definition adapter_ReadResource ::
    "(string \<Rightarrow> string) \<Rightarrow> 'w stateReaderAdapter \<Rightarrow> Schema option \<Rightarrow> string \<Rightarrow> raw \<Rightarrow> ('w, err, raw) op" where
  "adapter_ReadResource sha a rs ty currentState =
     obind (pr_ReadResource (sra_p a) rs ty currentState) (\<lambda>observed.
       oret (if observed = None then Inr observed else redact_as sha a rs ty observed))"

definition adapter_error :: "providerErr \<Rightarrow> applyErr" where
  "adapter_error e = \<lparr>ae_Text = pe_Text e, ae_Terminal = (if pe_Diagnostic e then Some (pe_Text e) else None)\<rparr>"

definition schema_type_error :: applyErr where
  "schema_type_error =
     \<lparr>ae_Text = ''stateReaderAdapter: unexpected resource schema type <nil>'', ae_Terminal = None\<rparr>"

definition required_names :: "Schema \<Rightarrow> string list" where
  "required_names sc = map at_Name (filter at_Required (bl_Attributes (sc_Block sc)))"

definition adapter_lookup :: "'w stateReaderAdapter \<Rightarrow> Schema \<Rightarrow> string \<Rightarrow> raw \<Rightarrow> raw" where
  "adapter_lookup a sc ty redacted =
     (let ident = sra_identity a ty;
          lookup = (if ident = [] then None else DeriveLookupFromResult redacted ident)
      in if lookup \<noteq> None then lookup else DeriveLookupFromResult redacted (required_names sc))"

definition adapter_ApplyResourceChange ::
    "(string \<Rightarrow> string) \<Rightarrow> (err \<Rightarrow> string) \<Rightarrow> 'w stateReaderAdapter \<Rightarrow> Schema option option \<Rightarrow> string \<Rightarrow> raw \<Rightarrow> raw \<Rightarrow>
     string \<Rightarrow> 'w \<Rightarrow> (applyErr, raw \<times> raw) res \<times> 'w" where
  "adapter_ApplyResourceChange sha etext a resourceSchema ty priorState plannedState plannedPrivate w =
     (case resourceSchema of
        None \<Rightarrow> (Inl schema_type_error, w)
      | Some rs \<Rightarrow>
          (case pr_ApplyResourceChange (sra_p a) rs ty priorState plannedState plannedState plannedPrivate w of
             (Inl e, w) \<Rightarrow> (Inl (adapter_error e), w)
           | (Inr result, w) \<Rightarrow>
               if result = None then (Inr (result, None), w)
               else (case redact_as sha a rs ty result of
                   Inl e \<Rightarrow> (Inl \<lparr>ae_Text = etext e, ae_Terminal = None\<rparr>, w)
                 | Inr redacted \<Rightarrow> (Inr (redacted, adapter_lookup a (the rs) ty redacted), w))))"

definition adapter_PlanResourceChange ::
    "'w stateReaderAdapter \<Rightarrow> Schema option option \<Rightarrow> string \<Rightarrow> raw \<Rightarrow> raw \<Rightarrow> 'w \<Rightarrow> (applyErr, raw \<times> string) res \<times> 'w" where
  "adapter_PlanResourceChange a resourceSchema ty priorState proposedNewState w =
     (case resourceSchema of
        None \<Rightarrow> (Inl schema_type_error, w)
      | Some rs \<Rightarrow>
          (case pr_PlanResourceChange (sra_p a) rs ty priorState proposedNewState w of
             (Inl e, w) \<Rightarrow> (Inl (adapter_error e), w)
           | (Inr planned, w) \<Rightarrow> (Inr planned, w)))"

definition IdentityAttributes :: "'w stateReaderAdapter \<Rightarrow> string \<Rightarrow> string list option" where
  "IdentityAttributes a resourceType =
     (let attrs = sra_identity a resourceType in if attrs = [] then None else Some attrs)"

definition newApplierWithIdentity ::
    "(string \<Rightarrow> string) \<Rightarrow> (err \<Rightarrow> string) \<Rightarrow> 'w Provider \<Rightarrow> string \<Rightarrow> string \<Rightarrow> (string \<Rightarrow> string list) \<Rightarrow>
     ('w, Schema option) Applier" where
  "newApplierWithIdentity sha etext p salt source identity =
     (let a = \<lparr>sra_p = p, sra_salt = salt, sra_source = source, sra_identity = identity\<rparr>
      in \<lparr>rd_Schema = adapter_Schema a, rd_Configure = pr_Configure p, rd_ReadResource = adapter_ReadResource sha a,
          ap_ApplyResourceChange = adapter_ApplyResourceChange sha etext a,
          ap_PlanResourceChange = adapter_PlanResourceChange a\<rparr>)"

definition newApplier ::
    "(string \<Rightarrow> string) \<Rightarrow> (err \<Rightarrow> string) \<Rightarrow> 'w Provider \<Rightarrow> string \<Rightarrow> string \<Rightarrow> ('w, Schema option) Applier" where
  "newApplier sha etext p salt source = newApplierWithIdentity sha etext p salt source (\<lambda>_. [])"

section \<open>What crosses the boundary\<close>

text \<open>
  C17. The core learns from a provider's answer no more than redaction lets out: two providers whose
  answers to an apply agree outside the secret positions, and have at a secret position the same value
  or two that are neither null nor of the shape of a marker, give the core the same result and the same
  lookup key, once the digests are hidden. As for C7, the schema has no sensitive attribute of an
  attribute, its nesting modes are known and the names of a block are apart.
\<close>

theorem apply_result_hides:
  assumes "names_ok (sc_Block sc)" "redactable (sc_Block sc)" "wf_fields m" "wf_fields n"
    and "unmarshal_map r = Some (Some m)" "unmarshal_map r' = Some (Some n)"
    and "agree (secret source ty (sc_Block sc)) (GObj m) (GObj n)"
    and "pr_ApplyResourceChange p (Some sc) ty prior planned planned priv w = (Inr r, w1)"
    and "pr_ApplyResourceChange q (Some sc) ty prior planned planned priv v = (Inr r', v1)"
  shows "fst (ap_ApplyResourceChange (newApplierWithIdentity (\<lambda>_. d) etext p salt source ident)
      (Some (Some sc)) ty prior planned priv w) =
    fst (ap_ApplyResourceChange (newApplierWithIdentity (\<lambda>_. d) etext q salt source ident)
      (Some (Some sc)) ty prior planned priv v)"
proof -
  obtain x y where r: "r = Some x" "r' = Some y" using assms(5,6) by (cases r; cases r') auto
  have "Redact (\<lambda>_. d) source ty (sc_Block sc) salt (Some x) = Redact (\<lambda>_. d) source ty (sc_Block sc) salt (Some y)"
    using Redact_hidden [OF assms(1-7)] unfolding r .
  then show ?thesis using assms(8,9) unfolding r
    by (simp add: newApplierWithIdentity_def Let_def adapter_ApplyResourceChange_def redact_as_def adapter_lookup_def
      split: sum.split)
qed

definition fixed_provider :: "raw \<Rightarrow> unit Provider" where
  "fixed_provider r = \<lparr>pr_Schema = oret (Inl EJson), pr_Configure = \<lambda>_ _. oret (Inr ()),
     pr_ReadResource = \<lambda>_ _ _. oret (Inr r), pr_ApplyResourceChange = \<lambda>_ _ _ _ _ _. oret (Inr r),
     pr_PlanResourceChange = \<lambda>_ _ _ _. oret (Inr (r, []))\<rparr>"

theorem apply_result_hides_witness:
  "fst (ap_ApplyResourceChange (newApplierWithIdentity (\<lambda>_. ''d'') (\<lambda>_. [])
      (fixed_provider (Some (GObj (helm_state ''a'' ''b'' ''c'')))) ''s'' ''hashicorp/helm'' (\<lambda>_. [''name'']))
      (Some (Some \<lparr>sc_Version = 0, sc_Block = helm_block\<rparr>)) ''helm_release'' None None [] ()) =
   fst (ap_ApplyResourceChange (newApplierWithIdentity (\<lambda>_. ''d'') (\<lambda>_. [])
      (fixed_provider (Some (GObj (helm_state ''x'' ''y'' ''z'')))) ''s'' ''hashicorp/helm'' (\<lambda>_. [''name'']))
      (Some (Some \<lparr>sc_Version = 0, sc_Block = helm_block\<rparr>)) ''helm_release'' None None [] ())"
  by (rule apply_result_hides [OF _ _ helm_ok(2,2) unmarshal_map_no_number unmarshal_map_no_number])
    (simp add: helm_ok, simp add: helm_redactable, rule helm_ok(3), rule helm_ok(3), unfold Schema.simps, rule helm_agree,
      simp_all add: fixed_provider_def)

end
