(* ===== verification/SchemaKeys.thy ===== *)
theory SchemaKeys
  imports Complex_Main Redact
begin

text \<open>
  provider/schemakeys.go and cli/schemainspector.go: what the resolver asks of a provider's schema
  before anything ships. Keys of a configuration that the schema does not know, with the name that was
  probably meant; required attributes that are missing; whether a path is computed or sensitive.
  The scores of the suggestions are float64 quotients of lengths; they are rationals here, which compare
  the same for names shorter than \<open>2 ^ 26\<close> bytes, since two such quotients differ by more than the
  rounding error.
\<close>

section \<open>Suggestions\<close>

fun isPrefixAt :: "string \<Rightarrow> string \<Rightarrow> bool" where
  "isPrefixAt needle [] \<longleftrightarrow> take (length needle) [] = needle"
| "isPrefixAt needle (c # cs) \<longleftrightarrow> take (length needle) (c # cs) = needle \<or> isPrefixAt needle cs"

definition containsSubstring :: "string \<Rightarrow> string \<Rightarrow> bool" where
  "containsSubstring haystack needle \<longleftrightarrow>
     (if needle = [] \<or> length needle > length haystack then False else isPrefixAt needle haystack)"

text \<open>One row of the table from the row above it: the cells to the right of \<open>left\<close>.\<close>

fun lev_row :: "char \<Rightarrow> string \<Rightarrow> nat list \<Rightarrow> nat \<Rightarrow> nat list" where
  "lev_row c (d # ds) (p # q # ps) left =
     (let cost = (if c = d then 0 else 1);
          del = q + 1;
          ins = left + 1;
          sub = p + cost;
          m = del;
          m = (if ins < m then ins else m);
          m = (if sub < m then sub else m)
      in m # lev_row c ds (q # ps) m)"
| "lev_row c ds ps left = []"

fun lev_rows :: "nat \<Rightarrow> string \<Rightarrow> string \<Rightarrow> nat list \<Rightarrow> nat list" where
  "lev_rows i [] b prev = prev"
| "lev_rows i (c # cs) b prev = lev_rows (i + 1) cs b (i # lev_row c b prev i)"

definition levenshtein :: "string \<Rightarrow> string \<Rightarrow> nat" where
  "levenshtein a b =
     (if a = b then 0
      else if a = [] then length b
      else if b = [] then length a
      else lev_rows 1 a b [0..<length b + 1] ! length b)"

definition ratio :: "nat \<Rightarrow> nat \<Rightarrow> rat" where
  "ratio n d = of_nat n / of_nat d"

text \<open>The overlap of a candidate with a key, when the one contains the other.\<close>

definition overlap :: "string \<Rightarrow> string \<Rightarrow> rat option" where
  "overlap key c =
     (let (shorter, longer) = (if length key < length c then (key, c) else (c, key))
      in if length shorter < 3 \<or> \<not> containsSubstring longer shorter then None
         else if ratio (length shorter) (length longer) < 1 / 5 then None
         else Some (ratio (length shorter) (length longer)))"

definition similarity :: "string \<Rightarrow> string \<Rightarrow> rat option" where
  "similarity key c =
     (let maxLen = (if length c > length key then length c else length key)
      in if maxLen = 0 then None else Some (1 - ratio (levenshtein key c) maxLen))"

text \<open>The first candidate with a score above all before it.\<close>

fun best_of :: "(string \<Rightarrow> rat option) \<Rightarrow> string list \<Rightarrow> string \<times> rat \<Rightarrow> string \<times> rat" where
  "best_of score [] best = best"
| "best_of score (c # cs) best = (case score c of
      None \<Rightarrow> best_of score cs best
    | Some s \<Rightarrow> best_of score cs (if s > snd best then (c, s) else best))"

definition closestBySubstring :: "string \<Rightarrow> string list \<Rightarrow> string" where
  "closestBySubstring key candidates = fst (best_of (overlap key) candidates ([], 0))"

definition closestByEditDistance :: "string \<Rightarrow> string list \<Rightarrow> string" where
  "closestByEditDistance key candidates =
     (let (best, bestScore) = best_of (similarity key) candidates ([], 0)
      in if bestScore < 3 / 4 then [] else best)"

definition closestKey :: "string \<Rightarrow> string list \<Rightarrow> string" where
  "closestKey key candidates =
     (let best = closestBySubstring key candidates
      in if best \<noteq> [] then best else closestByEditDistance key candidates)"

section \<open>Unknown and missing keys\<close>

record ConfigKeyIssue =
  ci_Path :: string
  ci_Key :: string
  ci_Suggestion :: string

record RequiredAttributeIssue =
  ri_Path :: string
  ri_Key :: string

definition knownKeyNames :: "Block \<Rightarrow> string list" where
  "knownKeyNames block = map at_Name (bl_Attributes block) @ map nb_TypeName (bl_NestedBlocks block)"

text \<open>Members are visited in the order of their keys, which is the order they are kept in.\<close>

function unknownConfigKeysAt :: "Block \<Rightarrow> gval \<Rightarrow> string \<Rightarrow> ConfigKeyIssue list"
  and unknownConfigKeysWithinNested :: "NestedBlock \<Rightarrow> gval \<Rightarrow> string \<Rightarrow> ConfigKeyIssue list" where
  "unknownConfigKeysAt block raw pre = (case raw of
      GObj m \<Rightarrow>
        concat (map (\<lambda>(k, v).
          let path = sub_path pre k
          in if k \<notin> set (knownKeyNames block)
             then [\<lparr>ci_Path = path, ci_Key = k, ci_Suggestion = closestKey k (knownKeyNames block)\<rparr>]
             else concat (map (\<lambda>nb. if nb_TypeName nb = k then unknownConfigKeysWithinNested nb v path else [])
                    (bl_NestedBlocks block))) m)
    | _ \<Rightarrow> [])"
| "unknownConfigKeysWithinNested nb raw path =
     (if nb_Nesting nb = NestingList \<or> nb_Nesting nb = NestingSet then
        (case raw of
           GArr arr \<Rightarrow> concat (map (\<lambda>item. unknownConfigKeysAt (nb_Block nb) item path) arr)
         | _ \<Rightarrow> unknownConfigKeysAt (nb_Block nb) raw path)
      else if nb_Nesting nb = NestingMap then
        (case raw of
           GObj m \<Rightarrow> concat (map (\<lambda>(k, v). unknownConfigKeysAt (nb_Block nb) v (path @ CHR ''.'' # k)) m)
         | _ \<Rightarrow> [])
      else unknownConfigKeysAt (nb_Block nb) raw path)"
  by pat_completeness auto
termination
  by (relation "measure (case_sum (\<lambda>(b, _). 2 * size b) (\<lambda>(nb, _). 2 * size nb))")
    (auto simp: Block_size_rec NestedBlock_size)

declare unknownConfigKeysAt.simps [simp del] unknownConfigKeysWithinNested.simps [simp del]

definition UnknownConfigKeys :: "Block \<Rightarrow> fields \<Rightarrow> ConfigKeyIssue list" where
  "UnknownConfigKeys block config = unknownConfigKeysAt block (GObj config) []"

function missingRequiredKeysAt :: "Block \<Rightarrow> gval \<Rightarrow> string \<Rightarrow> RequiredAttributeIssue list"
  and missingRequiredKeysWithinNested :: "NestedBlock \<Rightarrow> gval \<Rightarrow> string \<Rightarrow> RequiredAttributeIssue list" where
  "missingRequiredKeysAt block raw pre =
     (let m = (case raw of GObj m \<Rightarrow> m | _ \<Rightarrow> [])
      in map (\<lambda>a. \<lparr>ri_Path = sub_path pre (at_Name a), ri_Key = at_Name a\<rparr>)
           (filter (\<lambda>a. at_Required a \<and> map_of m (at_Name a) = None) (bl_Attributes block)) @
         concat (map (\<lambda>nb. case map_of m (nb_TypeName nb) of
             None \<Rightarrow> []
           | Some v \<Rightarrow> missingRequiredKeysWithinNested nb v (sub_path pre (nb_TypeName nb)))
           (bl_NestedBlocks block)))"
| "missingRequiredKeysWithinNested nb raw path =
     (if nb_Nesting nb = NestingList \<or> nb_Nesting nb = NestingSet then
        (case raw of
           GArr arr \<Rightarrow> concat (map (\<lambda>item. missingRequiredKeysAt (nb_Block nb) item path) arr)
         | _ \<Rightarrow> missingRequiredKeysAt (nb_Block nb) raw path)
      else if nb_Nesting nb = NestingMap then
        (case raw of
           GObj m \<Rightarrow> concat (map (\<lambda>(k, v). missingRequiredKeysAt (nb_Block nb) v (path @ CHR ''.'' # k)) m)
         | _ \<Rightarrow> [])
      else missingRequiredKeysAt (nb_Block nb) raw path)"
  by pat_completeness auto
termination
  by (relation "measure (case_sum (\<lambda>(b, _). 2 * size b) (\<lambda>(nb, _). 2 * size nb))")
    (auto simp: Block_size_rec NestedBlock_size)

declare missingRequiredKeysAt.simps [simp del] missingRequiredKeysWithinNested.simps [simp del]

definition MissingRequiredKeys :: "Block \<Rightarrow> fields \<Rightarrow> RequiredAttributeIssue list" where
  "MissingRequiredKeys block config = missingRequiredKeysAt block (GObj config) []"

section \<open>The inspector\<close>

text \<open>strings.Cut: before the separator, after it, and whether there is one.\<close>

definition cut_dot :: "string \<Rightarrow> string \<times> string \<times> bool" where
  "cut_dot s = (let name = takeWhile (\<lambda>c. c \<noteq> CHR ''.'') s
     in (name, drop (length name + 1) s, length name < length s))"

function attributeAt :: "Block \<Rightarrow> string \<Rightarrow> Attribute option" where
  "attributeAt block path =
     (let (name, rest, hasRest) = cut_dot path
      in case find (\<lambda>a. at_Name a = name) (bl_Attributes block) of
           Some a \<Rightarrow> Some a
         | None \<Rightarrow> (case find (\<lambda>nb. nb_TypeName nb = name) (bl_NestedBlocks block) of
             Some nb \<Rightarrow> if \<not> hasRest then None else attributeAt (nb_Block nb) rest
           | None \<Rightarrow> None))"
  by pat_completeness auto
termination
  by (relation "measure (\<lambda>(b, _). size b)") (auto dest!: find_in_set intro: Block_size)

declare attributeAt.simps [simp del]

definition resourceBlock :: "Schemas \<Rightarrow> string \<Rightarrow> Block option" where
  "resourceBlock schemas ty = map_option sc_Block (scs_Resources schemas ty)"

definition attribute_is :: "Schemas \<Rightarrow> (Attribute \<Rightarrow> bool) \<Rightarrow> string \<Rightarrow> string \<Rightarrow> bool" where
  "attribute_is schemas P ty attrPath = (case resourceBlock schemas ty of
      None \<Rightarrow> False
    | Some b \<Rightarrow> (case attributeAt b attrPath of None \<Rightarrow> False | Some a \<Rightarrow> P a))"

definition newSchemaInspector :: "Schemas \<Rightarrow> SchemaInspector" where
  "newSchemaInspector schemas =
     \<lparr>si_HasType = (\<lambda>ty. scs_Resources schemas ty \<noteq> None),
      si_IsComputed = attribute_is schemas at_Computed,
      si_IsProviderOwned = attribute_is schemas (\<lambda>a. at_Computed a \<and> \<not> at_Optional a),
      si_IsSensitive = attribute_is schemas at_Sensitive,
      si_UnknownConfigKeys = (\<lambda>ty config. case resourceBlock schemas ty of
          None \<Rightarrow> []
        | Some b \<Rightarrow> map (\<lambda>iss. (ci_Path iss, ci_Suggestion iss)) (UnknownConfigKeys b config)),
      si_MissingRequiredKeys = (\<lambda>ty config. case resourceBlock schemas ty of
          None \<Rightarrow> []
        | Some b \<Rightarrow> map ri_Path (MissingRequiredKeys b config))\<rparr>"

definition resourceTypeSchemaInspector :: "(string \<Rightarrow> 'x option) \<Rightarrow> SchemaInspector" where
  "resourceTypeSchemaInspector resourceSchemas =
     \<lparr>si_HasType = (\<lambda>ty. resourceSchemas ty \<noteq> None), si_IsComputed = (\<lambda>_ _. False),
      si_IsProviderOwned = (\<lambda>_ _. False), si_IsSensitive = (\<lambda>_ _. False),
      si_UnknownConfigKeys = (\<lambda>_ _. []), si_MissingRequiredKeys = (\<lambda>_ _. [])\<rparr>"

section \<open>Edit distance\<close>

text \<open>A string becomes another by so many insertions, deletions and substitutions.\<close>

inductive edits :: "nat \<Rightarrow> 'a list \<Rightarrow> 'a list \<Rightarrow> bool" where
  edits_nil: "edits 0 [] []"
| edits_keep: "edits n xs ys \<Longrightarrow> edits n (x # xs) (x # ys)"
| edits_delete: "edits n xs ys \<Longrightarrow> edits (Suc n) (x # xs) ys"
| edits_insert: "edits n xs ys \<Longrightarrow> edits (Suc n) xs (y # ys)"
| edits_replace: "edits n xs ys \<Longrightarrow> edits (Suc n) (x # xs) (y # ys)"

fun edist :: "'a list \<Rightarrow> 'a list \<Rightarrow> nat" where
  "edist [] ys = length ys"
| "edist xs [] = length xs"
| "edist (x # xs) (y # ys) =
     min (min (edist xs (y # ys) + 1) (edist (x # xs) ys + 1)) (edist xs ys + (if x = y then 0 else 1))"

lemma edist_Nil [simp]: "edist xs [] = length xs"
  by (cases xs) auto

lemma edits_from_Nil: "edits (length ys) [] ys"
  by (induction ys) (auto intro: edits.intros)

lemma edits_to_Nil: "edits (length xs) xs []"
  by (induction xs) (auto intro: edits.intros)

lemma edits_edist: "edits (edist xs ys) xs ys"
proof (induction xs ys rule: edist.induct)
  case (2 x xs)
  then show ?case using edits_to_Nil [of "x # xs"] by simp
next
  case (3 x xs y ys)
  then show ?case by (auto simp: min_def intro: edits.intros)
qed (simp add: edits_from_Nil)

lemma edist_delete: "edist (x # xs) ys \<le> Suc (edist xs ys)"
  by (cases ys) auto

lemma edist_insert: "edist xs (y # ys) \<le> Suc (edist xs ys)"
  by (cases xs) auto

lemma edist_least: "edits n xs ys \<Longrightarrow> edist xs ys \<le> n"
proof (induction rule: edits.induct)
  case (edits_delete n xs ys x)
  then show ?case using edist_delete [of x xs ys] by simp
next
  case (edits_insert n xs ys y)
  then show ?case using edist_insert [of xs y ys] by simp
qed auto

lemma edits_append: "edits n xs ys \<Longrightarrow> edits m us vs \<Longrightarrow> edits (n + m) (xs @ us) (ys @ vs)"
  by (induction rule: edits.induct) (auto intro: edits.intros)

lemma edits_rev: "edits n xs ys \<Longrightarrow> edits n (rev xs) (rev ys)"
proof (induction rule: edits.induct)
  case (edits_keep n xs ys x)
  have "edits 0 [x] [x]" by (intro edits.intros)
  from edits_append [OF edits_keep.IH this] show ?case by simp
next
  case (edits_delete n xs ys x)
  have "edits 1 [x] []" using edits_to_Nil [of "[x]"] by simp
  from edits_append [OF edits_delete.IH this] show ?case by simp
next
  case (edits_insert n xs ys y)
  have "edits 1 [] [y]" using edits_from_Nil [of "[y]"] by simp
  from edits_append [OF edits_insert.IH this] show ?case by simp
next
  case (edits_replace n xs ys x y)
  have "edits (Suc 0) [x] [y]" by (intro edits.intros)
  from edits_append [OF edits_replace.IH this] show ?case by simp
qed (auto intro: edits.intros)

text \<open>A row of the table: the distances to the prefixes, read backwards.\<close>

fun lev_spec :: "string \<Rightarrow> string \<Rightarrow> string \<Rightarrow> nat list" where
  "lev_spec p acc [] = [edist p acc]"
| "lev_spec p acc (d # ds) = edist p acc # lev_spec p (d # acc) ds"

lemma lev_spec_hd: "\<exists>ps. lev_spec p acc ds = edist p acc # ps"
  by (cases ds) auto

lemma lev_row_spec: "lev_row c ds (lev_spec p acc ds) (edist (c # p) acc) = tl (lev_spec (c # p) acc ds)"
proof (induction ds arbitrary: acc)
  case (Cons d ds)
  obtain ps where ps: "lev_spec p (d # acc) ds = edist p (d # acc) # ps" using lev_spec_hd by blast
  obtain qs where qs: "lev_spec (c # p) (d # acc) ds = edist (c # p) (d # acc) # qs" using lev_spec_hd by blast
  have "lev_row c (d # ds) (lev_spec p acc (d # ds)) (edist (c # p) acc) =
      edist (c # p) (d # acc) # lev_row c ds (lev_spec p (d # acc) ds) (edist (c # p) (d # acc))"
    by (simp add: ps Let_def min_def)
  then show ?case using Cons.IH [of "d # acc"] by (simp add: qs)
qed simp

lemma lev_rows_spec:
  "i = length p + 1 \<Longrightarrow> lev_rows i cs b (lev_spec p [] b) = lev_spec (rev cs @ p) [] b"
proof (induction cs arbitrary: i p)
  case (Cons c cs)
  obtain qs where qs: "lev_spec (c # p) [] b = edist (c # p) [] # qs" using lev_spec_hd by blast
  have "i # lev_row c b (lev_spec p [] b) i = lev_spec (c # p) [] b"
    using lev_row_spec [of c b p "[]"] Cons.prems qs by simp
  then show ?case using Cons.IH [of "i + 1" "c # p"] Cons.prems by simp
qed simp

lemma lev_spec_first: "lev_spec [] acc ds = [length acc..<length acc + length ds + 1]"
  by (induction ds arbitrary: acc) (auto simp: upt_conv_Cons simp del: upt_Suc)

lemma lev_spec_last: "lev_spec p acc ds ! length ds = edist p (rev ds @ acc)"
  by (induction ds arbitrary: acc) auto

lemma edist_self: "edist xs xs = 0"
  by (induction xs) auto

lemma levenshtein_edist: "levenshtein a b = edist a b \<or> levenshtein a b = edist (rev a) (rev b)"
  using lev_rows_spec [of 1 "[]" a b] lev_spec_first [of "[]" b] lev_spec_last [of "rev a" "[]" b]
  by (auto simp: levenshtein_def edist_self simp del: upt_Suc)

lemma edist_rev: "edist (rev a) (rev b) = edist a b"
  using edist_least edits_edist edits_rev by (metis antisym rev_rev_ident)

text \<open>
  C31. The table computed row by row gives the edit distance: so many edits turn the one name into the
  other, and no fewer do.
\<close>

theorem levenshtein_least:
  "edits (levenshtein a b) a b \<and> levenshtein a b = (LEAST n. edits n a b)"
proof -
  have eq: "levenshtein a b = edist a b" using levenshtein_edist [of a b] by (auto simp: edist_rev)
  have "(LEAST n. edits n a b) = edist a b"
    by (rule Least_equality) (simp_all add: edits_edist edist_least)
  with eq show ?thesis using edits_edist [of a b] by simp
qed

section \<open>The suggestion\<close>

lemma best_of_step:
  assumes "best_of score cs (b, s) = (b', s')"
  shows "s \<le> s'" "\<And>c r. c \<in> set cs \<Longrightarrow> score c = Some r \<Longrightarrow> r \<le> s'"
    "(b', s') = (b, s) \<or> b' \<in> set cs \<and> score b' = Some s' \<and> s < s'"
  using assms
proof (induction cs arbitrary: b s)
  case (Cons c cs)
  {
    case 1
    then show ?case using Cons.IH(1) by (force split: option.splits if_splits)
  next
    case (2 d r)
    then show ?case using Cons.IH(1,2) by (fastforce split: option.splits if_splits)
  next
    case 3
    then show ?case using Cons.IH(3) by (fastforce split: option.splits if_splits)
  }
qed auto

text \<open>What a good suggestion is: the widest overlap, or without one the closest spelling.\<close>

definition widest :: "string \<Rightarrow> string list \<Rightarrow> string \<Rightarrow> bool" where
  "widest key candidates s \<longleftrightarrow> s \<in> set candidates \<and> overlap key s \<noteq> None \<and>
     list_all (\<lambda>c. overlap key c = None \<or> the (overlap key c) \<le> the (overlap key s)) candidates"

definition closest :: "string \<Rightarrow> string list \<Rightarrow> string \<Rightarrow> bool" where
  "closest key candidates s \<longleftrightarrow> s \<in> set candidates \<and>
     list_all (\<lambda>c. overlap key c = None) candidates \<and>
     similarity key s \<noteq> None \<and> the (similarity key s) \<ge> 3 / 4 \<and>
     list_all (\<lambda>c. similarity key c = None \<or> the (similarity key c) \<le> the (similarity key s)) candidates"

definition far :: "string \<Rightarrow> string list \<Rightarrow> bool" where
  "far key candidates \<longleftrightarrow>
     list_all (\<lambda>c. overlap key c = None \<and> (similarity key c = None \<or> the (similarity key c) < 3 / 4)) candidates"

lemma or_the_le: "o1 = None \<or> the o1 \<le> s \<longleftrightarrow> (\<forall>r. o1 = Some r \<longrightarrow> r \<le> s)"
  by (cases o1) auto

lemma overlap_pos: "overlap key c = Some r \<Longrightarrow> r > 0 \<and> c \<noteq> []"
  by (auto simp: overlap_def Let_def split: if_splits)

text \<open>
  A suggestion is a name the schema has: one that overlaps the key, with the widest overlap there
  is; or, when none overlaps it, one spelled at least three quarters like it, the closest there is.
  There is no suggestion only when no name is near.
\<close>

theorem closestKey_best:
  "if closestKey key candidates = [] then far key candidates
   else widest key candidates (closestKey key candidates) \<or> closest key candidates (closestKey key candidates)"
proof -
  obtain b s where bs: "best_of (overlap key) candidates ([], 0) = (b, s)" by (metis surj_pair)
  obtain c t where ct: "best_of (similarity key) candidates ([], 0) = (c, t)" by (metis surj_pair)
  note B = best_of_step [OF bs] and C = best_of_step [OF ct]
  have le: "\<forall>x \<in> set candidates. \<forall>r. overlap key x = Some r \<longrightarrow> r \<le> s"
    "\<forall>x \<in> set candidates. \<forall>r. similarity key x = Some r \<longrightarrow> r \<le> t" using B(2) C(2) by blast+
  show ?thesis
  proof (cases "b = []")
    case False
    then have "closestKey key candidates = b" "b \<in> set candidates" "overlap key b = Some s"
      using B(3) by (auto simp: closestKey_def closestBySubstring_def bs)
    then show ?thesis using False le(1) by (simp add: widest_def list_all_iff or_the_le)
  next
    case True
    then have "s = 0" using B(3) overlap_pos [of key b s] by auto
    then have none: "overlap key x = None" if "x \<in> set candidates" for x
      using le(1) that overlap_pos [of key x] by (cases "overlap key x") auto
    have key: "closestKey key candidates = (if t < 3 / 4 then [] else c)"
      using True by (simp add: closestKey_def closestBySubstring_def closestByEditDistance_def bs ct)
    have nil: "similarity key [] = Some r \<Longrightarrow> r \<le> 0" for r
      by (auto simp: similarity_def levenshtein_def ratio_def split: if_splits)
    show ?thesis
    proof (cases "t < 3 / 4")
      case True
      then have "similarity key x = None \<or> the (similarity key x) < 3 / 4" if "x \<in> set candidates" for x
        using le(2) that by (cases "similarity key x") auto
      then show ?thesis using key none True by (simp add: far_def list_all_iff)
    next
      case False
      then have "c \<in> set candidates" "similarity key c = Some t" "c \<noteq> []"
        using C(3) nil [of t] by (auto simp: not_less)
      then show ?thesis using key none le(2) False by (simp add: closest_def list_all_iff or_the_le not_less)
    qed
  qed
qed

section \<open>Unknown keys by position\<close>

fun positions :: "gval \<Rightarrow> step list list" where
  "positions (GObj m) = [] # concat (map (\<lambda>(k, x). map ((#) (Key k)) (positions x)) m)"
| "positions (GArr xs) = [] # concat (map (\<lambda>x. map ((#) Elem) (positions x)) xs)"
| "positions v = [[]]"

text \<open>The positions of the keys that a schema has no name for, where it knows the keys above.\<close>

function (sequential) unknown :: "Block \<Rightarrow> step list \<Rightarrow> bool" and unknown_in :: "NestedBlock \<Rightarrow> step list \<Rightarrow> bool" where
  "unknown b (Key k # p) \<longleftrightarrow>
     (if k \<notin> set (knownKeyNames b) then p = []
      else \<exists>nb \<in> set (bl_NestedBlocks b). nb_TypeName nb = k \<and> unknown_in nb p)"
| "unknown b p \<longleftrightarrow> False"
| "unknown_in nb p \<longleftrightarrow>
     (case nb_Nesting nb of
        NestingList \<Rightarrow> (case p of Elem # q \<Rightarrow> unknown (nb_Block nb) q | _ \<Rightarrow> unknown (nb_Block nb) p)
      | NestingSet \<Rightarrow> (case p of Elem # q \<Rightarrow> unknown (nb_Block nb) q | _ \<Rightarrow> unknown (nb_Block nb) p)
      | NestingMap \<Rightarrow> (case p of Key j # q \<Rightarrow> unknown (nb_Block nb) q | _ \<Rightarrow> False)
      | _ \<Rightarrow> unknown (nb_Block nb) p)"
  by pat_completeness auto
termination
  by (relation "measure (case_sum (\<lambda>(_, p). 2 * length p) (\<lambda>(_, p). 2 * length p + 1))") auto

declare unknown_in.simps [simp del]

definition step_text :: "step \<Rightarrow> string \<Rightarrow> string" where
  "step_text s t = (case s of Key k \<Rightarrow> sub_path t k | Elem \<Rightarrow> t)"

definition path_text :: "step list \<Rightarrow> string" where
  "path_text p = fold step_text p []"

lemma step_text_simps [simp]: "step_text (Key k) t = sub_path t k" "step_text Elem t = t"
  by (simp_all add: step_text_def)

text \<open>The issues found at a value are those of its positions.\<close>

definition issues_at :: "(step list \<Rightarrow> bool) \<Rightarrow> gval \<Rightarrow> string \<Rightarrow> string list" where
  "issues_at P v t = map (\<lambda>p. fold step_text p t) (filter P (positions v))"

lemma issues_at_obj:
  "\<not> P [] \<Longrightarrow> issues_at P (GObj m) t =
     concat (map (\<lambda>(k, x). issues_at (\<lambda>p. P (Key k # p)) x (sub_path t k)) m)"
  by (induction m) (auto simp: issues_at_def filter_map o_def case_prod_beta)

lemma issues_at_arr:
  "\<not> P [] \<Longrightarrow> issues_at P (GArr xs) t = concat (map (\<lambda>x. issues_at (\<lambda>p. P (Elem # p)) x t) xs)"
  by (induction xs) (auto simp: issues_at_def filter_map o_def)

lemma issues_at_scalar:
  "\<not> P [] \<Longrightarrow> \<not> (\<exists>m. v = GObj m) \<Longrightarrow> \<not> (\<exists>xs. v = GArr xs) \<Longrightarrow> issues_at P v t = []"
  by (cases v) (auto simp: issues_at_def)

lemma issues_at_none: "issues_at (\<lambda>_. False) v t = []"
  by (simp add: issues_at_def)

lemma issues_at_cong: "\<forall>p \<in> set (positions v). P p = Q p \<Longrightarrow> issues_at P v t = issues_at Q v t"
  unfolding issues_at_def by (metis (mono_tags, lifting) filter_cong)

lemma issues_at_root: "issues_at (\<lambda>p. p = []) v t = [t]"
proof -
  have "filter (\<lambda>p. p = []) (positions v) = [[]]"
    by (cases v) (auto simp: filter_empty_conv)
  then show ?thesis by (simp add: issues_at_def)
qed

lemma unknown_Nil: "\<not> unknown b []" "\<not> unknown_in nb []"
  by (auto simp: unknown_in.simps split: NestingMode.splits)

lemma unknown_not_obj: "\<not> (\<exists>m. v = GObj m) \<Longrightarrow> unknownConfigKeysAt b v t = []"
  by (cases v) (simp_all add: unknownConfigKeysAt.simps)

lemma unknown_within:
  assumes block: "\<And>v t. map ci_Path (unknownConfigKeysAt (nb_Block nb) v t) = issues_at (unknown (nb_Block nb)) v t"
    and t: "t \<noteq> []"
  shows "map ci_Path (unknownConfigKeysWithinNested nb v t) = issues_at (unknown_in nb) v t"
proof (cases "\<exists>m. v = GObj m")
  case True
  then obtain m where v: "v = GObj m" by blast
  show ?thesis
  proof (cases "nb_Nesting nb = NestingMap")
    case True
    moreover have "sub_path t k = t @ CHR ''.'' # k" for k using t by (simp add: sub_path_def)
    ultimately show ?thesis unfolding v
      by (simp add: unknownConfigKeysWithinNested.simps issues_at_obj unknown_Nil unknown_in.simps
        map_concat o_def case_prod_unfold block)
  next
    case False
    have "issues_at (unknown_in nb) (GObj m) t = issues_at (unknown (nb_Block nb)) (GObj m) t"
      using False
      by (intro issues_at_cong) (auto simp: unknown_in.simps simp del: unknown.simps split: NestingMode.splits)
    then show ?thesis unfolding v using False by (simp add: unknownConfigKeysWithinNested.simps block)
  qed
next
  case obj: False
  show ?thesis
  proof (cases "\<exists>xs. v = GArr xs")
    case True
    then obtain xs where v: "v = GArr xs" by blast
    have "unknownConfigKeysAt (nb_Block nb) (GArr xs) t = []" by (simp add: unknownConfigKeysAt.simps)
    moreover have "issues_at (unknown_in nb) (GArr xs) t =
        (if nb_Nesting nb = NestingList \<or> nb_Nesting nb = NestingSet
         then concat (map (\<lambda>x. issues_at (unknown (nb_Block nb)) x t) xs) else [])"
      by (cases "nb_Nesting nb") (simp_all add: issues_at_arr unknown_Nil unknown_in.simps issues_at_none)
    ultimately show ?thesis using v block
      by (auto simp: unknownConfigKeysWithinNested.simps map_concat o_def)
  next
    case False
    then have "issues_at (unknown_in nb) v t = []"
      using obj by (simp add: issues_at_scalar unknown_Nil)
    then show ?thesis using obj False
      by (cases v) (simp_all add: unknownConfigKeysWithinNested.simps unknown_not_obj)
  qed
qed

lemma unknown_at:
  assumes "names_ok b"
  shows "map ci_Path (unknownConfigKeysAt b v t) = issues_at (unknown b) v t"
  using assms
proof (induction b arbitrary: v t rule: measure_induct_rule [where f = size])
  case (less b)
  show ?case
  proof (cases "\<exists>m. v = GObj m")
    case False
    have "issues_at (unknown b) v t = []"
    proof (cases "\<exists>xs. v = GArr xs")
      case True
      then show ?thesis by (auto simp: issues_at_arr issues_at_none)
    qed (use False in \<open>simp add: issues_at_scalar\<close>)
    then show ?thesis using False by (simp add: unknown_not_obj)
  next
    case True
    then obtain m where v: "v = GObj m" by blast
    have "map ci_Path (let path = sub_path t k
          in if k \<notin> set (knownKeyNames b)
             then [\<lparr>ci_Path = path, ci_Key = k, ci_Suggestion = closestKey k (knownKeyNames b)\<rparr>]
             else concat (map (\<lambda>nb. if nb_TypeName nb = k then unknownConfigKeysWithinNested nb x path else [])
                    (bl_NestedBlocks b))) =
        issues_at (\<lambda>p. unknown b (Key k # p)) x (sub_path t k)" (is "?l = ?r") for k x
    proof (cases "k \<in> nb_TypeName ` set (bl_NestedBlocks b)")
      case True
      then obtain nb where nb: "nb \<in> set (bl_NestedBlocks b)" "k = nb_TypeName nb" by blast
      have only: "n = nb" if "n \<in> set (bl_NestedBlocks b)" "nb_TypeName n = nb_TypeName nb" for n
        using that nb(1) names_okD(2) [OF less.prems(1)] by (meson distinct_map inj_on_def)
      have known: "k \<in> set (knownKeyNames b)" using nb by (simp add: knownKeyNames_def)
      have pick: "concat (map (\<lambda>n. if nb_TypeName n = k then F n else []) ns) = F nb"
        if "distinct (map nb_TypeName ns)" "nb \<in> set ns" for ns and F :: "NestedBlock \<Rightarrow> ConfigKeyIssue list"
        using that
      proof (induction ns)
        case (Cons n ns)
        have "concat (map (\<lambda>n. if nb_TypeName n = k then F n else []) ms) = []"
          if "nb_TypeName nb \<notin> nb_TypeName ` set ms" for ms
          using that nb(2) by (induction ms) auto
        note rest = this
        show ?case
        proof (cases "n = nb")
          case True
          then show ?thesis using rest [of ns] Cons.prems(1) nb(2) by simp
        next
          case False
          then have "nb \<in> set ns" using Cons.prems(2) by simp
          moreover from this have "nb_TypeName n \<noteq> k" using Cons.prems(1) nb(2) by (auto simp: image_iff)
          ultimately show ?thesis using Cons by simp
        qed
      qed simp
      have "(\<exists>n \<in> set (bl_NestedBlocks b). nb_TypeName n = k \<and> unknown_in n p) \<longleftrightarrow> unknown_in nb p" for p
        using nb only by blast
      then have "unknown b (Key k # p) = unknown_in nb p" for p using known by simp
      moreover have "map ci_Path (unknownConfigKeysWithinNested nb x (sub_path t k)) =
          issues_at (unknown_in nb) x (sub_path t k)"
      proof (rule unknown_within)
        show "sub_path t k \<noteq> []" using names_okD(7) [OF less.prems(1) nb(1)] nb(2) by (simp add: sub_path_def)
        show "map ci_Path (unknownConfigKeysAt (nb_Block nb) v t) = issues_at (unknown (nb_Block nb)) v t" for v t
          by (rule less.IH [OF Block_size [OF nb(1)] names_okD(4) [OF less.prems(1) nb(1)]])
      qed
      ultimately show ?thesis
        using known pick [OF names_okD(2) [OF less.prems(1)] nb(1)] by simp
    next
      case no_nb: False
      then have none: "concat (map (\<lambda>n. if nb_TypeName n = k then F n else []) (bl_NestedBlocks b)) = []"
        for F :: "NestedBlock \<Rightarrow> ConfigKeyIssue list" by (auto simp: image_iff)
      show ?thesis
      proof (cases "k \<in> set (knownKeyNames b)")
        case True
        have "(\<lambda>p. unknown b (Key k # p)) = (\<lambda>_. False)" using True no_nb by (auto simp: fun_eq_iff image_iff)
        then show ?thesis unfolding Let_def none using True by (simp only: issues_at_none not_True_eq_False if_False list.map)
      next
        case False
        then show ?thesis by (simp add: issues_at_root)
      qed
    qed
    note each = this
    show ?thesis unfolding v unknownConfigKeysAt.simps [of b "GObj m"]
      by (simp only: gval.case map_concat map_map o_def case_prod_unfold issues_at_obj [where P = "unknown b", OF unknown_Nil(1)] each)
  qed
qed

text \<open>
  The reference: positions that the blocks of the schema have no name for, or that lie below such a one; and
  of those the topmost.
\<close>

function (sequential) unnamed :: "Block \<Rightarrow> step list \<Rightarrow> bool" and unnamed_in :: "NestedBlock \<Rightarrow> step list \<Rightarrow> bool" where
  "unnamed b (Key k # p) \<longleftrightarrow> k \<notin> set (knownKeyNames b) \<or>
     (\<exists>nb \<in> set (bl_NestedBlocks b). nb_TypeName nb = k \<and> unnamed_in nb p)"
| "unnamed b p \<longleftrightarrow> False"
| "unnamed_in nb p \<longleftrightarrow>
     (case nb_Nesting nb of
        NestingList \<Rightarrow> (case p of Elem # q \<Rightarrow> unnamed (nb_Block nb) q | _ \<Rightarrow> unnamed (nb_Block nb) p)
      | NestingSet \<Rightarrow> (case p of Elem # q \<Rightarrow> unnamed (nb_Block nb) q | _ \<Rightarrow> unnamed (nb_Block nb) p)
      | NestingMap \<Rightarrow> (case p of Key j # q \<Rightarrow> unnamed (nb_Block nb) q | _ \<Rightarrow> False)
      | _ \<Rightarrow> unnamed (nb_Block nb) p)"
  by pat_completeness auto
termination
  by (relation "measure (case_sum (\<lambda>(_, p). 2 * length p) (\<lambda>(_, p). 2 * length p + 1))") auto

declare unnamed_in.simps [simp del]

definition topmost :: "(step list \<Rightarrow> bool) \<Rightarrow> step list \<Rightarrow> bool" where
  "topmost P p \<longleftrightarrow> P p \<and> (\<forall>q \<in> set (prefixes p). P q \<longrightarrow> q = p)"

lemma topmost_Cons: "\<not> P [] \<Longrightarrow> topmost P (x # p) \<longleftrightarrow> topmost (\<lambda>q. P (x # q)) p"
  by (simp add: topmost_def)

lemma topmost_cong: "(\<And>q. q \<in> set (prefixes p) \<Longrightarrow> P q = Q q) \<Longrightarrow> topmost P p = topmost Q p"
  unfolding topmost_def by (metis in_set_prefixes prefix_order.refl)

lemma unnamed_Nil: "\<not> unnamed b []" "\<not> unnamed_in nb []"
  by (simp, simp add: unnamed_in.simps split: NestingMode.splits)

lemma unknown_in_topmost:
  assumes "\<And>q. length q \<le> length p \<Longrightarrow> unknown (nb_Block nb) q = topmost (unnamed (nb_Block nb)) q"
  shows "unknown_in nb p = topmost (unnamed_in nb) p"
proof (cases p)
  case Nil
  then show ?thesis by (simp add: topmost_def unnamed_Nil unknown_in.simps split: NestingMode.splits)
next
  case (Cons x q)
  have same: "topmost (unnamed_in nb) p = topmost (unnamed (nb_Block nb)) p"
    if "\<And>r. unnamed_in nb (x # r) = unnamed (nb_Block nb) (x # r)"
    using that by (simp add: Cons topmost_Cons unnamed_Nil)
  have below: "topmost (unnamed_in nb) p = topmost (unnamed (nb_Block nb)) q"
    if "\<And>r. unnamed_in nb (x # r) = unnamed (nb_Block nb) r"
    using that by (simp add: Cons topmost_Cons unnamed_Nil)
  have none: "topmost (unnamed_in nb) p = False" if "\<And>r. \<not> unnamed_in nb (x # r)"
    using that by (simp add: Cons topmost_def)
  note q = assms [of q] assms [of p]
  show ?thesis
  proof (cases "nb_Nesting nb")
    case NestingList
    then show ?thesis using q Cons same below by (cases x) (simp_all add: unknown_in.simps unnamed_in.simps del: unknown.simps(1) unnamed.simps(1))
  next
    case NestingSet
    then show ?thesis using q Cons same below by (cases x) (simp_all add: unknown_in.simps unnamed_in.simps del: unknown.simps(1) unnamed.simps(1))
  next
    case NestingMap
    then show ?thesis using q Cons none below by (cases x) (simp_all add: unknown_in.simps unnamed_in.simps del: unknown.simps(1) unnamed.simps(1))
  qed (use q Cons same in \<open>simp_all add: unknown_in.simps unnamed_in.simps del: unknown.simps(1) unnamed.simps(1)\<close>)
qed

lemma unknown_topmost: "names_ok b \<Longrightarrow> unknown b p = topmost (unnamed b) p"
proof (induction p arbitrary: b rule: length_induct)
  case (1 p)
  show ?case
  proof (cases p)
    case (Cons x q)
    show ?thesis
    proof (cases x)
      case (Key k)
      have nested: "unknown_in nb q = topmost (unnamed_in nb) q" if "nb \<in> set (bl_NestedBlocks b)" for nb
        by (rule unknown_in_topmost) (use 1 Cons names_okD(4) [OF 1(2) that] in simp)
      have p: "topmost (unnamed b) p = topmost (\<lambda>r. unnamed b (Key k # r)) q"
        unfolding Cons Key by (rule topmost_Cons) simp
      show ?thesis
      proof (cases "k \<in> set (knownKeyNames b)")
        case False
        then have "topmost (\<lambda>r. unnamed b (Key k # r)) q \<longleftrightarrow> q = []" by (cases q) (auto simp: topmost_def)
        then show ?thesis unfolding p using False by (simp add: Cons Key)
      next
        case True
        show ?thesis
        proof (cases "\<exists>nb \<in> set (bl_NestedBlocks b). nb_TypeName nb = k")
          case False
          then show ?thesis unfolding p using True by (auto simp: Cons Key topmost_def)
        next
          case nb': True
          then obtain nb where nb: "nb \<in> set (bl_NestedBlocks b)" "nb_TypeName nb = k" by blast
          have only: "n = nb" if "n \<in> set (bl_NestedBlocks b)" "nb_TypeName n = k" for n
            using that nb names_okD(2) [OF 1(2)] by (metis distinct_map inj_on_def)
          have "unnamed b (Key k # r) = unnamed_in nb r" for r
            unfolding unnamed.simps(1) using True nb only by blast
          moreover have "unknown b p = unknown_in nb q"
          proof -
            have "(\<exists>n \<in> set (bl_NestedBlocks b). nb_TypeName n = k \<and> unknown_in n q) = unknown_in nb q" using nb only by blast
            then show ?thesis using True by (simp add: Cons Key)
          qed
          ultimately show ?thesis unfolding p using nested [OF nb(1)] by simp
        qed
      qed
    qed (simp add: Cons topmost_def)
  qed (simp add: topmost_def)
qed

text \<open>
  C32. The check of a configuration reports the topmost keys that the blocks of the schema have no name for,
  at every depth of nested blocks, each once and in order, and nothing else: of a key below an unknown one
  nothing is said, and the value of an attribute is not looked into, not even where protocol 6 gives
  the attribute attributes of its own. (The names of a block are apart: names_ok.)
\<close>

theorem unknown_keys_exact:
  assumes "names_ok b"
  shows "map ci_Path (UnknownConfigKeys b m) = map path_text (filter (topmost (unnamed b)) (positions (GObj m)))"
proof -
  have "topmost (unnamed b) = unknown b" by (rule ext) (rule unknown_topmost [OF assms, symmetric])
  then show ?thesis unfolding UnknownConfigKeys_def unknown_at [OF assms] by (simp add: issues_at_def path_text_def)
qed

theorem unknown_keys_exact_witness:
  "map ci_Path (UnknownConfigKeys helm_block [(''repo'', GNil), (''set'', GObj [(''valeu'', GNil)])]) =
     [''repo'', ''set.valeu'']"
proof -
  have "map path_text (filter (topmost (unnamed helm_block)) (positions (GObj [(''repo'', GNil), (''set'', GObj [(''valeu'', GNil)])]))) =
    [''repo'', ''set.valeu'']" by code_simp
  then show ?thesis unfolding unknown_keys_exact [OF helm_ok(1)] .
qed

section \<open>Sensitive paths\<close>

text \<open>A resolver's path names keys only: an element of an array has the path of the array.\<close>

fun keys_of :: "step list \<Rightarrow> string list" where
  "keys_of [] = []"
| "keys_of (Key k # p) = k # keys_of p"
| "keys_of (Elem # p) = keys_of p"

fun map_free :: "Block \<Rightarrow> bool" where
  "map_free (Block as nbs) \<longleftrightarrow>
     list_all (\<lambda>nb. nb_Nesting nb \<noteq> NestingMap \<and> nb_Nesting nb \<noteq> NestingInvalid \<and> map_free (nb_Block nb)) nbs"

lemma map_freeD:
  "map_free b \<Longrightarrow> nb \<in> set (bl_NestedBlocks b) \<Longrightarrow>
     nb_Nesting nb \<noteq> NestingMap \<and> nb_Nesting nb \<noteq> NestingInvalid \<and> map_free (nb_Block nb)"
  by (cases b) (simp add: list_all_iff)

lemma find_someD: "find P xs = Some x \<Longrightarrow> x \<in> set xs \<and> P x"
  by (auto simp: find_Some_iff)

lemma path_of_cut:
  "cut_dot path = (name, rest, hasRest) \<Longrightarrow> path_of path = name # (if hasRest then path_of rest else [])"
proof (induction path arbitrary: name rest hasRest)
  case Nil
  then show ?case by (simp add: cut_dot_def)
next
  case (Cons c path)
  show ?case
  proof (cases "c = CHR ''.''")
    case True
    then show ?thesis using Cons.prems by (auto simp: cut_dot_def)
  next
    case False
    then obtain n where n: "name = c # n" "cut_dot path = (n, rest, hasRest)"
      using Cons.prems by (auto simp: cut_dot_def Let_def)
    then show ?thesis using Cons.IH [OF n(2)] False by simp
  qed
qed

lemma secret_is_walked:
  assumes "map_free b" "attributeAt b path = Some a" "at_Sensitive a"
  shows "\<exists>p. walked b p \<and> prefix (keys_of p) (path_of path)"
  using assms
proof (induction b path rule: attributeAt.induct)
  case (1 b path)
  obtain name rest hasRest where cut: "cut_dot path = (name, rest, hasRest)" by (metis surj_pair)
  show ?case
  proof (cases "find (\<lambda>a. at_Name a = name) (bl_Attributes b)")
    case (Some c)
    moreover have "c = a" using 1(3) cut Some by (simp add: attributeAt.simps [of b])
    ultimately have "a \<in> set (bl_Attributes b)" "at_Name a = name" using find_someD by fastforce+
    then have "walked b [Key name]" using 1(4) by auto
    then show ?thesis using path_of_cut [OF cut] by (intro exI [of _ "[Key name]"]) simp
  next
    case none: None
    then obtain nb where nb: "find (\<lambda>nb. nb_TypeName nb = name) (bl_NestedBlocks b) = Some nb" "hasRest"
        "attributeAt (nb_Block nb) rest = Some a"
      using 1(3) cut by (auto simp: attributeAt.simps [of b] split: option.splits if_splits)
    then have mem: "nb \<in> set (bl_NestedBlocks b)" "nb_TypeName nb = name" using find_someD by fastforce+
    obtain p where p: "walked (nb_Block nb) p" "prefix (keys_of p) (path_of rest)"
      using 1(1) [OF cut [symmetric] refl refl none nb(1)] nb(2,3) map_freeD [OF 1(2) mem(1)] 1(4) by auto
    have "\<exists>q. walked_in nb q \<and> keys_of q = keys_of p"
    proof (cases "nb_Nesting nb = NestingList \<or> nb_Nesting nb = NestingSet")
      case True
      then show ?thesis using p(1) by (intro exI [of _ "Elem # p"]) (auto simp: walked_in.simps)
    next
      case False
      then show ?thesis using p(1) map_freeD [OF 1(2) mem(1)]
        by (intro exI [of _ p]) (auto simp: walked_in.simps split: NestingMode.splits)
    qed
    then obtain q where q: "walked_in nb q" "keys_of q = keys_of p" by blast
    then have "walked b (Key name # q)" using mem by auto
    then show ?thesis using path_of_cut [OF cut] nb(2) p(2) q(2) by (intro exI [of _ "Key name # q"]) simp
  qed
qed

text \<open>The values at a position: an element stands for every element.\<close>

fun values_at :: "step list \<Rightarrow> gval \<Rightarrow> gval list" where
  "values_at [] v = [v]"
| "values_at (Key k # p) (GObj m) = (case map_of m k of Some x \<Rightarrow> values_at p x | None \<Rightarrow> [])"
| "values_at (Elem # p) (GArr xs) = concat (map (values_at p) xs)"
| "values_at p v = []"

lemma values_at_masked:
  assumes "P p" "\<forall>q \<in> set (prefixes p). P q \<longrightarrow> q = p"
  shows "values_at p (masked g P v) = map (\<lambda>x. if x = GNil then GNil else g x) (values_at p v)"
  using assms
proof (induction p v arbitrary: P rule: values_at.induct)
  case (1 v)
  then show ?case by (cases v) simp_all
next
  case (2 k p m)
  have "values_at p (masked g (\<lambda>q. P (Key k # q)) x) = map (\<lambda>x. if x = GNil then GNil else g x) (values_at p x)"
    if "map_of m k = Some x" for x
    using 2(1) [OF that, of "\<lambda>q. P (Key k # q)"] 2(2,3) by simp
  then show ?case using 2(3) by (simp add: map_of_map_key split: option.split)
next
  case (3 p xs)
  have "values_at p (masked g (\<lambda>q. P (Elem # q)) x) = map (\<lambda>x. if x = GNil then GNil else g x) (values_at p x)"
    if "x \<in> set xs" for x
    using 3(1) [OF that, of "\<lambda>q. P (Elem # q)"] 3(2,3) by simp
  then have "map (\<lambda>x. values_at p (masked g (\<lambda>q. P (Elem # q)) x)) xs =
      map (\<lambda>x. map (\<lambda>x. if x = GNil then GNil else g x) (values_at p x)) xs" by (rule map_cong [OF refl])
  then show ?case using 3(3) by (simp add: map_concat o_def del: map_eq_conv)
qed simp_all

lemma walked_in_split:
  "walked_in nb p \<Longrightarrow> walked_in nb (p @ r) \<Longrightarrow>
     walked (nb_Block nb) p \<and> walked (nb_Block nb) (p @ r) \<or>
     (\<exists>x t. p = x # t \<and> walked (nb_Block nb) t \<and> walked (nb_Block nb) (t @ r))"
  by (cases "nb_Nesting nb"; cases p) (simp_all add: walked_in.simps del: walked.simps(1) split: step.splits)

lemma walked_prefix_free:
  assumes "names_ok b" "walked b q" "walked b (q @ r)"
  shows "r = []"
  using assms
proof (induction q arbitrary: b rule: length_induct)
  case (1 q)
  have sub: "r = []" if "nb \<in> set (bl_NestedBlocks b)" "length p < length q" "walked (nb_Block nb) p" "walked (nb_Block nb) (p @ r)" for nb p
    using 1(1) that names_okD(4) [OF 1(2) that(1)] by blast
  obtain k p where q: "q = Key k # p" using 1(3) by (cases "(b, q)" rule: walked.cases) auto
  have apart: "\<not> (at_Name a = k \<and> nb_TypeName nb = k)" if "a \<in> set (bl_Attributes b)" "nb \<in> set (bl_NestedBlocks b)" for a nb
    using names_okD(3) [OF 1(2)] that by blast
  have one: "n = nb" if "nb \<in> set (bl_NestedBlocks b)" "n \<in> set (bl_NestedBlocks b)" "nb_TypeName n = nb_TypeName nb" for n nb
    using that names_okD(2) [OF 1(2)] by (meson distinct_map inj_on_def)
  have in_one: "r = []" if nb: "nb \<in> set (bl_NestedBlocks b)" and "walked_in nb p" "walked_in nb (p @ r)" for nb
    using walked_in_split [OF that(2,3)]
  proof (elim disjE conjE exE)
    assume "walked (nb_Block nb) p" "walked (nb_Block nb) (p @ r)"
    then show ?thesis using sub [OF nb, of p] by (simp add: q)
  next
    fix x t assume "p = x # t" "walked (nb_Block nb) t" "walked (nb_Block nb) (t @ r)"
    then show ?thesis using sub [OF nb, of t] by (simp add: q)
  qed
  show ?case
  proof (cases "p = [] \<and> (\<exists>a \<in> set (bl_Attributes b). at_Name a = k \<and> at_Sensitive a)")
    case True
    then show ?thesis using 1(4) q apart by auto
  next
    case False
    then obtain nb where nb: "nb \<in> set (bl_NestedBlocks b)" "nb_TypeName nb = k" "walked_in nb p" using 1(3) q by auto
    then have "walked_in nb (p @ r)" using 1(4) q apart one by fastforce
    then show ?thesis using in_one nb by blast
  qed
qed

lemma sensitive_flagged: "at_Sensitive a \<Longrightarrow> attr_flagged a []"
  by (subst attr_flagged.simps) simp

lemma walked_flagged: "walked b p \<Longrightarrow> flagged b p"
proof (induction p arbitrary: b rule: length_induct)
  case (1 p)
  have sub: "walked (nb_Block nb) q \<Longrightarrow> flagged (nb_Block nb) q" if "length q < length p" for nb q using 1(1) that by blast
  obtain k q where p: "p = Key k # q" using 1(2) by (cases "(b, p)" rule: walked.cases) auto
  have nested: "walked_in nb q \<Longrightarrow> flagged_in nb q" for nb
    using sub [of q nb] sub [of "tl q" nb] p
    by (cases "nb_Nesting nb"; cases q) (simp_all add: walked_in.simps flagged_in.simps
        del: walked.simps(1) flagged.simps(1) split: step.splits)
  show ?case using 1(2) unfolding p walked.simps(1) flagged.simps(1) using nested sensitive_flagged by blast
qed

text \<open>
  C18. Where the resolver lets a secret stand, redaction replaces it. Take a schema in which no block nests as
  a map or in a mode the program does not know: a path that the inspector calls sensitive begins with
  the keys of a position that the schema flags, and whatever the state, every value that stands at that position,
  in all elements of the lists on the way, becomes its digest, unless it is null.
\<close>

theorem secret_is_flagged:
  assumes "names_ok b" "map_free b" "attributeAt b path = Some a" "at_Sensitive a" "wf_fields m"
  shows "\<exists>p. prefix (keys_of p) (path_of path) \<and> flagged b p \<and>
    values_at p (GObj (redactBlock sha salt b m)) =
      map (\<lambda>x. if x = GNil then GNil else redactValue sha salt x) (values_at p (GObj m))"
proof -
  obtain p where p: "walked b p" "prefix (keys_of p) (path_of path)" using secret_is_walked [OF assms(2-4)] by blast
  have "values_at p (masked (redactValue sha salt) (walked b) (GObj m)) =
      map (\<lambda>x. if x = GNil then GNil else redactValue sha salt x) (values_at p (GObj m))"
  proof (rule values_at_masked [where P = "walked b", OF p(1)], intro ballI impI)
    fix q assume "q \<in> set (prefixes p)" and q: "walked b q"
    then obtain r where "p = q @ r" by (auto simp: prefix_def)
    then show "q = p" using walked_prefix_free [OF assms(1) q, of r] p(1) by simp
  qed
  then show ?thesis
    using p walked_flagged [OF p(1)] unfolding redactBlock_masked [OF assms(1,5)] by blast
qed

theorem secret_is_flagged_witness:
  "\<exists>p. prefix (keys_of p) [''set'', ''value''] \<and> flagged helm_block p \<and>
    values_at p (GObj (redactBlock (\<lambda>s. s) ''salt'' helm_block (helm_state ''a'' ''b'' ''c''))) =
      map (\<lambda>x. if x = GNil then GNil else redactValue (\<lambda>s. s) ''salt'' x) (values_at p (GObj (helm_state ''a'' ''b'' ''c'')))"
proof -
  have path: "path_of ''set.value'' = [''set'', ''value'']" by code_simp
  have a: "attributeAt helm_block ''set.value'' = Some (sample_attr ''value'' True)" by code_simp
  have m: "map_free helm_block" "at_Sensitive (sample_attr ''value'' True)" by code_simp+
  from secret_is_flagged [OF helm_ok(1) m(1) a m(2) helm_ok(2)] show ?thesis unfolding path .
qed

definition map_block :: Block where
  "map_block = Block [] [NestedBlock ''login'' NestingMap
     (Block [sample_attr ''note'' False, sample_attr ''token'' True] []) 0]"

definition map_schemas :: Schemas where
  "map_schemas = \<lparr>scs_Provider = None,
     scs_Resources = (\<lambda>ty. if ty = ''t'' then Some \<lparr>sc_Version = 0, sc_Block = map_block\<rparr> else None),
     scs_DataSources = (\<lambda>_. None)\<rparr>"

text \<open>
  In a block nested as a map the inspector takes the key of an entry for the name of an attribute:
  the sensitive attribute of the entry \<open>main\<close> is not sensitive to it, and in an entry that is called as
  the sensitive attribute is, an attribute that redaction leaves in clear passes for sensitive.
\<close>

theorem map_block_misread:
  "\<not> si_IsSensitive (newSchemaInspector map_schemas) ''t'' ''login.main.token'' \<and>
   walked map_block [Key ''login'', Key ''main'', Key ''token''] \<and>
   si_IsSensitive (newSchemaInspector map_schemas) ''t'' ''login.token.note'' \<and>
   redactBlock sha salt map_block [(''login'', GObj [(''token'', GObj [(''note'', GStr s)])])] =
     [(''login'', GObj [(''token'', GObj [(''note'', GStr s)])])]"
proof -
  have "\<not> si_IsSensitive (newSchemaInspector map_schemas) ''t'' ''login.main.token''"
    "walked map_block [Key ''login'', Key ''main'', Key ''token'']"
    "si_IsSensitive (newSchemaInspector map_schemas) ''t'' ''login.token.note''" by code_simp+
  moreover have "redactBlock sha salt map_block [(''login'', GObj [(''token'', GObj [(''note'', GStr s)])])] =
     [(''login'', GObj [(''token'', GObj [(''note'', GStr s)])])]"
    by (simp add: map_block_def sample_attr_def redactBlock.simps redactNested.simps redactAttribute_def
      at_key_def in_map_def in_object_def)
  ultimately show ?thesis by blast
qed

end
