(* ===== verification/History.thy ===== *)
theory History
  imports Scan
begin

text \<open>
  core/blame.go: which proposal set each attribute of a resource. Blame folds the proposals about the
  resource a second time, keeping for each leaf of the state who set it; it is proved to arrive at the
  state that FoldState gives.
\<close>

section \<open>Blame\<close>

record BlameEntry =
  be_Path :: string
  be_Value :: gval
  be_Redacted :: bool
  be_ProposalID :: string
  be_Kind :: string
  be_SetAt :: string
  be_AcceptanceMethod :: string
  be_Approvers :: "string list"
  be_AttributedActors :: "string list"
  be_UnattributedReason :: string
  be_UnattributedBackend :: string

record DestroyProvenance =
  dpv_ProposalID :: string
  dpv_At :: string

record BlameResult =
  bm_Address :: Address
  bm_Found :: bool
  bm_Destroyed :: bool
  bm_DestroyedBy :: "DestroyProvenance option"
  bm_Entries :: "BlameEntry list"

definition isRedactedLeaf :: "gval \<Rightarrow> bool" where
  "isRedactedLeaf v = (case v of GObj m \<Rightarrow> map_of m RedactedMarkerKey \<noteq> None \<and> length m = 1 | _ \<Rightarrow> False)"

text \<open>The leaves below a value with their paths, in the order of the walk.\<close>

fun leaf_list :: "string \<Rightarrow> gval \<Rightarrow> (string \<times> gval) list" where
  "leaf_list pre (GObj m) =
     (if isRedactedLeaf (GObj m) \<or> m = [] then [(pre, GObj m)]
      else concat (map (\<lambda>b. leaf_list (sub_path pre (fst b)) (snd b)) m))"
| "leaf_list pre v = [(pre, v)]"

definition flattenLeaves :: "gval \<Rightarrow> string \<Rightarrow> (string, gval) amap \<Rightarrow> (string, gval) amap" where
  "flattenLeaves v pre out = fold (\<lambda>(path, x). aput path x) (leaf_list pre v) out"

record leafProvenance =
  lp_proposal :: Proposal
  lp_setAt :: string

type_synonym provenance = "(string, leafProvenance) amap"

definition stampPath :: "provenance \<Rightarrow> string \<Rightarrow> gval \<Rightarrow> Proposal \<Rightarrow> string \<Rightarrow> provenance" where
  "stampPath prov path val p setAt =
     fold (\<lambda>leaf. aput leaf \<lparr>lp_proposal = p, lp_setAt = setAt\<rparr>) (map fst (flattenLeaves val path [])) prov"

definition stampGenesis :: "fields option \<Rightarrow> Proposal \<Rightarrow> string \<Rightarrow> provenance \<Rightarrow> provenance" where
  "stampGenesis state p setAt prov = stampPath prov [] (GObj (fields_of state)) p setAt"

record blameState =
  bl_current :: "fields option"
  bl_provenance :: provenance
  bl_found :: bool
  bl_destroyed :: bool
  bl_destroyedBy :: "DestroyProvenance option"

definition blame_init :: blameState where
  "blame_init = \<lparr>bl_current = None, bl_provenance = [], bl_found = False, bl_destroyed = False, bl_destroyedBy = None\<rparr>"

definition blameSeed :: "Proposal \<Rightarrow> string \<Rightarrow> fields option \<Rightarrow> blameState" where
  "blameSeed p setAt current = \<lparr>bl_current = current, bl_provenance = stampGenesis current p setAt [],
     bl_found = True, bl_destroyed = False, bl_destroyedBy = None\<rparr>"

definition blameCreate ::
    "'s store_ops \<Rightarrow> 's \<Rightarrow> Address \<Rightarrow> Proposal \<Rightarrow> raw \<Rightarrow> blameState \<Rightarrow> (err, blameState) res" where
  "blameCreate ops s addr p r st =
     (if createNodeAddress r \<noteq> Some addr then Inr st
      else case unmarshal_map r of
        None \<Rightarrow> Inr st
      | Some node \<Rightarrow> (case get_obj (fields_of node) ''state'' of
          Some state \<Rightarrow> Inr (blameSeed p (rs_ResolvedAt (p_Resolution p)) (Some state))
        | None \<Rightarrow>
            if \<not> isChangeCreateNode r then Inr st
            else rbind (shippedCreateFold ops s (p_ID p) addr) (\<lambda>shipped. case shipped of
                None \<Rightarrow> Inr st
              | Some (result, lookup, appliedAt) \<Rightarrow>
                  rbind (of_opt EJson (unmarshal_map result)) (\<lambda>seed.
                  Inr (blameSeed p (if appliedAt = [] then rs_ResolvedAt (p_Resolution p) else appliedAt) seed)))))"

definition blameEntry ::
    "Proposal \<Rightarrow> string \<times> raw \<Rightarrow> fields option \<times> provenance \<Rightarrow> (err, fields option \<times> provenance) res" where
  "blameEntry p e st =
     rbind (set_entry e (fst st)) (\<lambda>current.
     Inr (current, stampPath (snd st) (fst e) (the (unmarshal_any (snd e))) p (rs_ResolvedAt (p_Resolution p))))"

definition blameModify ::
    "'s store_ops \<Rightarrow> 's \<Rightarrow> Address \<Rightarrow> Proposal \<Rightarrow> Modification \<Rightarrow> blameState \<Rightarrow> (err, blameState) res" where
  "blameModify ops s addr p md st =
     (if mod_Target md \<noteq> addr \<or> bl_current st = None then Inr st
      else rbind (if p_Kind p = KindChange
                  then rbind (shippedModifyFold ops s (p_ID p) addr) (\<lambda>shipped. Inr (shipped \<noteq> None))
                  else Inr True) (\<lambda>go.
        if \<not> go then Inr st
        else rbind (fold_res (blameEntry p) (mod_After md) (bl_current st, bl_provenance st)) (\<lambda>(current, prov).
          Inr (st\<lparr>bl_current := current, bl_provenance := prov, bl_found := True\<rparr>))))"

definition blameDestroy ::
    "'s store_ops \<Rightarrow> 's \<Rightarrow> Address \<Rightarrow> Proposal \<Rightarrow> DestroyEntry \<Rightarrow> blameState \<Rightarrow> (err, blameState) res" where
  "blameDestroy ops s addr p d st =
     (if des_Address d \<noteq> addr then Inr st
      else rbind (shippedDestroyFold ops s (p_ID p) addr) (\<lambda>shipped.
        if shipped = None then Inr st
        else Inr (st\<lparr>bl_destroyed := True,
          bl_destroyedBy := Some \<lparr>dpv_ProposalID = p_ID p, dpv_At = rs_ResolvedAt (p_Resolution p)\<rparr>\<rparr>)))"

definition blameProposal ::
    "'s store_ops \<Rightarrow> 's \<Rightarrow> Address \<Rightarrow> Proposal \<Rightarrow> blameState \<Rightarrow> (err, blameState) res" where
  "blameProposal ops s addr p st =
     rbind (fold_res (blameCreate ops s addr p) (d_Creates (p_Delta p)) st) (\<lambda>st.
     rbind (fold_res (blameModify ops s addr p) (d_Modifies (p_Delta p)) st) (\<lambda>st.
     fold_res (blameDestroy ops s addr p) (d_Destroys (p_Delta p)) st))"

definition unattributedNote :: "Proposal \<Rightarrow> string \<times> string" where
  "unattributedNote p =
     (case find (\<lambda>s. src_Kind s \<in> set [''cloudtrail_unattributed'', ''audit_unattributed'']) (int_Sources (p_Intent p)) of
        Some s \<Rightarrow> (src_Reason s, src_Backend s)
      | None \<Rightarrow> ([], []))"

definition isActorSource :: "IntentSource \<Rightarrow> bool" where
  "isActorSource s \<longleftrightarrow> src_Kind s \<in> set [''cloudtrail'', ''gcp_audit''] \<and> src_ActorARN s \<noteq> []"

text \<open>A stable sort, newest first.\<close>

definition attributedActors :: "Proposal \<Rightarrow> string list" where
  "attributedActors p =
     map src_ActorARN (rev (sort_key src_EventTime (rev (filter isActorSource (int_Sources (p_Intent p))))))"

definition leafEntry :: "provenance \<Rightarrow> string \<times> gval \<Rightarrow> BlameEntry" where
  "leafEntry prov leaf =
     (let entry = \<lparr>be_Path = fst leaf, be_Value = snd leaf, be_Redacted = isRedactedLeaf (snd leaf),
            be_ProposalID = [], be_Kind = [], be_SetAt = [], be_AcceptanceMethod = [], be_Approvers = [],
            be_AttributedActors = [], be_UnattributedReason = [], be_UnattributedBackend = []\<rparr>
      in case map_of prov (fst leaf) of
           None \<Rightarrow> entry
         | Some lp \<Rightarrow>
             let p = lp_proposal lp;
                 actors = attributedActors p;
                 note = (if actors = [] then unattributedNote p else ([], []))
             in entry\<lparr>be_ProposalID := p_ID p, be_Kind := p_Kind p, be_SetAt := lp_setAt lp,
                  be_AcceptanceMethod := (case p_Acceptance p of None \<Rightarrow> [] | Some a \<Rightarrow> ac_Method a),
                  be_Approvers := (case p_Acceptance p of None \<Rightarrow> [] | Some a \<Rightarrow> ac_Approvers a),
                  be_AttributedActors := actors,
                  be_UnattributedReason := fst note, be_UnattributedBackend := snd note\<rparr>)"

definition leavesOf :: "fields option \<Rightarrow> (string, gval) amap" where
  "leavesOf current = (case current of
      None \<Rightarrow> [([], GNil)]
    | Some m \<Rightarrow> flattenLeaves (GObj m) [] [])"

definition not_found :: "Address \<Rightarrow> BlameResult" where
  "not_found addr =
     \<lparr>bm_Address = addr, bm_Found = False, bm_Destroyed = False, bm_DestroyedBy = None, bm_Entries = []\<rparr>"

definition blameReport :: "Address \<Rightarrow> blameState \<Rightarrow> BlameResult" where
  "blameReport addr st =
     (if \<not> bl_found st then not_found addr
      else \<lparr>bm_Address = addr, bm_Found = True, bm_Destroyed = bl_destroyed st, bm_DestroyedBy = bl_destroyedBy st,
            bm_Entries = map (leafEntry (bl_provenance st)) (leavesOf (bl_current st))\<rparr>)"

definition blameOver :: "'s store_ops \<Rightarrow> 's \<Rightarrow> Address \<Rightarrow> Proposal list \<Rightarrow> (err, BlameResult) res" where
  "blameOver ops s addr proposals =
     rbind (fold_res (blameProposal ops s addr) proposals blame_init) (\<lambda>st. Inr (blameReport addr st))"

definition Blame :: "'s store_ops \<Rightarrow> 's \<Rightarrow> Address \<Rightarrow> (err, BlameResult) res option" where
  "Blame ops s addr = with_chain (Chain ops s) (\<lambda>chain.
     rbind (filter_res (recordsAddress ops s addr) chain) (\<lambda>proposals. blameOver ops s addr proposals))"

section \<open>Blame and the fold\<close>

text \<open>
  What the generators and Validate see to: a proposal that adopts, modifies or destroys the resource
  carries an input about it, and only a change creates it without one.
\<close>

definition hasInput :: "Address \<Rightarrow> Proposal \<Rightarrow> bool" where
  "hasInput addr p \<longleftrightarrow> (\<exists>i \<in> set (rs_Inputs (p_Resolution p)). in_Resource i = addr_String addr)"

definition backed :: "Address \<Rightarrow> Proposal \<Rightarrow> bool" where
  "backed addr p \<longleftrightarrow> hasInput addr p \<or>
     (\<forall>m \<in> set (d_Modifies (p_Delta p)). mod_Target m \<noteq> addr) \<and>
     (\<forall>d \<in> set (d_Destroys (p_Delta p)). des_Address d \<noteq> addr) \<and>
     (\<forall>r \<in> set (d_Creates (p_Delta p)). createsAddress addr r \<longrightarrow> p_Kind p = KindChange \<and> \<not> embedsState r)"

definition whole :: "Address \<Rightarrow> bool" where
  "whole addr \<longleftrightarrow> addr_Stack addr \<noteq> [] \<and> addr_Type addr \<noteq> [] \<and> addr_Name addr \<noteq> []"

lemma createNodeAddress_iff: "whole addr \<Longrightarrow> createNodeAddress r = Some addr \<longleftrightarrow> createsAddress addr r"
  by (cases addr) (auto simp: createNodeAddress_def createsAddress_def whole_def Let_def split: option.split)

definition follows :: "foldState \<Rightarrow> blameState \<Rightarrow> bool" where
  "follows st bl \<longleftrightarrow>
     (if bl_destroyed bl then fo_current st = None \<and> \<not> fo_found st
      else fo_current st = bl_current bl \<and> fo_found st = bl_found bl)"

lemma follows_create:
  assumes "whole addr" "follows st bl" "foldCreate ops s addr p r st = Inr st'" "blameCreate ops s addr p r bl = Inr bl'"
  shows "follows st' bl'"
proof (cases "createsAddress addr r")
  case False
  then have "st' = st" "bl' = bl" using assms createNodeAddress_iff [OF assms(1), of r]
    by (auto simp: foldCreate_def blameCreate_def createsAddress_def Let_def split: option.splits if_splits)
  then show ?thesis using assms(2) by simp
next
  case True
  then obtain node where node: "unmarshal_map r = Some node" "get_str (fields_of node) ''stack'' = addr_Stack addr"
      "get_str (fields_of node) ''type'' = addr_Type addr" "get_str (fields_of node) ''name'' = addr_Name addr"
    by (auto simp: createsAddress_def)
  have addr: "createNodeAddress r = Some addr" using True createNodeAddress_iff [OF assms(1)] by blast
  show ?thesis
  proof (cases "get_obj (fields_of node) ''state''")
    case (Some state)
    then show ?thesis using assms(3,4) node addr
      by (auto simp: foldCreate_def blameCreate_def follows_def blameSeed_def Let_def)
  next
    case state: None
    show ?thesis
    proof (cases "map_of (fields_of node) ''config'' = None")
      case True
      then show ?thesis using assms(2-4) node addr state
        by (simp add: foldCreate_def blameCreate_def isChangeCreateNode_def Let_def)
    next
      case False
      obtain shipped where shipped: "shippedCreateFold ops s (p_ID p) addr = Inr shipped"
        using assms(3) node state False by (auto simp: foldCreate_def Let_def res_simps)
      show ?thesis
      proof (cases shipped)
        case None
        then show ?thesis using assms(2-4) node addr state False shipped
          by (simp add: foldCreate_def blameCreate_def isChangeCreateNode_def Let_def)
      next
        case (Some x)
        then obtain result lookup at where x: "shipped = Some (result, lookup, at)" by (cases x) auto
        then obtain seed where "unmarshal_map result = Some seed"
          using assms(3) node state False shipped by (auto simp: foldCreate_def Let_def res_simps)
        then have "fo_current st' = seed" "fo_found st'" "bl_current bl' = seed" "bl_found bl'" "\<not> bl_destroyed bl'"
          using assms(3,4) node addr state False shipped x
          by (auto simp: foldCreate_def blameCreate_def blameSeed_def isChangeCreateNode_def Let_def)
        then show ?thesis by (simp add: follows_def)
      qed
    qed
  qed
qed

lemma blameEntries_set:
  "fold_res (blameEntry p) es (c, pr) = Inr (c', pr') \<Longrightarrow> fold_res set_entry es c = Inr c'"
proof (induction es arbitrary: c pr)
  case (Cons e es)
  then obtain c1 pr1 where "blameEntry p e (c, pr) = Inr (c1, pr1)" "fold_res (blameEntry p) es (c1, pr1) = Inr (c', pr')"
    by (auto split: sum.splits)
  moreover from this have "set_entry e c = Inr c1" by (auto simp: blameEntry_def res_simps)
  ultimately show ?case using Cons.IH by simp
qed simp

lemma follows_modify:
  assumes "follows st bl" "foldModify ops s addr p m st = Inr st'" "blameModify ops s addr p m bl = Inr bl'"
  shows "follows st' bl'"
proof (cases "bl_destroyed bl")
  case True
  then have "st' = st" using assms(1,2) by (simp add: follows_def foldModify_def)
  moreover have "bl_destroyed bl'" using assms(3) True
    by (auto simp: blameModify_def res_simps split: if_splits)
  ultimately show ?thesis using assms(1) True by (simp add: follows_def)
next
  case False
  then show ?thesis using assms
    by (auto simp: follows_def foldModify_def blameModify_def res_simps dest!: blameEntries_set split: if_splits)
qed

lemma follows_destroy:
  assumes "follows st bl" "foldDestroy ops s addr p d st = Inr st'" "blameDestroy ops s addr p d bl = Inr bl'"
  shows "follows st' bl'"
proof (cases "des_Address d = addr")
  case False
  then show ?thesis using assms by (simp add: foldDestroy_def blameDestroy_def)
next
  case True
  obtain shipped where shipped: "shippedDestroyFold ops s (p_ID p) addr = Inr shipped"
    using assms(2) True by (auto simp: foldDestroy_def res_simps)
  show ?thesis
  proof (cases shipped)
    case None
    then show ?thesis using assms True shipped by (simp add: foldDestroy_def blameDestroy_def)
  next
    case (Some out)
    then have "st' = fold_init" "bl_destroyed bl'"
      using assms(2,3) True shipped by (auto simp: foldDestroy_def blameDestroy_def)
    then show ?thesis by (simp add: follows_def fold_init_def)
  qed
qed

lemma follows_proposal:
  assumes "whole addr" "follows st bl" "foldProposal ops s addr p st = Inr st'" "blameProposal ops s addr p bl = Inr bl'"
  shows "follows st' bl'"
proof -
  obtain st1 st2 where st: "fold_res (foldCreate ops s addr p) (d_Creates (p_Delta p)) st = Inr st1"
    "fold_res (foldModify ops s addr p) (d_Modifies (p_Delta p)) st1 = Inr st2"
    "fold_res (foldDestroy ops s addr p) (d_Destroys (p_Delta p)) st2 = Inr st'"
    using assms(3) by (auto simp: foldProposal_def res_simps)
  obtain bl1 bl2 where bl: "fold_res (blameCreate ops s addr p) (d_Creates (p_Delta p)) bl = Inr bl1"
    "fold_res (blameModify ops s addr p) (d_Modifies (p_Delta p)) bl1 = Inr bl2"
    "fold_res (blameDestroy ops s addr p) (d_Destroys (p_Delta p)) bl2 = Inr bl'"
    using assms(4) by (auto simp: blameProposal_def res_simps)
  have "follows st1 bl1"
    by (rule fold_res_rel [where R = follows, OF _ assms(2) st(1) bl(1)]) (rule follows_create [OF assms(1)])
  then have "follows st2 bl2"
    by (rule fold_res_rel [where R = follows, OF _ _ st(2) bl(2), rotated]) (rule follows_modify)
  then show ?thesis
    by (rule fold_res_rel [where R = follows, OF _ _ st(3) bl(3), rotated]) (rule follows_destroy)
qed

lemma not_about_untouched:
  assumes "whole addr" "backed addr p" "recordsAddress ops s addr p = Inr False"
  shows "foldProposal ops s addr p st = Inr st"
proof -
  have none: "\<not> hasInput addr p" using assms(3) by (auto simp: recordsAddress_def hasInput_def split: if_splits)
  then have b: "\<forall>m \<in> set (d_Modifies (p_Delta p)). mod_Target m \<noteq> addr"
      "\<forall>d \<in> set (d_Destroys (p_Delta p)). des_Address d \<noteq> addr"
      "\<forall>r \<in> set (d_Creates (p_Delta p)). createsAddress addr r \<longrightarrow> p_Kind p = KindChange \<and> \<not> embedsState r"
    using assms(2) by (auto simp: backed_def)
  have create: "foldCreate ops s addr p r st = Inr st" if r: "r \<in> set (d_Creates (p_Delta p))" for r st
  proof (cases "createsAddress addr r")
    case False
    then show ?thesis by (auto simp: foldCreate_def Let_def createsAddress_def split: option.split)
  next
    case True
    then have k: "p_Kind p = KindChange" "\<not> embedsState r" using b(3) r by blast+
    have node: "createNodeAddress r = Some addr" using True createNodeAddress_iff [OF assms(1)] by simp
    have "shippedCreateFold ops s (p_ID p) addr = Inr None" if "isChangeCreateNode r"
    proof -
      have "find (\<lambda>r. createNodeAddress r = Some addr \<and> isChangeCreateNode r) (d_Creates (p_Delta p)) \<noteq> None"
        using r node that by (auto simp: find_None_iff simp del: not_None_eq)
      then show ?thesis using assms(3) none k(1)
        by (auto simp: recordsAddress_def hasInput_def res_simps simp del: not_None_eq split: option.splits)
    qed
    then show ?thesis using True k(2)
      by (auto simp: foldCreate_def Let_def createsAddress_def embedsState_def isChangeCreateNode_def)
  qed
  have "fold_res (foldModify ops s addr p) (d_Modifies (p_Delta p)) st = Inr st"
    by (rule fold_res_id) (use b(1) in \<open>auto simp: foldModify_def\<close>)
  moreover have "fold_res (foldDestroy ops s addr p) (d_Destroys (p_Delta p)) st = Inr st"
    by (rule fold_res_id) (use b(2) in \<open>auto simp: foldDestroy_def\<close>)
  moreover have "fold_res (foldCreate ops s addr p) (d_Creates (p_Delta p)) st = Inr st"
    by (rule fold_res_id) (rule create)
  ultimately show ?thesis by (simp add: foldProposal_def)
qed

lemma follows_chain:
  assumes "whole addr" "\<forall>p \<in> set chain. backed addr p" "follows st bl"
    and "filter_res (recordsAddress ops s addr) chain = Inr matched"
    and "fold_res (foldProposal ops s addr) chain st = Inr st'" "fold_res (blameProposal ops s addr) matched bl = Inr bl'"
  shows "follows st' bl'"
  using assms(2-)
proof (induction chain arbitrary: matched st bl)
  case Nil
  then show ?case by simp
next
  case (Cons p chain)
  obtain f rest where f: "recordsAddress ops s addr p = Inr f" "filter_res (recordsAddress ops s addr) chain = Inr rest"
      "matched = (if f then p # rest else rest)"
    using Cons.prems(3) by (auto simp: res_simps)
  obtain st1 where st1: "foldProposal ops s addr p st = Inr st1" "fold_res (foldProposal ops s addr) chain st1 = Inr st'"
    using Cons.prems(4) by (auto split: sum.splits)
  show ?case
  proof (cases f)
    case False
    then have "foldProposal ops s addr p st = Inr st"
      using not_about_untouched [OF assms(1), of p ops s st] Cons.prems(1) f(1) by simp
    then have "st1 = st" using st1(1) by simp
    then show ?thesis using Cons.IH [OF _ _ f(2)] Cons.prems f(3) st1(2) False by auto
  next
    case True
    then obtain bl1 where bl1: "blameProposal ops s addr p bl = Inr bl1"
        "fold_res (blameProposal ops s addr) rest bl1 = Inr bl'"
      using Cons.prems(5) f(3) by (auto split: sum.splits)
    then show ?thesis
      using Cons.IH [OF _ follows_proposal [OF assms(1) Cons.prems(2) st1(1) bl1(1)] f(2) st1(2)] Cons.prems(1) by simp
  qed
qed

text \<open>
  C28. Blame, which reads only the proposals about the resource and keeps its own fold, agrees with the
  ledger's state on every chain whose proposals record what they change: an address with a stack, a
  type and a name (whole), and each proposal of the chain either has an input record for the address
  or neither modifies, destroys nor adopts it and creates it only as a node without state (backed).
  Then Blame finds the resource alive exactly when FoldState finds it, and its entries are the leaves
  of that state, each with its value. An adoption recorded without its inputs is not backed, and there
  the two may differ.
\<close>

theorem blame_is_fold:
  assumes "whole addr" "Chain ops s = Some (Inr chain)" "\<forall>p \<in> set chain. backed addr p"
    and "Blame ops s addr = Some (Inr b)" "FoldState ops s addr = Some (Inr (state, found))"
  shows "(bm_Found b \<and> \<not> bm_Destroyed b \<longleftrightarrow> found) \<and>
    (found \<longrightarrow> (\<exists>current. state = Some (marshal_map current) \<and>
       map (\<lambda>e. (be_Path e, be_Value e)) (bm_Entries b) = leavesOf current))"
proof -
  obtain matched bl where bl: "filter_res (recordsAddress ops s addr) chain = Inr matched"
      "fold_res (blameProposal ops s addr) matched blame_init = Inr bl" "b = blameReport addr bl"
    using assms(2,4) by (auto simp: Blame_def blameOver_def with_chain_def res_simps)
  obtain st where st: "fold_res (foldProposal ops s addr) chain fold_init = Inr st" "found = fo_found st"
      "found \<Longrightarrow> state = Some (marshal_map (fo_current st))"
    using assms(2,5) by (auto simp: FoldState_def foldStateOverChain_def with_chain_def res_simps split: if_splits)
  have start: "follows fold_init blame_init" by (simp add: follows_def fold_init_def blame_init_def)
  have follow: "follows st bl" by (rule follows_chain [OF assms(1,3) start bl(1) st(1) bl(2)])
  have entry: "map (\<lambda>e. (be_Path e, be_Value e)) (map (leafEntry prov) ls) = ls" for prov ls
    by (induction ls) (auto simp: leafEntry_def Let_def split: option.split)
  show ?thesis
  proof (cases "bl_found bl \<and> \<not> bl_destroyed bl")
    case True
    then have "fo_found st" "fo_current st = bl_current bl" using follow by (auto simp: follows_def)
    then show ?thesis using True st(2,3) bl(3) entry [of "bl_provenance bl"] by (auto simp: blameReport_def)
  next
    case False
    then have "\<not> fo_found st" using follow by (auto simp: follows_def split: if_splits)
    then show ?thesis using False st(2) bl(3) by (auto simp: blameReport_def not_found_def)
  qed
qed

definition sample_watched :: Proposal where
  "sample_watched = sample_proposal (sample_sha []) [] ''adoption''
     \<lparr>d_Creates = [Some (sample_node ''state'' (GObj [(''acl'', GStr ''old''), (''tags'', GObj [(''team'', GStr ''a'')])]))],
       d_Modifies = [], d_Destroys = []\<rparr>
     [sample_input ''live_state'' ''s.t.n'' ''h'' None] \<lparr>br_Creates = 0, br_Modifies = 0, br_Destroys = 0\<rparr>"

lemma sample_watched_chain: "Chain git_ops (keeping sample_watched) = Some (Inr [reread sample_watched])"
proof -
  have "p_Parent sample_watched = []" by (simp add: sample_watched_def sample_proposal_def)
  then show ?thesis unfolding Chain_def keeping_head using linked_ChainFrom [OF keeping_linked] by simp
qed

lemma sample_watched_blame:
  "\<exists>b state found. Blame git_ops (keeping sample_watched) (Address ''s'' ''t'' ''n'') = Some (Inr b) \<and> bm_Found b \<and>
     FoldState git_ops (keeping sample_watched) (Address ''s'' ''t'' ''n'') = Some (Inr (state, found))"
proof -
  let ?a = "Address ''s'' ''t'' ''n''" and ?s = "keeping sample_watched"
  let ?blame = "rbind (filter_res (recordsAddress git_ops ?s ?a) [reread sample_watched]) (blameOver git_ops ?s ?a)"
  let ?fold = "foldStateOverChain git_ops ?s [reread sample_watched] ?a"
  have "case ?blame of Inl e \<Rightarrow> False | Inr b \<Rightarrow> bm_Found b" by code_simp
  then obtain b where b: "?blame = Inr b" "bm_Found b" by (cases ?blame) auto
  have "\<not> isl ?fold" by code_simp
  then obtain r where r: "?fold = Inr r" by (cases ?fold) auto
  show ?thesis
    using b r by (simp add: Blame_def FoldState_def sample_watched_chain with_chain_def)
qed

theorem blame_is_fold_witness:
  "\<exists>b state found. Blame git_ops (keeping sample_watched) (Address ''s'' ''t'' ''n'') = Some (Inr b) \<and> bm_Found b \<and>
     (bm_Found b \<and> \<not> bm_Destroyed b \<longleftrightarrow> found)"
proof -
  obtain b state found where b: "Blame git_ops (keeping sample_watched) (Address ''s'' ''t'' ''n'') = Some (Inr b)"
    "bm_Found b" "FoldState git_ops (keeping sample_watched) (Address ''s'' ''t'' ''n'') = Some (Inr (state, found))"
    using sample_watched_blame by blast
  have "whole (Address ''s'' ''t'' ''n'')" by (simp add: whole_def)
  moreover have "hasInput (Address ''s'' ''t'' ''n'') (reread sample_watched)" by code_simp
  then have "\<forall>p \<in> set [reread sample_watched]. backed (Address ''s'' ''t'' ''n'') p" by (simp add: backed_def)
  ultimately show ?thesis using blame_is_fold [OF _ sample_watched_chain _ b(1,3)] b by blast
qed

end
