(* ===== verification/Stats.thy ===== *)
theory Stats
  imports History
begin

text \<open>
  core/stats.go: the decisions about drift that a ledger records, counted. Times are nanoseconds from
  the epoch; time.Parse with the layout RFC3339 is written out, a Duration is an int64: the difference
  of two times saturates, the sum of durations wraps around.
\<close>

section \<open>Times\<close>

definition lit :: "char \<Rightarrow> string \<Rightarrow> string option" where
  "lit c s = (case s of x # r \<Rightarrow> if x = c then Some r else None | [] \<Rightarrow> None)"

text \<open>A number of two digits, or of one where the layout has an hour.\<close>

definition getnum :: "bool \<Rightarrow> string \<Rightarrow> (int \<times> string) option" where
  "getnum fixed s = (case s of
      a # r \<Rightarrow>
        if \<not> is_digit a then None
        else (case r of
            b # r' \<Rightarrow> if is_digit b then Some (digit_val a * 10 + digit_val b, r')
                      else if fixed then None else Some (digit_val a, r)
          | [] \<Rightarrow> if fixed then None else Some (digit_val a, r))
    | [] \<Rightarrow> None)"

definition getyear :: "string \<Rightarrow> (int \<times> string) option" where
  "getyear s = (if length s \<ge> 4 \<and> list_all is_digit (take 4 s) then Some (digits_val (take 4 s) 0, drop 4 s) else None)"

definition getfrac :: "string \<Rightarrow> int \<times> string" where
  "getfrac s = (case s of
      c # d # r \<Rightarrow>
        if (c = CHR ''.'' \<or> c = CHR '','') \<and> is_digit d then
          let ds = takeWhile is_digit (d # r)
          in (digits_val (take 9 (ds @ replicate 9 (CHR ''0''))) 0, dropWhile is_digit (d # r))
        else (0, s)
    | _ \<Rightarrow> (0, s))"

text \<open>The offset of a zone in seconds.\<close>

definition getzone :: "string \<Rightarrow> (int \<times> string) option" where
  "getzone s = (case s of
      [] \<Rightarrow> None
    | c # r \<Rightarrow>
        if c = CHR ''Z'' then Some (0, r)
        else if c \<noteq> CHR ''+'' \<and> c \<noteq> CHR ''-'' then None
        else Option.bind (getnum True r) (\<lambda>(hh, r).
             Option.bind (lit (CHR '':'') r) (\<lambda>r.
             Option.bind (getnum True r) (\<lambda>(mm, r).
             if hh > 24 \<or> mm > 60 then None
             else Some ((if c = CHR ''-'' then - 1 else 1) * (hh * 60 + mm) * 60, r)))))"

definition leap :: "int \<Rightarrow> bool" where
  "leap y \<longleftrightarrow> y mod 4 = 0 \<and> (y mod 100 \<noteq> 0 \<or> y mod 400 = 0)"

definition daysIn :: "int \<Rightarrow> int \<Rightarrow> int" where
  "daysIn m y = (if m = 2 then (if leap y then 29 else 28) else if m \<in> {4, 6, 9, 11} then 30 else 31)"

text \<open>Days from 1970-01-01, in years that begin in March.\<close>

definition epoch_days :: "int \<Rightarrow> int \<Rightarrow> int \<Rightarrow> int" where
  "epoch_days y m d =
     (let y = (if m \<le> 2 then y - 1 else y);
          doy = (153 * (if m > 2 then m - 3 else m + 9) + 2) div 5 + d - 1
      in 365 * y + y div 4 - y div 100 + y div 400 + doy - 719468)"

definition parse_rfc3339 :: "string \<Rightarrow> int option" where
  "parse_rfc3339 s =
     Option.bind (getyear s) (\<lambda>(y, s). Option.bind (lit (CHR ''-'') s) (\<lambda>s.
     Option.bind (getnum True s) (\<lambda>(m, s). Option.bind (lit (CHR ''-'') s) (\<lambda>s.
     Option.bind (getnum True s) (\<lambda>(d, s). Option.bind (lit (CHR ''T'') s) (\<lambda>s.
     Option.bind (getnum False s) (\<lambda>(hour, s). Option.bind (lit (CHR '':'') s) (\<lambda>s.
     Option.bind (getnum True s) (\<lambda>(mi, s). Option.bind (lit (CHR '':'') s) (\<lambda>s.
     Option.bind (getnum True s) (\<lambda>(sec, s).
       let (ns, s) = getfrac s
       in Option.bind (getzone s) (\<lambda>(offset, s).
          if m < 1 \<or> m > 12 \<or> d < 1 \<or> d > daysIn m y \<or> hour \<ge> 24 \<or> mi \<ge> 60 \<or> sec \<ge> 60 \<or> s \<noteq> [] then None
          else Some ((epoch_days y m d * 86400 + hour * 3600 + mi * 60 + sec - offset) * 1000000000 + ns)))))))))))))"

text \<open>Time.Sub.\<close>

definition dur_min :: int where "dur_min = - 9223372036854775808"
definition dur_max :: int where "dur_max = 9223372036854775807"

definition time_sub :: "int \<Rightarrow> int \<Rightarrow> int" where
  "time_sub t u = (if t - u < dur_min then dur_min else if t - u > dur_max then dur_max else t - u)"

section \<open>Statistics\<close>

record StatsOptions =
  so_Stack :: string
  so_Since :: "int option"
  so_Until :: "int option"

record StatsResult =
  sr_TotalProposals :: nat
  sr_ByKind :: "(string, nat) amap"
  sr_AcceptanceMethod :: "(string, nat) amap"
  sr_DriftByStack :: "(string, nat) amap"
  sr_DriftEvents :: nat
  sr_DriftResolvedReverted :: nat
  sr_DriftResolvedAdopted :: nat
  sr_DriftOpen :: nat
  sr_TimeToDecision :: int
  sr_TimeToDecisionSamples :: nat
  sr_AttributedDriftAdopts :: nat
  sr_TotalDriftAdopts :: nat

definition stats_init :: StatsResult where
  "stats_init = \<lparr>sr_TotalProposals = 0, sr_ByKind = [], sr_AcceptanceMethod = [], sr_DriftByStack = [],
     sr_DriftEvents = 0, sr_DriftResolvedReverted = 0, sr_DriftResolvedAdopted = 0, sr_DriftOpen = 0,
     sr_TimeToDecision = 0, sr_TimeToDecisionSamples = 0, sr_AttributedDriftAdopts = 0, sr_TotalDriftAdopts = 0\<rparr>"

definition bump :: "string \<Rightarrow> (string, nat) amap \<Rightarrow> (string, nat) amap" where
  "bump k m = aput k (case map_of m k of None \<Rightarrow> 1 | Some n \<Rightarrow> n + 1) m"

definition decisionLatency :: "Proposal \<Rightarrow> int option" where
  "decisionLatency p = (case p_Acceptance p of
      None \<Rightarrow> None
    | Some a \<Rightarrow> Option.bind (parse_rfc3339 (rs_ResolvedAt (p_Resolution p))) (\<lambda>resolvedAt.
        Option.bind (parse_rfc3339 (ac_AcceptedAt a)) (\<lambda>acceptedAt. Some (time_sub acceptedAt resolvedAt))))"

definition hasRealAttribution :: "Proposal \<Rightarrow> bool" where
  "hasRealAttribution p \<longleftrightarrow> (\<exists>s \<in> set (int_Sources (p_Intent p)). isActorSource s)"

definition driftTargets :: "Proposal \<Rightarrow> Address list" where
  "driftTargets p = map mod_Target (d_Modifies (p_Delta p))"

text \<open>Whether a proposal is counted: of the stack, accepted, and accepted within the window.\<close>

definition inWindow :: "StatsOptions \<Rightarrow> Proposal \<Rightarrow> bool" where
  "inWindow opts p =
     (if so_Stack opts \<noteq> [] \<and> p_Stack p \<noteq> so_Stack opts then False
      else case p_Acceptance p of
        None \<Rightarrow> False
      | Some a \<Rightarrow>
          if so_Since opts = None \<and> so_Until opts = None then True
          else (case parse_rfc3339 (ac_AcceptedAt a) of
              None \<Rightarrow> False
            | Some at \<Rightarrow>
                \<not> (case so_Since opts of None \<Rightarrow> False | Some t \<Rightarrow> at < t) \<and>
                \<not> (case so_Until opts of None \<Rightarrow> False | Some t \<Rightarrow> at > t)))"

text \<open>What the walk collects: the counts, the durations, the touches and the shipped destroys by position.\<close>

record driftTouch =
  dt_Address :: Address
  dt_Kind :: string
  dt_chainIndex :: nat

record statsAcc =
  sa_result :: StatsResult
  sa_touches :: "driftTouch list"
  sa_destroyedAt :: "(Address \<times> nat) list"
  sa_sum :: int

text \<open>The int64 a sum of int64s wraps to.\<close>

definition wrap64 :: "int \<Rightarrow> int" where
  "wrap64 x = (x + 9223372036854775808) mod 18446744073709551616 - 9223372036854775808"

definition statsDestroy ::
    "'s store_ops \<Rightarrow> 's \<Rightarrow> nat \<Rightarrow> Proposal \<Rightarrow> DestroyEntry \<Rightarrow> statsAcc \<Rightarrow> (err, statsAcc) res" where
  "statsDestroy ops s i p d st =
     rbind (shippedDestroyFold ops s (p_ID p) (des_Address d)) (\<lambda>shipped.
       Inr (if shipped = None then st
            else st\<lparr>sa_destroyedAt := sa_destroyedAt st @ [(des_Address d, i)]\<rparr>))"

definition statsDrift :: "nat \<Rightarrow> Proposal \<Rightarrow> statsAcc \<Rightarrow> statsAcc" where
  "statsDrift i p st =
     (let r = sa_result st;
          r = r\<lparr>sr_DriftByStack := bump (p_Stack p) (sr_DriftByStack r)\<rparr>;
          (r, total) = (case decisionLatency p of
              None \<Rightarrow> (r, sa_sum st)
            | Some dur \<Rightarrow> (r\<lparr>sr_TimeToDecisionSamples := sr_TimeToDecisionSamples r + 1\<rparr>, wrap64 (sa_sum st + dur)));
          r = (if p_Kind p = KindDriftAdopt then
                 r\<lparr>sr_TotalDriftAdopts := sr_TotalDriftAdopts r + 1,
                   sr_AttributedDriftAdopts := sr_AttributedDriftAdopts r + (if hasRealAttribution p then 1 else 0)\<rparr>
               else r)
      in st\<lparr>sa_result := r, sa_sum := total,
           sa_touches := sa_touches st @
             map (\<lambda>a. \<lparr>dt_Address = a, dt_Kind = p_Kind p, dt_chainIndex = i\<rparr>) (driftTargets p)\<rparr>)"

definition statsProposal ::
    "'s store_ops \<Rightarrow> 's \<Rightarrow> StatsOptions \<Rightarrow> nat \<times> Proposal \<Rightarrow> statsAcc \<Rightarrow> (err, statsAcc) res" where
  "statsProposal ops s opts ip st =
     (let (i, p) = ip in
      if \<not> inWindow opts p then Inr st
      else let r = sa_result st;
               how = (case p_Acceptance p of None \<Rightarrow> [] | Some a \<Rightarrow> ac_Method a);
               st = st\<lparr>sa_result := r\<lparr>sr_TotalProposals := sr_TotalProposals r + 1,
                 sr_ByKind := bump (p_Kind p) (sr_ByKind r),
                 sr_AcceptanceMethod := bump how (sr_AcceptanceMethod r)\<rparr>\<rparr>
           in rbind (fold_res (statsDestroy ops s i p) (d_Destroys (p_Delta p)) st) (\<lambda>st.
              Inr (if p_Kind p \<noteq> KindDriftAdopt \<and> p_Kind p \<noteq> KindDriftRevert then st else statsDrift i p st)))"

definition destroyedAfter :: "nat list \<Rightarrow> nat \<Rightarrow> bool" where
  "destroyedAfter destroyIndices chainIndex \<longleftrightarrow> (\<exists>i \<in> set destroyIndices. i > chainIndex)"

text \<open>One touch of an address: the kind of the touch before it, and the touches after it.\<close>

definition countTouch :: "nat list \<Rightarrow> string option \<Rightarrow> driftTouch \<Rightarrow> driftTouch list \<Rightarrow> StatsResult \<Rightarrow> StatsResult" where
  "countTouch destroyed prev t ts r =
     (if dt_Kind t = KindDriftAdopt then
        (case ts of
           nx # _ \<Rightarrow>
             if dt_Kind nx = KindDriftRevert
             then r\<lparr>sr_DriftEvents := sr_DriftEvents r + 1, sr_DriftResolvedReverted := sr_DriftResolvedReverted r + 1\<rparr>
             else r\<lparr>sr_DriftEvents := sr_DriftEvents r + 1, sr_DriftResolvedAdopted := sr_DriftResolvedAdopted r + 1\<rparr>
         | [] \<Rightarrow>
             if destroyedAfter destroyed (dt_chainIndex t) then r
             else r\<lparr>sr_DriftEvents := sr_DriftEvents r + 1, sr_DriftOpen := sr_DriftOpen r + 1\<rparr>)
      else if dt_Kind t = KindDriftRevert then
        (if prev \<noteq> Some KindDriftAdopt
         then r\<lparr>sr_DriftEvents := sr_DriftEvents r + 1, sr_DriftResolvedReverted := sr_DriftResolvedReverted r + 1\<rparr>
         else r)
      else r)"

fun classify :: "nat list \<Rightarrow> string option \<Rightarrow> driftTouch list \<Rightarrow> StatsResult \<Rightarrow> StatsResult" where
  "classify destroyed prev [] r = r"
| "classify destroyed prev (t # ts) r =
     classify destroyed (Some (dt_Kind t)) ts (countTouch destroyed prev t ts r)"

text \<open>The addresses are a Go map, ranged over in any order; here in the order of their first touch.\<close>

definition classifyAll :: "statsAcc \<Rightarrow> StatsResult \<Rightarrow> StatsResult" where
  "classifyAll st r =
     fold (\<lambda>a. classify (map snd (filter (\<lambda>d. fst d = a) (sa_destroyedAt st))) None
                 (filter (\<lambda>t. dt_Address t = a) (sa_touches st)))
       (remdups (map dt_Address (sa_touches st))) r"

definition truncated_div :: "int \<Rightarrow> int \<Rightarrow> int" where
  "truncated_div x n = (if x < 0 then - (- x div n) else x div n)"

definition statsOver :: "'s store_ops \<Rightarrow> 's \<Rightarrow> StatsOptions \<Rightarrow> Proposal list \<Rightarrow> (err, StatsResult) res" where
  "statsOver ops s opts chain =
     rbind (fold_res (statsProposal ops s opts) (enumerate 0 chain)
       \<lparr>sa_result = stats_init, sa_touches = [], sa_destroyedAt = [], sa_sum = 0\<rparr>) (\<lambda>st.
     let r = sa_result st;
         samples = sr_TimeToDecisionSamples r;
         r = (if samples > 0 then r\<lparr>sr_TimeToDecision := truncated_div (sa_sum st) (int samples)\<rparr> else r)
     in Inr (classifyAll st r))"

definition Stats :: "'s store_ops \<Rightarrow> 's \<Rightarrow> StatsOptions \<Rightarrow> (err, StatsResult) res option" where
  "Stats ops s opts = with_chain (Chain ops s) (statsOver ops s opts)"

text \<open>The percentages, as exact quotients.\<close>

definition DriftResolutionPct :: "StatsResult \<Rightarrow> (nat \<times> nat) option" where
  "DriftResolutionPct r =
     (if sr_DriftEvents r = 0 then None
      else Some ((sr_DriftResolvedReverted r + sr_DriftResolvedAdopted r) * 100, sr_DriftEvents r))"

definition AttributionCoveragePct :: "StatsResult \<Rightarrow> (nat \<times> nat) option" where
  "AttributionCoveragePct r =
     (if sr_TotalDriftAdopts r = 0 then None else Some (sr_AttributedDriftAdopts r * 100, sr_TotalDriftAdopts r))"

section \<open>The counts\<close>

lemma classify_counts:
  "sr_DriftEvents (classify ds prev ts r) + (sr_DriftResolvedReverted r + sr_DriftResolvedAdopted r + sr_DriftOpen r) =
     sr_DriftEvents r + (sr_DriftResolvedReverted (classify ds prev ts r) +
       sr_DriftResolvedAdopted (classify ds prev ts r) + sr_DriftOpen (classify ds prev ts r))"
proof (induction ts arbitrary: prev r)
  case (Cons t ts)
  let ?r = "countTouch ds prev t ts r"
  have "sr_DriftEvents ?r + (sr_DriftResolvedReverted r + sr_DriftResolvedAdopted r + sr_DriftOpen r) =
      sr_DriftEvents r + (sr_DriftResolvedReverted ?r + sr_DriftResolvedAdopted ?r + sr_DriftOpen ?r)"
    by (simp add: countTouch_def split: list.split)
  then show ?case using Cons.IH [of "Some (dt_Kind t)" ?r] unfolding classify.simps by linarith
qed simp

definition isRevert :: "driftTouch \<Rightarrow> bool" where
  "isRevert t \<longleftrightarrow> dt_Kind t = KindDriftRevert"

definition resolves :: "string option \<Rightarrow> driftTouch list \<Rightarrow> nat" where
  "resolves prev ts = (if prev = Some KindDriftAdopt \<and> (\<exists>t rest. ts = t # rest \<and> isRevert t) then 1 else 0)"

lemma kinds_apart: "KindDriftAdopt \<noteq> KindDriftRevert"
  by (simp add: KindDriftAdopt_def KindDriftRevert_def)

lemma countTouch_reverts:
  "sr_DriftResolvedReverted (countTouch ds prev t ts r) + resolves prev (t # ts) =
     sr_DriftResolvedReverted r + (if isRevert t then 1 else 0) + resolves (Some (dt_Kind t)) ts"
  using kinds_apart by (auto simp: countTouch_def resolves_def isRevert_def split: list.split)

lemma classify_reverts:
  "sr_DriftResolvedReverted (classify ds prev ts r) + resolves prev ts =
     sr_DriftResolvedReverted r + length (filter isRevert ts)"
proof (induction ts arbitrary: prev r)
  case Nil
  then show ?case by (simp add: resolves_def)
next
  case (Cons t ts)
  have "length (filter isRevert (t # ts)) = (if isRevert t then 1 else 0) + length (filter isRevert ts)" by simp
  then show ?case
    using Cons.IH [of "Some (dt_Kind t)" "countTouch ds prev t ts r"] countTouch_reverts [of ds prev t ts r]
    unfolding classify.simps by linarith
qed

text \<open>The drift touches of the proposals in the window, in the order of the chain.\<close>

definition touchesOf :: "nat \<times> Proposal \<Rightarrow> driftTouch list" where
  "touchesOf ip = (if p_Kind (snd ip) \<noteq> KindDriftAdopt \<and> p_Kind (snd ip) \<noteq> KindDriftRevert then []
     else map (\<lambda>a. \<lparr>dt_Address = a, dt_Kind = p_Kind (snd ip), dt_chainIndex = fst ip\<rparr>) (driftTargets (snd ip)))"

definition touchesIn :: "StatsOptions \<Rightarrow> Proposal list \<Rightarrow> driftTouch list" where
  "touchesIn opts chain = concat (map touchesOf (filter (\<lambda>ip. inWindow opts (snd ip)) (enumerate 0 chain)))"

text \<open>What the walk leaves alone and what it counts.\<close>

definition quiet_acc :: "statsAcc \<Rightarrow> bool" where
  "quiet_acc st \<longleftrightarrow> sr_DriftEvents (sa_result st) = 0 \<and> sr_DriftResolvedReverted (sa_result st) = 0 \<and>
     sr_DriftResolvedAdopted (sa_result st) = 0 \<and> sr_DriftOpen (sa_result st) = 0 \<and>
     sr_AttributedDriftAdopts (sa_result st) \<le> sr_TotalDriftAdopts (sa_result st) \<and>
     sr_TotalDriftAdopts (sa_result st) \<le> sr_TotalProposals (sa_result st) \<and>
     sr_TimeToDecisionSamples (sa_result st) \<le> sr_TotalProposals (sa_result st) \<and>
     sum_list (map snd (sr_ByKind (sa_result st))) = sr_TotalProposals (sa_result st)"

lemma sum_bump: "sum_list (map snd (bump k m)) = Suc (sum_list (map snd m))" if "amap_wf m"
proof -
  have "sum_list (map snd (aput k v m)) + (case map_of m k of None \<Rightarrow> 0 | Some n \<Rightarrow> n) = v + sum_list (map snd m)"
    for v :: nat
    using that
  proof (induction m)
    case (Cons b m)
    have "map_of m k = None" if "k \<le> fst b"
      using Cons.prems that by (auto simp: map_of_eq_None_iff)
    then show ?case using Cons by (auto split: option.splits)
  qed simp
  from this [of "case map_of m k of None \<Rightarrow> 1 | Some n \<Rightarrow> n + 1"] show ?thesis
    by (auto simp: bump_def split: option.splits)
qed

lemma statsDestroys_same:
  "fold_res (statsDestroy ops s i p) ds st = Inr st' \<Longrightarrow>
     sa_result st' = sa_result st \<and> sa_touches st' = sa_touches st \<and> sa_sum st' = sa_sum st"
proof (induction ds arbitrary: st)
  case (Cons d ds)
  then obtain st1 where "statsDestroy ops s i p d st = Inr st1" "fold_res (statsDestroy ops s i p) ds st1 = Inr st'"
    by (auto split: sum.splits)
  moreover from this(1) have "sa_result st1 = sa_result st \<and> sa_touches st1 = sa_touches st \<and> sa_sum st1 = sa_sum st"
    by (auto simp: statsDestroy_def res_simps simp del: not_None_eq split: if_splits)
  ultimately show ?case using Cons.IH by simp
qed simp

lemma statsProposal_step:
  assumes "statsProposal ops s opts ip st = Inr st'" "quiet_acc st" "amap_wf (sr_ByKind (sa_result st))"
  shows "quiet_acc st' \<and> amap_wf (sr_ByKind (sa_result st')) \<and>
    sa_touches st' = sa_touches st @ (if inWindow opts (snd ip) then touchesOf ip else []) \<and>
    sr_TotalProposals (sa_result st') = sr_TotalProposals (sa_result st) + (if inWindow opts (snd ip) then 1 else 0)"
proof (cases "inWindow opts (snd ip)")
  case False
  then show ?thesis using assms by (simp add: statsProposal_def case_prod_beta)
next
  case True
  obtain i p where ip: "ip = (i, p)" by (cases ip)
  let ?how = "case p_Acceptance p of None \<Rightarrow> [] | Some a \<Rightarrow> ac_Method a"
  define st0 where "st0 = st\<lparr>sa_result := (sa_result st)\<lparr>sr_TotalProposals := sr_TotalProposals (sa_result st) + 1,
     sr_ByKind := bump (p_Kind p) (sr_ByKind (sa_result st)),
     sr_AcceptanceMethod := bump ?how (sr_AcceptanceMethod (sa_result st))\<rparr>\<rparr>"
  have st0: "sr_TotalProposals (sa_result st0) = Suc (sr_TotalProposals (sa_result st))" "sa_touches st0 = sa_touches st"
    "sum_list (map snd (sr_ByKind (sa_result st0))) = Suc (sr_TotalProposals (sa_result st))"
    "amap_wf (sr_ByKind (sa_result st0))"
    "sr_DriftEvents (sa_result st0) = 0 \<and> sr_DriftResolvedReverted (sa_result st0) = 0 \<and>
     sr_DriftResolvedAdopted (sa_result st0) = 0 \<and> sr_DriftOpen (sa_result st0) = 0"
    "sr_AttributedDriftAdopts (sa_result st0) \<le> sr_TotalDriftAdopts (sa_result st0)"
    "sr_TotalDriftAdopts (sa_result st0) \<le> sr_TotalProposals (sa_result st)"
    "sr_TimeToDecisionSamples (sa_result st0) \<le> sr_TotalProposals (sa_result st)"
    using assms(2,3) by (simp_all add: st0_def quiet_acc_def sum_bump, simp add: bump_def)
  obtain st1 where st1: "fold_res (statsDestroy ops s i p) (d_Destroys (p_Delta p)) st0 = Inr st1"
      "st' = (if p_Kind p \<noteq> KindDriftAdopt \<and> p_Kind p \<noteq> KindDriftRevert then st1 else statsDrift i p st1)"
    using assms(1) True unfolding ip by (auto simp: statsProposal_def Let_def res_simps st0_def)
  have same: "sa_result st1 = sa_result st0" "sa_touches st1 = sa_touches st"
    using statsDestroys_same [OF st1(1)] st0(2) by auto
  show ?thesis
  proof (cases "p_Kind p \<noteq> KindDriftAdopt \<and> p_Kind p \<noteq> KindDriftRevert")
    case True
    then show ?thesis using st0 st1(2) same \<open>inWindow opts (snd ip)\<close> ip
      by (simp add: quiet_acc_def touchesOf_def)
  next
    case False
    then show ?thesis using st0 st1(2) same \<open>inWindow opts (snd ip)\<close> ip
      by (auto simp: quiet_acc_def touchesOf_def statsDrift_def Let_def split: option.splits)
  qed
qed

lemma statsProposals:
  assumes "fold_res (statsProposal ops s opts) ips st = Inr st'" "quiet_acc st" "amap_wf (sr_ByKind (sa_result st))"
  shows "quiet_acc st' \<and>
    sa_touches st' = sa_touches st @ concat (map touchesOf (filter (\<lambda>ip. inWindow opts (snd ip)) ips)) \<and>
    sr_TotalProposals (sa_result st') = sr_TotalProposals (sa_result st) + length (filter (\<lambda>ip. inWindow opts (snd ip)) ips)"
  using assms
proof (induction ips arbitrary: st)
  case (Cons ip ips)
  then obtain st1 where st1: "statsProposal ops s opts ip st = Inr st1" "fold_res (statsProposal ops s opts) ips st1 = Inr st'"
    by (auto split: sum.splits)
  note step = statsProposal_step [OF st1(1) Cons.prems(2,3)]
  from Cons.IH [OF st1(2)] step show ?case by simp
qed simp

lemma countTouch_same:
  "sr_TotalProposals (countTouch ds prev t ts r) = sr_TotalProposals r"
  "sr_ByKind (countTouch ds prev t ts r) = sr_ByKind r"
  "sr_AttributedDriftAdopts (countTouch ds prev t ts r) = sr_AttributedDriftAdopts r"
  "sr_TotalDriftAdopts (countTouch ds prev t ts r) = sr_TotalDriftAdopts r"
  by (simp_all add: countTouch_def split: list.split)

lemma classify_same:
  "sr_TotalProposals (classify ds prev ts r) = sr_TotalProposals r \<and> sr_ByKind (classify ds prev ts r) = sr_ByKind r \<and>
   sr_AttributedDriftAdopts (classify ds prev ts r) = sr_AttributedDriftAdopts r \<and>
   sr_TotalDriftAdopts (classify ds prev ts r) = sr_TotalDriftAdopts r"
  by (induction ts arbitrary: prev r) (simp_all add: countTouch_same)

lemma sum_by_address:
  "distinct as \<Longrightarrow> (\<Sum>a\<leftarrow>as. length (filter P (filter (\<lambda>t. f t = a) l))) = length (filter (\<lambda>t. P t \<and> f t \<in> set as) l)"
proof (induction as)
  case (Cons a as)
  have "length (filter (\<lambda>t. f t = a \<and> P t) l) + length (filter (\<lambda>t. P t \<and> f t \<in> set as) l) =
      length (filter (\<lambda>t. P t \<and> f t \<in> set (a # as)) l)" if "a \<notin> set as"
    using that by (induction l) auto
  then show ?case using Cons by simp
qed simp

lemma classifyAll_counts:
  assumes "quiet_acc st" "sr_DriftEvents r0 = 0 \<and> sr_DriftResolvedReverted r0 = 0 \<and> sr_DriftResolvedAdopted r0 = 0 \<and> sr_DriftOpen r0 = 0"
  shows "sr_DriftEvents (classifyAll st r0) = sr_DriftResolvedReverted (classifyAll st r0) +
      sr_DriftResolvedAdopted (classifyAll st r0) + sr_DriftOpen (classifyAll st r0) \<and>
    sr_DriftResolvedReverted (classifyAll st r0) = length (filter isRevert (sa_touches st)) \<and>
    sr_TotalProposals (classifyAll st r0) = sr_TotalProposals r0 \<and> sr_ByKind (classifyAll st r0) = sr_ByKind r0 \<and>
    sr_AttributedDriftAdopts (classifyAll st r0) = sr_AttributedDriftAdopts r0 \<and>
    sr_TotalDriftAdopts (classifyAll st r0) = sr_TotalDriftAdopts r0"
proof -
  define f where "f a = classify (map snd (filter (\<lambda>d. fst d = a) (sa_destroyedAt st))) None
      (filter (\<lambda>t. dt_Address t = a) (sa_touches st))" for a
  have "resolves None ts = 0" for ts by (simp add: resolves_def)
  then have rev: "sr_DriftResolvedReverted (f a r) = sr_DriftResolvedReverted r +
      length (filter isRevert (filter (\<lambda>t. dt_Address t = a) (sa_touches st)))" for a r
    unfolding f_def using classify_reverts [of _ None _ r] by (metis add.right_neutral)
  have counts: "sr_DriftEvents (f a r) + (sr_DriftResolvedReverted r + sr_DriftResolvedAdopted r + sr_DriftOpen r) =
      sr_DriftEvents r + (sr_DriftResolvedReverted (f a r) + sr_DriftResolvedAdopted (f a r) + sr_DriftOpen (f a r))" for a r
    unfolding f_def by (rule classify_counts)
  have keep: "sr_TotalProposals (f a r) = sr_TotalProposals r" "sr_ByKind (f a r) = sr_ByKind r"
      "sr_AttributedDriftAdopts (f a r) = sr_AttributedDriftAdopts r"
      "sr_TotalDriftAdopts (f a r) = sr_TotalDriftAdopts r" for a r
    using classify_same unfolding f_def by auto
  have "sr_DriftEvents (fold f as r) + (sr_DriftResolvedReverted r + sr_DriftResolvedAdopted r + sr_DriftOpen r) =
      sr_DriftEvents r + (sr_DriftResolvedReverted (fold f as r) + sr_DriftResolvedAdopted (fold f as r) + sr_DriftOpen (fold f as r))"
    for as r
  proof (induction as arbitrary: r)
    case (Cons a as)
    then show ?case using counts [of a r] Cons.IH [of "f a r"] unfolding fold_simps by linarith
  qed simp
  moreover have "sr_DriftResolvedReverted (fold f as r) = sr_DriftResolvedReverted r +
      (\<Sum>a\<leftarrow>as. length (filter isRevert (filter (\<lambda>t. dt_Address t = a) (sa_touches st))))" for as r
    by (induction as arbitrary: r) (simp_all add: rev)
  moreover have "sr_TotalProposals (fold f as r) = sr_TotalProposals r \<and> sr_ByKind (fold f as r) = sr_ByKind r \<and>
    sr_AttributedDriftAdopts (fold f as r) = sr_AttributedDriftAdopts r \<and>
    sr_TotalDriftAdopts (fold f as r) = sr_TotalDriftAdopts r" for as r
    by (induction as arbitrary: r) (simp_all add: keep)
  moreover have "classifyAll st r = fold f (remdups (map dt_Address (sa_touches st))) r" for r
    unfolding classifyAll_def f_def by simp
  moreover have "(\<Sum>a\<leftarrow>remdups (map dt_Address (sa_touches st)). length (filter isRevert (filter (\<lambda>t. dt_Address t = a) (sa_touches st)))) =
      length (filter isRevert (sa_touches st))"
    by (subst sum_by_address) (auto intro!: arg_cong [where f = length] filter_cong)
  ultimately show ?thesis using assms(2) by (metis add_cancel_left_left add_cancel_right_right)
qed

text \<open>
  C29. The statistics count each decision once: every drift event is reverted, superseded or open and
  nothing else; the drifts resolved by reverting are exactly the recorded reverts, whether they follow
  an adoption of the same drift or stand alone; the kinds add up to the proposals in the window.
\<close>

theorem stats_partition:
  assumes "Stats ops s opts = Some (Inr r)" "Chain ops s = Some (Inr chain)"
  shows "sr_DriftEvents r = sr_DriftResolvedReverted r + sr_DriftResolvedAdopted r + sr_DriftOpen r \<and>
    sr_DriftResolvedReverted r = length (filter isRevert (touchesIn opts chain)) \<and>
    sr_TotalProposals r = length (filter (inWindow opts) chain) \<and>
    sum_list (map snd (sr_ByKind r)) = sr_TotalProposals r \<and>
    sr_AttributedDriftAdopts r \<le> sr_TotalDriftAdopts r \<and> sr_TotalDriftAdopts r \<le> sr_TotalProposals r"
proof -
  let ?st0 = "\<lparr>sa_result = stats_init, sa_touches = [], sa_destroyedAt = [], sa_sum = 0\<rparr>"
  obtain st where st: "fold_res (statsProposal ops s opts) (enumerate 0 chain) ?st0 = Inr st"
    "r = classifyAll st (if sr_TimeToDecisionSamples (sa_result st) > 0
       then (sa_result st)\<lparr>sr_TimeToDecision := truncated_div (sa_sum st) (int (sr_TimeToDecisionSamples (sa_result st)))\<rparr>
       else sa_result st)" (is "_ = classifyAll st ?r0")
    using assms by (auto simp: Stats_def statsOver_def with_chain_def Let_def res_simps)
  have acc: "quiet_acc st" "sa_touches st = touchesIn opts chain"
      "sr_TotalProposals (sa_result st) = length (filter (\<lambda>ip. inWindow opts (snd ip)) (enumerate 0 chain))"
    using statsProposals [OF st(1)] by (simp_all add: quiet_acc_def stats_init_def touchesIn_def)
  have len: "length (filter (\<lambda>ip. P (snd ip)) (enumerate n xs)) = length (filter P xs)" for P n and xs :: "Proposal list"
    by (induction xs arbitrary: n) auto
  have same: "sr_TotalProposals ?r0 = sr_TotalProposals (sa_result st)" "sr_ByKind ?r0 = sr_ByKind (sa_result st)"
    "sr_AttributedDriftAdopts ?r0 = sr_AttributedDriftAdopts (sa_result st)"
    "sr_TotalDriftAdopts ?r0 = sr_TotalDriftAdopts (sa_result st)"
    "sr_DriftEvents ?r0 = 0 \<and> sr_DriftResolvedReverted ?r0 = 0 \<and> sr_DriftResolvedAdopted ?r0 = 0 \<and> sr_DriftOpen ?r0 = 0"
    using acc(1) by (simp_all add: quiet_acc_def)
  show ?thesis
    using classifyAll_counts [OF acc(1) same(5)] acc same len [of "inWindow opts" 0 chain]
    unfolding st(2) by (simp add: quiet_acc_def)
qed

definition sample_decided :: Proposal where
  "sample_decided = (sample_proposal (sample_sha []) [] KindDriftRevert
     \<lparr>d_Creates = [], d_Modifies = [\<lparr>mod_Target = Address ''s'' ''t'' ''n'', mod_Before = [], mod_After = [],
        mod_DependsOn = [], mod_Provider = None, mod_Sources = []\<rparr>], d_Destroys = []\<rparr>
     [sample_input ''live_state'' ''s.t.n'' ''h'' None] \<lparr>br_Creates = 0, br_Modifies = 0, br_Destroys = 0\<rparr>)
     \<lparr>p_Resolution := \<lparr>rs_ResolvedAt = ''2026-07-31T09:30:00+02:00'', rs_Inputs = []\<rparr>,
      p_Acceptance := Some \<lparr>ac_Method = ''local'', ac_Platform = [], ac_MergeSHA = [], ac_PRNumber = 0,
        ac_ProposalFile = [], ac_Approvers = [], ac_ReviewComment = [], ac_AcceptedAt = ''2026-07-31T07:31:00.5Z''\<rparr>\<rparr>"

definition no_options :: StatsOptions where
  "no_options = \<lparr>so_Stack = [], so_Since = None, so_Until = None\<rparr>"

lemma sample_decided_stats:
  "\<exists>r. Stats git_ops (keeping sample_decided) no_options = Some (Inr r) \<and> sr_DriftEvents r = 1 \<and>
     sr_TimeToDecision r = 60500000000"
proof -
  have "p_Parent sample_decided = []" by (simp add: sample_decided_def sample_proposal_def)
  then have chain: "Chain git_ops (keeping sample_decided) = Some (Inr [reread sample_decided])"
    unfolding Chain_def keeping_head using linked_ChainFrom [OF keeping_linked] by simp
  let ?stats = "statsOver git_ops (keeping sample_decided) no_options [reread sample_decided]"
  have "case ?stats of Inl e \<Rightarrow> False | Inr r \<Rightarrow> sr_DriftEvents r = 1 \<and> sr_TimeToDecision r = 60500000000"
    by code_simp
  then obtain r where "?stats = Inr r" "sr_DriftEvents r = 1 \<and> sr_TimeToDecision r = 60500000000"
    by (cases ?stats) auto
  then show ?thesis by (simp add: Stats_def chain with_chain_def)
qed

theorem stats_partition_witness:
  "\<exists>r. Stats git_ops (keeping sample_decided) no_options = Some (Inr r) \<and>
     sr_DriftEvents r = sr_DriftResolvedReverted r + sr_DriftResolvedAdopted r + sr_DriftOpen r \<and> sr_DriftEvents r = 1"
proof -
  obtain r where r: "Stats git_ops (keeping sample_decided) no_options = Some (Inr r)" "sr_DriftEvents r = 1"
    using sample_decided_stats by blast
  have "p_Parent sample_decided = []" by (simp add: sample_decided_def sample_proposal_def)
  then have "Chain git_ops (keeping sample_decided) = Some (Inr [reread sample_decided])"
    unfolding Chain_def keeping_head using linked_ChainFrom [OF keeping_linked] by simp
  from stats_partition [OF r(1) this] r show ?thesis by blast
qed

end
