(* ===== verification/Attribution.thy ===== *)
theory Attribution
  imports Stats
begin

text \<open>
  core/attribution.go and core/genesis.go: who changed a resource, and who created it, as far as an
  audit log can tell. The log is a parameter: a lookup on a world, by a value and a window of time.
  Events with the same time and the same id keep their order, which the sort of the code leaves open.
\<close>

section \<open>Times as text\<close>

text \<open>The year, month and day of a day, counted from 1970-01-01.\<close>

definition civil_day :: "int \<Rightarrow> int \<times> int \<times> int" where
  "civil_day n =
     (let z = n + 719468;
          doe = z mod 146097;
          yoe = (doe - doe div 1460 + doe div 36524 - doe div 146096) div 365;
          doy = doe - (365 * yoe + yoe div 4 - yoe div 100);
          mp = (5 * doy + 2) div 153;
          d = doy - (153 * mp + 2) div 5 + 1;
          m = (if mp < 10 then mp + 3 else mp - 9);
          y = yoe + z div 146097 * 400
      in (if m \<le> 2 then y + 1 else y, m, d))"

definition pad_to :: "nat \<Rightarrow> int \<Rightarrow> string" where
  "pad_to n x =
     (let s = nat_text \<bar>x\<bar>; s = replicate (n - length s) (CHR ''0'') @ s
      in if x < 0 then CHR ''-'' # s else s)"

text \<open>Time.UTC().Format(time.RFC3339).\<close>

definition format_rfc3339 :: "int \<Rightarrow> string" where
  "format_rfc3339 t =
     (let secs = t div 1000000000;
          (y, m, d) = civil_day (secs div 86400);
          s = secs mod 86400
      in pad_to 4 y @ ''-'' @ pad_to 2 m @ ''-'' @ pad_to 2 d @ ''T'' @
         pad_to 2 (s div 3600) @ '':'' @ pad_to 2 (s div 60 mod 60) @ '':'' @ pad_to 2 (s mod 60) @ ''Z'')"

section \<open>Events\<close>

record CloudTrailEvent =
  ev_EventID :: string
  ev_EventName :: string
  ev_EventTime :: int
  ev_ActorARN :: string
  ev_SourceIP :: string
  ev_SessionContext :: raw
  ev_RawRecord :: string
  ev_Resources :: "string list"

type_synonym 'w EventLookup = "string \<Rightarrow> int \<Rightarrow> int \<Rightarrow> ('w, err, CloudTrailEvent list) op"

record AttributionBackend =
  ab_Name :: string
  ab_SuccessKind :: string
  ab_UnattributedKind :: string
  ab_DeliveryLag :: int

definition ReasonNoMatchingEvent :: string where "ReasonNoMatchingEvent = ''no_matching_event''"
definition ReasonDeliveryWindow :: string where "ReasonDeliveryWindow = ''delivery_window''"
definition ReasonNotLogged :: string where "ReasonNotLogged = ''not_logged''"
definition ReasonNoCreationVerbs :: string where "ReasonNoCreationVerbs = ''no_creation_verb_table''"

definition no_source :: IntentSource where
  "no_source = \<lparr>src_Kind = [], src_Ref = [], src_ContentHash = [], src_Base = [], src_DeclaredArgs = [],
     src_WithheldArgs = [], src_Declaration = [], src_DeclaredSource = [], src_DeclaredRev = [], src_DeclaredPath = [],
     src_EventID = [], src_EventName = [], src_EventTime = [], src_ActorARN = [], src_SourceIP = [],
     src_SessionContext = None, src_Reason = [], src_Backend = []\<rparr>"

definition unattributed :: "AttributionBackend \<Rightarrow> string \<Rightarrow> IntentSource" where
  "unattributed backend reason = no_source\<lparr>src_Kind := ab_UnattributedKind backend, src_Reason := reason,
     src_Backend := ab_Name backend\<rparr>"

definition eventSource :: "(string \<Rightarrow> string) \<Rightarrow> string \<Rightarrow> CloudTrailEvent \<Rightarrow> IntentSource" where
  "eventSource sha kind e = no_source\<lparr>src_Kind := kind, src_Ref := ev_EventID e,
     src_ContentHash := ''sha256:'' @ sha (ev_RawRecord e), src_EventID := ev_EventID e,
     src_EventName := ev_EventName e, src_EventTime := format_rfc3339 (ev_EventTime e),
     src_ActorARN := ev_ActorARN e, src_SourceIP := ev_SourceIP e, src_SessionContext := ev_SessionContext e\<rparr>"

section \<open>The search\<close>

definition add_candidate :: "string \<Rightarrow> string list \<Rightarrow> string list" where
  "add_candidate v out = (if v \<noteq> [] \<and> v \<notin> set out then out @ [v] else out)"

definition identityCandidates :: "raw \<Rightarrow> string \<Rightarrow> string list" where
  "identityCandidates observed fallback =
     (let m = (case observed of Some (GObj m) \<Rightarrow> m | _ \<Rightarrow> []);
          out = fold (\<lambda>key out. case map_of m key of Some (GStr s) \<Rightarrow> add_candidate s out | _ \<Rightarrow> out)
                  [''id'', ''arn'', ''name''] []
      in add_candidate fallback out)"

definition filterExactMatch :: "CloudTrailEvent list \<Rightarrow> string list \<Rightarrow> CloudTrailEvent list" where
  "filterExactMatch events candidates = filter (\<lambda>e. \<exists>r \<in> set (ev_Resources e). r \<in> set candidates) events"

definition filterByEventName :: "CloudTrailEvent list \<Rightarrow> string list \<Rightarrow> CloudTrailEvent list" where
  "filterByEventName events verbs = filter (\<lambda>e. ev_EventName e \<in> set verbs) events"

definition attributionSources :: "(string \<Rightarrow> string) \<Rightarrow> CloudTrailEvent list \<Rightarrow> string \<Rightarrow> IntentSource list" where
  "attributionSources sha matched kind =
     map (eventSource sha kind) (sort_key (\<lambda>e. (- ev_EventTime e, ev_EventID e)) matched)"

definition attributionSourcesOldestFirst ::
    "(string \<Rightarrow> string) \<Rightarrow> CloudTrailEvent list \<Rightarrow> string \<Rightarrow> IntentSource list" where
  "attributionSourcesOldestFirst sha matched kind =
     map (eventSource sha kind) (sort_key (\<lambda>e. (ev_EventTime e, ev_EventID e)) matched)"

text \<open>The loop over the candidates: what the events of one become, or the next.\<close>

fun searchCandidates ::
    "'w EventLookup \<Rightarrow> (CloudTrailEvent list \<Rightarrow> IntentSource list) \<Rightarrow> AttributionBackend \<Rightarrow> int \<Rightarrow> int \<Rightarrow>
     string list \<Rightarrow> 'w \<Rightarrow> IntentSource list \<times> 'w" where
  "searchCandidates lookup sources backend since until [] w =
     ([unattributed backend (if time_sub until since < ab_DeliveryLag backend then ReasonDeliveryWindow
        else ReasonNoMatchingEvent)], w)"
| "searchCandidates lookup sources backend since until (c # cs) w =
     (case lookup c since until w of
        (Inl e, w) \<Rightarrow> ([unattributed backend ReasonNotLogged], w)
      | (Inr events, w) \<Rightarrow>
          if sources events \<noteq> [] then (sources events, w)
          else searchCandidates lookup sources backend since until cs w)"

definition AttributeDrift ::
    "(string \<Rightarrow> string) \<Rightarrow> 'w EventLookup \<Rightarrow> Address \<Rightarrow> raw \<Rightarrow> int \<Rightarrow> int \<Rightarrow> AttributionBackend \<Rightarrow> 'w \<Rightarrow>
     IntentSource list \<times> 'w" where
  "AttributeDrift sha lookup addr observed since until backend =
     (let candidates = identityCandidates observed (addr_Name addr)
      in searchCandidates lookup
           (\<lambda>events. attributionSources sha (filterExactMatch events candidates) (ab_SuccessKind backend))
           backend since until candidates)"

definition AttributeGenesis ::
    "(string \<Rightarrow> string) \<Rightarrow> 'w EventLookup \<Rightarrow> Address \<Rightarrow> raw \<Rightarrow> int \<Rightarrow> int \<Rightarrow> AttributionBackend \<Rightarrow> string list \<Rightarrow> 'w \<Rightarrow>
     IntentSource list \<times> 'w" where
  "AttributeGenesis sha lookup addr observed since until backend creationVerbs w =
     (if creationVerbs = [] then ([unattributed backend ReasonNoCreationVerbs], w)
      else let candidates = identityCandidates observed (addr_Name addr)
           in searchCandidates lookup
                (\<lambda>events. attributionSourcesOldestFirst sha
                   (filterByEventName (filterExactMatch events candidates) creationVerbs) (ab_SuccessKind backend))
                backend since until candidates w)"

section \<open>What an attribution says\<close>

definition names_resource :: "raw \<Rightarrow> Address \<Rightarrow> CloudTrailEvent \<Rightarrow> bool" where
  "names_resource observed addr e \<longleftrightarrow>
     (\<exists>r \<in> set (ev_Resources e). r \<noteq> [] \<and>
        (r = addr_Name addr \<or> (\<exists>m. observed = Some (GObj m) \<and> (\<exists>k \<in> {''id'', ''arn'', ''name''}. map_of m k = Some (GStr r)))))"

lemma add_candidate_set: "set (add_candidate v out) = set out \<union> (if v = [] then {} else {v})"
  by (auto simp: add_candidate_def)

lemma identityCandidates_set:
  "c \<in> set (identityCandidates observed fallback) \<longleftrightarrow>
     c \<noteq> [] \<and> (c = fallback \<or> (\<exists>m. observed = Some (GObj m) \<and> (\<exists>k \<in> {''id'', ''arn'', ''name''}. map_of m k = Some (GStr c))))"
proof -
  let ?m = "case observed of Some (GObj m) \<Rightarrow> m | _ \<Rightarrow> []"
  let ?add = "\<lambda>key out. case map_of ?m key of Some (GStr s) \<Rightarrow> add_candidate s out | _ \<Rightarrow> out"
  have "c \<in> set (fold ?add ks out) \<longleftrightarrow> c \<in> set out \<or> c \<noteq> [] \<and> (\<exists>k \<in> set ks. map_of ?m k = Some (GStr c))" for ks out
  proof (induction ks arbitrary: out)
    case (Cons k ks)
    have "c \<in> set (?add k out) \<longleftrightarrow> c \<in> set out \<or> c \<noteq> [] \<and> map_of ?m k = Some (GStr c)"
      by (auto simp: add_candidate_set split: option.splits gval.splits if_splits)
    then show ?case using Cons.IH [of "?add k out"] by auto
  qed simp
  from this [of "[''id'', ''arn'', ''name'']" "[]"]
  have "c \<in> set (identityCandidates observed fallback) \<longleftrightarrow>
      c \<noteq> [] \<and> (c = fallback \<or> (\<exists>k \<in> {''id'', ''arn'', ''name''}. map_of ?m k = Some (GStr c)))"
    unfolding identityCandidates_def Let_def add_candidate_set Un_iff by auto
  then show ?thesis by (auto split: option.splits gval.splits)
qed

lemma filterExactMatch_names:
  "filterExactMatch events (identityCandidates observed (addr_Name addr)) = filter (names_resource observed addr) events"
  by (auto simp: filterExactMatch_def names_resource_def identityCandidates_set intro!: filter_cong)

text \<open>
  What a search may answer. Either one candidate was looked up with success, and the sources are exactly
  the wanted events of that answer in the given order; or a look up failed, and that is recorded; or every
  candidate was looked up and none had a wanted event, and the reason says whether that is final.
\<close>

definition explains ::
    "(string \<Rightarrow> string) \<Rightarrow> 'w EventLookup \<Rightarrow> int \<Rightarrow> int \<Rightarrow> AttributionBackend \<Rightarrow> string list \<Rightarrow>
     (CloudTrailEvent \<Rightarrow> bool) \<Rightarrow> (CloudTrailEvent \<Rightarrow> CloudTrailEvent \<Rightarrow> bool) \<Rightarrow> IntentSource list \<Rightarrow> bool" where
  "explains sha lookup since until backend candidates wanted le out \<longleftrightarrow>
     (\<exists>c \<in> set candidates. \<exists>v answer v' events. lookup c since until v = (Inr answer, v') \<and>
        events \<noteq> [] \<and> mset events = mset (filter wanted answer) \<and> sorted_wrt le events \<and>
        out = map (eventSource sha (ab_SuccessKind backend)) events) \<or>
     (\<exists>c \<in> set candidates. \<exists>v e v'. lookup c since until v = (Inl e, v') \<and>
        out = [unattributed backend ReasonNotLogged]) \<or>
     (\<forall>c \<in> set candidates. \<exists>v answer v'. lookup c since until v = (Inr answer, v') \<and> filter wanted answer = []) \<and>
     out = [unattributed backend (if time_sub until since < ab_DeliveryLag backend then ReasonDeliveryWindow
        else ReasonNoMatchingEvent)]"

lemma explains_Cons:
  assumes "explains sha lookup since until backend cs wanted le out"
    and "lookup c since until w = (Inr answer, w')" "filter wanted answer = []"
  shows "explains sha lookup since until backend (c # cs) wanted le out"
  using assms(1) [unfolded explains_def]
proof (elim disjE conjE)
  assume "\<forall>c \<in> set cs. \<exists>v answer v'. lookup c since until v = (Inr answer, v') \<and> filter wanted answer = []"
  then have "\<forall>c \<in> set (c # cs). \<exists>v answer v'. lookup c since until v = (Inr answer, v') \<and> filter wanted answer = []"
    using assms(2,3) by auto
  moreover assume "out = [unattributed backend (if time_sub until since < ab_DeliveryLag backend then ReasonDeliveryWindow
        else ReasonNoMatchingEvent)]"
  ultimately show ?thesis unfolding explains_def by (intro disjI2 conjI)
next
  assume "\<exists>c \<in> set cs. \<exists>v e v'. lookup c since until v = (Inl e, v') \<and> out = [unattributed backend ReasonNotLogged]"
  then show ?thesis unfolding explains_def by (intro disjI2 disjI1) auto
next
  assume "\<exists>c \<in> set cs. \<exists>v answer v' events. lookup c since until v = (Inr answer, v') \<and>
        events \<noteq> [] \<and> mset events = mset (filter wanted answer) \<and> sorted_wrt le events \<and>
        out = map (eventSource sha (ab_SuccessKind backend)) events"
  then show ?thesis unfolding explains_def by (intro disjI1) auto
qed

lemma sorted_wrt_sort_key: "sorted_wrt (\<lambda>x y. f x \<le> f y) (sort_key f xs)"
  using sorted_sort_key [of f xs] by (simp add: sorted_map)

lemma searchCandidates_explains:
  fixes key :: "CloudTrailEvent \<Rightarrow> 'k::linorder"
  assumes "\<And>events. sources events =
      map (eventSource sha (ab_SuccessKind backend)) (sort_key key (filter wanted events))"
    and "\<And>x y. key x \<le> key y \<Longrightarrow> le x y"
  shows "explains sha lookup since until backend cs wanted le
    (fst (searchCandidates lookup sources backend since until cs w))"
proof (induction cs arbitrary: w)
  case Nil
  then show ?case by (simp add: explains_def)
next
  case (Cons c cs)
  obtain r w' where look: "lookup c since until w = (r, w')" by fastforce
  show ?case
  proof (cases r)
    case (Inl e)
    then show ?thesis using look by (auto simp: explains_def)
  next
    case (Inr answer)
    let ?events = "sort_key key (filter wanted answer)"
    show ?thesis
    proof (cases "filter wanted answer = []")
      case True
      then have "sources answer = []" using assms(1) [of answer] by simp
      then show ?thesis using explains_Cons [OF Cons.IH [of w'] _ True] look Inr by simp
    next
      case False
      have "sorted_wrt le ?events"
        using sorted_wrt_sort_key [of key "filter wanted answer"] assms(2) by (rule sorted_wrt_mono_rel [rotated]) auto
      moreover have "?events \<noteq> []" "mset ?events = mset (filter wanted answer)"
        using False mset_sort [of key "filter wanted answer"] by (auto simp flip: mset_zero_iff simp del: mset_filter)
      moreover have "sources answer = map (eventSource sha (ab_SuccessKind backend)) ?events" by (rule assms(1))
      ultimately show ?thesis using look Inr unfolding explains_def by (intro disjI1) fastforce
    qed
  qed
qed

lemma AttributeDrift_explains:
  "explains sha lookup since until backend (identityCandidates observed (addr_Name addr))
     (names_resource observed addr) (\<lambda>a b. ev_EventTime b \<le> ev_EventTime a)
     (fst (AttributeDrift sha lookup addr observed since until backend w))"
  unfolding AttributeDrift_def Let_def
  by (rule searchCandidates_explains [where key = "\<lambda>e. (- ev_EventTime e, ev_EventID e)"])
    (auto simp: attributionSources_def filterExactMatch_names)

lemma AttributeGenesis_no_verbs [simp]:
  "AttributeGenesis sha lookup addr observed since until backend [] w =
     ([unattributed backend ReasonNoCreationVerbs], w)"
  by (simp add: AttributeGenesis_def)

lemma AttributeGenesis_explains:
  assumes "verbs \<noteq> []"
  shows "explains sha lookup since until backend (identityCandidates observed (addr_Name addr))
    (\<lambda>e. names_resource observed addr e \<and> ev_EventName e \<in> set verbs) (\<lambda>a b. ev_EventTime a \<le> ev_EventTime b)
    (fst (AttributeGenesis sha lookup addr observed since until backend verbs w))"
  unfolding AttributeGenesis_def Let_def if_not_P [OF assms]
  by (rule searchCandidates_explains [where key = "\<lambda>e. (ev_EventTime e, ev_EventID e)"])
    (auto simp: attributionSourcesOldestFirst_def filterByEventName_def filterExactMatch_names conj_commute)

text \<open>
  C30. What attribution says is what the audit log answered. An attribution of a drift lists exactly the events of
  one answer that name the resource, by its observed id, arn or name or by its name in the address, each
  once and newest first; one of a creation lists those with a creation verb, oldest first. Otherwise the
  one source that is recorded says why there is none: the look up failed, or every identity was looked up
  without such an event.
\<close>

theorem attribution_sound:
  "explains sha lookup since until backend (identityCandidates observed (addr_Name addr))
     (names_resource observed addr) (\<lambda>a b. ev_EventTime b \<le> ev_EventTime a)
     (fst (AttributeDrift sha lookup addr observed since until backend w)) \<and>
   (if verbs = [] then fst (AttributeGenesis sha lookup addr observed since until backend verbs w) =
      [unattributed backend ReasonNoCreationVerbs]
    else explains sha lookup since until backend (identityCandidates observed (addr_Name addr))
      (\<lambda>e. names_resource observed addr e \<and> ev_EventName e \<in> set verbs) (\<lambda>a b. ev_EventTime a \<le> ev_EventTime b)
      (fst (AttributeGenesis sha lookup addr observed since until backend verbs w)))"
  by (simp add: AttributeDrift_explains AttributeGenesis_explains)

end
