(* ===== verification/Evidence.thy ===== *)
theory Evidence
  imports Attribution
begin

text \<open>
  cli/attribution.go with the backends of audit/cloudtrail, audit/gcp, audit/k8s and audit/azure: how a
  proposal that a scan generated comes by its evidence of who changed or created the resource. The clients
  of the four audit logs are parameters. It is proved when the proposal is still valid with its evidence.
\<close>

section \<open>The window\<close>

text \<open>The first create of the address that shipped and says when.\<close>

fun shippedCreateAt :: "'s store_ops \<Rightarrow> 's \<Rightarrow> string \<Rightarrow> Address \<Rightarrow> raw list \<Rightarrow> (err, int option) res" where
  "shippedCreateAt ops s pid addr [] = Inr None"
| "shippedCreateAt ops s pid addr (r # rs) =
     (if createNodeAddress r \<noteq> Some addr \<or> \<not> isChangeCreateNode r then shippedCreateAt ops s pid addr rs
      else rbind (shippedCreateFold ops s pid addr) (\<lambda>shipped. case shipped of
          None \<Rightarrow> shippedCreateAt ops s pid addr rs
        | Some (result, lookup, appliedAt) \<Rightarrow>
            if appliedAt = [] then shippedCreateAt ops s pid addr rs
            else (case parse_rfc3339 appliedAt of
                None \<Rightarrow> Inl (EMsg ''bad applied-at'') | Some t \<Rightarrow> Inr (Some t))))"

fun lastObservation :: "'s store_ops \<Rightarrow> 's \<Rightarrow> Address \<Rightarrow> Proposal list \<Rightarrow> (err, int option) res" where
  "lastObservation ops s addr [] = Inr None"
| "lastObservation ops s addr (p # ps) =
     (if \<exists>i \<in> set (rs_Inputs (p_Resolution p)). in_Resource i = addr_String addr then
        (case parse_rfc3339 (rs_ResolvedAt (p_Resolution p)) of
           None \<Rightarrow> Inl (EMsg ''bad resolved_at'') | Some t \<Rightarrow> Inr (Some t))
      else if p_Kind p \<noteq> KindChange then lastObservation ops s addr ps
      else rbind (shippedCreateAt ops s (p_ID p) addr (d_Creates (p_Delta p))) (\<lambda>at. case at of
          None \<Rightarrow> lastObservation ops s addr ps
        | Some t \<Rightarrow> Inr (Some t)))"

definition LastObservationTime :: "'s store_ops \<Rightarrow> 's \<Rightarrow> Address \<Rightarrow> (err, int option) res option" where
  "LastObservationTime ops s addr = with_chain (Chain ops s) (\<lambda>chain. lastObservation ops s addr (rev chain))"

definition minutes :: "int \<Rightarrow> int" where
  "minutes n = n * 60 * 1000000000"

definition retention :: int where
  "retention = 90 * 24 * minutes 60"

section \<open>Backends\<close>

definition cloudtrail_Backend :: AttributionBackend where
  "cloudtrail_Backend = \<lparr>ab_Name = [], ab_SuccessKind = ''cloudtrail'',
     ab_UnattributedKind = ''cloudtrail_unattributed'', ab_DeliveryLag = minutes 15\<rparr>"

definition gcp_Backend :: AttributionBackend where
  "gcp_Backend = \<lparr>ab_Name = ''gcp_audit_logs'', ab_SuccessKind = ''gcp_audit'',
     ab_UnattributedKind = ''audit_unattributed'', ab_DeliveryLag = minutes 3\<rparr>"

definition k8s_Backend :: AttributionBackend where
  "k8s_Backend = \<lparr>ab_Name = ''k8s_audit_logs'', ab_SuccessKind = ''k8s_audit'',
     ab_UnattributedKind = ''audit_unattributed'', ab_DeliveryLag = minutes 5\<rparr>"

definition azure_Backend :: AttributionBackend where
  "azure_Backend = \<lparr>ab_Name = ''azure_activity_log'', ab_SuccessKind = ''azure_activity_log'',
     ab_UnattributedKind = ''audit_unattributed'', ab_DeliveryLag = minutes 5\<rparr>"

record K8sAuditConfig =
  k8_Cluster :: string
  k8_Region :: string
  k8_LogGroup :: string

text \<open>The constructors of the four clients: from a project, a region and a log group, a subscription, a region.\<close>

record 'w audit_clients =
  gcp_New :: "string \<Rightarrow> ('w, err, 'w EventLookup) op"
  k8s_New :: "string \<Rightarrow> string \<Rightarrow> ('w, err, 'w EventLookup) op"
  azure_New :: "string \<Rightarrow> ('w, err, 'w EventLookup) op"
  cloudtrail_New :: "string \<Rightarrow> ('w, err, 'w EventLookup) op"

definition config_field :: "string \<Rightarrow> raw \<Rightarrow> string" where
  "config_field key cfg = (case cfg of Some (GObj m) \<Rightarrow> get_str m key | _ \<Rightarrow> [])"

definition regionFromProviderConfig :: "raw \<Rightarrow> string" where
  "regionFromProviderConfig cfg = config_field ''region'' cfg"

definition projectFromProviderConfig :: "raw \<Rightarrow> string" where
  "projectFromProviderConfig cfg = config_field ''project'' cfg"

definition subscriptionFromProviderConfig :: "raw \<Rightarrow> string" where
  "subscriptionFromProviderConfig cfg = config_field ''subscription_id'' cfg"

definition LogGroupForCluster :: "string \<Rightarrow> string" where
  "LogGroupForCluster cluster = ''/aws/eks/'' @ cluster @ ''/cluster''"

datatype backendErr = errK8sAuditNotConfigured | errBackend err

definition backend_of ::
    "AttributionBackend \<Rightarrow> ('w, err, 'w EventLookup) op \<Rightarrow> 'w \<Rightarrow>
     ((backendErr, 'w EventLookup) res \<times> AttributionBackend) \<times> 'w" where
  "backend_of backend new w = (case new w of
      (Inl e, w) \<Rightarrow> ((Inl (errBackend e), backend), w)
    | (Inr lookup, w) \<Rightarrow> ((Inr lookup, backend), w))"

definition newAttributionBackend ::
    "'w audit_clients \<Rightarrow> string \<Rightarrow> raw \<Rightarrow> K8sAuditConfig \<Rightarrow> 'w \<Rightarrow>
     ((backendErr, 'w EventLookup) res \<times> AttributionBackend) \<times> 'w" where
  "newAttributionBackend clients providerSource providerConfig k8sAudit w =
     (if providerSource = ''hashicorp/google'' then
        backend_of gcp_Backend (gcp_New clients (projectFromProviderConfig providerConfig)) w
      else if providerSource = ''hashicorp/kubernetes'' \<or> providerSource = ''hashicorp/helm'' then
        (if k8_Cluster k8sAudit = [] then ((Inl errK8sAuditNotConfigured, k8s_Backend), w)
         else let logGroup = (if k8_LogGroup k8sAudit = [] then LogGroupForCluster (k8_Cluster k8sAudit)
                              else k8_LogGroup k8sAudit)
              in backend_of k8s_Backend (k8s_New clients (k8_Region k8sAudit) logGroup) w)
      else if providerSource = ''hashicorp/azurerm'' then
        backend_of azure_Backend (azure_New clients (subscriptionFromProviderConfig providerConfig)) w
      else backend_of cloudtrail_Backend (cloudtrail_New clients (regionFromProviderConfig providerConfig)) w)"

section \<open>Evidence\<close>

definition ReasonNotConfigured :: string where "ReasonNotConfigured = ''not_configured''"

definition appendSources :: "IntentSource list \<Rightarrow> Proposal \<Rightarrow> Proposal" where
  "appendSources sources p =
     p\<lparr>p_Intent := (p_Intent p)\<lparr>int_Sources := int_Sources (p_Intent p) @ sources\<rparr>\<rparr>"

definition noBackend :: "backendErr \<Rightarrow> AttributionBackend \<Rightarrow> IntentSource" where
  "noBackend e backend =
     unattributed backend (if e = errK8sAuditNotConfigured then ReasonNotConfigured else ReasonNotLogged)"

text \<open>What both do with the backend: its error is recorded, or its search is.\<close>

definition attached ::
    "('w EventLookup \<Rightarrow> 'w \<Rightarrow> IntentSource list \<times> 'w) \<Rightarrow> Proposal \<Rightarrow> (backendErr, 'w EventLookup) res \<Rightarrow>
     AttributionBackend \<Rightarrow> 'w \<Rightarrow> Proposal \<times> 'w" where
  "attached search p r backend w = (case r of
      Inl e \<Rightarrow> (appendSources [noBackend e backend] p, w)
    | Inr lookup \<Rightarrow> (case search lookup w of (sources, w) \<Rightarrow> (appendSources sources p, w)))"

definition resolved_or :: "Proposal \<Rightarrow> int \<Rightarrow> int" where
  "resolved_or p now = (case parse_rfc3339 (rs_ResolvedAt (p_Resolution p)) of None \<Rightarrow> now | Some t \<Rightarrow> t)"

definition attributeDrift ::
    "(string \<Rightarrow> string) \<Rightarrow> 'w audit_clients \<Rightarrow> 's store_ops \<Rightarrow> 's \<Rightarrow> Address \<Rightarrow> raw \<Rightarrow> Proposal \<Rightarrow> raw \<Rightarrow> string \<Rightarrow>
     K8sAuditConfig \<Rightarrow> int \<Rightarrow> 'w \<Rightarrow> (Proposal \<times> 'w) option" where
  "attributeDrift sha clients ops s addr observed p providerConfig providerSource k8sAudit now w =
     map_option (\<lambda>seen.
       let since = (case seen of Inr (Some t) \<Rightarrow> t | _ \<Rightarrow> now - retention);
           until = resolved_or p now
       in case newAttributionBackend clients providerSource providerConfig k8sAudit w of
            ((r, backend), w) \<Rightarrow>
              attached (\<lambda>lookup. AttributeDrift sha lookup addr observed since until backend) p r backend w)
       (LastObservationTime ops s addr)"

definition attributeGenesis ::
    "(string \<Rightarrow> string) \<Rightarrow> 'w audit_clients \<Rightarrow> Address \<Rightarrow> raw \<Rightarrow> Proposal \<Rightarrow> raw \<Rightarrow> string \<Rightarrow>
     K8sAuditConfig \<Rightarrow> string list \<Rightarrow> int \<Rightarrow> 'w \<Rightarrow> Proposal \<times> 'w" where
  "attributeGenesis sha clients addr observed p providerConfig providerSource k8sAudit creationVerbs now w =
     (let until = resolved_or p now; since = until - retention
      in case newAttributionBackend clients providerSource providerConfig k8sAudit w of
           ((r, backend), w) \<Rightarrow>
             attached (\<lambda>lookup. AttributeGenesis sha lookup addr observed since until backend creationVerbs) p r backend w)"

text \<open>What a card shows of the recorded evidence; the colours and words are left out.\<close>

definition recordedAttributedActor :: "IntentSource list \<Rightarrow> IntentSource option" where
  "recordedAttributedActor sources = find isActorSource sources"

definition recordedUnattributedReason :: "IntentSource list \<Rightarrow> (string \<times> string) option" where
  "recordedUnattributedReason sources =
     map_option (\<lambda>s. (src_Reason s, src_Backend s))
       (find (\<lambda>s. src_Kind s = ''cloudtrail_unattributed'' \<or> src_Kind s = ''audit_unattributed'') sources)"

fun newestAdoption :: "Proposal list \<Rightarrow> (IntentSource \<times> string) option" where
  "newestAdoption [] = None"
| "newestAdoption (p # ps) =
     (if p_Kind p \<noteq> KindDriftAdopt \<and> p_Kind p \<noteq> KindAdoption then newestAdoption ps
      else map_option (\<lambda>s. (s, p_Kind p)) (recordedAttributedActor (int_Sources (p_Intent p))))"

definition lastRecordedAttribution :: "'s store_ops \<Rightarrow> 's \<Rightarrow> Address \<Rightarrow> (IntentSource \<times> string) option option" where
  "lastRecordedAttribution ops s addr =
     map_option (\<lambda>r. case r of Inl e \<Rightarrow> None | Inr proposals \<Rightarrow> newestAdoption (rev proposals))
       (ProposalsForAddress ops s addr)"

section \<open>Evidence and validity\<close>

lemma format_rfc3339_nonempty [simp]: "format_rfc3339 t \<noteq> []"
  by (simp add: format_rfc3339_def Let_def split: prod.split)

lemma sourceField_cases:
  "sourceField (eventSource sha kind e) f \<Longrightarrow> f \<in> set (sourceFieldsByKind ''cloudtrail'')"
  by (auto simp: sourceField_def eventSource_def no_source_def sourceFieldsByKind_def)

lemma event_time_set: "sourceField (eventSource sha kind e) ''event_time''"
  by (simp add: sourceField_def eventSource_def)

lemma unattributed_ok:
  "ab_UnattributedKind backend \<in> {''cloudtrail_unattributed'', ''audit_unattributed''} \<Longrightarrow>
     sources_ok [unattributed backend reason]"
  by (auto simp: sources_ok_def sourceField_def unattributed_def no_source_def sourceFieldsByKind_def)

lemma sources_ok_append: "sources_ok (xs @ ys) \<longleftrightarrow> sources_ok xs \<and> sources_ok ys"
  by (auto simp: sources_ok_def)

lemma Validate_appendSources:
  "Validate (appendSources sources p) = Inr () \<longleftrightarrow> Validate p = Inr () \<and> sources_ok sources"
proof -
  have same: "modifies_proved (appendSources sources p) = modifies_proved p"
    "destroys_proved (appendSources sources p) = destroys_proved p" "kind_ok (appendSources sources p) = kind_ok p"
    by (simp_all add: appendSources_def modifies_proved_def destroys_proved_def kind_ok_def)
  have valid: "Validate q = Inr () \<longleftrightarrow> modifies_proved q \<and> destroys_proved q \<and> kind_ok q \<and>
      sources_ok (int_Sources (p_Intent q)) \<and> (\<forall>m \<in> set (d_Modifies (p_Delta q)). sources_ok (mod_Sources m)) \<and>
      (\<forall>d \<in> set (d_Destroys (p_Delta q)). sources_ok (des_Sources d))" for q
    by (rule Validate_accepts)
  show ?thesis unfolding valid same by (auto simp: appendSources_def sources_ok_append)
qed

definition only_unattributed :: "IntentSource list \<Rightarrow> bool" where
  "only_unattributed sources \<longleftrightarrow> (\<forall>s \<in> set sources. src_Kind s \<in> {''cloudtrail_unattributed'', ''audit_unattributed''})"

text \<open>What a backend says that ran a search: an explanation without an event, or events of its kind.\<close>

lemma explains_sources:
  assumes "explains sha lookup since until backend cs wanted le sources"
  shows "(\<exists>reason. sources = [unattributed backend reason]) \<or>
    (\<exists>events. events \<noteq> [] \<and> sources = map (eventSource sha (ab_SuccessKind backend)) events)"
  using assms unfolding explains_def by blast

lemma explained_sources_ok:
  assumes "(\<exists>reason. sources = [unattributed backend reason]) \<or>
    (\<exists>events. events \<noteq> [] \<and> sources = map (eventSource sha (ab_SuccessKind backend)) events)"
    and "ab_UnattributedKind backend \<in> {''cloudtrail_unattributed'', ''audit_unattributed''}"
    and "ab_SuccessKind backend \<notin> {''cloudtrail_unattributed'', ''audit_unattributed''}"
    and "sourceFieldsByKind (ab_SuccessKind backend) \<in> {sourceFieldsByKind ''cloudtrail'', []}"
  shows "sources_ok sources \<longleftrightarrow> only_unattributed sources \<or> sourceFieldsByKind (ab_SuccessKind backend) \<noteq> []"
  using assms(1)
proof (elim disjE exE conjE)
  fix reason assume "sources = [unattributed backend reason]"
  then show ?thesis using assms(2) unattributed_ok [OF assms(2)] by (simp add: only_unattributed_def unattributed_def)
next
  fix events assume e: "events \<noteq> []" "sources = map (eventSource sha (ab_SuccessKind backend)) events"
  have kind: "src_Kind (eventSource sha k x) = k" for k x by (simp add: eventSource_def)
  have not_un: "\<not> only_unattributed sources"
    using e assms(3) by (cases events) (simp_all add: only_unattributed_def kind)
  show ?thesis
  proof (cases "sourceFieldsByKind (ab_SuccessKind backend) = []")
    case True
    then have "\<not> sources_ok sources" using e event_time_set [of sha "ab_SuccessKind backend"]
      by (cases events) (auto simp: sources_ok_def kind)
    then show ?thesis using True not_un by simp
  next
    case False
    then have "sources_ok sources" using e assms(4) sourceField_cases
      by (auto simp: sources_ok_def kind)
    then show ?thesis using False by simp
  qed
qed

definition unlisted :: "string \<Rightarrow> bool" where
  "unlisted providerSource \<longleftrightarrow> providerSource \<in> {''hashicorp/kubernetes'', ''hashicorp/helm'', ''hashicorp/azurerm''}"

lemma newAttributionBackend_kinds:
  assumes "newAttributionBackend clients src cfg k8sAudit w = ((r, backend), w')"
  shows "ab_UnattributedKind backend \<in> {''cloudtrail_unattributed'', ''audit_unattributed''} \<and>
    ab_SuccessKind backend \<notin> {''cloudtrail_unattributed'', ''audit_unattributed''} \<and>
    sourceFieldsByKind (ab_SuccessKind backend) \<in> {sourceFieldsByKind ''cloudtrail'', []} \<and>
    (sourceFieldsByKind (ab_SuccessKind backend) = [] \<longleftrightarrow> unlisted src)"
proof -
  have "backend = (if src = ''hashicorp/google'' then gcp_Backend
      else if src = ''hashicorp/kubernetes'' \<or> src = ''hashicorp/helm'' then k8s_Backend
      else if src = ''hashicorp/azurerm'' then azure_Backend else cloudtrail_Backend)"
    using assms by (auto simp: newAttributionBackend_def backend_of_def Let_def split: prod.splits sum.splits if_splits)
  then show ?thesis
    by (simp add: unlisted_def gcp_Backend_def k8s_Backend_def azure_Backend_def cloudtrail_Backend_def sourceFieldsByKind_def)
qed

lemma noBackend_explained: "\<exists>reason. [noBackend e backend] = [unattributed backend reason]"
  unfolding noBackend_def by blast

lemma drift_explained:
  "(\<exists>reason. fst (AttributeDrift sha lookup addr observed since until backend w) = [unattributed backend reason]) \<or>
   (\<exists>events. events \<noteq> [] \<and> fst (AttributeDrift sha lookup addr observed since until backend w) =
      map (eventSource sha (ab_SuccessKind backend)) events)"
  by (rule explains_sources [OF AttributeDrift_explains])

lemma genesis_explained:
  "(\<exists>reason. fst (AttributeGenesis sha lookup addr observed since until backend verbs w) = [unattributed backend reason]) \<or>
   (\<exists>events. events \<noteq> [] \<and> fst (AttributeGenesis sha lookup addr observed since until backend verbs w) =
      map (eventSource sha (ab_SuccessKind backend)) events)"
proof (cases "verbs = []")
  case True
  then show ?thesis by (intro disjI1) (simp, blast)
next
  case False
  then show ?thesis by (rule explains_sources [OF AttributeGenesis_explains])
qed

lemma attached_explained:
  assumes "attached search p r backend w = (p', w')"
    and "\<And>lookup. (\<exists>reason. fst (search lookup w) = [unattributed backend reason]) \<or>
    (\<exists>events. events \<noteq> [] \<and> fst (search lookup w) = map (eventSource sha (ab_SuccessKind backend)) events)"
  shows "\<exists>sources. p' = appendSources sources p \<and>
    ((\<exists>reason. sources = [unattributed backend reason]) \<or>
     (\<exists>events. events \<noteq> [] \<and> sources = map (eventSource sha (ab_SuccessKind backend)) events))"
proof (cases r)
  case (Inl e)
  then have "p' = appendSources [noBackend e backend] p" using assms(1) by (simp add: attached_def)
  then show ?thesis using noBackend_explained by blast
next
  case (Inr lookup)
  then have "p' = appendSources (fst (search lookup w)) p"
    using assms(1) by (simp add: attached_def split: prod.splits)
  then show ?thesis using assms(2) [of lookup] by blast
qed

text \<open>
  C9. Evidence that cannot be kept. What a scan attaches to its proposal never blocks the proposal as long as the
  log had no event, and never for a resource of AWS or Google. But an event that was found for a resource
  of the Kubernetes, Helm or Azure providers makes the proposal invalid: its kind is none that the table of source
  fields knows, so Validate, and with it every way to accept, refuses the proposal for the event's fields.
\<close>

theorem evidence_refused:
  assumes "attributeDrift sha clients ops s addr observed p cfg src k8sAudit now w = Some (p', w') \<or>
    attributeGenesis sha clients addr observed p cfg src k8sAudit verbs now w = (p', w')"
  shows "\<exists>sources. p' = appendSources sources p \<and>
    (Validate p' = Inr () \<longleftrightarrow> Validate p = Inr () \<and> (only_unattributed sources \<or> \<not> unlisted src))"
proof -
  obtain r backend w1 where b: "newAttributionBackend clients src cfg k8sAudit w = ((r, backend), w1)"
    by (metis prod.collapse)
  have "\<exists>sources. p' = appendSources sources p \<and>
    ((\<exists>reason. sources = [unattributed backend reason]) \<or>
     (\<exists>events. events \<noteq> [] \<and> sources = map (eventSource sha (ab_SuccessKind backend)) events))"
    using assms
  proof
    assume "attributeDrift sha clients ops s addr observed p cfg src k8sAudit now w = Some (p', w')"
    then obtain seen :: "(err, int option) res" where
      eq: "attached (\<lambda>lookup. AttributeDrift sha lookup addr observed (case seen of Inr (Some t) \<Rightarrow> t | _ \<Rightarrow> now - retention)
         (resolved_or p now) backend) p r backend w1 = (p', w')"
      unfolding attributeDrift_def Let_def b prod.case map_option_eq_Some by blast
    show ?thesis by (rule attached_explained [OF eq]) (rule drift_explained)
  next
    assume "attributeGenesis sha clients addr observed p cfg src k8sAudit verbs now w = (p', w')"
    then have eq: "attached (\<lambda>lookup. AttributeGenesis sha lookup addr observed (resolved_or p now - retention)
        (resolved_or p now) backend verbs) p r backend w1 = (p', w')"
      unfolding attributeGenesis_def Let_def b prod.case .
    show ?thesis by (rule attached_explained [OF eq]) (rule genesis_explained)
  qed
  then obtain sources where s: "p' = appendSources sources p"
    "(\<exists>reason. sources = [unattributed backend reason]) \<or>
     (\<exists>events. events \<noteq> [] \<and> sources = map (eventSource sha (ab_SuccessKind backend)) events)" by blast
  have "sources_ok sources \<longleftrightarrow> only_unattributed sources \<or> \<not> unlisted src"
    using explained_sources_ok [OF s(2)] newAttributionBackend_kinds [OF b] by blast
  then show ?thesis using s(1) Validate_appendSources [of sources p] by blast
qed

definition sample_event :: CloudTrailEvent where
  "sample_event = \<lparr>ev_EventID = ''e'', ev_EventName = ''write'', ev_EventTime = 0, ev_ActorARN = ''who'', ev_SourceIP = [],
     ev_SessionContext = None, ev_RawRecord = [], ev_Resources = [''n'']\<rparr>"

text \<open>Clients that connect, and answer every search with the one event.\<close>

definition sample_clients :: "unit audit_clients" where
  "sample_clients =
     (let new = (\<lambda>w. (Inr (\<lambda>c since until w. (Inr [sample_event], w)), w))
      in \<lparr>gcp_New = \<lambda>_. new, k8s_New = \<lambda>_ _. new, azure_New = \<lambda>_. new, cloudtrail_New = \<lambda>_. new\<rparr>)"

definition sample_adopting :: Proposal where
  "sample_adopting = sample_proposal [] [] ''adoption'' \<lparr>d_Creates = [], d_Modifies = [], d_Destroys = []\<rparr> []
     \<lparr>br_Creates = 0, br_Modifies = 0, br_Destroys = 0\<rparr>"

definition sample_evidence :: "string \<Rightarrow> Proposal \<times> unit" where
  "sample_evidence src = attributeGenesis (\<lambda>x. x) sample_clients (Address ''s'' ''t'' ''n'') None sample_adopting None src
     \<lparr>k8_Cluster = ''c'', k8_Region = [], k8_LogGroup = []\<rparr> [''write''] 0 ()"

lemma sample_adopting_valid: "Validate sample_adopting = Inr ()"
  by (simp add: Validate_accepts sample_adopting_def sample_proposal_def modifies_proved_def destroys_proved_def
      kind_ok_def sources_ok_def kind_defs)

lemma sample_evidence_sources:
  "src \<in> {''hashicorp/azurerm'', ''hashicorp/kubernetes'', ''hashicorp/google'', ''hashicorp/aws''} \<Longrightarrow>
     \<not> only_unattributed (int_Sources (p_Intent (fst (sample_evidence src))))"
  by (elim insertE) (simp_all, code_simp+)

lemma evidence_refused_witness:
  "Validate (fst (sample_evidence ''hashicorp/azurerm'')) \<noteq> Inr () \<and>
   Validate (fst (sample_evidence ''hashicorp/kubernetes'')) \<noteq> Inr () \<and>
   Validate (fst (sample_evidence ''hashicorp/google'')) = Inr () \<and>
   Validate (fst (sample_evidence ''hashicorp/aws'')) = Inr ()"
proof -
  have "Validate (fst (sample_evidence src)) = Inr () \<longleftrightarrow> \<not> unlisted src"
    if src: "src \<in> {''hashicorp/azurerm'', ''hashicorp/kubernetes'', ''hashicorp/google'', ''hashicorp/aws''}" for src
  proof -
    have run: "attributeGenesis (\<lambda>x. x) sample_clients (Address ''s'' ''t'' ''n'') None sample_adopting None src
       \<lparr>k8_Cluster = ''c'', k8_Region = [], k8_LogGroup = []\<rparr> [''write''] 0 () = (fst (sample_evidence src), ())"
      by (simp add: prod_eq_iff sample_evidence_def)
    obtain sources where s: "fst (sample_evidence src) = appendSources sources sample_adopting"
      "Validate (fst (sample_evidence src)) = Inr () \<longleftrightarrow> (only_unattributed sources \<or> \<not> unlisted src)"
      using evidence_refused [OF disjI2 [OF run]] sample_adopting_valid by blast
    have "\<not> only_unattributed sources"
      using sample_evidence_sources [OF src] s(1) by (simp add: appendSources_def sample_adopting_def sample_proposal_def)
    then show ?thesis using s(2) by simp
  qed
  then show ?thesis by (simp add: unlisted_def)
qed

end
