(* ===== verification/PinChain.thy ===== *)
theory PinChain
  imports ResolveProps
begin

text \<open>
  core/resolver/pinchain.go: the walk along the pins that a proposal holds on neighbouring ledgers, from
  there along the pins of the pinned proposals, and so on. It is shown to return whenever the pins it can
  reach are finitely many, cycles included, and to list each of them once.
\<close>

section \<open>The walk\<close>

record PinHop =
  hop_Resource :: string
  hop_LedgerDir :: string
  hop_PinnedHead :: string
  hop_CurrentHead :: string
  hop_Stale :: bool

definition isPin :: "ResolutionInput \<Rightarrow> bool" where
  "isPin i \<longleftrightarrow> in_Kind i = ''cross_stack_pin''"

definition pinKey :: "ResolutionInput \<Rightarrow> string" where
  "pinKey i = in_LedgerDir i @ ''@'' @ in_PinnedHead i"

text \<open>One pin: the neighbour is opened, its head is read, and then the pinned proposal.\<close>

definition visitPin ::
    "(string \<Rightarrow> (err, 's ledger) res) \<Rightarrow> ResolutionInput \<Rightarrow> (err, PinHop \<times> Proposal) res" where
  "visitPin opener i =
     rbind (opener (in_LedgerDir i)) (\<lambda>neighbor.
     rbind (so_Head (lg_Ops neighbor) (lg_Store neighbor)) (\<lambda>currentHead.
     rbind (Read (lg_Ops neighbor) (lg_Store neighbor) (in_PinnedHead i)) (\<lambda>pinned.
       Inr (\<lparr>hop_Resource = in_Resource i, hop_LedgerDir = in_LedgerDir i, hop_PinnedHead = in_PinnedHead i,
              hop_CurrentHead = currentHead, hop_Stale = (currentHead \<noteq> in_PinnedHead i)\<rparr>, pinned))))"

type_synonym pin_walk = "string list \<times> PinHop list"

partial_function (option) walkPins ::
    "(string \<Rightarrow> (err, 's ledger) res) \<Rightarrow> ResolutionInput list \<Rightarrow> pin_walk \<Rightarrow> (err, pin_walk) res option" where
  "walkPins opener ins st = (case ins of
      [] \<Rightarrow> Some (Inr st)
    | i # rest \<Rightarrow>
        if \<not> isPin i \<or> pinKey i \<in> set (fst st) then walkPins opener rest st
        else (case visitPin opener i of
            Inl e \<Rightarrow> Some (Inl e)
          | Inr (hop, pinned) \<Rightarrow>
              Option.bind (walkPins opener (rs_Inputs (p_Resolution pinned)) (pinKey i # fst st, snd st @ [hop]))
                (\<lambda>r. case r of Inl e \<Rightarrow> Some (Inl e) | Inr st \<Rightarrow> walkPins opener rest st)))"

definition WalkPinChain ::
    "(string \<Rightarrow> (err, 's ledger) res) \<Rightarrow> Proposal \<Rightarrow> (err, PinHop list) res option" where
  "WalkPinChain opener p = map_option (\<lambda>r. rbind r (\<lambda>st. Inr (snd st)))
     (walkPins opener (rs_Inputs (p_Resolution p)) ([], []))"

lemma walkPins_Nil [simp]: "walkPins opener [] st = Some (Inr st)"
  by (simp add: walkPins.simps)

lemma walkPins_skip: "\<not> isPin i \<or> pinKey i \<in> set (fst st) \<Longrightarrow> walkPins opener (i # rest) st = walkPins opener rest st"
  by (subst walkPins.simps) simp

lemma walkPins_fails:
  "isPin i \<Longrightarrow> pinKey i \<notin> set (fst st) \<Longrightarrow> visitPin opener i = Inl e \<Longrightarrow> walkPins opener (i # rest) st = Some (Inl e)"
  by (subst walkPins.simps) simp

lemma walkPins_visit:
  "isPin i \<Longrightarrow> pinKey i \<notin> set (fst st) \<Longrightarrow> visitPin opener i = Inr (hop, pinned) \<Longrightarrow>
   walkPins opener (i # rest) st =
     Option.bind (walkPins opener (rs_Inputs (p_Resolution pinned)) (pinKey i # fst st, snd st @ [hop]))
       (\<lambda>r. case r of Inl e \<Rightarrow> Some (Inl e) | Inr st \<Rightarrow> walkPins opener rest st)"
  by (subst walkPins.simps) simp

section \<open>What can be reached\<close>

inductive pin_reached :: "(string \<Rightarrow> (err, 's ledger) res) \<Rightarrow> ResolutionInput list \<Rightarrow> ResolutionInput \<Rightarrow> bool"
  for opener ins where
  direct: "i \<in> set ins \<Longrightarrow> isPin i \<Longrightarrow> pin_reached opener ins i"
| onward: "pin_reached opener ins i \<Longrightarrow> visitPin opener i = Inr (hop, pinned) \<Longrightarrow>
     j \<in> set (rs_Inputs (p_Resolution pinned)) \<Longrightarrow> isPin j \<Longrightarrow> pin_reached opener ins j"

definition pin :: "ResolutionInput \<Rightarrow> string \<times> string" where
  "pin i = (in_LedgerDir i, in_PinnedHead i)"

definition hopPin :: "PinHop \<Rightarrow> string \<times> string" where
  "hopPin h = (hop_LedgerDir h, hop_PinnedHead h)"

definition pin_text :: "string \<times> string \<Rightarrow> string" where
  "pin_text x = fst x @ ''@'' @ snd x"

lemma pinKey_pin: "pinKey i = pin_text (pin i)"
  by (simp add: pinKey_def pin_text_def pin_def)

lemma visit_hop: "visitPin opener i = Inr (hop, pinned) \<Longrightarrow> hopPin hop = pin i"
  by (auto simp: visitPin_def hopPin_def pin_def res_simps)

text \<open>A visit depends on the pin alone, but for the resource it names.\<close>

lemma visit_same:
  assumes "pin i = pin j"
  shows "map_sum id snd (visitPin opener i) = map_sum id snd (visitPin opener j)"
  using assms by (simp add: visitPin_def pin_def rbind_def split: sum.split)

text \<open>
  What the walk adds to a state: the pins of its inputs are seen, and so are the pins of every proposal
  it newly visited; the hops are the pins seen, in the order of the visits.
\<close>

definition extends ::
    "(string \<Rightarrow> (err, 's ledger) res) \<Rightarrow> (ResolutionInput \<Rightarrow> bool) \<Rightarrow> ResolutionInput list \<Rightarrow> pin_walk \<Rightarrow> pin_walk \<Rightarrow> bool" where
  "extends opener R ins st st' \<longleftrightarrow>
     set (fst st) \<subseteq> set (fst st') \<and> (\<forall>i \<in> set ins. isPin i \<longrightarrow> pinKey i \<in> set (fst st')) \<and>
     (\<forall>k \<in> set (fst st') - set (fst st). \<exists>i hop pinned. R i \<and> pinKey i = k \<and> visitPin opener i = Inr (hop, pinned) \<and>
        (\<forall>j \<in> set (rs_Inputs (p_Resolution pinned)). isPin j \<longrightarrow> pinKey j \<in> set (fst st'))) \<and>
     (distinct (fst st) \<longrightarrow> distinct (fst st')) \<and>
     (\<exists>hops. snd st' = snd st @ hops \<and> fst st' = rev (map (pin_text \<circ> hopPin) hops) @ fst st \<and>
        (\<forall>h \<in> set hops. \<exists>i pinned. R i \<and> visitPin opener i = Inr (h, pinned)))"

lemma extendsD:
  assumes "extends opener R ins st st'"
  shows "set (fst st) \<subseteq> set (fst st')"
    and "i \<in> set ins \<Longrightarrow> isPin i \<Longrightarrow> pinKey i \<in> set (fst st')"
    and "k \<in> set (fst st') - set (fst st) \<Longrightarrow>
      \<exists>i hop pinned. R i \<and> pinKey i = k \<and> visitPin opener i = Inr (hop, pinned) \<and>
        (\<forall>j \<in> set (rs_Inputs (p_Resolution pinned)). isPin j \<longrightarrow> pinKey j \<in> set (fst st'))"
    and "distinct (fst st) \<Longrightarrow> distinct (fst st')"
    and "\<exists>hops. snd st' = snd st @ hops \<and> fst st' = rev (map (pin_text \<circ> hopPin) hops) @ fst st \<and>
        (\<forall>h \<in> set hops. \<exists>i pinned. R i \<and> visitPin opener i = Inr (h, pinned))"
  using assms unfolding extends_def by (simp, blast, blast, simp, blast)

lemma extends_refl: "(\<And>i. i \<in> set ins \<Longrightarrow> isPin i \<Longrightarrow> pinKey i \<in> set (fst st)) \<Longrightarrow> extends opener R ins st st"
  by (auto simp: extends_def)

lemma extends_skip:
  "\<not> isPin i \<or> pinKey i \<in> set (fst st) \<Longrightarrow> extends opener R rest st st' \<Longrightarrow> extends opener R (i # rest) st st'"
  by (auto simp: extends_def)

lemma extends_visit:
  assumes "R i" "isPin i" "pinKey i \<notin> set (fst st)" "visitPin opener i = Inr (hop, pinned)"
    and first: "extends opener R (rs_Inputs (p_Resolution pinned)) (pinKey i # fst st, snd st @ [hop]) st1"
    and second: "extends opener R rest st1 st2"
  shows "extends opener R (i # rest) st st2"
proof -
  note d1 = extendsD [OF first, unfolded fst_conv snd_conv] and d2 = extendsD [OF second]
  have sub: "insert (pinKey i) (set (fst st)) \<subseteq> set (fst st1)" "set (fst st1) \<subseteq> set (fst st2)"
    using d1(1) d2(1) by auto
  have closed: "\<exists>i hop pinned. R i \<and> pinKey i = k \<and> visitPin opener i = Inr (hop, pinned) \<and>
      (\<forall>j \<in> set (rs_Inputs (p_Resolution pinned)). isPin j \<longrightarrow> pinKey j \<in> set (fst st2))"
    if k: "k \<in> set (fst st2) - set (fst st)" for k
  proof -
    consider "k \<in> set (fst st2) - set (fst st1)" | "k = pinKey i" | "k \<in> set (fst st1) - set (pinKey i # fst st)"
      using k by auto
    then show ?thesis
    proof cases
      case 1
      then show ?thesis by (rule d2(3))
    next
      case 2
      moreover have "\<forall>j \<in> set (rs_Inputs (p_Resolution pinned)). isPin j \<longrightarrow> pinKey j \<in> set (fst st2)"
        using d1(2) sub(2) by blast
      ultimately show ?thesis using assms(1,4) by blast
    next
      case 3
      from d1(3) [OF this] show ?thesis using sub(2) by blast
    qed
  qed
  obtain hops1 where h1: "snd st1 = (snd st @ [hop]) @ hops1"
      "fst st1 = rev (map (pin_text \<circ> hopPin) hops1) @ pinKey i # fst st"
      "\<forall>h \<in> set hops1. \<exists>i pinned. R i \<and> visitPin opener i = Inr (h, pinned)"
    using d1(5) by blast
  obtain hops2 where h2: "snd st2 = snd st1 @ hops2" "fst st2 = rev (map (pin_text \<circ> hopPin) hops2) @ fst st1"
      "\<forall>h \<in> set hops2. \<exists>i pinned. R i \<and> visitPin opener i = Inr (h, pinned)"
    using d2(5) by blast
  have "snd st2 = snd st @ hop # hops1 @ hops2"
      "fst st2 = rev (map (pin_text \<circ> hopPin) (hop # hops1 @ hops2)) @ fst st"
    using h1(1,2) h2(1,2) visit_hop [OF assms(4)] by (simp_all add: pinKey_pin)
  moreover have "\<forall>h \<in> set (hop # hops1 @ hops2). \<exists>i pinned. R i \<and> visitPin opener i = Inr (h, pinned)"
    using h1(3) h2(3) assms(1,4) by auto
  ultimately have hops: "\<exists>hops. snd st2 = snd st @ hops \<and> fst st2 = rev (map (pin_text \<circ> hopPin) hops) @ fst st \<and>
      (\<forall>h \<in> set hops. \<exists>i pinned. R i \<and> visitPin opener i = Inr (h, pinned))" by blast
  show ?thesis unfolding extends_def
  proof (intro conjI ballI impI)
    fix j assume "j \<in> set (i # rest)" "isPin j"
    then show "pinKey j \<in> set (fst st2)" using sub d2(2) by auto
  next
    assume "distinct (fst st)"
    then show "distinct (fst st2)" using d1(4) d2(4) assms(3) by simp
  qed (use sub closed hops in auto)
qed

lemma walkPins_returns:
  assumes "finite K" and R: "\<And>i. R i \<Longrightarrow> pinKey i \<in> K"
    and onward: "\<And>i hop pinned j. R i \<Longrightarrow> visitPin opener i = Inr (hop, pinned) \<Longrightarrow>
      j \<in> set (rs_Inputs (p_Resolution pinned)) \<Longrightarrow> isPin j \<Longrightarrow> R j"
    and "\<forall>i \<in> set ins. isPin i \<longrightarrow> R i"
  shows "\<exists>r. walkPins opener ins st = Some r \<and>
    (case r of Inl e \<Rightarrow> \<exists>i. R i \<and> visitPin opener i = Inl e | Inr st' \<Rightarrow> extends opener R ins st st')"
  using assms(4)
proof (induction "card (K - set (fst st))" arbitrary: ins st rule: less_induct)
  case less
  note outer = less.hyps
  from less.prems show ?case
  proof (induction ins)
    case Nil
    have "extends opener R [] st st" by (rule extends_refl) simp
    then show ?case by simp
  next
    case (Cons i rest)
    show ?case
    proof (cases "\<not> isPin i \<or> pinKey i \<in> set (fst st)")
      case True
      then show ?thesis using Cons walkPins_skip [OF True, of opener rest] extends_skip [OF True, of opener R rest]
        by (auto split: sum.splits)
    next
      case False
      then have i: "isPin i" "pinKey i \<notin> set (fst st)" "R i" using Cons.prems by auto
      show ?thesis
      proof (cases "visitPin opener i")
        case (Inl e)
        then show ?thesis using walkPins_fails [OF i(1,2) Inl] i(3) by auto
      next
        case (Inr x)
        obtain hop pinned where v: "visitPin opener i = Inr (hop, pinned)" using Inr by (cases x) auto
        let ?st0 = "(pinKey i # fst st, snd st @ [hop])"
        have less: "card (K - set (fst st')) < card (K - set (fst st))"
          if "insert (pinKey i) (set (fst st)) \<subseteq> set (fst st')" for st' :: pin_walk
          using that i R assms(1) by (intro psubset_card_mono) auto
        obtain r where r: "walkPins opener (rs_Inputs (p_Resolution pinned)) ?st0 = Some r"
          "case r of Inl e \<Rightarrow> \<exists>i. R i \<and> visitPin opener i = Inl e
           | Inr st' \<Rightarrow> extends opener R (rs_Inputs (p_Resolution pinned)) ?st0 st'"
          using outer [of ?st0 "rs_Inputs (p_Resolution pinned)"] less [of ?st0] onward [OF i(3) v] by auto
        show ?thesis
        proof (cases r)
          case (Inl e)
          then show ?thesis using r walkPins_visit [OF i(1,2) v, of rest] by auto
        next
          case (Inr st1)
          then have e1: "extends opener R (rs_Inputs (p_Resolution pinned)) ?st0 st1" using r(2) by simp
          then have "insert (pinKey i) (set (fst st)) \<subseteq> set (fst st1)" by (auto simp: extends_def)
          then obtain r' where r': "walkPins opener rest st1 = Some r'"
            "case r' of Inl e \<Rightarrow> \<exists>i. R i \<and> visitPin opener i = Inl e | Inr st' \<Rightarrow> extends opener R rest st1 st'"
            using outer [OF less, of st1 rest] Cons.prems by auto
          have "walkPins opener (i # rest) st = Some r'"
            using walkPins_visit [OF i(1,2) v, of rest] r(1) r'(1) Inr by simp
          then show ?thesis using r'(2) extends_visit [OF i(3,1,2) v e1] by (auto split: sum.splits)
        qed
      qed
    qed
  qed
qed

section \<open>What the walk lists\<close>

lemma pin_text_inj:
  "CHR ''@'' \<notin> set h \<Longrightarrow> CHR ''@'' \<notin> set h' \<Longrightarrow> pin_text (d, h) = pin_text (d', h') \<Longrightarrow> d = d' \<and> h = h'"
  by (auto simp: pin_text_def append_eq_append_conv2 append_eq_Cons_conv Cons_eq_append_conv)

lemma VerifyPins_iff:
  "VerifyPins opener ins = Some (Inr ()) \<longleftrightarrow>
     (\<forall>i \<in> set ins. isPin i \<longrightarrow> (\<exists>l. opener (in_LedgerDir i) = Inr l \<and>
        so_Head (lg_Ops l) (lg_Store l) = Inr (in_PinnedHead i)))"
  by (induction ins) (auto simp: isPin_def led_Head_def res_simps split: sum.splits)

lemma visit_parts:
  "visitPin opener i = Inr (hop, pinned) \<Longrightarrow>
     \<exists>l. opener (in_LedgerDir i) = Inr l \<and> so_Head (lg_Ops l) (lg_Store l) = Inr (hop_CurrentHead hop) \<and>
       (hop_Stale hop \<longleftrightarrow> hop_CurrentHead hop \<noteq> in_PinnedHead i)"
  by (auto simp: visitPin_def res_simps)

text \<open>
  C27. The walk along pins returns whenever the pins it can reach are finitely many, however they point back at
  each other. It fails only with the error of a pin it reached. Otherwise it lists every pin that can be
  reached, each once, and shipping would pass its own check of pins exactly when none of the hops that the
  proposal itself pins is stale.
\<close>

theorem pin_chain_exact:
  assumes "finite {pin i |i. pin_reached opener (rs_Inputs (p_Resolution p)) i}"
    and "\<And>i. pin_reached opener (rs_Inputs (p_Resolution p)) i \<Longrightarrow> CHR ''@'' \<notin> set (in_PinnedHead i)"
  shows "\<exists>r. WalkPinChain opener p = Some r \<and> (case r of
      Inl e \<Rightarrow> \<exists>i. pin_reached opener (rs_Inputs (p_Resolution p)) i \<and> visitPin opener i = Inl e
    | Inr hops \<Rightarrow>
        distinct (map hopPin hops) \<and>
        set (map hopPin hops) = {pin i |i. pin_reached opener (rs_Inputs (p_Resolution p)) i} \<and>
        (VerifyPins opener (rs_Inputs (p_Resolution p)) = Some (Inr ()) \<longleftrightarrow>
           (\<forall>h \<in> set hops. hop_Stale h \<longrightarrow> hopPin h \<notin> pin ` {i \<in> set (rs_Inputs (p_Resolution p)). isPin i})))"
proof -
  let ?ins = "rs_Inputs (p_Resolution p)"
  let ?R = "pin_reached opener ?ins"
  have inj: "pin i = pin j" if "?R i" "?R j" "pinKey i = pinKey j" for i j
    using that pin_text_inj [OF assms(2) assms(2), of i j "in_LedgerDir i" "in_LedgerDir j"]
    by (simp add: pinKey_pin pin_def)
  obtain r where r: "walkPins opener ?ins ([], []) = Some r"
    "case r of Inl e \<Rightarrow> \<exists>i. ?R i \<and> visitPin opener i = Inl e | Inr st' \<Rightarrow> extends opener ?R ?ins ([], []) st'"
  proof -
    have "\<exists>r. walkPins opener ?ins ([], []) = Some r \<and>
      (case r of Inl e \<Rightarrow> \<exists>i. ?R i \<and> visitPin opener i = Inl e | Inr st' \<Rightarrow> extends opener ?R ?ins ([], []) st')"
    proof (rule walkPins_returns)
      show "finite (pin_text ` {pin i |i. ?R i})" using assms(1) by simp
      show "pinKey i \<in> pin_text ` {pin i |i. ?R i}" if "?R i" for i using that by (auto simp: pinKey_pin)
      show "?R j" if "?R i" "visitPin opener i = Inr (hop, pinned)" "j \<in> set (rs_Inputs (p_Resolution pinned))" "isPin j"
        for i hop pinned j using that by (rule pin_reached.onward)
    qed (simp add: pin_reached.direct)
    then show ?thesis using that by blast
  qed
  show ?thesis
  proof (cases r)
    case (Inl e)
    then show ?thesis using r by (simp add: WalkPinChain_def)
  next
    case (Inr st)
    then have "extends opener ?R ?ins ([], []) st" using r(2) by simp
    note e = extendsD [OF this, unfolded fst_conv snd_conv]
    obtain hops where h: "snd st = hops" "fst st = rev (map (pin_text \<circ> hopPin) hops)"
        "\<forall>h \<in> set hops. \<exists>i pinned. ?R i \<and> visitPin opener i = Inr (h, pinned)"
      using e(5) by auto
    have seen: "?R i \<Longrightarrow> pinKey i \<in> set (fst st)" for i
    proof (induction rule: pin_reached.induct)
      case (direct i)
      then show ?case by (rule e(2))
    next
      case (onward i hop pinned j)
      then obtain i' hop' pinned' where i': "?R i'" "pinKey i' = pinKey i" "visitPin opener i' = Inr (hop', pinned')"
        "\<forall>j \<in> set (rs_Inputs (p_Resolution pinned')). isPin j \<longrightarrow> pinKey j \<in> set (fst st)"
        using e(3) [of "pinKey i"] by auto
      have "pinned' = pinned"
        using visit_same [OF inj [OF i'(1) onward.hyps(1) i'(2)], of opener] i'(3) onward.hyps(2) by simp
      then show ?case using i'(4) onward.hyps(3,4) by simp
    qed
    have listed: "set (map hopPin hops) = {pin i |i. ?R i}"
    proof (intro equalityI subsetI)
      fix x assume "x \<in> set (map hopPin hops)"
      then obtain hop where "hop \<in> set hops" "x = hopPin hop" by auto
      then show "x \<in> {pin i |i. ?R i}" using h(3) visit_hop by fastforce
    next
      fix x assume "x \<in> {pin i |i. ?R i}"
      then obtain i where i: "?R i" "x = pin i" by auto
      then obtain hop where hop: "hop \<in> set hops" "pinKey i = pin_text (hopPin hop)" using seen [OF i(1)] h(2) by auto
      then obtain j pinned where j: "?R j" "visitPin opener j = Inr (hop, pinned)" using h(3) by blast
      then have "pin i = pin j" using inj [OF i(1) j(1)] hop(2) visit_hop [OF j(2)] by (simp add: pinKey_pin)
      then show "x \<in> set (map hopPin hops)" using i(2) visit_hop [OF j(2)] hop(1) by (metis image_eqI set_map)
    qed
    have once: "distinct (map hopPin hops)"
    proof -
      have "distinct (map pin_text (map hopPin hops))" using e(4) h(2) by simp
      then show ?thesis unfolding distinct_map [of pin_text] by blast
    qed
    have holds: "(\<exists>l. opener (in_LedgerDir i) = Inr l \<and> so_Head (lg_Ops l) (lg_Store l) = Inr (in_PinnedHead i)) \<longleftrightarrow>
        \<not> hop_Stale hop" if hop: "hop \<in> set hops" "hopPin hop = pin i" for i hop
    proof -
      obtain j pinned where j: "visitPin opener j = Inr (hop, pinned)" using h(3) hop(1) by blast
      then have "in_LedgerDir j = in_LedgerDir i" "in_PinnedHead j = in_PinnedHead i"
        using hop(2) visit_hop [OF j] by (simp_all add: pin_def)
      then show ?thesis using visit_parts [OF j] by auto
    qed
    have "VerifyPins opener ?ins = Some (Inr ()) \<longleftrightarrow>
        (\<forall>h \<in> set hops. hop_Stale h \<longrightarrow> hopPin h \<notin> pin ` {i \<in> set ?ins. isPin i})"
      unfolding VerifyPins_iff
    proof (intro iffI ballI impI notI)
      fix hop assume a: "\<forall>i \<in> set ?ins. isPin i \<longrightarrow> (\<exists>l. opener (in_LedgerDir i) = Inr l \<and>
          so_Head (lg_Ops l) (lg_Store l) = Inr (in_PinnedHead i))"
        "hop \<in> set hops" "hop_Stale hop" "hopPin hop \<in> pin ` {i \<in> set ?ins. isPin i}"
      then obtain i where "i \<in> set ?ins" "isPin i" "hopPin hop = pin i" by auto
      then show False using holds [OF a(2)] a(1,3) by blast
    next
      fix i assume a: "\<forall>h \<in> set hops. hop_Stale h \<longrightarrow> hopPin h \<notin> pin ` {i \<in> set ?ins. isPin i}" "i \<in> set ?ins" "isPin i"
      then have "pin i \<in> set (map hopPin hops)" using listed pin_reached.direct by blast
      then obtain hop where hop: "hop \<in> set hops" "hopPin hop = pin i" by auto
      then have "\<not> hop_Stale hop" using a by auto
      then show "\<exists>l. opener (in_LedgerDir i) = Inr l \<and> so_Head (lg_Ops l) (lg_Store l) = Inr (in_PinnedHead i)"
        using holds [OF hop] by blast
    qed
    then show ?thesis using r(1) Inr h(1) once listed by (simp add: WalkPinChain_def)
  qed
qed

text \<open>A proposal that pins a ledger whose head pins itself.\<close>

definition sample_pin :: Proposal where
  "sample_pin = sample_proposal [] [] ''change'' \<lparr>d_Creates = [], d_Modifies = [], d_Destroys = []\<rparr>
     [(sample_input ''cross_stack_pin'' ''s.t.n'' [] None)\<lparr>in_LedgerDir := ''d'', in_PinnedHead := sample_sha []\<rparr>]
     \<lparr>br_Creates = 0, br_Modifies = 0, br_Destroys = 0\<rparr>"

definition sample_opener :: "string \<Rightarrow> (err, git_store ledger) res" where
  "sample_opener dir = Inr (git_ledger (keeping sample_pin))"

lemma distinct_one: "distinct xs \<Longrightarrow> set xs = {x} \<Longrightarrow> xs = [x]"
  by (cases xs) (auto simp: subset_singleton_iff)

lemma sample_visit:
  "pin i = (''d'', sample_sha []) \<Longrightarrow> \<exists>hop. visitPin sample_opener i = Inr (hop, reread sample_pin)"
  using keeping_head [of sample_pin]
  by (simp add: visitPin_def sample_opener_def git_ledger_def keeping_read pin_def)

lemma sample_reached: "pin_reached sample_opener (rs_Inputs (p_Resolution sample_pin)) i \<Longrightarrow> pin i = (''d'', sample_sha [])"
proof (induction rule: pin_reached.induct)
  case (onward i hop pinned j)
  then have "pinned = reread sample_pin" using sample_visit [of i] by auto
  then have "j \<in> set (rs_Inputs (p_Resolution sample_pin))" using onward.hyps(3) by (simp add: reread_def)
  then show ?case by (simp add: sample_pin_def sample_proposal_def pin_def)
qed (simp add: sample_pin_def sample_proposal_def pin_def)

lemma pin_chain_exact_witness:
  "\<exists>hops. WalkPinChain sample_opener sample_pin = Some (Inr hops) \<and> map hopPin hops = [(''d'', sample_sha [])]"
proof -
  let ?R = "pin_reached sample_opener (rs_Inputs (p_Resolution sample_pin))"
  let ?i = "(sample_input ''cross_stack_pin'' ''s.t.n'' [] None)\<lparr>in_LedgerDir := ''d'', in_PinnedHead := sample_sha []\<rparr>"
  have "?R ?i"
    by (rule pin_reached.direct) (simp_all add: sample_pin_def sample_proposal_def isPin_def sample_input_def)
  moreover have "pin ?i = (''d'', sample_sha [])" by (simp add: pin_def)
  ultimately have pins: "{pin i |i. ?R i} = {(''d'', sample_sha [])}"
    using sample_reached by (intro equalityI subsetI) (auto, metis)
  have at: "CHR ''@'' \<notin> set (in_PinnedHead i)" if "?R i" for i
    using sample_reached [OF that] by (simp add: pin_def sample_sha_def)
  have fin: "finite {pin i |i. ?R i}" by (simp add: pins)
  have no: "\<not> (\<exists>e i. ?R i \<and> visitPin sample_opener i = Inl e)"
  proof (intro notI, elim exE conjE)
    fix e i assume i: "?R i" "visitPin sample_opener i = Inl e"
    show False using sample_visit [OF sample_reached [OF i(1)]] i(2) by auto
  qed
  have ev: "(\<exists>e i. ?R i \<and> visitPin sample_opener i = Inl e) \<or>
    (\<exists>hops. WalkPinChain sample_opener sample_pin = Some (Inr hops) \<and> distinct (map hopPin hops) \<and>
       set (map hopPin hops) = {pin i |i. ?R i})"
  proof -
    let ?ins = "rs_Inputs (p_Resolution sample_pin)"
    obtain r where r: "WalkPinChain sample_opener sample_pin = Some r" "case r of
        Inl e \<Rightarrow> \<exists>i. ?R i \<and> visitPin sample_opener i = Inl e
      | Inr hops \<Rightarrow> distinct (map hopPin hops) \<and> set (map hopPin hops) = {pin i |i. ?R i} \<and>
          (VerifyPins sample_opener ?ins = Some (Inr ()) \<longleftrightarrow>
             (\<forall>h \<in> set hops. hop_Stale h \<longrightarrow> hopPin h \<notin> pin ` {i \<in> set ?ins. isPin i}))"
      using pin_chain_exact [OF fin at] by blast
    show ?thesis
    proof (cases r)
      case (Inl e)
      then show ?thesis using r(2) unfolding Inl sum.case by blast
    next
      case (Inr hops)
      show ?thesis using r unfolding Inr sum.case by blast
    qed
  qed
  have "\<exists>hops. WalkPinChain sample_opener sample_pin = Some (Inr hops) \<and> distinct (map hopPin hops) \<and>
      set (map hopPin hops) = {(''d'', sample_sha [])}"
    unfolding pins [symmetric] using ev by (rule disjE) (erule notE [OF no], assumption)
  then obtain hops where hops: "WalkPinChain sample_opener sample_pin = Some (Inr hops)"
      "distinct (map hopPin hops)" "set (map hopPin hops) = {(''d'', sample_sha [])}"
    by (elim exE conjE)
  show ?thesis by (intro exI conjI, rule hops(1), rule distinct_one [OF hops(2,3)])
qed

end
